(* ===== verification/Xv7_Prelude.thy ===== *)
theory Xv7_Prelude
  imports Main "HOL-Library.Word"
begin

text \<open>
  Shared vocabulary of the development.

  \<^item> The C integer types of \<^verbatim>\<open>includes/generic/types.h\<close>.
  \<^item> The outcome of a kernel routine: a routine either returns (\<^term>\<open>Inr\<close>), or it stops
    in one of the ways the C code has of not returning: it calls \<^verbatim>\<open>panic\<close>, it goes to
    sleep on a channel and needs some other party to wake it, or it makes a memory access
    that is outside the object it is meant for.
  \<^item> Sequencing (\<open>rbind\<close>) and bounded loops (\<open>rfold\<close>) over such routines, with the
    rules that proofs about them use.
  \<^item> Little-endian access to the bytes of a disk block.
\<close>

unbundle bit_operations_syntax

section \<open>Integer types\<close>

type_synonym uint = "32 word"
type_synonym ushort = "16 word"
type_synonym uchar = "8 word"

text \<open>A small number is the same read as an \<^verbatim>\<open>int\<close>.\<close>

lemma sint_of_nat_small: "y < 2 ^ 31 \<Longrightarrow> sint (of_nat y :: uint) = int y"
  by (simp add: sint_uint uint_nat unat_of_nat signed_take_bit_int_eq_self)

section \<open>Outcomes of kernel routines\<close>

datatype fault =
    Panic string       \<comment> \<open>\<^verbatim>\<open>panic(msg)\<close>\<close>
  | Sleeps string      \<comment> \<open>\<^verbatim>\<open>sleep(chan, lk)\<close> that only another party can end\<close>
  | BadAccess string   \<comment> \<open>access outside the object named\<close>

type_synonym 'a res = "fault + 'a"

named_theorems res_simps \<open>evaluation of sequencing and loops\<close>

definition rbind :: "'a res \<Rightarrow> ('a \<Rightarrow> 'b res) \<Rightarrow> 'b res" where
  "rbind m f = (case m of Inl e \<Rightarrow> Inl e | Inr x \<Rightarrow> f x)"

lemma rbind_Inr [simp, res_simps]: "rbind (Inr x) f = f x"
  by (simp add: rbind_def)

lemma rbind_Inl [simp, res_simps]: "rbind (Inl e) f = Inl e"
  by (simp add: rbind_def)

lemma rbind_cong [fundef_cong]:
  "m = m' \<Longrightarrow> (\<And>x. m' = Inr x \<Longrightarrow> f x = g x) \<Longrightarrow> rbind m f = rbind m' g"
  by (cases m') auto

lemma rbind_eq_Inr: "rbind m f = Inr y \<longleftrightarrow> (\<exists>x. m = Inr x \<and> f x = Inr y)"
  by (cases m) auto

lemma rbind_assoc: "rbind (rbind m f) g = rbind m (\<lambda>x. rbind (f x) g)"
  by (cases m) auto

lemma rbind_InrE:
  assumes "rbind m f = Inr y"
  obtains x where "m = Inr x" and "f x = Inr y"
  using assms by (auto simp: rbind_eq_Inr)

primrec rfold :: "('i \<Rightarrow> 's \<Rightarrow> 's res) \<Rightarrow> 'i list \<Rightarrow> 's \<Rightarrow> 's res" where
  "rfold f [] s = Inr s"
| "rfold f (x # xs) s = rbind (f x s) (rfold f xs)"

lemma rfold_append: "rfold f (xs @ ys) s = rbind (rfold f xs s) (rfold f ys)"
proof (induction xs arbitrary: s)
  case Nil
  then show ?case by simp
next
  case (Cons x xs)
  then show ?case by (cases "f x s") auto
qed

lemma rfold_snoc: "rfold f (xs @ [x]) s = rbind (rfold f xs s) (f x)"
proof -
  have "rfold f [x] = f x"
    by (rule ext) (simp add: rbind_def split: sum.split)
  then show ?thesis by (simp only: rfold_append)
qed

text \<open>
  The loop rules: an invariant kept by every iteration holds at the end; when every iteration
  returns under the invariant, so does the loop.
\<close>

lemma rfold_inv:
  assumes "rfold f xs s = Inr s'" and "P s"
    and "\<And>x s s'. x \<in> set xs \<Longrightarrow> P s \<Longrightarrow> f x s = Inr s' \<Longrightarrow> P s'"
  shows "P s'"
  using assms
proof (induction xs arbitrary: s)
  case Nil
  then show ?case by simp
next
  case (Cons x xs)
  from Cons.prems(1) obtain t where t: "f x s = Inr t" and rest: "rfold f xs t = Inr s'"
    by (auto simp: rbind_eq_Inr)
  from Cons.prems(2,3) t have "P t" by (meson list.set_intros(1))
  from rest this Cons.prems(3) show ?case
    by (rule Cons.IH) auto
qed

lemma rfold_upt_inv:
  assumes "rfold f [0..<n] s = Inr s'" and "P 0 s"
    and "\<And>i s s'. i < n \<Longrightarrow> P i s \<Longrightarrow> f i s = Inr s' \<Longrightarrow> P (Suc i) s'"
  shows "P n s'"
  using assms
proof (induction n arbitrary: s')
  case 0
  then show ?case by simp
next
  case (Suc n)
  from Suc.prems(1) obtain t where t: "rfold f [0..<n] s = Inr t" and last: "f n t = Inr s'"
    by (auto simp: rfold_snoc rbind_eq_Inr)
  have "P n t"
    by (rule Suc.IH [OF t Suc.prems(2)]) (use Suc.prems(3) in auto)
  with last Suc.prems(3) show ?case by blast
qed

lemma rfold_upt_total:
  assumes "P 0 s"
    and "\<And>i s. i < n \<Longrightarrow> P i s \<Longrightarrow> \<exists>s'. f i s = Inr s' \<and> P (Suc i) s'"
  shows "\<exists>s'. rfold f [0..<n] s = Inr s' \<and> P n s'"
  using assms
proof (induction n)
  case 0
  then show ?case by simp
next
  case (Suc n)
  then obtain t where "rfold f [0..<n] s = Inr t" and "P n t"
    by force
  moreover from Suc.prems(2) [OF _ \<open>P n t\<close>] obtain u where "f n t = Inr u" and "P (Suc n) u"
    by auto
  ultimately show ?case
    by (auto simp: rfold_snoc)
qed

section \<open>Searching a table\<close>

text \<open>
  A \<^verbatim>\<open>for\<close> loop that leaves at the first entry with a property is \<^const>\<open>find\<close> over
  the indices of the table.
\<close>

lemma find_SomeD: "find P xs = Some x \<Longrightarrow> P x \<and> x \<in> set xs"
  by (induction xs) (auto split: if_splits)

lemma find_NoneD: "find P xs = None \<Longrightarrow> x \<in> set xs \<Longrightarrow> \<not> P x"
  by (induction xs) (auto split: if_splits)

lemma find_upt_Some_iff:
  "find P [0..<n] = Some i \<longleftrightarrow> i < n \<and> P i \<and> (\<forall>j<i. \<not> P j)"
  by (auto simp: find_Some_iff nth_append)

lemma find_upt_None_iff: "find P [0..<n] = None \<longleftrightarrow> (\<forall>i<n. \<not> P i)"
  by (auto simp: find_None_iff)

section \<open>Little-endian access to a block of bytes\<close>

text \<open>A disk block or another byte array: the byte at each offset.\<close>

type_synonym bytes = "nat \<Rightarrow> uchar"

definition rd16 :: "bytes \<Rightarrow> nat \<Rightarrow> ushort" where
  "rd16 d p = ucast (d p) OR push_bit 8 (ucast (d (p + 1)))"

definition wr16 :: "bytes \<Rightarrow> nat \<Rightarrow> ushort \<Rightarrow> bytes" where
  "wr16 d p v = d(p := ucast v, p + 1 := ucast (drop_bit 8 v))"

definition rd32 :: "bytes \<Rightarrow> nat \<Rightarrow> uint" where
  "rd32 d p = ucast (d p) OR push_bit 8 (ucast (d (p + 1)))
     OR push_bit 16 (ucast (d (p + 2))) OR push_bit 24 (ucast (d (p + 3)))"

definition wr32 :: "bytes \<Rightarrow> nat \<Rightarrow> uint \<Rightarrow> bytes" where
  "wr32 d p v = d(p := ucast v, p + 1 := ucast (drop_bit 8 v),
     p + 2 := ucast (drop_bit 16 v), p + 3 := ucast (drop_bit 24 v))"

text \<open>\<^verbatim>\<open>memmove\<close> of \<open>n\<close> bytes into a block, and \<^verbatim>\<open>memset\<close> of a range of one.\<close>

definition bytes_put :: "bytes \<Rightarrow> nat \<Rightarrow> bytes \<Rightarrow> nat \<Rightarrow> bytes" where
  "bytes_put d p src n = (\<lambda>i. if p \<le> i \<and> i < p + n then src (i - p) else d i)"

definition bytes_fill :: "bytes \<Rightarrow> nat \<Rightarrow> nat \<Rightarrow> uchar \<Rightarrow> bytes" where
  "bytes_fill d p n c = (\<lambda>i. if p \<le> i \<and> i < p + n then c else d i)"

named_theorems byte_simps \<open>reading back what was written into a block\<close>

lemma rd16_wr16 [byte_simps, simp]: "rd16 (wr16 d p v) p = v"
  by (rule bit_word_eqI) (auto simp: rd16_def wr16_def bit_simps)

lemma rd32_wr32 [byte_simps, simp]: "rd32 (wr32 d p v) p = v"
proof (rule bit_word_eqI)
  fix n assume n: "n < LENGTH(32)"
  then consider "n < 8" | "8 \<le> n" "n < 16" | "16 \<le> n" "n < 24" | "24 \<le> n" "n < 32"
    by fastforce
  then show "bit (rd32 (wr32 d p v) p) n \<longleftrightarrow> bit v n"
    by cases (auto simp: rd32_def wr32_def bit_simps)
qed

lemma wr16_other: "i \<noteq> p \<Longrightarrow> i \<noteq> p + 1 \<Longrightarrow> wr16 d p v i = d i"
  by (simp add: wr16_def)

lemma wr32_other: "i < p \<or> p + 4 \<le> i \<Longrightarrow> wr32 d p v i = d i"
  by (auto simp: wr32_def)

lemma rd16_cong: "d p = e p \<Longrightarrow> d (p + 1) = e (p + 1) \<Longrightarrow> rd16 d p = rd16 e p"
  by (simp add: rd16_def)

lemma rd32_cong: "(\<And>i. p \<le> i \<Longrightarrow> i < p + 4 \<Longrightarrow> d i = e i) \<Longrightarrow> rd32 d p = rd32 e p"
  by (simp add: rd32_def)

lemma rd32_wr32_other [byte_simps]: "q + 4 \<le> p \<or> p + 4 \<le> q \<Longrightarrow> rd32 (wr32 d p v) q = rd32 d q"
  by (rule rd32_cong) (auto intro: wr32_other)

lemma rd32_wr16_other [byte_simps]: "q + 4 \<le> p \<or> p + 2 \<le> q \<Longrightarrow> rd32 (wr16 d p v) q = rd32 d q"
  by (rule rd32_cong) (auto intro: wr16_other)

lemma rd16_wr32_other [byte_simps]: "q + 2 \<le> p \<or> p + 4 \<le> q \<Longrightarrow> rd16 (wr32 d p v) q = rd16 d q"
  by (rule rd16_cong) (auto intro: wr32_other)

lemma rd16_wr16_other [byte_simps]: "q + 2 \<le> p \<or> p + 2 \<le> q \<Longrightarrow> rd16 (wr16 d p v) q = rd16 d q"
  by (rule rd16_cong) (auto intro: wr16_other)

end
