(* ===== verification/KString.thy ===== *)
theory KString
  imports Xv7_Prelude
begin

text \<open>
  The kernel's string and memory routines (\<^verbatim>\<open>kernel/string.c\<close>) over a byte-addressed
  32-bit memory. Pointer arithmetic wraps, as it does on the machine. The lemmas give the
  meaning of each routine: \<^verbatim>\<open>memmove\<close> copies correctly for overlapping ranges, the
  word-at-a-time path of \<^verbatim>\<open>memset\<close> agrees with the byte path, the comparison routines
  decide equality, and the bounded copies never write outside their buffer.
\<close>

section \<open>Definitions\<close>

type_synonym mem = "uint \<Rightarrow> uchar"

text \<open>\<^verbatim>\<open>rep stosb\<close> and \<^verbatim>\<open>rep stosl\<close>: store a byte or a double word \<open>n\<close> times.\<close>

primrec stosb :: "mem \<Rightarrow> uint \<Rightarrow> uchar \<Rightarrow> nat \<Rightarrow> mem" where
  "stosb m a c 0 = m"
| "stosb m a c (Suc n) = stosb (m(a := c)) (a + 1) c n"

definition st32 :: "mem \<Rightarrow> uint \<Rightarrow> uint \<Rightarrow> mem" where
  "st32 m a v = m(a := ucast v, a + 1 := ucast (drop_bit 8 v),
     a + 2 := ucast (drop_bit 16 v), a + 3 := ucast (drop_bit 24 v))"

definition ld32 :: "mem \<Rightarrow> uint \<Rightarrow> uint" where
  "ld32 m a = ucast (m a) OR push_bit 8 (ucast (m (a + 1)))
     OR push_bit 16 (ucast (m (a + 2))) OR push_bit 24 (ucast (m (a + 3)))"

primrec stosl :: "mem \<Rightarrow> uint \<Rightarrow> uint \<Rightarrow> nat \<Rightarrow> mem" where
  "stosl m a v 0 = m"
| "stosl m a v (Suc n) = stosl (st32 m a v) (a + 4) v n"

definition memset :: "mem \<Rightarrow> uint \<Rightarrow> uint \<Rightarrow> uint \<Rightarrow> mem" where
  "memset m dst c n =
     (if unat dst mod 4 = 0 \<and> unat n mod 4 = 0 then
        (let c = c AND 0xFF in
         stosl m dst (push_bit 24 c OR push_bit 16 c OR push_bit 8 c OR c) (unat n div 4))
      else stosb m dst (ucast c) (unat n))"

primrec memcmp_loop :: "mem \<Rightarrow> uint \<Rightarrow> uint \<Rightarrow> nat \<Rightarrow> int" where
  "memcmp_loop m s1 s2 0 = 0"
| "memcmp_loop m s1 s2 (Suc n) =
     (if m s1 \<noteq> m s2 then uint (m s1) - uint (m s2)
      else memcmp_loop m (s1 + 1) (s2 + 1) n)"

definition memcmp :: "mem \<Rightarrow> uint \<Rightarrow> uint \<Rightarrow> uint \<Rightarrow> int" where
  "memcmp m v1 v2 n = memcmp_loop m v1 v2 (unat n)"

primrec copy_up :: "mem \<Rightarrow> uint \<Rightarrow> uint \<Rightarrow> nat \<Rightarrow> mem" where
  "copy_up m d s 0 = m"
| "copy_up m d s (Suc n) = copy_up (m(d := m s)) (d + 1) (s + 1) n"

primrec copy_down :: "mem \<Rightarrow> uint \<Rightarrow> uint \<Rightarrow> nat \<Rightarrow> mem" where
  "copy_down m d s 0 = m"
| "copy_down m d s (Suc n) = copy_down (m(d - 1 := m (s - 1))) (d - 1) (s - 1) n"

definition memmove :: "mem \<Rightarrow> uint \<Rightarrow> uint \<Rightarrow> uint \<Rightarrow> mem" where
  "memmove m dst src n =
     (if src < dst \<and> src + n > dst then copy_down m (dst + n) (src + n) (unat n)
      else copy_up m dst src (unat n))"

definition memcpy :: "mem \<Rightarrow> uint \<Rightarrow> uint \<Rightarrow> uint \<Rightarrow> mem" where
  "memcpy m dst src n = memmove m dst src n"

primrec strncmp_loop :: "mem \<Rightarrow> uint \<Rightarrow> uint \<Rightarrow> nat \<Rightarrow> int" where
  "strncmp_loop m p q 0 = 0"
| "strncmp_loop m p q (Suc n) =
     (if m p \<noteq> 0 \<and> m p = m q then strncmp_loop m (p + 1) (q + 1) n
      else uint (m p) - uint (m q))"

definition strncmp :: "mem \<Rightarrow> uint \<Rightarrow> uint \<Rightarrow> uint \<Rightarrow> int" where
  "strncmp m p q n = strncmp_loop m p q (unat n)"

text \<open>
  \<^verbatim>\<open>strncpy\<close>: the first loop copies up to and including the terminator; the second
  fills the rest of the buffer. The bound is a signed \<^verbatim>\<open>int\<close>; a bound that is not
  positive copies nothing.
\<close>

primrec strncpy_loop :: "mem \<Rightarrow> uint \<Rightarrow> uint \<Rightarrow> nat \<Rightarrow> mem" where
  "strncpy_loop m s t 0 = m"
| "strncpy_loop m s t (Suc n) =
     (let m = m(s := m t) in
      if m s \<noteq> 0 then strncpy_loop m (s + 1) (t + 1) n
      else stosb m (s + 1) 0 n)"

definition strncpy :: "mem \<Rightarrow> uint \<Rightarrow> uint \<Rightarrow> int \<Rightarrow> mem" where
  "strncpy m s t n = strncpy_loop m s t (nat n)"

primrec safestrcpy_loop :: "mem \<Rightarrow> uint \<Rightarrow> uint \<Rightarrow> nat \<Rightarrow> mem" where
  "safestrcpy_loop m s t 0 = m(s := 0)"
| "safestrcpy_loop m s t (Suc n) =
     (let m = m(s := m t) in
      if m s \<noteq> 0 then safestrcpy_loop m (s + 1) (t + 1) n
      else m(s + 1 := 0))"

definition safestrcpy :: "mem \<Rightarrow> uint \<Rightarrow> uint \<Rightarrow> int \<Rightarrow> mem" where
  "safestrcpy m s t n = (if n \<le> 0 then m else safestrcpy_loop m s t (nat (n - 1)))"

text \<open>\<^verbatim>\<open>strlen\<close> has no bound: it returns only when it meets a zero byte.\<close>

partial_function (option) strlen_from :: "mem \<Rightarrow> uint \<Rightarrow> nat \<Rightarrow> nat option" where
  "strlen_from m s n =
     (if m (s + of_nat n) = 0 then Some n else strlen_from m s (n + 1))"

definition strlen :: "mem \<Rightarrow> uint \<Rightarrow> nat option" where
  "strlen m s = strlen_from m s 0"

text \<open>Storing a list of bytes: the effect of \<^verbatim>\<open>memmove\<close> from memory that is not modelled.\<close>

primrec st_bytes :: "mem \<Rightarrow> uint \<Rightarrow> uchar list \<Rightarrow> mem" where
  "st_bytes m a [] = m"
| "st_bytes m a (b # bs) = st_bytes (m(a := b)) (a + 1) bs"

section \<open>Lemmas\<close>

subsection \<open>Word offsets\<close>

lemma unat_diff_Suc:
  fixes a d :: uint
  assumes "a \<noteq> d"
  shows "unat (a - d) = Suc (unat (a - (d + 1)))"
proof -
  have "unat (a - d) = Suc (unat ((a - d) - 1))"
    using assms by (simp add: unat_minus_one unat_gt_0)
  also have "(a - d) - 1 = a - (d + 1)" by (simp add: algebra_simps)
  finally show ?thesis .
qed

lemma unat_le32: "unat (n :: uint) \<le> 2 ^ 32"
  using unsigned_less [of n, where ?'a = nat] by simp

lemma unat_minus_1_max: "unat (- 1 :: uint) = 2 ^ 32 - 1"
  by (simp add: unat_eq_nat_uint uint_word_ariths)

subsection \<open>Words in memory\<close>

lemma ld32_st32 [simp]: "ld32 (st32 m a v) a = v"
proof (rule bit_word_eqI)
  fix n assume n: "n < LENGTH(32)"
  then consider "n < 8" | "8 \<le> n" "n < 16" | "16 \<le> n" "n < 24" | "24 \<le> n" "n < 32"
    by fastforce
  then show "bit (ld32 (st32 m a v) a) n \<longleftrightarrow> bit v n"
    by cases (auto simp: ld32_def st32_def bit_simps)
qed

lemma ld32_cong:
  assumes "\<And>i. i < 4 \<Longrightarrow> m (a + i) = m' (a + i)"
  shows "ld32 m a = ld32 m' a"
  using assms [of 0] assms [of 1] assms [of 2] assms [of 3] by (simp add: ld32_def)

lemma st32_other: "4 \<le> unat (x - a) \<Longrightarrow> st32 m a v x = m x"
  by (auto simp: st32_def)

subsection \<open>Filling memory\<close>

lemma stosb_apply:
  "n \<le> 2 ^ 32 \<Longrightarrow> stosb m a c n x = (if unat (x - a) < n then c else m x)"
proof (induction n arbitrary: m a)
  case 0
  then show ?case by simp
next
  case (Suc n)
  show ?case
  proof (cases "x = a")
    case True
    with Suc show ?thesis by (simp add: unat_minus_1_max)
  next
    case False
    with Suc show ?thesis by (simp add: unat_diff_Suc)
  qed
qed

lemma stosb_4: "stosb m a c (Suc (Suc (Suc (Suc n)))) =
    stosb (m(a := c, a + 1 := c, a + 2 := c, a + 3 := c)) (a + 4) c n"
  by (simp add: add.assoc)

lemma stosl_stosb:
  assumes "ucast v = c" and "ucast (drop_bit 8 v) = c"
    and "ucast (drop_bit 16 v) = c" and "ucast (drop_bit 24 v) = c"
  shows "stosl m a v n = stosb m a c (4 * n)"
proof (induction n arbitrary: m a)
  case 0
  then show ?case by simp
next
  case (Suc n)
  have "4 * Suc n = Suc (Suc (Suc (Suc (4 * n))))" by simp
  then show ?case
    using Suc by (simp only: stosb_4 stosl.simps st32_def assms)
qed

lemma byte_pattern:
  fixes c :: uint
  defines "v \<equiv> push_bit 24 (c AND 0xFF) OR push_bit 16 (c AND 0xFF)
    OR push_bit 8 (c AND 0xFF) OR (c AND 0xFF)"
  shows "(ucast v :: uchar) = ucast c" and "(ucast (drop_bit 8 v) :: uchar) = ucast c"
    and "(ucast (drop_bit 16 v) :: uchar) = ucast c"
    and "(ucast (drop_bit 24 v) :: uchar) = ucast c"
proof -
  have m: "(0xFF :: uint) = mask 8" by (simp add: mask_eq_exp_minus_1)
  show "(ucast v :: uchar) = ucast c"
    unfolding v_def m by (rule bit_word_eqI) (auto simp: bit_simps)
  show "(ucast (drop_bit 8 v) :: uchar) = ucast c"
    unfolding v_def m by (rule bit_word_eqI) (auto simp: bit_simps)
  show "(ucast (drop_bit 16 v) :: uchar) = ucast c"
    unfolding v_def m by (rule bit_word_eqI) (auto simp: bit_simps)
  show "(ucast (drop_bit 24 v) :: uchar) = ucast c"
    unfolding v_def m by (rule bit_word_eqI) (auto simp: bit_simps)
qed

lemma memset_stosb: "memset m dst c n = stosb m dst (ucast c) (unat n)"
proof (cases "unat dst mod 4 = 0 \<and> unat n mod 4 = 0")
  case True
  then have "4 * (unat n div 4) = unat n" by auto
  with True show ?thesis
    by (simp only: memset_def Let_def stosl_stosb [OF byte_pattern]) simp
next
  case False
  then show ?thesis by (simp only: memset_def if_False)
qed

subsection \<open>Copying memory\<close>

lemma copy_up_apply:
  assumes "n \<le> 2 ^ 32" and "d = s \<or> n \<le> unat (d - s)"
  shows "copy_up m d s n x = (if unat (x - d) < n then m (s + (x - d)) else m x)"
  using assms
proof (induction n arbitrary: m d s)
  case 0
  then show ?case by simp
next
  case (Suc n)
  have step: "d + 1 = s + 1 \<or> n \<le> unat ((d + 1) - (s + 1))"
    using Suc.prems by auto
  have "copy_up m d s (Suc n) x =
      (if unat (x - (d + 1)) < n then (m(d := m s)) (s + 1 + (x - (d + 1)))
       else (m(d := m s)) x)"
    using Suc.IH [OF _ step] Suc.prems by simp
  also have "\<dots> = (if unat (x - d) < Suc n then m (s + (x - d)) else m x)"
  proof (cases "x = d")
    case True
    with Suc.prems show ?thesis by (simp add: unat_minus_1_max)
  next
    case False
    have "unat (x - d) < Suc n \<Longrightarrow> s + (x - d) = d \<Longrightarrow> d = s"
    proof -
      assume near: "unat (x - d) < Suc n" and "s + (x - d) = d"
      then have "x - d = d - s" by (simp add: algebra_simps)
      with near Suc.prems(2) show "d = s" by auto
    qed
    then have "unat (x - d) < Suc n \<Longrightarrow> s + (x - d) \<noteq> d"
      using False by auto
    moreover have "s + 1 + (x - (d + 1)) = s + (x - d)" by (simp add: algebra_simps)
    ultimately show ?thesis using False unat_diff_Suc [OF False] by auto
  qed
  finally show ?case .
qed

lemma copy_down_apply:
  assumes "n \<le> 2 ^ 32" and "d = s \<or> n \<le> unat (s - d)"
  shows "copy_down m d s n x =
    (if unat (d - 1 - x) < n then m (s - 1 - (d - 1 - x)) else m x)"
  using assms
proof (induction n arbitrary: m d s)
  case 0
  then show ?case by simp
next
  case (Suc n)
  have step: "d - 1 = s - 1 \<or> n \<le> unat ((s - 1) - (d - 1))"
    using Suc.prems by auto
  have "copy_down m d s (Suc n) x =
      (if unat (d - 1 - 1 - x) < n
       then (m(d - 1 := m (s - 1))) (s - 1 - 1 - (d - 1 - 1 - x))
       else (m(d - 1 := m (s - 1))) x)"
    using Suc.IH [OF _ step] Suc.prems by simp
  also have "\<dots> = (if unat (d - 1 - x) < Suc n then m (s - 1 - (d - 1 - x)) else m x)"
  proof (cases "x = d - 1")
    case True
    with Suc.prems show ?thesis by (simp add: unat_minus_1_max)
  next
    case False
    have "unat (d - 1 - x) < Suc n \<Longrightarrow> s - 1 - (d - 1 - x) = d - 1 \<Longrightarrow> d = s"
    proof -
      assume near: "unat (d - 1 - x) < Suc n" and "s - 1 - (d - 1 - x) = d - 1"
      then have "d - 1 - x = s - d" by (simp add: algebra_simps)
      with near Suc.prems(2) show "d = s" by auto
    qed
    then have "unat (d - 1 - x) < Suc n \<Longrightarrow> s - 1 - (d - 1 - x) \<noteq> d - 1"
      using False by auto
    moreover have "s - 1 - 1 - (d - 1 - 1 - x) = s - 1 - (d - 1 - x)"
      by (simp add: algebra_simps)
    moreover have "unat (d - 1 - x) = Suc (unat (d - 1 - 1 - x))"
      using unat_diff_Suc [of "d - 1" x] False by (simp add: algebra_simps)
    ultimately show ?thesis using False by auto
  qed
  finally show ?case .
qed

lemma memmove_apply:
  assumes "unat src + unat n \<le> 2 ^ 32" and "unat dst + unat n \<le> 2 ^ 32"
  shows "memmove m dst src n x =
    (if unat (x - dst) < unat n then m (src + (x - dst)) else m x)"
proof -
  have n: "unat n \<le> 2 ^ 32" using unat_le32 .
  show ?thesis
  proof (cases "src < dst \<and> src + n > dst")
    case True
    have "unat ((src + n) - (dst + n)) = 2 ^ 32 + unat src - unat dst"
      using True by (simp add: word_less_nat_alt unat_sub_if')
    then have "unat n \<le> unat ((src + n) - (dst + n))"
      using assms True by (simp add: word_less_nat_alt)
    then have down: "memmove m dst src n x =
        (if unat (dst + n - 1 - x) < unat n
         then m (src + n - 1 - (dst + n - 1 - x)) else m x)"
      using True by (simp add: memmove_def copy_down_apply [OF n])
    have "n \<noteq> 0" using True by auto
    define k where "k = x - dst"
    have x: "x = dst + k" by (simp add: k_def)
    have "unat (n - 1 - k) < unat n \<longleftrightarrow> unat k < unat n"
      using \<open>n \<noteq> 0\<close> unsigned_less [of k, where ?'a = nat] by (auto simp: unat_sub_if' unat_minus_one unat_gt_0 split: if_splits)
    then show ?thesis
      unfolding down by (simp add: x algebra_simps)
  next
    case False
    have "dst = src \<or> unat n \<le> unat (dst - src)"
    proof (cases "src < dst")
      case True
      then have "\<not> src + n > dst" using False by simp
      moreover have "unat (src + n) = unat src + unat n \<or> unat src + unat n = 2 ^ 32"
        using assms(1) by (auto simp: unat_word_ariths)
      ultimately show ?thesis
        using True assms(2)
        by (auto simp: word_less_nat_alt unat_sub_if' word_le_nat_alt not_less)
    next
      case notless: False
      then show ?thesis
        using assms by (auto simp: word_less_nat_alt unat_sub_if' not_less word_unat_eq_iff)
    qed
    then show ?thesis
      using False by (auto simp: memmove_def copy_up_apply [OF n])
  qed
qed

subsection \<open>Comparing\<close>

lemma memcmp_loop_0:
  "memcmp_loop m a b n = 0 \<longleftrightarrow> (\<forall>i<n. m (a + of_nat i) = m (b + of_nat i))"
proof (induction n arbitrary: a b)
  case 0
  then show ?case by simp
next
  case (Suc n)
  then show ?case
    by (auto simp: All_less_Suc2 add.assoc word_uint_eq_iff)
qed

definition agree_upto_nul :: "mem \<Rightarrow> uint \<Rightarrow> uint \<Rightarrow> nat \<Rightarrow> bool" where
  "agree_upto_nul m p q n \<longleftrightarrow>
     (\<forall>i<n. (\<forall>j<i. m (p + of_nat j) \<noteq> 0) \<longrightarrow> m (p + of_nat i) = m (q + of_nat i))"

lemma agree_upto_nul_Suc:
  "agree_upto_nul m p q (Suc n) \<longleftrightarrow>
     m p = m q \<and> (m p \<noteq> 0 \<longrightarrow> agree_upto_nul m (p + 1) (q + 1) n)"
  by (auto simp: agree_upto_nul_def All_less_Suc2 add.assoc)

lemma strncmp_loop_0: "strncmp_loop m p q n = 0 \<longleftrightarrow> agree_upto_nul m p q n"
proof (induction n arbitrary: p q)
  case 0
  then show ?case by (simp add: agree_upto_nul_def)
next
  case (Suc n)
  then show ?case by (auto simp: agree_upto_nul_Suc word_uint_eq_iff)
qed

subsection \<open>Bounded string copies\<close>

text \<open>
  Both loops only write the \<open>n\<close> bytes from the destination on; with source and destination
  apart, \<^verbatim>\<open>strncpy\<close> leaves there the string padded with zero bytes.
\<close>

lemma strncpy_loop_outside:
  "n \<le> 2 ^ 32 \<Longrightarrow> \<not> unat (x - s) < n \<Longrightarrow> strncpy_loop m s t n x = m x"
proof (induction n arbitrary: m s t)
  case 0
  then show ?case by simp
next
  case (Suc n)
  have ne: "x \<noteq> s" using Suc.prems by auto
  have "\<not> unat (x - (s + 1)) < n"
    using Suc.prems unat_diff_Suc [OF ne] by simp
  with Suc ne show ?case
    by (simp add: Let_def stosb_apply)
qed

lemma safestrcpy_loop_outside:
  "n < 2 ^ 32 \<Longrightarrow> \<not> unat (x - s) < Suc n \<Longrightarrow> safestrcpy_loop m s t n x = m x"
proof (induction n arbitrary: m s t)
  case 0
  then show ?case by auto
next
  case (Suc n)
  have ne: "x \<noteq> s" using Suc.prems by auto
  have out: "\<not> unat (x - (s + 1)) < Suc n"
    using Suc.prems unat_diff_Suc [OF ne] by simp
  then have "x \<noteq> s + 1" by auto
  with Suc ne out show ?case
    by (simp add: Let_def)
qed

lemma safestrcpy_loop_nul:
  "n < 2 ^ 32 - 1 \<Longrightarrow> \<exists>k\<le>n. safestrcpy_loop m s t n (s + of_nat k) = 0"
proof (induction n arbitrary: m s t)
  case 0
  then show ?case by simp
next
  case (Suc n)
  show ?case
  proof (cases "m t = 0")
    case True
    then have "safestrcpy_loop m s t (Suc n) (s + of_nat 0) = 0"
      by simp
    then show ?thesis by blast
  next
    case False
    from Suc obtain k where "k \<le> n"
      and "safestrcpy_loop (m(s := m t)) (s + 1) (t + 1) n (s + 1 + of_nat k) = 0"
      by (metis Suc_lessD)
    with False have "safestrcpy_loop m s t (Suc n) (s + of_nat (Suc k)) = 0"
      by (simp add: Let_def add.assoc)
    with \<open>k \<le> n\<close> show ?thesis by (meson Suc_le_mono)
  qed
qed

lemma strncpy_loop_apply:
  assumes "n \<le> 2 ^ 32" and "n \<le> unat (s - t)" and "n \<le> unat (t - s)" and "i < n"
  shows "strncpy_loop m s t n (s + of_nat i) =
    (if \<exists>j<i. m (t + of_nat j) = 0 then 0 else m (t + of_nat i))"
  using assms
proof (induction n arbitrary: m s t i)
  case 0
  then show ?case by simp
next
  case (Suc n)
  have n: "n < 2 ^ 32" using Suc.prems(1) by simp
  have small: "j \<le> n \<Longrightarrow> unat (of_nat j :: uint) = j" for j
    using n by (simp add: unat_of_nat)
  have apart: "j \<le> n \<Longrightarrow> t + of_nat j \<noteq> s" for j
  proof
    assume "j \<le> n" and "t + of_nat j = s"
    then have "s - t = of_nat j" by auto
    with Suc.prems(2) small \<open>j \<le> n\<close> show False by simp
  qed
  show ?case
  proof (cases "m t = 0")
    case True
    show ?thesis
    proof (cases i)
      case 0
      have "\<not> unat (s - (s + 1)) < n" using n by (simp add: unat_minus_1_max)
      with 0 True n show ?thesis by (simp add: Let_def stosb_apply)
    next
      case (Suc i')
      then have "unat (s + of_nat i - (s + 1)) < n"
        using Suc.prems(4) small [of i'] by simp
      with Suc True n show ?thesis
        by (auto simp: Let_def stosb_apply intro: exI [of _ 0])
    qed
  next
    case False
    show ?thesis
    proof (cases i)
      case 0
      have "\<not> unat (s - (s + 1)) < n" using n by (simp add: unat_minus_1_max)
      with 0 False n show ?thesis by (simp add: Let_def strncpy_loop_outside)
    next
      case (Suc i')
      let ?m = "m(s := m t)"
      have "strncpy_loop ?m (s + 1) (t + 1) n (s + 1 + of_nat i') =
        (if \<exists>j<i'. ?m (t + 1 + of_nat j) = 0 then 0 else ?m (t + 1 + of_nat i'))"
        by (rule Suc.IH) (use Suc.prems Suc in auto)
      moreover have "j \<le> i' \<Longrightarrow> ?m (t + 1 + of_nat j) = m (t + of_nat (Suc j))" for j
        using apart [of "Suc j"] Suc Suc.prems(4) by (auto simp: add.assoc)
      moreover have "(\<exists>j<Suc i'. m (t + of_nat j) = 0) \<longleftrightarrow> (\<exists>j<i'. m (t + of_nat (Suc j)) = 0)"
        using False by (auto simp: Ex_less_Suc2)
      ultimately show ?thesis
        using False Suc by (auto simp: Let_def add.assoc)
    qed
  qed
qed

subsection \<open>Length\<close>

lemma strlen_from_finds:
  "m (s + of_nat k) = 0 \<Longrightarrow> (\<forall>j<k. m (s + of_nat j) \<noteq> 0) \<Longrightarrow> i \<le> k \<Longrightarrow>
    strlen_from m s i = Some k"
proof (induction "k - i" arbitrary: i)
  case 0
  then show ?case by (simp add: strlen_from.simps [of m s i])
next
  case (Suc d)
  then have "strlen_from m s (i + 1) = Some k" by simp
  with Suc show ?case by (simp add: strlen_from.simps [of m s i])
qed

section \<open>Properties\<close>

text \<open>\<^verbatim>\<open>memmove\<close> is a correct copy for every placement of source and destination,
  overlapping ones included, as long as neither range runs past the top of the address space:
  every destination byte gets the byte the source had before the call, and no byte outside the
  destination changes.\<close>

theorem memmove_correct:
  assumes "unat src + unat n \<le> 2 ^ 32" and "unat dst + unat n \<le> 2 ^ 32"
  shows "(\<forall>i. i < n \<longrightarrow> memmove m dst src n (dst + i) = m (src + i)) \<and>
    (\<forall>x. \<not> x - dst < n \<longrightarrow> memmove m dst src n x = m x)"
  using assms by (auto simp: memmove_apply word_less_nat_alt)

theorem memmove_correct_witness:
  "memmove (\<lambda>a. ucast a) 0x1002 0x1000 4 0x1005 = 3 \<and>
   memmove (\<lambda>a. ucast a) 0x1002 0x1000 4 0x1006 = 6"
proof -
  have "unat (0x1000 :: uint) + unat (4 :: uint) \<le> 2 ^ 32"
    and "unat (0x1002 :: uint) + unat (4 :: uint) \<le> 2 ^ 32" by simp_all
  from memmove_correct [OF this, where m = "\<lambda>a. ucast a"]
  have in_range: "\<forall>i. i < 4 \<longrightarrow>
      memmove (\<lambda>a. ucast a) 0x1002 0x1000 4 (0x1002 + i) = ucast (0x1000 + i)"
    and outside: "\<forall>x. \<not> x - 0x1002 < 4 \<longrightarrow>
      memmove (\<lambda>a. ucast a) 0x1002 0x1000 4 x = ucast x"
    by blast+
  show ?thesis
    using spec [OF in_range, of "3"] spec [OF outside, of "0x1006"] by simp
qed

text \<open>C39: The double-word fast path of \<^verbatim>\<open>memset\<close> (aligned address and length) has exactly
  the effect of the byte loop: the \<open>n\<close> bytes from \<open>dst\<close> on become the low byte of the fill
  value and every other byte keeps its value.\<close>

theorem memset_fast_path_equiv:
  "memset m dst c n = stosb m dst (ucast c) (unat n) \<and>
   memset m dst c n x = (if unat (x - dst) < unat n then ucast c else m x)"
  using stosb_apply [OF unat_le32 [of n]] by (simp add: memset_stosb)

text \<open>\<^verbatim>\<open>safestrcpy\<close> with a positive bound always leaves a terminator inside the buffer
  and writes nothing outside the \<open>n\<close> bytes of the buffer.\<close>

theorem safestrcpy_bounded:
  assumes "0 < n" and "n < 2 ^ 31"
  shows "(\<exists>k<nat n. safestrcpy m s t n (s + of_nat k) = 0) \<and>
    (\<forall>x. \<not> unat (x - s) < nat n \<longrightarrow> safestrcpy m s t n x = m x)"
proof -
  define k where "k = nat (n - 1)"
  have k: "nat n = Suc k" and "k < 2 ^ 32 - 1"
    using assms by (simp_all add: k_def)
  then have "k < 2 ^ 32" by simp
  have "safestrcpy m s t n = safestrcpy_loop m s t k"
    using assms by (simp add: safestrcpy_def k_def)
  then show ?thesis
    using safestrcpy_loop_nul [OF \<open>k < 2 ^ 32 - 1\<close>] safestrcpy_loop_outside [OF \<open>k < 2 ^ 32\<close>]
    by (auto simp: k less_Suc_eq_le)
qed

theorem safestrcpy_bounded_witness:
  "(\<exists>k<nat 16. safestrcpy (\<lambda>_. 65) 0x100 0x200 16 (0x100 + of_nat k) = 0) \<and>
   safestrcpy (\<lambda>_. 65) 0x100 0x200 16 0x110 = 65"
  using safestrcpy_bounded [of 16 "\<lambda>_. 65" "0x100" "0x200"] by simp

end
