(* ===== verification/KTime.thy ===== *)
theory KTime
  imports Xv7_Prelude
begin

text \<open>
  Time keeping: reading the CMOS clock (\<^verbatim>\<open>cmostime\<close> in \<^verbatim>\<open>kernel/lapic.c\<close>), turning
  a calendar date into Unix time (\<^verbatim>\<open>kernel/time.c\<close>) and the user library's conversion back
  to a calendar date (\<^verbatim>\<open>ctime\<close> in \<^verbatim>\<open>ulib/time.c\<close>). The clock chip is a parameter:
  the contents of its registers at each successive read.
\<close>

section \<open>Definitions\<close>

record rtcdate =
  rtc_second :: uint
  rtc_minute :: uint
  rtc_hour :: uint
  rtc_day :: uint
  rtc_month :: uint
  rtc_year :: uint

definition leapyear :: "int \<Rightarrow> bool" where
  "leapyear year \<longleftrightarrow> year mod 4 = 0 \<and> (year mod 100 \<noteq> 0 \<or> year mod 400 = 0)"

definition mdays :: "nat list" where
  "mdays = [31, 28, 31, 30, 31, 30, 31, 31, 30, 31, 30, 31]"

text \<open>
  \<^verbatim>\<open>unix_converttime\<close> adds in 32-bit arithmetic; the intermediate
  \<^verbatim>\<open>unsigned long long\<close> products are cut back to 32 bits by the assignment. The month
  loop indexes \<^verbatim>\<open>mdays\<close> with \<open>month - 2\<close> at most.
\<close>

definition unix_converttime :: "rtcdate \<Rightarrow> uint res" where
  "unix_converttime r =
     (if unat (rtc_month r) > 13 then Inl (BadAccess ''mdays'')
      else
       (let days = fold (\<lambda>i d. d + (if leapyear (int i) then 366 else 365))
                     [1970..<unat (rtc_year r)] (0 :: uint);
            days = fold (\<lambda>i d. d + of_nat (mdays ! (i - 1))
                       + (if i = 2 \<and> leapyear (sint (rtc_year r)) then 1 else 0))
                     [1..<unat (rtc_month r)] days;
            days = days + (rtc_day r - 1);
            seconds = days * 86400;
            seconds = seconds + rtc_hour r * 3600;
            seconds = seconds + rtc_minute r * 60;
            seconds = seconds + rtc_second r
        in Inr seconds))"

text \<open>
  The clock chip: \<open>cmos t reg\<close> is what the \<open>t\<close>-th read of a register returns when it
  selects \<open>reg\<close>.
\<close>

type_synonym cmos = "nat \<Rightarrow> uint \<Rightarrow> uchar"

definition cmos_read :: "cmos \<Rightarrow> nat \<Rightarrow> uint \<Rightarrow> uint" where
  "cmos_read cmos t reg = ucast (cmos t reg)"

definition fill_rtcdate :: "cmos \<Rightarrow> nat \<Rightarrow> rtcdate \<times> nat" where
  "fill_rtcdate cmos t =
     (\<lparr>rtc_second = cmos_read cmos t 0x00,
       rtc_minute = cmos_read cmos (t + 1) 0x02,
       rtc_hour = cmos_read cmos (t + 2) 0x04,
       rtc_day = cmos_read cmos (t + 3) 0x07,
       rtc_month = cmos_read cmos (t + 4) 0x08,
       rtc_year = cmos_read cmos (t + 5) 0x09\<rparr>, t + 6)"

partial_function (option) cmos_stable :: "cmos \<Rightarrow> nat \<Rightarrow> (rtcdate \<times> nat) option" where
  "cmos_stable cmos t =
     (case fill_rtcdate cmos t of (t1, t) \<Rightarrow>
        if bit (cmos_read cmos t 0x0a) 7 then cmos_stable cmos (t + 1)
        else case fill_rtcdate cmos (t + 1) of (t2, t) \<Rightarrow>
          if t1 = t2 then Some (t1, t) else cmos_stable cmos t)"

definition conv :: "uint \<Rightarrow> uint" where
  "conv x = drop_bit 4 x * 10 + (x AND 0xf)"

definition cmostime :: "cmos \<Rightarrow> nat \<Rightarrow> (rtcdate \<times> nat) option" where
  "cmostime cmos t =
     (let sb = cmos_read cmos t 0x0b; bcd = (sb AND 4 = 0) in
      case cmos_stable cmos (t + 1) of
        None \<Rightarrow> None
      | Some (t1, t) \<Rightarrow>
          let t1 = (if bcd then
                \<lparr>rtc_second = conv (rtc_second t1), rtc_minute = conv (rtc_minute t1),
                  rtc_hour = conv (rtc_hour t1), rtc_day = conv (rtc_day t1),
                  rtc_month = conv (rtc_month t1), rtc_year = conv (rtc_year t1)\<rparr>
              else t1)
          in Some (t1\<lparr>rtc_year := rtc_year t1 + 2000\<rparr>, t))"

definition unix_uptime :: "cmos \<Rightarrow> nat \<Rightarrow> (uint res \<times> nat) option" where
  "unix_uptime cmos t =
     (case cmostime cmos t of None \<Rightarrow> None | Some (r, t) \<Rightarrow> Some (unix_converttime r, t))"

text \<open>
  \<^verbatim>\<open>ctime\<close>: split a time value into year, month, day, hour, minute and second. The value
  is a signed \<^verbatim>\<open>int\<close>; the calendar loops are those of a value that is not negative. The
  result is what is handed to \<^verbatim>\<open>snprintf\<close>.
\<close>

definition year_len :: "nat \<Rightarrow> nat" where
  "year_len y = (if leapyear (int y) then 366 else 365)"

lemma year_len_pos [simp]: "0 < year_len y"
  by (simp add: year_len_def)

function ctime_year :: "nat \<Rightarrow> nat \<Rightarrow> nat \<times> nat" where
  "ctime_year year t =
     (if t \<ge> year_len year then ctime_year (year + 1) (t - year_len year) else (year, t))"
  by pat_completeness auto
termination
  by (relation "measure snd") (auto simp: year_len_def split: if_splits)

definition month_len :: "nat \<Rightarrow> nat \<Rightarrow> nat" where
  "month_len year month = mdays ! month + (if month = 1 \<and> leapyear (int year) then 1 else 0)"

text \<open>The month loop has no bound of its own: past December it would read beyond the table.\<close>

function ctime_month :: "nat \<Rightarrow> nat \<Rightarrow> nat \<Rightarrow> (nat \<times> nat) res" where
  "ctime_month year month t =
     (if month \<ge> 12 then Inl (BadAccess ''mdays'')
      else if t \<ge> month_len year month
      then ctime_month year (month + 1) (t - month_len year month)
      else Inr (month, t))"
  by pat_completeness auto
termination
  by (relation "measure (\<lambda>(year, month, t). 12 - month)") auto

definition ctime :: "nat \<Rightarrow> (nat \<times> nat \<times> nat \<times> nat \<times> nat \<times> nat) res" where
  "ctime t =
     (let sec = t mod 60; t = t div 60; min = t mod 60; t = t div 60;
          hour = t mod 24; t = t div 24;
          (year, t) = ctime_year 1970 t
      in rbind (ctime_month year 0 t) (\<lambda>(month, t).
         let day = t + 1 in Inr (year, month + 1, day, hour, min, sec)))"

declare ctime_year.simps [simp del]
declare ctime_month.simps [simp del]

section \<open>The calendar\<close>

text \<open>Reference definitions: days before a year, days before a month, and seconds since 1970.\<close>

definition days_before_year :: "nat \<Rightarrow> nat" where
  "days_before_year y = (\<Sum>i = 1970..<y. year_len i)"

definition days_before_month :: "nat \<Rightarrow> nat \<Rightarrow> nat" where
  "days_before_month y m = (\<Sum>i<m. month_len y i)"

definition epoch_seconds :: "nat \<Rightarrow> nat \<Rightarrow> nat \<Rightarrow> nat \<Rightarrow> nat \<Rightarrow> nat \<Rightarrow> nat" where
  "epoch_seconds y m d h mi s =
     ((days_before_year y + days_before_month y (m - 1) + (d - 1)) * 24 + h) * 3600 + mi * 60 + s"

definition valid_date :: "nat \<Rightarrow> nat \<Rightarrow> nat \<Rightarrow> nat \<Rightarrow> nat \<Rightarrow> nat \<Rightarrow> bool" where
  "valid_date y m d h mi s \<longleftrightarrow>
     1970 \<le> y \<and> y < 2038 \<and> 1 \<le> m \<and> m \<le> 12 \<and> 1 \<le> d \<and> d \<le> month_len y (m - 1)
     \<and> h < 24 \<and> mi < 60 \<and> s < 60"

definition date_of :: "nat \<Rightarrow> nat \<Rightarrow> nat \<Rightarrow> nat \<Rightarrow> nat \<Rightarrow> nat \<Rightarrow> rtcdate" where
  "date_of y m d h mi s =
     \<lparr>rtc_second = of_nat s, rtc_minute = of_nat mi, rtc_hour = of_nat h,
       rtc_day = of_nat d, rtc_month = of_nat m, rtc_year = of_nat y\<rparr>"

lemma days_before_year_Suc: "1970 \<le> y \<Longrightarrow> days_before_year (Suc y) = days_before_year y + year_len y"
  by (simp add: days_before_year_def)

lemma days_before_month_Suc: "days_before_month y (Suc m) = days_before_month y m + month_len y m"
  by (simp add: days_before_month_def)

lemma days_before_year_mono: "y \<le> y' \<Longrightarrow> days_before_year y \<le> days_before_year y'"
  unfolding days_before_year_def by (rule sum_mono2) auto

lemma days_before_month_mono: "m \<le> m' \<Longrightarrow> days_before_month y m \<le> days_before_month y m'"
  unfolding days_before_month_def by (rule sum_mono2) auto

lemma days_before_month_12: "days_before_month y 12 = year_len y"
  by (simp add: days_before_month_def month_len_def mdays_def year_len_def eval_nat_numeral)

lemma days_before_year_2038: "days_before_year 2038 = 24837"
proof -
  have "{1970..<2038 :: nat} = set [1970..<2038]" by (rule atLeastLessThan_upt)
  then have "days_before_year 2038 = sum_list (map year_len [1970..<2038])"
    by (simp only: days_before_year_def sum_list_distinct_conv_sum_set distinct_upt)
  also have "\<dots> = 24837"
    by (simp add: upt_rec year_len_def leapyear_def)
  finally show ?thesis .
qed

lemma day_of_year_bound:
  assumes "1 \<le> m" and "m \<le> 12" and "1 \<le> d" and "d \<le> month_len y (m - 1)"
  shows "days_before_month y (m - 1) + (d - 1) < year_len y"
proof -
  have "days_before_month y (m - 1) + (d - 1) < days_before_month y (Suc (m - 1))"
    using assms unfolding days_before_month_Suc by simp
  also have "\<dots> \<le> days_before_month y 12"
    using assms by (intro days_before_month_mono) simp
  finally show ?thesis by (simp add: days_before_month_12)
qed

lemma epoch_seconds_bound:
  assumes "valid_date y m d h mi s"
  shows "epoch_seconds y m d h mi s < 2 ^ 31"
proof -
  let ?days = "days_before_year y + days_before_month y (m - 1) + (d - 1)"
  from assms have v: "1970 \<le> y" "y < 2038" "1 \<le> m" "m \<le> 12" "1 \<le> d"
    "d \<le> month_len y (m - 1)" "h < 24" "mi < 60" "s < 60"
    by (simp_all add: valid_date_def)
  have "?days < days_before_year (Suc y)"
    using day_of_year_bound [OF v(3-6)] v(1) by (simp add: days_before_year_Suc)
  also have "\<dots> \<le> days_before_year 2038"
    using v(2) by (intro days_before_year_mono) simp
  finally have "?days < 24837" by (simp add: days_before_year_2038)
  then show ?thesis
    using v(7-9) unfolding epoch_seconds_def by simp
qed

section \<open>From the calendar to seconds\<close>

lemma fold_years:
  "fold (\<lambda>i d. d + (if leapyear (int i) then 366 else 365)) [1970..<y] (0 :: uint)
     = of_nat (days_before_year y)"
proof (induction y)
  case 0
  then show ?case by (simp add: days_before_year_def)
next
  case (Suc y)
  then show ?case
    by (cases "1970 \<le> y") (auto simp: days_before_year_Suc year_len_def days_before_year_def)
qed

lemma fold_months:
  assumes "sint year = int y"
  shows "fold (\<lambda>i d. d + of_nat (mdays ! (i - 1))
      + (if i = 2 \<and> leapyear (sint (year :: uint)) then 1 else 0)) [1..<Suc m] (d0 :: uint)
     = d0 + of_nat (days_before_month y m)"
proof (induction m)
  case 0
  then show ?case by (simp add: days_before_month_def)
next
  case (Suc m)
  then show ?case
    by (simp add: days_before_month_Suc month_len_def assms)
qed

lemma unix_converttime_epoch:
  assumes "valid_date y m d h mi s"
  shows "unix_converttime (date_of y m d h mi s) = Inr (of_nat (epoch_seconds y m d h mi s))"
proof -
  from assms have v: "1970 \<le> y" "y < 2038" "1 \<le> m" "m \<le> 12" "1 \<le> d"
    by (simp_all add: valid_date_def)
  then have m: "unat (of_nat m :: uint) = Suc (m - 1)" and y: "unat (of_nat y :: uint) = y"
    and ys: "sint (of_nat y :: uint) = int y" and d: "(of_nat d - 1 :: uint) = of_nat (d - 1)"
    by (simp_all add: unat_of_nat sint_of_nat_small)
  have "unix_converttime (date_of y m d h mi s) =
      Inr ((of_nat (days_before_year y) + of_nat (days_before_month y (m - 1)) + of_nat (d - 1))
        * 86400 + of_nat h * 3600 + of_nat mi * 60 + of_nat s)"
    using v(4) unfolding unix_converttime_def date_of_def Let_def rtcdate.simps
      m y d fold_years fold_months [OF ys] by simp
  also have "\<dots> = Inr (of_nat (epoch_seconds y m d h mi s))"
    unfolding epoch_seconds_def of_nat_add of_nat_mult by (simp add: distrib_right)
  finally show ?thesis .
qed

section \<open>From seconds to the calendar\<close>

lemma ctime_year_finds:
  assumes "r < year_len y" and "y0 \<le> y"
  shows "ctime_year y0 ((\<Sum>i = y0..<y. year_len i) + r) = (y, r)"
  using assms
proof (induction "y - y0" arbitrary: y0)
  case 0
  then show ?case by (simp add: ctime_year.simps [of y0])
next
  case (Suc n)
  then have "y0 < y" by simp
  then have split: "(\<Sum>i = y0..<y. year_len i) = year_len y0 + (\<Sum>i = Suc y0..<y. year_len i)"
    by (simp add: sum.atLeast_Suc_lessThan)
  have "ctime_year (Suc y0) ((\<Sum>i = Suc y0..<y. year_len i) + r) = (y, r)"
    by (rule Suc.hyps(1)) (use Suc in auto)
  then show ?case
    by (simp add: ctime_year.simps [of y0] split)
qed

lemma ctime_month_finds:
  assumes "r < month_len y m" and "m < 12" and "m0 \<le> m"
  shows "ctime_month y m0 ((\<Sum>i = m0..<m. month_len y i) + r) = Inr (m, r)"
  using assms
proof (induction "m - m0" arbitrary: m0)
  case 0
  then show ?case by (simp add: ctime_month.simps [of y m0])
next
  case (Suc n)
  then have "m0 < m" by simp
  then have split: "(\<Sum>i = m0..<m. month_len y i) = month_len y m0 + (\<Sum>i = Suc m0..<m. month_len y i)"
    by (simp add: sum.atLeast_Suc_lessThan)
  have "ctime_month y (Suc m0) ((\<Sum>i = Suc m0..<m. month_len y i) + r) = Inr (m, r)"
    by (rule Suc.hyps(1)) (use Suc in auto)
  then show ?case
    using \<open>m0 < m\<close> Suc.prems by (simp add: ctime_month.simps [of y m0] split)
qed

lemma ctime_epoch:
  assumes "valid_date y m d h mi s"
  shows "ctime (epoch_seconds y m d h mi s) = Inr (y, m, d, h, mi, s)"
proof -
  from assms have v: "1970 \<le> y" "1 \<le> m" "m \<le> 12" "1 \<le> d"
    "d \<le> month_len y (m - 1)" "h < 24" "mi < 60" "s < 60"
    by (simp_all add: valid_date_def)
  define r where "r = days_before_month y (m - 1) + (d - 1)"
  define days where "days = days_before_year y + r"
  have e: "epoch_seconds y m d h mi s = ((days * 24 + h) * 60 + mi) * 60 + s"
    by (simp add: epoch_seconds_def days_def r_def algebra_simps)
  have year: "ctime_year 1970 days = (y, r)"
    unfolding days_def days_before_year_def
    by (rule ctime_year_finds) (use v day_of_year_bound [OF v(2-5)] in \<open>auto simp: r_def\<close>)
  have month: "ctime_month y 0 r = Inr (m - 1, d - 1)"
    using ctime_month_finds [of "d - 1" y "m - 1" 0] v
    by (simp add: r_def days_before_month_def lessThan_atLeast0)
  define a b where "a = days * 24 + h" and "b = a * 60 + mi"
  have "a mod 24 = h" "a div 24 = days" using v(6) by (simp_all add: a_def)
  moreover have "b mod 60 = mi" "b div 60 = a" using v(7) by (simp_all add: b_def)
  moreover have "(b * 60 + s) mod 60 = s" "(b * 60 + s) div 60 = b" using v(8) by simp_all
  ultimately have ab: "a mod 24 = h" "a div 24 = days" "b mod 60 = mi" "b div 60 = a"
    "(b * 60 + s) mod 60 = s" "(b * 60 + s) div 60 = b" by blast+
  have "ctime (b * 60 + s) = Inr (y, Suc (m - 1), Suc (d - 1), h, mi, s)"
    unfolding ctime_def Let_def ab year by (simp add: month)
  then show ?thesis
    using v unfolding e a_def [symmetric] b_def [symmetric] by simp
qed

section \<open>The clock chip\<close>

lemma conv_bcd: "a < 10 \<Longrightarrow> b < 10 \<Longrightarrow> conv (of_nat (16 * a + b)) = of_nat (10 * a + b)"
proof -
  assume "a < 10" and "b < 10"
  then have "a \<in> {0, 1, 2, 3, 4, 5, 6, 7, 8, 9}" and "b \<in> {0, 1, 2, 3, 4, 5, 6, 7, 8, 9}"
    by auto
  then show ?thesis
    by (elim insertE emptyE; simp add: conv_def)
qed

lemma cmos_stable_steady:
  assumes "\<forall>k<13. cmos (t + k) = regs" and "\<not> bit (regs 0x0a) 7"
  shows "cmos_stable cmos t = Some (fst (fill_rtcdate (\<lambda>_. regs) 0), t + 13)"
proof -
  have r: "cmos (t + k) = regs" if "k < 13" for k
    using assms(1) that by blast
  have fill: "fill_rtcdate cmos (t + k) = (fst (fill_rtcdate (\<lambda>_. regs) 0), t + k + 6)"
    if "k < 8" for k
    using r [of k] r [of "k + 1"] r [of "k + 2"] r [of "k + 3"] r [of "k + 4"] r [of "k + 5"] that
    by (simp add: fill_rtcdate_def cmos_read_def add.assoc)
  have "cmos (t + 6) = regs" by (rule r) simp
  then have "\<not> bit (cmos_read cmos (t + 6) 0x0a) 7"
    using assms(2) by (simp add: cmos_read_def bit_simps)
  then show ?thesis
    using fill [of 0] fill [of 7] by (subst cmos_stable.simps) (simp add: add.commute)
qed

definition bcd8 :: "nat \<Rightarrow> uchar" where
  "bcd8 n = of_nat (16 * (n div 10) + n mod 10)"

lemma conv_bcd8: "n < 100 \<Longrightarrow> conv (ucast (bcd8 n)) = of_nat n"
proof -
  assume "n < 100"
  then have "n div 10 < 10" and "n mod 10 < 10" by auto
  moreover have "(ucast (bcd8 n) :: uint) = of_nat (16 * (n div 10) + n mod 10)"
    using \<open>n < 100\<close> unfolding bcd8_def unsigned_of_nat
    by (subst take_bit_nat_eq_self) (auto simp del: of_nat_add of_nat_mult)
  ultimately show ?thesis
    using conv_bcd [of "n div 10" "n mod 10"] by simp
qed

lemma cmostime_steady:
  assumes steady: "\<forall>k<14. cmos (t + k) = regs"
    and mode: "\<not> bit (regs 0x0a) 7" "regs 0x0b AND 4 = 0"
    and regs: "regs 0 = bcd8 s" "regs 2 = bcd8 mi" "regs 4 = bcd8 h"
      "regs 7 = bcd8 d" "regs 8 = bcd8 m" "regs 9 = bcd8 (y - 2000)"
    and v: "valid_date y m d h mi s" "2000 \<le> y"
  shows "cmostime cmos t = Some (date_of y m d h mi s, t + 14)"
proof -
  have d: "d \<le> 31"
  proof -
    have "m - 1 < length mdays"
      using v by (auto simp: valid_date_def mdays_def)
    then have "mdays ! (m - 1) \<in> set mdays" by (rule nth_mem)
    moreover have "m = 2 \<longrightarrow> mdays ! (m - 1) = 28" by (auto simp: mdays_def)
    ultimately have "month_len y (m - 1) \<le> 31"
      by (auto simp: month_len_def mdays_def)
    then show ?thesis using v by (simp add: valid_date_def)
  qed
  have s0: "cmos t = regs" using steady by force
  have "cmos (t + 1 + k) = regs" if "k < 13" for k
    using steady [rule_format, of "k + 1"] that by (simp add: ac_simps)
  then have "\<forall>k<13. cmos (t + 1 + k) = regs" by blast
  then have st: "cmos_stable cmos (t + 1) = Some (fst (fill_rtcdate (\<lambda>_. regs) 0), t + 1 + 13)"
    using mode(1) by (rule cmos_stable_steady)
  have "cmos_read cmos t 0x0b AND 4 = 0"
    using arg_cong [OF mode(2), of "ucast :: uchar \<Rightarrow> uint"] s0
    by (simp add: cmos_read_def unsigned_and_eq)
  moreover have "conv (ucast (bcd8 (y - 2000))) + 2000 = (of_nat y :: uint)"
    using v by (subst conv_bcd8) (auto simp: of_nat_diff valid_date_def)
  ultimately show ?thesis
    using v d by (simp add: cmostime_def st [simplified] fill_rtcdate_def cmos_read_def regs conv_bcd8
        valid_date_def date_of_def Let_def)
qed

text \<open>A chip that shows the first of January 2000.\<close>

definition demo_clock :: cmos where
  "demo_clock = (\<lambda>_ r. if r = 7 \<or> r = 8 then 1 else 0)"

lemma demo_clock_ok: "\<exists>v k. unix_uptime demo_clock t = Some (Inr v, k)"
proof -
  have v: "valid_date 2000 1 1 0 0 0" by (simp add: valid_date_def month_len_def mdays_def)
  have "cmostime demo_clock t = Some (date_of 2000 1 1 0 0 0, t + 14)"
    by (rule cmostime_steady [where regs = "demo_clock 0"]) (use v in \<open>simp_all add: demo_clock_def bcd8_def\<close>)
  then show ?thesis using unix_converttime_epoch [OF v] by (simp add: unix_uptime_def)
qed

section \<open>Properties\<close>

text \<open>The kernel's clock read is right: when the clock chip shows the BCD digits of a valid date
  between 2000 and 2037 and does not change while it is read, \<^verbatim>\<open>unix_uptime\<close> returns, and
  returns the number of seconds from 1970 to that date (years and months of the Gregorian
  calendar), as a non-negative \<^verbatim>\<open>int\<close>.\<close>

theorem unix_uptime_correct:
  assumes "\<forall>k<14. cmos (t + k) = regs"
    and "\<not> bit (regs 0x0a) 7" and "regs 0x0b AND 4 = 0"
    and "regs 0 = bcd8 s" and "regs 2 = bcd8 mi" and "regs 4 = bcd8 h"
    and "regs 7 = bcd8 d" and "regs 8 = bcd8 m" and "regs 9 = bcd8 (y - 2000)"
    and "valid_date y m d h mi s" and "2000 \<le> y"
  shows "\<exists>v. unix_uptime cmos t = Some (Inr v, t + 14)
    \<and> sint v = int (epoch_seconds y m d h mi s)"
  using cmostime_steady [OF assms] unix_converttime_epoch [OF assms(10)]
    sint_of_nat_small [OF epoch_seconds_bound [OF assms(10)]]
  by (simp add: unix_uptime_def)

theorem unix_uptime_correct_witness:
  "\<exists>v. unix_uptime (\<lambda>_ r. if r = 0x0a \<or> r = 0x0b then 0 else if r = 9 then 0x24
        else if r = 8 then 0x02 else if r = 7 then 0x29 else if r = 4 then 0x12 else 0) 0
     = Some (Inr v, 0 + 14) \<and> sint v = int (epoch_seconds 2024 2 29 12 0 0)"
  by (rule unix_uptime_correct [where regs = "\<lambda>r. if r = 0x0a \<or> r = 0x0b then 0
        else if r = 9 then 0x24 else if r = 8 then 0x02 else if r = 7 then 0x29
        else if r = 4 then 0x12 else 0"])
    (simp_all add: bcd8_def valid_date_def month_len_def mdays_def leapyear_def)

text \<open>C40: The user library's \<^verbatim>\<open>ctime\<close> inverts the kernel's \<^verbatim>\<open>unix_converttime\<close>: for
  every valid date from 1970 to 2037 the kernel's conversion succeeds, and splitting its result
  gives back the year, month, day, hour, minute and second.\<close>

theorem ctime_unix_converttime_roundtrip:
  assumes "valid_date y m d h mi s"
  shows "\<exists>v. unix_converttime (date_of y m d h mi s) = Inr v
    \<and> ctime (unat v) = Inr (y, m, d, h, mi, s)"
  using unix_converttime_epoch [OF assms] ctime_epoch [OF assms] epoch_seconds_bound [OF assms]
  by (simp add: unat_of_nat)

theorem ctime_unix_converttime_roundtrip_witness:
  "\<exists>v. unix_converttime (date_of 2037 12 31 23 59 59) = Inr v
    \<and> ctime (unat v) = Inr (2037, 12, 31, 23, 59, 59)"
  by (rule ctime_unix_converttime_roundtrip)
    (simp add: valid_date_def month_len_def mdays_def)

end
