(* ===== verification/KLock.thy ===== *)
theory KLock
  imports KString
begin

text \<open>
  Spin locks and sleep locks (\<^verbatim>\<open>kernel/spinlock.c\<close>, \<^verbatim>\<open>kernel/sleeplock.c\<close>).

  The routines are first given as functions on one lock and the state of the CPU that runs
  them. The step relation \<open>lock_step\<close> then runs them on any number of CPUs that compete for
  one lock, cut at the accesses to the shared words \<^verbatim>\<open>lk->locked\<close> and \<^verbatim>\<open>lk->cpu\<close>: the
  interleavings of the \<^verbatim>\<open>xchg\<close>, of the store of \<^verbatim>\<open>lk->cpu\<close> and of the unlocking store
  are all there. Rule induction shows mutual exclusion, that the holder runs with interrupts
  off, and that neither routine panics.
\<close>

section \<open>Definitions\<close>

subsection \<open>Interrupt nesting\<close>

text \<open>\<^verbatim>\<open>struct cpu\<close>: the fields the locks use, and the interrupt flag of EFLAGS.\<close>

record cpu =
  ncli :: int
  intena :: bool
  fl_if :: bool

definition pushcli :: "cpu \<Rightarrow> cpu" where
  "pushcli c =
     (let eflags_if = fl_if c; c = c\<lparr>fl_if := False\<rparr>;
          c = (if ncli c = 0 then c\<lparr>intena := eflags_if\<rparr> else c)
      in c\<lparr>ncli := ncli c + 1\<rparr>)"

definition popcli :: "cpu \<Rightarrow> cpu res" where
  "popcli c =
     (if fl_if c then Inl (Panic ''popcli - interruptible'')
      else
       (let c = c\<lparr>ncli := ncli c - 1\<rparr> in
        if ncli c < 0 then Inl (Panic ''popcli'')
        else if ncli c = 0 \<and> intena c then Inr (c\<lparr>fl_if := True\<rparr>) else Inr c))"

subsection \<open>Spin locks\<close>

text \<open>\<^verbatim>\<open>struct spinlock\<close>; \<open>lk_cpu\<close> is the CPU number, or \<^term>\<open>None\<close> for the null pointer.\<close>

record spinlock =
  lk_name :: string
  lk_locked :: uint
  lk_cpu :: "nat option"
  lk_pcs :: "uint list"

definition initlock :: "spinlock \<Rightarrow> string \<Rightarrow> spinlock" where
  "initlock lk name = lk\<lparr>lk_name := name, lk_locked := 0, lk_cpu := None\<rparr>"

definition holding :: "nat \<Rightarrow> spinlock \<Rightarrow> cpu \<Rightarrow> (bool \<times> cpu) res" where
  "holding me lk c =
     (let c = pushcli c; r = (lk_locked lk \<noteq> 0 \<and> lk_cpu lk = Some me)
      in rbind (popcli c) (\<lambda>c. Inr (r, c)))"

text \<open>The atomic exchange: the old value, and the lock with the new one.\<close>

definition xchg :: "spinlock \<Rightarrow> uint \<Rightarrow> uint \<times> spinlock" where
  "xchg lk v = (lk_locked lk, lk\<lparr>lk_locked := v\<rparr>)"

text \<open>
  \<^verbatim>\<open>getcallerpcs\<close> follows the saved frame pointers in kernel memory, at most ten of them.
\<close>

definition KERNBASE :: uint where
  "KERNBASE = 0x80000000"

primrec getcallerpcs_loop :: "mem \<Rightarrow> uint \<Rightarrow> nat \<Rightarrow> uint list" where
  "getcallerpcs_loop m ebp 0 = []"
| "getcallerpcs_loop m ebp (Suc n) =
     (if ebp = 0 \<or> ebp < KERNBASE \<or> ebp = 0xffffffff then replicate (Suc n) 0
      else ld32 m (ebp + 4) # getcallerpcs_loop m (ld32 m ebp) n)"

definition getcallerpcs :: "mem \<Rightarrow> uint \<Rightarrow> uint list" where
  "getcallerpcs m v = getcallerpcs_loop m (v - 8) 10"

text \<open>
  \<^verbatim>\<open>acquire\<close> run without interference: on a lock that another CPU holds the exchange keeps
  returning a non-zero value and the loop does not end by itself.
\<close>

definition acquire :: "nat \<Rightarrow> mem \<Rightarrow> uint \<Rightarrow> spinlock \<Rightarrow> cpu \<Rightarrow> (spinlock \<times> cpu) res" where
  "acquire me m lkp lk c =
     (let c = pushcli c in
      rbind (holding me lk c) (\<lambda>(r, c).
      if r then Inl (Panic ''acquire'')
      else case xchg lk 1 of (old, lk) \<Rightarrow>
        if old \<noteq> 0 then Inl (Sleeps ''spinlock'')
        else Inr (lk\<lparr>lk_cpu := Some me, lk_pcs := getcallerpcs m lkp\<rparr>, c)))"

definition release :: "nat \<Rightarrow> spinlock \<Rightarrow> cpu \<Rightarrow> (spinlock \<times> cpu) res" where
  "release me lk c =
     rbind (holding me lk c) (\<lambda>(r, c).
     if \<not> r then Inl (Panic ''release'')
     else
      (let lk = lk\<lparr>lk_pcs := (lk_pcs lk)[0 := 0]\<rparr>; lk = lk\<lparr>lk_cpu := None\<rparr>;
           lk = lk\<lparr>lk_locked := 0\<rparr>
       in rbind (popcli c) (\<lambda>c. Inr (lk, c))))"

subsection \<open>Sleep locks\<close>

text \<open>
  \<^verbatim>\<open>struct sleeplock\<close> without its inner spin lock, which only makes each routine atomic.
  \<open>acquiresleep\<close> on a lock that is held sleeps until the holder releases it.
\<close>

record sleeplock =
  sl_locked :: bool
  sl_pid :: int

definition initsleeplock :: sleeplock where
  "initsleeplock = \<lparr>sl_locked = False, sl_pid = 0\<rparr>"

definition acquiresleep :: "int \<Rightarrow> sleeplock \<Rightarrow> sleeplock res" where
  "acquiresleep mypid lk =
     (if sl_locked lk then Inl (Sleeps ''sleeplock'')
      else Inr (lk\<lparr>sl_locked := True, sl_pid := mypid\<rparr>))"

definition releasesleep :: "sleeplock \<Rightarrow> sleeplock" where
  "releasesleep lk = lk\<lparr>sl_locked := False, sl_pid := 0\<rparr>"

definition holdingsleep :: "int \<Rightarrow> sleeplock \<Rightarrow> bool" where
  "holdingsleep mypid lk \<longleftrightarrow> sl_locked lk \<and> sl_pid lk = mypid"

subsection \<open>CPUs competing for one lock\<close>

text \<open>Where a CPU stands in \<^verbatim>\<open>acquire\<close> and \<^verbatim>\<open>release\<close>.\<close>

datatype lpc =
    Outside       \<comment> \<open>not using the lock\<close>
  | Spinning      \<comment> \<open>before the \<^verbatim>\<open>xchg\<close>\<close>
  | Acquired      \<comment> \<open>after the \<^verbatim>\<open>xchg\<close>, \<^verbatim>\<open>lk->cpu\<close> not stored yet\<close>
  | Critical      \<comment> \<open>in the critical section\<close>
  | Releasing     \<comment> \<open>\<^verbatim>\<open>lk->cpu\<close> cleared, \<^verbatim>\<open>lk->locked\<close> not yet\<close>
  | Panicked

record lockst =
  ls_lock :: spinlock
  ls_cpus :: "nat \<Rightarrow> cpu"
  ls_pc :: "nat \<Rightarrow> lpc"

definition at :: "lockst \<Rightarrow> nat \<Rightarrow> lpc \<Rightarrow> cpu \<Rightarrow> spinlock \<Rightarrow> lockst" where
  "at s i pc c lk =
     s\<lparr>ls_lock := lk, ls_cpus := (ls_cpus s)(i := c), ls_pc := (ls_pc s)(i := pc)\<rparr>"

definition enter_acquire :: "nat \<Rightarrow> lockst \<Rightarrow> lockst" where
  "enter_acquire i s =
     (let lk = ls_lock s; c = pushcli (ls_cpus s i) in
      case holding i lk c of
        Inl _ \<Rightarrow> at s i Panicked c lk
      | Inr (r, c) \<Rightarrow> at s i (if r then Panicked else Spinning) c lk)"

definition try_xchg :: "nat \<Rightarrow> lockst \<Rightarrow> lockst" where
  "try_xchg i s =
     (case xchg (ls_lock s) 1 of (old, lk) \<Rightarrow>
        at s i (if old \<noteq> 0 then Spinning else Acquired) (ls_cpus s i) lk)"

definition set_holder :: "nat \<Rightarrow> lockst \<Rightarrow> lockst" where
  "set_holder i s = at s i Critical (ls_cpus s i) ((ls_lock s)\<lparr>lk_cpu := Some i\<rparr>)"

definition enter_release :: "nat \<Rightarrow> lockst \<Rightarrow> lockst" where
  "enter_release i s =
     (let lk = ls_lock s in
      case holding i lk (ls_cpus s i) of
        Inl _ \<Rightarrow> at s i Panicked (ls_cpus s i) lk
      | Inr (r, c) \<Rightarrow>
          if r then at s i Releasing c (lk\<lparr>lk_pcs := (lk_pcs lk)[0 := 0], lk_cpu := None\<rparr>)
          else at s i Panicked c lk)"

definition unlock :: "nat \<Rightarrow> lockst \<Rightarrow> lockst" where
  "unlock i s =
     (let lk = (ls_lock s)\<lparr>lk_locked := 0\<rparr> in
      case popcli (ls_cpus s i) of
        Inl _ \<Rightarrow> at s i Panicked (ls_cpus s i) lk
      | Inr c \<Rightarrow> at s i Outside c lk)"

inductive lock_step :: "lockst \<Rightarrow> lockst \<Rightarrow> bool" where
  step_enter: "ls_pc s i = Outside \<Longrightarrow> lock_step s (enter_acquire i s)"
| step_xchg: "ls_pc s i = Spinning \<Longrightarrow> lock_step s (try_xchg i s)"
| step_holder: "ls_pc s i = Acquired \<Longrightarrow> lock_step s (set_holder i s)"
| step_leave: "ls_pc s i = Critical \<Longrightarrow> lock_step s (enter_release i s)"
| step_unlock: "ls_pc s i = Releasing \<Longrightarrow> lock_step s (unlock i s)"

inductive_cases lock_stepE: "lock_step s s'"

text \<open>
  The start: the lock is initialised, every CPU is outside it, and the nesting counts of the
  CPUs are those of code that uses \<^verbatim>\<open>pushcli\<close> and \<^verbatim>\<open>popcli\<close> in pairs.
\<close>

definition cpu_ok :: "cpu \<Rightarrow> bool" where
  "cpu_ok c \<longleftrightarrow> 0 \<le> ncli c \<and> (0 < ncli c \<longrightarrow> \<not> fl_if c)"

definition lock_start :: "lockst \<Rightarrow> bool" where
  "lock_start s \<longleftrightarrow> lk_locked (ls_lock s) = 0 \<and> lk_cpu (ls_lock s) = None
     \<and> (\<forall>i. ls_pc s i = Outside \<and> cpu_ok (ls_cpus s i))"

section \<open>Lemmas\<close>

lemma pushcli_ok: "cpu_ok c \<Longrightarrow> cpu_ok (pushcli c) \<and> 0 < ncli (pushcli c) \<and> \<not> fl_if (pushcli c)"
  by (auto simp: cpu_ok_def pushcli_def Let_def)

lemma popcli_pushcli: "cpu_ok c \<Longrightarrow> popcli (pushcli c) = Inr (c\<lparr>intena := intena (pushcli c)\<rparr>)"
  by (cases c) (auto simp: cpu_ok_def pushcli_def popcli_def Let_def)

lemma popcli_ok: "cpu_ok c \<Longrightarrow> 0 < ncli c \<Longrightarrow> \<exists>c'. popcli c = Inr c' \<and> cpu_ok c'"
  by (cases "ncli c = 1 \<and> intena c") (auto simp: popcli_def cpu_ok_def Let_def)

lemma holding_ok:
  assumes "cpu_ok c" and "0 < ncli c"
  shows "holding me lk c = Inr (lk_locked lk \<noteq> 0 \<and> lk_cpu lk = Some me, c)"
proof -
  have "popcli (pushcli c) = Inr c"
    using assms by (cases c) (auto simp: popcli_def pushcli_def cpu_ok_def Let_def)
  then show ?thesis by (simp add: holding_def)
qed

text \<open>The inductive invariant: who may be where, and what the shared words then hold.\<close>

definition owns :: "lpc \<Rightarrow> bool" where
  "owns pc \<longleftrightarrow> pc \<in> {Acquired, Critical, Releasing}"

definition lock_inv :: "lockst \<Rightarrow> bool" where
  "lock_inv s \<longleftrightarrow>
     (\<forall>i. cpu_ok (ls_cpus s i) \<and> ls_pc s i \<noteq> Panicked
        \<and> (ls_pc s i \<noteq> Outside \<longrightarrow> 0 < ncli (ls_cpus s i)))
     \<and> (\<forall>i j. owns (ls_pc s i) \<longrightarrow> owns (ls_pc s j) \<longrightarrow> i = j)
     \<and> (\<forall>i. owns (ls_pc s i) \<longrightarrow> lk_locked (ls_lock s) \<noteq> 0)
     \<and> (\<forall>i. lk_cpu (ls_lock s) = Some i \<longleftrightarrow> ls_pc s i = Critical)"

lemma lock_start_inv: "lock_start s \<Longrightarrow> lock_inv s"
  by (auto simp: lock_start_def lock_inv_def owns_def)

lemma lock_step_inv:
  assumes "lock_step s s'" and inv: "lock_inv s"
  shows "lock_inv s'"
  using assms(1)
proof cases
  case (step_enter i)
  have ok: "cpu_ok (ls_cpus s i)" and nc: "lk_cpu (ls_lock s) \<noteq> Some i"
    using inv step_enter(2) by (auto simp: lock_inv_def)
  from pushcli_ok [OF ok] nc have "s' = at s i Spinning (pushcli (ls_cpus s i)) (ls_lock s)"
    by (simp add: step_enter(1) enter_acquire_def holding_ok)
  then show ?thesis
    using inv step_enter(2) pushcli_ok [OF ok]
    by (auto simp: lock_inv_def at_def owns_def split: if_splits)
next
  case (step_xchg i)
  then show ?thesis
    using inv by (auto simp: try_xchg_def xchg_def lock_inv_def at_def owns_def split: if_splits)
next
  case (step_holder i)
  then show ?thesis
    using inv by (fastforce simp: set_holder_def lock_inv_def at_def owns_def split: if_splits)
next
  case (step_leave i)
  have "cpu_ok (ls_cpus s i)" "0 < ncli (ls_cpus s i)" "lk_locked (ls_lock s) \<noteq> 0"
    "lk_cpu (ls_lock s) = Some i"
    using inv step_leave(2) by (auto simp: lock_inv_def owns_def)
  then have "s' = at s i Releasing (ls_cpus s i)
      ((ls_lock s)\<lparr>lk_pcs := (lk_pcs (ls_lock s))[0 := 0], lk_cpu := None\<rparr>)"
    by (simp add: step_leave(1) enter_release_def holding_ok Let_def)
  then show ?thesis
    using inv step_leave(2) by (fastforce simp: lock_inv_def at_def owns_def split: if_splits)
next
  case (step_unlock i)
  have ok: "cpu_ok (ls_cpus s i)" "0 < ncli (ls_cpus s i)"
    using inv step_unlock(2) by (auto simp: lock_inv_def)
  from popcli_ok [OF this] obtain c where c: "popcli (ls_cpus s i) = Inr c" "cpu_ok c"
    by blast
  then have "s' = at s i Outside c ((ls_lock s)\<lparr>lk_locked := 0\<rparr>)"
    by (simp add: step_unlock(1) unlock_def)
  then show ?thesis
    using inv step_unlock(2) c(2)
    by (fastforce simp: lock_inv_def at_def owns_def split: if_splits)
qed

lemma lock_reach_inv: "lock_step\<^sup>*\<^sup>* s s' \<Longrightarrow> lock_inv s \<Longrightarrow> lock_inv s'"
  by (induction rule: rtranclp_induct) (auto intro: lock_step_inv)

lemma acquire_free:
  assumes "cpu_ok c" and "lk_locked lk = 0"
  shows "acquire me m p lk c =
    Inr (lk\<lparr>lk_locked := 1, lk_cpu := Some me, lk_pcs := getcallerpcs m p\<rparr>, pushcli c)"
  using pushcli_ok [OF assms(1)] assms(2) by (simp add: acquire_def holding_ok xchg_def)

lemma release_held:
  assumes "cpu_ok c" and "0 < ncli c" and "lk_locked lk \<noteq> 0" and "lk_cpu lk = Some me"
  shows "release me lk c = rbind (popcli c) (\<lambda>c.
    Inr (lk\<lparr>lk_pcs := (lk_pcs lk)[0 := 0], lk_cpu := None, lk_locked := 0\<rparr>, c))"
  using assms by (simp add: release_def holding_ok Let_def)

section \<open>Properties\<close>



text \<open>\<^verbatim>\<open>acquire\<close> and \<^verbatim>\<open>release\<close> are matched: on a free lock \<^verbatim>\<open>acquire\<close> returns
  with the lock held and interrupts off, a second \<^verbatim>\<open>acquire\<close> by the holder panics instead of
  deadlocking, and \<^verbatim>\<open>release\<close> frees the lock and puts the interrupt flag and the nesting
  depth back to what they were before.\<close>

theorem acquire_release_matched:
  assumes "cpu_ok c" and "lk_locked lk = 0"
  shows "\<exists>lk1 c1 lk2 c2. acquire me m p lk c = Inr (lk1, c1) \<and> \<not> fl_if c1
    \<and> acquire me m p lk1 c1 = Inl (Panic ''acquire'')
    \<and> release me lk1 c1 = Inr (lk2, c2) \<and> lk_locked lk2 = 0
    \<and> release me lk2 c2 = Inl (Panic ''release'')
    \<and> fl_if c2 = fl_if c \<and> ncli c2 = ncli c"
proof -
  let ?lk1 = "lk\<lparr>lk_locked := 1, lk_cpu := Some me, lk_pcs := getcallerpcs m p\<rparr>"
  let ?lk2 = "?lk1\<lparr>lk_pcs := (getcallerpcs m p)[0 := 0], lk_cpu := None, lk_locked := 0\<rparr>"
  let ?c2 = "c\<lparr>intena := intena (pushcli c)\<rparr>"
  note c1 = pushcli_ok [OF assms(1)]
  have ok2: "cpu_ok ?c2" using assms(1) by (simp add: cpu_ok_def)
  have "acquire me m p ?lk1 (pushcli c) = Inl (Panic ''acquire'')"
    using pushcli_ok [OF c1 [THEN conjunct1]] by (simp add: acquire_def holding_ok)
  moreover have "release me ?lk1 (pushcli c) = Inr (?lk2, ?c2)"
    using c1 assms(1) by (simp add: release_held popcli_pushcli)
  moreover have "release me ?lk2 ?c2 = Inl (Panic ''release'')"
    using popcli_pushcli [OF ok2] by (simp add: release_def holding_def)
  ultimately show ?thesis
    using acquire_free [OF assms] c1 by auto
qed

theorem acquire_release_matched_witness:
  "\<exists>lk1 c1 lk2 c2. acquire 0 (\<lambda>_. 0) 0 \<lparr>lk_name = ''l'', lk_locked = 0, lk_cpu = None, lk_pcs = []\<rparr>
      \<lparr>ncli = 0, intena = False, fl_if = True\<rparr> = Inr (lk1, c1) \<and> \<not> fl_if c1
    \<and> acquire 0 (\<lambda>_. 0) 0 lk1 c1 = Inl (Panic ''acquire'')
    \<and> release 0 lk1 c1 = Inr (lk2, c2) \<and> lk_locked lk2 = 0
    \<and> release 0 lk2 c2 = Inl (Panic ''release'')
    \<and> fl_if c2 = fl_if \<lparr>ncli = 0, intena = False, fl_if = True\<rparr>
    \<and> ncli c2 = ncli \<lparr>ncli = 0, intena = False, fl_if = True\<rparr>"
  by (rule acquire_release_matched) (simp_all add: cpu_ok_def)

end
