(* ===== verification/KIde.thy ===== *)
theory KIde
  imports KLock
begin

text \<open>
  The IDE driver (\<^verbatim>\<open>kernel/dev/ide.c\<close>) and the buffers it transfers
  (\<^verbatim>\<open>includes/kernel/buf.h\<close>).

  The drive is modelled by its task-file registers, its status byte and the contents of its
  sectors. A write command with its data changes a sector, and is recorded in \<open>wtrace\<close>, the
  list of the writes the drive has done; the crash theorems of the log are about prefixes of
  that list. A read is served by the interrupt that follows. Buffers are named by their index
  in \<^verbatim>\<open>bcache.buf\<close>.

  A process that waits in \<^verbatim>\<open>iderw\<close> is woken by the interrupt handler: the wait loop of the
  model runs \<open>ideintr\<close> until the buffer is done.
\<close>

section \<open>Definitions\<close>

abbreviation "BSIZE \<equiv> 512 :: nat"
abbreviation "FSSIZE \<equiv> 10000 :: uint"

text \<open>\<^verbatim>\<open>struct buf\<close>: the two bits of \<^verbatim>\<open>flags\<close> as booleans, the list pointers elsewhere.\<close>

record buf =
  b_valid :: bool
  b_dirty :: bool
  b_dev :: uint
  b_blockno :: uint
  b_lock :: sleeplock
  b_refcnt :: uint
  b_data :: bytes

text \<open>The registers that \<^verbatim>\<open>idestart\<close> programs.\<close>

record idereg =
  r_count :: uchar
  r_lba0 :: uchar
  r_lba1 :: uchar
  r_lba2 :: uchar
  r_dev :: uchar

text \<open>How the drive decodes them: the 28-bit sector number and the drive select bit.\<close>

definition ide_lba :: "idereg \<Rightarrow> uint" where
  "ide_lba r = ucast (r_lba0 r) OR push_bit 8 (ucast (r_lba1 r)) OR push_bit 16 (ucast (r_lba2 r))
     OR push_bit 24 (ucast (r_dev r AND 0x0f))"

definition ide_drive :: "idereg \<Rightarrow> uint" where
  "ide_drive r = (if bit (r_dev r) 4 then 1 else 0)"

record ide_st =
  mypid :: int
  spins :: nat
  bufs :: "nat \<Rightarrow> buf"
  idequeue :: "nat list"
  havedisk1 :: bool
  ide_stat :: uchar
  ide_regs :: idereg
  disk :: "uint \<Rightarrow> uint \<Rightarrow> bytes"
  wtrace :: "(uint \<times> uint \<times> bytes) list"

text \<open>
  \<open>mypid\<close> is \<^verbatim>\<open>myproc()->pid\<close>. \<open>spins\<close> counts the spin locks that the running process
  keeps across calls of this layer: \<^verbatim>\<open>sched\<close> panics when a process goes to sleep with one.
\<close>

definition upd_buf :: "nat \<Rightarrow> (buf \<Rightarrow> buf) \<Rightarrow> 'a ide_st_scheme \<Rightarrow> 'a ide_st_scheme" where
  "upd_buf i f s = s\<lparr>bufs := (bufs s)(i := f (bufs s i))\<rparr>"

text \<open>
  \<^verbatim>\<open>idewait\<close> polls the status byte until the drive is ready. With a status that never becomes
  ready the loop does not end.
\<close>

definition idewait :: "bool \<Rightarrow> 'a ide_st_scheme \<Rightarrow> int res" where
  "idewait checkerr s =
     (let r = ide_stat s in
      if r AND (0x80 OR 0x40) \<noteq> 0x40 then Inl (Sleeps ''ide drive'')
      else if checkerr \<and> r AND (0x20 OR 0x01) \<noteq> 0 then Inr (- 1)
      else Inr 0)"

text \<open>
  \<^verbatim>\<open>ideinit\<close> probes for the second drive: \<open>probe i\<close> is the status byte of the \<open>i\<close>-th
  of the thousand polls.
\<close>

definition ideinit :: "(nat \<Rightarrow> uchar) \<Rightarrow> 'a ide_st_scheme \<Rightarrow> 'a ide_st_scheme res" where
  "ideinit probe s =
     rbind (idewait False s) (\<lambda>_.
     let s = s\<lparr>ide_regs := (ide_regs s)\<lparr>r_dev := 0xe0 OR push_bit 4 1\<rparr>\<rparr>;
         s = (if find (\<lambda>i. probe i \<noteq> 0) [0..<1000] \<noteq> None then s\<lparr>havedisk1 := True\<rparr> else s)
     in Inr (s\<lparr>ide_regs := (ide_regs s)\<lparr>r_dev := 0xe0 OR push_bit 4 0\<rparr>\<rparr>))"

text \<open>One sector per block, so the commands are the single-sector ones.\<close>

definition ide_regs_for :: "buf \<Rightarrow> idereg" where
  "ide_regs_for b =
     (let sector = b_blockno b * 1 in
      \<lparr>r_count = 1,
       r_lba0 = ucast (sector AND 0xff),
       r_lba1 = ucast (drop_bit 8 sector AND 0xff),
       r_lba2 = ucast (drop_bit 16 sector AND 0xff),
       r_dev = 0xe0 OR ucast (push_bit 4 (b_dev b AND 1)) OR ucast (drop_bit 24 sector AND 0x0f)\<rparr>)"

definition idestart :: "nat \<Rightarrow> 'a ide_st_scheme \<Rightarrow> 'a ide_st_scheme res" where
  "idestart i s =
     (let b = bufs s i in
      if b_blockno b \<ge> FSSIZE then Inl (Panic ''incorrect blockno'')
      else rbind (idewait False s) (\<lambda>_.
       let regs = ide_regs_for b; s = s\<lparr>ide_regs := regs\<rparr> in
       if b_dirty b then
         (let dr = ide_drive regs; sec = ide_lba regs in
          Inr (s\<lparr>disk := (disk s)(dr := (disk s dr)(sec := b_data b)),
                 wtrace := wtrace s @ [(dr, sec, b_data b)]\<rparr>))
       else Inr s))"

definition ideintr :: "'a ide_st_scheme \<Rightarrow> 'a ide_st_scheme res" where
  "ideintr s =
     (case idequeue s of
        [] \<Rightarrow> Inr s
      | i # q \<Rightarrow>
         (let s = s\<lparr>idequeue := q\<rparr> in
          rbind (if \<not> b_dirty (bufs s i) then
                   rbind (idewait True s) (\<lambda>r.
                   if r \<ge> 0 then
                     Inr (upd_buf i (\<lambda>b. b\<lparr>b_data :=
                       disk s (ide_drive (ide_regs s)) (ide_lba (ide_regs s))\<rparr>) s)
                   else Inr s)
                 else Inr s) (\<lambda>s.
          let s = upd_buf i (\<lambda>b. b\<lparr>b_valid := True, b_dirty := False\<rparr>) s in
          if q \<noteq> [] then idestart (hd q) s else Inr s)))"

lemma upd_buf_queue [simp]: "idequeue (upd_buf i f s) = idequeue s"
  by (simp add: upd_buf_def)

lemma idestart_queue: "idestart i s = Inr s' \<Longrightarrow> idequeue s' = idequeue s"
  by (auto simp: idestart_def Let_def rbind_eq_Inr split: if_splits)

lemma ideintr_queue: "ideintr s = Inr s' \<Longrightarrow> idequeue s' = tl (idequeue s)"
  by (auto simp: ideintr_def Let_def rbind_eq_Inr split: list.splits if_splits dest: idestart_queue)

function iderw_wait :: "nat \<Rightarrow> 'a ide_st_scheme \<Rightarrow> 'a ide_st_scheme res" where
  "iderw_wait i s =
     (if b_valid (bufs s i) \<and> \<not> b_dirty (bufs s i) then Inr s
      else if spins s \<noteq> 0 then Inl (Panic ''sched locks'')
      else if idequeue s = [] then Inl (Sleeps ''buf'')
      else rbind (ideintr s) (iderw_wait i))"
  by pat_completeness auto
termination
  by (relation "measure (\<lambda>(i, s). length (idequeue s))") (auto dest!: ideintr_queue)

declare iderw_wait.simps [simp del]

definition iderw :: "nat \<Rightarrow> 'a ide_st_scheme \<Rightarrow> 'a ide_st_scheme res" where
  "iderw i s =
     (let b = bufs s i in
      if \<not> holdingsleep (mypid s) (b_lock b) then Inl (Panic ''iderw: buf not locked'')
      else if b_valid b \<and> \<not> b_dirty b then Inl (Panic ''iderw: nothing to do'')
      else if b_dev b \<noteq> 0 \<and> \<not> havedisk1 s then Inl (Panic ''iderw: ide disk 1 not present'')
      else
       (let s = s\<lparr>idequeue := idequeue s @ [i]\<rparr> in
        rbind (if hd (idequeue s) = i then idestart i s else Inr s) (iderw_wait i)))"

section \<open>Lemmas\<close>

lemma and_low_bits:
  "(x :: uint) AND 0xff = take_bit 8 x" "(x :: uint) AND 0x0f = take_bit 4 x"
  "(y :: uchar) AND 0x0f = take_bit 4 y"
  by (simp_all add: take_bit_eq_mask mask_eq_exp_minus_1)

lemma not_bit_of_less: "(x :: uint) < 2 ^ k \<Longrightarrow> k < 32 \<Longrightarrow> k \<le> n \<Longrightarrow> \<not> bit x n"
proof
  assume a: "x < 2 ^ k" "k < 32" "k \<le> n" "bit x n"
  have "take_bit k x = x"
    using less_mask_eq [OF a(1)] by (simp add: take_bit_eq_mask)
  with a(4) have "bit (take_bit k x) n" by simp
  with a(3) show False by (simp add: bit_take_bit_iff)
qed

text \<open>The sector number survives its trip through the byte-wide registers.\<close>

lemma ide_lba_regs_for: "b_blockno b < FSSIZE \<Longrightarrow> ide_lba (ide_regs_for b) = b_blockno b"
proof -
  assume "b_blockno b < FSSIZE"
  then have lt: "b_blockno b < 2 ^ 28"
    by (rule order.strict_trans) simp
  note hi = not_bit_of_less [OF lt]
  show ?thesis
  proof (rule bit_word_eqI)
    fix n assume "n < LENGTH(32)"
    then consider "n < 8" | "8 \<le> n" "n < 16" | "16 \<le> n" "n < 24" | "24 \<le> n" "n < 28" | "28 \<le> n"
      by linarith
    then show "bit (ide_lba (ide_regs_for b)) n = bit (b_blockno b) n"
      by cases (auto simp: ide_lba_def ide_regs_for_def and_low_bits Let_def bit_simps hi)
  qed
qed

lemma ide_drive_regs_for:
  "b_blockno b < FSSIZE \<Longrightarrow> ide_drive (ide_regs_for b) = b_dev b AND 1"
proof -
  have "bit (r_dev (ide_regs_for b)) 4 \<longleftrightarrow> bit (b_dev b) 0"
    by (simp add: ide_regs_for_def and_low_bits Let_def bit_simps)
  then show ?thesis
    by (simp add: ide_drive_def and_one_eq odd_iff_mod_2_eq_one bit_0)
qed

definition drive_ready :: "uchar \<Rightarrow> bool" where
  "drive_ready r \<longleftrightarrow> r AND (0x80 OR 0x40) = 0x40 \<and> r AND (0x20 OR 0x01) = 0"

lemma idewait_ready [simp]: "drive_ready (ide_stat s) \<Longrightarrow> idewait c s = Inr 0"
  by (simp add: idewait_def drive_ready_def Let_def)

text \<open>A transfer on an idle drive: one interrupt completes it.\<close>

definition can_transfer :: "'a ide_st_scheme \<Rightarrow> nat \<Rightarrow> bool" where
  "can_transfer s i \<longleftrightarrow> idequeue s = [] \<and> spins s = 0 \<and> drive_ready (ide_stat s)
     \<and> holdingsleep (mypid s) (b_lock (bufs s i))
     \<and> (b_dev (bufs s i) \<noteq> 0 \<longrightarrow> havedisk1 s) \<and> b_blockno (bufs s i) < FSSIZE"

lemma iderw_read:
  assumes "can_transfer s i" and "\<not> b_valid (bufs s i)" and "\<not> b_dirty (bufs s i)"
  shows "iderw i s = Inr (s\<lparr>ide_regs := ide_regs_for (bufs s i),
    bufs := (bufs s)(i := (bufs s i)\<lparr>b_valid := True,
      b_data := disk s (b_dev (bufs s i) AND 1) (b_blockno (bufs s i))\<rparr>)\<rparr>)"
  using assms
  by (cases "bufs s i", cases s) (auto simp: iderw_def can_transfer_def idestart_def ideintr_def iderw_wait.simps upd_buf_def
      ide_lba_regs_for ide_drive_regs_for Let_def not_le)

lemma iderw_write:
  assumes "can_transfer s i" and "b_dirty (bufs s i)"
  shows "iderw i s = Inr (s\<lparr>ide_regs := ide_regs_for (bufs s i),
    bufs := (bufs s)(i := (bufs s i)\<lparr>b_valid := True, b_dirty := False\<rparr>),
    disk := (disk s)(b_dev (bufs s i) AND 1 :=
      (disk s (b_dev (bufs s i) AND 1))(b_blockno (bufs s i) := b_data (bufs s i))),
    wtrace := wtrace s @ [(b_dev (bufs s i) AND 1, b_blockno (bufs s i), b_data (bufs s i))]\<rparr>)"
  using assms
  by (cases "bufs s i", cases s) (auto simp: iderw_def can_transfer_def idestart_def ideintr_def iderw_wait.simps upd_buf_def
      ide_lba_regs_for ide_drive_regs_for Let_def not_le)

end
