(* ===== verification/KBio.thy ===== *)
theory KBio
  imports KIde
begin

text \<open>
  The buffer cache (\<^verbatim>\<open>kernel/bio.c\<close>): \<^verbatim>\<open>NBUF\<close> buffers on a list kept in order of last
  use. The list through \<^verbatim>\<open>prev\<close>/\<^verbatim>\<open>next\<close> is \<open>lru\<close>, the buffer indices from
  \<^verbatim>\<open>head.next\<close> on.

  \<open>content\<close> is what the cache and the disk together say a block of the file system's device
  holds. The invariant \<open>bio_inv\<close> makes it well defined: no block has two buffers, and a clean
  buffer that nobody uses agrees with the disk. The lemmas give the effect of every operation as
  an explicit update of the state, so that what an operation leaves alone is seen at once.
\<close>

section \<open>Definitions\<close>

abbreviation "NBUF \<equiv> 60 :: nat"
abbreviation "ROOTDEV \<equiv> 1 :: uint"

record bio_st = ide_st +
  lru :: "nat list"

text \<open>\<^verbatim>\<open>binit\<close> pushes every buffer at the front of the list.\<close>

definition binit :: "'a bio_st_scheme \<Rightarrow> 'a bio_st_scheme" where
  "binit s = fold (\<lambda>i s. (upd_buf i (\<lambda>b. b\<lparr>b_lock := initsleeplock\<rparr>) s)\<lparr>lru := i # lru s\<rparr>)
     [0..<NBUF] (s\<lparr>lru := []\<rparr>)"

definition lock_buf :: "nat \<Rightarrow> 'a bio_st_scheme \<Rightarrow> (nat \<times> 'a bio_st_scheme) res" where
  "lock_buf i s =
     rbind (acquiresleep (mypid s) (b_lock (bufs s i))) (\<lambda>lk.
     Inr (i, upd_buf i (\<lambda>b. b\<lparr>b_lock := lk\<rparr>) s))"

definition bget :: "uint \<Rightarrow> uint \<Rightarrow> 'a bio_st_scheme \<Rightarrow> (nat \<times> 'a bio_st_scheme) res" where
  "bget dev blockno s =
     (case find (\<lambda>i. b_dev (bufs s i) = dev \<and> b_blockno (bufs s i) = blockno) (lru s) of
        Some i \<Rightarrow> lock_buf i (upd_buf i (\<lambda>b. b\<lparr>b_refcnt := b_refcnt b + 1\<rparr>) s)
      | None \<Rightarrow>
         (case find (\<lambda>i. b_refcnt (bufs s i) = 0 \<and> \<not> b_dirty (bufs s i)) (rev (lru s)) of
            Some i \<Rightarrow>
              lock_buf i (upd_buf i (\<lambda>b. b\<lparr>b_dev := dev, b_blockno := blockno,
                b_valid := False, b_dirty := False, b_refcnt := 1\<rparr>) s)
          | None \<Rightarrow> Inl (Panic ''bget: no buffers'')))"

definition bread :: "uint \<Rightarrow> uint \<Rightarrow> 'a bio_st_scheme \<Rightarrow> (nat \<times> 'a bio_st_scheme) res" where
  "bread dev blockno s =
     rbind (bget dev blockno s) (\<lambda>(i, s).
     if \<not> b_valid (bufs s i) then rbind (iderw i s) (\<lambda>s. Inr (i, s)) else Inr (i, s))"

definition bwrite :: "nat \<Rightarrow> 'a bio_st_scheme \<Rightarrow> 'a bio_st_scheme res" where
  "bwrite i s =
     (if \<not> holdingsleep (mypid s) (b_lock (bufs s i)) then Inl (Panic ''bwrite'')
      else iderw i (upd_buf i (\<lambda>b. b\<lparr>b_dirty := True\<rparr>) s))"

definition brelse :: "nat \<Rightarrow> 'a bio_st_scheme \<Rightarrow> 'a bio_st_scheme res" where
  "brelse i s =
     (if \<not> holdingsleep (mypid s) (b_lock (bufs s i)) then Inl (Panic ''brelse'')
      else
       (let s = upd_buf i (\<lambda>b. b\<lparr>b_lock := releasesleep (b_lock b)\<rparr>) s;
            s = upd_buf i (\<lambda>b. b\<lparr>b_refcnt := b_refcnt b - 1\<rparr>) s
        in if b_refcnt (bufs s i) = 0 then Inr (s\<lparr>lru := i # remove1 i (lru s)\<rparr>) else Inr s))"

definition bsync :: "'a bio_st_scheme \<Rightarrow> 'a bio_st_scheme res" where
  "bsync s =
     (let s = s\<lparr>spins := spins s + 1\<rparr> in
      rbind (rfold (\<lambda>i s.
          if b_refcnt (bufs s i) = 0 \<and> b_dirty (bufs s i) then bwrite i s else Inr s) (lru s) s) (\<lambda>s.
      Inr (s\<lparr>spins := spins s - 1\<rparr>)))"

text \<open>Storing into the data of a buffer, as the callers of \<^verbatim>\<open>bread\<close> do.\<close>

definition set_data :: "nat \<Rightarrow> bytes \<Rightarrow> 'a bio_st_scheme \<Rightarrow> 'a bio_st_scheme" where
  "set_data i d s = upd_buf i (\<lambda>b. b\<lparr>b_data := d\<rparr>) s"

section \<open>The invariant and the abstraction\<close>

text \<open>The buffer that caches a block of the file system's device.\<close>

definition names :: "uint \<Rightarrow> buf \<Rightarrow> bool" where
  "names bno b \<longleftrightarrow> b_dev b = ROOTDEV \<and> b_blockno b = bno"

definition buf_ok :: "(uint \<Rightarrow> bytes) \<Rightarrow> buf \<Rightarrow> bool" where
  "buf_ok d b \<longleftrightarrow>
     (b_dirty b \<longrightarrow> b_valid b)
     \<and> (sl_locked (b_lock b) \<longrightarrow> b_refcnt b \<noteq> 0)
     \<and> b_dev b \<in> {0, ROOTDEV}
     \<and> (b_dev b = ROOTDEV \<and> b_valid b \<and> \<not> b_dirty b \<and> \<not> sl_locked (b_lock b)
          \<longrightarrow> b_data b = d (b_blockno b))"

definition one_buf_each :: "(nat \<Rightarrow> buf) \<Rightarrow> bool" where
  "one_buf_each bs \<longleftrightarrow>
     (\<forall>i<NBUF. \<forall>j<NBUF. b_dev (bs i) = ROOTDEV \<and> b_dev (bs j) = ROOTDEV
        \<and> b_blockno (bs i) = b_blockno (bs j) \<longrightarrow> i = j)"

definition bio_inv :: "'a bio_st_scheme \<Rightarrow> bool" where
  "bio_inv s \<longleftrightarrow>
     distinct (lru s) \<and> set (lru s) = {..<NBUF}
     \<and> idequeue s = [] \<and> spins s = 0 \<and> havedisk1 s \<and> drive_ready (ide_stat s)
     \<and> one_buf_each (bufs s) \<and> (\<forall>i<NBUF. buf_ok (disk s 1) (bufs s i))"

definition content :: "'a bio_st_scheme \<Rightarrow> uint \<Rightarrow> bytes" where
  "content s bno =
     (case find (\<lambda>i. names bno (bufs s i) \<and> b_valid (bufs s i)) [0..<NBUF] of
        Some i \<Rightarrow> b_data (bufs s i)
      | None \<Rightarrow> disk s 1 bno)"

text \<open>Buffer \<open>i\<close> is held by the running process and has the data of block \<open>bno\<close>.\<close>

definition holds :: "'a bio_st_scheme \<Rightarrow> nat \<Rightarrow> uint \<Rightarrow> bool" where
  "holds s i bno \<longleftrightarrow> i < NBUF \<and> names bno (bufs s i) \<and> b_valid (bufs s i)
     \<and> holdingsleep (mypid s) (b_lock (bufs s i)) \<and> b_refcnt (bufs s i) \<noteq> 0"

text \<open>
  A block can be obtained without waiting: nobody has its buffer locked, its reference count
  does not overflow, and there is a buffer for it.
\<close>

definition free_buf :: "buf \<Rightarrow> bool" where
  "free_buf b \<longleftrightarrow> b_refcnt b = 0 \<and> \<not> b_dirty b"

definition obtainable :: "'a bio_st_scheme \<Rightarrow> uint \<Rightarrow> bool" where
  "obtainable s bno \<longleftrightarrow> bno < FSSIZE
     \<and> (\<forall>i<NBUF. names bno (bufs s i)
          \<longrightarrow> \<not> sl_locked (b_lock (bufs s i)) \<and> b_refcnt (bufs s i) + 1 \<noteq> 0)
     \<and> (\<exists>i<NBUF. names bno (bufs s i) \<or> free_buf (bufs s i))"

section \<open>Lemmas\<close>

lemma bio_unique:
  "bio_inv s \<Longrightarrow> i < NBUF \<Longrightarrow> j < NBUF \<Longrightarrow> names bno (bufs s i) \<Longrightarrow> names bno (bufs s j) \<Longrightarrow> i = j"
  unfolding bio_inv_def one_buf_each_def names_def by blast

lemma bio_buf_ok: "bio_inv s \<Longrightarrow> i < NBUF \<Longrightarrow> buf_ok (disk s 1) (bufs s i)"
  by (simp add: bio_inv_def)

lemma content_eqI:
  assumes "i < NBUF" and "names bno (bufs s i)" and "b_valid (bufs s i)"
    and "\<And>j. j < NBUF \<Longrightarrow> names bno (bufs s j) \<Longrightarrow> j = i"
  shows "content s bno = b_data (bufs s i)"
proof -
  have "find (\<lambda>i. names bno (bufs s i) \<and> b_valid (bufs s i)) [0..<NBUF] = Some i"
    unfolding find_upt_Some_iff
  proof (intro conjI allI impI notI)
    fix j assume j: "j < i" and n: "names bno (bufs s j) \<and> b_valid (bufs s j)"
    have "j = i" by (rule assms(4)) (use j n assms(1) in auto)
    with j show False by simp
  qed (use assms(1-3) in auto)
  then show ?thesis by (simp add: content_def)
qed

lemma content_cached:
  "bio_inv s \<Longrightarrow> i < NBUF \<Longrightarrow> names bno (bufs s i) \<Longrightarrow> b_valid (bufs s i)
    \<Longrightarrow> content s bno = b_data (bufs s i)"
  by (rule content_eqI) (auto dest: bio_unique)

lemma content_uncached:
  assumes "\<And>i. i < NBUF \<Longrightarrow> names bno (bufs s i) \<Longrightarrow> \<not> b_valid (bufs s i)"
  shows "content s bno = disk s 1 bno"
proof -
  have "find (\<lambda>i. names bno (bufs s i) \<and> b_valid (bufs s i)) [0..<NBUF] = None"
    using assms by (auto simp: find_upt_None_iff)
  then show ?thesis by (simp add: content_def)
qed

lemma content_holds: "bio_inv s \<Longrightarrow> holds s i bno \<Longrightarrow> content s bno = b_data (bufs s i)"
  by (auto simp: holds_def intro: content_cached)

text \<open>The content depends only on the valid buffers and the disk.\<close>

lemma content_cong:
  assumes "\<And>i. i < NBUF \<Longrightarrow> (names bno (bufs s i) \<and> b_valid (bufs s i))
      = (names bno (bufs t i) \<and> b_valid (bufs t i))"
    and "\<And>i. i < NBUF \<Longrightarrow> names bno (bufs s i) \<Longrightarrow> b_valid (bufs s i) \<Longrightarrow> b_data (bufs s i) = b_data (bufs t i)"
    and "disk s 1 bno = disk t 1 bno"
  shows "content s bno = content t bno"
proof -
  have eq: "find (\<lambda>i. names bno (bufs s i) \<and> b_valid (bufs s i)) [0..<NBUF]
      = find (\<lambda>i. names bno (bufs t i) \<and> b_valid (bufs t i)) [0..<NBUF]"
    by (rule find_cong) (use assms(1) in auto)
  show ?thesis
  proof (cases "find (\<lambda>i. names bno (bufs s i) \<and> b_valid (bufs s i)) [0..<NBUF]")
    case None
    with eq assms(3) show ?thesis by (simp add: content_def)
  next
    case (Some i)
    then have "i < NBUF \<and> names bno (bufs s i) \<and> b_valid (bufs s i)"
      by (simp add: find_upt_Some_iff)
    with assms(2) have "b_data (bufs s i) = b_data (bufs t i)" by blast
    with Some eq show ?thesis by (simp add: content_def)
  qed
qed

text \<open>Replacing one buffer keeps the invariant when the new one is in order.\<close>

lemma bio_inv_upd:
  assumes "bio_inv s" and "buf_ok (disk s 1) b"
    and "\<And>j bno. j < NBUF \<Longrightarrow> j \<noteq> i \<Longrightarrow> names bno b \<Longrightarrow> \<not> names bno (bufs s j)"
  shows "bio_inv (s\<lparr>bufs := (bufs s)(i := b)\<rparr>)"
proof -
  have "one_buf_each ((bufs s)(i := b))"
    unfolding one_buf_each_def
  proof (intro allI impI)
    fix k j assume k: "k < NBUF" and j: "j < NBUF"
      and eq: "b_dev (((bufs s)(i := b)) k) = ROOTDEV \<and> b_dev (((bufs s)(i := b)) j) = ROOTDEV
        \<and> b_blockno (((bufs s)(i := b)) k) = b_blockno (((bufs s)(i := b)) j)"
    from assms(3) [OF k, of "b_blockno b"] assms(3) [OF j, of "b_blockno b"] eq
      bio_unique [OF assms(1) k j, of "b_blockno (bufs s k)"]
    show "k = j"
      by (cases "k = i"; cases "j = i") (simp_all add: names_def)
  qed
  with assms(1,2) show ?thesis by (simp add: bio_inv_def)
qed

lemma one_buf_each_upd:
  assumes "one_buf_each bs" and "b_dev b = b_dev (bs i)" and "b_blockno b = b_blockno (bs i)"
  shows "one_buf_each (bs(i := b))"
proof -
  have "b_dev ((bs(i := b)) j) = b_dev (bs j)" "b_blockno ((bs(i := b)) j) = b_blockno (bs j)" for j
    using assms by auto
  with assms(1) show ?thesis unfolding one_buf_each_def by presburger
qed

lemma bio_inv_same_name:
  "bio_inv s \<Longrightarrow> i < NBUF \<Longrightarrow> buf_ok (disk s 1) b \<Longrightarrow> b_dev b = b_dev (bufs s i)
    \<Longrightarrow> b_blockno b = b_blockno (bufs s i) \<Longrightarrow> bio_inv (s\<lparr>bufs := (bufs s)(i := b)\<rparr>)"
  by (rule bio_inv_upd) (auto simp: names_def bio_inv_def one_buf_each_def)

lemma bio_inv_regs [simp]: "bio_inv (s\<lparr>ide_regs := r\<rparr>) = bio_inv s"
  by (simp add: bio_inv_def)

lemma content_regs [simp]: "content (s\<lparr>ide_regs := r\<rparr>) = content s"
  by (rule ext) (simp add: content_def split: option.split)

subsection \<open>Obtaining a block\<close>

text \<open>
  What \<^verbatim>\<open>bread\<close> puts in place of the buffer it returns: the block's content, locked by the
  caller, with one more reference.
\<close>

definition obtained :: "'a bio_st_scheme \<Rightarrow> uint \<Rightarrow> nat \<Rightarrow> buf \<Rightarrow> bool" where
  "obtained s bno i b \<longleftrightarrow> i < NBUF \<and> names bno b \<and> b_valid b \<and> b_data b = content s bno
     \<and> holdingsleep (mypid s) (b_lock b) \<and> b_refcnt b \<noteq> 0
     \<and> (names bno (bufs s i) \<and> b_dirty b = b_dirty (bufs s i)
            \<and> b_refcnt b = b_refcnt (bufs s i) + 1 \<and> \<not> sl_locked (b_lock (bufs s i))
        \<or> (\<forall>j<NBUF. \<not> names bno (bufs s j)) \<and> free_buf (bufs s i)
            \<and> \<not> b_dirty b \<and> b_refcnt b = 1)"

lemma bget_hit:
  assumes "bio_inv s" and "i < NBUF" and "names bno (bufs s i)" and "\<not> sl_locked (b_lock (bufs s i))"
  shows "bget ROOTDEV bno s = Inr (i, s\<lparr>bufs := (bufs s)(i := (bufs s i)
    \<lparr>b_refcnt := b_refcnt (bufs s i) + 1, b_lock := \<lparr>sl_locked = True, sl_pid = mypid s\<rparr>\<rparr>)\<rparr>)"
proof -
  let ?P = "\<lambda>i. b_dev (bufs s i) = ROOTDEV \<and> b_blockno (bufs s i) = bno"
  have set: "set (lru s) = {..<NBUF}" using assms(1) by (simp add: bio_inv_def)
  obtain j where j: "find ?P (lru s) = Some j"
    using assms(2,3) set by (cases "find ?P (lru s)") (auto simp: names_def dest: find_NoneD)
  then have "names bno (bufs s j)" and "j < NBUF"
    using find_SomeD [OF j] set by (auto simp: names_def)
  then have "j = i" using assms(1-3) by (auto dest: bio_unique)
  with j assms(4) show ?thesis
    by (cases "b_lock (bufs s i)")
      (simp add: bget_def lock_buf_def acquiresleep_def upd_buf_def)
qed

lemma bget_miss:
  assumes "bio_inv s" and none: "\<forall>i<NBUF. \<not> names bno (bufs s i)" and "\<exists>i<NBUF. free_buf (bufs s i)"
  obtains i where "i < NBUF" and "free_buf (bufs s i)" and "\<not> sl_locked (b_lock (bufs s i))"
    and "bget ROOTDEV bno s = Inr (i, s\<lparr>bufs := (bufs s)(i := (bufs s i)
      \<lparr>b_dev := ROOTDEV, b_blockno := bno, b_valid := False, b_dirty := False, b_refcnt := 1,
       b_lock := \<lparr>sl_locked = True, sl_pid = mypid s\<rparr>\<rparr>)\<rparr>)"
proof -
  let ?P = "\<lambda>i. b_dev (bufs s i) = ROOTDEV \<and> b_blockno (bufs s i) = bno"
  let ?Q = "\<lambda>i. b_refcnt (bufs s i) = 0 \<and> \<not> b_dirty (bufs s i)"
  have set: "set (lru s) = {..<NBUF}" using assms(1) by (simp add: bio_inv_def)
  have nP: "find ?P (lru s) = None"
    using none set by (auto simp: find_None_iff names_def)
  obtain i where i: "find ?Q (rev (lru s)) = Some i"
    using assms(3) set
    by (cases "find ?Q (rev (lru s))") (auto simp: free_buf_def find_None_iff)
  then have Q: "i < NBUF" "free_buf (bufs s i)"
    using find_SomeD [OF i] set by (auto simp: free_buf_def)
  moreover have unl: "\<not> sl_locked (b_lock (bufs s i))"
    using bio_buf_ok [OF assms(1) Q(1)] Q(2) by (auto simp: buf_ok_def free_buf_def)
  ultimately show ?thesis
    using that nP i by (cases "b_lock (bufs s i)")
      (simp add: bget_def lock_buf_def acquiresleep_def upd_buf_def)
qed

lemma bread_ok:
  assumes inv: "bio_inv s" and ob: "obtainable s bno"
  obtains i b r where "bread ROOTDEV bno s = Inr (i, s\<lparr>bufs := (bufs s)(i := b), ide_regs := r\<rparr>)"
    and "obtained s bno i b"
proof (cases "\<exists>i<NBUF. names bno (bufs s i)")
  case True
  then obtain i where i: "i < NBUF" "names bno (bufs s i)" by blast
  then have unl: "\<not> sl_locked (b_lock (bufs s i))" "b_refcnt (bufs s i) + 1 \<noteq> 0"
    using ob by (auto simp: obtainable_def)
  let ?b = "(bufs s i)\<lparr>b_refcnt := b_refcnt (bufs s i) + 1,
    b_lock := \<lparr>sl_locked = True, sl_pid = mypid s\<rparr>\<rparr>"
  let ?s = "s\<lparr>bufs := (bufs s)(i := ?b)\<rparr>"
  note hit = bget_hit [OF inv i unl(1)]
  show thesis
  proof (cases "b_valid (bufs s i)")
    case True
    with hit have "bread ROOTDEV bno s = Inr (i, s\<lparr>bufs := (bufs s)(i := ?b), ide_regs := ide_regs s\<rparr>)"
      by (simp add: bread_def)
    moreover have "obtained s bno i ?b"
      using i unl True content_cached [OF inv i True]
      by (simp add: obtained_def names_def holdingsleep_def)
    ultimately show thesis by (rule that)
  next
    case False
    have dirty: "\<not> b_dirty (bufs s i)"
      using bio_buf_ok [OF inv i(1)] False by (simp add: buf_ok_def)
    have "content s bno = disk s 1 bno"
      by (rule content_uncached) (use bio_unique [OF inv i(1) _ i(2)] False in auto)
    moreover have "can_transfer ?s i"
      using inv ob i by (simp add: can_transfer_def bio_inv_def holdingsleep_def names_def obtainable_def)
    ultimately show thesis
      using hit that [where i = i and b = "?b\<lparr>b_valid := True, b_data := disk s 1 bno\<rparr>" and r = "ide_regs_for ?b"]
        i unl False dirty
      by (simp add: bread_def iderw_read obtained_def names_def holdingsleep_def)
  qed
next
  case False
  then have none: "\<forall>i<NBUF. \<not> names bno (bufs s i)" by blast
  from ob False have "\<exists>i<NBUF. free_buf (bufs s i)" by (auto simp: obtainable_def)
  from bget_miss [OF inv none this] obtain i where i: "i < NBUF" "free_buf (bufs s i)"
    and miss: "bget ROOTDEV bno s = Inr (i, s\<lparr>bufs := (bufs s)(i := (bufs s i)
      \<lparr>b_dev := ROOTDEV, b_blockno := bno, b_valid := False, b_dirty := False, b_refcnt := 1,
       b_lock := \<lparr>sl_locked = True, sl_pid = mypid s\<rparr>\<rparr>)\<rparr>)" by blast
  let ?b = "(bufs s i)\<lparr>b_dev := ROOTDEV, b_blockno := bno, b_valid := False, b_dirty := False,
    b_refcnt := 1, b_lock := \<lparr>sl_locked = True, sl_pid = mypid s\<rparr>\<rparr>"
  have "content s bno = disk s 1 bno"
    by (rule content_uncached) (use none in auto)
  moreover have "can_transfer (s\<lparr>bufs := (bufs s)(i := ?b)\<rparr>) i"
    using inv ob by (simp add: can_transfer_def bio_inv_def holdingsleep_def obtainable_def)
  ultimately show thesis
    using miss that [where i = i and b = "?b\<lparr>b_valid := True, b_data := disk s 1 bno\<rparr>" and r = "ide_regs_for ?b"] i none
    by (simp add: bread_def iderw_read obtained_def names_def holdingsleep_def)
qed

lemma obtained_inv:
  assumes inv: "bio_inv s" and ob: "obtained s bno i b"
  shows "bio_inv (s\<lparr>bufs := (bufs s)(i := b)\<rparr>)"
proof (rule bio_inv_upd [OF inv])
  show "buf_ok (disk s 1) b"
    using ob by (auto simp: obtained_def buf_ok_def names_def holdingsleep_def)
  fix j c assume "j < NBUF" "j \<noteq> i" "names c b"
  then show "\<not> names c (bufs s j)"
    using ob bio_unique [OF inv] by (auto simp: obtained_def names_def)
qed

lemma obtained_content:
  assumes inv: "bio_inv s" and ob: "obtained s bno i b"
  shows "content (s\<lparr>bufs := (bufs s)(i := b)\<rparr>) = content s"
proof
  fix c
  let ?s = "s\<lparr>bufs := (bufs s)(i := b)\<rparr>"
  note i = obtained_inv [OF inv ob]
  show "content ?s c = content s c"
  proof (cases "c = bno")
    case True
    have "content ?s bno = b_data (bufs ?s i)"
      by (rule content_cached [OF i]) (use ob in \<open>auto simp: obtained_def\<close>)
    with ob True show ?thesis by (simp add: obtained_def)
  next
    case neq: False
    show ?thesis
    proof (cases "names c (bufs s i)")
      case False
      with neq ob show ?thesis
        by (intro content_cong) (auto simp: obtained_def names_def)
    next
      case True
      then have free: "free_buf (bufs s i)" and iN: "i < NBUF"
        using ob neq by (auto simp: obtained_def names_def)
      have unl: "\<not> sl_locked (b_lock (bufs s i))"
        using bio_buf_ok [OF inv iN] free by (auto simp: buf_ok_def free_buf_def)
      have "content s c = disk s 1 c"
      proof (cases "b_valid (bufs s i)")
        case v: True
        have "content s c = b_data (bufs s i)" by (rule content_cached [OF inv iN True v])
        also have "\<dots> = disk s 1 c"
          using bio_buf_ok [OF inv iN] free unl v True by (auto simp: buf_ok_def free_buf_def names_def)
        finally show ?thesis .
      next
        case False
        then show ?thesis using bio_unique [OF inv iN _ True]
          by (intro content_uncached) auto
      qed
      moreover have "content ?s c = disk ?s 1 c"
      proof (rule content_uncached)
        fix j assume j: "j < NBUF" "names c (bufs ?s j)"
        with neq ob have "j \<noteq> i" by (auto simp: obtained_def names_def)
        with j bio_unique [OF inv iN _ True] show "\<not> b_valid (bufs ?s j)" by auto
      qed
      ultimately show ?thesis by simp
    qed
  qed
qed

lemma obtained_holds:
  assumes "obtained s bno i b"
  shows "holds (s\<lparr>bufs := (bufs s)(i := b), ide_regs := r\<rparr>) i bno"
  using assms by (simp add: obtained_def holds_def)

subsection \<open>Using and giving back a held buffer\<close>

lemma holds_unique: "bio_inv s \<Longrightarrow> holds s i bno \<Longrightarrow> j < NBUF \<Longrightarrow> names bno (bufs s j) \<Longrightarrow> j = i"
  by (auto simp: holds_def dest: bio_unique)

lemma set_data_inv: "bio_inv s \<Longrightarrow> holds s i bno \<Longrightarrow> bio_inv (set_data i d s)"
  unfolding set_data_def upd_buf_def
  by (rule bio_inv_same_name)
    (auto simp: holds_def holdingsleep_def buf_ok_def dest: bio_buf_ok)

lemma content_upd_other:
  "bno \<noteq> c \<Longrightarrow> names bno (bufs s i) \<Longrightarrow> names bno b \<Longrightarrow>
    content (s\<lparr>bufs := (bufs s)(i := b)\<rparr>) c = content s c"
  by (rule content_cong) (auto simp: names_def)

lemma set_data_content:
  assumes "bio_inv s" and "holds s i bno"
  shows "content (set_data i d s) = (content s)(bno := d)"
proof
  fix c
  show "content (set_data i d s) c = ((content s)(bno := d)) c"
  proof (cases "c = bno")
    case True
    have "content (set_data i d s) bno = b_data (bufs (set_data i d s) i)"
      by (rule content_cached [OF set_data_inv [OF assms]])
        (use assms in \<open>auto simp: holds_def names_def set_data_def upd_buf_def\<close>)
    with True show ?thesis by (simp add: set_data_def upd_buf_def)
  next
    case False
    then show ?thesis
      using assms content_upd_other [of bno c s i "(bufs s i)\<lparr>b_data := d\<rparr>"]
      by (auto simp: set_data_def upd_buf_def holds_def names_def)
  qed
qed

lemma set_data_holds: "holds (set_data i d s) j bno = holds s j bno"
  by (auto simp: set_data_def upd_buf_def holds_def names_def)

text \<open>\<^verbatim>\<open>b->flags |= B_DIRTY\<close> on a held buffer, as \<^verbatim>\<open>log_write\<close> does.\<close>

definition mark_dirty :: "nat \<Rightarrow> 'a bio_st_scheme \<Rightarrow> 'a bio_st_scheme" where
  "mark_dirty i s = upd_buf i (\<lambda>b. b\<lparr>b_dirty := True\<rparr>) s"

lemma mark_dirty_inv: "bio_inv s \<Longrightarrow> holds s i bno \<Longrightarrow> bio_inv (mark_dirty i s)"
  unfolding mark_dirty_def upd_buf_def
  by (rule bio_inv_same_name)
    (auto simp: holds_def holdingsleep_def buf_ok_def dest: bio_buf_ok)

lemma mark_dirty_content: "content (mark_dirty i s) = content s"
  by (rule ext, rule content_cong) (auto simp: mark_dirty_def upd_buf_def names_def)

lemma mark_dirty_holds: "holds (mark_dirty i s) j bno = holds s j bno"
  by (auto simp: mark_dirty_def upd_buf_def holds_def names_def)

definition written :: "nat \<Rightarrow> uint \<Rightarrow> 'a bio_st_scheme \<Rightarrow> 'a bio_st_scheme" where
  "written i bno s = s\<lparr>ide_regs := ide_regs_for ((bufs s i)\<lparr>b_dirty := True\<rparr>),
     bufs := (bufs s)(i := (bufs s i)\<lparr>b_dirty := False\<rparr>),
     disk := (disk s)(1 := (disk s 1)(bno := b_data (bufs s i))),
     wtrace := wtrace s @ [(1, bno, b_data (bufs s i))]\<rparr>"

lemma bwrite_ok:
  assumes "bio_inv s" and "holds s i bno" and "bno < FSSIZE"
  shows "bwrite i s = Inr (written i bno s)"
proof -
  let ?s = "upd_buf i (\<lambda>b. b\<lparr>b_dirty := True\<rparr>) s"
  have "can_transfer ?s i" and "b_dirty (bufs ?s i)"
    using assms by (auto simp: can_transfer_def upd_buf_def holds_def bio_inv_def names_def)
  then have "iderw i ?s = Inr (written i bno s)"
    using assms(2)
    by (cases "bufs s i")
      (simp add: iderw_write written_def upd_buf_def holds_def names_def)
  with assms(2) show ?thesis
    by (simp add: bwrite_def holds_def)
qed

lemma written_inv:
  assumes "bio_inv s" and "holds s i bno"
  shows "bio_inv (written i bno s)"
proof -
  have "buf_ok ((disk s 1)(bno := d)) (bufs s j)" if "j < NBUF" "j \<noteq> i" for j d
    using bio_buf_ok [OF assms(1) that(1)] holds_unique [OF assms that(1)] that(2)
    by (auto simp: buf_ok_def names_def)
  moreover have "buf_ok ((disk s 1)(bno := b_data (bufs s i))) ((bufs s i)\<lparr>b_dirty := False\<rparr>)"
    using bio_buf_ok [OF assms(1), of i] assms(2) by (auto simp: buf_ok_def holds_def names_def)
  moreover have "one_buf_each ((bufs s)(i := (bufs s i)\<lparr>b_dirty := False\<rparr>))"
    using assms(1) by (simp add: bio_inv_def one_buf_each_upd)
  ultimately show ?thesis
    using assms(1) by (simp add: written_def bio_inv_def)
qed

lemma written_content:
  assumes "bio_inv s" and "holds s i bno"
  shows "content (written i bno s) = content s"
proof
  fix c
  show "content (written i bno s) c = content s c"
  proof (cases "c = bno")
    case True
    have "content (written i bno s) bno = b_data (bufs (written i bno s) i)"
      by (rule content_cached [OF written_inv [OF assms]])
        (use assms in \<open>auto simp: holds_def names_def written_def\<close>)
    with True content_holds [OF assms] show ?thesis by (simp add: written_def)
  next
    case False
    then show ?thesis
      by (intro content_cong) (auto simp: written_def names_def)
  qed
qed

lemma written_holds: "holds (written i bno s) j c = holds s j c"
  by (auto simp: written_def holds_def names_def)

definition released :: "nat \<Rightarrow> 'a bio_st_scheme \<Rightarrow> 'a bio_st_scheme" where
  "released i s = s\<lparr>bufs := (bufs s)(i := (bufs s i)\<lparr>b_lock := initsleeplock,
       b_refcnt := b_refcnt (bufs s i) - 1\<rparr>),
     lru := (if b_refcnt (bufs s i) = 1 then i # remove1 i (lru s) else lru s)\<rparr>"

lemma brelse_ok: "holds s i bno \<Longrightarrow> brelse i s = Inr (released i s)"
  by (cases "b_lock (bufs s i)")
    (auto simp: brelse_def holds_def released_def upd_buf_def releasesleep_def initsleeplock_def)

text \<open>A buffer may be given back when it is marked dirty or unchanged.\<close>

lemma released_inv:
  assumes "bio_inv s" and "holds s i bno"
    and "b_dirty (bufs s i) \<or> b_data (bufs s i) = disk s 1 bno"
  shows "bio_inv (released i s)"
proof -
  let ?b = "(bufs s i)\<lparr>b_lock := initsleeplock, b_refcnt := b_refcnt (bufs s i) - 1\<rparr>"
  have iN: "i < NBUF" using assms(2) by (simp add: holds_def)
  have "bio_inv (s\<lparr>bufs := (bufs s)(i := ?b)\<rparr>)"
  proof (rule bio_inv_same_name [OF assms(1) iN])
    show "buf_ok (disk s 1) ?b"
      using bio_buf_ok [OF assms(1) iN] assms(2,3)
      by (auto simp: buf_ok_def initsleeplock_def holds_def names_def)
  qed simp_all
  moreover have "set (i # remove1 i (lru s)) = {..<NBUF}" "distinct (i # remove1 i (lru s))"
    using assms(1) iN by (auto simp: bio_inv_def)
  ultimately show ?thesis by (auto simp: bio_inv_def released_def)
qed

lemma released_content: "content (released i s) = content s"
  by (rule ext, rule content_cong) (auto simp: released_def names_def)

lemma released_holds: "j \<noteq> i \<Longrightarrow> holds (released i s) j c = holds s j c"
  by (auto simp: released_def holds_def names_def)

subsection \<open>One process using the cache\<close>

text \<open>
  \<open>solo\<close>: no other process is using a buffer, so the reference count of a buffer says whether
  the running process holds it. The sets of held and of dirty blocks then describe the cache as
  far as its callers need it.
\<close>

definition solo :: "'a bio_st_scheme \<Rightarrow> bool" where
  "solo s \<longleftrightarrow> bio_inv s \<and> (\<forall>i<NBUF.
     b_refcnt (bufs s i) = (if sl_locked (b_lock (bufs s i)) then 1 else 0)
     \<and> (sl_locked (b_lock (bufs s i)) \<or> b_dirty (bufs s i) \<longrightarrow> b_dev (bufs s i) = ROOTDEV))"

definition blocks_with :: "(buf \<Rightarrow> bool) \<Rightarrow> (nat \<Rightarrow> buf) \<Rightarrow> uint set" where
  "blocks_with P bs = {bno. \<exists>i<NBUF. names bno (bs i) \<and> P (bs i)}"

definition locked_blocks :: "'a bio_st_scheme \<Rightarrow> uint set" where
  "locked_blocks s = blocks_with (\<lambda>b. sl_locked (b_lock b)) (bufs s)"

definition dirty_blocks :: "'a bio_st_scheme \<Rightarrow> uint set" where
  "dirty_blocks s = blocks_with b_dirty (bufs s)"

definition other_blocks :: "nat \<Rightarrow> (buf \<Rightarrow> bool) \<Rightarrow> (nat \<Rightarrow> buf) \<Rightarrow> uint set" where
  "other_blocks i P bs = {bno. \<exists>j<NBUF. j \<noteq> i \<and> names bno (bs j) \<and> P (bs j)}"

lemma blocks_with_upd:
  "i < NBUF \<Longrightarrow> blocks_with P (bs(i := b)) = {c. names c b \<and> P b} \<union> other_blocks i P bs"
  by (auto simp: blocks_with_def other_blocks_def split: if_splits)

lemma blocks_with_split:
  "i < NBUF \<Longrightarrow> blocks_with P bs = {c. names c (bs i) \<and> P (bs i)} \<union> other_blocks i P bs"
  using blocks_with_upd [of i P bs "bs i"] by simp

lemma blocks_withI: "i < NBUF \<Longrightarrow> names c (bs i) \<Longrightarrow> P (bs i) \<Longrightarrow> c \<in> blocks_with P bs"
  by (auto simp: blocks_with_def)

lemma other_blocks_named:
  "bio_inv s \<Longrightarrow> i < NBUF \<Longrightarrow> names bno (bufs s i) \<Longrightarrow> bno \<notin> other_blocks i P (bufs s)"
  using bio_unique by (fastforce simp: other_blocks_def)

text \<open>Everything but the cache, the drive and its contents is the same.\<close>

definition same_rest :: "'a bio_st_scheme \<Rightarrow> 'a bio_st_scheme \<Rightarrow> bool" where
  "same_rest s t \<longleftrightarrow>
     t = s\<lparr>bufs := bufs t, lru := lru t, ide_regs := ide_regs t, disk := disk t, wtrace := wtrace t\<rparr>"

lemma same_rest_refl: "same_rest s s"
  by (cases s) (simp add: same_rest_def)

lemma same_rest_trans: "same_rest s t \<Longrightarrow> same_rest t u \<Longrightarrow> same_rest s u"
  by (cases s, cases t, cases u) (simp add: same_rest_def)

lemma same_rest_mypid: "same_rest s t \<Longrightarrow> mypid t = mypid s"
  unfolding same_rest_def by (drule arg_cong [where f = mypid]) simp

lemma finite_busy: "finite (dirty_blocks s \<union> locked_blocks s)"
proof -
  have "dirty_blocks s \<union> locked_blocks s \<subseteq> (\<lambda>i. b_blockno (bufs s i)) ` {..<NBUF}"
    by (auto simp: dirty_blocks_def locked_blocks_def blocks_with_def names_def)
  then show ?thesis by (rule finite_subset) simp
qed

lemma free_buf_exists:
  assumes "solo s" and "card (dirty_blocks s \<union> locked_blocks s) < NBUF"
  shows "\<exists>i<NBUF. free_buf (bufs s i)"
proof (rule ccontr)
  assume "\<not> ?thesis"
  then have busy: "b_dev (bufs s i) = ROOTDEV
      \<and> (sl_locked (b_lock (bufs s i)) \<or> b_dirty (bufs s i))" if "i < NBUF" for i
    using assms(1) that by (auto simp: solo_def free_buf_def split: if_splits)
  let ?f = "\<lambda>i. b_blockno (bufs s i)"
  have "bio_inv s" using assms(1) by (simp add: solo_def)
  then have "inj_on ?f {..<NBUF}"
    using busy bio_unique [of s] by (auto intro!: inj_onI simp: names_def)
  moreover have "?f ` {..<NBUF} \<subseteq> dirty_blocks s \<union> locked_blocks s"
    using busy by (fastforce simp: dirty_blocks_def locked_blocks_def blocks_with_def names_def)
  ultimately have "NBUF \<le> card (dirty_blocks s \<union> locked_blocks s)"
    using card_mono [OF finite_busy] by (metis card_image card_lessThan)
  with assms(2) show False by simp
qed

lemma solo_obtainable:
  assumes "solo s" and "bno < FSSIZE" and "bno \<notin> locked_blocks s"
    and "bno \<in> dirty_blocks s \<or> card (dirty_blocks s \<union> locked_blocks s) < NBUF"
  shows "obtainable s bno"
proof -
  have "\<exists>i<NBUF. names bno (bufs s i) \<or> free_buf (bufs s i)"
    using assms(1,4) free_buf_exists by (auto simp: dirty_blocks_def blocks_with_def)
  moreover have "\<not> sl_locked (b_lock (bufs s i)) \<and> b_refcnt (bufs s i) + 1 \<noteq> 0"
    if "i < NBUF" "names bno (bufs s i)" for i
    using assms(1,3) that by (auto simp: locked_blocks_def blocks_with_def solo_def)
  ultimately show ?thesis using assms(2) by (auto simp: obtainable_def)
qed

lemma solo_bio_inv: "solo s \<Longrightarrow> bio_inv s"
  by (simp add: solo_def)

lemma solo_coherent:
  assumes "solo s" and "bno \<notin> dirty_blocks s" and "bno \<notin> locked_blocks s"
  shows "content s bno = disk s 1 bno"
proof (cases "\<exists>i<NBUF. names bno (bufs s i) \<and> b_valid (bufs s i)")
  case True
  then obtain i where i: "i < NBUF" "names bno (bufs s i)" "b_valid (bufs s i)" by blast
  then have "content s bno = b_data (bufs s i)"
    using content_cached solo_bio_inv assms(1) by blast
  also have "\<dots> = disk s 1 bno"
    using bio_buf_ok [OF solo_bio_inv [OF assms(1)] i(1)] i assms(2,3)
    by (auto simp: buf_ok_def dirty_blocks_def locked_blocks_def blocks_with_def names_def)
  finally show ?thesis .
next
  case False
  then show ?thesis by (intro content_uncached) auto
qed

lemma solo_bread:
  assumes so: "solo s" and "bno < FSSIZE" and nl: "bno \<notin> locked_blocks s"
    and room: "bno \<in> dirty_blocks s \<or> card (dirty_blocks s \<union> locked_blocks s) < NBUF"
  shows "\<exists>i t. bread ROOTDEV bno s = Inr (i, t) \<and> solo t \<and> holds t i bno
    \<and> content t = content s \<and> disk t = disk s \<and> wtrace t = wtrace s
    \<and> locked_blocks t = insert bno (locked_blocks s) \<and> dirty_blocks t = dirty_blocks s
    \<and> same_rest s t \<and> (\<forall>j c. holds s j c \<longrightarrow> holds t j c)"
proof -
  note inv = solo_bio_inv [OF so]
  from bread_ok [OF inv solo_obtainable [OF assms]] obtain i b r where
    eq: "bread ROOTDEV bno s = Inr (i, s\<lparr>bufs := (bufs s)(i := b), ide_regs := r\<rparr>)"
    and ob: "obtained s bno i b" by blast
  let ?t = "s\<lparr>bufs := (bufs s)(i := b), ide_regs := r\<rparr>"
  have iN: "i < NBUF" and nb: "names bno b" and lb: "sl_locked (b_lock b)"
    using ob by (auto simp: obtained_def holdingsleep_def)
  have clean: "b_refcnt (bufs s i) = 0" and unl: "\<not> sl_locked (b_lock (bufs s i))"
    using ob so iN by (auto simp: obtained_def solo_def free_buf_def split: if_splits)
  have dirty: "b_dirty b = b_dirty (bufs s i)"
    using ob by (auto simp: obtained_def free_buf_def)
  have old: "names bno (bufs s i) \<or> \<not> b_dirty (bufs s i)"
    using ob by (auto simp: obtained_def free_buf_def)
  have r1: "b_refcnt b = 1"
    using ob clean by (auto simp: obtained_def)
  have "solo ?t"
    using so obtained_inv [OF inv ob] dirty r1 lb nb by (auto simp: solo_def names_def)
  moreover have "locked_blocks ?t = insert bno (locked_blocks s)"
    using iN nb lb unl blocks_with_split [OF iN, of "\<lambda>b. sl_locked (b_lock b)" "bufs s"]
    by (auto simp: locked_blocks_def blocks_with_upd names_def)
  moreover have "dirty_blocks ?t = dirty_blocks s"
    using iN nb dirty old blocks_with_split [OF iN, of b_dirty "bufs s"]
    by (auto simp: dirty_blocks_def blocks_with_upd names_def)
  moreover have "holds ?t j c" if "holds s j c" for j c
  proof -
    have "j \<noteq> i" using that unl by (auto simp: holds_def holdingsleep_def)
    with that show ?thesis by (simp add: holds_def)
  qed
  moreover have "same_rest s ?t" by (cases s) (simp add: same_rest_def)
  ultimately show ?thesis
    using eq obtained_content [OF inv ob] obtained_holds [OF ob] by auto
qed

lemma solo_set_data:
  assumes "solo s" and "holds s i bno"
  shows "solo (set_data i d s)" and "content (set_data i d s) = (content s)(bno := d)"
    and "disk (set_data i d s) = disk s" and "wtrace (set_data i d s) = wtrace s"
    and "locked_blocks (set_data i d s) = locked_blocks s"
    and "dirty_blocks (set_data i d s) = dirty_blocks s"
    and "same_rest s (set_data i d s)"
proof -
  show "solo (set_data i d s)"
    using assms set_data_inv [OF solo_bio_inv [OF assms(1)] assms(2)]
    by (auto simp: solo_def set_data_def upd_buf_def)
  show "content (set_data i d s) = (content s)(bno := d)"
    using set_data_content [OF solo_bio_inv [OF assms(1)] assms(2)] .
  have "i < NBUF" using assms(2) by (simp add: holds_def)
  note split = blocks_with_split [OF this, of _ "bufs s"]
  show "locked_blocks (set_data i d s) = locked_blocks s"
    "dirty_blocks (set_data i d s) = dirty_blocks s"
    using \<open>i < NBUF\<close>
    by (simp_all add: locked_blocks_def dirty_blocks_def set_data_def upd_buf_def blocks_with_upd
        split names_def)
qed (cases s; auto simp: set_data_def upd_buf_def same_rest_def)+

lemma solo_mark_dirty:
  assumes "solo s" and "holds s i bno"
  shows "solo (mark_dirty i s)" and "disk (mark_dirty i s) = disk s"
    and "wtrace (mark_dirty i s) = wtrace s"
    and "locked_blocks (mark_dirty i s) = locked_blocks s"
    and "dirty_blocks (mark_dirty i s) = insert bno (dirty_blocks s)"
    and "same_rest s (mark_dirty i s)"
proof -
  show "solo (mark_dirty i s)"
    using assms mark_dirty_inv [OF solo_bio_inv [OF assms(1)] assms(2)]
    by (auto simp: solo_def mark_dirty_def upd_buf_def holds_def names_def)
  have "i < NBUF" using assms(2) by (simp add: holds_def)
  note split = blocks_with_split [OF this, of _ "bufs s"]
  show "locked_blocks (mark_dirty i s) = locked_blocks s"
    "dirty_blocks (mark_dirty i s) = insert bno (dirty_blocks s)"
    using \<open>i < NBUF\<close> assms(2)
    by (auto simp: locked_blocks_def dirty_blocks_def mark_dirty_def upd_buf_def blocks_with_upd
        split names_def holds_def)
qed (cases s; auto simp: mark_dirty_def upd_buf_def same_rest_def)+

lemma solo_bwrite:
  assumes "solo s" and "holds s i bno" and "bno < FSSIZE"
  shows "\<exists>t. bwrite i s = Inr t \<and> solo t \<and> content t = content s
    \<and> disk t = (disk s)(1 := (disk s 1)(bno := content s bno))
    \<and> wtrace t = wtrace s @ [(1, bno, content s bno)]
    \<and> locked_blocks t = locked_blocks s \<and> dirty_blocks t = dirty_blocks s - {bno}
    \<and> same_rest s t \<and> (\<forall>j c. holds s j c \<longrightarrow> holds t j c)"
proof -
  note inv = solo_bio_inv [OF assms(1)]
  let ?t = "written i bno s"
  have h: "i < NBUF" "names bno (bufs s i)" using assms(2) by (auto simp: holds_def)
  note split = blocks_with_split [OF h(1), of _ "bufs s"]
  have "bwrite i s = Inr ?t" by (rule bwrite_ok [OF inv assms(2,3)])
  moreover have "solo ?t"
    using assms(1) written_inv [OF inv assms(2)] by (auto simp: solo_def written_def)
  moreover have "content ?t = content s" by (rule written_content [OF inv assms(2)])
  moreover have "locked_blocks ?t = locked_blocks s"
    using h by (simp add: locked_blocks_def written_def blocks_with_upd split names_def)
  moreover have "dirty_blocks ?t = dirty_blocks s - {bno}"
    using h other_blocks_named [OF inv h, of b_dirty]
    by (auto simp: dirty_blocks_def written_def blocks_with_upd split names_def)
  moreover have "same_rest s ?t" by (cases s) (simp add: same_rest_def written_def)
  ultimately show ?thesis
    using content_holds [OF inv assms(2)] written_holds [of i bno s] by (simp add: written_def)
qed

lemma solo_brelse:
  assumes "solo s" and "holds s i bno" and "bno \<in> dirty_blocks s \<or> content s bno = disk s 1 bno"
  shows "\<exists>t. brelse i s = Inr t \<and> solo t \<and> content t = content s
    \<and> disk t = disk s \<and> wtrace t = wtrace s
    \<and> locked_blocks t = locked_blocks s - {bno} \<and> dirty_blocks t = dirty_blocks s
    \<and> same_rest s t \<and> (\<forall>j c. c \<noteq> bno \<longrightarrow> holds s j c \<longrightarrow> holds t j c)"
proof -
  note inv = solo_bio_inv [OF assms(1)]
  let ?t = "released i s"
  have h: "i < NBUF" "names bno (bufs s i)" using assms(2) by (auto simp: holds_def)
  note split = blocks_with_split [OF h(1), of _ "bufs s"]
  have "b_dirty (bufs s i) \<or> b_data (bufs s i) = disk s 1 bno"
    using assms(3) content_holds [OF inv assms(2)] holds_unique [OF inv assms(2)]
    by (auto simp: dirty_blocks_def blocks_with_def)
  from released_inv [OF inv assms(2) this] have "solo ?t"
    using assms(1) assms(2) by (auto simp: solo_def released_def initsleeplock_def holds_def holdingsleep_def names_def)
  moreover have "locked_blocks ?t = locked_blocks s - {bno}"
    using h other_blocks_named [OF inv h, of "\<lambda>b. sl_locked (b_lock b)"]
    by (auto simp: locked_blocks_def released_def blocks_with_upd split names_def initsleeplock_def)
  moreover have "dirty_blocks ?t = dirty_blocks s"
    using h by (simp add: dirty_blocks_def released_def blocks_with_upd split names_def)
  moreover have "holds ?t j c" if "c \<noteq> bno" "holds s j c" for j c
    using that h(2) released_holds [of j i s c] by (auto simp: holds_def names_def)
  moreover have "same_rest s ?t" by (cases s) (simp add: same_rest_def released_def)
  ultimately show ?thesis
    using brelse_ok [OF assms(2)] released_content [of i s] by (auto simp: released_def)
qed

section \<open>The interface to the cache\<close>

text \<open>
  What the users of the cache rely on. The patterns in which \<^verbatim>\<open>log.c\<close> and \<^verbatim>\<open>fs.c\<close> use it
  (look at a block, change and write it, copy one block to another) are proved from these laws
  alone.
\<close>

locale block_cache =
  fixes inv :: "'s \<Rightarrow> bool"
    and cont :: "'s \<Rightarrow> uint \<Rightarrow> bytes"
    and platter :: "'s \<Rightarrow> uint \<Rightarrow> bytes"
    and trace :: "'s \<Rightarrow> (uint \<times> uint \<times> bytes) list"
    and locked :: "'s \<Rightarrow> uint set"
    and dirty :: "'s \<Rightarrow> uint set"
    and held :: "'s \<Rightarrow> nat \<Rightarrow> uint \<Rightarrow> bool"
    and frame :: "'s \<Rightarrow> 's \<Rightarrow> bool"
    and get :: "'s \<Rightarrow> nat \<Rightarrow> bytes"
    and nbuf :: nat
    and rd :: "uint \<Rightarrow> 's \<Rightarrow> (nat \<times> 's) res"
    and put :: "nat \<Rightarrow> bytes \<Rightarrow> 's \<Rightarrow> 's"
    and wr :: "nat \<Rightarrow> 's \<Rightarrow> 's res"
    and rel :: "nat \<Rightarrow> 's \<Rightarrow> 's res"
  assumes frame_refl: "frame s s"
    and frame_trans: "frame s t \<Longrightarrow> frame t u \<Longrightarrow> frame s u"
    and finite_used: "finite (dirty s \<union> locked s)"
    and coherent: "inv s \<Longrightarrow> b \<notin> dirty s \<Longrightarrow> b \<notin> locked s \<Longrightarrow> cont s b = platter s b"
    and get_held: "inv s \<Longrightarrow> held s i b \<Longrightarrow> get s i = cont s b"
    and rd_law: "inv s \<Longrightarrow> b < FSSIZE \<Longrightarrow> b \<notin> locked s \<Longrightarrow>
        b \<in> dirty s \<or> card (dirty s \<union> locked s) < nbuf \<Longrightarrow>
      \<exists>i t. rd b s = Inr (i, t) \<and> inv t \<and> held t i b \<and> cont t = cont s \<and> platter t = platter s
        \<and> trace t = trace s \<and> locked t = insert b (locked s) \<and> dirty t = dirty s
        \<and> frame s t \<and> (\<forall>j c. held s j c \<longrightarrow> held t j c)"
    and put_law: "inv s \<Longrightarrow> held s i b \<Longrightarrow>
        inv (put i d s) \<and> cont (put i d s) = (cont s)(b := d) \<and> platter (put i d s) = platter s
        \<and> trace (put i d s) = trace s \<and> locked (put i d s) = locked s
        \<and> dirty (put i d s) = dirty s \<and> frame s (put i d s)
        \<and> (\<forall>j c. held s j c \<longrightarrow> held (put i d s) j c)"
    and wr_law: "inv s \<Longrightarrow> held s i b \<Longrightarrow> b < FSSIZE \<Longrightarrow>
      \<exists>t. wr i s = Inr t \<and> inv t \<and> cont t = cont s \<and> platter t = (platter s)(b := cont s b)
        \<and> trace t = trace s @ [(1, b, cont s b)] \<and> locked t = locked s
        \<and> dirty t = dirty s - {b} \<and> frame s t \<and> (\<forall>j c. held s j c \<longrightarrow> held t j c)"
    and rel_law: "inv s \<Longrightarrow> held s i b \<Longrightarrow> b \<in> dirty s \<or> cont s b = platter s b \<Longrightarrow>
      \<exists>t. rel i s = Inr t \<and> inv t \<and> cont t = cont s \<and> platter t = platter s
        \<and> trace t = trace s \<and> locked t = locked s - {b} \<and> dirty t = dirty s
        \<and> frame s t \<and> (\<forall>j c. c \<noteq> b \<longrightarrow> held s j c \<longrightarrow> held t j c)"
begin

lemma peek:
  assumes "inv s" and "b < FSSIZE" and "b \<notin> locked s"
    and "b \<in> dirty s \<or> card (dirty s \<union> locked s) < nbuf"
  shows "\<exists>i t u. rd b s = Inr (i, t) \<and> get t i = cont s b \<and> frame s t \<and> rel i t = Inr u
    \<and> inv u \<and> cont u = cont s \<and> platter u = platter s \<and> trace u = trace s
    \<and> locked u = locked s \<and> dirty u = dirty s \<and> frame s u
    \<and> (\<forall>j c. held s j c \<longrightarrow> c \<noteq> b \<longrightarrow> held u j c)"
proof -
  from rd_law [OF assms] obtain i t where t: "rd b s = Inr (i, t)" "inv t" "held t i b"
    "cont t = cont s" "platter t = platter s" "trace t = trace s"
    "locked t = insert b (locked s)" "dirty t = dirty s" "frame s t"
    "\<forall>j c. held s j c \<longrightarrow> held t j c" by blast
  have "b \<in> dirty t \<or> cont t b = platter t b"
    using coherent [OF assms(1) _ assms(3)] t by auto
  from rel_law [OF t(2,3) this] obtain u where u: "rel i t = Inr u" "inv u" "cont u = cont t"
    "platter u = platter t" "trace u = trace t" "locked u = locked t - {b}" "dirty u = dirty t"
    "frame t u" "\<forall>j c. c \<noteq> b \<longrightarrow> held t j c \<longrightarrow> held u j c" by blast
  moreover have "frame s u" by (rule frame_trans [OF t(9) u(8)])
  moreover have "get t i = cont s b" using get_held [OF t(2,3)] t(4) by simp
  ultimately show ?thesis using t assms(3) by auto
qed

lemma change_and_write:
  assumes "inv s" and "b < FSSIZE" and "b \<notin> locked s"
    and "b \<in> dirty s \<or> card (dirty s \<union> locked s) < nbuf"
  shows "\<exists>i t u v. rd b s = Inr (i, t) \<and> get t i = cont s b \<and> frame s t
    \<and> wr i (put i d t) = Inr u \<and> rel i u = Inr v
    \<and> inv v \<and> cont v = (cont s)(b := d) \<and> platter v = (platter s)(b := d)
    \<and> trace v = trace s @ [(1, b, d)]
    \<and> locked v = locked s \<and> dirty v = dirty s - {b} \<and> frame s v"
proof -
  from rd_law [OF assms] obtain i t where t: "rd b s = Inr (i, t)" "inv t" "held t i b"
    "cont t = cont s" "platter t = platter s" "trace t = trace s"
    "locked t = insert b (locked s)" "dirty t = dirty s" "frame s t" by blast
  note p = put_law [OF t(2,3), of d]
  then have "held (put i d t) i b" using t(3) by blast
  from wr_law [OF p [THEN conjunct1] this assms(2)] obtain u where u: "wr i (put i d t) = Inr u" "inv u"
    "cont u = (cont s)(b := d)" "platter u = (platter s)(b := d)"
    "trace u = trace s @ [(1, b, d)]" "locked u = insert b (locked s)"
    "dirty u = dirty s - {b}" "frame (put i d t) u" "held u i b"
    using p t by auto
  have "cont u b = platter u b" using u by simp
  with rel_law [OF u(2,9)] obtain v where v: "rel i u = Inr v" "inv v" "cont v = cont u"
    "platter v = platter u" "trace v = trace u" "locked v = locked u - {b}" "dirty v = dirty u"
    "frame u v" by blast
  have "frame t (put i d t)" using p by blast
  from frame_trans [OF frame_trans [OF frame_trans [OF t(9) this] u(8)] v(8)]
  have "frame s v" .
  moreover have "get t i = cont s b" using get_held [OF t(2,3)] t(4) by simp
  ultimately show ?thesis using t u v assms(3) by auto
qed

text \<open>Block \<open>a\<close> gets the data of block \<open>b\<close> and is written; \<open>a\<close> is obtained first.\<close>

lemma copy_to_first:
  assumes "inv s" and "a < FSSIZE" "b < FSSIZE" and "a \<noteq> b" and "locked s = {}"
    and "card (dirty s) < nbuf" and "b \<in> dirty s"
  shows "\<exists>i t j u v w x. rd a s = Inr (i, t) \<and> rd b t = Inr (j, u) \<and> frame s t \<and> frame s u
    \<and> wr i (put i (get u j) u) = Inr v \<and> rel j v = Inr w \<and> rel i w = Inr x
    \<and> inv x \<and> cont x = (cont s)(a := cont s b) \<and> platter x = (platter s)(a := cont s b)
    \<and> trace x = trace s @ [(1, a, cont s b)]
    \<and> locked x = {} \<and> dirty x = dirty s - {a} \<and> frame s x"
proof -
  from rd_law [OF assms(1,2)] assms(5,6) obtain i t where t: "rd a s = Inr (i, t)" "inv t"
    "held t i a" "cont t = cont s" "platter t = platter s" "trace t = trace s" "locked t = {a}"
    "dirty t = dirty s" "frame s t" by auto
  from rd_law [OF t(2) assms(3)] t assms(4,7) obtain j u where u: "rd b t = Inr (j, u)" "inv u"
    "held u j b" "cont u = cont s" "platter u = platter s" "trace u = trace s" "locked u = {b, a}"
    "dirty u = dirty s" "frame t u" "held u i a" by auto
  let ?d = "get u j"
  have d: "?d = cont s b" using get_held [OF u(2,3)] u(4) by simp
  note p = put_law [OF u(2,10), of ?d]
  then have h: "held (put i ?d u) i a" "held (put i ?d u) j b" using u(3,10) by blast+
  from wr_law [OF p [THEN conjunct1] h(1) assms(2)] obtain v where v: "wr i (put i ?d u) = Inr v" "inv v"
    "cont v = (cont s)(a := cont s b)" "platter v = (platter s)(a := cont s b)"
    "trace v = trace s @ [(1, a, cont s b)]" "locked v = {b, a}" "dirty v = dirty s - {a}"
    "frame (put i ?d u) v" "held v i a" "held v j b"
    using p u d h(2) by auto
  from rel_law [OF v(2,10)] v(7) assms(4,7) obtain w where w: "rel j v = Inr w" "inv w"
    "cont w = cont v" "platter w = platter v" "trace w = trace v" "locked w = {b, a} - {b}"
    "dirty w = dirty v" "frame v w" "held w i a"
    using v(6,9) assms(4) by auto
  have "cont w a = platter w a" using v w by simp
  with rel_law [OF w(2,9)] obtain x where x: "rel i w = Inr x" "inv x" "cont x = cont w"
    "platter x = platter w" "trace x = trace w" "locked x = locked w - {a}" "dirty x = dirty w"
    "frame w x" by blast
  have f: "frame s u" by (rule frame_trans [OF t(9) u(9)])
  have "frame u (put i ?d u)" using p by blast
  from frame_trans [OF frame_trans [OF frame_trans [OF frame_trans [OF f this] v(8)] w(8)] x(8)]
  have "frame s x" .
  then show ?thesis using t u v w x f by auto
qed

text \<open>Block \<open>b\<close> gets the data of block \<open>a\<close> and is written; \<open>a\<close> is obtained first.\<close>

lemma copy_to_second:
  assumes "inv s" and "a < FSSIZE" "b < FSSIZE" and "a \<noteq> b" and "locked s = {}"
    and "card (dirty s) + 1 < nbuf \<or> card (dirty s) < nbuf \<and> b \<in> dirty s" and "a \<notin> dirty s"
  shows "\<exists>i t j u v w x. rd a s = Inr (i, t) \<and> rd b t = Inr (j, u) \<and> frame s t \<and> frame s u
    \<and> wr j (put j (get u i) u) = Inr v \<and> rel i v = Inr w \<and> rel j w = Inr x
    \<and> inv x \<and> cont x = (cont s)(b := cont s a) \<and> platter x = (platter s)(b := cont s a)
    \<and> trace x = trace s @ [(1, b, cont s a)]
    \<and> locked x = {} \<and> dirty x = dirty s - {b} \<and> frame s x"
proof -
  from rd_law [OF assms(1,2)] assms(5,6) obtain i t where t: "rd a s = Inr (i, t)" "inv t"
    "held t i a" "cont t = cont s" "platter t = platter s" "trace t = trace s" "locked t = {a}"
    "dirty t = dirty s" "frame s t" by auto
  have "finite (dirty s)" using finite_used [of s] by simp
  then have "card (dirty s \<union> {a}) = card (dirty s) + 1" using assms(7) by simp
  with rd_law [OF t(2) assms(3)] t assms(4,6) obtain j u where u: "rd b t = Inr (j, u)" "inv u"
    "held u j b" "cont u = cont s" "platter u = platter s" "trace u = trace s" "locked u = {b, a}"
    "dirty u = dirty s" "frame t u" "held u i a" by auto
  let ?d = "get u i"
  have d: "?d = cont s a" using get_held [OF u(2,10)] u(4) by simp
  note p = put_law [OF u(2,3), of ?d]
  then have h: "held (put j ?d u) i a" "held (put j ?d u) j b" using u(3,10) by blast+
  from wr_law [OF p [THEN conjunct1] h(2) assms(3)] obtain v where v: "wr j (put j ?d u) = Inr v" "inv v"
    "cont v = (cont s)(b := cont s a)" "platter v = (platter s)(b := cont s a)"
    "trace v = trace s @ [(1, b, cont s a)]" "locked v = {b, a}" "dirty v = dirty s - {b}"
    "frame (put j ?d u) v" "held v i a" "held v j b"
    using p u d h(1) by auto
  have "cont s a = platter s a" using coherent [OF assms(1,7)] assms(5) by simp
  then have "cont v a = platter v a" using v assms(4) by simp
  with rel_law [OF v(2,9)] obtain w where w: "rel i v = Inr w" "inv w"
    "cont w = cont v" "platter w = platter v" "trace w = trace v" "locked w = {b, a} - {a}"
    "dirty w = dirty v" "frame v w" "held w j b"
    using v(6,10) assms(4) by auto
  have "cont w b = platter w b" using v w by simp
  with rel_law [OF w(2,9)] obtain x where x: "rel j w = Inr x" "inv x" "cont x = cont w"
    "platter x = platter w" "trace x = trace w" "locked x = locked w - {b}" "dirty x = dirty w"
    "frame w x" by blast
  have f: "frame s u" by (rule frame_trans [OF t(9) u(9)])
  have "frame u (put j ?d u)" using p by blast
  from frame_trans [OF frame_trans [OF frame_trans [OF frame_trans [OF f this] v(8)] w(8)] x(8)]
  have "frame s x" .
  then show ?thesis using t u v w x f by auto
qed

end

interpretation bc: block_cache solo content "\<lambda>s. disk s 1" wtrace locked_blocks dirty_blocks holds
  same_rest "\<lambda>s i. b_data (bufs s i)" NBUF "bread ROOTDEV" set_data bwrite brelse
proof (unfold_locales, goal_cases)
  case (1 s)
  then show ?case by (rule same_rest_refl)
next
  case (2 s t u)
  then show ?case by (rule same_rest_trans)
next
  case (3 s)
  then show ?case by (rule finite_busy)
next
  case (4 s b)
  then show ?case by (rule solo_coherent)
next
  case (5 s i b)
  then show ?case by (simp add: content_holds solo_bio_inv)
next
  case (6 s b)
  then show ?case using solo_bread [of s b] by fastforce
next
  case (7 s i b d)
  then show ?case by (simp add: solo_set_data set_data_holds)
next
  case (8 s i b)
  then show ?case using solo_bwrite [of s i b] by fastforce
next
  case (9 s i b)
  then show ?case using solo_brelse [of s i b] by fastforce
qed

subsection \<open>The cache after boot\<close>

text \<open>The memory of the cache is zero before \<^verbatim>\<open>binit\<close>, and the drive is idle.\<close>

definition zero_buf :: buf where
  "zero_buf = \<lparr>b_valid = False, b_dirty = False, b_dev = 0, b_blockno = 0,
     b_lock = initsleeplock, b_refcnt = 0, b_data = (\<lambda>_. 0)\<rparr>"

definition boot_bio :: "'a bio_st_scheme \<Rightarrow> bool" where
  "boot_bio s \<longleftrightarrow> (\<forall>i. bufs s i = zero_buf) \<and> idequeue s = [] \<and> spins s = 0 \<and> havedisk1 s
     \<and> drive_ready (ide_stat s)"

lemma binit_boot:
  assumes "boot_bio s"
  shows "binit s = s\<lparr>lru := rev [0..<NBUF]\<rparr>"
proof -
  have same: "upd_buf i (\<lambda>b. b\<lparr>b_lock := initsleeplock\<rparr>) t = t" if "bufs t = bufs s"
    for i and t :: "'a bio_st_scheme"
    using assms that by (cases t) (simp add: upd_buf_def boot_bio_def zero_buf_def fun_upd_idem)
  have "fold (\<lambda>i s. (upd_buf i (\<lambda>b. b\<lparr>b_lock := initsleeplock\<rparr>) s)\<lparr>lru := i # lru s\<rparr>)
      [0..<n] (s\<lparr>lru := []\<rparr>) = s\<lparr>lru := rev [0..<n]\<rparr>" for n
    by (induction n) (simp_all add: same)
  then show ?thesis by (simp only: binit_def)
qed

lemma boot_solo:
  assumes "boot_bio s"
  shows "solo (binit s)" and "content (binit s) = disk s 1" and "dirty_blocks (binit s) = {}"
    and "locked_blocks (binit s) = {}"
proof -
  have [simp]: "bufs s i = zero_buf" for i using assms by (simp add: boot_bio_def)
  have "buf_ok d zero_buf" for d
    by (simp add: buf_ok_def zero_buf_def initsleeplock_def)
  moreover have "one_buf_each (bufs s)"
    by (simp add: one_buf_each_def zero_buf_def)
  moreover have "set (rev [0..<NBUF]) = {..<NBUF}" by (simp add: atLeast0LessThan)
  ultimately show "solo (binit s)"
    using assms
    by (simp add: binit_boot solo_def bio_inv_def boot_bio_def zero_buf_def initsleeplock_def
        del: upt_rec_numeral)
  show "content (binit s) = disk s 1"
    by (rule ext) (simp add: content_uncached binit_boot [OF assms] zero_buf_def)
  show "dirty_blocks (binit s) = {}" "locked_blocks (binit s) = {}"
    by (simp_all add: binit_boot [OF assms] dirty_blocks_def locked_blocks_def blocks_with_def
        zero_buf_def initsleeplock_def)
qed

section \<open>Block numbers outside the disk\<close>

lemma bread_out_of_range:
  assumes inv: "bio_inv s" and none: "\<forall>i<NBUF. \<not> names bno (bufs s i)" and free: "\<exists>i<NBUF. free_buf (bufs s i)"
    and bno: "FSSIZE \<le> bno"
  shows "bread ROOTDEV bno s = Inl (Panic ''incorrect blockno'')"
proof -
  from bget_miss [OF inv none free] obtain i where
    i: "i < NBUF" "bget ROOTDEV bno s = Inr (i, s\<lparr>bufs := (bufs s)(i := (bufs s i)
      \<lparr>b_dev := ROOTDEV, b_blockno := bno, b_valid := False, b_dirty := False, b_refcnt := 1,
       b_lock := \<lparr>sl_locked = True, sl_pid = mypid s\<rparr>\<rparr>)\<rparr>)" by blast
  have "idequeue s = []" "havedisk1 s" using inv by (simp_all add: bio_inv_def)
  then show ?thesis
    using bno by (simp add: bread_def i(2) iderw_def idestart_def holdingsleep_def Let_def)
qed

section \<open>Properties\<close>

text \<open>C11: The buffer cache is coherent and transparent: whatever other processes hold, \<^verbatim>\<open>bread\<close> of a block
  that can be had without waiting returns a buffer that the caller alone holds, with the current content
  of the block, whether it was cached, recycled from another block, or read from the disk; every block
  keeps its content, at most one buffer names a block, and no other buffer and no sector changes.\<close>

theorem bread_coherent:
  assumes "bio_inv s" and "obtainable s bno"
  shows "\<exists>i t. bread ROOTDEV bno s = Inr (i, t) \<and> holds t i bno \<and> b_data (bufs t i) = content s bno
    \<and> bio_inv t \<and> content t = content s \<and> disk t = disk s
    \<and> (\<forall>j. j \<noteq> i \<longrightarrow> bufs t j = bufs s j) \<and> (\<forall>j<NBUF. names bno (bufs t j) \<longrightarrow> j = i)"
proof -
  from bread_ok [OF assms] obtain i b r where
    b: "bread ROOTDEV bno s = Inr (i, s\<lparr>bufs := (bufs s)(i := b), ide_regs := r\<rparr>)" "obtained s bno i b" .
  let ?t = "s\<lparr>bufs := (bufs s)(i := b), ide_regs := r\<rparr>"
  have inv: "bio_inv ?t" using obtained_inv [OF assms(1) b(2)] by simp
  have h: "holds ?t i bno" by (rule obtained_holds [OF b(2)])
  have "content ?t = content s" using obtained_content [OF assms(1) b(2)] by simp
  moreover have "b_data (bufs ?t i) = content s bno" using b(2) by (simp add: obtained_def)
  moreover have "\<forall>j. j \<noteq> i \<longrightarrow> bufs ?t j = bufs s j" "disk ?t = disk s" by simp_all
  moreover have "\<forall>j<NBUF. names bno (bufs ?t j) \<longrightarrow> j = i" using holds_unique [OF inv h] by blast
  ultimately show ?thesis by (intro exI [of _ i] exI [of _ ?t] conjI) (rule b(1) h inv | assumption)+
qed

text \<open>A cache in which block 7 is cached and block 9 is held and changed by another process.\<close>

definition demo_bio :: bio_st where
  "demo_bio =
     \<lparr>mypid = 1, spins = 0,
      bufs = (\<lambda>_. zero_buf)(0 := zero_buf\<lparr>b_valid := True, b_dev := 1, b_blockno := 7, b_data := (\<lambda>_. 5)\<rparr>,
        1 := zero_buf\<lparr>b_valid := True, b_dev := 1, b_blockno := 9, b_refcnt := 1,
               b_lock := \<lparr>sl_locked = True, sl_pid = 2\<rparr>, b_data := (\<lambda>_. 6)\<rparr>),
      idequeue = [], havedisk1 = True, ide_stat = 0x40,
      ide_regs = \<lparr>r_count = 0, r_lba0 = 0, r_lba1 = 0, r_lba2 = 0, r_dev = 0\<rparr>,
      disk = (\<lambda>_ _ _. 5), wtrace = [], lru = rev [0..<NBUF]\<rparr>"

theorem bread_coherent_witness:
  "\<exists>i t. bread ROOTDEV 7 demo_bio = Inr (i, t) \<and> b_data (bufs t i) 0 = 5 \<and> holds t i 7"
proof -
  have "set (rev [0..<NBUF]) = {..<NBUF}" by (simp add: atLeast0LessThan)
  then have "bio_inv demo_bio"
    by (simp add: bio_inv_def demo_bio_def one_buf_each_def buf_ok_def zero_buf_def initsleeplock_def
        drive_ready_def del: upt_rec_numeral)
  moreover have "obtainable demo_bio 7"
    by (auto simp: obtainable_def demo_bio_def names_def zero_buf_def initsleeplock_def intro: exI [of _ 0])
  moreover have "content demo_bio 7 = (\<lambda>_. 5)"
    by (subst content_eqI [of 0]) (auto simp: demo_bio_def names_def zero_buf_def split: if_splits)
  ultimately show ?thesis using bread_coherent [of demo_bio 7] by auto
qed

text \<open>A read error goes unnoticed: when the drive reports an error, the interrupt handler skips the
  transfer but marks the buffer valid all the same, so that \<^verbatim>\<open>iderw\<close> returns as if the block had been
  read, with whatever the buffer held before.\<close>

theorem iderw_read_error_unnoticed:
  assumes "idequeue s = []" and "spins s = 0" and "havedisk1 s" and "b_blockno (bufs s i) < FSSIZE"
    and "holdingsleep (mypid s) (b_lock (bufs s i))" and "\<not> b_valid (bufs s i)" and "\<not> b_dirty (bufs s i)"
    and "ide_stat s AND (0x80 OR 0x40) = 0x40" and "ide_stat s AND (0x20 OR 0x01) \<noteq> 0"
  shows "\<exists>t. iderw i s = Inr t \<and> b_valid (bufs t i) \<and> b_data (bufs t i) = b_data (bufs s i)"
  using assms
  by (auto simp: iderw_def idestart_def ideintr_def idewait_def iderw_wait.simps upd_buf_def Let_def not_le)

theorem iderw_read_error_unnoticed_witness:
  "\<exists>t. iderw 0 (demo_bio\<lparr>ide_stat := 0x41, bufs := (\<lambda>_. zero_buf\<lparr>b_dev := 1, b_blockno := 7,
      b_lock := \<lparr>sl_locked = True, sl_pid = 1\<rparr>\<rparr>)\<rparr>) = Inr t \<and> b_valid (bufs t 0) \<and> b_data (bufs t 0) 0 = 0"
proof -
  let ?s = "demo_bio\<lparr>ide_stat := 0x41, bufs := (\<lambda>_. zero_buf\<lparr>b_dev := 1, b_blockno := 7,
    b_lock := \<lparr>sl_locked = True, sl_pid = 1\<rparr>\<rparr>)\<rparr>"
  have "b_data (bufs ?s 0) 0 = 0" by (simp add: zero_buf_def)
  moreover have "\<exists>t. iderw 0 ?s = Inr t \<and> b_valid (bufs t 0) \<and> b_data (bufs t 0) = b_data (bufs ?s 0)"
    by (rule iderw_read_error_unnoticed) (simp_all add: demo_bio_def zero_buf_def holdingsleep_def)
  ultimately show ?thesis by auto
qed

end
