(* ===== verification/KLog.thy ===== *)
theory KLog
  imports KBio
begin

text \<open>
  The write-ahead log (\<^verbatim>\<open>kernel/log.c\<close>), with the super block (\<^verbatim>\<open>includes/kernel/fs.h\<close>) and
  \<^verbatim>\<open>readsb\<close> of \<^verbatim>\<open>kernel/fs.c\<close> that \<^verbatim>\<open>initlog\<close> calls.

  A transaction is what the cache holds and the disk does not: the dirty buffers are exactly the
  blocks listed in the in-memory header. The lemmas give the disk writes of \<^verbatim>\<open>commit\<close> in order,
  and what recovery makes of every prefix of them: after a crash at any point the blocks outside
  the log are either all as before the commit or all as after it, and a crash during recovery
  does not change the outcome.
\<close>

section \<open>Definitions\<close>

abbreviation "LOGSIZE \<equiv> 60 :: int"
abbreviation "MAXOPBLOCKS \<equiv> 20 :: int"

record superblock =
  sb_size :: uint
  sb_nblocks :: uint
  sb_ninodes :: uint
  sb_nlog :: uint
  sb_logstart :: uint
  sb_inodestart :: uint
  sb_bmapstart :: uint
  sb_mounttime :: uint
  sb_modtime :: uint

definition decode_sb :: "bytes \<Rightarrow> superblock" where
  "decode_sb d =
     \<lparr>sb_size = rd32 d 0, sb_nblocks = rd32 d 4, sb_ninodes = rd32 d 8, sb_nlog = rd32 d 12,
      sb_logstart = rd32 d 16, sb_inodestart = rd32 d 20, sb_bmapstart = rd32 d 24,
      sb_mounttime = rd32 d 28, sb_modtime = rd32 d 32\<rparr>"

definition readsb :: "uint \<Rightarrow> 'a bio_st_scheme \<Rightarrow> (superblock \<times> 'a bio_st_scheme) res" where
  "readsb dev s =
     rbind (bread dev 1 s) (\<lambda>(bp, s).
     let sb = decode_sb (b_data (bufs s bp)) in
     rbind (brelse bp s) (\<lambda>s. Inr (sb, s)))"

text \<open>\<^verbatim>\<open>struct log\<close> without its spin lock.\<close>

record log_st = bio_st +
  log_start :: uint
  log_size :: int
  log_outstanding :: int
  log_committing :: bool
  log_dev :: uint
  lh_n :: int
  lh_block :: "nat \<Rightarrow> uint"

definition install_one :: "nat \<Rightarrow> 'a log_st_scheme \<Rightarrow> 'a log_st_scheme res" where
  "install_one tail s =
     rbind (bread (log_dev s) (log_start s + of_nat tail + 1) s) (\<lambda>(lbuf, s).
     rbind (bread (log_dev s) (lh_block s tail) s) (\<lambda>(dbuf, s).
     let s = set_data dbuf (b_data (bufs s lbuf)) s in
     rbind (bwrite dbuf s) (\<lambda>s.
     rbind (brelse lbuf s) (\<lambda>s.
     brelse dbuf s))))"

definition install_trans :: "'a log_st_scheme \<Rightarrow> 'a log_st_scheme res" where
  "install_trans s = rfold install_one [0..<nat (lh_n s)] s"

text \<open>
  \<^verbatim>\<open>read_head\<close> copies as many block numbers as the header on disk says; a header that says more
  than \<^verbatim>\<open>LOGSIZE\<close> overruns the array.
\<close>

definition head_n :: "bytes \<Rightarrow> int" where
  "head_n d = sint (rd32 d 0)"

definition head_block :: "bytes \<Rightarrow> nat \<Rightarrow> uint" where
  "head_block d i = rd32 d (4 + 4 * i)"

definition read_head :: "'a log_st_scheme \<Rightarrow> 'a log_st_scheme res" where
  "read_head s =
     rbind (bread (log_dev s) (log_start s) s) (\<lambda>(buf, s).
     let lh = b_data (bufs s buf); s = s\<lparr>lh_n := head_n lh\<rparr> in
     if lh_n s > LOGSIZE then Inl (BadAccess ''log.lh.block'')
     else
      (let s = s\<lparr>lh_block := fold (\<lambda>i blk. blk(i := head_block lh i)) [0..<nat (lh_n s)] (lh_block s)\<rparr>
       in brelse buf s))"

definition encode_head :: "bytes \<Rightarrow> int \<Rightarrow> (nat \<Rightarrow> uint) \<Rightarrow> bytes" where
  "encode_head d n blk =
     fold (\<lambda>i d. wr32 d (4 + 4 * i) (blk i)) [0..<nat n] (wr32 d 0 (word_of_int n))"

definition write_head :: "'a log_st_scheme \<Rightarrow> 'a log_st_scheme res" where
  "write_head s =
     rbind (bread (log_dev s) (log_start s) s) (\<lambda>(buf, s).
     let s = set_data buf (encode_head (b_data (bufs s buf)) (lh_n s) (lh_block s)) s in
     rbind (bwrite buf s) (\<lambda>s. brelse buf s))"

definition recover_from_log :: "'a log_st_scheme \<Rightarrow> 'a log_st_scheme res" where
  "recover_from_log s =
     rbind (read_head s) (\<lambda>s.
     rbind (install_trans s) (\<lambda>s.
     write_head (s\<lparr>lh_n := 0\<rparr>)))"

definition initlog :: "uint \<Rightarrow> 'a log_st_scheme \<Rightarrow> 'a log_st_scheme res" where
  "initlog dev s =
     rbind (readsb dev s) (\<lambda>(sb, s).
     recover_from_log
       (s\<lparr>log_start := sb_logstart sb, log_size := sint (sb_nlog sb), log_dev := dev\<rparr>))"

text \<open>\<^verbatim>\<open>begin_op\<close> sleeps when it has to wait for a commit.\<close>

definition begin_op :: "'a log_st_scheme \<Rightarrow> 'a log_st_scheme res" where
  "begin_op s =
     (if log_committing s then Inl (Sleeps ''log'')
      else if lh_n s + (log_outstanding s + 1) * MAXOPBLOCKS > LOGSIZE then Inl (Sleeps ''log'')
      else Inr (s\<lparr>log_outstanding := log_outstanding s + 1\<rparr>))"

definition write_one :: "nat \<Rightarrow> 'a log_st_scheme \<Rightarrow> 'a log_st_scheme res" where
  "write_one tail s =
     rbind (bread (log_dev s) (log_start s + of_nat tail + 1) s) (\<lambda>(to, s).
     rbind (bread (log_dev s) (lh_block s tail) s) (\<lambda>(from, s).
     let s = set_data to (b_data (bufs s from)) s in
     rbind (bwrite to s) (\<lambda>s.
     rbind (brelse from s) (\<lambda>s.
     brelse to s))))"

definition write_log :: "'a log_st_scheme \<Rightarrow> 'a log_st_scheme res" where
  "write_log s = rfold write_one [0..<nat (lh_n s)] s"

definition commit :: "'a log_st_scheme \<Rightarrow> 'a log_st_scheme res" where
  "commit s =
     (if lh_n s > 0 then
        rbind (write_log s) (\<lambda>s.
        rbind (write_head s) (\<lambda>s.
        rbind (install_trans s) (\<lambda>s.
        write_head (s\<lparr>lh_n := 0\<rparr>))))
      else Inr s)"

definition end_op :: "'a log_st_scheme \<Rightarrow> 'a log_st_scheme res" where
  "end_op s =
     (let s = s\<lparr>log_outstanding := log_outstanding s - 1\<rparr> in
      if log_committing s then Inl (Panic ''log.committing'')
      else if log_outstanding s = 0 then
        rbind (commit (s\<lparr>log_committing := True\<rparr>)) (\<lambda>s.
        Inr (s\<lparr>log_committing := False\<rparr>))
      else Inr s)"

text \<open>Where \<^verbatim>\<open>log_write\<close> puts a block number: the slot that has it already, or the next one.\<close>

definition log_slot :: "uint \<Rightarrow> 'a log_st_scheme \<Rightarrow> nat" where
  "log_slot bno s =
     (case find (\<lambda>i. lh_block s i = bno) [0..<nat (lh_n s)] of Some i \<Rightarrow> i | None \<Rightarrow> nat (lh_n s))"

definition log_write :: "nat \<Rightarrow> 'a log_st_scheme \<Rightarrow> 'a log_st_scheme res" where
  "log_write b s =
     rbind (if log_outstanding s < 1 then rbind (begin_op s) (\<lambda>s. Inr (True, s)) else Inr (False, s))
       (\<lambda>(started_ephemeral, s).
     if lh_n s \<ge> LOGSIZE \<or> lh_n s \<ge> log_size s - 1 then Inl (Panic ''too big a transaction'')
     else
      (let bno = b_blockno (bufs s b); i = log_slot bno s;
           s = s\<lparr>lh_block := (lh_block s)(i := bno)\<rparr>;
           s = (if int i = lh_n s then s\<lparr>lh_n := lh_n s + 1\<rparr> else s);
           s = mark_dirty b s
       in if started_ephemeral then end_op s else Inr s))"

text \<open>\<^verbatim>\<open>log_sync\<close> commits with \<^verbatim>\<open>log.lock\<close> held.\<close>

definition log_sync :: "'a log_st_scheme \<Rightarrow> 'a log_st_scheme res" where
  "log_sync s =
     (if log_committing s then Inl (Sleeps ''log'')
      else if lh_n s > 0 then
        rbind (commit (s\<lparr>spins := spins s + 1\<rparr>)) (\<lambda>s. Inr (s\<lparr>spins := spins s - 1\<rparr>))
      else Inr s)"

definition fssync :: "'a log_st_scheme \<Rightarrow> 'a log_st_scheme res" where
  "fssync s =
     rbind (begin_op s) (\<lambda>s. rbind (log_sync s) (\<lambda>s. rbind (bsync s) end_op))"

section \<open>The invariant\<close>

text \<open>The blocks of the log: the header block and the data blocks after it.\<close>

definition log_area :: "uint \<Rightarrow> int \<Rightarrow> uint set" where
  "log_area start sz = {b. unat start \<le> unat b \<and> unat b < unat start + nat sz}"

text \<open>A log of the size \<^verbatim>\<open>mkfs\<close> lays out, behind the super block and inside the disk.\<close>

definition log_layout :: "uint \<Rightarrow> int \<Rightarrow> bool" where
  "log_layout start sz \<longleftrightarrow> 2 \<le> unat start \<and> 1 \<le> sz \<and> sz \<le> LOGSIZE
     \<and> unat start + nat sz \<le> 10000"

text \<open>A list of logged blocks: fits in the log, names each block once, none of the log's own.\<close>

definition head_ok :: "uint \<Rightarrow> int \<Rightarrow> int \<Rightarrow> (nat \<Rightarrow> uint) \<Rightarrow> bool" where
  "head_ok start sz n blk \<longleftrightarrow> 0 \<le> n \<and> n < sz \<and> inj_on blk {..<nat n}
     \<and> (\<forall>i<nat n. blk i < FSSIZE \<and> blk i \<noteq> 1 \<and> blk i \<notin> log_area start sz)"

definition logged :: "'a log_st_scheme \<Rightarrow> uint set" where
  "logged s = lh_block s ` {..<nat (lh_n s)}"

definition log_inv :: "'a log_st_scheme \<Rightarrow> bool" where
  "log_inv s \<longleftrightarrow> solo s \<and> log_dev s = ROOTDEV \<and> log_layout (log_start s) (log_size s)
     \<and> head_ok (log_start s) (log_size s) (lh_n s) (lh_block s)
     \<and> dirty_blocks s = logged s \<and> log_start s \<notin> locked_blocks s
     \<and> head_n (content s (log_start s)) = 0"

section \<open>Lemmas\<close>

lemma same_rest_log:
  assumes "same_rest s t"
  shows "log_start t = log_start s" and "log_size t = log_size s"
    and "log_outstanding t = log_outstanding s" and "log_committing t = log_committing s"
    and "log_dev t = log_dev s" and "lh_n t = lh_n s" and "lh_block t = lh_block s"
    and "log_st.more t = log_st.more s"
  using assms unfolding same_rest_def
  by (auto dest: arg_cong [where f = log_start] arg_cong [where f = log_size]
      arg_cong [where f = log_outstanding] arg_cong [where f = log_committing]
      arg_cong [where f = log_dev] arg_cong [where f = lh_n] arg_cong [where f = lh_block]
      arg_cong [where f = log_st.more])

subsection \<open>Replaying disk writes\<close>

definition replay :: "(uint \<times> uint \<times> bytes) list \<Rightarrow> (uint \<Rightarrow> bytes) \<Rightarrow> uint \<Rightarrow> bytes" where
  "replay ws p = fold (\<lambda>(dr, b, d) p. p(b := d)) ws p"

lemma replay_Nil [simp]: "replay [] p = p"
  by (simp add: replay_def)

lemma replay_append: "replay (ws @ vs) p = replay vs (replay ws p)"
  by (simp add: replay_def)

lemma replay_snoc [simp]: "replay (ws @ [(dr, b, d)]) p = (replay ws p)(b := d)"
  by (simp add: replay_def)

lemma replay_other: "(\<And>dr d. (dr, b, d) \<notin> set ws) \<Longrightarrow> replay ws p b = p b"
proof (induction ws arbitrary: p)
  case Nil
  then show ?case by simp
next
  case (Cons w ws)
  obtain dr c d where w: "w = (dr, c, d)" by (cases w)
  with Cons.prems have "c \<noteq> b" by auto
  moreover have "replay ws (p(c := d)) b = (p(c := d)) b"
    by (rule Cons.IH) (use Cons.prems in auto)
  ultimately show ?case by (simp add: replay_def w)
qed

text \<open>Writes to distinct blocks: each block gets its own data.\<close>

lemma replay_map_at:
  "inj_on f {..<n} \<Longrightarrow> k < n \<Longrightarrow> replay (map (\<lambda>k. (dr, f k, g k)) [0..<n]) p (f k) = g k"
proof (induction n)
  case 0
  then show ?case by simp
next
  case (Suc n)
  show ?case
  proof (cases "k = n")
    case True
    then show ?thesis by simp
  next
    case False
    with Suc.prems have "k < n" and "f k \<noteq> f n"
      by (auto dest: inj_onD [of f _ k n])
    moreover have "inj_on f {..<n}"
      by (rule inj_on_subset [OF Suc.prems(1)]) auto
    ultimately show ?thesis using Suc.IH by simp
  qed
qed

lemma replay_map_other:
  "(\<And>k. k < n \<Longrightarrow> f k \<noteq> b) \<Longrightarrow> replay (map (\<lambda>k. (dr, f k, g k)) [0..<n]) p b = p b"
  by (rule replay_other) fastforce

subsection \<open>The log area and the header\<close>

lemma log_data_block:
  assumes "log_layout start sz" and "k + 1 < nat sz"
  shows "unat (start + of_nat k + 1) = unat start + k + 1"
proof -
  have "unat start + k + 1 < 2 ^ 32"
    using assms by (simp add: log_layout_def)
  moreover have "start + of_nat k + 1 = of_nat (unat start + k + 1)"
    by simp
  ultimately show ?thesis
    by (simp only: unat_of_nat) (simp add: take_bit_nat_eq_self)
qed

lemma log_data_block_facts:
  assumes "log_layout start sz" and "k + 1 < nat sz"
  shows "start + of_nat k + 1 \<in> log_area start sz" and "start + of_nat k + 1 < FSSIZE"
    and "start + of_nat k + 1 \<noteq> start" and "start + of_nat k + 1 \<noteq> 1"
proof -
  note u = log_data_block [OF assms]
  show "start + of_nat k + 1 \<in> log_area start sz"
    using u assms by (simp add: log_area_def)
  show "start + of_nat k + 1 < FSSIZE"
    unfolding word_less_nat_alt u using assms by (simp add: log_layout_def)
  show "start + of_nat k + 1 \<noteq> start"
  proof
    assume "start + of_nat k + 1 = start"
    then have "unat (start + of_nat k + 1) = unat start" by (rule arg_cong)
    with u show False by simp
  qed
  show "start + of_nat k + 1 \<noteq> 1"
  proof
    assume "start + of_nat k + 1 = 1"
    then have "unat (start + of_nat k + 1) = unat (1 :: uint)" by (rule arg_cong)
    with u assms(1) show False by (simp add: log_layout_def)
  qed
qed

lemma log_start_facts:
  assumes "log_layout start sz"
  shows "start \<in> log_area start sz" and "start < FSSIZE" and "start \<noteq> 1"
  using assms by (auto simp: log_layout_def log_area_def word_less_nat_alt)

lemma log_data_inj:
  assumes "log_layout start sz" and "n < sz"
  shows "inj_on (\<lambda>k. start + of_nat k + 1) {..<nat n}"
proof (rule inj_onI)
  fix j k assume jk: "j \<in> {..<nat n}" "k \<in> {..<nat n}" "start + of_nat j + 1 = start + of_nat k + 1"
  have "j + 1 < nat sz" "k + 1 < nat sz" using jk(1,2) assms(2) by auto
  note u = this [THEN log_data_block [OF assms(1)]]
  have "unat (start + of_nat j + 1) = unat (start + of_nat k + 1)" by (rule arg_cong [OF jk(3)])
  then have "unat start + j + 1 = unat start + k + 1" by (simp only: u)
  then show "j = k" by simp
qed

lemma head_n_encode: "0 \<le> n \<Longrightarrow> n \<le> LOGSIZE \<Longrightarrow> head_n (encode_head d n blk) = n"
proof -
  assume n: "0 \<le> n" "n \<le> LOGSIZE"
  have "rd32 (fold (\<lambda>i d. wr32 d (4 + 4 * i) (blk i)) [0..<m] e) 0 = rd32 e 0" for m e
    by (induction m) (simp_all add: rd32_wr32_other)
  then have "head_n (encode_head d n blk) = sint (word_of_int n :: uint)"
    by (simp add: head_n_def encode_head_def)
  also have "\<dots> = n"
    using n by (simp add: signed_of_int signed_take_bit_int_eq_self)
  finally show ?thesis .
qed

lemma head_block_encode: "int i < n \<Longrightarrow> head_block (encode_head d n blk) i = blk i"
proof -
  have "rd32 (fold (\<lambda>i d. wr32 d (4 + 4 * i) (blk i)) [0..<m] e) (4 + 4 * i) = blk i" if "i < m" for m e
    using that
  proof (induction m)
    case (Suc m)
    then show ?case
      by (cases "i = m") (simp_all add: rd32_wr32_other)
  qed simp
  then show "int i < n \<Longrightarrow> head_block (encode_head d n blk) i = blk i"
    by (simp add: head_block_def encode_head_def)
qed

subsection \<open>The steps of a commit\<close>

text \<open>What all the routines of a commit and of recovery need.\<close>

definition log_base :: "'a log_st_scheme \<Rightarrow> bool" where
  "log_base s \<longleftrightarrow> solo s \<and> log_dev s = ROOTDEV \<and> log_layout (log_start s) (log_size s)
     \<and> head_ok (log_start s) (log_size s) (lh_n s) (lh_block s) \<and> locked_blocks s = {}"

lemma log_base_same:
  "same_rest s t \<Longrightarrow> solo t \<Longrightarrow> locked_blocks t = {} \<Longrightarrow> log_base s \<Longrightarrow> log_base t"
  by (simp add: log_base_def same_rest_log [of s t])

lemma log_base_slot:
  assumes "log_base s" and "k < nat (lh_n s)"
  shows "k + 1 < nat (log_size s)" and "lh_block s k < FSSIZE"
    and "lh_block s k \<notin> log_area (log_start s) (log_size s)"
    and "log_start s + of_nat k + 1 \<noteq> lh_block s k"
    and "log_start s + of_nat k + 1 < FSSIZE"
    and "log_start s + of_nat k + 1 \<notin> logged s"
proof -
  have lay: "log_layout (log_start s) (log_size s)"
    and ho: "head_ok (log_start s) (log_size s) (lh_n s) (lh_block s)"
    using assms(1) by (auto simp: log_base_def)
  show k: "k + 1 < nat (log_size s)" using ho assms(2) by (auto simp: head_ok_def)
  show blk: "lh_block s k < FSSIZE" "lh_block s k \<notin> log_area (log_start s) (log_size s)"
    using ho assms(2) by (auto simp: head_ok_def)
  note f = log_data_block_facts [OF lay k]
  show "log_start s + of_nat k + 1 \<noteq> lh_block s k" using f(1) blk(2) by auto
  show "log_start s + of_nat k + 1 < FSSIZE" by (rule f(2))
  show "log_start s + of_nat k + 1 \<notin> logged s"
    using f(1) ho by (auto simp: logged_def head_ok_def)
qed

lemma card_logged: "log_base s \<Longrightarrow> card (logged s) = nat (lh_n s) \<and> nat (lh_n s) < NBUF"
  by (auto simp: log_base_def head_ok_def logged_def card_image log_layout_def)

lemma write_one_ok:
  assumes "log_base s" and "k < nat (lh_n s)" and "dirty_blocks s = logged s"
  shows "\<exists>t. write_one k s = Inr t \<and> log_base t \<and> same_rest s t
    \<and> content t = (content s)(log_start s + of_nat k + 1 := content s (lh_block s k))
    \<and> disk t 1 = (disk s 1)(log_start s + of_nat k + 1 := content s (lh_block s k))
    \<and> wtrace t = wtrace s @ [(1, log_start s + of_nat k + 1, content s (lh_block s k))]
    \<and> dirty_blocks t = dirty_blocks s"
proof -
  note b = log_base_slot [OF assms(1,2)]
  have so: "solo s" and dev: "log_dev s = ROOTDEV" and nl: "locked_blocks s = {}"
    using assms(1) by (auto simp: log_base_def)
  have card: "card (dirty_blocks s) < NBUF" using card_logged [OF assms(1)] assms(3) by simp
  have "lh_block s k \<in> dirty_blocks s" using assms(2,3) by (simp add: logged_def)
  from bc.copy_to_first [OF so b(5,2,4) nl card this]
  obtain i t j u v w x where
    e: "bread ROOTDEV (log_start s + of_nat k + 1) s = Inr (i, t)"
      "bread ROOTDEV (lh_block s k) t = Inr (j, u)" "same_rest s t" "same_rest s u"
      "bwrite i (set_data i (b_data (bufs u j)) u) = Inr v" "brelse j v = Inr w" "brelse i w = Inr x"
    and r: "solo x" "content x = (content s)(log_start s + of_nat k + 1 := content s (lh_block s k))"
      "disk x 1 = (disk s 1)(log_start s + of_nat k + 1 := content s (lh_block s k))"
      "wtrace x = wtrace s @ [(1, log_start s + of_nat k + 1, content s (lh_block s k))]"
      "locked_blocks x = {}" "dirty_blocks x = dirty_blocks s - {log_start s + of_nat k + 1}"
      "same_rest s x"
    by (elim exE conjE) (rule that; assumption)
  have "write_one k s = Inr x"
    by (simp add: write_one_def dev e same_rest_log [OF e(3)])
  moreover have "dirty_blocks x = dirty_blocks s" using r(6) b(6) assms(3) by simp
  ultimately show ?thesis using r log_base_same [OF r(7,1,5) assms(1)] by blast
qed

lemma install_one_ok:
  assumes "log_base s" and "k < nat (lh_n s)" and "log_start s + of_nat k + 1 \<notin> dirty_blocks s"
    and "dirty_blocks s = {} \<or> lh_block s k \<in> dirty_blocks s \<and> card (dirty_blocks s) < NBUF"
  shows "\<exists>t. install_one k s = Inr t \<and> log_base t \<and> same_rest s t
    \<and> content t = (content s)(lh_block s k := content s (log_start s + of_nat k + 1))
    \<and> disk t 1 = (disk s 1)(lh_block s k := content s (log_start s + of_nat k + 1))
    \<and> wtrace t = wtrace s @ [(1, lh_block s k, content s (log_start s + of_nat k + 1))]
    \<and> dirty_blocks t = dirty_blocks s - {lh_block s k}"
proof -
  note b = log_base_slot [OF assms(1,2)]
  have so: "solo s" and dev: "log_dev s = ROOTDEV" and nl: "locked_blocks s = {}"
    using assms(1) by (auto simp: log_base_def)
  have card: "card (dirty_blocks s) + 1 < NBUF \<or> card (dirty_blocks s) < NBUF \<and> lh_block s k \<in> dirty_blocks s"
    using assms(4) by auto
  from bc.copy_to_second [OF so b(5,2,4) nl card assms(3)]
  obtain i t j u v w x where
    e: "bread ROOTDEV (log_start s + of_nat k + 1) s = Inr (i, t)"
      "bread ROOTDEV (lh_block s k) t = Inr (j, u)" "same_rest s t" "same_rest s u"
      "bwrite j (set_data j (b_data (bufs u i)) u) = Inr v" "brelse i v = Inr w" "brelse j w = Inr x"
    and r: "solo x" "content x = (content s)(lh_block s k := content s (log_start s + of_nat k + 1))"
      "disk x 1 = (disk s 1)(lh_block s k := content s (log_start s + of_nat k + 1))"
      "wtrace x = wtrace s @ [(1, lh_block s k, content s (log_start s + of_nat k + 1))]"
      "locked_blocks x = {}" "dirty_blocks x = dirty_blocks s - {lh_block s k}"
      "same_rest s x"
    by (elim exE conjE) (rule that; assumption)
  have "install_one k s = Inr x"
    by (simp add: install_one_def dev e same_rest_log [OF e(3)])
  then show ?thesis using r log_base_same [OF r(7,1,5) assms(1)] by blast
qed

lemma write_head_ok:
  assumes "log_base s" and "card (dirty_blocks s) < NBUF" and "log_start s \<notin> dirty_blocks s"
  shows "\<exists>t. write_head s = Inr t \<and> log_base t \<and> same_rest s t
    \<and> content t = (content s)(log_start s := encode_head (content s (log_start s)) (lh_n s) (lh_block s))
    \<and> disk t 1 = (disk s 1)(log_start s := encode_head (content s (log_start s)) (lh_n s) (lh_block s))
    \<and> wtrace t = wtrace s @ [(1, log_start s, encode_head (content s (log_start s)) (lh_n s) (lh_block s))]
    \<and> dirty_blocks t = dirty_blocks s"
proof -
  have so: "solo s" and dev: "log_dev s = ROOTDEV" and nl: "locked_blocks s = {}"
    and lay: "log_layout (log_start s) (log_size s)"
    using assms(1) by (auto simp: log_base_def)
  let ?d = "encode_head (content s (log_start s)) (lh_n s) (lh_block s)"
  have "log_start s \<notin> locked_blocks s"
    and "log_start s \<in> dirty_blocks s \<or> card (dirty_blocks s \<union> locked_blocks s) < NBUF"
    using assms(2) nl by auto
  from bc.change_and_write [OF so log_start_facts(2) [OF lay] this, of ?d]
  obtain i t u v where e: "bread ROOTDEV (log_start s) s = Inr (i, t)"
      "b_data (bufs t i) = content s (log_start s)" "same_rest s t"
      "bwrite i (set_data i ?d t) = Inr u" "brelse i u = Inr v"
    and r: "solo v" "content v = (content s)(log_start s := ?d)"
      "disk v 1 = (disk s 1)(log_start s := ?d)"
      "wtrace v = wtrace s @ [(1, log_start s, ?d)]" "locked_blocks v = locked_blocks s"
      "dirty_blocks v = dirty_blocks s - {log_start s}" "same_rest s v"
    by (elim exE conjE) (rule that; assumption)
  have "write_head s = Inr v"
    by (simp add: write_head_def dev e same_rest_log [OF e(3)])
  moreover have "log_base v" by (rule log_base_same [OF r(7,1) _ assms(1)]) (simp add: r(5) nl)
  ultimately show ?thesis using r assms(3) by (simp add: nl)
qed

definition log_writes :: "uint \<Rightarrow> int \<Rightarrow> (nat \<Rightarrow> bytes) \<Rightarrow> (uint \<times> uint \<times> bytes) list" where
  "log_writes start n v = map (\<lambda>k. (1, start + of_nat k + 1, v k)) [0..<nat n]"

definition home_writes :: "(nat \<Rightarrow> uint) \<Rightarrow> int \<Rightarrow> (nat \<Rightarrow> bytes) \<Rightarrow> (uint \<times> uint \<times> bytes) list" where
  "home_writes blk n v = map (\<lambda>k. (1, blk k, v k)) [0..<nat n]"

lemma write_log_ok:
  assumes "log_base s" and "dirty_blocks s = logged s"
  shows "\<exists>t. write_log s = Inr t \<and> log_base t \<and> same_rest s t \<and> dirty_blocks t = dirty_blocks s
    \<and> content t = replay (log_writes (log_start s) (lh_n s) (\<lambda>k. content s (lh_block s k))) (content s)
    \<and> disk t 1 = replay (log_writes (log_start s) (lh_n s) (\<lambda>k. content s (lh_block s k))) (disk s 1)
    \<and> wtrace t = wtrace s @ log_writes (log_start s) (lh_n s) (\<lambda>k. content s (lh_block s k))"
proof -
  define ws where "ws m = map (\<lambda>k. (1 :: uint, log_start s + of_nat k + 1, content s (lh_block s k))) [0..<m]" for m
  have ws_Suc: "ws (Suc m) = ws m @ [(1, log_start s + of_nat m + 1, content s (lh_block s m))]" for m
    by (simp add: ws_def)
  define P where "P m t \<longleftrightarrow> log_base t \<and> same_rest s t \<and> dirty_blocks t = dirty_blocks s
    \<and> content t = replay (ws m) (content s) \<and> disk t 1 = replay (ws m) (disk s 1)
    \<and> wtrace t = wtrace s @ ws m" for m t
  have "\<exists>t. rfold write_one [0..<nat (lh_n s)] s = Inr t \<and> P (nat (lh_n s)) t"
  proof (rule rfold_upt_total)
    show "P 0 s" using assms by (simp add: P_def ws_def same_rest_refl)
    fix m t assume m: "m < nat (lh_n s)" and P: "P m t"
    then have st: "same_rest s t" and base: "log_base t" by (auto simp: P_def)
    note eqs = same_rest_log [OF st]
    have "dirty_blocks t = logged t" using P assms(2) by (simp add: P_def logged_def eqs)
    from write_one_ok [OF base _ this] m obtain u where u: "write_one m t = Inr u" "log_base u" "same_rest t u"
      "content u = (content t)(log_start s + of_nat m + 1 := content t (lh_block s m))"
      "disk u 1 = (disk t 1)(log_start s + of_nat m + 1 := content t (lh_block s m))"
      "wtrace u = wtrace t @ [(1, log_start s + of_nat m + 1, content t (lh_block s m))]"
      "dirty_blocks u = dirty_blocks t"
      by (auto simp: eqs)
    have home: "lh_block s m \<notin> log_area (log_start s) (log_size s)"
      by (rule log_base_slot [OF assms(1) m])
    have "log_start s + of_nat k + 1 \<noteq> lh_block s m" if "k < m" for k
      using log_data_block_facts(1) log_base_slot(1) [OF assms(1)] assms(1) home that m
      by (metis log_base_def order.strict_trans)
    then have "content t (lh_block s m) = content s (lh_block s m)"
      using P replay_map_other [of m "\<lambda>k. log_start s + of_nat k + 1" "lh_block s m"]
      by (simp add: P_def ws_def)
    then show "\<exists>u. write_one m t = Inr u \<and> P (Suc m) u"
      using u P same_rest_trans [OF st u(3)] by (auto simp: P_def ws_Suc)
  qed
  then show ?thesis by (auto simp: write_log_def P_def ws_def log_writes_def)
qed

text \<open>
  \<^verbatim>\<open>install_trans\<close> works in both its uses: in a commit, where the blocks are still dirty in the
  cache, and in recovery, where the cache is clean.
\<close>

lemma install_trans_ok:
  assumes "log_base s" and "dirty_blocks s = logged s \<or> dirty_blocks s = {}"
  shows "\<exists>t. install_trans s = Inr t \<and> log_base t \<and> same_rest s t \<and> dirty_blocks t = {}
    \<and> content t = replay (home_writes (lh_block s) (lh_n s) (\<lambda>k. content s (log_start s + of_nat k + 1))) (content s)
    \<and> disk t 1 = replay (home_writes (lh_block s) (lh_n s) (\<lambda>k. content s (log_start s + of_nat k + 1))) (disk s 1)
    \<and> wtrace t = wtrace s @ home_writes (lh_block s) (lh_n s) (\<lambda>k. content s (log_start s + of_nat k + 1))"
proof -
  define v where "v k = content s (log_start s + of_nat k + 1)" for k
  define ws where "ws m = map (\<lambda>k. (1 :: uint, lh_block s k, v k)) [0..<m]" for m
  have ws_Suc: "ws (Suc m) = ws m @ [(1, lh_block s m, v m)]" for m
    by (simp add: ws_def)
  define P where "P m t \<longleftrightarrow> log_base t \<and> same_rest s t
    \<and> (dirty_blocks t = {} \<or> dirty_blocks t = lh_block s ` {m..<nat (lh_n s)})
    \<and> content t = replay (ws m) (content s) \<and> disk t 1 = replay (ws m) (disk s 1)
    \<and> wtrace t = wtrace s @ ws m" for m t
  have inj: "inj_on (lh_block s) {..<nat (lh_n s)}"
    using assms(1) by (simp add: log_base_def head_ok_def)
  have "\<exists>t. rfold install_one [0..<nat (lh_n s)] s = Inr t \<and> P (nat (lh_n s)) t"
  proof (rule rfold_upt_total)
    show "P 0 s" using assms by (auto simp: P_def ws_def same_rest_refl logged_def atLeast0LessThan)
    fix m t assume m: "m < nat (lh_n s)" and P: "P m t"
    then have st: "same_rest s t" and base: "log_base t" by (auto simp: P_def)
    note eqs = same_rest_log [OF st]
    note slot = log_base_slot [OF assms(1) m]
    have sub: "dirty_blocks t \<subseteq> logged s" using P by (auto simp: P_def logged_def)
    have "card (lh_block s ` {m..<nat (lh_n s)}) \<le> nat (lh_n s)"
      by (rule order.trans [OF card_image_le]) auto
    with card_logged [OF assms(1)] have "dirty_blocks t = {}
        \<or> lh_block s m \<in> dirty_blocks t \<and> card (dirty_blocks t) < NBUF"
      using P m by (auto simp: P_def)
    with install_one_ok [OF base, of m] m sub slot(6) obtain u where u: "install_one m t = Inr u"
      "log_base u" "same_rest t u"
      "content u = (content t)(lh_block s m := content t (log_start s + of_nat m + 1))"
      "disk u 1 = (disk t 1)(lh_block s m := content t (log_start s + of_nat m + 1))"
      "wtrace u = wtrace t @ [(1, lh_block s m, content t (log_start s + of_nat m + 1))]"
      "dirty_blocks u = dirty_blocks t - {lh_block s m}"
      by (auto simp: eqs)
    have "lh_block s k \<noteq> log_start s + of_nat m + 1" if "k < m" for k
    proof -
      have "lh_block s k \<in> logged s" using m that by (simp add: logged_def)
      with slot(6) show ?thesis by metis
    qed
    then have "content t (log_start s + of_nat m + 1) = v m"
      using P replay_map_other [of m "lh_block s" "log_start s + of_nat m + 1"]
      by (simp add: P_def ws_def v_def)
    moreover have "lh_block s ` {m..<nat (lh_n s)} - {lh_block s m} = lh_block s ` {Suc m..<nat (lh_n s)}"
    proof -
      have "lh_block s ` ({m..<nat (lh_n s)} - {m}) = lh_block s ` {m..<nat (lh_n s)} - lh_block s ` {m}"
        by (rule inj_on_image_set_diff [OF inj]) (use m in auto)
      moreover have "{m..<nat (lh_n s)} - {m} = {Suc m..<nat (lh_n s)}" by auto
      ultimately show ?thesis by simp
    qed
    ultimately show "\<exists>u. install_one m t = Inr u \<and> P (Suc m) u"
      using u P same_rest_trans [OF st u(3)] by (auto simp: P_def ws_Suc)
  qed
  then show ?thesis by (auto simp: install_trans_def P_def ws_def v_def home_writes_def)
qed

subsection \<open>Commit\<close>

text \<open>The disk writes of a commit, in order.\<close>

definition commit_head :: "'a log_st_scheme \<Rightarrow> bytes" where
  "commit_head s = encode_head (content s (log_start s)) (lh_n s) (lh_block s)"

definition commit_writes :: "'a log_st_scheme \<Rightarrow> (uint \<times> uint \<times> bytes) list" where
  "commit_writes s =
     (if lh_n s > 0 then
        log_writes (log_start s) (lh_n s) (\<lambda>k. content s (lh_block s k))
        @ [(1, log_start s, commit_head s)]
        @ home_writes (lh_block s) (lh_n s) (\<lambda>k. content s (lh_block s k))
        @ [(1, log_start s, encode_head (commit_head s) 0 (lh_block s))]
      else [])"

lemma log_start_not_data:
  "log_base s \<Longrightarrow> (dr, log_start s, d) \<notin> set (log_writes (log_start s) (lh_n s) v)"
  using log_data_block_facts(3) [of "log_start s" "log_size s"] log_base_slot(1) [of s]
  by (auto simp: log_writes_def log_base_def)

lemma log_start_not_home:
  "log_base s \<Longrightarrow> (dr, log_start s, d) \<notin> set (home_writes (lh_block s) (lh_n s) v)"
  using log_base_slot(3) [of s] log_start_facts(1) [of "log_start s" "log_size s"]
  by (auto simp: home_writes_def log_base_def)

lemma log_start_not_logged: "log_base s \<Longrightarrow> log_start s \<notin> logged s"
  using log_base_slot(3) [of s] log_start_facts(1) [of "log_start s" "log_size s"]
  by (auto simp: logged_def log_base_def)

lemma home_writes_cong:
  "(\<And>k. k < nat n \<Longrightarrow> v k = w k) \<Longrightarrow> home_writes blk n v = home_writes blk n w"
  by (simp add: home_writes_def)

text \<open>Up to the commit point: the blocks in the log, then the header.\<close>

lemma commit_first_half:
  assumes "log_base s" and "dirty_blocks s = logged s"
  shows "\<exists>u. rbind (write_log s) write_head = Inr u \<and> log_base u \<and> same_rest s u
    \<and> dirty_blocks u = logged s
    \<and> content u = replay (log_writes (log_start s) (lh_n s) (\<lambda>k. content s (lh_block s k))
        @ [(1, log_start s, commit_head s)]) (content s)
    \<and> disk u 1 = replay (log_writes (log_start s) (lh_n s) (\<lambda>k. content s (lh_block s k))
        @ [(1, log_start s, commit_head s)]) (disk s 1)
    \<and> wtrace u = wtrace s @ log_writes (log_start s) (lh_n s) (\<lambda>k. content s (lh_block s k))
        @ [(1, log_start s, commit_head s)]"
proof -
  let ?v = "\<lambda>k. content s (lh_block s k)" and ?L = "log_start s" and ?n = "lh_n s"
  let ?w1 = "log_writes ?L ?n ?v"
  from write_log_ok [OF assms] obtain t where t: "write_log s = Inr t" "log_base t" "same_rest s t"
    "dirty_blocks t = dirty_blocks s" "content t = replay ?w1 (content s)"
    "disk t 1 = replay ?w1 (disk s 1)" "wtrace t = wtrace s @ ?w1" by blast
  note et = same_rest_log [OF t(3)]
  have headc: "content t ?L = content s ?L"
    unfolding t(5) by (rule replay_other) (rule log_start_not_data [OF assms(1)])
  have card: "card (dirty_blocks t) < NBUF" "?L \<notin> dirty_blocks t"
    using card_logged [OF assms(1)] log_start_not_logged [OF assms(1)] assms(2) t(4) by auto
  have L: "log_start t = ?L" by (rule et)
  from write_head_ok [OF t(2)] card obtain u where u: "write_head t = Inr u" "log_base u" "same_rest t u"
    "content u = (content t)(?L := commit_head s)" "disk u 1 = (disk t 1)(?L := commit_head s)"
    "wtrace u = wtrace t @ [(1, ?L, commit_head s)]" "dirty_blocks u = dirty_blocks t"
    unfolding L by (auto simp: et headc commit_head_def)
  then show ?thesis using t assms(2) same_rest_trans [OF t(3) u(3)] by auto
qed

lemma log_base_clear:
  assumes "log_base s"
  shows "log_base (s\<lparr>lh_n := 0\<rparr>)" and "content (s\<lparr>lh_n := 0\<rparr>) = content s"
    and "dirty_blocks (s\<lparr>lh_n := 0\<rparr>) = dirty_blocks s"
proof -
  show "content (s\<lparr>lh_n := 0\<rparr>) = content s"
    by (rule ext, rule content_cong) simp_all
  show "dirty_blocks (s\<lparr>lh_n := 0\<rparr>) = dirty_blocks s" by (simp add: dirty_blocks_def)
  show "log_base (s\<lparr>lh_n := 0\<rparr>)"
    using assms by (auto simp: log_base_def head_ok_def locked_blocks_def solo_def bio_inv_def)
qed

text \<open>From the commit point on: the blocks in their places, then an empty header.\<close>

lemma commit_second_half:
  assumes "log_base s" and "dirty_blocks s = logged s \<or> dirty_blocks s = {}"
  shows "\<exists>t. rbind (install_trans s) (\<lambda>s. write_head (s\<lparr>lh_n := 0\<rparr>)) = Inr t \<and> log_base t
    \<and> same_rest (s\<lparr>lh_n := 0\<rparr>) t \<and> dirty_blocks t = {}
    \<and> content t = replay (home_writes (lh_block s) (lh_n s) (\<lambda>k. content s (log_start s + of_nat k + 1))
        @ [(1, log_start s, encode_head (content s (log_start s)) 0 (lh_block s))]) (content s)
    \<and> disk t 1 = replay (home_writes (lh_block s) (lh_n s) (\<lambda>k. content s (log_start s + of_nat k + 1))
        @ [(1, log_start s, encode_head (content s (log_start s)) 0 (lh_block s))]) (disk s 1)
    \<and> wtrace t = wtrace s @ home_writes (lh_block s) (lh_n s) (\<lambda>k. content s (log_start s + of_nat k + 1))
        @ [(1, log_start s, encode_head (content s (log_start s)) 0 (lh_block s))]"
proof -
  let ?L = "log_start s" and ?B = "lh_block s"
  let ?w3 = "home_writes ?B (lh_n s) (\<lambda>k. content s (?L + of_nat k + 1))"
  let ?h = "encode_head (content s ?L) 0 ?B"
  from install_trans_ok [OF assms] obtain v where v: "install_trans s = Inr v" "log_base v"
    "same_rest s v" "dirty_blocks v = {}" "content v = replay ?w3 (content s)"
    "disk v 1 = replay ?w3 (disk s 1)" "wtrace v = wtrace s @ ?w3" by blast
  note ev = same_rest_log [OF v(3)]
  note c0 = log_base_clear [OF v(2)]
  have headc: "content v ?L = content s ?L"
    unfolding v(5) by (rule replay_other) (rule log_start_not_home [OF assms(1)])
  from write_head_ok [OF c0(1)] v(4) obtain w where w: "write_head (v\<lparr>lh_n := 0\<rparr>) = Inr w"
    "log_base w" "same_rest (v\<lparr>lh_n := 0\<rparr>) w" "content w = (content v)(?L := ?h)"
    "disk w 1 = (disk v 1)(?L := ?h)" "wtrace w = wtrace v @ [(1, ?L, ?h)]" "dirty_blocks w = {}"
    by (auto simp: ev headc c0(2,3))
  have "same_rest (s\<lparr>lh_n := 0\<rparr>) (v\<lparr>lh_n := 0\<rparr>)"
    using v(3) by (cases s, cases v) (simp add: same_rest_def)
  from same_rest_trans [OF this w(3)] show ?thesis using v w by simp
qed

lemma commit_ok:
  assumes "log_base s" and "dirty_blocks s = logged s"
  shows "\<exists>t. commit s = Inr t \<and> log_base t \<and> dirty_blocks t = {}
    \<and> same_rest (s\<lparr>lh_n := 0\<rparr>) t \<and> content t = replay (commit_writes s) (content s)
    \<and> disk t 1 = replay (commit_writes s) (disk s 1) \<and> wtrace t = wtrace s @ commit_writes s"
proof (cases "lh_n s > 0")
  case False
  then have n: "lh_n s = 0" using assms(1) by (simp add: log_base_def head_ok_def)
  then have e: "s\<lparr>lh_n := 0\<rparr> = s" by (cases s) simp
  have "logged s = {}" by (simp add: logged_def n)
  then show ?thesis
    unfolding e using assms n by (simp add: commit_def commit_writes_def same_rest_refl)
next
  case n: True
  let ?v = "\<lambda>k. content s (lh_block s k)" and ?L = "log_start s" and ?n = "lh_n s" and ?B = "lh_block s"
  let ?w1 = "log_writes ?L ?n ?v @ [(1, ?L, commit_head s)]"
  from commit_first_half [OF assms] obtain u where u: "rbind (write_log s) write_head = Inr u"
    "log_base u" "same_rest s u" "dirty_blocks u = logged s" "content u = replay ?w1 (content s)"
    "disk u 1 = replay ?w1 (disk s 1)" "wtrace u = wtrace s @ ?w1" by auto
  note eu = same_rest_log [OF u(3)]
  have lay: "log_layout ?L (log_size s)" and ho: "?n < log_size s"
    using assms(1) by (auto simp: log_base_def head_ok_def)
  have "content u (?L + of_nat k + 1) = ?v k" if "k < nat ?n" for k
    using replay_map_at [OF log_data_inj [OF lay ho] that, of 1 ?v "content s"]
      log_data_block_facts(3) [OF lay log_base_slot(1) [OF assms(1) that]]
    by (simp add: u(5) log_writes_def)
  then have w3: "home_writes ?B ?n (\<lambda>k. content u (?L + of_nat k + 1)) = home_writes ?B ?n ?v"
    by (rule home_writes_cong)
  have h: "content u ?L = commit_head s" by (simp add: u(5))
  have same: "same_rest (s\<lparr>lh_n := 0\<rparr>) (u\<lparr>lh_n := 0\<rparr>)"
    using u(3) by (cases s, cases u) (simp add: same_rest_def)
  have "dirty_blocks u = logged u" using u(4) by (simp add: logged_def eu)
  with commit_second_half [OF u(2)] obtain t where
    t: "rbind (install_trans u) (\<lambda>s. write_head (s\<lparr>lh_n := 0\<rparr>)) = Inr t" "log_base t"
      "same_rest (u\<lparr>lh_n := 0\<rparr>) t" "dirty_blocks t = {}"
      "content t = replay (home_writes ?B ?n ?v @ [(1, ?L, encode_head (commit_head s) 0 ?B)]) (content u)"
      "disk t 1 = replay (home_writes ?B ?n ?v @ [(1, ?L, encode_head (commit_head s) 0 ?B)]) (disk u 1)"
      "wtrace t = wtrace u @ home_writes ?B ?n ?v @ [(1, ?L, encode_head (commit_head s) 0 ?B)]"
    unfolding eu w3 h by blast
  have cw: "commit_writes s = ?w1 @ home_writes ?B ?n ?v @ [(1, ?L, encode_head (commit_head s) 0 ?B)]"
    using n by (simp add: commit_writes_def)
  have "commit s = rbind (rbind (write_log s) write_head) (\<lambda>s. rbind (install_trans s) (\<lambda>s. write_head (s\<lparr>lh_n := 0\<rparr>)))"
    using n by (simp add: commit_def rbind_assoc)
  then show ?thesis
    using u(1,5-7) t same_rest_trans [OF same t(3)]
    by (simp only: rbind_Inr cw replay_append append_assoc) auto
qed

subsection \<open>Recovery\<close>

text \<open>
  What recovery makes of a disk, block by block: the blocks the header lists get the data the log
  has for them.
\<close>

definition recovers :: "uint \<Rightarrow> (uint \<Rightarrow> bytes) \<Rightarrow> uint \<Rightarrow> bytes" where
  "recovers start p b =
     (case find (\<lambda>k. head_block (p start) k = b) [0..<nat (head_n (p start))] of
        Some k \<Rightarrow> p (start + of_nat k + 1)
      | None \<Rightarrow> p b)"

definition recover_writes :: "uint \<Rightarrow> (uint \<Rightarrow> bytes) \<Rightarrow> (uint \<times> uint \<times> bytes) list" where
  "recover_writes start p =
     home_writes (head_block (p start)) (head_n (p start)) (\<lambda>k. p (start + of_nat k + 1))
     @ [(1, start, encode_head (p start) 0 (head_block (p start)))]"

text \<open>A disk that can be booted: its super block describes the log, whose header is in order.\<close>

definition disk_ok :: "uint \<Rightarrow> int \<Rightarrow> (uint \<Rightarrow> bytes) \<Rightarrow> bool" where
  "disk_ok start sz p \<longleftrightarrow> log_layout start sz
     \<and> sb_logstart (decode_sb (p 1)) = start \<and> sint (sb_nlog (decode_sb (p 1))) = sz
     \<and> head_ok start sz (head_n (p start)) (head_block (p start))"

lemma recovers_logged:
  assumes "disk_ok start sz p" and "k < nat (head_n (p start))"
  shows "recovers start p (head_block (p start) k) = p (start + of_nat k + 1)"
proof -
  have "find (\<lambda>j. head_block (p start) j = head_block (p start) k) [0..<nat (head_n (p start))] = Some k"
    using assms by (auto simp: find_upt_Some_iff disk_ok_def head_ok_def dest: inj_onD [of _ _ _ k])
  then show ?thesis by (simp add: recovers_def)
qed

lemma recovers_other:
  "(\<And>k. k < nat (head_n (p start)) \<Longrightarrow> head_block (p start) k \<noteq> b) \<Longrightarrow> recovers start p b = p b"
proof -
  assume "\<And>k. k < nat (head_n (p start)) \<Longrightarrow> head_block (p start) k \<noteq> b"
  then have "find (\<lambda>k. head_block (p start) k = b) [0..<nat (head_n (p start))] = None"
    by (auto simp: find_upt_None_iff)
  then show ?thesis by (simp add: recovers_def)
qed

lemma take_home_writes: "take j (home_writes blk n v) = home_writes blk (min (int j) n) v"
proof -
  have "take j [0..<m] = [0..<min j m]" for m
    by (cases "j \<le> m") (simp_all add: min_def)
  moreover have "nat (min (int j) n) = min j (nat n)" by (auto simp: min_def)
  ultimately show ?thesis by (simp add: home_writes_def take_map)
qed

lemma head_n_cleared: "head_n (encode_head d 0 blk) = 0"
  by (simp add: head_n_encode)

lemma disk_ok_slot:
  assumes "disk_ok start sz p" and "k < nat (head_n (p start))"
  shows "head_block (p start) k \<noteq> 1" and "head_block (p start) k \<notin> log_area start sz"
    and "start + of_nat k + 1 \<in> log_area start sz"
proof -
  show "head_block (p start) k \<noteq> 1" "head_block (p start) k \<notin> log_area start sz"
    using assms by (auto simp: disk_ok_def head_ok_def)
  show "start + of_nat k + 1 \<in> log_area start sz"
    by (rule log_data_block_facts(1)) (use assms in \<open>auto simp: disk_ok_def head_ok_def\<close>)
qed

text \<open>Installing logged blocks touches neither the log nor the super block.\<close>

lemma install_keeps:
  assumes "disk_ok start sz p" and "c = 1 \<or> c \<in> log_area start sz" and "m \<le> head_n (p start)"
  shows "replay (home_writes (head_block (p start)) m v) p c = p c"
  unfolding home_writes_def
  by (rule replay_map_other) (use disk_ok_slot [OF assms(1)] assms(2,3) in fastforce)

lemma install_other:
  "(\<And>k. k < nat n \<Longrightarrow> blk k \<noteq> b) \<Longrightarrow> m \<le> n \<Longrightarrow> replay (home_writes blk m v) p b = p b"
  unfolding home_writes_def by (rule replay_map_other) auto

text \<open>Recovery can itself be cut short at any write without changing what it will make.\<close>

lemma recover_partial:
  assumes ok: "disk_ok start sz p" and m: "m \<le> head_n (p start)"
    and q: "q = replay (home_writes (head_block (p start)) m (\<lambda>k. p (start + of_nat k + 1))) p"
  shows "disk_ok start sz q \<and> recovers start q b = recovers start p b"
proof -
  let ?n = "head_n (p start)" and ?B = "head_block (p start)"
  have lay: "log_layout start sz" using ok by (simp add: disk_ok_def)
  have same: "q start = p start" "q 1 = p 1"
    using install_keeps [OF ok _ m] log_start_facts(1) [OF lay] q by auto
  have okq: "disk_ok start sz q" using ok by (simp add: disk_ok_def same)
  have "recovers start q b = recovers start p b"
  proof (cases "\<exists>k<nat ?n. b = ?B k")
    case True
    then obtain k where k: "k < nat ?n" "b = ?B k" by blast
    have "recovers start q (head_block (q start) k) = q (start + of_nat k + 1)"
      by (rule recovers_logged [OF okq]) (simp add: same k(1))
    also have "\<dots> = p (start + of_nat k + 1)"
      unfolding q by (rule install_keeps [OF ok _ m]) (simp add: disk_ok_slot [OF ok k(1)])
    finally show ?thesis using k recovers_logged [OF ok k(1)] by (simp add: same)
  next
    case False
    then have "q b = p b" unfolding q using m by (intro install_other) auto
    then show ?thesis using False by (subst (1 2) recovers_other) (auto simp: same)
  qed
  with okq show ?thesis ..
qed

lemma recover_complete:
  assumes ok: "disk_ok start sz p" and q: "q = replay (recover_writes start p) p"
  shows "disk_ok start sz q" and "head_n (q start) = 0"
    and "b \<notin> log_area start sz \<Longrightarrow> q b = recovers start p b"
proof -
  let ?n = "head_n (p start)" and ?B = "head_block (p start)"
  let ?r = "replay (home_writes ?B ?n (\<lambda>k. p (start + of_nat k + 1))) p"
  have lay: "log_layout start sz" and inj: "inj_on ?B {..<nat ?n}"
    using ok by (auto simp: disk_ok_def head_ok_def)
  note start = log_start_facts [OF lay]
  have q': "q = ?r(start := encode_head (p start) 0 ?B)"
    by (simp add: q recover_writes_def)
  then show h: "head_n (q start) = 0" by (simp add: head_n_cleared)
  have "q 1 = p 1" using install_keeps [OF ok, of 1 ?n] start q' by auto
  then show "disk_ok start sz q"
    using ok lay by (auto simp: disk_ok_def h head_ok_def log_layout_def)
  show "q b = recovers start p b" if b: "b \<notin> log_area start sz"
  proof (cases "\<exists>k<nat ?n. b = ?B k")
    case True
    then obtain k where k: "k < nat ?n" "b = ?B k" by blast
    then show ?thesis
      using recovers_logged [OF ok k(1)] replay_map_at [OF inj k(1)] b start(1) q'
      by (auto simp: home_writes_def)
  next
    case False
    then have "?r b = p b" by (intro install_other) auto
    then show ?thesis using False b start(1) q' by (subst recovers_other) auto
  qed
qed

lemma recover_prefix:
  assumes ok: "disk_ok start sz p" and q: "q = replay (take j (recover_writes start p)) p"
  shows "disk_ok start sz q \<and> (b \<notin> log_area start sz \<longrightarrow> recovers start q b = recovers start p b)"
proof (cases "j \<le> nat (head_n (p start))")
  case True
  then have "take j (recover_writes start p) = home_writes (head_block (p start))
      (min (int j) (head_n (p start))) (\<lambda>k. p (start + of_nat k + 1))"
    by (simp add: recover_writes_def flip: take_home_writes) (simp add: home_writes_def)
  with q show ?thesis using recover_partial [OF ok, of "min (int j) (head_n (p start))" q b] by simp
next
  case False
  then have "take j (recover_writes start p) = recover_writes start p"
    by (simp add: recover_writes_def home_writes_def)
  with q have q': "q = replay (recover_writes start p) p" by simp
  note c = recover_complete [OF ok q']
  have "recovers start q b = q b" by (rule recovers_other) (simp add: c(2))
  with c(1,3) show ?thesis by auto
qed

subsection \<open>Booting\<close>

lemma brelse_log_fields:
  "brelse i s = Inr u \<Longrightarrow> brelse i (s\<lparr>lh_n := n, lh_block := f\<rparr>) = Inr (u\<lparr>lh_n := n, lh_block := f\<rparr>)"
  by (cases s) (auto simp: brelse_def upd_buf_def Let_def split: if_splits)

lemma solo_log_fields [simp]:
  "solo (s\<lparr>lh_n := n, lh_block := f\<rparr>) = solo s"
  "solo (s\<lparr>log_start := a, log_size := z, log_dev := d\<rparr>) = solo s"
  by (simp_all add: solo_def bio_inv_def)

lemma content_log_fields [simp]:
  "content (s\<lparr>lh_n := n, lh_block := f\<rparr>) = content s"
  "content (s\<lparr>log_start := a, log_size := z, log_dev := d\<rparr>) = content s"
  by (rule ext, rule content_cong; simp)+

lemma blocks_log_fields [simp]:
  "dirty_blocks (s\<lparr>lh_n := n, lh_block := f\<rparr>) = dirty_blocks s"
  "locked_blocks (s\<lparr>lh_n := n, lh_block := f\<rparr>) = locked_blocks s"
  "dirty_blocks (s\<lparr>log_start := a, log_size := z, log_dev := d\<rparr>) = dirty_blocks s"
  "locked_blocks (s\<lparr>log_start := a, log_size := z, log_dev := d\<rparr>) = locked_blocks s"
  by (simp_all add: dirty_blocks_def locked_blocks_def)

lemma fold_upd_upt: "fold (\<lambda>i f. f(i := g i)) [0..<n] f i = (if i < n then g i else f i)"
  by (induction n) auto

lemma read_head_ok:
  assumes so: "solo s" and clean: "dirty_blocks s = {}" "locked_blocks s = {}"
    and dev: "log_dev s = ROOTDEV" and lay: "log_layout (log_start s) (log_size s)"
    and ho: "head_ok (log_start s) (log_size s) n blk"
    and hd: "n = head_n (content s (log_start s))" "blk = head_block (content s (log_start s))"
  shows "\<exists>t. read_head s = Inr t \<and> log_base t \<and> dirty_blocks t = {} \<and> content t = content s
    \<and> disk t 1 = disk s 1 \<and> wtrace t = wtrace s \<and> lh_n t = n \<and> (\<forall>i<nat n. lh_block t i = blk i)
    \<and> log_start t = log_start s \<and> log_size t = log_size s \<and> log_dev t = ROOTDEV"
proof -
  let ?L = "log_start s"
  have "?L \<notin> locked_blocks s" "?L \<in> dirty_blocks s \<or> card (dirty_blocks s \<union> locked_blocks s) < NBUF"
    using clean by auto
  from bc.peek [OF so log_start_facts(2) [OF lay] this] obtain i t u where
    e: "bread ROOTDEV ?L s = Inr (i, t)" "b_data (bufs t i) = content s ?L" "same_rest s t" "brelse i t = Inr u"
    and r: "solo u" "content u = content s" "disk u 1 = disk s 1" "wtrace u = wtrace s"
      "locked_blocks u = locked_blocks s" "dirty_blocks u = dirty_blocks s" "same_rest s u"
    by blast
  define f where "f = fold (\<lambda>i g. g(i := blk i)) [0..<nat n] (lh_block s)"
  have n: "n \<le> LOGSIZE" using ho lay by (simp add: head_ok_def log_layout_def)
  have "read_head s = Inr (u\<lparr>lh_n := n, lh_block := f\<rparr>)"
    using n brelse_log_fields [OF e(4)]
    by (simp add: read_head_def dev e(1,2) Let_def f_def same_rest_log [OF e(3)] flip: hd)
  moreover have "log_base (u\<lparr>lh_n := n, lh_block := f\<rparr>)"
  proof -
    have "f i = blk i" if "i < nat n" for i using that by (simp add: f_def fold_upd_upt)
    then have "head_ok ?L (log_size s) n f"
      using ho by (auto simp: head_ok_def inj_on_def)
    then show ?thesis using r dev lay clean by (simp add: log_base_def same_rest_log [OF r(7)])
  qed
  ultimately show ?thesis
    using r clean by (auto simp: f_def fold_upd_upt same_rest_log [OF r(7)] dev)
qed

lemma readsb_ok:
  assumes so: "solo s" and clean: "dirty_blocks s = {}" "locked_blocks s = {}"
  shows "\<exists>t. readsb ROOTDEV s = Inr (decode_sb (content s 1), t) \<and> solo t
    \<and> content t = content s \<and> disk t 1 = disk s 1 \<and> wtrace t = wtrace s
    \<and> dirty_blocks t = {} \<and> locked_blocks t = {} \<and> same_rest s t"
proof -
  have "(1 :: uint) < FSSIZE" "(1 :: uint) \<notin> locked_blocks s"
    "1 \<in> dirty_blocks s \<or> card (dirty_blocks s \<union> locked_blocks s) < NBUF"
    using clean by auto
  from bc.peek [OF so this] clean show ?thesis
    by (fastforce simp: readsb_def Let_def)
qed

lemma home_writes_blk_cong:
  "(\<And>k. k < nat n \<Longrightarrow> blk k = blk' k) \<Longrightarrow> home_writes blk n v = home_writes blk' n v"
  by (simp add: home_writes_def)

lemma recover_from_log_ok:
  assumes so: "solo s" and clean: "dirty_blocks s = {}" "locked_blocks s = {}"
    and dev: "log_dev s = ROOTDEV" and lay: "log_layout (log_start s) (log_size s)"
    and ho: "head_ok (log_start s) (log_size s) (head_n (content s (log_start s)))
      (head_block (content s (log_start s)))"
    and agree: "content s = disk s 1"
  shows "\<exists>t. recover_from_log s = Inr t \<and> log_base t \<and> dirty_blocks t = {} \<and> lh_n t = 0
    \<and> log_start t = log_start s \<and> log_size t = log_size s
    \<and> disk t 1 = replay (recover_writes (log_start s) (disk s 1)) (disk s 1)
    \<and> content t = disk t 1 \<and> wtrace t = wtrace s @ recover_writes (log_start s) (disk s 1)"
proof -
  let ?p = "disk s 1" and ?L = "log_start s"
  let ?n = "head_n (?p ?L)" and ?B = "head_block (?p ?L)"
  from read_head_ok [OF so clean dev lay ho refl refl] obtain t where
    t: "read_head s = Inr t" "log_base t" "dirty_blocks t = {}" "content t = content s"
      "disk t 1 = ?p" "wtrace t = wtrace s" "lh_n t = ?n" "\<forall>i<nat ?n. lh_block t i = ?B i"
      "log_start t = ?L" "log_size t = log_size s"
    unfolding agree by blast
  have ws: "home_writes (lh_block t) (lh_n t) (\<lambda>k. content t (log_start t + of_nat k + 1))
      @ [(1, log_start t, encode_head (content t (log_start t)) 0 (lh_block t))]
    = recover_writes ?L ?p"
    using t(8) home_writes_blk_cong [of ?n "lh_block t" ?B]
    by (simp add: recover_writes_def t(4,7,9) agree encode_head_def)
  have "dirty_blocks t = logged t \<or> dirty_blocks t = {}" using t(3) by simp
  from commit_second_half [OF t(2) this, unfolded ws] obtain u where
    u: "rbind (install_trans t) (\<lambda>s. write_head (s\<lparr>lh_n := 0\<rparr>)) = Inr u" "log_base u"
      "same_rest (t\<lparr>lh_n := 0\<rparr>) u" "dirty_blocks u = {}"
      "content u = replay (recover_writes ?L ?p) (content t)"
      "disk u 1 = replay (recover_writes ?L ?p) (disk t 1)" "wtrace u = wtrace t @ recover_writes ?L ?p"
    by blast
  have "recover_from_log s = Inr u" by (simp add: recover_from_log_def t(1) u(1))
  then show ?thesis
    using u same_rest_log [OF u(3)] t(4-6,9,10) agree by auto
qed

lemma initlog_ok:
  assumes boot: "boot_bio s" and ok: "disk_ok start sz (disk s 1)"
  shows "\<exists>t. initlog ROOTDEV (binit s) = Inr t \<and> log_inv t \<and> lh_n t = 0 \<and> locked_blocks t = {}
    \<and> log_start t = start \<and> log_size t = sz
    \<and> disk t 1 = replay (recover_writes start (disk s 1)) (disk s 1) \<and> content t = disk t 1
    \<and> wtrace t = wtrace s @ recover_writes start (disk s 1)"
proof -
  let ?p = "disk s 1"
  note b = boot_solo [OF boot]
  have d0: "disk (binit s) 1 = ?p" "wtrace (binit s) = wtrace s" by (simp_all add: binit_boot [OF boot])
  from readsb_ok [OF b(1,3,4)] obtain t where t: "readsb ROOTDEV (binit s) = Inr (decode_sb (?p 1), t)"
    "solo t" "content t = ?p" "disk t 1 = ?p" "wtrace t = wtrace s" "dirty_blocks t = {}"
    "locked_blocks t = {}"
    unfolding b(2) d0 by blast
  define u where "u = t\<lparr>log_start := start, log_size := sz, log_dev := ROOTDEV\<rparr>"
  have u: "solo u" "dirty_blocks u = {}" "locked_blocks u = {}" "log_dev u = ROOTDEV"
    "log_start u = start" "log_size u = sz" "content u = ?p" "disk u 1 = ?p" "wtrace u = wtrace s"
    by (simp_all add: u_def t)
  have lay: "log_layout start sz" and ho: "head_ok start sz (head_n (?p start)) (head_block (?p start))"
    using ok by (auto simp: disk_ok_def)
  from recover_from_log_ok [OF u(1-4)] lay ho u(5-9) obtain v where
    v: "recover_from_log u = Inr v" "log_base v" "dirty_blocks v = {}" "lh_n v = 0"
      "log_start v = start" "log_size v = sz" "disk v 1 = replay (recover_writes start ?p) ?p"
      "content v = disk v 1" "wtrace v = wtrace s @ recover_writes start ?p"
    by auto
  have "initlog ROOTDEV (binit s) = Inr v"
    using ok by (simp add: initlog_def t(1) v(1) disk_ok_def flip: u_def)
  moreover have "log_inv v"
    using v recover_complete(2) [OF ok v(7)]
    by (auto simp: log_inv_def log_base_def logged_def)
  moreover have "locked_blocks v = {}" using v(2) by (simp add: log_base_def)
  ultimately show ?thesis using v by blast
qed

subsection \<open>Crashes during a commit\<close>

lemma log_inv_base: "log_inv s \<Longrightarrow> locked_blocks s = {} \<Longrightarrow> log_base s"
  by (simp add: log_inv_def log_base_def)

lemma log_head_on_disk:
  assumes "log_inv s" and "locked_blocks s = {}"
  shows "head_n (disk s 1 (log_start s)) = 0"
proof -
  have "log_start s \<notin> dirty_blocks s"
    using log_start_not_logged [OF log_inv_base [OF assms]] assms(1) by (simp add: log_inv_def)
  then have "content s (log_start s) = disk s 1 (log_start s)"
    using assms by (intro solo_coherent) (auto simp: log_inv_def)
  with assms(1) show ?thesis by (simp add: log_inv_def)
qed

lemma before_commit_point:
  assumes inv: "log_inv s" "locked_blocks s = {}" and ok: "disk_ok (log_start s) (log_size s) (disk s 1)"
    and k: "k \<le> nat (lh_n s)" and q: "q = replay (take k (commit_writes s)) (disk s 1)"
  shows "disk_ok (log_start s) (log_size s) q"
    and "b \<notin> log_area (log_start s) (log_size s) \<Longrightarrow> recovers (log_start s) q b = disk s 1 b"
proof -
  let ?L = "log_start s"
  note base = log_inv_base [OF inv]
  have lay: "log_layout ?L (log_size s)" using base by (simp add: log_base_def)
  have tk: "take k (commit_writes s) = take k (log_writes ?L (lh_n s) (\<lambda>k. content s (lh_block s k)))"
    using k by (auto simp: commit_writes_def log_writes_def)
  have area: "c \<in> log_area ?L (log_size s)" "c \<noteq> ?L" if "(dr, c, d) \<in> set (take k (commit_writes s))" for dr c d
    using in_set_takeD [OF that [unfolded tk]] log_data_block_facts [OF lay] log_base_slot(1) [OF base]
    by (auto simp: log_writes_def)
  have keep: "q c = disk s 1 c" if "c \<notin> log_area ?L (log_size s) \<or> c = ?L" for c
    unfolding q by (rule replay_other) (use area that in blast)
  have one: "(1 :: uint) \<notin> log_area ?L (log_size s)"
    using lay by (simp add: log_area_def log_layout_def)
  show "disk_ok ?L (log_size s) q" using ok keep one by (simp add: disk_ok_def)
  assume b: "b \<notin> log_area ?L (log_size s)"
  have "recovers ?L q b = q b"
    by (rule recovers_other) (simp add: keep log_head_on_disk [OF inv])
  with b keep show "recovers ?L q b = disk s 1 b" by simp
qed

text \<open>The disk at the commit point: the header has just been written.\<close>

definition commit_point :: "'a log_st_scheme \<Rightarrow> uint \<Rightarrow> bytes" where
  "commit_point s = (replay (log_writes (log_start s) (lh_n s) (\<lambda>k. content s (lh_block s k))) (disk s 1))
     (log_start s := commit_head s)"

lemma commit_point_ok:
  assumes inv: "log_inv s" "locked_blocks s = {}" and ok: "disk_ok (log_start s) (log_size s) (disk s 1)"
  shows "disk_ok (log_start s) (log_size s) (commit_point s)"
    and "b \<notin> log_area (log_start s) (log_size s) \<Longrightarrow> recovers (log_start s) (commit_point s) b = content s b"
    and "recover_writes (log_start s) (commit_point s)
      = home_writes (lh_block s) (lh_n s) (\<lambda>k. content s (lh_block s k))
        @ [(1, log_start s, encode_head (commit_head s) 0 (lh_block s))]"
proof -
  let ?L = "log_start s" and ?n = "lh_n s" and ?B = "lh_block s" and ?v = "\<lambda>k. content s (lh_block s k)"
  let ?w1 = "log_writes ?L ?n ?v" and ?h = "commit_head s"
  note base = log_inv_base [OF inv]
  have lay: "log_layout ?L (log_size s)" and ho: "head_ok ?L (log_size s) ?n ?B" and dirty: "dirty_blocks s = logged s"
    using inv by (auto simp: log_inv_def)
  define p where "p = commit_point s"
  have p: "p = (replay ?w1 (disk s 1))(?L := ?h)" by (simp add: p_def commit_point_def)
  have n60: "?n \<le> LOGSIZE" "0 \<le> ?n" using ho lay by (auto simp: head_ok_def log_layout_def)
  have hn: "head_n (p ?L) = ?n" and hb: "\<And>i. i < nat ?n \<Longrightarrow> head_block (p ?L) i = ?B i"
    using n60 by (auto simp: p commit_head_def head_n_encode head_block_encode)
  have pd: "p (?L + of_nat i + 1) = ?v i" if "i < nat ?n" for i
    using replay_map_at [OF log_data_inj [OF lay] that] ho
      log_data_block_facts(3) [OF lay log_base_slot(1) [OF base that]]
    by (simp add: p log_writes_def head_ok_def)
  have keep: "p c = disk s 1 c" if "c \<notin> log_area ?L (log_size s)" for c
  proof -
    have "replay ?w1 (disk s 1) c = disk s 1 c"
      using log_data_block_facts(1) [OF lay log_base_slot(1) [OF base]] that
      unfolding log_writes_def by (intro replay_map_other) blast
    with that log_start_facts(1) [OF lay] show ?thesis by (auto simp: p)
  qed
  show okp: "disk_ok ?L (log_size s) (commit_point s)"
  proof -
    have "p 1 = disk s 1 1" using lay by (intro keep) (simp add: log_area_def log_layout_def)
    moreover have "head_ok ?L (log_size s) ?n (head_block (p ?L))"
      using ho hb by (auto simp: head_ok_def inj_on_def)
    ultimately show ?thesis using ok by (simp add: disk_ok_def hn flip: p_def)
  qed
  show "recovers ?L (commit_point s) b = content s b" if "b \<notin> log_area ?L (log_size s)"
  proof (cases "b \<in> logged s")
    case True
    then obtain i where "i < nat ?n" "b = ?B i" by (auto simp: logged_def)
    then show ?thesis using recovers_logged [OF okp [folded p_def], of i] pd
      by (simp add: hn hb flip: p_def)
  next
    case False
    then have "recovers ?L p b = p b" by (intro recovers_other) (auto simp: hn hb logged_def)
    with keep [OF that] solo_coherent [of s b] False dirty inv show ?thesis
      by (simp add: log_inv_def flip: p_def)
  qed
  show "recover_writes ?L (commit_point s) = home_writes ?B ?n ?v @ [(1, ?L, encode_head ?h 0 ?B)]"
    unfolding p_def [symmetric] using pd hb by (simp add: recover_writes_def hn home_writes_def) (simp add: p encode_head_def)
qed

lemma after_commit_point:
  assumes inv: "log_inv s" "locked_blocks s = {}" and ok: "disk_ok (log_start s) (log_size s) (disk s 1)"
    and n: "0 < lh_n s" and k: "nat (lh_n s) < k"
    and q: "q = replay (take k (commit_writes s)) (disk s 1)"
  shows "disk_ok (log_start s) (log_size s) q
    \<and> (b \<notin> log_area (log_start s) (log_size s) \<longrightarrow> recovers (log_start s) q b = content s b)"
proof -
  let ?L = "log_start s" and ?h = "commit_head s"
  let ?w1 = "log_writes ?L (lh_n s) (\<lambda>k. content s (lh_block s k))"
  let ?rest = "take (k - (nat (lh_n s) + 1)) (recover_writes ?L (commit_point s))"
  note cp = commit_point_ok [OF inv ok]
  have "commit_writes s = (?w1 @ [(1, ?L, ?h)]) @ recover_writes ?L (commit_point s)"
    using n by (simp add: commit_writes_def cp(3))
  moreover have "length (?w1 @ [(1 :: uint, ?L, ?h)]) = nat (lh_n s) + 1" by (simp add: log_writes_def)
  ultimately have "take k (commit_writes s) = (?w1 @ [(1, ?L, ?h)]) @ ?rest"
    using k by (simp only: take_append) simp
  moreover have "replay (?w1 @ [(1, ?L, ?h)]) (disk s 1) = commit_point s"
    by (simp add: commit_point_def)
  ultimately have "q = replay ?rest (commit_point s)"
    unfolding q by (metis replay_append)
  from recover_prefix [OF cp(1) this, of b] cp(2) [of b] show ?thesis by auto
qed

lemma commit_prefix:
  assumes inv: "log_inv s" "locked_blocks s = {}" and ok: "disk_ok (log_start s) (log_size s) (disk s 1)"
    and q: "q = replay (take k (commit_writes s)) (disk s 1)"
  shows "disk_ok (log_start s) (log_size s) q"
    and "b \<notin> log_area (log_start s) (log_size s) \<Longrightarrow>
      recovers (log_start s) q b = (if k \<le> nat (lh_n s) then disk s 1 b else content s b)"
proof -
  let ?L = "log_start s" and ?z = "log_size s"
  have "disk_ok ?L ?z q \<and> (b \<notin> log_area ?L ?z \<longrightarrow>
      recovers ?L q b = (if k \<le> nat (lh_n s) then disk s 1 b else content s b))" for b
  proof (cases "k \<le> nat (lh_n s)")
    case True
    with before_commit_point [OF inv ok True q] show ?thesis by auto
  next
    case k: False
    show ?thesis
    proof (cases "lh_n s = 0")
      case True
      then have "q = disk s 1" and l: "logged s = {}"
        using q by (simp_all add: commit_writes_def logged_def)
      moreover have "content s b = disk s 1 b"
        using inv l by (intro solo_coherent) (auto simp: log_inv_def)
      moreover have "recovers ?L (disk s 1) b = disk s 1 b"
        by (rule recovers_other) (simp add: log_head_on_disk [OF inv])
      ultimately show ?thesis using ok k by simp
    next
      case False
      then have "0 < lh_n s" using inv(1) by (auto simp: log_inv_def head_ok_def)
      then show ?thesis using k after_commit_point [OF inv ok _ _ q, of b] by simp
    qed
  qed
  then show "disk_ok ?L ?z q" and "b \<notin> log_area ?L ?z \<Longrightarrow>
      recovers ?L q b = (if k \<le> nat (lh_n s) then disk s 1 b else content s b)" by auto
qed

text \<open>A commit writes back what the cache has: the content outside the log does not change.\<close>

lemma commit_writes_keep:
  assumes base: "log_base s" and b: "b \<notin> log_area (log_start s) (log_size s)"
  shows "replay (commit_writes s) (content s) b = content s b"
proof (cases "lh_n s > 0")
  case True
  let ?v = "\<lambda>k. content s (lh_block s k)" and ?L = "log_start s" and ?n = "lh_n s" and ?B = "lh_block s"
  have lay: "log_layout ?L (log_size s)" and inj: "inj_on ?B {..<nat ?n}"
    using base by (auto simp: log_base_def head_ok_def)
  have ne: "b \<noteq> ?L" using b log_start_facts(1) [OF lay] by auto
  have log: "replay (log_writes ?L ?n ?v) p b = p b" for p
    using log_data_block_facts(1) [OF lay log_base_slot(1) [OF base]] b
    unfolding log_writes_def by (intro replay_map_other) blast
  have home: "replay (home_writes ?B ?n ?v) p b = content s b" if "p b = content s b" for p
  proof (cases "b \<in> logged s")
    case True
    then obtain k where k: "k < nat ?n" "b = ?B k" by (auto simp: logged_def)
    then show ?thesis using replay_map_at [OF inj k(1)] by (simp add: home_writes_def)
  next
    case False
    then have "replay (home_writes ?B ?n ?v) p b = p b"
      by (intro install_other [where n = ?n]) (auto simp: logged_def)
    with that show ?thesis by simp
  qed
  have "commit_writes s = (log_writes ?L ?n ?v @ [(1, ?L, commit_head s)])
      @ (home_writes ?B ?n ?v @ [(1, ?L, encode_head (commit_head s) 0 ?B)])"
    using True by (simp add: commit_writes_def)
  then show ?thesis
    using ne log home by (simp only: replay_append [of "_ @ _"] replay_snoc) simp
qed (simp add: commit_writes_def)

section \<open>Blocks inside a transaction\<close>

text \<open>Everything but the cache, the disk and the list of logged blocks is the same.\<close>

definition same_outer :: "'a log_st_scheme \<Rightarrow> 'a log_st_scheme \<Rightarrow> bool" where
  "same_outer s t \<longleftrightarrow>
     t = s\<lparr>bufs := bufs t, lru := lru t, ide_regs := ide_regs t, disk := disk t, wtrace := wtrace t,
           lh_n := lh_n t, lh_block := lh_block t\<rparr>"

lemma same_outer_refl: "same_outer s s"
  by (cases s) (simp add: same_outer_def)

lemma same_outer_trans: "same_outer s t \<Longrightarrow> same_outer t u \<Longrightarrow> same_outer s u"
  by (cases s, cases t, cases u) (simp add: same_outer_def)

lemma same_rest_outer: "same_rest s t \<Longrightarrow> same_outer s t"
  by (cases s, cases t) (simp add: same_outer_def same_rest_def)

lemma same_outer_log:
  assumes "same_outer s t"
  shows "log_start t = log_start s" and "log_size t = log_size s"
    and "log_outstanding t = log_outstanding s" and "log_committing t = log_committing s"
    and "log_dev t = log_dev s" and "mypid t = mypid s" and "log_st.more t = log_st.more s"
  using assms unfolding same_outer_def
  by (auto dest: arg_cong [where f = log_start] arg_cong [where f = log_size]
      arg_cong [where f = log_outstanding] arg_cong [where f = log_committing]
      arg_cong [where f = log_dev] arg_cong [where f = mypid] arg_cong [where f = log_st.more])

text \<open>The blocks the file system may read and change: not the log's, not the super block.\<close>

definition home_block :: "'a log_st_scheme \<Rightarrow> uint \<Rightarrow> bool" where
  "home_block s b \<longleftrightarrow> b < FSSIZE \<and> b \<noteq> 1 \<and> b \<notin> log_area (log_start s) (log_size s)"

definition in_op :: "'a log_st_scheme \<Rightarrow> bool" where
  "in_op s \<longleftrightarrow> 1 \<le> log_outstanding s"

lemma log_inv_same:
  assumes "log_inv s" and "same_rest s t" and "solo t" and "dirty_blocks t = dirty_blocks s"
    and "log_start s \<notin> locked_blocks t" and "content t (log_start s) = content s (log_start s)"
  shows "log_inv t"
  using assms by (simp add: log_inv_def logged_def same_rest_log [OF assms(2)])

lemma home_not_start: "log_inv s \<Longrightarrow> home_block s b \<Longrightarrow> b \<noteq> log_start s"
  using log_start_facts(1) by (auto simp: log_inv_def home_block_def)

lemma log_used:
  assumes "log_inv s"
  shows "card (dirty_blocks s \<union> locked_blocks s) \<le> nat (lh_n s) + card (locked_blocks s)"
proof -
  have "card (logged s) \<le> nat (lh_n s)"
    unfolding logged_def by (rule order.trans [OF card_image_le]) auto
  with card_Un_le [of "dirty_blocks s" "locked_blocks s"] assms show ?thesis
    by (simp add: log_inv_def)
qed

lemma log_bread:
  assumes inv: "log_inv s" and b: "home_block s b" and nl: "b \<notin> locked_blocks s"
    and room: "nat (lh_n s) + card (locked_blocks s) < NBUF"
  shows "\<exists>i t. bread ROOTDEV b s = Inr (i, t) \<and> log_inv t \<and> holds t i b
    \<and> content t = content s \<and> disk t 1 = disk s 1
    \<and> locked_blocks t = insert b (locked_blocks s) \<and> dirty_blocks t = dirty_blocks s \<and> lh_n t = lh_n s
    \<and> same_outer s t \<and> (\<forall>j c. holds s j c \<longrightarrow> holds t j c)"
proof -
  have "solo s" and "b < FSSIZE"
    and "b \<in> dirty_blocks s \<or> card (dirty_blocks s \<union> locked_blocks s) < NBUF"
    using inv b log_used [OF inv] room by (auto simp: log_inv_def home_block_def)
  from solo_bread [OF this(1,2) nl this(3)] obtain i t where
    t: "bread ROOTDEV b s = Inr (i, t)" "solo t" "holds t i b" "content t = content s" "disk t = disk s"
      "locked_blocks t = insert b (locked_blocks s)" "dirty_blocks t = dirty_blocks s" "same_rest s t"
      "\<forall>j c. holds s j c \<longrightarrow> holds t j c" by blast
  have "log_inv t"
    by (rule log_inv_same [OF inv t(8,2,7)])
      (use home_not_start [OF inv b] inv t(4,6) in \<open>auto simp: log_inv_def\<close>)
  with t same_rest_outer [OF t(8)] same_rest_log(6) [OF t(8)] show ?thesis by auto
qed

lemma held_locked: "holds s i b \<Longrightarrow> b \<in> locked_blocks s"
  by (auto simp: holds_def locked_blocks_def holdingsleep_def intro: blocks_withI)

lemma log_set_data:
  assumes "log_inv s" and "holds s i b"
  shows "log_inv (set_data i d s)"
proof -
  have so: "solo s" using assms(1) by (simp add: log_inv_def)
  note p = solo_set_data [OF so assms(2), of d]
  have "b \<noteq> log_start s" using held_locked [OF assms(2)] assms(1) by (auto simp: log_inv_def)
  then show ?thesis
    using assms(1) p by (intro log_inv_same [OF assms(1) p(7,1)]) (auto simp: log_inv_def)
qed

lemma log_brelse:
  assumes inv: "log_inv s" and h: "holds s i b" and "b \<in> dirty_blocks s \<or> content s b = disk s 1 b"
  shows "\<exists>t. brelse i s = Inr t \<and> log_inv t \<and> content t = content s \<and> disk t 1 = disk s 1
    \<and> locked_blocks t = locked_blocks s - {b} \<and> dirty_blocks t = dirty_blocks s \<and> lh_n t = lh_n s
    \<and> same_outer s t \<and> (\<forall>j c. c \<noteq> b \<longrightarrow> holds s j c \<longrightarrow> holds t j c)"
proof -
  have so: "solo s" using inv by (simp add: log_inv_def)
  from solo_brelse [OF so assms(2,3)] obtain t where t: "brelse i s = Inr t" "solo t"
    "content t = content s" "disk t = disk s" "locked_blocks t = locked_blocks s - {b}"
    "dirty_blocks t = dirty_blocks s" "same_rest s t" "\<forall>j c. c \<noteq> b \<longrightarrow> holds s j c \<longrightarrow> holds t j c"
    by blast
  have "log_inv t"
    by (rule log_inv_same [OF inv t(7,2,6)]) (use inv t(3,5) in \<open>auto simp: log_inv_def\<close>)
  with t same_rest_outer [OF t(7)] same_rest_log(6) [OF t(7)] show ?thesis by auto
qed

lemma log_slot_cases:
  assumes "0 \<le> lh_n s"
  obtains (old) k where "log_slot b s = k" "k < nat (lh_n s)" "lh_block s k = b"
  | (new) "log_slot b s = nat (lh_n s)" "b \<notin> logged s"
proof (cases "find (\<lambda>i. lh_block s i = b) [0..<nat (lh_n s)]")
  case None
  then have "b \<notin> logged s" by (auto simp: find_upt_None_iff logged_def)
  with None show thesis by (intro new) (simp_all add: log_slot_def)
next
  case (Some k)
  then have "k < nat (lh_n s)" "lh_block s k = b" by (simp_all add: find_upt_Some_iff)
  with Some show thesis by (intro old [of k]) (simp_all add: log_slot_def)
qed

text \<open>What \<^verbatim>\<open>log_write\<close> does to the list of logged blocks.\<close>

definition add_logged :: "uint \<Rightarrow> 'a log_st_scheme \<Rightarrow> 'a log_st_scheme" where
  "add_logged b s = (if b \<in> logged s then s
     else s\<lparr>lh_block := (lh_block s)(nat (lh_n s) := b), lh_n := lh_n s + 1\<rparr>)"

lemma log_write_eq:
  assumes "0 \<le> lh_n s" and "1 \<le> log_outstanding s" and "lh_n s < log_size s - 1" and "lh_n s < LOGSIZE"
    and "b_blockno (bufs s i) = b"
  shows "log_write i s = Inr (mark_dirty i (add_logged b s))"
  using assms(1)
proof (cases rule: log_slot_cases [where b = b])
  case (old k)
  then have "(lh_block s)(k := b) = lh_block s" by auto
  then have "s\<lparr>lh_block := (lh_block s)(k := b)\<rparr> = s" by (cases s) simp
  moreover have "b \<in> logged s" unfolding logged_def by (rule image_eqI [of _ _ k]) (use old in auto)
  ultimately show ?thesis using old assms by (simp add: log_write_def Let_def add_logged_def)
next
  case new
  then show ?thesis
    using assms by (simp add: log_write_def Let_def add_logged_def)
qed

lemma add_logged_same:
  "solo (add_logged b s) = solo s" "content (add_logged b s) = content s"
  "dirty_blocks (add_logged b s) = dirty_blocks s" "locked_blocks (add_logged b s) = locked_blocks s"
  "disk (add_logged b s) = disk s" "holds (add_logged b s) = holds s" "same_outer s (add_logged b s)"
proof -
  show "content (add_logged b s) = content s"
    by (rule ext, rule content_cong) (simp_all add: add_logged_def)
  show "same_outer s (add_logged b s)" by (cases s) (simp add: add_logged_def same_outer_def)
qed (simp_all add: add_logged_def solo_def bio_inv_def dirty_blocks_def locked_blocks_def
    holds_def fun_eq_iff)

lemma add_logged_ok:
  assumes "head_ok (log_start s) (log_size s) (lh_n s) (lh_block s)" and "lh_n s < log_size s - 1"
    and "home_block s b"
  shows "head_ok (log_start s) (log_size s) (lh_n (add_logged b s)) (lh_block (add_logged b s))"
    and "logged (add_logged b s) = insert b (logged s)"
    and "0 \<le> lh_n (add_logged b s) \<and> lh_n (add_logged b s) \<le> lh_n s + 1"
proof -
  have n: "0 \<le> lh_n s" using assms(1) by (simp add: head_ok_def)
  then have suc: "nat (lh_n s + 1) = Suc (nat (lh_n s))" by simp
  show "logged (add_logged b s) = insert b (logged s)"
  proof (cases "b \<in> logged s")
    case False
    have "(lh_block s)(nat (lh_n s) := b) ` {..<nat (lh_n s)} = lh_block s ` {..<nat (lh_n s)}"
      by (rule image_cong) auto
    then have "(lh_block s)(nat (lh_n s) := b) ` {..<Suc (nat (lh_n s))} = insert b (logged s)"
      by (simp only: lessThan_Suc image_insert logged_def fun_upd_same)
    moreover have "lh_block (add_logged b s) = (lh_block s)(nat (lh_n s) := b)"
      "lh_n (add_logged b s) = lh_n s + 1" using False by (simp_all add: add_logged_def)
    ultimately show ?thesis by (simp only: logged_def [of "add_logged b s"] suc)
  qed (simp add: add_logged_def insert_absorb)
  show "0 \<le> lh_n (add_logged b s) \<and> lh_n (add_logged b s) \<le> lh_n s + 1"
    using n by (simp add: add_logged_def)
  show "head_ok (log_start s) (log_size s) (lh_n (add_logged b s)) (lh_block (add_logged b s))"
  proof (cases "b \<in> logged s")
    case True
    then show ?thesis using assms(1) by (simp add: add_logged_def)
  next
    case False
    then have "inj_on ((lh_block s)(nat (lh_n s) := b)) {..<Suc (nat (lh_n s))}"
      using assms(1) by (auto simp: head_ok_def logged_def inj_on_def less_Suc_eq)
    with False assms show ?thesis
      by (auto simp: add_logged_def head_ok_def suc home_block_def less_Suc_eq)
  qed
qed

lemma log_write_ok:
  assumes inv: "log_inv s" and h: "holds s i b" and op: "in_op s" and hb: "home_block s b"
    and room: "nat (lh_n s) < nat (log_size s - 1)"
  shows "\<exists>t. log_write i s = Inr t \<and> log_inv t \<and> content t = content s \<and> disk t 1 = disk s 1
    \<and> locked_blocks t = locked_blocks s \<and> dirty_blocks t = insert b (dirty_blocks s)
    \<and> nat (lh_n t) \<le> nat (lh_n s) + 1 \<and> same_outer s t \<and> (\<forall>j c. holds s j c \<longrightarrow> holds t j c)"
proof -
  have lay: "log_layout (log_start s) (log_size s)"
    and ho: "head_ok (log_start s) (log_size s) (lh_n s) (lh_block s)"
    using inv by (auto simp: log_inv_def)
  have lt: "lh_n s < log_size s - 1" "lh_n s < LOGSIZE" "0 \<le> lh_n s"
    using room lay ho by (auto simp: log_layout_def head_ok_def)
  let ?a = "add_logged b s"
  have so: "solo ?a" and ha: "holds ?a i b" using inv h by (simp_all add: add_logged_same log_inv_def)
  have bno: "b_blockno (bufs s i) = b" using h by (simp add: holds_def names_def)
  note m = solo_mark_dirty [OF so ha] mark_dirty_content [of i ?a] mark_dirty_holds [of i ?a]
  note al = add_logged_ok [OF ho lt(1) hb]
  have fields: "log_start ?a = log_start s" "log_size ?a = log_size s" "log_dev ?a = log_dev s"
    by (simp_all add: add_logged_def)
  have "log_write i s = Inr (mark_dirty i ?a)"
    by (rule log_write_eq [OF lt(3) _ lt(1,2) bno]) (use op in \<open>simp add: in_op_def\<close>)
  moreover have "log_inv (mark_dirty i ?a)"
    using inv m al(1,2) by (simp add: log_inv_def logged_def same_rest_log [OF m(6)] fields add_logged_same)
  moreover have "same_outer s (mark_dirty i ?a)"
    by (rule same_outer_trans [OF add_logged_same(7) same_rest_outer [OF m(6)]])
  ultimately show ?thesis
    using m al(3) same_rest_log(6) [OF m(6)] by (auto simp: add_logged_same)
qed

text \<open>
  The interface that \<^verbatim>\<open>fs.c\<close> uses inside a transaction: \<^verbatim>\<open>bread\<close>, changes to the data,
  \<^verbatim>\<open>log_write\<close> and \<^verbatim>\<open>brelse\<close>.
\<close>

locale txn_blocks =
  fixes inv :: "'s \<Rightarrow> bool"
    and cont :: "'s \<Rightarrow> uint \<Rightarrow> bytes"
    and platter :: "'s \<Rightarrow> uint \<Rightarrow> bytes"
    and locked :: "'s \<Rightarrow> uint set"
    and changed :: "'s \<Rightarrow> uint set"
    and held :: "'s \<Rightarrow> nat \<Rightarrow> uint \<Rightarrow> bool"
    and frame :: "'s \<Rightarrow> 's \<Rightarrow> bool"
    and get :: "'s \<Rightarrow> nat \<Rightarrow> bytes"
    and count :: "'s \<Rightarrow> nat"
    and cap :: "'s \<Rightarrow> nat"
    and home :: "'s \<Rightarrow> uint \<Rightarrow> bool"
    and inside :: "'s \<Rightarrow> bool"
    and rd :: "uint \<Rightarrow> 's \<Rightarrow> (nat \<times> 's) res"
    and put :: "nat \<Rightarrow> bytes \<Rightarrow> 's \<Rightarrow> 's"
    and lw :: "nat \<Rightarrow> 's \<Rightarrow> 's res"
    and rel :: "nat \<Rightarrow> 's \<Rightarrow> 's res"
  assumes frame_trans: "frame s t \<Longrightarrow> frame t u \<Longrightarrow> frame s u"
    and frame_op: "frame s t \<Longrightarrow> cap t = cap s \<and> home t = home s \<and> inside t = inside s"
    and coherent: "inv s \<Longrightarrow> b \<notin> changed s \<Longrightarrow> b \<notin> locked s \<Longrightarrow> cont s b = platter s b"
    and get_held: "inv s \<Longrightarrow> held s i b \<Longrightarrow> get s i = cont s b"
    and rd_law: "inv s \<Longrightarrow> home s b \<Longrightarrow> b \<notin> locked s \<Longrightarrow> count s + card (locked s) < NBUF \<Longrightarrow>
      \<exists>i t. rd b s = Inr (i, t) \<and> inv t \<and> held t i b \<and> cont t = cont s \<and> platter t = platter s
        \<and> locked t = insert b (locked s) \<and> changed t = changed s \<and> count t = count s
        \<and> frame s t \<and> (\<forall>j c. held s j c \<longrightarrow> held t j c)"
    and put_law: "inv s \<Longrightarrow> held s i b \<Longrightarrow>
        inv (put i d s) \<and> cont (put i d s) = (cont s)(b := d) \<and> platter (put i d s) = platter s
        \<and> locked (put i d s) = locked s \<and> changed (put i d s) = changed s \<and> count (put i d s) = count s
        \<and> frame s (put i d s) \<and> (\<forall>j c. held s j c \<longrightarrow> held (put i d s) j c)"
    and lw_law: "inv s \<Longrightarrow> held s i b \<Longrightarrow> inside s \<Longrightarrow> home s b \<Longrightarrow> count s < cap s \<Longrightarrow>
      \<exists>t. lw i s = Inr t \<and> inv t \<and> cont t = cont s \<and> platter t = platter s
        \<and> locked t = locked s \<and> changed t = insert b (changed s) \<and> count t \<le> count s + 1
        \<and> frame s t \<and> (\<forall>j c. held s j c \<longrightarrow> held t j c)"
    and rel_law: "inv s \<Longrightarrow> held s i b \<Longrightarrow> b \<in> changed s \<or> cont s b = platter s b \<Longrightarrow>
      \<exists>t. rel i s = Inr t \<and> inv t \<and> cont t = cont s \<and> platter t = platter s
        \<and> locked t = locked s - {b} \<and> changed t = changed s \<and> count t = count s
        \<and> frame s t \<and> (\<forall>j c. c \<noteq> b \<longrightarrow> held s j c \<longrightarrow> held t j c)"
begin

text \<open>Look at a block.\<close>

lemma look:
  assumes "inv s" and "home s b" and "b \<notin> locked s" and "count s + card (locked s) < NBUF"
  shows "\<exists>i t u. rd b s = Inr (i, t) \<and> get t i = cont s b \<and> frame s t \<and> rel i t = Inr u
    \<and> inv u \<and> cont u = cont s \<and> platter u = platter s \<and> locked u = locked s \<and> changed u = changed s
    \<and> count u = count s \<and> frame s u \<and> (\<forall>j c. c \<noteq> b \<longrightarrow> held s j c \<longrightarrow> held u j c)"
proof -
  from rd_law [OF assms] obtain i t where t: "rd b s = Inr (i, t)" "inv t" "held t i b"
    "cont t = cont s" "platter t = platter s" "locked t = insert b (locked s)"
    "changed t = changed s" "count t = count s" "frame s t" "\<forall>j c. held s j c \<longrightarrow> held t j c" by blast
  have "b \<in> changed t \<or> cont t b = platter t b"
    using coherent [OF assms(1) _ assms(3)] t by auto
  from rel_law [OF t(2,3) this] obtain u where u: "rel i t = Inr u" "inv u" "cont u = cont t"
    "platter u = platter t" "locked u = locked t - {b}" "changed u = changed t" "count u = count t"
    "frame t u" "\<forall>j c. c \<noteq> b \<longrightarrow> held t j c \<longrightarrow> held u j c" by blast
  from frame_trans [OF t(9) u(8)] have "frame s u" .
  moreover have "get t i = cont s b" using get_held [OF t(2,3)] t(4) by simp
  ultimately show ?thesis using t u assms(3) by auto
qed

text \<open>Change a held block and log it.\<close>

lemma change_held:
  assumes "inv s" and "held s i b" and "inside s" and "home s b" and "count s < cap s"
  shows "\<exists>t. lw i (put i d s) = Inr t \<and> inv t \<and> cont t = (cont s)(b := d) \<and> platter t = platter s
    \<and> locked t = locked s \<and> changed t = insert b (changed s) \<and> count t \<le> count s + 1
    \<and> frame s t \<and> (\<forall>j c. held s j c \<longrightarrow> held t j c)"
proof -
  note p = put_law [OF assms(1,2), of d]
  then have f: "frame s (put i d s)" and "inv (put i d s)" and "held (put i d s) i b"
    using assms(2) by blast+
  from lw_law [OF this(2,3)] frame_op [OF f] p assms(3-5) obtain t where
    t: "lw i (put i d s) = Inr t" "inv t" "cont t = (cont s)(b := d)" "platter t = platter s"
      "locked t = locked s" "changed t = insert b (changed s)" "count t \<le> count s + 1"
      "frame (put i d s) t" "\<forall>j c. held (put i d s) j c \<longrightarrow> held t j c"
    by auto
  from frame_trans [OF f t(8)] have "frame s t" .
  with t p show ?thesis by blast
qed

text \<open>Fetch a block, change it, log it and give it back.\<close>

lemma change:
  assumes "inv s" and "home s b" and "b \<notin> locked s" and "count s + card (locked s) < NBUF"
    and "inside s" and "count s < cap s"
  shows "\<exists>i t u v. rd b s = Inr (i, t) \<and> get t i = cont s b \<and> frame s t
    \<and> lw i (put i d t) = Inr u \<and> rel i u = Inr v
    \<and> inv v \<and> cont v = (cont s)(b := d) \<and> platter v = platter s
    \<and> locked v = locked s \<and> changed v = insert b (changed s) \<and> count v \<le> count s + 1 \<and> frame s v
    \<and> (\<forall>j c. c \<noteq> b \<longrightarrow> held s j c \<longrightarrow> held v j c)"
proof -
  from rd_law [OF assms(1-4)] obtain i t where t: "rd b s = Inr (i, t)" "inv t" "held t i b"
    "cont t = cont s" "platter t = platter s" "locked t = insert b (locked s)"
    "changed t = changed s" "count t = count s" "frame s t" "\<forall>j c. held s j c \<longrightarrow> held t j c" by blast
  from change_held [OF t(2,3), of d] frame_op [OF t(9)] t assms(2,5,6) obtain u where
    u: "lw i (put i d t) = Inr u" "inv u" "cont u = (cont s)(b := d)" "platter u = platter s"
      "locked u = insert b (locked s)" "changed u = insert b (changed s)" "count u \<le> count s + 1"
      "frame t u" "\<forall>j c. held t j c \<longrightarrow> held u j c"
    by auto
  have "held u i b" using u(9) t(3) by blast
  with rel_law [OF u(2)] u(6) obtain v where v: "rel i u = Inr v" "inv v" "cont v = cont u"
    "platter v = platter u" "locked v = locked u - {b}" "changed v = changed u" "count v = count u"
    "frame u v" "\<forall>j c. c \<noteq> b \<longrightarrow> held u j c \<longrightarrow> held v j c" by blast
  from frame_trans [OF frame_trans [OF t(9) u(8)] v(8)] have "frame s v" .
  moreover have "get t i = cont s b" using get_held [OF t(2,3)] t(4) by simp
  ultimately show ?thesis using t u v assms(3) by auto
qed

end

lemma same_outer_op:
  "same_outer s t \<Longrightarrow> nat (log_size t - 1) = nat (log_size s - 1) \<and> home_block t = home_block s
    \<and> in_op t = in_op s"
  by (simp add: home_block_def in_op_def fun_eq_iff same_outer_log [of s t])

interpretation txn: txn_blocks log_inv content "\<lambda>s. disk s 1" locked_blocks dirty_blocks holds same_outer
  "\<lambda>s i. b_data (bufs s i)" "\<lambda>s. nat (lh_n s)" "\<lambda>s. nat (log_size s - 1)" home_block in_op
  "bread ROOTDEV" set_data log_write brelse
proof (unfold_locales, goal_cases)
  case (1 s t u)
  then show ?case by (rule same_outer_trans)
next
  case (2 s t)
  then show ?case by (rule same_outer_op)
next
  case (3 s b)
  then show ?case by (auto simp: log_inv_def intro: solo_coherent)
next
  case (4 s i b)
  then show ?case by (auto simp: log_inv_def solo_bio_inv content_holds)
next
  case (5 s b)
  then show ?case using log_bread [of s b] by fastforce
next
  case (6 s i b d)
  then have so: "solo s" by (simp add: log_inv_def)
  note p = solo_set_data [OF so 6(2), of d]
  from p log_set_data [OF 6] same_rest_outer [OF p(7)] same_rest_log(6) [OF p(7)] show ?case
    by (simp add: set_data_holds)
next
  case (7 s i b)
  then show ?case using log_write_ok [of s i b] by fastforce
next
  case (8 s i b)
  then show ?case using log_brelse [of s i b] by fastforce
qed

section \<open>Using the log outside its rules\<close>

text \<open>Asking for a block whose buffer is locked goes to sleep.\<close>

lemma bread_locked:
  assumes "bio_inv s" and "b \<in> locked_blocks s"
  shows "bread ROOTDEV b s = Inl (Sleeps ''sleeplock'')"
proof -
  from assms(2) obtain i where i: "i < NBUF" "names b (bufs s i)" "sl_locked (b_lock (bufs s i))"
    by (auto simp: locked_blocks_def blocks_with_def)
  let ?P = "\<lambda>i. b_dev (bufs s i) = ROOTDEV \<and> b_blockno (bufs s i) = b"
  have set: "set (lru s) = {..<NBUF}" using assms(1) by (simp add: bio_inv_def)
  obtain j where j: "find ?P (lru s) = Some j"
    using i(1,2) set by (cases "find ?P (lru s)") (auto simp: names_def dest: find_NoneD)
  then have "names b (bufs s j)" and "j < NBUF"
    using find_SomeD [OF j] set by (auto simp: names_def)
  then have "j = i" using assms(1) i by (auto dest: bio_unique)
  with j i(3) show ?thesis
    by (simp add: bread_def bget_def lock_buf_def acquiresleep_def upd_buf_def)
qed

lemma write_one_locked:
  assumes "solo s" and "log_dev s = ROOTDEV" and "log_start s + of_nat k + 1 < FSSIZE"
    and "log_start s + of_nat k + 1 \<notin> locked_blocks s" and "lh_block s k \<in> locked_blocks s"
    and "card (dirty_blocks s \<union> locked_blocks s) < NBUF"
  shows "write_one k s = Inl (Sleeps ''sleeplock'')"
proof -
  from solo_bread [OF assms(1,3,4)] assms(6) obtain i t where
    t: "bread ROOTDEV (log_start s + of_nat k + 1) s = Inr (i, t)" "solo t"
      "locked_blocks t = insert (log_start s + of_nat k + 1) (locked_blocks s)" "same_rest s t" by blast
  have "bread ROOTDEV (lh_block s k) t = Inl (Sleeps ''sleeplock'')"
    by (rule bread_locked [OF solo_bio_inv [OF t(2)]]) (use assms(5) t(3) in simp)
  then show ?thesis by (simp add: write_one_def assms(2) t(1) same_rest_log [OF t(4)])
qed

lemma op_fields [simp]:
  "solo (s\<lparr>log_outstanding := n\<rparr>) = solo s" "solo (s\<lparr>log_committing := c\<rparr>) = solo s"
  "locked_blocks (s\<lparr>log_outstanding := n\<rparr>) = locked_blocks s"
  "locked_blocks (s\<lparr>log_committing := c\<rparr>) = locked_blocks s"
  "dirty_blocks (s\<lparr>log_outstanding := n\<rparr>) = dirty_blocks s"
  "dirty_blocks (s\<lparr>log_committing := c\<rparr>) = dirty_blocks s"
  "holds (s\<lparr>log_outstanding := n\<rparr>) = holds s" "logged (s\<lparr>log_outstanding := n\<rparr>) = logged s"
  by (simp_all add: solo_def bio_inv_def locked_blocks_def dirty_blocks_def holds_def logged_def fun_eq_iff)

section \<open>A sample state\<close>

text \<open>
  A disk laid out as \<^verbatim>\<open>mkfs\<close> does (10000 blocks, 200 inodes, a log of 60 blocks from block 2,
  inodes from block 62, free map from block 91), and a cache in which block 100 has been changed
  and logged.
\<close>

definition demo_sb :: bytes where
  "demo_sb = (\<lambda>_. 0)(0 := 0x10, 1 := 0x27, 8 := 200, 12 := 60, 16 := 2, 20 := 62, 24 := 91)"

definition demo_disk :: "uint \<Rightarrow> uint \<Rightarrow> bytes" where
  "demo_disk = (\<lambda>dr b. if dr = 1 \<and> b = 1 then demo_sb else (\<lambda>_. 0))"

definition demo_log :: log_st where
  "demo_log =
     \<lparr>mypid = 1, spins = 0, bufs = (\<lambda>_. zero_buf)(0 := zero_buf\<lparr>b_valid := True, b_dirty := True,
        b_dev := 1, b_blockno := 100, b_data := (\<lambda>_. 7)\<rparr>), idequeue = [], havedisk1 = True,
      ide_stat = 0x40, ide_regs = \<lparr>r_count = 0, r_lba0 = 0, r_lba1 = 0, r_lba2 = 0, r_dev = 0\<rparr>,
      disk = demo_disk, wtrace = [], lru = [0..<NBUF], log_start = 2, log_size = 60,
      log_outstanding = 0, log_committing = False, log_dev = 1, lh_n = 1, lh_block = (\<lambda>_. 100)\<rparr>"

definition demo_boot :: "(uint \<Rightarrow> bytes) \<Rightarrow> log_st" where
  "demo_boot p = demo_log\<lparr>bufs := (\<lambda>_. zero_buf), lru := [], disk := (\<lambda>_. p), lh_n := 0\<rparr>"

lemma rd32_zero [simp]: "rd32 (\<lambda>_. 0) n = 0"
  by (simp add: rd32_def)

lemma head_n_zero [simp]: "head_n (\<lambda>_. 0) = 0"
  by (simp add: head_n_def)

lemma demo_disk_ok: "disk_ok 2 60 (demo_disk 1)"
  by (simp add: disk_ok_def demo_disk_def demo_sb_def decode_sb_def log_layout_def head_ok_def rd32_def)

lemma demo_boot_ok: "boot_bio (demo_boot p)" "disk (demo_boot p) 1 = p"
  by (simp_all add: demo_boot_def demo_log_def boot_bio_def drive_ready_def)

lemma demo_content: "content demo_log 100 = (\<lambda>_. 7)" "content demo_log 2 = (\<lambda>_. 0)"
proof -
  have "content demo_log 100 = b_data (bufs demo_log 0)"
    by (rule content_eqI) (auto simp: demo_log_def names_def zero_buf_def split: if_splits)
  then show "content demo_log 100 = (\<lambda>_. 7)" by (simp add: demo_log_def)
  have "content demo_log 2 = disk demo_log 1 2"
    by (rule content_uncached) (auto simp: demo_log_def names_def zero_buf_def split: if_splits)
  then show "content demo_log 2 = (\<lambda>_. 0)" by (simp add: demo_log_def demo_disk_def)
qed

lemma demo_blocks: "dirty_blocks demo_log = {100}" "locked_blocks demo_log = {}"
  by (auto simp: dirty_blocks_def locked_blocks_def blocks_with_def demo_log_def names_def zero_buf_def
      initsleeplock_def split: if_splits)

lemma demo_solo: "solo demo_log"
proof -
  have "one_buf_each (bufs demo_log)"
    by (auto simp: one_buf_each_def demo_log_def zero_buf_def)
  moreover have "buf_ok d (bufs demo_log i)" for d i
    by (simp add: buf_ok_def demo_log_def zero_buf_def initsleeplock_def)
  moreover have "set [0..<NBUF] = {..<NBUF}" by (simp add: atLeast0LessThan)
  moreover have "lru demo_log = [0..<NBUF]" by (simp add: demo_log_def)
  ultimately show ?thesis
    by (simp add: solo_def bio_inv_def)
      (simp add: demo_log_def zero_buf_def initsleeplock_def drive_ready_def)
qed

lemma demo_log_inv: "log_inv demo_log"
proof -
  have "log_start demo_log = 2" "log_size demo_log = 60" "lh_n demo_log = 1" "lh_block demo_log = (\<lambda>_. 100)"
    "log_dev demo_log = 1" by (simp_all add: demo_log_def)
  then show ?thesis
    using demo_solo demo_blocks demo_content(2)
    by (simp add: log_inv_def log_layout_def head_ok_def log_area_def logged_def inj_on_def lessThan_Suc)
qed

section \<open>Properties\<close>



text \<open>C2: Recovery can be interrupted: cut the disk writes of a recovery at any point and boot again.
  The second recovery returns, and leaves every block outside the log as the first would have.\<close>

theorem recovery_restartable:
  fixes s0 s1 :: "'a log_st_scheme"
  assumes "boot_bio s0" and "boot_bio s1" and "disk_ok start sz (disk s0 1)"
    and "initlog ROOTDEV (binit s0) = Inr u"
    and "disk s1 1 = replay (take k (drop (length (wtrace s0)) (wtrace u))) (disk s0 1)"
  shows "\<exists>v. initlog ROOTDEV (binit s1) = Inr v
    \<and> (\<forall>b. b \<notin> log_area start sz \<longrightarrow> disk v 1 b = disk u 1 b)"
proof -
  from initlog_ok [OF assms(1,3)] assms(4)
  have u: "disk u 1 = replay (recover_writes start (disk s0 1)) (disk s0 1)"
    "wtrace u = wtrace s0 @ recover_writes start (disk s0 1)" by auto
  with assms(5) have q: "disk s1 1 = replay (take k (recover_writes start (disk s0 1))) (disk s0 1)" by simp
  note pre = recover_prefix [OF assms(3) q]
  from initlog_ok [OF assms(2) pre [THEN conjunct1]] obtain v where
    v: "initlog ROOTDEV (binit s1) = Inr v" "disk v 1 = replay (recover_writes start (disk s1 1)) (disk s1 1)"
    by blast
  have "disk v 1 b = disk u 1 b" if "b \<notin> log_area start sz" for b
    using recover_complete(3) [OF assms(3) u(1) that]
      recover_complete(3) [OF pre [THEN conjunct1] v(2) that] pre that by auto
  with v(1) show ?thesis by blast
qed

theorem recovery_restartable_witness:
  "\<exists>u v. initlog ROOTDEV (binit (demo_boot (demo_disk 1))) = Inr u
    \<and> initlog ROOTDEV (binit (demo_boot (replay (take 0 (wtrace u)) (demo_disk 1)))) = Inr v
    \<and> disk v 1 100 = disk u 1 100"
proof -
  have w: "wtrace (demo_boot p) = []" for p by (simp add: demo_boot_def demo_log_def)
  have d: "disk_ok 2 60 (disk (demo_boot (demo_disk 1)) 1)" using demo_disk_ok demo_boot_ok(2) by simp
  from initlog_ok [OF demo_boot_ok(1) d] obtain u where u: "initlog ROOTDEV (binit (demo_boot (demo_disk 1))) = Inr u"
    by blast
  have area: "(100 :: uint) \<notin> log_area 2 60" by (simp add: log_area_def)
  from recovery_restartable [OF demo_boot_ok(1) demo_boot_ok(1) d u, of _ 0] area u show ?thesis
    by (fastforce simp: demo_boot_ok(2) w)
qed



text \<open>C38: \<^verbatim>\<open>log_write\<close> outside a transaction deadlocks. It opens an operation of its own and ends it
  while the caller still holds the buffer; ending it commits, and the commit waits for the lock of
  that same buffer.\<close>

theorem log_write_outside_op_deadlocks:
  assumes "log_inv s" and "holds s i b" and "locked_blocks s = {b}" and "home_block s b"
    and "log_outstanding s = 0" and "\<not> log_committing s" and "lh_n s = 0" and "3 \<le> log_size s"
  shows "log_write i s = Inl (Sleeps ''sleeplock'')"
proof -
  have so: "solo s" and dev: "log_dev s = ROOTDEV" and lay: "log_layout (log_start s) (log_size s)"
    and dirty: "dirty_blocks s = {}"
    using assms(1,7) by (auto simp: log_inv_def logged_def)
  let ?s1 = "s\<lparr>log_outstanding := 1\<rparr>"
  let ?s2 = "mark_dirty i (add_logged b ?s1)"
  let ?s3 = "?s2\<lparr>log_outstanding := 0, log_committing := True\<rparr>"
  have bno: "b_blockno (bufs s i) = b" using assms(2) by (simp add: holds_def names_def)
  have nl: "b \<notin> logged s" using assms(7) by (simp add: logged_def)
  have a: "solo (add_logged b ?s1)" "holds (add_logged b ?s1) i b"
    using so assms(2) by (simp_all add: add_logged_same)
  note m = solo_mark_dirty [OF a]
  have f: "lh_n ?s2 = 1" "lh_block ?s2 0 = b" "log_start ?s2 = log_start s" "log_dev ?s2 = ROOTDEV"
    using nl dev assms(7) by (simp_all add: same_rest_log [OF m(6)]) (simp_all add: add_logged_def)
  have slot: "log_slot b ?s1 = 0" using assms(7) by (simp add: log_slot_def)
  have "log_write i s = end_op ?s2"
    using assms(5-8) bno slot nl by (simp add: log_write_def begin_op_def Let_def add_logged_def)
  also have "\<dots> = rbind (commit ?s3) (\<lambda>s. Inr (s\<lparr>log_committing := False\<rparr>))"
    using assms(6) nl by (simp add: end_op_def mark_dirty_def upd_buf_def add_logged_def)
  also have "commit ?s3 = Inl (Sleeps ''sleeplock'')"
  proof -
    have k: "0 + 1 < nat (log_size s)" using assms(8) by simp
    note blk = log_data_block_facts [OF lay k]
    have "log_start s + of_nat 0 + 1 \<noteq> b" using blk(1) assms(4) by (auto simp: home_block_def)
    then have "write_one 0 ?s3 = Inl (Sleeps ''sleeplock'')"
      using m f assms(3) blk(2) dirty by (intro write_one_locked) (simp_all add: add_logged_same)
    then show ?thesis using f(1) by (simp add: commit_def write_log_def)
  qed
  finally show ?thesis by simp
qed

definition demo_held :: log_st where
  "demo_held = demo_log\<lparr>bufs := (bufs demo_log)(0 := (bufs demo_log 0)\<lparr>b_dirty := False,
     b_refcnt := 1, b_lock := \<lparr>sl_locked = True, sl_pid = 1\<rparr>\<rparr>), lh_n := 0\<rparr>"

lemma demo_held_ok: "log_inv demo_held" "holds demo_held 0 100" "locked_blocks demo_held = {100}"
proof -
  have one: "one_buf_each (bufs demo_held)"
    by (auto simp: one_buf_each_def demo_held_def demo_log_def zero_buf_def)
  have ok: "buf_ok d (bufs demo_held i)" for d i
    by (simp add: buf_ok_def demo_held_def demo_log_def zero_buf_def initsleeplock_def)
  have lru: "lru demo_held = [0..<NBUF]" "set [0..<NBUF] = {..<NBUF}"
    by (simp_all add: demo_held_def demo_log_def atLeast0LessThan)
  have so: "solo demo_held"
    using one ok lru by (simp add: solo_def bio_inv_def)
      (simp add: demo_held_def demo_log_def zero_buf_def initsleeplock_def drive_ready_def)
  have "content demo_held 2 = disk demo_held 1 2"
    by (rule content_uncached) (auto simp: demo_held_def demo_log_def names_def zero_buf_def split: if_splits)
  then have c: "content demo_held 2 = (\<lambda>_. 0)" by (simp add: demo_held_def demo_log_def demo_disk_def)
  show l: "locked_blocks demo_held = {100}"
    by (auto simp: locked_blocks_def blocks_with_def demo_held_def demo_log_def names_def zero_buf_def
        initsleeplock_def split: if_splits)
  have d: "dirty_blocks demo_held = {}"
    by (auto simp: dirty_blocks_def blocks_with_def demo_held_def demo_log_def zero_buf_def split: if_splits)
  have f: "log_start demo_held = 2" "log_size demo_held = 60" "lh_n demo_held = 0" "log_dev demo_held = 1"
    by (simp_all add: demo_held_def demo_log_def)
  show "log_inv demo_held"
    using so c l d f by (simp add: log_inv_def log_layout_def head_ok_def logged_def)
  show "holds demo_held 0 100"
    by (simp add: holds_def demo_held_def demo_log_def names_def holdingsleep_def)
qed

theorem log_write_outside_op_deadlocks_witness:
  "log_write 0 demo_held = Inl (Sleeps ''sleeplock'')"
  by (rule log_write_outside_op_deadlocks [OF demo_held_ok])
    (simp_all add: home_block_def log_area_def demo_held_def demo_log_def)

end
