(* ===== verification/KBalloc.thy ===== *)
theory KBalloc
  imports KLog KTime
begin

text \<open>
  The block allocator of \<^verbatim>\<open>kernel/fs.c\<close>: \<^verbatim>\<open>bzero\<close>, \<^verbatim>\<open>balloc\<close>, \<^verbatim>\<open>bfree\<close>, over the free
  map on disk, with the state of the file system that the rest of \<^verbatim>\<open>fs.c\<close> shares.

  \<open>used\<close> reads the free map of the current transaction. The lemmas show that \<^verbatim>\<open>balloc\<close> returns the
  first free block, marked in use and zeroed, and changes nothing else; that it panics exactly when
  no block is free; and that \<^verbatim>\<open>bfree\<close> undoes it.
\<close>

section \<open>Definitions\<close>

text \<open>
  \<^verbatim>\<open>struct inode\<close>. \<open>i_addrs\<close> holds the \<^verbatim>\<open>NDIRECT + 1\<close> words of the array; \<open>i_atime\<close> and
  \<open>i_mtime\<close> follow it in memory.
\<close>

record inode =
  i_dev :: uint
  i_inum :: uint
  i_ref :: int
  i_lock :: sleeplock
  i_valid :: bool
  i_type :: ushort
  i_major :: ushort
  i_minor :: ushort
  i_nlink :: ushort
  i_size :: uint
  i_addrs :: "nat \<Rightarrow> uint"
  i_atime :: uint
  i_mtime :: uint

text \<open>
  The state of \<^verbatim>\<open>fs.c\<close>: the super block in memory, the inode cache, the time last read, and the
  clock chip with the number of reads made of it.
\<close>

record fs_st = log_st +
  fs_sb :: superblock
  icache :: "nat \<Rightarrow> inode"
  curtime :: uint
  fs_cmos :: cmos
  cmos_reads :: nat

definition fsupdtime :: "'a fs_st_scheme \<Rightarrow> 'a fs_st_scheme res" where
  "fsupdtime s =
     (case unix_uptime (fs_cmos s) (cmos_reads s) of
        None \<Rightarrow> Inl (Sleeps ''cmos'')
      | Some (Inl e, t) \<Rightarrow> Inl e
      | Some (Inr v, t) \<Rightarrow> Inr (s\<lparr>curtime := v, cmos_reads := t\<rparr>))"

definition bzero :: "uint \<Rightarrow> uint \<Rightarrow> 'a fs_st_scheme \<Rightarrow> 'a fs_st_scheme res" where
  "bzero dev bno s =
     rbind (bread dev bno s) (\<lambda>(bp, s).
     let s = set_data bp (bytes_fill (b_data (bufs s bp)) 0 BSIZE 0) s in
     rbind (log_write bp s) (\<lambda>s. brelse bp s))"

abbreviation "BPB \<equiv> 4096 :: nat"

text \<open>Bit \<open>bi\<close> of a block of the free map.\<close>

definition map_bit :: "bytes \<Rightarrow> nat \<Rightarrow> bool" where
  "map_bit d bi \<longleftrightarrow> d (bi div 8) AND push_bit (bi mod 8) 1 \<noteq> 0"

definition set_map_bit :: "nat \<Rightarrow> bytes \<Rightarrow> bytes" where
  "set_map_bit bi d = d(bi div 8 := d (bi div 8) OR push_bit (bi mod 8) 1)"

definition clear_map_bit :: "nat \<Rightarrow> bytes \<Rightarrow> bytes" where
  "clear_map_bit bi d = d(bi div 8 := d (bi div 8) AND NOT (push_bit (bi mod 8) 1))"

definition BBLOCK :: "uint \<Rightarrow> superblock \<Rightarrow> uint" where
  "BBLOCK b sb = b div 4096 + sb_bmapstart sb"

text \<open>
  \<^verbatim>\<open>balloc\<close>: the outer loop from block \<open>b\<close> on; the inner loop is the search for the first clear
  bit. \<open>sz\<close> is \<^verbatim>\<open>sb.size\<close>, which does not change.
\<close>

function balloc_from :: "uint \<Rightarrow> nat \<Rightarrow> nat \<Rightarrow> 'a fs_st_scheme \<Rightarrow> (uint \<times> 'a fs_st_scheme) res" where
  "balloc_from dev sz b s =
     (if b < sz then
        rbind (bread dev (BBLOCK (of_nat b) (fs_sb s)) s) (\<lambda>(bp, s).
        case find (\<lambda>bi. \<not> map_bit (b_data (bufs s bp)) bi) [0..<min BPB (sz - b)] of
          Some bi \<Rightarrow>
            (let s = set_data bp (set_map_bit bi (b_data (bufs s bp))) s in
             rbind (log_write bp s) (\<lambda>s.
             rbind (brelse bp s) (\<lambda>s.
             rbind (bzero dev (of_nat (b + bi)) s) (\<lambda>s.
             Inr (of_nat (b + bi), s)))))
        | None \<Rightarrow> rbind (brelse bp s) (balloc_from dev sz (b + BPB)))
      else Inl (Panic ''balloc: out of blocks''))"
  by pat_completeness auto
termination
  by (relation "measure (\<lambda>(dev, sz, b, s). sz - b)") auto

declare balloc_from.simps [simp del]

definition balloc :: "uint \<Rightarrow> 'a fs_st_scheme \<Rightarrow> (uint \<times> 'a fs_st_scheme) res" where
  "balloc dev s = balloc_from dev (unat (sb_size (fs_sb s))) 0 s"

definition bfree :: "uint \<Rightarrow> uint \<Rightarrow> 'a fs_st_scheme \<Rightarrow> 'a fs_st_scheme res" where
  "bfree dev b s =
     rbind (bread dev (BBLOCK b (fs_sb s)) s) (\<lambda>(bp, s).
     let bi = unat b mod BPB in
     if \<not> map_bit (b_data (bufs s bp)) bi then Inl (Panic ''freeing free block'')
     else
      (let s = set_data bp (clear_map_bit bi (b_data (bufs s bp))) s in
       rbind (log_write bp s) (\<lambda>s. brelse bp s)))"

section \<open>The free map\<close>

definition used :: "'a fs_st_scheme \<Rightarrow> nat \<Rightarrow> bool" where
  "used s b \<longleftrightarrow> map_bit (content s (BBLOCK (of_nat b) (fs_sb s))) (b mod BPB)"

text \<open>
  The layout: the file system fits on the disk, its free map lies outside the log, and the blocks
  that the map says are free lie behind all of this.
\<close>

definition map_layout :: "'a fs_st_scheme \<Rightarrow> bool" where
  "map_layout s \<longleftrightarrow> unat (sb_size (fs_sb s)) \<le> 10000
     \<and> (\<forall>b<unat (sb_size (fs_sb s)). home_block s (BBLOCK (of_nat b) (fs_sb s)))"

definition free_ok :: "'a fs_st_scheme \<Rightarrow> bool" where
  "free_ok s \<longleftrightarrow> (\<forall>b<unat (sb_size (fs_sb s)). \<not> used s b \<longrightarrow> home_block s (of_nat b)
     \<and> (\<forall>c<unat (sb_size (fs_sb s)). BBLOCK (of_nat c) (fs_sb s) \<noteq> of_nat b))"

definition room :: "nat \<Rightarrow> 'a log_st_scheme \<Rightarrow> bool" where
  "room k s \<longleftrightarrow> log_inv s \<and> in_op s \<and> nat (lh_n s) + k \<le> nat (log_size s - 1)
     \<and> nat (lh_n s) + card (locked_blocks s) + k \<le> NBUF"

section \<open>Lemmas\<close>

lemma map_bit_bit: "map_bit d bi \<longleftrightarrow> bit (d (bi div 8)) (bi mod 8)"
  by (simp add: map_bit_def and_exp_eq_0_iff_not_bit)

lemma map_bit_set: "map_bit (set_map_bit bi d) j \<longleftrightarrow> j = bi \<or> map_bit d j"
proof -
  have "j = bi \<longleftrightarrow> j div 8 = bi div 8 \<and> j mod 8 = bi mod 8"
    by (metis mult_div_mod_eq)
  then show ?thesis
    by (auto simp: map_bit_bit set_map_bit_def bit_or_iff bit_exp_iff possible_bit_def)
qed

lemma map_bit_clear: "map_bit (clear_map_bit bi d) j \<longleftrightarrow> j \<noteq> bi \<and> map_bit d j"
proof -
  have "j = bi \<longleftrightarrow> j div 8 = bi div 8 \<and> j mod 8 = bi mod 8"
    by (metis mult_div_mod_eq)
  then show ?thesis
    by (auto simp: map_bit_bit clear_map_bit_def bit_and_iff bit_not_iff bit_exp_iff possible_bit_def)
qed

subsection \<open>Operations inside a transaction\<close>

text \<open>
  What every operation of \<^verbatim>\<open>fs.c\<close> on blocks keeps: the invariant of the log, the buffers that
  the caller holds, the blocks on disk and all state outside the cache; it logs at most \<open>k\<close> more
  blocks.
\<close>

definition did :: "nat \<Rightarrow> 'a log_st_scheme \<Rightarrow> 'a log_st_scheme \<Rightarrow> bool" where
  "did k s t \<longleftrightarrow> log_inv t \<and> locked_blocks t = locked_blocks s \<and> nat (lh_n t) \<le> nat (lh_n s) + k
     \<and> disk t 1 = disk s 1 \<and> dirty_blocks s \<subseteq> dirty_blocks t \<and> same_outer s t
     \<and> (\<forall>j c. holds s j c \<longrightarrow> holds t j c)"

text \<open>The blocks that were logged.\<close>

definition logs :: "uint set \<Rightarrow> 'a log_st_scheme \<Rightarrow> 'a log_st_scheme \<Rightarrow> bool" where
  "logs X s t \<longleftrightarrow> dirty_blocks t = X \<union> dirty_blocks s"

lemma logs_trans: "logs X s t \<Longrightarrow> logs Y t u \<Longrightarrow> logs (Y \<union> X) s u"
  by (simp add: logs_def Un_assoc)

lemma did_refl: "log_inv s \<Longrightarrow> did k s s"
  by (simp add: did_def same_outer_refl)

lemma did_trans: "did k s t \<Longrightarrow> did m t u \<Longrightarrow> did (k + m) s u"
  by (auto simp: did_def intro: same_outer_trans)

lemma did0_trans: "did 0 s t \<Longrightarrow> did k t u \<Longrightarrow> did k s u"
  using did_trans [of 0 s t k u] by simp

lemma did_mono: "did k s t \<Longrightarrow> k \<le> m \<Longrightarrow> did m s t"
  by (auto simp: did_def)

lemma did_outer: "did k s t \<Longrightarrow> same_outer s t"
  by (simp add: did_def)

lemma did_inv: "did k s t \<Longrightarrow> log_inv t"
  by (simp add: did_def)

lemma did_locked: "did k s t \<Longrightarrow> locked_blocks t = locked_blocks s"
  by (simp add: did_def)

lemma did_room: "room (k + m) s \<Longrightarrow> did k s t \<Longrightarrow> room m t"
  by (auto simp: room_def did_def in_op_def same_outer_log [of s t])

lemma did_room0: "room m s \<Longrightarrow> did 0 s t \<Longrightarrow> room m t"
  using did_room [of 0 m s t] by simp

lemma did_home: "did k s t \<Longrightarrow> home_block t = home_block s"
  using same_outer_op [OF did_outer] by blast

lemma room_mono: "room k s \<Longrightarrow> m \<le> k \<Longrightarrow> room m s"
  by (auto simp: room_def)

lemma held_not: "b \<notin> locked_blocks s \<Longrightarrow> holds s j c \<Longrightarrow> c \<noteq> b"
  using held_locked by blast

lemma look_did:
  assumes "room 1 s" and "home_block s b" and "b \<notin> locked_blocks s"
  obtains i t u where "bread ROOTDEV b s = Inr (i, t)" and "b_data (bufs t i) = content s b"
    and "same_outer s t" and "brelse i t = Inr u" and "did 0 s u" and "content u = content s"
    and "logs {} s u"
proof -
  have inv: "log_inv s" and r: "nat (lh_n s) + card (locked_blocks s) < NBUF"
    using assms(1) by (auto simp: room_def)
  from txn.look [OF inv assms(2,3) r] obtain i t u where
    a: "bread ROOTDEV b s = Inr (i, t)" "b_data (bufs t i) = content s b" "same_outer s t"
      "brelse i t = Inr u"
    and u: "log_inv u" "content u = content s" "disk u 1 = disk s 1" "locked_blocks u = locked_blocks s"
      "dirty_blocks u = dirty_blocks s" "nat (lh_n u) = nat (lh_n s)" "same_outer s u"
      "\<forall>j c. c \<noteq> b \<longrightarrow> holds s j c \<longrightarrow> holds u j c"
    by (elim exE conjE) (rule that; assumption)
  have "did 0 s u" using u held_not [OF assms(3)] by (auto simp: did_def)
  moreover have "logs {} s u" by (simp add: logs_def u(5))
  ultimately show thesis using a u(2) by (intro that)
qed

lemma change_did:
  assumes "room 1 s" and "home_block s b" and "b \<notin> locked_blocks s"
  obtains i t where "bread ROOTDEV b s = Inr (i, t)" and "b_data (bufs t i) = content s b"
    and "same_outer s t" and "\<And>d. \<exists>u v. log_write i (set_data i d t) = Inr u \<and> brelse i u = Inr v
      \<and> did 1 s v \<and> content v = (content s)(b := d) \<and> logs {b} s v"
proof -
  have inv: "log_inv s" and op: "in_op s" and r: "nat (lh_n s) + card (locked_blocks s) < NBUF"
    and c: "nat (lh_n s) < nat (log_size s - 1)"
    using assms(1) by (auto simp: room_def)
  from txn.look [OF inv assms(2,3) r] obtain i t where
    a: "bread ROOTDEV b s = Inr (i, t)" "b_data (bufs t i) = content s b" "same_outer s t" by blast
  have "\<exists>u v. log_write i (set_data i d t) = Inr u \<and> brelse i u = Inr v
      \<and> did 1 s v \<and> content v = (content s)(b := d) \<and> logs {b} s v" for d
  proof -
    from txn.change [OF inv assms(2,3) r op c, of d] a(1) obtain u v where
      u: "log_write i (set_data i d t) = Inr u" "brelse i u = Inr v"
        "log_inv v" "content v = (content s)(b := d)" "disk v 1 = disk s 1"
        "locked_blocks v = locked_blocks s" "dirty_blocks v = insert b (dirty_blocks s)"
        "nat (lh_n v) \<le> nat (lh_n s) + 1" "same_outer s v" "\<forall>j c. c \<noteq> b \<longrightarrow> holds s j c \<longrightarrow> holds v j c"
      by auto
    have "did 1 s v" using u held_not [OF assms(3)] by (auto simp: did_def)
    moreover have "logs {b} s v" by (simp add: logs_def u(7))
    ultimately show ?thesis using u by blast
  qed
  with a show thesis by (intro that)
qed

lemma same_outer_fs:
  assumes "same_outer s t"
  shows "fs_sb t = fs_sb s" and "icache t = icache s" and "curtime t = curtime s"
    and "fs_cmos t = fs_cmos s" and "cmos_reads t = cmos_reads s" and "fs_st.more t = fs_st.more s"
  using assms unfolding same_outer_def
  by (auto dest: arg_cong [where f = fs_sb] arg_cong [where f = icache] arg_cong [where f = curtime]
      arg_cong [where f = fs_cmos] arg_cong [where f = cmos_reads] arg_cong [where f = fs_st.more])

abbreviation zeroed :: "bytes \<Rightarrow> bytes" where
  "zeroed d \<equiv> bytes_fill d 0 BSIZE 0"

lemma bzero_ok:
  assumes "room 1 s" and "home_block s b" and "b \<notin> locked_blocks s"
  shows "\<exists>t. bzero ROOTDEV b s = Inr t \<and> did 1 s t \<and> content t = (content s)(b := zeroed (content s b))
    \<and> logs {b} s t"
proof -
  from change_did [OF assms] obtain i t where a: "bread ROOTDEV b s = Inr (i, t)"
    "b_data (bufs t i) = content s b"
    and c: "\<And>d. \<exists>u v. log_write i (set_data i d t) = Inr u \<and> brelse i u = Inr v
      \<and> did 1 s v \<and> content v = (content s)(b := d) \<and> logs {b} s v" by blast
  from c [of "zeroed (content s b)"] obtain u v where "log_write i (set_data i (zeroed (content s b)) t) = Inr u"
    "brelse i u = Inr v" "did 1 s v" "content v = (content s)(b := zeroed (content s b))"
    "logs {b} s v" by blast
  then show ?thesis using a by (simp add: bzero_def Let_def)
qed

subsection \<open>Allocation\<close>

text \<open>The caller holds no block of the free map and no free block.\<close>

definition map_quiet :: "'a fs_st_scheme \<Rightarrow> bool" where
  "map_quiet s \<longleftrightarrow> (\<forall>b<unat (sb_size (fs_sb s)). BBLOCK (of_nat b) (fs_sb s) \<notin> locked_blocks s
     \<and> (\<not> used s b \<longrightarrow> of_nat b \<notin> locked_blocks s))"

text \<open>The state after block \<open>m\<close> has been taken from the free map and zeroed.\<close>

definition taken :: "nat \<Rightarrow> 'a fs_st_scheme \<Rightarrow> uint \<Rightarrow> bytes" where
  "taken m s = (let B = BBLOCK (of_nat m) (fs_sb s);
      c = (content s)(B := set_map_bit (m mod BPB) (content s B)) in c(of_nat m := zeroed (c (of_nat m))))"

lemma unat_small: "b < 10000 \<Longrightarrow> unat (of_nat b :: uint) = b"
  by (simp add: unat_of_nat take_bit_nat_eq_self)

lemma BBLOCK_eq:
  assumes "b < 10000" and "c < 10000"
  shows "BBLOCK (of_nat b) sb = BBLOCK (of_nat c) sb \<longleftrightarrow> b div BPB = c div BPB"
proof -
  have u: "unat ((of_nat b :: uint) div 4096) = b div BPB" if "b < 10000" for b
    using that by (simp add: unat_div unat_small)
  have "BBLOCK (of_nat b) sb = BBLOCK (of_nat c) sb \<longleftrightarrow> (of_nat b :: uint) div 4096 = of_nat c div 4096"
    by (simp add: BBLOCK_def)
  also have "\<dots> \<longleftrightarrow> b div BPB = c div BPB"
    by (simp add: word_unat_eq_iff u assms)
  finally show ?thesis .
qed

lemma take_block:
  assumes lay: "map_layout s" and free: "free_ok s" and q: "map_quiet s" and r: "room 2 s"
    and m: "m < unat (sb_size (fs_sb s))" "\<not> used s m"
  obtains i t where "bread ROOTDEV (BBLOCK (of_nat m) (fs_sb s)) s = Inr (i, t)"
    and "b_data (bufs t i) = content s (BBLOCK (of_nat m) (fs_sb s))"
    and "\<exists>u v w. log_write i (set_data i (set_map_bit (m mod BPB) (b_data (bufs t i))) t) = Inr u
      \<and> brelse i u = Inr v \<and> bzero ROOTDEV (of_nat m) v = Inr w \<and> did 2 s w \<and> content w = taken m s
      \<and> logs {of_nat m, BBLOCK (of_nat m) (fs_sb s)} s w"
proof -
  let ?B = "BBLOCK (of_nat m) (fs_sb s)"
  have B: "home_block s ?B" "?B \<notin> locked_blocks s" using lay q m by (auto simp: map_layout_def map_quiet_def)
  have b: "home_block s (of_nat m)" "of_nat m \<notin> locked_blocks s"
    using free q m by (auto simp: free_ok_def map_quiet_def)
  have r1: "room 1 s" by (rule room_mono [OF r]) simp
  from change_did [OF r1 B] obtain i t where a: "bread ROOTDEV ?B s = Inr (i, t)"
    "b_data (bufs t i) = content s ?B"
    and c: "\<And>d. \<exists>u v. log_write i (set_data i d t) = Inr u \<and> brelse i u = Inr v
      \<and> did 1 s v \<and> content v = (content s)(?B := d) \<and> logs {?B} s v" by blast
  from c [of "set_map_bit (m mod BPB) (content s ?B)"] obtain u v where
    v: "log_write i (set_data i (set_map_bit (m mod BPB) (content s ?B)) t) = Inr u" "brelse i u = Inr v"
      "did 1 s v" "content v = (content s)(?B := set_map_bit (m mod BPB) (content s ?B))"
      "logs {?B} s v" by blast
  have "room 1 v" by (rule did_room [OF _ v(3)]) (use r in \<open>simp add: numeral_2_eq_2\<close>)
  with bzero_ok [OF this, of "of_nat m"] b did_home [OF v(3)] did_locked [OF v(3)]
  obtain w where w: "bzero ROOTDEV (of_nat m) v = Inr w" "did 1 v w"
    "content w = (content v)(of_nat m := zeroed (content v (of_nat m)))"
    "logs {of_nat m} v w" by auto
  have "did 2 s w" using did_trans [OF v(3) w(2)] by (simp add: numeral_2_eq_2)
  moreover have "content w = taken m s" by (simp add: w(3) v(4) taken_def Let_def)
  moreover have "logs {of_nat m, ?B} s w" using logs_trans [OF v(5) w(4)] by (simp add: insert_commute)
  ultimately show thesis using that [OF a] v w a(2) by auto
qed

lemma used_in_block:
  assumes "map_layout s" and "b0 mod BPB = 0" and "j < BPB" and "b0 + j < unat (sb_size (fs_sb s))"
  shows "used s (b0 + j) \<longleftrightarrow> map_bit (content s (BBLOCK (of_nat b0) (fs_sb s))) j"
proof -
  have "(b0 + j) div BPB = b0 div BPB" "(b0 + j) mod BPB = j"
    using assms(2,3) by (auto simp: div_add1_eq mod_add_eq [symmetric])
  then show ?thesis
    using BBLOCK_eq [of "b0 + j" b0 "fs_sb s"] assms(1,4) by (simp add: used_def map_layout_def)
qed

lemma map_search:
  assumes "map_layout s" and "b0 mod BPB = 0" and "b0 \<le> m" and m: "m < unat (sb_size (fs_sb s))"
    and "\<not> used s m" and least: "\<And>b. b0 \<le> b \<Longrightarrow> b < m \<Longrightarrow> used s b"
  shows "find (\<lambda>bi. \<not> map_bit (content s (BBLOCK (of_nat b0) (fs_sb s))) bi)
      [0..<min BPB (unat (sb_size (fs_sb s)) - b0)] = (if m < b0 + BPB then Some (m - b0) else None)"
proof -
  note blk = used_in_block [OF assms(1,2)]
  have bits: "map_bit (content s (BBLOCK (of_nat b0) (fs_sb s))) j" if "j < BPB" "b0 + j < m" for j
    using blk [OF that(1)] least [of "b0 + j"] that(2) m by simp
  show ?thesis
  proof (cases "m < b0 + BPB")
    case True
    then have "\<not> map_bit (content s (BBLOCK (of_nat b0) (fs_sb s))) (m - b0)"
      using blk [of "m - b0"] assms(3,5) m by simp
    then show ?thesis using True bits assms(3) m by (auto simp: find_upt_Some_iff)
  next
    case False
    then show ?thesis using bits by (auto simp: find_upt_None_iff)
  qed
qed

lemma balloc_from_ok:
  assumes "map_layout s" and "free_ok s" and "map_quiet s" and "room 2 s"
    and "b0 mod BPB = 0" and "b0 \<le> m" and m: "m < unat (sb_size (fs_sb s))" "\<not> used s m"
    and least: "\<And>b. b0 \<le> b \<Longrightarrow> b < m \<Longrightarrow> used s b"
  shows "\<exists>t. balloc_from ROOTDEV (unat (sb_size (fs_sb s))) b0 s = Inr (of_nat m, t)
    \<and> did 2 s t \<and> content t = taken m s \<and> logs {of_nat m, BBLOCK (of_nat m) (fs_sb s)} s t"
  using assms
proof (induction "m - b0" arbitrary: b0 s rule: less_induct)
  case less
  let ?sz = "unat (sb_size (fs_sb s))" and ?B0 = "BBLOCK (of_nat b0) (fs_sb s)"
  have b0: "b0 < ?sz" using less.prems(6,7) by simp
  note search = map_search [OF less.prems(1,5-9)]
  show ?case
  proof (cases "m < b0 + BPB")
    case True
    define j where "j = m - b0"
    have j: "m = b0 + j" "j < BPB" using True less.prems(6) by (auto simp: j_def)
    have jm: "m mod BPB = j" "BBLOCK (of_nat m) (fs_sb s) = ?B0"
      using less.prems(1,5,7) j b0 BBLOCK_eq [of m b0 "fs_sb s"]
      by (auto simp: mod_add_eq [symmetric] div_add1_eq map_layout_def)
    from take_block [OF less.prems(1-4,7,8)] obtain i t where
      a: "bread ROOTDEV ?B0 s = Inr (i, t)" "b_data (bufs t i) = content s ?B0"
      and c: "\<exists>u v w. log_write i (set_data i (set_map_bit j (b_data (bufs t i))) t) = Inr u
        \<and> brelse i u = Inr v \<and> bzero ROOTDEV (of_nat m) v = Inr w \<and> did 2 s w \<and> content w = taken m s
        \<and> logs {of_nat m, ?B0} s w"
      unfolding jm by blast
    with search b0 j True jm(2) show ?thesis by (subst balloc_from.simps) auto
  next
    case False
    have B: "home_block s ?B0" "?B0 \<notin> locked_blocks s"
      using less.prems(1,3) b0 by (auto simp: map_layout_def map_quiet_def)
    have r1: "room 1 s" by (rule room_mono [OF less.prems(4)]) simp
    from look_did [OF r1 B] obtain i t u where
      a: "bread ROOTDEV ?B0 s = Inr (i, t)" "b_data (bufs t i) = content s ?B0" "brelse i t = Inr u"
        "did 0 s u" "content u = content s" "logs {} s u" by blast
    note e = same_outer_fs [OF did_outer [OF a(4)]]
    have us: "used u = used s" by (simp add: fun_eq_iff used_def a(5) e)
    have "\<exists>v. balloc_from ROOTDEV (unat (sb_size (fs_sb u))) (b0 + BPB) u = Inr (of_nat m, v)
        \<and> did 2 u v \<and> content v = taken m u
        \<and> logs {of_nat m, BBLOCK (of_nat m) (fs_sb u)} u v"
    proof (rule less.hyps)
      show "m - (b0 + BPB) < m - b0" using False less.prems(6) by simp
      show "room 2 u" by (rule did_room0 [OF less.prems(4) a(4)])
    qed (use less.prems False a(4) did_home [OF a(4)] did_locked [OF a(4)] in
        \<open>auto simp: map_layout_def free_ok_def map_quiet_def us e\<close>)
    then obtain v where v: "balloc_from ROOTDEV ?sz (b0 + BPB) u = Inr (of_nat m, v)" "did 2 u v"
      "content v = taken m u" "logs {of_nat m, BBLOCK (of_nat m) (fs_sb s)} u v" by (auto simp: e)
    have lg: "logs {of_nat m, BBLOCK (of_nat m) (fs_sb s)} s v" using logs_trans [OF a(6) v(4)] by simp
    have "taken m u = taken m s" by (simp add: taken_def a(5) e)
    moreover have "did 2 s v" by (rule did0_trans [OF a(4) v(2)])
    ultimately show ?thesis
      using a(1-3) search False v b0 lg by (subst balloc_from.simps) auto
  qed
qed

lemma used_taken:
  assumes lay: "map_layout s" and free: "free_ok s" and m: "m < unat (sb_size (fs_sb s))" "\<not> used s m"
    and t: "content t = taken m s" "fs_sb t = fs_sb s" and b: "b < unat (sb_size (fs_sb s))"
  shows "used t b \<longleftrightarrow> b = m \<or> used s b"
proof -
  let ?B = "\<lambda>b. BBLOCK (of_nat b) (fs_sb s)"
  have sz: "unat (sb_size (fs_sb s)) \<le> 10000" using lay by (simp add: map_layout_def)
  have "?B b \<noteq> of_nat m" using free m b by (auto simp: free_ok_def)
  then have c: "content t (?B b) = ((content s)(?B m := set_map_bit (m mod BPB) (content s (?B m)))) (?B b)"
    by (simp add: t(1) taken_def Let_def)
  show ?thesis
  proof (cases "?B b = ?B m")
    case True
    then have "b div BPB = m div BPB" using BBLOCK_eq [of b m "fs_sb s"] b m(1) sz by simp
    then have "b mod BPB = m mod BPB \<longleftrightarrow> b = m" by (metis div_mult_mod_eq)
    with c True show ?thesis by (simp add: used_def t(2) map_bit_set)
  next
    case False
    then show ?thesis using c by (auto simp: used_def t(2))
  qed
qed

lemma balloc_full:
  assumes "map_layout s" and "map_quiet s" and "room 1 s" and "b0 mod BPB = 0"
    and full: "\<And>b. b0 \<le> b \<Longrightarrow> b < unat (sb_size (fs_sb s)) \<Longrightarrow> used s b"
  shows "balloc_from ROOTDEV (unat (sb_size (fs_sb s))) b0 s = Inl (Panic ''balloc: out of blocks'')"
  using assms
proof (induction "unat (sb_size (fs_sb s)) - b0" arbitrary: b0 s rule: less_induct)
  case less
  let ?sz = "unat (sb_size (fs_sb s))" and ?B0 = "BBLOCK (of_nat b0) (fs_sb s)"
  show ?case
  proof (cases "b0 < ?sz")
    case b0: True
    have B: "home_block s ?B0" "?B0 \<notin> locked_blocks s"
      using less.prems(1,2) b0 by (auto simp: map_layout_def map_quiet_def)
    from look_did [OF less.prems(3) B] obtain i t u where
      a: "bread ROOTDEV ?B0 s = Inr (i, t)" "b_data (bufs t i) = content s ?B0" "brelse i t = Inr u"
        "did 0 s u" "content u = content s" by blast
    note e = same_outer_fs [OF did_outer [OF a(4)]]
    have us: "used u = used s" by (simp add: fun_eq_iff used_def a(5) e)
    have none: "find (\<lambda>bi. \<not> map_bit (content s ?B0) bi) [0..<min BPB (?sz - b0)] = None"
      using used_in_block [OF less.prems(1,4)] less.prems(5) by (auto simp: find_upt_None_iff)
    have "balloc_from ROOTDEV (unat (sb_size (fs_sb u))) (b0 + BPB) u = Inl (Panic ''balloc: out of blocks'')"
    proof (rule less.hyps)
      show "unat (sb_size (fs_sb u)) - (b0 + BPB) < ?sz - b0" using b0 by (simp add: e)
      show "room 1 u" by (rule did_room0 [OF less.prems(3) a(4)])
    qed (use less.prems a(4) did_home [OF a(4)] did_locked [OF a(4)] in
        \<open>auto simp: map_layout_def map_quiet_def us e\<close>)
    then show ?thesis using a(1-3) none b0 by (subst balloc_from.simps) (simp add: e)
  qed (subst balloc_from.simps, simp)
qed

lemma bfree_ok:
  assumes lay: "map_layout s" and q: "BBLOCK (of_nat m) (fs_sb s) \<notin> locked_blocks s" and r: "room 1 s"
    and m: "m < unat (sb_size (fs_sb s))"
  shows "bfree ROOTDEV (of_nat m) s = Inl (Panic ''freeing free block'') \<and> \<not> used s m
    \<or> used s m \<and> (\<exists>t. bfree ROOTDEV (of_nat m) s = Inr t \<and> did 1 s t
        \<and> content t = (content s)(BBLOCK (of_nat m) (fs_sb s) :=
            clear_map_bit (m mod BPB) (content s (BBLOCK (of_nat m) (fs_sb s)))))"
proof -
  let ?B = "BBLOCK (of_nat m) (fs_sb s)"
  have B: "home_block s ?B" using lay m by (simp add: map_layout_def)
  have um: "unat (of_nat m :: uint) = m" using lay m by (intro unat_small) (simp add: map_layout_def)
  from change_did [OF r B q] obtain i t where a: "bread ROOTDEV ?B s = Inr (i, t)"
    "b_data (bufs t i) = content s ?B"
    and c: "\<And>d. \<exists>u v. log_write i (set_data i d t) = Inr u \<and> brelse i u = Inr v
      \<and> did 1 s v \<and> content v = (content s)(?B := d) \<and> logs {?B} s v" by blast
  show ?thesis
    using a c [of "clear_map_bit (m mod BPB) (content s ?B)"]
    by (cases "used s m") (auto simp: bfree_def used_def um Let_def)
qed

section \<open>A sample file system\<close>

text \<open>The free map after \<^verbatim>\<open>mkfs\<close>: the 94 blocks before the data are in use.\<close>

definition demo_map :: bytes where
  "demo_map = (\<lambda>i. if i < 11 then 0xff else if i = 11 then 0x3f else 0)"

definition demo_fs_disk :: "uint \<Rightarrow> uint \<Rightarrow> bytes" where
  "demo_fs_disk = (\<lambda>dr b. if b = 1 then demo_sb else if b = 91 then demo_map else (\<lambda>_. 0))"

definition demo_inode :: inode where
  "demo_inode = \<lparr>i_dev = 0, i_inum = 0, i_ref = 0, i_lock = initsleeplock, i_valid = False, i_type = 0,
     i_major = 0, i_minor = 0, i_nlink = 0, i_size = 0, i_addrs = (\<lambda>_. 0), i_atime = 0, i_mtime = 0\<rparr>"

definition demo_fs :: fs_st where
  "demo_fs =
     \<lparr>mypid = 1, spins = 0, bufs = (\<lambda>_. zero_buf), idequeue = [], havedisk1 = True,
      ide_stat = 0x40, ide_regs = \<lparr>r_count = 0, r_lba0 = 0, r_lba1 = 0, r_lba2 = 0, r_dev = 0\<rparr>,
      disk = demo_fs_disk, wtrace = [], lru = rev [0..<NBUF], log_start = 2, log_size = 60,
      log_outstanding = 1, log_committing = False, log_dev = 1, lh_n = 0, lh_block = (\<lambda>_. 0),
      fs_sb = decode_sb demo_sb, icache = (\<lambda>_. demo_inode), curtime = 0, fs_cmos = demo_clock,
      cmos_reads = 0\<rparr>"

lemma demo_fs_boot: "boot_bio demo_fs" "binit demo_fs = demo_fs"
proof -
  show b: "boot_bio demo_fs" by (simp add: boot_bio_def demo_fs_def drive_ready_def)
  show "binit demo_fs = demo_fs" unfolding binit_boot [OF b] by (simp add: demo_fs_def)
qed

lemma demo_fs_cache:
  "solo demo_fs" "content demo_fs = demo_fs_disk 1" "dirty_blocks demo_fs = {}" "locked_blocks demo_fs = {}"
  using boot_solo [OF demo_fs_boot(1)] unfolding demo_fs_boot(2) by (simp_all add: demo_fs_def)

lemma demo_fs_inv: "log_inv demo_fs"
proof -
  have "log_start demo_fs = 2" "log_size demo_fs = 60" "lh_n demo_fs = 0" "log_dev demo_fs = 1"
    by (simp_all add: demo_fs_def)
  then show ?thesis
    using demo_fs_cache
    by (simp add: log_inv_def log_layout_def head_ok_def logged_def demo_fs_disk_def)
qed

lemma demo_sb_decode:
  "sb_size (fs_sb demo_fs) = 10000" "sb_bmapstart (fs_sb demo_fs) = 91" "sb_inodestart (fs_sb demo_fs) = 62"
  "sb_ninodes (fs_sb demo_fs) = 200"
  by (simp_all add: demo_fs_def decode_sb_def demo_sb_def rd32_def)

lemma demo_map_bit: "map_bit demo_map b \<longleftrightarrow> b < 94"
proof -
  have m8: "(0xff :: uchar) = mask 8" and m6: "(0x3f :: uchar) = mask 6"
    by (simp_all add: mask_eq_exp_minus_1)
  have "bit (demo_map (b div 8)) (b mod 8) \<longleftrightarrow> b div 8 < 11 \<or> b div 8 = 11 \<and> b mod 8 < 6"
    unfolding demo_map_def m8 m6 by (simp add: bit_mask_iff possible_bit_def)
  also have "\<dots> \<longleftrightarrow> b < 94" by presburger
  finally show ?thesis by (simp add: map_bit_bit)
qed

lemma demo_BBLOCK: "b < 10000 \<Longrightarrow> unat (BBLOCK (of_nat b) (fs_sb demo_fs)) = b div BPB + 91"
proof -
  assume b: "b < 10000"
  have "unat ((of_nat b :: uint) div 4096) = b div BPB" using b by (simp add: unat_div unat_small)
  moreover have "b div BPB < 3" using b by simp
  ultimately show ?thesis by (simp add: BBLOCK_def demo_sb_decode unat_word_ariths)
qed

lemma demo_used: "b < 10000 \<Longrightarrow> used demo_fs b \<longleftrightarrow> b < 94"
proof -
  assume b: "b < 10000"
  have "content demo_fs (BBLOCK (of_nat b) (fs_sb demo_fs)) = (if b < BPB then demo_map else (\<lambda>_. 0))"
    using demo_BBLOCK [OF b] b
    by (auto simp: demo_fs_cache demo_fs_disk_def word_unat_eq_iff)
  then show ?thesis by (auto simp: used_def demo_map_bit) (simp add: map_bit_def)
qed

lemma demo_home: "home_block demo_fs b \<longleftrightarrow> unat b < 10000 \<and> b \<noteq> 1 \<and> (unat b < 2 \<or> 62 \<le> unat b)"
  by (auto simp: home_block_def log_area_def demo_fs_def word_less_nat_alt)

lemma demo_alloc_ok: "map_layout demo_fs" "free_ok demo_fs" "map_quiet demo_fs" "room 10 demo_fs"
proof -
  have one: "b \<noteq> 1 \<longleftrightarrow> unat b \<noteq> 1" for b :: uint by (simp add: word_unat_eq_iff)
  show "map_layout demo_fs"
    using demo_BBLOCK by (auto simp: map_layout_def demo_sb_decode demo_home one)
  show "free_ok demo_fs"
    using demo_BBLOCK
    by (auto simp: free_ok_def demo_sb_decode demo_used demo_home one unat_small word_unat_eq_iff)
  show "map_quiet demo_fs" by (simp add: map_quiet_def demo_fs_cache)
  have "in_op demo_fs" "lh_n demo_fs = 0" "log_size demo_fs = 60" by (simp_all add: in_op_def demo_fs_def)
  then show "room 10 demo_fs" by (simp add: room_def demo_fs_inv demo_fs_cache)
qed

section \<open>Properties\<close>

text \<open>C13: \<^verbatim>\<open>balloc\<close> returns the first block that the free map says is free, marks exactly that block in
  use, zeroes it, changes no other block, and panics exactly when no block is free.\<close>

theorem balloc_correct:
  assumes "map_layout s" and "free_ok s" and "map_quiet s" and "room 2 s"
  shows "(\<exists>m t. m < unat (sb_size (fs_sb s)) \<and> \<not> used s m \<and> (\<forall>b<m. used s b)
      \<and> balloc ROOTDEV s = Inr (of_nat m, t)
      \<and> (\<forall>b<unat (sb_size (fs_sb s)). used t b \<longleftrightarrow> b = m \<or> used s b)
      \<and> (\<forall>i<BSIZE. content t (of_nat m) i = 0)
      \<and> (\<forall>c. c \<noteq> of_nat m \<and> c \<noteq> BBLOCK (of_nat m) (fs_sb s) \<longrightarrow> content t c = content s c))
    \<or> (\<forall>b<unat (sb_size (fs_sb s)). used s b) \<and> balloc ROOTDEV s = Inl (Panic ''balloc: out of blocks'')"
proof (cases "\<forall>b<unat (sb_size (fs_sb s)). used s b")
  case True
  have "room 1 s" by (rule room_mono [OF assms(4)]) simp
  from balloc_full [OF assms(1,3) this, of 0] True show ?thesis by (simp add: balloc_def)
next
  case False
  let ?P = "\<lambda>b. b < unat (sb_size (fs_sb s)) \<and> \<not> used s b"
  define m where "m = (LEAST b. ?P b)"
  have m: "m < unat (sb_size (fs_sb s))" "\<not> used s m"
    using False LeastI_ex [of ?P] unfolding m_def by blast+
  have least: "used s b" if "b < m" for b
    using not_less_Least [of b ?P] that m(1) unfolding m_def by auto
  from balloc_from_ok [OF assms, of 0 m] m least obtain t where
    t: "balloc ROOTDEV s = Inr (of_nat m, t)" "did 2 s t" "content t = taken m s"
    by (auto simp: balloc_def)
  have sb: "fs_sb t = fs_sb s" using same_outer_fs(1) [OF did_outer [OF t(2)]] .
  have "used t b \<longleftrightarrow> b = m \<or> used s b" if "b < unat (sb_size (fs_sb s))" for b
    by (rule used_taken [OF assms(1,2) m t(3) sb that])
  moreover have "content t (of_nat m) i = 0" if "i < BSIZE" for i
    using that by (simp add: t(3) taken_def Let_def bytes_fill_def)
  moreover have "content t c = content s c" if "c \<noteq> of_nat m" "c \<noteq> BBLOCK (of_nat m) (fs_sb s)" for c
    using that by (simp add: t(3) taken_def Let_def)
  ultimately show ?thesis using m least t(1) by blast
qed

theorem balloc_correct_witness:
  "\<exists>t. balloc ROOTDEV demo_fs = Inr (94, t) \<and> used t 94 \<and> content t 94 0 = 0"
proof -
  have r: "room 2 demo_fs" by (rule room_mono [OF demo_alloc_ok(4)]) simp
  have sz: "unat (sb_size (fs_sb demo_fs)) = 10000" by (simp add: demo_sb_decode)
  from balloc_correct [OF demo_alloc_ok(1-3) r] demo_used [of 94]
  obtain m t where m: "m < 10000" "\<not> used demo_fs m" "\<forall>b<m. used demo_fs b"
    and t: "balloc ROOTDEV demo_fs = Inr (of_nat m, t)" "\<forall>b<10000. used t b \<longleftrightarrow> b = m \<or> used demo_fs b"
      "\<forall>i<BSIZE. content t (of_nat m) i = 0"
    unfolding sz by auto
  have "94 \<le> m" using m(1,2) demo_used by auto
  moreover have "\<not> 94 < m" using m(3) demo_used [of 94] by auto
  ultimately have "m = 94" by simp
  with t show ?thesis by auto
qed

text \<open>\<^verbatim>\<open>bfree\<close> marks exactly the given block free and panics when it is free already; freeing a
  block that \<^verbatim>\<open>balloc\<close> just returned gives back the free map from before the allocation.\<close>

theorem bfree_undoes_balloc:
  assumes "map_layout s" and "free_ok s" and "map_quiet s" and "room 3 s"
    and "balloc ROOTDEV s = Inr (b, t)"
  shows "\<exists>u. bfree ROOTDEV b t = Inr u
    \<and> (\<forall>c<unat (sb_size (fs_sb s)). used u c \<longleftrightarrow> used s c)
    \<and> bfree ROOTDEV b s = Inl (Panic ''freeing free block'')"
proof -
  have r2: "room 2 s" by (rule room_mono [OF assms(4)]) simp
  have "\<exists>b<unat (sb_size (fs_sb s)). \<not> used s b"
    using balloc_full [OF assms(1,3) room_mono [OF r2], of 0] assms(5) by (auto simp: balloc_def)
  then obtain b0 where "b0 < unat (sb_size (fs_sb s)) \<and> \<not> used s b0" by blast
  let ?P = "\<lambda>b. b < unat (sb_size (fs_sb s)) \<and> \<not> used s b"
  define m where "m = (LEAST b. ?P b)"
  have m: "m < unat (sb_size (fs_sb s))" "\<not> used s m"
    using LeastI [of ?P, OF \<open>?P b0\<close>] unfolding m_def by auto
  have least: "used s b" if "b < m" for b
    using not_less_Least [of b ?P] that m(1) unfolding m_def by auto
  from balloc_from_ok [OF assms(1-3) r2, of 0 m] m least assms(5)
  have b: "b = of_nat m" and t: "did 2 s t" "content t = taken m s" by (auto simp: balloc_def)
  have sb: "fs_sb t = fs_sb s" using same_outer_fs(1) [OF did_outer [OF t(1)]] .
  note ut = used_taken [OF assms(1,2) m t(2) sb]
  have lay: "map_layout t" using assms(1) did_home [OF t(1)] by (simp add: map_layout_def sb)
  have r: "room 1 t" by (rule did_room [OF _ t(1)]) (use assms(4) in \<open>simp add: numeral_3_eq_3\<close>)
  have q: "BBLOCK (of_nat m) (fs_sb t) \<notin> locked_blocks t"
    using assms(3) m did_locked [OF t(1)] by (simp add: map_quiet_def sb)
  from bfree_ok [OF lay q r] m(1) ut [OF m(1)] obtain u where u: "bfree ROOTDEV (of_nat m) t = Inr u" "did 1 t u"
    "content u = (content t)(BBLOCK (of_nat m) (fs_sb t) :=
      clear_map_bit (m mod BPB) (content t (BBLOCK (of_nat m) (fs_sb t))))"
    by (auto simp: sb)
  have sbu: "fs_sb u = fs_sb t" using same_outer_fs(1) [OF did_outer [OF u(2)]] .
  have "used u c \<longleftrightarrow> used s c" if c: "c < unat (sb_size (fs_sb s))" for c
  proof (cases "BBLOCK (of_nat c) (fs_sb t) = BBLOCK (of_nat m) (fs_sb t)")
    case True
    have "unat (sb_size (fs_sb s)) \<le> 10000" using assms(1) by (simp add: map_layout_def)
    then have "c div BPB = m div BPB" using True BBLOCK_eq [of c m "fs_sb t"] c m(1) by simp
    then have "c mod BPB = m mod BPB \<longleftrightarrow> c = m" by (metis div_mult_mod_eq)
    then have "used u c \<longleftrightarrow> c \<noteq> m \<and> used t c" using True by (simp add: used_def u(3) sbu map_bit_clear)
    with ut [OF c] m(2) show ?thesis by auto
  next
    case False
    then have "used u c \<longleftrightarrow> used t c" by (simp add: used_def u(3) sbu)
    with ut [OF c] False show ?thesis by (auto simp: sb)
  qed
  moreover have "bfree ROOTDEV (of_nat m) s = Inl (Panic ''freeing free block'')"
    using bfree_ok [OF assms(1) _ room_mono [OF r2], of m] m assms(3) by (auto simp: map_quiet_def)
  ultimately show ?thesis using u(1) b by blast
qed

theorem bfree_undoes_balloc_witness:
  "\<exists>b t u. balloc ROOTDEV demo_fs = Inr (b, t) \<and> bfree ROOTDEV b t = Inr u \<and> \<not> used u 94"
proof -
  have r: "room 2 demo_fs" "room 3 demo_fs" by (rule room_mono [OF demo_alloc_ok(4)], simp)+
  have sz: "unat (sb_size (fs_sb demo_fs)) = 10000" by (simp add: demo_sb_decode)
  have least: "used demo_fs b" if "b < 94" for b using that demo_used [of b] by simp
  from balloc_from_ok [OF demo_alloc_ok(1-3) r(1), of 0 94] least demo_used [of 94] obtain t where
    t: "balloc ROOTDEV demo_fs = Inr (94, t)" by (auto simp: balloc_def sz)
  from bfree_undoes_balloc [OF demo_alloc_ok(1-3) r(2) t] t demo_used [of 94] show ?thesis
    unfolding sz by auto
qed

end
