(* ===== verification/KInode.thy ===== *)
theory KInode
  imports KBalloc
begin

text \<open>
  Inodes (\<^verbatim>\<open>kernel/fs.c\<close>): the inode cache, the inodes on disk, the map from file offsets to blocks,
  and reading and writing file contents. An inode in the cache is named by its index in
  \<^verbatim>\<open>icache.inode\<close>.

  \<^verbatim>\<open>struct inode\<close> has room for \<^verbatim>\<open>NDIRECT + 1\<close> block addresses, but \<^verbatim>\<open>bmap\<close> and \<^verbatim>\<open>itrunc\<close>
  also use the two words behind the array. The compiler lays the fields out in order, so these words
  are \<^verbatim>\<open>atime\<close> and \<^verbatim>\<open>mtime\<close>: \<open>get_addr\<close> and \<open>set_addr\<close> say so, and the lemmas show what
  follows from it.
\<close>

section \<open>Definitions\<close>

abbreviation "NINODE \<equiv> 50 :: nat"
abbreviation "NDIRECT \<equiv> 10 :: nat"
abbreviation "NINDIRECT \<equiv> 128 :: nat"
abbreviation "NDINDIRECT \<equiv> 16384 :: nat"
abbreviation "NTINDIRECT \<equiv> 2097152 :: nat"
abbreviation "MAXFILE \<equiv> 2113674 :: nat"
abbreviation "IPB \<equiv> 7 :: nat"
abbreviation "T_DIR \<equiv> 1 :: ushort"
abbreviation "T_FILE \<equiv> 2 :: ushort"
abbreviation "T_DEV \<equiv> 3 :: ushort"
abbreviation "T_SYMLINK \<equiv> 4 :: ushort"
abbreviation "NDEV \<equiv> 10 :: int"

definition upd_inode :: "nat \<Rightarrow> (inode \<Rightarrow> inode) \<Rightarrow> 'a fs_st_scheme \<Rightarrow> 'a fs_st_scheme" where
  "upd_inode ip f s = s\<lparr>icache := (icache s)(ip := f (icache s ip))\<rparr>"

text \<open>\<^verbatim>\<open>ip->addrs[k]\<close>, for the indices the code uses.\<close>

definition get_addr :: "inode \<Rightarrow> nat \<Rightarrow> uint" where
  "get_addr ip k = (if k < NDIRECT + 1 then i_addrs ip k
     else if k = NDIRECT + 1 then i_atime ip else i_mtime ip)"

definition set_addr :: "nat \<Rightarrow> uint \<Rightarrow> inode \<Rightarrow> inode" where
  "set_addr k v ip = (if k < NDIRECT + 1 then ip\<lparr>i_addrs := (i_addrs ip)(k := v)\<rparr>
     else if k = NDIRECT + 1 then ip\<lparr>i_atime := v\<rparr> else ip\<lparr>i_mtime := v\<rparr>)"

subsection \<open>Inodes on disk\<close>

text \<open>
  \<^verbatim>\<open>struct dinode\<close> is 72 bytes: \<^verbatim>\<open>type\<close>, \<^verbatim>\<open>major\<close>, \<^verbatim>\<open>minor\<close>, \<^verbatim>\<open>nlink\<close> at 0, 2, 4, 6,
  \<^verbatim>\<open>size\<close> at 8, \<^verbatim>\<open>addrs\<close> from 12, \<^verbatim>\<open>atime\<close> at 64 and \<^verbatim>\<open>mtime\<close> at 68.
\<close>

definition IBLOCK :: "uint \<Rightarrow> superblock \<Rightarrow> uint" where
  "IBLOCK i sb = i div 7 + sb_inodestart sb"

definition dip :: "uint \<Rightarrow> nat" where
  "dip inum = 72 * (unat inum mod IPB)"

definition store_dinode :: "bytes \<Rightarrow> nat \<Rightarrow> inode \<Rightarrow> bytes" where
  "store_dinode d p ip =
     (let d = wr16 d p (i_type ip); d = wr16 d (p + 2) (i_major ip); d = wr16 d (p + 4) (i_minor ip);
          d = wr16 d (p + 6) (i_nlink ip); d = wr32 d (p + 8) (i_size ip);
          d = wr32 d (p + 64) (i_atime ip); d = wr32 d (p + 68) (i_mtime ip)
      in fold (\<lambda>k d. wr32 d (p + 12 + 4 * k) (i_addrs ip k)) [0..<NDIRECT + 1] d)"

definition load_dinode :: "bytes \<Rightarrow> nat \<Rightarrow> inode \<Rightarrow> inode" where
  "load_dinode d p ip =
     ip\<lparr>i_type := rd16 d p, i_major := rd16 d (p + 2), i_minor := rd16 d (p + 4),
        i_nlink := rd16 d (p + 6), i_size := rd32 d (p + 8),
        i_mtime := rd32 d (p + 68), i_atime := rd32 d (p + 64),
        i_addrs := fold (\<lambda>k a. a(k := rd32 d (p + 12 + 4 * k))) [0..<NDIRECT + 1] (i_addrs ip)\<rparr>"

definition iupdate :: "nat \<Rightarrow> 'a fs_st_scheme \<Rightarrow> 'a fs_st_scheme res" where
  "iupdate ip s =
     (let i = icache s ip in
      rbind (bread (i_dev i) (IBLOCK (i_inum i) (fs_sb s)) s) (\<lambda>(bp, s).
      let s = set_data bp (store_dinode (b_data (bufs s bp)) (dip (i_inum i)) i) s in
      rbind (log_write bp s) (\<lambda>s. brelse bp s)))"

subsection \<open>The inode cache\<close>

definition iinit :: "uint \<Rightarrow> 'a fs_st_scheme \<Rightarrow> 'a fs_st_scheme res" where
  "iinit dev s =
     (let s = fold (\<lambda>i. upd_inode i (\<lambda>ip. ip\<lparr>i_lock := initsleeplock\<rparr>)) [0..<NINODE] s in
      rbind (fsupdtime s) (\<lambda>s.
      rbind (readsb dev s) (\<lambda>(sb, s).
      Inr (s\<lparr>fs_sb := sb\<lparr>sb_mounttime := curtime s\<rparr>\<rparr>))))"

definition iget :: "uint \<Rightarrow> uint \<Rightarrow> 'a fs_st_scheme \<Rightarrow> (nat \<times> 'a fs_st_scheme) res" where
  "iget dev inum s =
     (case find (\<lambda>i. i_ref (icache s i) > 0 \<and> i_dev (icache s i) = dev \<and> i_inum (icache s i) = inum)
             [0..<NINODE] of
        Some i \<Rightarrow> Inr (i, upd_inode i (\<lambda>ip. ip\<lparr>i_ref := i_ref ip + 1\<rparr>) s)
      | None \<Rightarrow>
         (case find (\<lambda>i. i_ref (icache s i) = 0) [0..<NINODE] of
            None \<Rightarrow> Inl (Panic ''iget: no inodes'')
          | Some i \<Rightarrow>
              Inr (i, upd_inode i (\<lambda>ip. ip\<lparr>i_dev := dev, i_inum := inum, i_ref := 1,
                i_valid := False\<rparr>) s)))"

definition idup :: "nat \<Rightarrow> 'a fs_st_scheme \<Rightarrow> 'a fs_st_scheme" where
  "idup ip s = upd_inode ip (\<lambda>i. i\<lparr>i_ref := i_ref i + 1\<rparr>) s"

primrec ialloc_scan :: "uint \<Rightarrow> ushort \<Rightarrow> nat list \<Rightarrow> 'a fs_st_scheme \<Rightarrow> (nat \<times> 'a fs_st_scheme) res" where
  "ialloc_scan dev type [] s = Inl (Panic ''ialloc: no inodes'')"
| "ialloc_scan dev type (inum # inums) s =
     rbind (bread dev (IBLOCK (of_nat inum) (fs_sb s)) s) (\<lambda>(bp, s).
     let d = b_data (bufs s bp); p = dip (of_nat inum) in
     if rd16 d p = 0 then
       (let s = set_data bp (wr16 (bytes_fill d p 72 0) p type) s in
        rbind (log_write bp s) (\<lambda>s.
        rbind (brelse bp s) (\<lambda>s.
        iget dev (of_nat inum) s)))
     else rbind (brelse bp s) (ialloc_scan dev type inums))"

definition ialloc :: "uint \<Rightarrow> ushort \<Rightarrow> 'a fs_st_scheme \<Rightarrow> (nat \<times> 'a fs_st_scheme) res" where
  "ialloc dev type s =
     rbind (fsupdtime s) (\<lambda>s. ialloc_scan dev type [1..<unat (sb_ninodes (fs_sb s))] s)"

text \<open>\<^verbatim>\<open>ilock\<close> and \<^verbatim>\<open>iunlock\<close> take a pointer that may be null.\<close>

definition ilock :: "nat option \<Rightarrow> 'a fs_st_scheme \<Rightarrow> 'a fs_st_scheme res" where
  "ilock ip s =
     (case ip of
        None \<Rightarrow> Inl (Panic ''ilock'')
      | Some ip \<Rightarrow>
          if i_ref (icache s ip) < 1 then Inl (Panic ''ilock'')
          else
            rbind (acquiresleep (mypid s) (i_lock (icache s ip))) (\<lambda>lk.
            let s = upd_inode ip (\<lambda>i. i\<lparr>i_lock := lk\<rparr>) s; i = icache s ip in
            if \<not> i_valid i then
              rbind (bread (i_dev i) (IBLOCK (i_inum i) (fs_sb s)) s) (\<lambda>(bp, s).
              let s = upd_inode ip (load_dinode (b_data (bufs s bp)) (dip (i_inum i))) s in
              rbind (brelse bp s) (\<lambda>s.
              let s = upd_inode ip (\<lambda>i. i\<lparr>i_valid := True\<rparr>) s in
              if i_type (icache s ip) = 0 then Inl (Panic ''ilock: no type'') else Inr s))
            else Inr s))"

definition iunlock :: "nat option \<Rightarrow> 'a fs_st_scheme \<Rightarrow> 'a fs_st_scheme res" where
  "iunlock ip s =
     (case ip of
        None \<Rightarrow> Inl (Panic ''iunlock'')
      | Some ip \<Rightarrow>
          if \<not> holdingsleep (mypid s) (i_lock (icache s ip)) \<or> i_ref (icache s ip) < 1
          then Inl (Panic ''iunlock'')
          else Inr (upd_inode ip (\<lambda>i. i\<lparr>i_lock := releasesleep (i_lock i)\<rparr>) s))"

subsection \<open>The blocks of a file\<close>

text \<open>Entry \<open>k\<close> of a block of addresses, allocating a block for it if it has none.\<close>

definition bmap_slot :: "uint \<Rightarrow> uint \<Rightarrow> nat \<Rightarrow> 'a fs_st_scheme \<Rightarrow> (uint \<times> 'a fs_st_scheme) res" where
  "bmap_slot dev blk k s =
     rbind (bread dev blk s) (\<lambda>(bp, s).
     let addr = rd32 (b_data (bufs s bp)) (4 * k) in
     if addr = 0 then
       rbind (balloc dev s) (\<lambda>(addr, s).
       let s = set_data bp (wr32 (b_data (bufs s bp)) (4 * k) addr) s in
       rbind (log_write bp s) (\<lambda>s.
       rbind (brelse bp s) (\<lambda>s. Inr (addr, s))))
     else rbind (brelse bp s) (\<lambda>s. Inr (addr, s)))"

text \<open>The same for an entry of the inode itself.\<close>

definition bmap_addr :: "nat \<Rightarrow> nat \<Rightarrow> 'a fs_st_scheme \<Rightarrow> (uint \<times> 'a fs_st_scheme) res" where
  "bmap_addr ip k s =
     (let addr = get_addr (icache s ip) k in
      if addr = 0 then
        rbind (balloc (i_dev (icache s ip)) s) (\<lambda>(addr, s). Inr (addr, upd_inode ip (set_addr k addr) s))
      else Inr (addr, s))"

definition bmap :: "nat \<Rightarrow> nat \<Rightarrow> 'a fs_st_scheme \<Rightarrow> (uint \<times> 'a fs_st_scheme) res" where
  "bmap ip bn s =
     (let dev = i_dev (icache s ip) in
      if bn < NDIRECT then bmap_addr ip bn s
      else let bn = bn - NDIRECT in
      if bn < NINDIRECT then
        rbind (bmap_addr ip NDIRECT s) (\<lambda>(addr, s). bmap_slot dev addr bn s)
      else let bn = bn - NINDIRECT in
      if bn < NDINDIRECT then
        rbind (bmap_addr ip (NDIRECT + 1) s) (\<lambda>(addr, s).
        rbind (bmap_slot dev addr (bn div NINDIRECT) s) (\<lambda>(l1_addr, s).
        bmap_slot dev l1_addr (bn mod NINDIRECT) s))
      else let bn = bn - NDINDIRECT in
      if bn < NTINDIRECT then
        rbind (bmap_addr ip (NDIRECT + 2) s) (\<lambda>(addr, s).
        rbind (bmap_slot dev addr (bn div NDINDIRECT) s) (\<lambda>(l2_addr, s).
        let rem = bn mod NDINDIRECT in
        rbind (bmap_slot dev l2_addr (rem div NINDIRECT) s) (\<lambda>(l1_addr, s).
        bmap_slot dev l1_addr (rem mod NINDIRECT) s)))
      else Inl (Panic ''bmap: out of range''))"

text \<open>
  \<^verbatim>\<open>itrunc\<close>. Freeing a block of addresses of depth \<open>n + 1\<close> frees what its entries name at depth
  \<open>n\<close> and then the block itself; a block of depth 0 is a data block.
\<close>

primrec free_tree :: "nat \<Rightarrow> uint \<Rightarrow> uint \<Rightarrow> 'a fs_st_scheme \<Rightarrow> 'a fs_st_scheme res" where
  "free_tree 0 dev blk s = bfree dev blk s"
| "free_tree (Suc n) dev blk s =
     rbind (bread dev blk s) (\<lambda>(bp, s).
     rbind (rfold (\<lambda>j s. let a = rd32 (b_data (bufs s bp)) (4 * j) in
                    if a \<noteq> 0 then free_tree n dev a s else Inr s) [0..<NINDIRECT] s) (\<lambda>s.
     rbind (brelse bp s) (\<lambda>s.
     bfree dev blk s)))"

definition free_addr :: "nat \<Rightarrow> nat \<Rightarrow> nat \<Rightarrow> 'a fs_st_scheme \<Rightarrow> 'a fs_st_scheme res" where
  "free_addr depth ip k s =
     (let a = get_addr (icache s ip) k in
      if a \<noteq> 0 then
        rbind (free_tree depth (i_dev (icache s ip)) a s) (\<lambda>s. Inr (upd_inode ip (set_addr k 0) s))
      else Inr s)"

definition itrunc :: "nat \<Rightarrow> 'a fs_st_scheme \<Rightarrow> 'a fs_st_scheme res" where
  "itrunc ip s =
     rbind (rfold (free_addr 0 ip) [0..<NDIRECT] s) (\<lambda>s.
     rbind (free_addr 1 ip NDIRECT s) (\<lambda>s.
     rbind (free_addr 2 ip (NDIRECT + 1) s) (\<lambda>s.
     rbind (free_addr 3 ip (NDIRECT + 2) s) (\<lambda>s.
     iupdate ip (upd_inode ip (\<lambda>i. i\<lparr>i_size := 0\<rparr>) s)))))"

definition iput :: "nat \<Rightarrow> 'a fs_st_scheme \<Rightarrow> 'a fs_st_scheme res" where
  "iput ip s =
     rbind (acquiresleep (mypid s) (i_lock (icache s ip))) (\<lambda>lk.
     let s = upd_inode ip (\<lambda>i. i\<lparr>i_lock := lk\<rparr>) s in
     rbind (if i_valid (icache s ip) \<and> i_nlink (icache s ip) = 0 \<and> i_ref (icache s ip) = 1 then
              rbind (itrunc ip s) (\<lambda>s.
              rbind (iupdate ip (upd_inode ip (\<lambda>i. i\<lparr>i_type := 0\<rparr>) s)) (\<lambda>s.
              Inr (upd_inode ip (\<lambda>i. i\<lparr>i_valid := False\<rparr>) s)))
            else Inr s) (\<lambda>s.
     let s = upd_inode ip (\<lambda>i. i\<lparr>i_lock := releasesleep (i_lock i)\<rparr>) s in
     Inr (upd_inode ip (\<lambda>i. i\<lparr>i_ref := i_ref i - 1\<rparr>) s)))"

definition iunlockput :: "nat \<Rightarrow> 'a fs_st_scheme \<Rightarrow> 'a fs_st_scheme res" where
  "iunlockput ip s = rbind (iunlock (Some ip) s) (iput ip)"

subsection \<open>Status, reading and writing\<close>

record stat =
  st_type :: ushort
  st_dev :: uint
  st_ino :: uint
  st_nlink :: ushort
  st_size :: uint
  st_blksize :: uint
  st_atime :: uint
  st_mtime :: uint

text \<open>\<^verbatim>\<open>stati\<close> leaves \<^verbatim>\<open>st_blksize\<close> of the caller's structure as it was.\<close>

definition stati :: "nat \<Rightarrow> stat \<Rightarrow> 'a fs_st_scheme \<Rightarrow> stat" where
  "stati ip st s = (let i = icache s ip in
     st\<lparr>st_dev := i_dev i, st_ino := i_inum i, st_type := i_type i, st_nlink := i_nlink i, st_size := i_size i,
      st_mtime := i_mtime i, st_atime := i_atime i\<rparr>)"

text \<open>
  \<^verbatim>\<open>struct devsw\<close>: the functions of a device; a null function pointer is \<^term>\<open>None\<close>. A read
  function returns what it stored at the destination.
\<close>

record 's devsw =
  d_read :: "(nat \<Rightarrow> uint \<Rightarrow> 's \<Rightarrow> (int \<times> uchar list \<times> 's) res) option"
  d_write :: "(nat \<Rightarrow> uchar list \<Rightarrow> 's \<Rightarrow> (int \<times> 's) res) option"
  d_ioctl :: "(nat \<Rightarrow> int \<Rightarrow> uint \<Rightarrow> 's \<Rightarrow> (int \<times> 's) res) option"

definition dev_entry :: "(nat \<Rightarrow> 's devsw) \<Rightarrow> ushort \<Rightarrow> ('s devsw \<Rightarrow> 'f option) \<Rightarrow> 'f option" where
  "dev_entry dsw major sel =
     (if sint major < 0 \<or> sint major \<ge> NDEV then None else sel (dsw (nat (sint major))))"

text \<open>
  The loop of \<^verbatim>\<open>readi\<close>: \<open>off\<close> is the position in the file and \<open>n\<close> the number of bytes left. The
  bytes are those stored at the destination, in order.
\<close>

function readi_loop :: "nat \<Rightarrow> nat \<Rightarrow> nat \<Rightarrow> 'a fs_st_scheme \<Rightarrow> (uchar list \<times> 'a fs_st_scheme) res" where
  "readi_loop ip off n s =
     (if n = 0 then Inr ([], s)
      else
        rbind (bmap ip (off div BSIZE) s) (\<lambda>(addr, s).
        rbind (bread (i_dev (icache s ip)) addr s) (\<lambda>(bp, s).
        let m = min n (BSIZE - off mod BSIZE);
            bs = map (\<lambda>i. b_data (bufs s bp) (off mod BSIZE + i)) [0..<m] in
        rbind (brelse bp s) (\<lambda>s.
        rbind (readi_loop ip (off + m) (n - m) s) (\<lambda>(rest, s).
        Inr (bs @ rest, s))))))"
  by pat_completeness auto
termination
  by (relation "measure (\<lambda>(ip, off, n, s). n)") auto

definition readi :: "(nat \<Rightarrow> 'a fs_st_scheme devsw) \<Rightarrow> nat \<Rightarrow> uint \<Rightarrow> uint \<Rightarrow> 'a fs_st_scheme
    \<Rightarrow> (int \<times> uchar list \<times> 'a fs_st_scheme) res" where
  "readi dsw ip off n s =
     rbind (fsupdtime s) (\<lambda>s.
     let s = s\<lparr>fs_sb := (fs_sb s)\<lparr>sb_modtime := curtime s\<rparr>\<rparr>;
         s = upd_inode ip (\<lambda>i. i\<lparr>i_atime := curtime s\<rparr>) s; i = icache s ip in
     if i_type i = T_DEV then
       (case dev_entry dsw (i_major i) d_read of
          None \<Rightarrow> Inr (- 1, [], s)
        | Some f \<Rightarrow> f ip n s)
     else if off > i_size i \<or> off + n < off then Inr (- 1, [], s)
     else
      (let n = (if off + n > i_size i then i_size i - off else n) in
       rbind (readi_loop ip (unat off) (unat n) s) (\<lambda>(bs, s). Inr (sint n, bs, s))))"

text \<open>The loop of \<^verbatim>\<open>writei\<close>: the bytes left to write are a list.\<close>

function writei_loop :: "nat \<Rightarrow> uchar list \<Rightarrow> nat \<Rightarrow> 'a fs_st_scheme \<Rightarrow> 'a fs_st_scheme res" where
  "writei_loop ip src off s =
     (if src = [] then Inr s
      else
        rbind (bmap ip (off div BSIZE) s) (\<lambda>(addr, s).
        rbind (bread (i_dev (icache s ip)) addr s) (\<lambda>(bp, s).
        let m = min (length src) (BSIZE - off mod BSIZE);
            s = set_data bp (bytes_put (b_data (bufs s bp)) (off mod BSIZE) (\<lambda>i. src ! i) m) s in
        rbind (log_write bp s) (\<lambda>s.
        rbind (brelse bp s) (\<lambda>s.
        writei_loop ip (drop m src) (off + m) s)))))"
  by pat_completeness auto
termination
  by (relation "measure (\<lambda>(ip, src, off, s). length src)") (auto simp: length_greater_0_conv [symmetric] simp del: length_greater_0_conv)

declare readi_loop.simps [simp del]
declare writei_loop.simps [simp del]

definition writei :: "(nat \<Rightarrow> 'a fs_st_scheme devsw) \<Rightarrow> nat \<Rightarrow> uchar list \<Rightarrow> uint \<Rightarrow> 'a fs_st_scheme
    \<Rightarrow> (int \<times> 'a fs_st_scheme) res" where
  "writei dsw ip src off s =
     rbind (fsupdtime s) (\<lambda>s.
     let s = s\<lparr>fs_sb := (fs_sb s)\<lparr>sb_modtime := curtime s\<rparr>\<rparr>;
         s = upd_inode ip (\<lambda>i. i\<lparr>i_mtime := curtime s\<rparr>) s; i = icache s ip;
         n = of_nat (length src) in
     if i_type i = T_DEV then
       (case dev_entry dsw (i_major i) d_write of
          None \<Rightarrow> Inr (- 1, s)
        | Some f \<Rightarrow> f ip src s)
     else if off > i_size i \<or> off + n < off then Inr (- 1, s)
     else if off + n > of_nat (MAXFILE * BSIZE) then Inr (- 1, s)
     else
       rbind (writei_loop ip src (unat off) s) (\<lambda>s.
       let off = off + n in
       if n > 0 \<and> off > i_size (icache s ip) then
         rbind (iupdate ip (upd_inode ip (\<lambda>i. i\<lparr>i_size := off\<rparr>) s)) (\<lambda>s. Inr (sint n, s))
       else Inr (sint n, s)))"

section \<open>Inodes on disk\<close>

lemma upt_11: "[0..<11] = [0, 1, 2, 3, 4, 5, 6, 7, 8, 9, 10 :: nat]"
  by (simp add: upt_rec numeral_eq_Suc)

text \<open>The fields of an inode that live on disk, with the ones that do not taken from another inode.\<close>

definition disk_fields :: "inode \<Rightarrow> inode \<Rightarrow> inode" where
  "disk_fields i j =
     j\<lparr>i_type := i_type i, i_major := i_major i, i_minor := i_minor i, i_nlink := i_nlink i,
       i_size := i_size i, i_mtime := i_mtime i, i_atime := i_atime i,
       i_addrs := (\<lambda>k. if k < NDIRECT + 1 then i_addrs i k else i_addrs j k)\<rparr>"

lemma load_store_dinode: "load_dinode (store_dinode d p i) p j = disk_fields i j"
proof -
  have "(\<lambda>k. if k < NDIRECT + 1 then i_addrs i k else i_addrs j k) =
    (i_addrs j)(0 := i_addrs i 0, 1 := i_addrs i 1, 2 := i_addrs i 2, 3 := i_addrs i 3, 4 := i_addrs i 4,
      5 := i_addrs i 5, 6 := i_addrs i 6, 7 := i_addrs i 7, 8 := i_addrs i 8, 9 := i_addrs i 9, 10 := i_addrs i 10)"
  proof (rule ext)
    fix k :: nat
    have "k < 11 \<longleftrightarrow> k \<in> set [0..<11]" by simp
    then have "k < 11 \<longleftrightarrow> k \<in> {0, 1, 2, 3, 4, 5, 6, 7, 8, 9, 10}" unfolding upt_11 by simp
    then show "(if k < NDIRECT + 1 then i_addrs i k else i_addrs j k) = ((i_addrs j)(0 := i_addrs i 0,
      1 := i_addrs i 1, 2 := i_addrs i 2, 3 := i_addrs i 3, 4 := i_addrs i 4, 5 := i_addrs i 5,
      6 := i_addrs i 6, 7 := i_addrs i 7, 8 := i_addrs i 8, 9 := i_addrs i 9, 10 := i_addrs i 10)) k" by auto
  qed
  then show ?thesis
    unfolding load_dinode_def store_dinode_def disk_fields_def Let_def
    by (simp add: upt_11 byte_simps)
qed

lemma store_dinode_other: "q < p \<or> p + 72 \<le> q \<Longrightarrow> store_dinode d p i q = d q"
  unfolding store_dinode_def Let_def
  by (simp add: upt_11 wr32_other wr16_other) (auto simp: wr32_other wr16_other)

lemma load_dinode_cong:
  assumes "\<And>q. p \<le> q \<Longrightarrow> q < p + 72 \<Longrightarrow> d q = e q"
  shows "load_dinode d p i = load_dinode e p i"
proof -
  have "rd32 d (p + k) = rd32 e (p + k)" if "k \<le> 68" for k
    by (rule rd32_cong) (use that in \<open>auto intro!: assms\<close>)
  moreover have r: "rd16 d (p + k) = rd16 e (p + k)" if "k \<le> 6" for k
    by (rule rd16_cong) (use that in \<open>auto intro!: assms\<close>)
  moreover note r [of 0] r [of 2]
  ultimately show ?thesis
    unfolding load_dinode_def by (simp add: upt_11 add.assoc)
qed

text \<open>Inodes in the same block do not overlap.\<close>

lemma dip_disjoint:
  assumes "unat m mod IPB \<noteq> unat n mod IPB"
  shows "load_dinode (store_dinode d (dip n) i) (dip m) j = load_dinode d (dip m) j"
proof (rule load_dinode_cong)
  fix q assume q: "dip m \<le> q" "q < dip m + 72"
  have "dip n + 72 \<le> dip m \<or> dip m + 72 \<le> dip n" using assms unfolding dip_def by linarith
  then show "store_dinode d (dip n) i q = d q" using q by (intro store_dinode_other) linarith
qed

section \<open>The state of the file system around the block layer\<close>

text \<open>The block layer does not look at the state of \<^verbatim>\<open>fs.c\<close>.\<close>

lemma fs_content [simp]:
  "content (icache_update f s) = content s" "content (fs_sb_update g s) = content s"
  "content (curtime_update h s) = content s" "content (cmos_reads_update k s) = content s"
  by (rule ext, rule content_cong; simp)+

lemma fs_views [simp]:
  "locked_blocks (icache_update f s) = locked_blocks s" "locked_blocks (fs_sb_update g s) = locked_blocks s"
  "locked_blocks (curtime_update h s) = locked_blocks s" "locked_blocks (cmos_reads_update k s) = locked_blocks s"
  "dirty_blocks (icache_update f s) = dirty_blocks s" "dirty_blocks (fs_sb_update g s) = dirty_blocks s"
  "dirty_blocks (curtime_update h s) = dirty_blocks s" "dirty_blocks (cmos_reads_update k s) = dirty_blocks s"
  "holds (icache_update f s) = holds s" "holds (fs_sb_update g s) = holds s"
  "holds (curtime_update h s) = holds s" "holds (cmos_reads_update k s) = holds s"
  "home_block (icache_update f s) = home_block s" "home_block (fs_sb_update g s) = home_block s"
  "home_block (curtime_update h s) = home_block s" "home_block (cmos_reads_update k s) = home_block s"
  "in_op (icache_update f s) = in_op s" "in_op (fs_sb_update g s) = in_op s"
  "in_op (curtime_update h s) = in_op s" "in_op (cmos_reads_update k s) = in_op s"
  by (simp_all add: locked_blocks_def dirty_blocks_def holds_def home_block_def in_op_def fun_eq_iff)

lemma fs_solo [simp]:
  "solo (icache_update f s) = solo s" "solo (fs_sb_update g s) = solo s"
  "solo (curtime_update h s) = solo s" "solo (cmos_reads_update k s) = solo s"
  by (simp_all add: solo_def bio_inv_def)

lemma fs_log_inv [simp]:
  "log_inv (icache_update f s) = log_inv s" "log_inv (fs_sb_update g s) = log_inv s"
  "log_inv (curtime_update h s) = log_inv s" "log_inv (cmos_reads_update k s) = log_inv s"
  by (simp_all add: log_inv_def logged_def)

lemma fs_room [simp]:
  "room n (icache_update f s) = room n s" "room n (fs_sb_update g s) = room n s"
  "room n (curtime_update h s) = room n s" "room n (cmos_reads_update k s) = room n s"
  by (simp_all add: room_def)

text \<open>
  What an operation on inodes keeps of the block layer: as \<open>did\<close>, but the state of \<^verbatim>\<open>fs.c\<close> itself
  may change.
\<close>

definition wrote :: "nat \<Rightarrow> 'a fs_st_scheme \<Rightarrow> 'a fs_st_scheme \<Rightarrow> bool" where
  "wrote k s t \<longleftrightarrow> log_inv t \<and> locked_blocks t = locked_blocks s \<and> nat (lh_n t) \<le> nat (lh_n s) + k
     \<and> log_size t = log_size s \<and> in_op t = in_op s \<and> home_block t = home_block s \<and> mypid t = mypid s
     \<and> (\<forall>j c. holds s j c \<longrightarrow> holds t j c)"

lemma did_wrote: "did k s t \<Longrightarrow> wrote k s t"
  unfolding wrote_def did_def
  using same_outer_op [of s t] same_outer_log(2,6) [of s t] by auto

lemma wrote_trans: "wrote k s t \<Longrightarrow> wrote m t u \<Longrightarrow> wrote (k + m) s u"
  by (auto simp: wrote_def)

lemma wrote_mono: "wrote k s t \<Longrightarrow> k \<le> m \<Longrightarrow> wrote m s t"
  by (auto simp: wrote_def)

lemma wrote_room: "room (k + m) s \<Longrightarrow> wrote k s t \<Longrightarrow> room m t"
  by (auto simp: room_def wrote_def)

lemma wrote_refl: "log_inv s \<Longrightarrow> wrote k s s"
  by (simp add: wrote_def)

lemma wrote_keeps:
  assumes "wrote k s t"
  shows "locked_blocks t = locked_blocks s" and "home_block t = home_block s" and "mypid t = mypid s"
    and "in_op t = in_op s" and "log_inv t"
  using assms by (simp_all add: wrote_def)

lemma wrote_fields [simp]:
  "wrote k (icache_update f s) t = wrote k s t" "wrote k s (icache_update f t) = wrote k s t"
  "wrote k (fs_sb_update g s) t = wrote k s t" "wrote k s (fs_sb_update g t) = wrote k s t"
  "wrote k (curtime_update h s) t = wrote k s t" "wrote k s (curtime_update h t) = wrote k s t"
  "wrote k (cmos_reads_update r s) t = wrote k s t" "wrote k s (cmos_reads_update r t) = wrote k s t"
  by (simp_all add: wrote_def)

lemma iupdate_ok:
  assumes "room 1 s" and "i_dev (icache s ip) = ROOTDEV" and "home_block s (IBLOCK (i_inum (icache s ip)) (fs_sb s))"
    and "IBLOCK (i_inum (icache s ip)) (fs_sb s) \<notin> locked_blocks s"
  shows "\<exists>t. iupdate ip s = Inr t \<and> did 1 s t \<and> content t = (content s)(IBLOCK (i_inum (icache s ip)) (fs_sb s) :=
    store_dinode (content s (IBLOCK (i_inum (icache s ip)) (fs_sb s))) (dip (i_inum (icache s ip))) (icache s ip))
    \<and> logs {IBLOCK (i_inum (icache s ip)) (fs_sb s)} s t"
proof -
  let ?B = "IBLOCK (i_inum (icache s ip)) (fs_sb s)"
  from change_did [OF assms(1,3,4)] obtain i t where a: "bread ROOTDEV ?B s = Inr (i, t)"
    "b_data (bufs t i) = content s ?B"
    and c: "\<And>d. \<exists>u v. log_write i (set_data i d t) = Inr u \<and> brelse i u = Inr v
      \<and> did 1 s v \<and> content v = (content s)(?B := d) \<and> logs {?B} s v" by blast
  from c [of "store_dinode (content s ?B) (dip (i_inum (icache s ip))) (icache s ip)"] a show ?thesis
    by (auto simp: iupdate_def Let_def assms(2))
qed

lemma brelse_icache:
  "brelse i (icache_update f s) = (case brelse i s of Inl e \<Rightarrow> Inl e | Inr t \<Rightarrow> Inr (icache_update f t))"
  by (simp add: brelse_def Let_def upd_buf_def)

lemma upd_inode_icache: "upd_inode ip f s = icache_update (\<lambda>ic. ic(ip := f (ic ip))) s"
  by (simp add: upd_inode_def)

lemma icache_upd_inode [simp]: "icache (upd_inode ip f s) = (icache s)(ip := f (icache s ip))"
  "fs_sb (upd_inode ip f s) = fs_sb s" "mypid (upd_inode ip f s) = mypid s"
  by (simp_all add: upd_inode_def)

text \<open>\<^verbatim>\<open>ilock\<close>: a valid entry is only locked; another one is filled from the disk.\<close>

lemma acquiresleep_free: "\<not> sl_locked lk \<Longrightarrow> acquiresleep p lk = Inr \<lparr>sl_locked = True, sl_pid = p\<rparr>"
  by (cases lk) (simp add: acquiresleep_def)

lemma load_dinode_lock: "load_dinode d p (i\<lparr>i_lock := l\<rparr>) = (load_dinode d p i)\<lparr>i_lock := l\<rparr>"
  by (cases i) (simp add: load_dinode_def)

lemma load_dinode_fields [simp]:
  "i_dev (load_dinode d p i) = i_dev i" "i_inum (load_dinode d p i) = i_inum i" "i_ref (load_dinode d p i) = i_ref i"
  "i_lock (load_dinode d p i) = i_lock i" "i_valid (load_dinode d p i) = i_valid i"
  by (simp_all add: load_dinode_def)

lemma ilock_valid:
  assumes "1 \<le> i_ref (icache s ip)" and "\<not> sl_locked (i_lock (icache s ip))" and "i_valid (icache s ip)"
  shows "ilock (Some ip) s = Inr (upd_inode ip (\<lambda>i. i\<lparr>i_lock := \<lparr>sl_locked = True, sl_pid = mypid s\<rparr>\<rparr>) s)"
  using assms by (auto simp: ilock_def acquiresleep_free Let_def)

lemma ilock_load:
  assumes r: "room 1 s" and i: "i = icache s ip" "1 \<le> i_ref i" "\<not> sl_locked (i_lock i)" "\<not> i_valid i"
    "i_dev i = ROOTDEV" and B: "B = IBLOCK (i_inum i) (fs_sb s)" "home_block s B" "B \<notin> locked_blocks s"
    and j: "j = (load_dinode (content s B) (dip (i_inum i)) i)\<lparr>i_lock := \<lparr>sl_locked = True, sl_pid = mypid s\<rparr>, i_valid := True\<rparr>"
  shows "if i_type j = 0 then ilock (Some ip) s = Inl (Panic ''ilock: no type'')
    else \<exists>t. ilock (Some ip) s = Inr t \<and> wrote 0 s t \<and> content t = content s \<and> icache t = (icache s)(ip := j)
      \<and> fs_sb t = fs_sb s \<and> fs_cmos t = fs_cmos s"
proof -
  let ?l = "\<lparr>sl_locked = True, sl_pid = mypid s\<rparr>"
  let ?s = "upd_inode ip (\<lambda>i. i\<lparr>i_lock := ?l\<rparr>) s"
  have "room 1 ?s" "home_block ?s B" "B \<notin> locked_blocks ?s" using r B by (simp_all add: upd_inode_icache)
  from look_did [OF this] obtain b t u where t: "bread ROOTDEV B ?s = Inr (b, t)"
    "b_data (bufs t b) = content s B" "same_outer ?s t" "brelse b t = Inr u" "did 0 ?s u" "content u = content s"
    unfolding upd_inode_icache fs_content by blast
  note et = same_outer_fs [OF t(3)] and eu = same_outer_fs [OF did_outer [OF t(5)]]
  have w: "wrote 0 s u" using did_wrote [OF t(5)] by (simp add: upd_inode_icache)
  let ?u = "upd_inode ip (\<lambda>i. i\<lparr>i_valid := True\<rparr>) (upd_inode ip (load_dinode (content s B) (dip (i_inum i))) u)"
  have ic: "icache ?u = (icache s)(ip := j)"
    by (simp add: eu j i(1) load_dinode_lock)
  moreover have "i_type (load_dinode (content s B) (dip (i_inum i)) (icache u ip)) = i_type j"
    by (simp add: eu j i(1) load_dinode_lock)
  ultimately have "ilock (Some ip) s = (if i_type j = 0 then Inl (Panic ''ilock: no type'') else Inr ?u)"
    using i B(1) t(1,2,4)
    by (auto simp: ilock_def acquiresleep_free Let_def upd_inode_icache brelse_icache load_dinode_lock)
  moreover have "wrote 0 s ?u" "content ?u = content s" "fs_sb ?u = fs_sb s" "fs_cmos ?u = fs_cmos s"
    using w t(6) eu(1,4) by (simp_all add: upd_inode_icache)
  ultimately show ?thesis using ic by auto
qed

section \<open>The inode cache\<close>

definition names_inode :: "uint \<Rightarrow> uint \<Rightarrow> inode \<Rightarrow> bool" where
  "names_inode dev inum i \<longleftrightarrow> i_dev i = dev \<and> i_inum i = inum"

text \<open>No inode is cached twice.\<close>

definition icache_inv :: "'a fs_st_scheme \<Rightarrow> bool" where
  "icache_inv s \<longleftrightarrow> (\<forall>i<NINODE. 0 \<le> i_ref (icache s i))
     \<and> (\<forall>i<NINODE. \<forall>j<NINODE. 0 < i_ref (icache s i) \<and> 0 < i_ref (icache s j)
          \<and> names_inode (i_dev (icache s j)) (i_inum (icache s j)) (icache s i) \<longrightarrow> i = j)"

text \<open>The number of pointers to an inode that the cache counts.\<close>

definition refs :: "'a fs_st_scheme \<Rightarrow> uint \<Rightarrow> uint \<Rightarrow> int" where
  "refs s dev inum = (\<Sum>i<NINODE. if names_inode dev inum (icache s i) then i_ref (icache s i) else 0)"

lemma sum_update:
  fixes f :: "nat \<Rightarrow> int"
  assumes "k < n" and "\<And>i. i < n \<Longrightarrow> i \<noteq> k \<Longrightarrow> g i = f i"
  shows "(\<Sum>i<n. g i) = (\<Sum>i<n. f i) - f k + g k"
proof -
  have k: "k \<in> {..<n}" using assms(1) by simp
  have "(\<Sum>i\<in>{..<n} - {k}. g i) = (\<Sum>i\<in>{..<n} - {k}. f i)" by (rule sum.cong) (auto simp: assms(2))
  then show ?thesis
    by (simp add: sum.remove [OF finite_lessThan k, of g] sum.remove [OF finite_lessThan k, of f])
qed

text \<open>Changing the entry \<open>k\<close>, whose old or new name is the one asked for.\<close>

lemma refs_upd_inode:
  assumes "k < NINODE"
  shows "refs (upd_inode k f s) d n = refs s d n
    - (if names_inode d n (icache s k) then i_ref (icache s k) else 0)
    + (if names_inode d n (f (icache s k)) then i_ref (f (icache s k)) else 0)"
  unfolding refs_def by (subst sum_update [OF assms]) simp_all

lemma iget_cases:
  obtains (cached) i where "i < NINODE" "0 < i_ref (icache s i)" "names_inode dev inum (icache s i)"
      "iget dev inum s = Inr (i, upd_inode i (\<lambda>ip. ip\<lparr>i_ref := i_ref ip + 1\<rparr>) s)"
  | (recycled) i where "i < NINODE" "i_ref (icache s i) = 0"
      "\<And>j. j < NINODE \<Longrightarrow> 0 < i_ref (icache s j) \<Longrightarrow> \<not> names_inode dev inum (icache s j)"
      "iget dev inum s = Inr (i, upd_inode i (\<lambda>ip. ip\<lparr>i_dev := dev, i_inum := inum, i_ref := 1, i_valid := False\<rparr>) s)"
  | (full) "\<And>j. j < NINODE \<Longrightarrow> i_ref (icache s j) \<noteq> 0"
      "\<And>j. j < NINODE \<Longrightarrow> 0 < i_ref (icache s j) \<Longrightarrow> \<not> names_inode dev inum (icache s j)"
      "iget dev inum s = Inl (Panic ''iget: no inodes'')"
proof (cases "find (\<lambda>i. i_ref (icache s i) > 0 \<and> i_dev (icache s i) = dev \<and> i_inum (icache s i) = inum) [0..<NINODE]")
  case (Some i)
  note f = Some [unfolded find_upt_Some_iff]
  show thesis
  proof (rule cached)
    show "i < NINODE" "0 < i_ref (icache s i)" "names_inode dev inum (icache s i)"
      using f by (auto simp: names_inode_def)
  qed (simp add: iget_def Some)
next
  case None
  then have none: "\<not> names_inode dev inum (icache s j)" if "j < NINODE" "0 < i_ref (icache s j)" for j
    using that by (auto simp: find_upt_None_iff names_inode_def)
  show thesis
  proof (cases "find (\<lambda>i. i_ref (icache s i) = 0) [0..<NINODE]")
    case empty: (Some i)
    note f = empty [unfolded find_upt_Some_iff]
    show thesis by (rule recycled [of i]) (use f none in \<open>simp_all add: iget_def None empty\<close>)
  next
    case full': None
    then have "i_ref (icache s j) \<noteq> 0" if "j < NINODE" for j using that by (auto simp: find_upt_None_iff)
    then show thesis by (rule full) (use none in \<open>simp_all add: iget_def None full'\<close>)
  qed
qed

lemma icache_inv_upd:
  assumes "icache_inv s" and "0 \<le> i_ref (f (icache s k))"
    and "\<And>j. j < NINODE \<Longrightarrow> j \<noteq> k \<Longrightarrow> 0 < i_ref (icache s j) \<Longrightarrow> 0 < i_ref (f (icache s k))
      \<Longrightarrow> \<not> names_inode (i_dev (f (icache s k))) (i_inum (f (icache s k))) (icache s j)"
  shows "icache_inv (upd_inode k f s)"
  unfolding icache_inv_def
proof (intro conjI allI impI, goal_cases)
  case (1 i)
  then show ?case using assms(1,2) by (simp add: icache_inv_def)
next
  case (2 i j)
  have u: "i = j" if "i < NINODE" "j < NINODE" "0 < i_ref (icache s i)" "0 < i_ref (icache s j)"
    "names_inode (i_dev (icache s j)) (i_inum (icache s j)) (icache s i)" for i j
    using assms(1) that unfolding icache_inv_def by blast
  consider "i = j" | "i = k" "j \<noteq> k" | "j = k" "i \<noteq> k" | "i \<noteq> k" "j \<noteq> k" by blast
  then show ?case
  proof cases
    case 2
    with assms(3) [of j] \<open>j < NINODE\<close> \<open>_ \<and> _\<close> show ?thesis by (simp add: names_inode_def)
  next
    case 3
    with assms(3) [of i] \<open>i < NINODE\<close> \<open>_ \<and> _\<close> show ?thesis by simp
  next
    case 4
    with u [of i j] \<open>i < NINODE\<close> \<open>j < NINODE\<close> \<open>_ \<and> _\<close> show ?thesis by simp
  qed simp
qed

lemma icache_inv_count:
  assumes "icache_inv s" and "k < NINODE" and "0 < i_ref (icache s k)" and "0 \<le> i_ref (f (icache s k))"
    and "i_dev (f (icache s k)) = i_dev (icache s k)" and "i_inum (f (icache s k)) = i_inum (icache s k)"
  shows "icache_inv (upd_inode k f s)"
proof (rule icache_inv_upd [OF assms(1)])
  show "0 \<le> i_ref (f (icache s k))" by (rule assms(4))
next
  fix j assume "j < NINODE" "j \<noteq> k" "0 < i_ref (icache s j)"
  then have "\<not> names_inode (i_dev (icache s k)) (i_inum (icache s k)) (icache s j)"
    using assms(1,2,3) unfolding icache_inv_def by blast
  then show "\<not> names_inode (i_dev (f (icache s k))) (i_inum (f (icache s k))) (icache s j)"
    by (simp add: assms(5,6))
qed

lemma demo_icache [simp]: "icache demo_fs = (\<lambda>_. demo_inode)"
  by (simp add: demo_fs_def)

lemma demo_icache_inv: "icache_inv demo_fs"
  by (simp add: icache_inv_def demo_inode_def)

section \<open>Properties\<close>

text \<open>C14: \<^verbatim>\<open>iget\<close> keeps one cache entry per inode and counts references exactly: the entry it returns is
  the inode asked for, counted once more; a cached inode keeps what is known of it, a recycled entry
  starts out not valid; no other entry changes; and it panics only when every entry is in use by
  another inode.\<close>

theorem iget_correct:
  assumes "icache_inv s"
  shows "case iget dev inum s of
      Inl e \<Rightarrow> e = Panic ''iget: no inodes'' \<and> refs s dev inum = 0 \<and> (\<forall>j<NINODE. 0 < i_ref (icache s j))
    | Inr (i, t) \<Rightarrow> i < NINODE \<and> names_inode dev inum (icache t i) \<and> 0 < i_ref (icache t i) \<and> icache_inv t
        \<and> (\<forall>d n. refs t d n = refs s d n + (if d = dev \<and> n = inum then 1 else 0))
        \<and> (if 0 < refs s dev inum then icache t i = (icache s i)\<lparr>i_ref := i_ref (icache s i) + 1\<rparr>
           else \<not> i_valid (icache t i))
        \<and> (\<forall>j. j \<noteq> i \<longrightarrow> icache t j = icache s j)"
proof -
  have nn: "0 \<le> i_ref (icache s j)" if "j < NINODE" for j using assms that by (simp add: icache_inv_def)
  have zero: "refs s dev inum = 0" if "\<And>j. j < NINODE \<Longrightarrow> 0 < i_ref (icache s j) \<Longrightarrow> \<not> names_inode dev inum (icache s j)"
    unfolding refs_def by (rule sum.neutral) (use that nn in force)
  show ?thesis
  proof (cases rule: iget_cases [of s dev inum])
    case (cached i)
    have "0 < refs s dev inum" unfolding refs_def
      by (rule sum_pos2 [of _ i]) (use cached nn in auto)
    moreover have "icache_inv (upd_inode i (\<lambda>ip. ip\<lparr>i_ref := i_ref ip + 1\<rparr>) s)"
      by (rule icache_inv_count [OF assms cached(1,2)]) (use cached(2) in simp_all)
    moreover have "refs (upd_inode i (\<lambda>ip. ip\<lparr>i_ref := i_ref ip + 1\<rparr>) s) d n
      = refs s d n + (if d = dev \<and> n = inum then 1 else 0)" for d n
      using cached(3) by (simp add: refs_upd_inode [OF cached(1)] names_inode_def)
    ultimately show ?thesis using cached(1-3) by (simp add: cached(4) names_inode_def)
  next
    case (recycled i)
    have "icache_inv (upd_inode i (\<lambda>ip. ip\<lparr>i_dev := dev, i_inum := inum, i_ref := 1, i_valid := False\<rparr>) s)"
      by (rule icache_inv_upd [OF assms]) (use recycled(3) in simp_all)
    moreover have "refs (upd_inode i (\<lambda>ip. ip\<lparr>i_dev := dev, i_inum := inum, i_ref := 1, i_valid := False\<rparr>) s) d n
      = refs s d n + (if d = dev \<and> n = inum then 1 else 0)" for d n
      using recycled(2) by (auto simp: refs_upd_inode [OF recycled(1)] names_inode_def)
    ultimately show ?thesis
      using recycled(1) zero [OF recycled(3)] by (simp add: recycled(4) names_inode_def)
  next
    case full
    then show ?thesis using zero [OF full(2)] nn by (auto simp: less_le)
  qed
qed

theorem iget_correct_witness:
  "\<exists>i t. iget ROOTDEV 1 demo_fs = Inr (i, t) \<and> refs t ROOTDEV 1 = 1"
proof -
  note p = iget_correct [OF demo_icache_inv, of ROOTDEV 1]
  have z: "refs demo_fs ROOTDEV 1 = 0" by (simp add: refs_def demo_inode_def names_inode_def)
  have "\<not> (\<forall>j<NINODE. 0 < i_ref (icache demo_fs j))" by (auto simp: demo_inode_def intro: exI [of _ 0])
  with p z show ?thesis by (cases "iget ROOTDEV 1 demo_fs") auto
qed


lemma IBLOCK_same:
  assumes "IBLOCK m sb = IBLOCK n sb" and "m \<noteq> n"
  shows "unat m mod IPB \<noteq> unat n mod IPB"
proof -
  from assms(1) have "m div 7 = n div 7" by (simp add: IBLOCK_def)
  then have "unat (m div 7) = unat (n div 7)" by simp
  then have "unat m div IPB = unat n div IPB" by (simp add: unat_div)
  with assms(2) show ?thesis by (metis div_mult_mod_eq word_unat_eq_iff)
qed

text \<open>C22: What \<^verbatim>\<open>iupdate\<close> stores is what \<^verbatim>\<open>ilock\<close> reads back: when the cache entry of an inode has been
  recycled after an \<^verbatim>\<open>iupdate\<close> and the inode is cached again, in any entry, locking it restores every
  field that lives on disk; and the inodes that share the block read as before.\<close>

theorem iupdate_ilock_roundtrip:
  assumes "room 2 s" and "i = icache s ip" and "i_dev i = ROOTDEV" and "i_type i \<noteq> 0"
    and "home_block s (IBLOCK (i_inum i) (fs_sb s))" and "IBLOCK (i_inum i) (fs_sb s) \<notin> locked_blocks s"
    and "names_inode ROOTDEV (i_inum i) j" and "\<not> i_valid j" and "1 \<le> i_ref j" and "\<not> sl_locked (i_lock j)"
  shows "\<exists>t u. iupdate ip s = Inr t \<and> ilock (Some jp) (upd_inode jp (\<lambda>_. j) t) = Inr u
    \<and> icache u jp = (disk_fields i j)\<lparr>i_lock := \<lparr>sl_locked = True, sl_pid = mypid s\<rparr>, i_valid := True\<rparr>
    \<and> (\<forall>n x. n \<noteq> i_inum i \<longrightarrow> load_dinode (content t (IBLOCK n (fs_sb s))) (dip n) x
        = load_dinode (content s (IBLOCK n (fs_sb s))) (dip n) x)"
proof -
  let ?B = "IBLOCK (i_inum i) (fs_sb s)" and ?p = "dip (i_inum i)"
  have "room 1 s" by (rule room_mono [OF assms(1)]) simp
  from iupdate_ok [OF this, of ip] assms(2-6) obtain t where t: "iupdate ip s = Inr t" "did 1 s t"
    "content t = (content s)(?B := store_dinode (content s ?B) ?p i)" by auto
  note e = same_outer_fs [OF did_outer [OF t(2)]]
  have jn: "i_inum j = i_inum i" "i_dev j = ROOTDEV" using assms(7) by (simp_all add: names_inode_def)
  let ?t = "upd_inode jp (\<lambda>_. j) t"
  have r: "room 1 ?t" using did_room [OF _ t(2), of 1] assms(1) by (simp add: upd_inode_icache numeral_2_eq_2)
  have B: "home_block ?t ?B" "?B \<notin> locked_blocks ?t"
    using assms(5,6) did_home [OF t(2)] did_locked [OF t(2)] by (simp_all add: upd_inode_icache)
  have m: "mypid t = mypid s" using same_outer_log(6) [OF did_outer [OF t(2)]] .
  let ?j = "(disk_fields i j)\<lparr>i_lock := \<lparr>sl_locked = True, sl_pid = mypid s\<rparr>, i_valid := True\<rparr>"
  have j: "?j = (load_dinode (content ?t ?B) ?p j)\<lparr>i_lock := \<lparr>sl_locked = True, sl_pid = mypid ?t\<rparr>, i_valid := True\<rparr>"
    by (simp add: t(3) load_store_dinode upd_inode_icache m)
  have ty: "i_type ?j \<noteq> 0" using assms(4) by (simp add: disk_fields_def)
  from ilock_load [OF r, of j jp ?B ?j] assms(8-10) jn B j ty obtain u where
    u: "ilock (Some jp) ?t = Inr u" "icache u = (icache ?t)(jp := ?j)"
    by (auto simp: e)
  have "load_dinode (content t (IBLOCK n (fs_sb s))) (dip n) x = load_dinode (content s (IBLOCK n (fs_sb s))) (dip n) x"
    if "n \<noteq> i_inum i" for n x
    using dip_disjoint [OF IBLOCK_same [of n "fs_sb s" "i_inum i"]] that by (simp add: t(3))
  with t(1) u show ?thesis by (metis fun_upd_same)
qed

definition demo_file :: inode where
  "demo_file = demo_inode\<lparr>i_dev := 1, i_inum := 5, i_ref := 1, i_type := T_FILE, i_nlink := 1, i_size := 300,
     i_addrs := (\<lambda>_. 0)(0 := 200)\<rparr>"

theorem iupdate_ilock_roundtrip_witness:
  "\<exists>t u. iupdate 0 (demo_fs\<lparr>icache := \<lambda>_. demo_file\<rparr>) = Inr t
    \<and> ilock (Some 3) (upd_inode 3 (\<lambda>_. demo_file\<lparr>i_size := 0, i_addrs := (\<lambda>_. 0)\<rparr>) t) = Inr u
    \<and> i_size (icache u 3) = 300 \<and> i_addrs (icache u 3) 0 = 200"
proof -
  let ?s = "demo_fs\<lparr>icache := \<lambda>_. demo_file\<rparr>" and ?j = "demo_file\<lparr>i_size := 0, i_addrs := (\<lambda>_. 0)\<rparr>"
  have r: "room 2 ?s" using room_mono [OF demo_alloc_ok(4), of 2] by simp
  have B: "IBLOCK 5 (fs_sb ?s) = 62" by (simp add: IBLOCK_def demo_sb_decode)
  have "home_block ?s 62" by (simp add: demo_home)
  have f: "i_inum demo_file = 5" "i_dev demo_file = ROOTDEV" "i_type demo_file = T_FILE" "i_size demo_file = 300"
    "i_addrs demo_file 0 = 200" "i_ref demo_file = 1" "\<not> i_valid demo_file" "\<not> sl_locked (i_lock demo_file)"
    by (simp_all add: demo_file_def demo_inode_def initsleeplock_def)
  have "home_block ?s (IBLOCK (i_inum demo_file) (fs_sb ?s))" "IBLOCK (i_inum demo_file) (fs_sb ?s) \<notin> locked_blocks ?s"
    using \<open>home_block ?s 62\<close> by (simp_all add: f B [simplified] demo_fs_cache)
  note p = iupdate_ilock_roundtrip [OF r, of demo_file 0 ?j 3, OF _ f(2) _ this]
  obtain t u where "iupdate 0 ?s = Inr t" "ilock (Some 3) (upd_inode 3 (\<lambda>_. ?j) t) = Inr u"
    "icache u 3 = (disk_fields demo_file ?j)\<lparr>i_lock := \<lparr>sl_locked = True, sl_pid = mypid ?s\<rparr>, i_valid := True\<rparr>"
    using p by (auto simp: f names_inode_def)
  then show ?thesis by (auto simp: disk_fields_def f)
qed

end
