(* ===== verification/KData.thy ===== *)
theory KData
  imports KInode
begin

text \<open>
  The contents of files: what \<^verbatim>\<open>bmap\<close>, \<^verbatim>\<open>readi\<close> and \<^verbatim>\<open>writei\<close> of \<^verbatim>\<open>kernel/fs.c\<close> do to a file as a
  list of bytes.

  \<open>amap\<close> is the map from block numbers of a file to disk blocks that the direct addresses and the
  indirect block describe, \<open>file_bytes\<close> the list of bytes of a file. The lemmas cover the blocks that
  these reach (\<open>NDATA\<close> of them): the code for larger files uses words behind the address array, see
  \<open>KInode\<close>. They show that \<^verbatim>\<open>bmap\<close> extends this map by a fresh zeroed block where there was none and
  otherwise leaves it alone, that \<^verbatim>\<open>readi\<close> returns the bytes of the file, and that \<^verbatim>\<open>writei\<close> replaces
  exactly the bytes asked for and leaves every other file alone.
\<close>

section \<open>Allocation\<close>

definition free_blocks :: "'a fs_st_scheme \<Rightarrow> nat set" where
  "free_blocks s = {b. b < unat (sb_size (fs_sb s)) \<and> \<not> used s b}"

text \<open>The allocator can work, and block 0, which no file can name, is not free.\<close>

definition alloc_ok :: "'a fs_st_scheme \<Rightarrow> bool" where
  "alloc_ok s \<longleftrightarrow> map_layout s \<and> free_ok s \<and> map_quiet s \<and> used s 0"

text \<open>An allocated block outside the free map.\<close>

definition data_block :: "'a fs_st_scheme \<Rightarrow> uint \<Rightarrow> bool" where
  "data_block s b \<longleftrightarrow> unat b < unat (sb_size (fs_sb s)) \<and> used s (unat b) \<and> home_block s b
     \<and> (\<forall>c<unat (sb_size (fs_sb s)). BBLOCK (of_nat c) (fs_sb s) \<noteq> b)"

text \<open>From \<open>s\<close> to \<open>t\<close> a block has been allocated; nothing in use has changed.\<close>

definition grew :: "'a fs_st_scheme \<Rightarrow> uint \<Rightarrow> 'a fs_st_scheme \<Rightarrow> bool" where
  "grew s a t \<longleftrightarrow> a \<noteq> 0 \<and> unat a \<in> free_blocks s \<and> data_block t a \<and> alloc_ok t
     \<and> free_blocks t = free_blocks s - {unat a} \<and> (\<forall>k<BSIZE. content t a k = 0)
     \<and> (\<forall>b. data_block s b \<longrightarrow> data_block t b \<and> content t b = content s b)"

lemma finite_free [simp]: "finite (free_blocks s)"
  by (rule finite_subset [of _ "{..<unat (sb_size (fs_sb s))}"]) (auto simp: free_blocks_def)

lemma least_free:
  assumes "free_blocks s \<noteq> {}"
  obtains m where "m < unat (sb_size (fs_sb s))" "\<not> used s m" "\<And>b. b < m \<Longrightarrow> used s b"
proof -
  let ?P = "\<lambda>b. b < unat (sb_size (fs_sb s)) \<and> \<not> used s b"
  have "?P (LEAST b. ?P b)" by (rule LeastI_ex) (use assms in \<open>auto simp: free_blocks_def\<close>)
  then have m: "(LEAST b. ?P b) < unat (sb_size (fs_sb s))" "\<not> used s (LEAST b. ?P b)" by auto
  have "used s b" if "b < (LEAST b. ?P b)" for b
    using not_less_Least [OF that] that m(1) by auto
  with m show thesis by (rule that)
qed

lemma balloc_ok:
  assumes ok: "alloc_ok s" and r: "room 2 s" and f: "free_blocks s \<noteq> {}"
  obtains a t where "balloc ROOTDEV s = Inr (a, t)" and "did 2 s t" and "grew s a t"
    and "logs {a, BBLOCK a (fs_sb s)} s t"
proof -
  have lay: "map_layout s" and free: "free_ok s" and q: "map_quiet s" and u0: "used s 0"
    using ok by (simp_all add: alloc_ok_def)
  from least_free [OF f] obtain m where m: "m < unat (sb_size (fs_sb s))" "\<not> used s m" "\<And>b. b < m \<Longrightarrow> used s b" by blast
  from balloc_from_ok [OF lay free q r, of 0 m] m obtain t where
    t: "balloc ROOTDEV s = Inr (of_nat m, t)" "did 2 s t" "content t = taken m s"
      "logs {of_nat m, BBLOCK (of_nat m) (fs_sb s)} s t"
    by (auto simp: balloc_def)
  have sb: "fs_sb t = fs_sb s" using same_outer_fs(1) [OF did_outer [OF t(2)]] .
  have um: "unat (of_nat m :: uint) = m" using lay m(1) by (intro unat_small) (simp add: map_layout_def)
  note ut = used_taken [OF lay free m(1,2) t(3) sb]
  have hm: "home_block s (of_nat m)" "\<forall>c<unat (sb_size (fs_sb s)). BBLOCK (of_nat c) (fs_sb s) \<noteq> of_nat m"
    using free m by (auto simp: free_ok_def)
  have "alloc_ok t"
    unfolding alloc_ok_def map_layout_def free_ok_def map_quiet_def
    using lay free q u0 ut did_home [OF t(2)] did_locked [OF t(2)] m(1)
    by (auto simp: map_layout_def free_ok_def map_quiet_def sb)
  moreover have "data_block t (of_nat m)"
    using hm ut [OF m(1)] m(1) did_home [OF t(2)] by (auto simp: data_block_def sb um)
  moreover have "content t (of_nat m) k = 0" if "k < BSIZE" for k
    using that by (simp add: t(3) taken_def Let_def bytes_fill_def)
  moreover have "data_block t b \<and> content t b = content s b" if b: "data_block s b" for b
  proof -
    have "b \<noteq> of_nat m" using b m(2) um by (auto simp: data_block_def)
    moreover have "b \<noteq> BBLOCK (of_nat m) (fs_sb s)" using b m(1) by (auto simp: data_block_def)
    ultimately have "content t b = content s b" by (simp add: t(3) taken_def Let_def)
    with b ut [of "unat b"] did_home [OF t(2)] show ?thesis by (auto simp: data_block_def sb)
  qed
  moreover have "free_blocks t = free_blocks s - {m}" using ut by (auto simp: free_blocks_def sb)
  moreover have "unat (of_nat m :: uint) \<in> free_blocks s" using m um by (simp add: free_blocks_def)
  moreover have "(of_nat m :: uint) \<noteq> 0" using um u0 m(2) by (metis unat_0)
  ultimately have "grew s (of_nat m) t" by (simp add: grew_def um)
  with t(1,2) show thesis using t(4) by (intro that)
qed

lemma fresh_not_data: "unat a \<in> free_blocks s \<Longrightarrow> \<not> data_block s a"
  by (auto simp: free_blocks_def data_block_def)

lemma free_not_locked: "alloc_ok s \<Longrightarrow> unat a \<in> free_blocks s \<Longrightarrow> a \<notin> locked_blocks s"
  by (fastforce simp: free_blocks_def alloc_ok_def map_quiet_def)

text \<open>These notions do not depend on the cached inodes, nor on the clock.\<close>

lemma fs_alloc [simp]:
  "used (icache_update f s) = used s" "used (curtime_update h s) = used s" "used (cmos_reads_update k s) = used s"
  "data_block (icache_update f s) = data_block s" "data_block (curtime_update h s) = data_block s"
  "data_block (cmos_reads_update k s) = data_block s"
  "free_blocks (icache_update f s) = free_blocks s" "free_blocks (curtime_update h s) = free_blocks s"
  "free_blocks (cmos_reads_update k s) = free_blocks s"
  "alloc_ok (icache_update f s) = alloc_ok s" "alloc_ok (curtime_update h s) = alloc_ok s"
  "alloc_ok (cmos_reads_update k s) = alloc_ok s"
  by (simp_all add: fun_eq_iff used_def data_block_def free_blocks_def alloc_ok_def map_layout_def free_ok_def map_quiet_def)

section \<open>The blocks of a file\<close>

abbreviation "NDATA \<equiv> 138 :: nat"

definition amap :: "(uint \<Rightarrow> bytes) \<Rightarrow> inode \<Rightarrow> nat \<Rightarrow> uint" where
  "amap c i n = (if n < NDIRECT then i_addrs i n
     else if i_addrs i NDIRECT = 0 then 0 else rd32 (c (i_addrs i NDIRECT)) (4 * (n - NDIRECT)))"

definition file_blocks :: "(uint \<Rightarrow> bytes) \<Rightarrow> inode \<Rightarrow> uint set" where
  "file_blocks c i = {b. b \<noteq> 0 \<and> (b = i_addrs i NDIRECT \<or> (\<exists>n<NDATA. b = amap c i n))}"

text \<open>The blocks of a file are allocated, different from each other, and not in use by anyone else now.\<close>

definition file_ok :: "'a fs_st_scheme \<Rightarrow> inode \<Rightarrow> bool" where
  "file_ok s i \<longleftrightarrow> i_dev i = ROOTDEV
     \<and> (\<forall>b\<in>file_blocks (content s) i. data_block s b \<and> b \<notin> locked_blocks s)
     \<and> (\<forall>m<NDATA. \<forall>n<NDATA. amap (content s) i m \<noteq> 0 \<and> amap (content s) i m = amap (content s) i n \<longrightarrow> m = n)
     \<and> (\<forall>n<NDATA. amap (content s) i n \<noteq> 0 \<longrightarrow> amap (content s) i n \<noteq> i_addrs i NDIRECT)"

lemma file_ok_block:
  assumes "file_ok s i" and "n < NDATA" and "amap (content s) i n \<noteq> 0"
  shows "data_block s (amap (content s) i n)" and "amap (content s) i n \<notin> locked_blocks s"
    and "amap (content s) i n \<noteq> i_addrs i NDIRECT" and "home_block s (amap (content s) i n)"
  using assms by (auto simp: file_ok_def file_blocks_def data_block_def)

lemma file_ok_ind:
  assumes "file_ok s i" and "i_addrs i NDIRECT \<noteq> 0"
  shows "data_block s (i_addrs i NDIRECT)" and "i_addrs i NDIRECT \<notin> locked_blocks s" and "home_block s (i_addrs i NDIRECT)"
  using assms by (auto simp: file_ok_def file_blocks_def data_block_def)

lemma amap_cong:
  assumes "i_addrs i NDIRECT \<noteq> 0 \<Longrightarrow> c (i_addrs i NDIRECT) = d (i_addrs i NDIRECT)"
  shows "amap c i = amap d i"
  by (rule ext) (use assms in \<open>auto simp: amap_def\<close>)

lemma grew_file:
  assumes "grew s a t" and "file_ok s i" and "locked_blocks t = locked_blocks s"
  shows "amap (content t) i = amap (content s) i" and "file_ok t i" and "a \<notin> file_blocks (content s) i"
proof -
  have d: "data_block t b \<and> content t b = content s b" if "data_block s b" for b using assms(1) that by (auto simp: grew_def)
  show m: "amap (content t) i = amap (content s) i"
    by (rule amap_cong) (use d file_ok_ind [OF assms(2)] in blast)
  have b: "file_blocks (content t) i = file_blocks (content s) i" by (simp add: file_blocks_def m)
  show "file_ok t i" using assms(2,3) d unfolding file_ok_def m b by auto
  show "a \<notin> file_blocks (content s) i"
    using assms(1,2) fresh_not_data [of a s] by (auto simp: grew_def file_ok_def)
qed


text \<open>
  The room a write needs in the log: the blocks that are already logged, the free map and the indirect block of the
  file count once, however often they are changed.
\<close>

definition map_blocks :: "'a fs_st_scheme \<Rightarrow> uint set" where
  "map_blocks s = (\<lambda>c. BBLOCK (of_nat c) (fs_sb s)) ` {..<unat (sb_size (fs_sb s))}"

definition ind_set :: "inode \<Rightarrow> uint set" where
  "ind_set i = (if i_addrs i NDIRECT = 0 then {} else {i_addrs i NDIRECT})"

definition no_ind :: "inode \<Rightarrow> nat" where
  "no_ind i = (if i_addrs i NDIRECT = 0 then 1 else 0)"

definition log_need :: "'a fs_st_scheme \<Rightarrow> inode \<Rightarrow> nat" where
  "log_need s i = card (dirty_blocks s \<union> map_blocks s \<union> ind_set i) + no_ind i"

definition fits :: "nat \<Rightarrow> 'a fs_st_scheme \<Rightarrow> inode \<Rightarrow> bool" where
  "fits k s i \<longleftrightarrow> log_inv s \<and> in_op s \<and> log_need s i + k + 3 \<le> nat (log_size s - 1)
     \<and> log_need s i + card (locked_blocks s) + k + 3 \<le> NBUF"

definition stays :: "'a fs_st_scheme \<Rightarrow> 'a fs_st_scheme \<Rightarrow> bool" where
  "stays s t \<longleftrightarrow> fs_sb t = fs_sb s \<and> (\<exists>k. wrote k s t)"

lemma stays_trans: "stays s t \<Longrightarrow> stays t u \<Longrightarrow> stays s u"
  unfolding stays_def using wrote_trans by fastforce

lemma stays_fields:
  assumes "stays s t"
  shows "locked_blocks t = locked_blocks s" and "home_block t = home_block s" and "in_op t = in_op s" and "log_inv t"
    and "log_size t = log_size s" and "fs_sb t = fs_sb s" and "map_blocks t = map_blocks s"
  using assms by (auto simp: stays_def wrote_def map_blocks_def)

lemma did_stays: "did k s t \<Longrightarrow> stays s t"
  unfolding stays_def using did_wrote [of k s t] same_outer_fs(1) [OF did_outer [of k s t]] by blast

lemma stays_icache [simp]: "stays s (icache_update f t) = stays s t" "stays (icache_update f s) t = stays s t"
  by (simp_all add: stays_def)

lemma map_blocks_icache [simp]: "map_blocks (icache_update f s) = map_blocks s"
  by (simp add: map_blocks_def)

lemma log_need_icache [simp]: "log_need (icache_update f s) i = log_need s i"
  by (simp add: log_need_def)

lemma finite_map_blocks [simp]: "finite (map_blocks s)"
  by (simp add: map_blocks_def)

lemma dirty_count:
  assumes "log_inv s"
  shows "finite (dirty_blocks s)" and "nat (lh_n s) = card (dirty_blocks s)"
proof -
  have "dirty_blocks s = logged s" using assms by (simp add: log_inv_def)
  moreover have "card (logged s) = nat (lh_n s)"
    using assms by (auto simp: log_inv_def head_ok_def logged_def card_image)
  ultimately show "finite (dirty_blocks s)" "nat (lh_n s) = card (dirty_blocks s)"
    by (simp_all add: logged_def)
qed

lemma fits_room: "fits k s i \<Longrightarrow> room 3 s"
proof -
  assume f: "fits k s i"
  then have inv: "log_inv s" by (simp add: fits_def)
  have "card (dirty_blocks s) \<le> card (dirty_blocks s \<union> map_blocks s \<union> ind_set i)"
    by (rule card_mono) (auto simp: dirty_count(1) [OF inv] ind_set_def)
  then have "nat (lh_n s) \<le> log_need s i" by (simp add: dirty_count [OF inv] log_need_def)
  with f show ?thesis by (auto simp: fits_def room_def)
qed

lemma data_not_map: "data_block s b \<Longrightarrow> b \<notin> map_blocks s"
  by (auto simp: data_block_def map_blocks_def)

lemma grew_map_block: "grew s a t \<Longrightarrow> BBLOCK a (fs_sb s) \<in> map_blocks s"
proof -
  assume "grew s a t"
  then have "unat a < unat (sb_size (fs_sb s))" by (simp add: grew_def free_blocks_def)
  then have "BBLOCK (of_nat (unat a)) (fs_sb s) \<in> map_blocks s" unfolding map_blocks_def by blast
  then show ?thesis by simp
qed

lemma grew_logs:
  assumes "grew s a t" and "logs {a, BBLOCK a (fs_sb s)} s t" and "fs_sb t = fs_sb s"
  shows "dirty_blocks t \<union> map_blocks t = insert a (dirty_blocks s \<union> map_blocks s)"
  using grew_map_block [OF assms(1)] assms(2,3) by (auto simp: logs_def map_blocks_def)


text \<open>A step that leaves the map of the file as it was; it may have given the file its indirect block.\<close>

definition kept :: "'a fs_st_scheme \<Rightarrow> inode \<Rightarrow> 'a fs_st_scheme \<Rightarrow> inode \<Rightarrow> bool" where
  "kept s i t i' \<longleftrightarrow> stays s t \<and> i' = i\<lparr>i_addrs := i_addrs i'\<rparr> \<and> file_ok t i' \<and> alloc_ok t
     \<and> (\<forall>n<NDATA. amap (content t) i' n = amap (content s) i n)
     \<and> (\<forall>b. data_block s b \<longrightarrow> data_block t b \<and> content t b = content s b)
     \<and> file_blocks (content t) i' \<subseteq> file_blocks (content s) i \<union> {b. \<not> data_block s b}
     \<and> ind_set i' \<subseteq> ind_set i \<union> {b. \<not> data_block s b}
     \<and> log_need t i' \<le> log_need s i \<and> card (free_blocks s) + no_ind i' \<le> card (free_blocks t) + no_ind i"

lemma kept_icache [simp]:
  "file_ok (icache_update f s) i = file_ok s i" "kept s i (icache_update f t) i' = kept s i t i'"
  by (simp_all add: kept_def file_ok_def)

lemma kept_refl: "log_inv s \<Longrightarrow> file_ok s i \<Longrightarrow> alloc_ok s \<Longrightarrow> kept s i s i"
  by (auto simp: kept_def stays_def intro: wrote_refl)

lemma rd32_zeros: "(\<And>k. k < BSIZE \<Longrightarrow> d k = 0) \<Longrightarrow> p + 4 \<le> BSIZE \<Longrightarrow> rd32 d p = 0"
  by (simp add: rd32_def)

lemma amap_new_ind:
  assumes "i_addrs i NDIRECT = 0" and "\<And>k. k < BSIZE \<Longrightarrow> c a k = 0" and "n < NDATA"
  shows "amap c (i\<lparr>i_addrs := (i_addrs i)(NDIRECT := a)\<rparr>) n = amap c i n"
  using assms by (auto simp: amap_def intro!: rd32_zeros)

lemma file_blocks_new_ind:
  assumes "i_addrs i NDIRECT = 0" and "\<And>k. k < BSIZE \<Longrightarrow> c a k = 0" and "a \<noteq> 0"
  shows "file_blocks c (i\<lparr>i_addrs := (i_addrs i)(NDIRECT := a)\<rparr>) = insert a (file_blocks c i)"
proof -
  have "(\<exists>n<NDATA. b = amap c (i\<lparr>i_addrs := (i_addrs i)(NDIRECT := a)\<rparr>) n) \<longleftrightarrow> (\<exists>n<NDATA. b = amap c i n)" for b
    using amap_new_ind [where c = c and a = a, OF assms(1,2)] by auto
  then show ?thesis using assms by (auto simp: file_blocks_def)
qed

lemma new_ind_ok:
  assumes g: "grew s a t" and f: "file_ok s i" and st: "stays s t" and lg: "logs {a, BBLOCK a (fs_sb s)} s t"
    and z: "i_addrs i NDIRECT = 0" and ok: "alloc_ok s"
  shows "kept s i t (i\<lparr>i_addrs := (i_addrs i)(NDIRECT := a)\<rparr>)"
proof -
  let ?i = "i\<lparr>i_addrs := (i_addrs i)(NDIRECT := a)\<rparr>"
  note sf = stays_fields [OF st]
  note gf = grew_file [OF g f sf(1)]
  have zero: "\<And>k. k < BSIZE \<Longrightarrow> content t a k = 0" and a: "a \<noteq> 0" "data_block t a" "alloc_ok t" "unat a \<in> free_blocks s"
    and fr: "free_blocks t = free_blocks s - {unat a}"
    and d: "\<And>b. data_block s b \<Longrightarrow> data_block t b \<and> content t b = content s b"
    using g by (auto simp: grew_def)
  have m: "amap (content t) ?i n = amap (content s) i n" if "n < NDATA" for n
    using amap_new_ind [where c = "content t" and a = a, OF z zero that] gf(1) by simp
  have bl: "file_blocks (content t) ?i = insert a (file_blocks (content s) i)"
    using file_blocks_new_ind [where c = "content t" and a = a, OF z zero a(1)] by (simp add: file_blocks_def gf(1))
  have "a \<notin> locked_blocks t" using free_not_locked [OF ok a(4)] sf(1) by simp
  then have "file_ok t ?i"
    using gf f a(1,2) d sf(1) unfolding file_ok_def bl by (auto simp: m file_blocks_def)
  moreover have "log_need t ?i \<le> log_need s i"
    using grew_logs [OF g lg sf(6)] card_insert_le_m1 [of "Suc (card (dirty_blocks s \<union> map_blocks s))" "dirty_blocks s \<union> map_blocks s" a]
    by (simp add: log_need_def ind_set_def no_ind_def z a(1))
  moreover have "card (free_blocks s) + no_ind ?i \<le> card (free_blocks t) + no_ind i"
    using a(4) by (simp add: fr no_ind_def z a(1) card_Diff_singleton)
  ultimately show ?thesis
    using st a fr d m bl fresh_not_data [OF a(4)] by (auto simp: kept_def ind_set_def)
qed

lemma ind_ok:
  assumes f: "fits k s (icache s ip)" and fok: "file_ok s (icache s ip)" and ok: "alloc_ok s"
    and fr: "no_ind (icache s ip) \<le> card (free_blocks s)"
  obtains t i' where "bmap_addr ip NDIRECT s = Inr (i_addrs i' NDIRECT, t)" and "icache t = (icache s)(ip := i')"
    and "kept s (icache s ip) t i'" and "i_addrs i' NDIRECT \<noteq> 0"
proof (cases "i_addrs (icache s ip) NDIRECT = 0")
  case False
  have inv: "log_inv s" using f by (simp add: fits_def)
  show ?thesis
    by (rule that [of "icache s ip" s]) (use False kept_refl [OF inv fok ok] in \<open>simp_all add: bmap_addr_def get_addr_def\<close>)
next
  case True
  let ?i = "icache s ip"
  have r: "room 2 s" by (rule room_mono [OF fits_room [OF f]]) simp
  have ne: "free_blocks s \<noteq> {}" using fr True by (auto simp: no_ind_def)
  from balloc_ok [OF ok r ne] obtain a t where a: "balloc ROOTDEV s = Inr (a, t)" "did 2 s t" "grew s a t"
    "logs {a, BBLOCK a (fs_sb s)} s t" by blast
  have ic: "icache t = icache s" by (rule same_outer_fs [OF did_outer [OF a(2)]])
  have dev: "i_dev ?i = ROOTDEV" using fok by (simp add: file_ok_def)
  let ?j = "?i\<lparr>i_addrs := (i_addrs ?i)(NDIRECT := a)\<rparr>"
  have k: "kept s ?i t ?j" by (rule new_ind_ok [OF a(3) fok did_stays [OF a(2)] a(4) True ok])
  have nz: "a \<noteq> 0" using a(3) by (simp add: grew_def)
  show ?thesis
  proof (rule that [of ?j "upd_inode ip (set_addr NDIRECT a) t"])
    show "bmap_addr ip NDIRECT s = Inr (i_addrs ?j NDIRECT, upd_inode ip (set_addr NDIRECT a) t)"
      using True a(1) dev by (simp add: bmap_addr_def get_addr_def)
    show "icache (upd_inode ip (set_addr NDIRECT a) t) = (icache s)(ip := ?j)" by (simp add: ic set_addr_def)
    show "kept s ?i (upd_inode ip (set_addr NDIRECT a) t) ?j"
      using k by (simp add: upd_inode_icache)
    show "i_addrs ?j NDIRECT \<noteq> 0" using nz by simp
  qed
qed


text \<open>Block \<open>bn\<close> of the file is now \<open>a\<close>: where the file had a block there it is that one, otherwise a fresh zeroed one.\<close>

definition mapped :: "'a fs_st_scheme \<Rightarrow> inode \<Rightarrow> 'a fs_st_scheme \<Rightarrow> inode \<Rightarrow> nat \<Rightarrow> uint \<Rightarrow> bool" where
  "mapped s i t i' bn a \<longleftrightarrow> stays s t \<and> i' = i\<lparr>i_addrs := i_addrs i'\<rparr> \<and> file_ok t i' \<and> alloc_ok t
     \<and> a \<noteq> 0 \<and> amap (content t) i' bn = a
     \<and> (\<forall>n<NDATA. n \<noteq> bn \<longrightarrow> amap (content t) i' n = amap (content s) i n)
     \<and> (if amap (content s) i bn = 0 then \<forall>k<BSIZE. content t a k = 0 else a = amap (content s) i bn)
     \<and> (\<forall>b. data_block s b \<longrightarrow> data_block t b \<and> (b \<notin> ind_set i \<longrightarrow> content t b = content s b))
     \<and> file_blocks (content t) i' \<subseteq> file_blocks (content s) i \<union> {b. \<not> data_block s b}
     \<and> card (insert a (dirty_blocks t \<union> map_blocks t \<union> ind_set i')) + no_ind i' \<le> log_need s i + 1
     \<and> card (free_blocks s) + no_ind i' \<le> card (free_blocks t) + 1 + no_ind i"

lemma mapped_icache [simp]: "mapped s i (icache_update f t) i' bn a = mapped s i t i' bn a"
  by (simp add: mapped_def)

lemma stays_refl: "log_inv s \<Longrightarrow> stays s s"
  unfolding stays_def by (auto intro: wrote_refl)

lemma stays_need: "stays s t \<Longrightarrow> logs {} s t \<Longrightarrow> log_need t i = log_need s i"
  by (simp add: log_need_def stays_fields logs_def)

text \<open>A step that changes no block: a read.\<close>

lemma same_notions:
  assumes "content t = content s" and "stays s t"
  shows "used t = used s" and "data_block t = data_block s" and "free_blocks t = free_blocks s"
    and "alloc_ok t = alloc_ok s" and "file_ok t = file_ok s" and "map_blocks t = map_blocks s"
proof -
  note f = assms(1) stays_fields [OF assms(2)]
  show u: "used t = used s" by (rule ext) (simp add: used_def f)
  show d: "data_block t = data_block s" by (rule ext) (simp add: data_block_def u f)
  show "free_blocks t = free_blocks s" by (simp add: free_blocks_def u f)
  show "alloc_ok t = alloc_ok s" by (simp add: alloc_ok_def map_layout_def free_ok_def map_quiet_def u f)
  show "file_ok t = file_ok s" by (rule ext) (simp add: file_ok_def d f)
  show "map_blocks t = map_blocks s" by (rule f)
qed

lemma kept_mapped:
  assumes k: "kept s i t i'" and m: "mapped t i' u i'' bn a" and "bn < NDATA"
  shows "mapped s i u i'' bn a"
proof -
  note K = k [unfolded kept_def]
  note M = m [unfolded mapped_def]
  have "data_block u b \<and> (b \<notin> ind_set i \<longrightarrow> content u b = content s b)" if "data_block s b" for b
  proof -
    from K that have "data_block t b" "content t b = content s b" "b \<in> ind_set i' \<longrightarrow> b \<in> ind_set i" by auto
    with M show ?thesis by auto
  qed
  moreover have "file_blocks (content u) i'' \<subseteq> file_blocks (content s) i \<union> {b. \<not> data_block s b}" using K M by blast
  moreover have "i'' = i\<lparr>i_addrs := i_addrs i''\<rparr>"
  proof -
    have a: "i'' = i'\<lparr>i_addrs := i_addrs i''\<rparr>" and b: "i' = i\<lparr>i_addrs := i_addrs i'\<rparr>" using K M by auto
    show ?thesis by (subst a, subst b) simp
  qed
  ultimately show ?thesis
    using K M assms(3) stays_trans [of s t u] unfolding mapped_def by auto
qed

lemma mapped_old:
  assumes "stays s t" and "content t = content s" and "logs {} s t" and "file_ok s i" and "alloc_ok s"
    and "amap (content s) i bn \<noteq> 0" and "bn < NDATA"
  shows "mapped s i t i bn (amap (content s) i bn)"
proof -
  note n = same_notions [OF assms(2,1)]
  let ?X = "dirty_blocks s \<union> map_blocks s \<union> ind_set i"
  have "card (insert (amap (content s) i bn) ?X) \<le> Suc (card ?X)" by (simp add: card_insert_le_m1)
  then have "card (insert (amap (content s) i bn) (dirty_blocks t \<union> map_blocks t \<union> ind_set i)) + no_ind i \<le> log_need s i + 1"
    using assms(3) by (simp add: log_need_def n logs_def)
  then show ?thesis using assms by (simp add: mapped_def n)
qed


text \<open>
  Entry \<open>bn\<close> of the file gets the fresh block \<open>a\<close>; the entry is in the inode or in its indirect block, which is the only
  block changed besides those of \<^verbatim>\<open>balloc\<close>.
\<close>

lemma grew_other:
  assumes g: "grew s a t" and ok: "alloc_ok s" and c: "\<And>b. b \<notin> X \<Longrightarrow> content u b = content t b"
    and X: "\<And>b. b \<in> X \<Longrightarrow> data_block s b"
    and e: "fs_sb t = fs_sb s" "fs_sb u = fs_sb s" "home_block t = home_block s" "home_block u = home_block s"
      "locked_blocks u = locked_blocks s"
  shows "alloc_ok u" and "data_block u = data_block t" and "free_blocks u = free_blocks t"
proof -
  have sz: "unat a < unat (sb_size (fs_sb s))" "unat a \<in> free_blocks s" using g by (auto simp: grew_def free_blocks_def)
  have u: "used u b = used t b" if "b < unat (sb_size (fs_sb s))" for b
  proof -
    have "BBLOCK (of_nat b) (fs_sb s) \<notin> X" using X that by (auto simp: data_block_def)
    then show ?thesis using c by (simp add: used_def e)
  qed
  show "data_block u = data_block t" by (rule ext) (use u in \<open>auto simp: data_block_def e\<close>)
  show fr: "free_blocks u = free_blocks t" using u by (auto simp: free_blocks_def e)
  have sub: "used s b \<Longrightarrow> used u b" if "b < unat (sb_size (fs_sb s))" for b
    using that u [OF that] g by (auto simp: grew_def free_blocks_def e)
  have "used u 0" using sub sz ok by (auto simp: alloc_ok_def)
  then show "alloc_ok u" using ok sub
    by (auto simp: alloc_ok_def map_layout_def free_ok_def map_quiet_def e)
qed

lemma mapped_new:
  assumes g: "grew s a t" and ok: "alloc_ok s" and f: "file_ok s i" and z: "amap (content s) i bn = 0" and bn: "bn < NDATA"
    and c: "\<And>b. b \<notin> ind_set i \<Longrightarrow> content u b = content t b"
    and st: "stays s u" and t: "fs_sb t = fs_sb s" "home_block t = home_block s"
    and i': "i' = i\<lparr>i_addrs := h\<rparr>" "h NDIRECT = i_addrs i NDIRECT"
    and m: "\<And>n. n < NDATA \<Longrightarrow> amap (content u) i' n = (if n = bn then a else amap (content s) i n)"
    and inv: "log_inv s" and lg: "dirty_blocks u \<subseteq> insert a (dirty_blocks s \<union> map_blocks s \<union> ind_set i)"
  shows "mapped s i u i' bn a"
proof -
  note sf = stays_fields [OF st]
  have X: "data_block s b" if "b \<in> ind_set i" for b using that file_ok_ind [OF f] by (auto simp: ind_set_def split: if_splits)
  note o = grew_other [OF g ok c X t(1) sf(6) t(2) sf(2) sf(1)]
  have a: "a \<noteq> 0" "data_block u a" "unat a \<in> free_blocks s" "\<not> data_block s a"
    using g fresh_not_data [of a s] by (auto simp: grew_def o)
  have d: "data_block u b \<and> (b \<notin> ind_set i \<longrightarrow> content u b = content s b)" if "data_block s b" for b
    using g that c by (auto simp: grew_def o)
  have same: "ind_set i' = ind_set i" "no_ind i' = no_ind i" by (simp_all add: ind_set_def no_ind_def i')
  have bl: "file_blocks (content u) i' = insert a (file_blocks (content s) i)"
    using m z bn a(1) by (auto simp: file_blocks_def i' split: if_splits)
  have na: "a \<notin> file_blocks (content s) i" using f a(4) by (auto simp: file_ok_def)
  have "file_ok u i'"
    using f a free_not_locked [OF ok a(3)] d na sf(1) unfolding file_ok_def bl
    by (auto simp: m [unfolded i'(1)] i' file_blocks_def split: if_splits)
  moreover have "content u a k = 0" if "k < BSIZE" for k
  proof -
    have "a \<notin> ind_set i" using X a(4) by blast
    with c g that show ?thesis by (simp add: grew_def)
  qed
  moreover have "card (insert a (dirty_blocks u \<union> map_blocks u \<union> ind_set i')) + no_ind i' \<le> log_need s i + 1"
  proof -
    let ?X = "dirty_blocks s \<union> map_blocks s \<union> ind_set i"
    have fin: "finite ?X" using dirty_count(1) [OF inv] by (simp add: ind_set_def)
    have "card (insert a (dirty_blocks u \<union> map_blocks u \<union> ind_set i')) \<le> card (insert a ?X)"
      by (rule card_mono) (use fin lg sf(7) same in auto)
    also have "\<dots> \<le> Suc (card ?X)" by (rule card_insert_le_m1) auto
    finally show ?thesis by (simp add: log_need_def same)
  qed
  moreover have "card (free_blocks s) + no_ind i' \<le> card (free_blocks u) + 1 + no_ind i"
    using g a(3) by (auto simp: o same grew_def card_Diff_singleton)
  ultimately show ?thesis
    using st o(1) a d m z bn bl i' by (auto simp: mapped_def)
qed


section \<open>Finding a block of a file\<close>

lemma direct_ok:
  assumes f: "fits k s (icache s ip)" and fok: "file_ok s (icache s ip)" and ok: "alloc_ok s"
    and fr: "0 < card (free_blocks s)" and bn: "bn < NDIRECT"
  obtains t i' where "bmap_addr ip bn s = Inr (amap (content t) i' bn, t)" and "icache t = (icache s)(ip := i')"
    and "mapped s (icache s ip) t i' bn (amap (content t) i' bn)"
proof (cases "amap (content s) (icache s ip) bn = 0")
  case False
  have inv: "log_inv s" using f by (simp add: fits_def)
  have m: "mapped s (icache s ip) s (icache s ip) bn (amap (content s) (icache s ip) bn)"
    by (rule mapped_old [OF stays_refl [OF inv] _ _ fok ok False]) (use bn in \<open>simp_all add: logs_def\<close>)
  have g: "get_addr (icache s ip) bn = amap (content s) (icache s ip) bn" using bn by (simp add: get_addr_def amap_def)
  show ?thesis
    by (rule that [of s "icache s ip"]) (use m False g in \<open>simp_all add: bmap_addr_def\<close>)
next
  case True
  let ?i = "icache s ip"
  have r: "room 2 s" by (rule room_mono [OF fits_room [OF f]]) simp
  have ne: "free_blocks s \<noteq> {}" using fr by auto
  from balloc_ok [OF ok r ne] obtain a t where a: "balloc ROOTDEV s = Inr (a, t)" "did 2 s t" "grew s a t"
    "logs {a, BBLOCK a (fs_sb s)} s t" by blast
  let ?j = "?i\<lparr>i_addrs := (i_addrs ?i)(bn := a)\<rparr>"
  note st = did_stays [OF a(2)]
  note gl = grew_logs [OF a(3,4) stays_fields(6) [OF st]]
  note gf = grew_file [OF a(3) fok stays_fields(1) [OF st]]
  have am: "amap (content t) ?j n = (if n = bn then a else amap (content s) ?i n)" for n
    using bn gf(1) [THEN fun_cong, of n] by (auto simp: amap_def)
  have lg: "dirty_blocks t \<subseteq> insert a (dirty_blocks s \<union> map_blocks s \<union> ind_set ?i)" using gl by auto
  have inv: "log_inv s" using f by (simp add: fits_def)
  have m: "mapped s ?i t ?j bn a"
    by (rule mapped_new [where h = "(i_addrs ?i)(bn := a)", OF a(3) ok fok True _ _ st stays_fields(6,2) [OF st] _ _ _ inv lg])
      (use bn am in auto)
  have ic: "icache t = icache s" by (rule same_outer_fs [OF did_outer [OF a(2)]])
  have dev: "i_dev ?i = ROOTDEV" using fok by (simp add: file_ok_def)
  have z: "get_addr ?i bn = 0" using True bn by (simp add: get_addr_def amap_def)
  show ?thesis
    by (rule that [of "upd_inode ip (set_addr bn a) t" ?j])
      (use m a(1) am [of bn] bn ic dev z in \<open>simp_all add: bmap_addr_def set_addr_def upd_inode_icache\<close>)
qed


lemma alloc_ok_hold:
  assumes "alloc_ok s" and "data_block s b" and "content t = content s" and "fs_sb t = fs_sb s"
    and "home_block t = home_block s" and "locked_blocks t = insert b (locked_blocks s)"
  shows "alloc_ok t" and "free_blocks t = free_blocks s" and "data_block t = data_block s"
proof -
  have u: "used t = used s" by (rule ext) (simp add: used_def assms(3,4))
  show "free_blocks t = free_blocks s" "data_block t = data_block s"
    by (simp_all add: free_blocks_def data_block_def fun_eq_iff u assms(4,5))
  show "alloc_ok t"
    using assms(1,2) by (auto simp: alloc_ok_def map_layout_def free_ok_def map_quiet_def u assms(4-6) data_block_def unat_small)
qed

text \<open>The indirect block is held while a block is allocated for one of its entries.\<close>

lemma slot_alloc:
  assumes r: "room 3 s" and ok: "alloc_ok s" and fr: "free_blocks s \<noteq> {}" and b: "data_block s b" "b \<notin> locked_blocks s"
    and z: "rd32 (content s b) (4 * j) = 0"
  obtains a t u where "bmap_slot ROOTDEV b j s = Inr (a, u)" and "grew s a t" and "did 3 s u"
    and "content u = (content t)(b := wr32 (content s b) (4 * j) a)" and "logs {b, a, BBLOCK a (fs_sb s)} s u"
    and "fs_sb t = fs_sb s" and "home_block t = home_block s"
proof -
  have inv: "log_inv s" and hb: "home_block s b" and rm: "nat (lh_n s) + card (locked_blocks s) < NBUF"
    using r b(1) by (auto simp: room_def data_block_def)
  from txn.rd_law [OF inv hb b(2) rm] obtain i s1 where s1: "bread ROOTDEV b s = Inr (i, s1)" "log_inv s1"
    "holds s1 i b" "content s1 = content s" "disk s1 1 = disk s 1" "locked_blocks s1 = insert b (locked_blocks s)"
    "dirty_blocks s1 = dirty_blocks s" "nat (lh_n s1) = nat (lh_n s)" "same_outer s s1" "\<forall>j c. holds s j c \<longrightarrow> holds s1 j c"
    by blast
  note o1 = same_outer_fs(1) [OF s1(9)] same_outer_op [OF s1(9)]
  have ah: "alloc_ok s1" "free_blocks s1 = free_blocks s" "data_block s1 = data_block s"
    using alloc_ok_hold [OF ok b(1) s1(4) o1(1) _ s1(6)] o1(2) by auto
  have "card (locked_blocks s1) \<le> Suc (card (locked_blocks s))" by (simp add: s1(6) card_insert_le_m1)
  then have "room 2 s1" using r o1 s1(2,8) by (auto simp: room_def)
  from balloc_ok [OF ah(1) this] fr ah(2) obtain a t where a: "balloc ROOTDEV s1 = Inr (a, t)" "did 2 s1 t" "grew s1 a t"
    "logs {a, BBLOCK a (fs_sb s1)} s1 t" by auto
  have ht: "holds t i b" using a(2) s1(3) by (simp add: did_def)
  have ct: "content t b = content s b" using a(3) b(1) ah(3) s1(4) by (auto simp: grew_def)
  have it: "log_inv t" by (rule did_inv [OF a(2)])
  have gs: "grew s a t" using a(3) by (simp add: grew_def ah s1(4))
  let ?d = "wr32 (content s b) (4 * j) a"
  have st: "same_outer s t" by (rule same_outer_trans [OF s1(9) did_outer [OF a(2)]])
  note ot = same_outer_op [OF st]
  have c: "nat (lh_n t) \<le> nat (lh_n s) + 2" using a(2) s1(8) by (simp add: did_def)
  then have pre: "in_op t" "home_block t b" "nat (lh_n t) < nat (log_size t - 1)" using ot r hb by (auto simp: room_def)
  from txn.change_held [OF it ht pre, of ?d] obtain q where q: "log_write i (set_data i ?d t) = Inr q" "log_inv q"
    "content q = (content t)(b := ?d)" "disk q 1 = disk t 1" "locked_blocks q = locked_blocks t"
    "dirty_blocks q = insert b (dirty_blocks t)" "nat (lh_n q) \<le> nat (lh_n t) + 1" "same_outer t q"
    "\<forall>j c. holds t j c \<longrightarrow> holds q j c" by blast
  have "holds q i b" "b \<in> dirty_blocks q \<or> content q b = disk q 1 b" using q(6,9) ht by auto
  from txn.rel_law [OF q(2) this] obtain u where u: "brelse i q = Inr u" "log_inv u" "content u = content q"
    "disk u 1 = disk q 1" "locked_blocks u = locked_blocks q - {b}" "dirty_blocks u = dirty_blocks q"
    "nat (lh_n u) = nat (lh_n q)" "same_outer q u" "\<forall>j c. c \<noteq> b \<longrightarrow> holds q j c \<longrightarrow> holds u j c" by blast
  have keep: "holds u x c" if "holds s x c" for x c
    using that held_not [OF b(2) that] s1(10) a(2) q(9) u(9) by (auto simp: did_def)
  have "did 3 s u"
    using u q s1 a(2) c b(2) keep same_outer_trans [OF same_outer_trans [OF st q(8)] u(8)] by (auto simp: did_def)
  moreover have "logs {b, a, BBLOCK a (fs_sb s)} s u" using a(4) by (auto simp: logs_def u(6) q(6) s1(7) o1)
  moreover have "content u = (content t)(b := ?d)" by (simp add: u(3) q(3))
  moreover have "bmap_slot ROOTDEV b j s = Inr (a, u)"
    using s1(1) a(1) q(1) u(1) z txn.get_held [OF s1(2,3)] txn.get_held [OF it ht] by (simp add: bmap_slot_def s1(4) ct Let_def)
  moreover have "fs_sb t = fs_sb s" "home_block t = home_block s"
    using same_outer_fs(1) [OF did_outer [OF a(2)]] did_home [OF a(2)] o1 by auto
  ultimately show thesis using gs by (intro that)
qed


lemma slot_ok:
  assumes f: "fits k s (icache s ip)" and fok: "file_ok s (icache s ip)" and ok: "alloc_ok s"
    and fr: "0 < card (free_blocks s)" and bn: "NDIRECT \<le> bn" "bn < NDATA" and ind: "i_addrs (icache s ip) NDIRECT \<noteq> 0"
  obtains t where "bmap_slot ROOTDEV (i_addrs (icache s ip) NDIRECT) (bn - NDIRECT) s = Inr (amap (content t) (icache s ip) bn, t)"
    and "icache t = icache s" and "mapped s (icache s ip) t (icache s ip) bn (amap (content t) (icache s ip) bn)"
proof -
  let ?i = "icache s ip" and ?b = "i_addrs (icache s ip) NDIRECT"
  note I = file_ok_ind [OF fok ind]
  have inv: "log_inv s" using f by (simp add: fits_def)
  have am: "amap c ?i n = rd32 (c ?b) (4 * (n - NDIRECT))" if "NDIRECT \<le> n" for n c
    using that ind by (simp add: amap_def)
  show ?thesis
  proof (cases "amap (content s) ?i bn = 0")
    case False
    have r: "room 1 s" by (rule room_mono [OF fits_room [OF f]]) simp
    from look_did [OF r I(3,2)] obtain j t u where u: "bread ROOTDEV ?b s = Inr (j, t)" "b_data (bufs t j) = content s ?b"
      "brelse j t = Inr u" "did 0 s u" "content u = content s" "logs {} s u" by blast
    have "mapped s ?i u ?i bn (amap (content s) ?i bn)"
      by (rule mapped_old [OF did_stays [OF u(4)] u(5,6) fok ok False bn(2)])
    moreover have "icache u = icache s" by (rule same_outer_fs [OF did_outer [OF u(4)]])
    ultimately show ?thesis using that [of u] u False am [OF bn(1)] by (simp add: bmap_slot_def Let_def)
  next
    case True
    have ne: "free_blocks s \<noteq> {}" using fr by auto
    from slot_alloc [OF fits_room [OF f] ok ne I(1,2) True [unfolded am [OF bn(1)]]] obtain a t u where
      u: "bmap_slot ROOTDEV ?b (bn - NDIRECT) s = Inr (a, u)" "grew s a t" "did 3 s u"
        "content u = (content t)(?b := wr32 (content s ?b) (4 * (bn - NDIRECT)) a)" "logs {?b, a, BBLOCK a (fs_sb s)} s u"
        "fs_sb t = fs_sb s" "home_block t = home_block s" by blast
    have m: "amap (content u) ?i n = (if n = bn then a else amap (content s) ?i n)" if "n < NDATA" for n
    proof (cases "n < NDIRECT")
      case True
      then show ?thesis using bn by (simp add: amap_def)
    next
      case False
      then have "4 * (n - NDIRECT) + 4 \<le> 4 * (bn - NDIRECT) \<or> 4 * (bn - NDIRECT) + 4 \<le> 4 * (n - NDIRECT)" if "n \<noteq> bn"
        using that bn by arith
      with False show ?thesis by (simp add: am u(4) rd32_wr32_other)
    qed
    have lg: "dirty_blocks u \<subseteq> insert a (dirty_blocks s \<union> map_blocks s \<union> ind_set ?i)"
      using u(5) ind grew_map_block [OF u(2)] by (auto simp: logs_def ind_set_def)
    have "mapped s ?i u ?i bn a"
      by (rule mapped_new [where h = "i_addrs ?i", OF u(2) ok fok True bn(2) _ did_stays [OF u(3)] u(6,7) _ _ m inv lg])
        (use ind u(4) in \<open>simp_all add: ind_set_def\<close>)
    moreover have "icache u = icache s" by (rule same_outer_fs [OF did_outer [OF u(3)]])
    ultimately show ?thesis using that [of u] u(1) m [OF bn(2)] by simp
  qed
qed

lemma fits_kept: "fits k s i \<Longrightarrow> kept s i t i' \<Longrightarrow> fits k t i'"
  by (auto simp: fits_def kept_def stays_fields)

lemma mapped_fits: "fits (Suc k) s i \<Longrightarrow> mapped s i t i' bn a \<Longrightarrow> fits k t i'"
proof -
  assume f: "fits (Suc k) s i" and m: "mapped s i t i' bn a"
  then have st: "stays s t" and c: "card (insert a (dirty_blocks t \<union> map_blocks t \<union> ind_set i')) + no_ind i' \<le> log_need s i + 1"
    by (auto simp: mapped_def)
  have fin: "finite (dirty_blocks t \<union> map_blocks t \<union> ind_set i')"
    using dirty_count(1) [OF stays_fields(4) [OF st]] by (simp add: ind_set_def)
  have "log_need t i' \<le> log_need s i + 1"
    using c card_mono [OF finite.insertI [OF fin] subset_insertI, of a] by (simp add: log_need_def)
  then show ?thesis using f st by (auto simp: fits_def stays_fields)
qed

lemma bmap_ok:
  assumes f: "fits k s (icache s ip)" and fok: "file_ok s (icache s ip)" and ok: "alloc_ok s"
    and fr: "no_ind (icache s ip) < card (free_blocks s)" and bn: "bn < NDATA"
  obtains t i' where "bmap ip bn s = Inr (amap (content t) i' bn, t)" and "icache t = (icache s)(ip := i')"
    and "mapped s (icache s ip) t i' bn (amap (content t) i' bn)"
proof (cases "bn < NDIRECT")
  case True
  have "0 < card (free_blocks s)" using fr by simp
  from direct_ok [OF f fok ok this True] obtain t i' where "bmap_addr ip bn s = Inr (amap (content t) i' bn, t)"
    "icache t = (icache s)(ip := i')" "mapped s (icache s ip) t i' bn (amap (content t) i' bn)" by blast
  then show ?thesis using that [of t i'] True by (simp add: bmap_def)
next
  case False
  let ?i = "icache s ip"
  have "no_ind ?i \<le> card (free_blocks s)" using fr by simp
  from ind_ok [OF f fok ok this] obtain t i' where t: "bmap_addr ip NDIRECT s = Inr (i_addrs i' NDIRECT, t)"
    "icache t = (icache s)(ip := i')" "kept s ?i t i'" "i_addrs i' NDIRECT \<noteq> 0" by blast
  have dev: "i_dev ?i = ROOTDEV" using fok by (simp add: file_ok_def)
  have less: "bn - NDIRECT < NINDIRECT" using bn False by arith
  have "0 < card (free_blocks t)" using t(3,4) fr by (auto simp: kept_def no_ind_def)
  moreover have i': "icache t ip = i'" by (simp add: t(2))
  moreover have "file_ok t i'" "alloc_ok t" "NDIRECT \<le> bn" using t(3) False by (auto simp: kept_def)
  ultimately obtain u where u: "bmap_slot ROOTDEV (i_addrs i' NDIRECT) (bn - NDIRECT) t = Inr (amap (content u) i' bn, u)"
    "icache u = icache t" "mapped t i' u i' bn (amap (content u) i' bn)"
    using slot_ok [of k t ip bn, unfolded i'] fits_kept [OF f t(3)] bn t(4) by blast
  show ?thesis
  proof (rule that [of u i'])
    show "bmap ip bn s = Inr (amap (content u) i' bn, u)" using False t(1) u(1) dev less by (simp add: bmap_def Let_def)
    show "icache u = (icache s)(ip := i')" using u(2) t(2) by simp
    show "mapped s ?i u i' bn (amap (content u) i' bn)" by (rule kept_mapped [OF t(3) u(3) bn])
  qed
qed


section \<open>The bytes of a file\<close>

definition file_byte :: "(uint \<Rightarrow> bytes) \<Rightarrow> inode \<Rightarrow> nat \<Rightarrow> uchar" where
  "file_byte c i p = c (amap c i (p div BSIZE)) (p mod BSIZE)"

definition file_bytes :: "'a fs_st_scheme \<Rightarrow> inode \<Rightarrow> uchar list" where
  "file_bytes s i = map (file_byte (content s) i) [0..<unat (i_size i)]"

lemma length_file_bytes [simp]: "length (file_bytes s i) = unat (i_size i)"
  by (simp add: file_bytes_def)

text \<open>Every byte below the size has a block.\<close>

definition whole :: "'a fs_st_scheme \<Rightarrow> inode \<Rightarrow> bool" where
  "whole s i \<longleftrightarrow> unat (i_size i) \<le> NDATA * BSIZE \<and> (\<forall>n<NDATA. n * BSIZE < unat (i_size i) \<longrightarrow> amap (content s) i n \<noteq> 0)"

subsection \<open>Reading\<close>

text \<open>Nothing but the order of the buffers has changed. The reads need no transaction.\<close>

definition looked :: "'a fs_st_scheme \<Rightarrow> 'a fs_st_scheme \<Rightarrow> bool" where
  "looked s t \<longleftrightarrow> did 0 s t \<and> content t = content s \<and> logs {} s t"

definition can_read :: "'a fs_st_scheme \<Rightarrow> bool" where
  "can_read s \<longleftrightarrow> log_inv s \<and> nat (lh_n s) + card (locked_blocks s) < NBUF"

lemma looked_refl: "log_inv s \<Longrightarrow> looked s s"
  by (simp add: looked_def did_refl logs_def)

lemma looked_trans: "looked s t \<Longrightarrow> looked t u \<Longrightarrow> looked s u"
  unfolding looked_def using did0_trans [of s t 0 u] by (auto simp: logs_def)

lemma looked_keeps:
  assumes "looked s t"
  shows "content t = content s" and "icache t = icache s" and "stays s t" and "can_read s \<Longrightarrow> can_read t"
    and "file_ok t = file_ok s" and "alloc_ok t = alloc_ok s" and "whole t = whole s" and "log_inv t" and "fs_sb t = fs_sb s"
proof -
  have d: "did 0 s t" and c: "content t = content s" using assms by (auto simp: looked_def)
  note st = did_stays [OF d]
  show "content t = content s" "stays s t" by (fact c st)+
  show "icache t = icache s" "fs_sb t = fs_sb s" by (rule same_outer_fs [OF did_outer [OF d]])+
  show "can_read s \<Longrightarrow> can_read t" using d by (auto simp: can_read_def did_def)
  show "file_ok t = file_ok s" "alloc_ok t = alloc_ok s" using same_notions [OF c st] by auto
  show "whole t = whole s" by (rule ext) (simp add: whole_def c)
  show "log_inv t" by (rule did_inv [OF d])
qed

lemma look_block:
  assumes "can_read s" and "home_block s b" and "b \<notin> locked_blocks s"
  obtains i t u where "bread ROOTDEV b s = Inr (i, t)" and "b_data (bufs t i) = content s b" and "brelse i t = Inr u"
    and "looked s u" and "icache t = icache s"
proof -
  have inv: "log_inv s" and r: "nat (lh_n s) + card (locked_blocks s) < NBUF"
    using assms(1) by (auto simp: can_read_def)
  from txn.look [OF inv assms(2,3) r] obtain i t u where
    a: "bread ROOTDEV b s = Inr (i, t)" "b_data (bufs t i) = content s b" "same_outer s t" "brelse i t = Inr u"
    and u: "log_inv u" "content u = content s" "disk u 1 = disk s 1" "locked_blocks u = locked_blocks s"
      "dirty_blocks u = dirty_blocks s" "nat (lh_n u) = nat (lh_n s)" "same_outer s u"
      "\<forall>j c. c \<noteq> b \<longrightarrow> holds s j c \<longrightarrow> holds u j c"
    by (elim exE conjE) (rule that; assumption)
  have "looked s u" using u held_not [OF assms(3)] by (auto simp: looked_def did_def logs_def)
  moreover have "icache t = icache s" by (rule same_outer_fs [OF a(3)])
  ultimately show thesis using a by (intro that)
qed

lemma bmap_read:
  assumes r: "can_read s" and f: "file_ok s (icache s ip)" and bn: "bn < NDATA" and nz: "amap (content s) (icache s ip) bn \<noteq> 0"
  obtains t where "bmap ip bn s = Inr (amap (content s) (icache s ip) bn, t)" and "looked s t"
proof (cases "bn < NDIRECT")
  case True
  have "bmap ip bn s = Inr (amap (content s) (icache s ip) bn, s)"
    using True nz by (auto simp: bmap_def bmap_addr_def get_addr_def amap_def)
  moreover have "looked s s" using r by (auto simp: can_read_def looked_refl)
  ultimately show ?thesis by (rule that)
next
  case False
  let ?b = "i_addrs (icache s ip) NDIRECT"
  have ind: "?b \<noteq> 0" and am: "amap (content s) (icache s ip) bn = rd32 (content s ?b) (4 * (bn - NDIRECT))"
    using nz False by (auto simp: amap_def split: if_splits)
  note I = file_ok_ind [OF f ind]
  from look_block [OF r I(3,2)] obtain j t u where u: "bread ROOTDEV ?b s = Inr (j, t)"
    "b_data (bufs t j) = content s ?b" "brelse j t = Inr u" "looked s u" by blast
  have "bn - NDIRECT < NINDIRECT" "i_dev (icache s ip) = ROOTDEV" using bn False f by (auto simp: file_ok_def)
  then have "bmap ip bn s = Inr (amap (content s) (icache s ip) bn, u)"
    using False ind nz u by (simp add: bmap_def bmap_addr_def get_addr_def bmap_slot_def Let_def am)
  then show ?thesis using u(4) by (rule that)
qed

lemma same_chunk:
  fixes off k b :: nat
  assumes "off mod b + k < b"
  shows "(off + k) div b = off div b" and "(off + k) mod b = off mod b + k"
proof -
  have e: "off + k = (off mod b + k) + off div b * b" by simp
  have b: "b \<noteq> 0" using assms by auto
  show "(off + k) div b = off div b" unfolding e div_mult_self1 [OF b] using assms by simp
  show "(off + k) mod b = off mod b + k" unfolding e mod_mult_self1 using assms by simp
qed

lemma read_chunk:
  assumes "m \<le> BSIZE - off mod BSIZE"
  shows "map (\<lambda>k. content s (amap (content s) i (off div BSIZE)) (off mod BSIZE + k)) [0..<m]
    = map (file_byte (content s) i) [off..<off + m]"
proof (rule nth_equalityI; simp)
  fix k assume "k < m"
  then have "off mod BSIZE + k < BSIZE" using assms by arith
  note c = same_chunk [OF this]
  then show "content s (amap (content s) i (off div BSIZE)) (off mod BSIZE + k) = file_byte (content s) i (off + k)"
    by (simp add: file_byte_def c)
qed


lemma readi_loop_ok:
  assumes "can_read s" and "file_ok s (icache s ip)" and "off + n \<le> NDATA * BSIZE"
    and "\<And>q. off \<le> q \<Longrightarrow> q < off + n \<Longrightarrow> amap (content s) (icache s ip) (q div BSIZE) \<noteq> 0"
  shows "\<exists>t. readi_loop ip off n s = Inr (map (file_byte (content s) (icache s ip)) [off..<off + n], t) \<and> looked s t"
  using assms
proof (induction n arbitrary: off s rule: less_induct)
  case (less n)
  show ?case
  proof (cases "n = 0")
    case True
    then show ?thesis using less.prems(1) by (simp add: readi_loop.simps can_read_def looked_refl)
  next
    case False
    let ?i = "icache s ip" and ?m = "min n (BSIZE - off mod BSIZE)"
    have q: "off div BSIZE < NDATA" "amap (content s) ?i (off div BSIZE) \<noteq> 0" using less.prems(3,4) False by auto
    from bmap_read [OF less.prems(1,2) q] obtain t where t: "bmap ip (off div BSIZE) s = Inr (amap (content s) ?i (off div BSIZE), t)"
      "looked s t" by blast
    note kt = looked_keeps [OF t(2)]
    note fb = file_ok_block [OF less.prems(2) q]
    have "can_read t" "home_block t (amap (content s) ?i (off div BSIZE))" "amap (content s) ?i (off div BSIZE) \<notin> locked_blocks t"
      using kt(4) less.prems(1) fb stays_fields(1,2) [OF kt(3)] by auto
    from look_block [OF this] obtain j u v where u: "bread ROOTDEV (amap (content s) ?i (off div BSIZE)) t = Inr (j, u)"
      "b_data (bufs u j) = content t (amap (content s) ?i (off div BSIZE))" "brelse j u = Inr v" "looked t v" by blast
    note sv = looked_trans [OF t(2) u(4)] and kv = looked_keeps [OF looked_trans [OF t(2) u(4)]]
    have m: "?m \<noteq> 0" "?m \<le> n" using False by (auto simp: min_def)
    have "\<exists>w. readi_loop ip (off + ?m) (n - ?m) v
        = Inr (map (file_byte (content v) (icache v ip)) [off + ?m..<off + ?m + (n - ?m)], w) \<and> looked v w"
      by (rule less.IH) (use less.prems m kv in auto)
    then obtain w where w: "readi_loop ip (off + ?m) (n - ?m) v
        = Inr (map (file_byte (content s) ?i) [off + ?m..<off + n], w)" "looked v w"
      using m kv(1,2) by auto
    have "[off..<off + n] = [off..<off + ?m] @ [off + ?m..<off + n]"
      using upt_add_eq_append [of off "off + ?m" "n - ?m"] m(2) by simp
    moreover have "i_dev ?i = ROOTDEV" using less.prems(2) by (simp add: file_ok_def)
    moreover note read_chunk [of ?m off s ?i]
    ultimately have "readi_loop ip off n s = Inr (map (file_byte (content s) ?i) [off..<off + n], w)"
      using False t(1) u(1-3) w(1) kt(1,2) by (subst readi_loop.simps) (simp add: Let_def)
    then show ?thesis using looked_trans [OF sv w(2)] by blast
  qed
qed

text \<open>The clock can be read: the chip lets the code leave the loop of \<^verbatim>\<open>cmostime\<close>, with a time that \<^verbatim>\<open>unixtime\<close> accepts.\<close>

definition clock_ok :: "'a fs_st_scheme \<Rightarrow> bool" where
  "clock_ok s \<longleftrightarrow> (\<exists>v k. unix_uptime (fs_cmos s) (cmos_reads s) = Some (Inr v, k))"

lemma fsupdtime_ok:
  assumes "clock_ok s"
  obtains v k where "fsupdtime s = Inr (s\<lparr>curtime := v, cmos_reads := k\<rparr>)"
  using assms by (auto simp: clock_ok_def fsupdtime_def)


subsection \<open>Writing\<close>

text \<open>
  The bytes \<open>src\<close> have been written to the file at \<open>off\<close>: they are there, every other byte that the file had is
  unchanged, and no block of another file has changed.
\<close>

definition put_bytes :: "'a fs_st_scheme \<Rightarrow> inode \<Rightarrow> nat \<Rightarrow> uchar list \<Rightarrow> 'a fs_st_scheme \<Rightarrow> inode \<Rightarrow> bool" where
  "put_bytes s i off src t i' \<longleftrightarrow> stays s t \<and> i' = i\<lparr>i_addrs := i_addrs i'\<rparr> \<and> file_ok t i' \<and> alloc_ok t
     \<and> (\<forall>p<NDATA * BSIZE. amap (content s) i (p div BSIZE) \<noteq> 0 \<or> off \<le> p \<and> p < off + length src \<longrightarrow>
          amap (content t) i' (p div BSIZE) \<noteq> 0
          \<and> file_byte (content t) i' p = (if off \<le> p \<and> p < off + length src then src ! (p - off) else file_byte (content s) i p))
     \<and> (\<forall>b. data_block s b \<longrightarrow> data_block t b \<and> (b \<notin> file_blocks (content s) i \<longrightarrow> content t b = content s b))
     \<and> file_blocks (content t) i' \<subseteq> file_blocks (content s) i \<union> {b. \<not> data_block s b}"

lemma put_bytes_refl: "log_inv s \<Longrightarrow> file_ok s i \<Longrightarrow> alloc_ok s \<Longrightarrow> put_bytes s i off [] s i"
  by (auto simp: put_bytes_def stays_refl)

lemma put_bytes_append:
  assumes a: "put_bytes s i off src t i'" and b: "put_bytes t i' (off + length src) src' u i''"
  shows "put_bytes s i off (src @ src') u i''"
proof -
  note A = a [unfolded put_bytes_def] and B = b [unfolded put_bytes_def]
  have "amap (content u) i'' (p div BSIZE) \<noteq> 0 \<and> file_byte (content u) i'' p
      = (if off \<le> p \<and> p < off + length (src @ src') then (src @ src') ! (p - off) else file_byte (content s) i p)"
    if p: "p < NDATA * BSIZE" "amap (content s) i (p div BSIZE) \<noteq> 0 \<or> off \<le> p \<and> p < off + length (src @ src')" for p
  proof (cases "off + length src \<le> p \<and> p < off + length src + length src'")
    case True
    with B p(1) show ?thesis by (auto simp: nth_append)
  next
    case False
    with p(2) have q: "amap (content s) i (p div BSIZE) \<noteq> 0 \<or> off \<le> p \<and> p < off + length src" by auto
    from A p(1) q have A': "amap (content t) i' (p div BSIZE) \<noteq> 0"
      "file_byte (content t) i' p = (if off \<le> p \<and> p < off + length src then src ! (p - off) else file_byte (content s) i p)" by blast+
    have "amap (content u) i'' (p div BSIZE) \<noteq> 0" "file_byte (content u) i'' p = file_byte (content t) i' p"
      using B p(1) A'(1) False by auto
    then show ?thesis using A'(2) False by (auto simp: nth_append)
  qed
  moreover have "data_block u b \<and> (b \<notin> file_blocks (content s) i \<longrightarrow> content u b = content s b)" if "data_block s b" for b
  proof -
    from A that have "data_block t b" "b \<notin> file_blocks (content s) i \<longrightarrow> content t b = content s b \<and> b \<notin> file_blocks (content t) i'"
      by auto
    with B show ?thesis by auto
  qed
  moreover have "file_blocks (content u) i'' \<subseteq> file_blocks (content s) i \<union> {b. \<not> data_block s b}" using A B by blast
  moreover have "i'' = i\<lparr>i_addrs := i_addrs i''\<rparr>"
  proof -
    have x: "i'' = i'\<lparr>i_addrs := i_addrs i''\<rparr>" and y: "i' = i\<lparr>i_addrs := i_addrs i'\<rparr>" using A B by auto
    show ?thesis by (subst x, subst y) simp
  qed
  ultimately show ?thesis using A B stays_trans [of s t u] unfolding put_bytes_def by blast
qed

lemma data_write:
  assumes f: "file_ok s i" and ok: "alloc_ok s" and bn: "bn < NDATA" and nz: "amap (content s) i bn \<noteq> 0"
    and c: "content t = (content s)(amap (content s) i bn := d)" and st: "stays s t"
  shows "amap (content t) i = amap (content s) i" and "file_ok t i" and "alloc_ok t" and "data_block t = data_block s"
    and "free_blocks t = free_blocks s"
proof -
  note fb = file_ok_block [OF f bn nz] and sf = stays_fields [OF st]
  show m: "amap (content t) i = amap (content s) i" by (rule amap_cong) (use fb(3) c in auto)
  have u: "used t b = used s b" if "b < unat (sb_size (fs_sb s))" for b
    using fb(1) that c by (auto simp: used_def sf data_block_def)
  show d: "data_block t = data_block s" by (rule ext) (use u in \<open>auto simp: data_block_def sf\<close>)
  show "free_blocks t = free_blocks s" using u by (auto simp: free_blocks_def sf)
  have z: "0 < unat (sb_size (fs_sb s))" using fb(1) by (auto simp: data_block_def)
  show "alloc_ok t" using ok u u [OF z] by (auto simp: alloc_ok_def map_layout_def free_ok_def map_quiet_def sf)
  have bl: "file_blocks (content t) i = file_blocks (content s) i" by (simp add: file_blocks_def m)
  show "file_ok t i" using f unfolding file_ok_def m d sf(1) bl .
qed


lemma file_block_cases:
  assumes "file_ok s i" and "m < NDATA" and "amap (content s) i m \<noteq> 0" and "n < NDATA" and "m \<noteq> n"
  shows "amap (content s) i m \<noteq> amap (content s) i n"
  using assms unfolding file_ok_def by blast

text \<open>A block of the file at \<open>off\<close> gets \<open>src\<close>, which does not reach beyond it: first the bytes of that block, then the others.\<close>

lemma chunk_inside:
  assumes m: "mapped s i t i' (off div BSIZE) a" and bn: "off div BSIZE < NDATA" and fs: "file_ok s i"
    and c: "\<And>b. content v b = (if b = a then bytes_put (content t a) (off mod BSIZE) (\<lambda>k. src ! k) (length src) else content t b)"
    and w: "amap (content v) i' = amap (content t) i'"
    and p: "p div BSIZE = off div BSIZE" "amap (content s) i (p div BSIZE) \<noteq> 0 \<or> off \<le> p \<and> p < off + length src"
  shows "file_byte (content v) i' p = (if off \<le> p \<and> p < off + length src then src ! (p - off) else file_byte (content s) i p)"
proof -
  note M = m [unfolded mapped_def]
  have a: "amap (content t) i' (off div BSIZE) = a" using M by auto
  have eq: "p mod BSIZE - off mod BSIZE = p - off"
    "(off \<le> p \<and> p < off + length src) = (off mod BSIZE \<le> p mod BSIZE \<and> p mod BSIZE < off mod BSIZE + length src)"
    using p(1) div_mult_mod_eq [of p BSIZE] div_mult_mod_eq [of off BSIZE] by linarith+
  have old: "content t a (p mod BSIZE) = file_byte (content s) i p" if "amap (content s) i (off div BSIZE) \<noteq> 0"
  proof -
    have "a = amap (content s) i (off div BSIZE)" using M that by simp
    moreover have "content t a = content s a"
      using M file_ok_block [OF fs bn that] that by (auto simp: ind_set_def)
    ultimately show ?thesis using p(1) by (simp add: file_byte_def)
  qed
  have "file_byte (content v) i' p = bytes_put (content t a) (off mod BSIZE) (\<lambda>k. src ! k) (length src) (p mod BSIZE)"
    by (simp add: file_byte_def w a p(1) c)
  then show ?thesis using old p by (auto simp: bytes_put_def eq)
qed

lemma chunk_outside:
  assumes m: "mapped s i t i' (off div BSIZE) a" and n: "off mod BSIZE + length src \<le> BSIZE"
    and bn: "off div BSIZE < NDATA" and fs: "file_ok s i"
    and c: "\<And>b. content v b = (if b = a then d else content t b)" and w: "amap (content v) i' = amap (content t) i'"
    and p: "p < NDATA * BSIZE" "p div BSIZE \<noteq> off div BSIZE" "amap (content s) i (p div BSIZE) \<noteq> 0 \<or> off \<le> p \<and> p < off + length src"
  shows "\<not> (off \<le> p \<and> p < off + length src)" and "amap (content t) i' (p div BSIZE) \<noteq> 0"
    and "file_byte (content v) i' p = file_byte (content s) i p"
proof -
  note M = m [unfolded mapped_def]
  have a: "amap (content t) i' (off div BSIZE) = a" and ft: "file_ok t i'" using M by auto
  show out: "\<not> (off \<le> p \<and> p < off + length src)"
  proof
    assume x: "off \<le> p \<and> p < off + length src"
    then have "off mod BSIZE + (p - off) < BSIZE" using n by linarith
    from same_chunk(1) [OF this] p(2) x show False by simp
  qed
  with p(3) have nz: "amap (content s) i (p div BSIZE) \<noteq> 0" by simp
  have pn: "p div BSIZE < NDATA" using p(1) by auto
  have e: "amap (content t) i' (p div BSIZE) = amap (content s) i (p div BSIZE)" using M p(2) pn by blast
  then show "amap (content t) i' (p div BSIZE) \<noteq> 0" using nz by simp
  have na: "amap (content s) i (p div BSIZE) \<noteq> a"
    using file_block_cases [OF ft pn _ bn p(2)] e nz a by simp
  have "content t (amap (content s) i (p div BSIZE)) = content s (amap (content s) i (p div BSIZE))"
    using M file_ok_block [OF fs pn nz] by (auto simp: ind_set_def)
  then show "file_byte (content v) i' p = file_byte (content s) i p" using na by (simp add: file_byte_def w c e)
qed

lemma put_chunk:
  assumes m: "mapped s i t i' (off div BSIZE) a" and st: "stays t v" and n: "off mod BSIZE + length src \<le> BSIZE"
    and bn: "off div BSIZE < NDATA" and fs: "file_ok s i"
    and c: "content v = (content t)(a := bytes_put (content t a) (off mod BSIZE) (\<lambda>k. src ! k) (length src))"
  shows "put_bytes s i off src v i'"
proof -
  note M = m [unfolded mapped_def]
  have ft: "file_ok t i'" and at: "alloc_ok t" and a: "amap (content t) i' (off div BSIZE) = a" "a \<noteq> 0" using M by auto
  note w = data_write [OF ft at bn, unfolded a, OF a(2) c st]
  have c': "content v b = (if b = a then bytes_put (content t a) (off mod BSIZE) (\<lambda>k. src ! k) (length src) else content t b)" for b
    by (simp add: c)
  have afb: "data_block s a \<Longrightarrow> a \<in> file_blocks (content s) i" using M a bn by (auto simp: file_blocks_def)
  have ind: "b \<in> ind_set i \<Longrightarrow> b \<in> file_blocks (content s) i" for b by (auto simp: ind_set_def file_blocks_def split: if_splits)
  have "amap (content v) i' (p div BSIZE) \<noteq> 0 \<and> file_byte (content v) i' p
      = (if off \<le> p \<and> p < off + length src then src ! (p - off) else file_byte (content s) i p)"
    if p: "p < NDATA * BSIZE" "amap (content s) i (p div BSIZE) \<noteq> 0 \<or> off \<le> p \<and> p < off + length src" for p
  proof (cases "p div BSIZE = off div BSIZE")
    case True
    then show ?thesis using chunk_inside [OF m bn fs c' w(1) True p(2)] a w(1) by simp
  next
    case False
    from chunk_outside [OF m n bn fs c' w(1) p(1) False p(2)] show ?thesis by (auto simp: w(1))
  qed
  moreover have "data_block v b \<and> (b \<notin> file_blocks (content s) i \<longrightarrow> content v b = content s b)" if "data_block s b" for b
    using M that afb ind [of b] by (auto simp: w(4) c)
  moreover have "file_blocks (content v) i' \<subseteq> file_blocks (content s) i \<union> {b. \<not> data_block s b}"
    using M by (simp add: file_blocks_def w(1))
  ultimately show ?thesis using M w stays_trans [OF _ st] unfolding put_bytes_def by blast
qed


text \<open>The number of blocks that a write of \<open>n\<close> bytes at \<open>off\<close> touches.\<close>

definition chunks :: "nat \<Rightarrow> nat \<Rightarrow> nat" where
  "chunks off n = (if n = 0 then 0 else (off mod BSIZE + n + (BSIZE - 1)) div BSIZE)"

lemma chunks_step:
  assumes "0 < n" and "m = min n (BSIZE - off mod BSIZE)"
  shows "chunks off n = Suc (chunks (off + m) (n - m))"
proof (cases "n \<le> BSIZE - off mod BSIZE")
  case True
  then have "BSIZE \<le> off mod BSIZE + n + (BSIZE - 1)" "off mod BSIZE + n + (BSIZE - 1) < 2 * BSIZE" using assms(1) by auto
  then have "(off mod BSIZE + n + (BSIZE - 1)) div BSIZE = 1" by (intro div_nat_eqI) auto
  then show ?thesis using True assms by (simp add: chunks_def)
next
  case False
  then have m: "m = BSIZE - off mod BSIZE" using assms(2) by simp
  have "off mod BSIZE < BSIZE" by simp
  then have "off + m = off div BSIZE * BSIZE + BSIZE" using m div_mult_mod_eq [of off BSIZE] by linarith
  then have z: "(off + m) mod BSIZE = 0" by simp
  have "off mod BSIZE + n + (BSIZE - 1) = (n - m + (BSIZE - 1)) + 1 * BSIZE" using m False \<open>off mod BSIZE < BSIZE\<close> by linarith
  moreover have "n - m \<noteq> 0" using False m by simp
  ultimately show ?thesis using assms(1) unfolding chunks_def z by (simp only: div_mult_self1) simp
qed

lemma write_step:
  assumes f: "fits (Suc k) s (icache s ip)" and fok: "file_ok s (icache s ip)" and ok: "alloc_ok s"
    and fr: "no_ind (icache s ip) + y < card (free_blocks s)" and n: "off mod BSIZE + length src \<le> BSIZE" and bn: "off div BSIZE < NDATA"
  obtains t i' a j u v w where "bmap ip (off div BSIZE) s = Inr (a, t)" and "icache t = (icache s)(ip := i')"
    and "bread ROOTDEV a t = Inr (j, u)" and "icache u = icache t"
    and "log_write j (set_data j (bytes_put (b_data (bufs u j)) (off mod BSIZE) (\<lambda>k. src ! k) (length src)) u) = Inr v"
    and "brelse j v = Inr w" and "icache w = (icache s)(ip := i')" and "put_bytes s (icache s ip) off src w i'"
    and "fits k w i'" and "no_ind i' + y \<le> card (free_blocks w)"
proof -
  let ?i = "icache s ip"
  have "no_ind ?i < card (free_blocks s)" using fr by simp
  from bmap_ok [OF f fok ok this bn] obtain t i' where t: "bmap ip (off div BSIZE) s = Inr (amap (content t) i' (off div BSIZE), t)"
    "icache t = (icache s)(ip := i')" "mapped s ?i t i' (off div BSIZE) (amap (content t) i' (off div BSIZE))" by blast
  let ?a = "amap (content t) i' (off div BSIZE)"
  note M = t(3) [unfolded mapped_def]
  have ft: "file_ok t i'" and at: "alloc_ok t" and nz: "?a \<noteq> 0" and st: "stays s t" using M by auto
  note fb = file_ok_block [OF ft bn nz]
  have ftk: "fits k t i'" by (rule mapped_fits [OF f t(3)])
  have r: "room 1 t" by (rule room_mono [OF fits_room [OF ftk]]) simp
  from change_did [OF r fb(4,2)] obtain j u where u: "bread ROOTDEV ?a t = Inr (j, u)" "b_data (bufs u j) = content t ?a" "same_outer t u"
    and c: "\<And>d. \<exists>v w. log_write j (set_data j d u) = Inr v \<and> brelse j v = Inr w
      \<and> did 1 t w \<and> content w = (content t)(?a := d) \<and> logs {?a} t w" by blast
  let ?d = "bytes_put (b_data (bufs u j)) (off mod BSIZE) (\<lambda>k. src ! k) (length src)"
  from c [of ?d] obtain v w where w: "log_write j (set_data j ?d u) = Inr v" "brelse j v = Inr w" "did 1 t w"
    "content w = (content t)(?a := ?d)" "logs {?a} t w" by blast
  note tw = did_stays [OF w(3)] and so = same_outer_fs(2) [OF did_outer [OF w(3)]]
  note dw = data_write [OF ft at bn nz w(4) tw]
  have "put_bytes s ?i off src w i'" by (rule put_chunk [OF t(3) tw n bn fok]) (simp add: w(4) u(2))
  moreover have "log_need w i' \<le> log_need s ?i + 1"
    using M w(5) stays_fields(7) [OF tw] by (simp add: log_need_def logs_def)
  then have "fits k w i'" using f stays_fields [OF stays_trans [OF st tw]] by (auto simp: fits_def)
  moreover have "no_ind i' + y \<le> card (free_blocks w)" using M fr by (simp add: dw(5))
  moreover have "icache u = icache t" by (rule same_outer_fs [OF u(3)])
  moreover have "icache w = (icache s)(ip := i')" using so t(2) by simp
  ultimately show thesis using that t(1,2) u(1) w(1,2) by blast
qed


lemma fits_mono: "fits k s i \<Longrightarrow> m \<le> k \<Longrightarrow> fits m s i"
  by (auto simp: fits_def)

text \<open>One round of the loop.\<close>

lemma writei_round:
  assumes "fits (Suc k) s (icache s ip)" and "file_ok s (icache s ip)" and "alloc_ok s"
    and "no_ind (icache s ip) + y < card (free_blocks s)" and bn: "off div BSIZE < NDATA"
    and ne: "src \<noteq> []" and m: "m = min (length src) (BSIZE - off mod BSIZE)"
  obtains w i' where "writei_loop ip src off s = writei_loop ip (drop m src) (off + m) w" and "icache w = (icache s)(ip := i')"
    and "put_bytes s (icache s ip) off (take m src) w i'" and "fits k w i'" and "no_ind i' + y \<le> card (free_blocks w)"
proof -
  have n: "off mod BSIZE + length (take m src) \<le> BSIZE" "length (take m src) = m" using m by (auto simp: min_def)
  obtain t i' a j u v w where
    t: "bmap ip (off div BSIZE) s = Inr (a, t)" "icache t = (icache s)(ip := i')" "bread ROOTDEV a t = Inr (j, u)"
    "icache u = icache t"
    "log_write j (set_data j (bytes_put (b_data (bufs u j)) (off mod BSIZE) (\<lambda>k. take m src ! k) (length (take m src))) u) = Inr v"
    "brelse j v = Inr w" "icache w = (icache s)(ip := i')" "put_bytes s (icache s ip) off (take m src) w i'"
    "fits k w i'" "no_ind i' + y \<le> card (free_blocks w)"
    by (rule write_step [OF assms(1-4) n(1) bn])
  have "i_dev i' = ROOTDEV" using t(8) by (simp add: put_bytes_def file_ok_def)
  moreover have bp: "bytes_put d (off mod BSIZE) (\<lambda>k. take m src ! k) m = bytes_put d (off mod BSIZE) (\<lambda>k. src ! k) m" for d
    by (auto simp: bytes_put_def fun_eq_iff)
  ultimately have "writei_loop ip src off s = writei_loop ip (drop m src) (off + m) w"
    using ne t n(2) m [symmetric] by (subst writei_loop.simps) (simp add: Let_def)
  then show thesis using t(7-10) by (rule that)
qed

lemma writei_loop_ok:
  assumes "fits (chunks off (length src) + x) s (icache s ip)" and "file_ok s (icache s ip)" and "alloc_ok s"
    and "no_ind (icache s ip) + chunks off (length src) \<le> card (free_blocks s)" and "off + length src \<le> NDATA * BSIZE"
  shows "\<exists>t i'. writei_loop ip src off s = Inr t \<and> icache t = (icache s)(ip := i') \<and> put_bytes s (icache s ip) off src t i'
    \<and> fits x t i'"
  using assms
proof (induction "length src" arbitrary: src off s rule: less_induct)
  case less
  show ?case
  proof (cases "src = []")
    case True
    have inv: "log_inv s" using less.prems(1) by (simp add: fits_def)
    have "fits x s (icache s ip)" by (rule fits_mono [OF less.prems(1)]) simp
    then show ?thesis
      using True put_bytes_refl [OF inv less.prems(2,3)] by (intro exI [of _ s] exI [of _ "icache s ip"]) (simp add: writei_loop.simps)
  next
    case False
    define m where "m = min (length src) (BSIZE - off mod BSIZE)"
    have n: "0 < length src" "0 < m" "m \<le> length src" "length (take m src) = m" using False by (auto simp: m_def min_def)
    have "off < NDATA * BSIZE" using less.prems(5) n(1) by linarith
    then have bn: "off div BSIZE < NDATA" by (simp add: div_less_iff_less_mult)
    define k where "k = chunks (off + m) (length src - m)"
    have k: "chunks off (length src) = Suc k" unfolding k_def by (rule chunks_step [OF n(1) m_def])
    let ?i = "icache s ip"
    have f: "fits (Suc (k + x)) s ?i" "no_ind ?i + k < card (free_blocks s)" using less.prems(1,4) by (simp_all add: k)
    obtain w i' where w: "writei_loop ip src off s = writei_loop ip (drop m src) (off + m) w"
      "icache w = (icache s)(ip := i')" "put_bytes s ?i off (take m src) w i'"
      "fits (k + x) w i'" "no_ind i' + k \<le> card (free_blocks w)"
      by (rule writei_round [OF f(1) less.prems(2,3) f(2) bn False m_def])
    have i': "icache w ip = i'" by (simp add: w(2))
    have "\<exists>v i''. writei_loop ip (drop m src) (off + m) w = Inr v \<and> icache v = (icache w)(ip := i'')
      \<and> put_bytes w (icache w ip) (off + m) (drop m src) v i'' \<and> fits x v i''"
      by (rule less.hyps) (use n less.prems(5) w(3-5) in \<open>simp_all add: i' k_def put_bytes_def\<close>)
    then obtain q i'' where q: "writei_loop ip (drop m src) (off + m) w = Inr q" "icache q = (icache w)(ip := i'')"
      "put_bytes w i' (off + m) (drop m src) q i''" "fits x q i''" by (auto simp: i')
    have "put_bytes s ?i off (take m src @ drop m src) q i''" by (rule put_bytes_append [OF w(3)]) (use q(3) n(4) in simp)
    moreover have "icache q = (icache s)(ip := i'')" by (simp add: q(2) w(2))
    ultimately show ?thesis using w(1) q(1,4) by auto
  qed
qed


subsection \<open>The calls\<close>

text \<open>Both calls first stamp the super block in memory with the time.\<close>

definition stamp :: "uint \<Rightarrow> nat \<Rightarrow> 'a fs_st_scheme \<Rightarrow> 'a fs_st_scheme" where
  "stamp v k s = s\<lparr>curtime := v, cmos_reads := k, fs_sb := (fs_sb s)\<lparr>sb_modtime := v\<rparr>\<rparr>"

lemma stamp_notions [simp]:
  "content (stamp v k s) = content s" "icache (stamp v k s) = icache s" "used (stamp v k s) = used s"
  "data_block (stamp v k s) = data_block s" "free_blocks (stamp v k s) = free_blocks s" "alloc_ok (stamp v k s) = alloc_ok s"
  "file_ok (stamp v k s) = file_ok s" "can_read (stamp v k s) = can_read s" "log_need (stamp v k s) = log_need s"
  "fits m (stamp v k s) = fits m s" "whole (stamp v k s) = whole s" "IBLOCK n (fs_sb (stamp v k s)) = IBLOCK n (fs_sb s)"
  "home_block (stamp v k s) = home_block s" "locked_blocks (stamp v k s) = locked_blocks s"
proof -
  have u: "used (stamp v k s) = used s" by (simp add: fun_eq_iff used_def stamp_def BBLOCK_def)
  then show "used (stamp v k s) = used s" .
  show d: "data_block (stamp v k s) = data_block s" by (rule ext) (simp add: data_block_def u, simp add: stamp_def BBLOCK_def)
  show "free_blocks (stamp v k s) = free_blocks s" by (simp add: free_blocks_def u, simp add: stamp_def)
  show "alloc_ok (stamp v k s) = alloc_ok s"
    by (simp add: alloc_ok_def map_layout_def free_ok_def map_quiet_def u, simp add: stamp_def BBLOCK_def)
  show "file_ok (stamp v k s) = file_ok s" by (rule ext) (simp add: file_ok_def d, simp add: stamp_def)
  show n: "log_need (stamp v k s) = log_need s" by (rule ext) (simp add: log_need_def map_blocks_def stamp_def BBLOCK_def)
  show "fits m (stamp v k s) = fits m s" by (rule ext) (simp add: fits_def n, simp add: stamp_def)
  show "whole (stamp v k s) = whole s" by (rule ext) (simp add: whole_def stamp_def)
qed (simp_all add: stamp_def can_read_def IBLOCK_def)

text \<open>The notions of a file look at the addresses and the size of its inode only.\<close>

lemma inode_notions [simp]:
  "amap c (i\<lparr>i_atime := v\<rparr>) = amap c i" "amap c (i\<lparr>i_mtime := v\<rparr>) = amap c i" "amap c (i\<lparr>i_size := z\<rparr>) = amap c i"
  "file_blocks c (i\<lparr>i_atime := v\<rparr>) = file_blocks c i" "file_blocks c (i\<lparr>i_mtime := v\<rparr>) = file_blocks c i"
  "file_blocks c (i\<lparr>i_size := z\<rparr>) = file_blocks c i"
  "file_ok s (i\<lparr>i_atime := v\<rparr>) = file_ok s i" "file_ok s (i\<lparr>i_mtime := v\<rparr>) = file_ok s i" "file_ok s (i\<lparr>i_size := z\<rparr>) = file_ok s i"
  "whole s (i\<lparr>i_atime := v\<rparr>) = whole s i" "whole s (i\<lparr>i_mtime := v\<rparr>) = whole s i"
  "file_byte c (i\<lparr>i_atime := v\<rparr>) = file_byte c i" "file_byte c (i\<lparr>i_mtime := v\<rparr>) = file_byte c i" "file_byte c (i\<lparr>i_size := z\<rparr>) = file_byte c i"
  "fits m s (i\<lparr>i_mtime := v\<rparr>) = fits m s i" "no_ind (i\<lparr>i_mtime := v\<rparr>) = no_ind i"
proof -
  have a: "amap c (i\<lparr>i_atime := v\<rparr>) = amap c i" "amap c (i\<lparr>i_mtime := v\<rparr>) = amap c i" "amap c (i\<lparr>i_size := z\<rparr>) = amap c i" for c
    by (simp_all add: fun_eq_iff amap_def)
  then show "amap c (i\<lparr>i_atime := v\<rparr>) = amap c i" "amap c (i\<lparr>i_mtime := v\<rparr>) = amap c i" "amap c (i\<lparr>i_size := z\<rparr>) = amap c i" .
  show "file_blocks c (i\<lparr>i_atime := v\<rparr>) = file_blocks c i" "file_blocks c (i\<lparr>i_mtime := v\<rparr>) = file_blocks c i"
    "file_blocks c (i\<lparr>i_size := z\<rparr>) = file_blocks c i" by (simp_all add: file_blocks_def a)
  show "file_ok s (i\<lparr>i_atime := v\<rparr>) = file_ok s i" "file_ok s (i\<lparr>i_mtime := v\<rparr>) = file_ok s i" "file_ok s (i\<lparr>i_size := z\<rparr>) = file_ok s i"
    by (simp_all add: file_ok_def file_blocks_def a)
  show "whole s (i\<lparr>i_atime := v\<rparr>) = whole s i" "whole s (i\<lparr>i_mtime := v\<rparr>) = whole s i" by (simp_all add: whole_def a)
  show "file_byte c (i\<lparr>i_atime := v\<rparr>) = file_byte c i" "file_byte c (i\<lparr>i_mtime := v\<rparr>) = file_byte c i"
    "file_byte c (i\<lparr>i_size := z\<rparr>) = file_byte c i" by (simp_all add: fun_eq_iff file_byte_def a)
qed (simp_all add: fits_def log_need_def no_ind_def ind_set_def)

lemma block_index: "q < NDATA * BSIZE \<Longrightarrow> q div BSIZE < NDATA"
  by (simp add: div_less_iff_less_mult)

lemma whole_mapped: "whole s i \<Longrightarrow> q < unat (i_size i) \<Longrightarrow> amap (content s) i (q div BSIZE) \<noteq> 0"
proof -
  assume w: "whole s i" and q: "q < unat (i_size i)"
  have "q div BSIZE * BSIZE \<le> q" by simp
  moreover have "q < NDATA * BSIZE" using w q by (simp add: whole_def)
  then have "q div BSIZE < NDATA" by (rule block_index)
  ultimately show ?thesis using w q by (auto simp: whole_def)
qed


lemma stamped:
  assumes "clock_ok s"
  obtains v k where "fsupdtime s = Inr (s\<lparr>curtime := v, cmos_reads := k\<rparr>)"
    and "s\<lparr>curtime := v, cmos_reads := k, fs_sb := (fs_sb s)\<lparr>sb_modtime := v\<rparr>\<rparr> = stamp v k s"
  using fsupdtime_ok [OF assms] by (metis stamp_def)

lemma sint_small: "unat (n :: uint) \<le> NDATA * BSIZE \<Longrightarrow> sint n = int (unat n)"
  using sint_of_nat_small [of "unat n"] by simp

lemma file_bytes_slice:
  assumes "unat off \<le> unat (i_size i)"
  shows "take n (drop (unat off) (file_bytes s i))
    = map (file_byte (content s) i) [unat off..<unat off + min n (unat (i_size i) - unat off)]"
  using assms by (simp add: file_bytes_def drop_map take_map min_def)

text \<open>The number of bytes that are there to read.\<close>

lemma read_count:
  assumes "off \<le> i_size i" and "\<not> off + n < off"
  shows "unat (if off + n > i_size i then i_size i - off else n) = min (unat n) (unat (i_size i) - unat off)"
proof -
  have "unat off + unat n < 2 ^ 32" using assms(2) by (simp add: no_olen_add_nat not_less)
  then have p: "unat (off + n) = unat off + unat n" by (simp add: unat_word_ariths)
  show ?thesis
    using assms p by (auto simp: word_less_nat_alt word_le_nat_alt unat_sub min_def)
qed

lemma readi_run:
  assumes c: "clock_ok s" and r: "can_read s" and f: "file_ok s (icache s ip)" and w: "whole s (icache s ip)"
    and ty: "i_type (icache s ip) \<noteq> T_DEV" and off: "off \<le> i_size (icache s ip)" and o2: "\<not> off + n < off"
  shows "\<exists>v k t. readi dsw ip off n s = Inr (int (min (unat n) (unat (i_size (icache s ip)) - unat off)),
      take (unat n) (drop (unat off) (file_bytes s (icache s ip))), t)
    \<and> looked (upd_inode ip (\<lambda>i. i\<lparr>i_atime := v\<rparr>) (stamp v k s)) t"
proof -
  let ?i = "icache s ip"
  from stamped [OF c] obtain v k where st: "fsupdtime s = Inr (s\<lparr>curtime := v, cmos_reads := k\<rparr>)"
    "s\<lparr>curtime := v, cmos_reads := k, fs_sb := (fs_sb s)\<lparr>sb_modtime := v\<rparr>\<rparr> = stamp v k s" by blast
  let ?s = "upd_inode ip (\<lambda>i. i\<lparr>i_atime := v\<rparr>) (stamp v k s)"
  let ?n = "if off + n > i_size ?i then i_size ?i - off else n"
  note rc = read_count [OF off o2]
  have le: "unat off + unat ?n \<le> unat (i_size ?i)" using off unfolding rc by (auto simp: word_le_nat_alt min_def)
  have sz: "unat (i_size ?i) \<le> NDATA * BSIZE" using w by (simp add: whole_def)
  have cont: "content ?s = content s" "icache ?s ip = ?i\<lparr>i_atime := v\<rparr>" by (simp_all add: upd_inode_icache)
  have "\<exists>t. readi_loop ip (unat off) (unat ?n) ?s
      = Inr (map (file_byte (content ?s) (icache ?s ip)) [unat off..<unat off + unat ?n], t) \<and> looked ?s t"
    by (rule readi_loop_ok)
      (use r f w sz le whole_mapped [OF w] in \<open>simp_all add: upd_inode_icache can_read_def [of "icache_update _ _"]\<close>,
       simp add: can_read_def stamp_def)
  then obtain t where t: "readi_loop ip (unat off) (unat ?n) ?s
      = Inr (map (file_byte (content s) ?i) [unat off..<unat off + unat ?n], t)" "looked ?s t"
    unfolding cont by auto
  have sn: "sint ?n = int (min (unat n) (unat (i_size ?i) - unat off))"
    using sint_small [of ?n] le sz rc by simp
  have sl: "map (file_byte (content s) ?i) [unat off..<unat off + unat ?n] = take (unat n) (drop (unat off) (file_bytes s ?i))"
    using file_bytes_slice [of off ?i "unat n" s] off rc by (simp add: word_le_nat_alt)
  have no: "\<not> (off > i_size ?i \<or> off + n < off)" using off o2 by simp
  have "readi dsw ip off n s = Inr (sint ?n, map (file_byte (content s) ?i) [unat off..<unat off + unat ?n], t)"
    using st t(1) no ty by (cases "off + n > i_size ?i") (simp_all add: readi_def Let_def stamp_def)
  then show ?thesis unfolding sn sl using t(2) by blast
qed

lemma readi_ok:
  assumes "clock_ok s" and "can_read s" and "file_ok s (icache s ip)" and "whole s (icache s ip)"
    and "i_type (icache s ip) \<noteq> T_DEV" and "off \<le> i_size (icache s ip)" and "\<not> off + n < off"
  shows "\<exists>t v. readi dsw ip off n s = Inr (int (min (unat n) (unat (i_size (icache s ip)) - unat off)),
      take (unat n) (drop (unat off) (file_bytes s (icache s ip))), t)
    \<and> content t = content s \<and> icache t = (icache s)(ip := (icache s ip)\<lparr>i_atime := v\<rparr>)"
proof -
  from readi_run [OF assms, of dsw] obtain v k t where r: "readi dsw ip off n s = Inr (int (min (unat n) (unat (i_size (icache s ip)) - unat off)),
      take (unat n) (drop (unat off) (file_bytes s (icache s ip))), t)" "looked (upd_inode ip (\<lambda>i. i\<lparr>i_atime := v\<rparr>) (stamp v k s)) t" by blast
  then show ?thesis using looked_keeps(1,2) [OF r(2)] by (auto simp: upd_inode_icache)
qed


text \<open>What \<^verbatim>\<open>writei\<close> does to the bytes of a file.\<close>

definition overwrite :: "uchar list \<Rightarrow> nat \<Rightarrow> uchar list \<Rightarrow> uchar list" where
  "overwrite old off src = take off old @ src @ drop (off + length src) old"

lemma put_bytes_overwrite:
  assumes p: "put_bytes s i off src t i'" and w: "whole s i" and off: "off \<le> unat (i_size i)"
    and sz: "unat z = max (unat (i_size i)) (off + length src)" and le: "off + length src \<le> NDATA * BSIZE"
  shows "file_bytes t (i'\<lparr>i_size := z\<rparr>) = overwrite (file_bytes s i) off src" and "whole t (i'\<lparr>i_size := z\<rparr>)"
proof -
  have b: "amap (content t) i' (q div BSIZE) \<noteq> 0 \<and> file_byte (content t) i' q
      = (if off \<le> q \<and> q < off + length src then src ! (q - off) else file_byte (content s) i q)"
    if q: "q < unat z" for q
  proof -
    have "q < NDATA * BSIZE" using q w le by (auto simp: sz whole_def)
    moreover have "amap (content s) i (q div BSIZE) \<noteq> 0 \<or> off \<le> q \<and> q < off + length src"
      using q off whole_mapped [OF w, of q] by (cases "q < unat (i_size i)") (auto simp: sz less_max_iff_disj)
    ultimately show ?thesis using p unfolding put_bytes_def by blast
  qed
  have len: "length (overwrite (file_bytes s i) off src) = unat z"
    using off by (simp add: overwrite_def file_bytes_def sz)
  show "file_bytes t (i'\<lparr>i_size := z\<rparr>) = overwrite (file_bytes s i) off src"
  proof (rule nth_equalityI)
    fix q assume "q < length (file_bytes t (i'\<lparr>i_size := z\<rparr>))"
    then have q: "q < unat z" by (simp add: file_bytes_def)
    have "overwrite (file_bytes s i) off src ! q
        = (if off \<le> q \<and> q < off + length src then src ! (q - off) else file_byte (content s) i q)"
      using q off by (auto simp: overwrite_def file_bytes_def nth_append sz min_def split: if_splits)
    then show "file_bytes t (i'\<lparr>i_size := z\<rparr>) ! q = overwrite (file_bytes s i) off src ! q"
      using b [OF q] q by (simp add: file_bytes_def)
  qed (simp add: len)
  show "whole t (i'\<lparr>i_size := z\<rparr>)"
    unfolding whole_def
  proof (intro conjI allI impI)
    show "unat (i_size (i'\<lparr>i_size := z\<rparr>)) \<le> NDATA * BSIZE" using w le by (simp add: sz whole_def)
    fix n assume n: "n < NDATA" "n * BSIZE < unat (i_size (i'\<lparr>i_size := z\<rparr>))"
    then show "amap (content t) (i'\<lparr>i_size := z\<rparr>) n \<noteq> 0" using b [of "n * BSIZE"] by simp
  qed
qed


text \<open>The other files: those that share no block with this one.\<close>

lemma other_file:
  assumes d: "\<And>b. data_block s b \<Longrightarrow> b \<notin> X \<Longrightarrow> content t b = content s b" and f: "file_ok s j" and w: "whole s j"
    and x: "file_blocks (content s) j \<inter> X = {}"
  shows "file_bytes t j = file_bytes s j"
proof -
  have c: "content t b = content s b" if "b \<in> file_blocks (content s) j" for b
    using that d [of b] f x by (auto simp: file_ok_def)
  have m: "amap (content t) j = amap (content s) j" by (rule amap_cong) (simp add: c file_blocks_def)
  have "file_byte (content t) j q = file_byte (content s) j q" if q: "q < unat (i_size j)" for q
  proof -
    have "q < NDATA * BSIZE" using q w by (simp add: whole_def)
    then have "q div BSIZE < NDATA" by (rule block_index)
    then have "amap (content s) j (q div BSIZE) \<in> file_blocks (content s) j"
      using whole_mapped [OF w q] by (auto simp: file_blocks_def)
    from c [OF this] show ?thesis by (simp add: file_byte_def m)
  qed
  then show ?thesis by (simp add: file_bytes_def)
qed

text \<open>The block of the inode, written when the file has grown.\<close>

lemma iupdate_after:
  assumes p: "put_bytes s i off src t (icache t ip)" and fit: "fits x t (icache t ip)"
    and B: "data_block s B" "B \<notin> locked_blocks s" "B \<notin> file_blocks (content s) i"
    and e: "B = IBLOCK (i_inum (icache u ip)) (fs_sb u)" and dev: "i_dev (icache u ip) = ROOTDEV"
    and u: "u = upd_inode ip g t"
  obtains v where "iupdate ip u = Inr v" and "content v = (content t)(B := store_dinode (content t B) (dip (i_inum (icache u ip))) (icache u ip))"
    and "icache v = icache u" and "data_block v = data_block t" and "locked_blocks v = locked_blocks t" and "log_inv v"
proof -
  note P = p [unfolded put_bytes_def]
  have st: "stays s t" and Bt: "data_block t B" using P B by auto
  have un: "room 1 u" "home_block u B" "B \<notin> locked_blocks u"
    using room_mono [OF fits_room [OF fit], of 1] Bt B(2) stays_fields(1) [OF st] by (auto simp: u upd_inode_icache data_block_def)
  from iupdate_ok [OF un(1) dev] un(2,3) e obtain v where v: "iupdate ip u = Inr v" "did 1 u v"
    "content v = (content u)(B := store_dinode (content u B) (dip (i_inum (icache u ip))) (icache u ip))" by auto
  have cu: "content u = content t" "data_block u = data_block t" by (simp_all add: u upd_inode_icache)
  note sv = stays_fields [OF did_stays [OF v(2)]]
  have "used v b = used u b" if "b < unat (sb_size (fs_sb u))" for b
    using that Bt v(3) by (auto simp: used_def sv u data_block_def upd_inode_icache)
  then have "data_block v = data_block u" by (auto simp: fun_eq_iff data_block_def sv)
  moreover have "locked_blocks v = locked_blocks t" by (simp add: sv u upd_inode_icache)
  moreover have "icache v = icache u" by (rule same_outer_fs [OF did_outer [OF v(2)]])
  ultimately show thesis using that v(1,3) did_inv [OF v(2)] cu by auto
qed


lemma off_file_write:
  assumes f: "file_ok t j" and w: "whole t j" and B: "B \<notin> file_blocks (content t) j" and c: "\<And>b. b \<noteq> B \<Longrightarrow> content v b = content t b"
    and d: "data_block v = data_block t" "locked_blocks v = locked_blocks t"
  shows "file_ok v j" and "whole v j" and "file_bytes v j = file_bytes t j"
proof -
  have m: "amap (content v) j = amap (content t) j" by (rule amap_cong) (use B c in \<open>auto simp: file_blocks_def\<close>)
  have bl: "file_blocks (content v) j = file_blocks (content t) j" by (simp add: file_blocks_def m)
  show "file_ok v j" using f unfolding file_ok_def m bl d .
  show "whole v j" using w unfolding whole_def m .
  show "file_bytes v j = file_bytes t j" by (rule other_file [where X = "{B}", OF _ f w]) (use B c in auto)
qed


text \<open>What a write needs: the file can be written, the transaction has room for it, there is space, and the inode has its place.\<close>

definition can_write :: "nat \<Rightarrow> nat \<Rightarrow> nat \<Rightarrow> 'a fs_st_scheme \<Rightarrow> bool" where
  "can_write ip off n s \<longleftrightarrow> (let i = icache s ip; B = IBLOCK (i_inum i) (fs_sb s) in
     file_ok s i \<and> whole s i \<and> alloc_ok s \<and> off + n \<le> NDATA * BSIZE
     \<and> fits (chunks off n + 1) s i \<and> no_ind i + chunks off n \<le> card (free_blocks s)
     \<and> data_block s B \<and> B \<notin> locked_blocks s \<and> B \<notin> file_blocks (content s) i)"

text \<open>The write has happened.\<close>

definition file_written :: "nat \<Rightarrow> nat \<Rightarrow> uchar list \<Rightarrow> 'a fs_st_scheme \<Rightarrow> 'a fs_st_scheme \<Rightarrow> bool" where
  "file_written ip off src s t \<longleftrightarrow> (let i = icache s ip; i' = icache t ip; B = IBLOCK (i_inum i) (fs_sb s) in
     icache t = (icache s)(ip := i') \<and> file_bytes t i' = overwrite (file_bytes s i) off src
     \<and> file_ok t i' \<and> whole t i' \<and> log_inv t
     \<and> (\<forall>j. file_ok s j \<longrightarrow> whole s j \<longrightarrow> file_blocks (content s) j \<inter> insert B (file_blocks (content s) i) = {} \<longrightarrow>
          file_bytes t j = file_bytes s j)
     \<and> (length (file_bytes s i) < off + length src \<longrightarrow>
          (\<forall>j. load_dinode (content t B) (dip (i_inum i)) j = disk_fields i' j)))"

lemma writei_same_size:
  assumes p: "put_bytes s (icache s ip) off src t i'" and t: "icache t = (icache s)(ip := i')" and w: "whole s (icache s ip)"
    and off: "off \<le> unat (i_size (icache s ip))" and le: "off + length src \<le> unat (i_size (icache s ip))"
  shows "file_written ip off src s t"
proof -
  let ?i = "icache s ip"
  note P = p [unfolded put_bytes_def]
  have sz: "i_size i' = i_size ?i" using P by (metis inode.select_convs(10) inode.surjective inode.update_convs(11))
  have i': "i'\<lparr>i_size := i_size ?i\<rparr> = i'" using sz by (metis inode.surjective inode.update_convs(10) inode.select_convs(10))
  have "unat (i_size ?i) = max (unat (i_size ?i)) (off + length src)" "off + length src \<le> NDATA * BSIZE"
    using le w by (auto simp: whole_def)
  note po = put_bytes_overwrite [OF p w off this, unfolded i']
  have "file_bytes t j = file_bytes s j" if "file_ok s j" "whole s j"
    "file_blocks (content s) j \<inter> insert B (file_blocks (content s) ?i) = {}" for j B
    by (rule other_file [where X = "file_blocks (content s) ?i", OF _ that(1,2)]) (use P that(3) in auto)
  moreover have "file_ok t i'" "log_inv t" using P stays_fields(4) [of s t] by auto
  ultimately show ?thesis using t po le by (auto simp: file_written_def Let_def)
qed


lemma writei_grown:
  assumes p: "put_bytes s (icache s ip) off src t i'" and t: "icache t = (icache s)(ip := i')" and fit: "fits x t i'"
    and c: "can_write ip off (length src) s"
    and off: "off \<le> unat (i_size (icache s ip))" and gt: "unat (i_size (icache s ip)) < off + length src" and z: "unat z = off + length src"
  obtains v where "iupdate ip (upd_inode ip (\<lambda>i. i\<lparr>i_size := z\<rparr>) t) = Inr v" and "file_written ip off src s v"
proof -
  let ?i = "icache s ip" and ?j = "i'\<lparr>i_size := z\<rparr>" and ?u = "upd_inode ip (\<lambda>i. i\<lparr>i_size := z\<rparr>) t"
  note P = p [unfolded put_bytes_def]
  define B where "B = IBLOCK (i_inum ?i) (fs_sb s)"
  have W: "file_ok s ?i" "whole s ?i" "off + length src \<le> NDATA * BSIZE"
    and B: "data_block s B" "B \<notin> locked_blocks s" "B \<notin> file_blocks (content s) ?i"
    using c by (auto simp: can_write_def Let_def B_def)
  have i': "i_inum i' = i_inum ?i" "i_dev i' = ROOTDEV"
    using P W(1) by (metis inode.select_convs(2) inode.surjective inode.update_convs(11), simp add: file_ok_def)
  have it: "icache t ip = i'" "icache ?u = (icache s)(ip := ?j)" by (simp_all add: t)
  have st: "stays s t" using P by blast
  have "B = IBLOCK (i_inum (icache ?u ip)) (fs_sb ?u)" "i_dev (icache ?u ip) = ROOTDEV"
    using stays_fields(6) [OF st] i' by (simp_all add: it B_def)
  from iupdate_after [OF p [folded it(1)] fit [folded it(1)] B this refl] obtain v where v: "iupdate ip ?u = Inr v"
    "content v = (content t)(B := store_dinode (content t B) (dip (i_inum (icache ?u ip))) (icache ?u ip))"
    "icache v = icache ?u" "data_block v = data_block t" "locked_blocks v = locked_blocks t" "log_inv v" by blast
  have max: "unat z = max (unat (i_size ?i)) (off + length src)" using z gt by simp
  note po = put_bytes_overwrite [OF p W(2) off max W(3)]
  have Bt: "B \<notin> file_blocks (content t) ?j" using P B by auto
  have cb: "content v b = content t b" if "b \<noteq> B" for b using that by (simp add: v(2))
  have "file_ok t ?j" using P by simp
  note ow = off_file_write [OF this po(2) Bt cb v(4,5)]
  have "file_bytes v j = file_bytes s j" if "file_ok s j" "whole s j"
    "file_blocks (content s) j \<inter> insert B (file_blocks (content s) ?i) = {}" for j
    by (rule other_file [OF _ that]) (use P cb in auto)
  moreover have "load_dinode (content v B) (dip (i_inum ?i)) j = disk_fields ?j j" for j
    using i'(1) by (simp add: v(2) it load_store_dinode)
  ultimately have "file_written ip off src s v"
    using ow po(1) v(3,6) it by (simp add: file_written_def Let_def B_def)
  with v(1) show thesis by (rule that)
qed


lemma file_icache [simp]:
  "whole (icache_update f s) = whole s" "file_ok (icache_update f s) = file_ok s" "fits m (icache_update f s) = fits m s"
  by (rule ext, simp add: whole_def file_ok_def fits_def)+

lemma stamp_write:
  fixes s :: "'a fs_st_scheme" and ip :: nat
  defines "s' \<equiv> (\<lambda>v k. upd_inode ip (\<lambda>i. i\<lparr>i_mtime := v\<rparr>) (stamp v k s))"
  shows "can_write ip off n (s' v k) = can_write ip off n s" and "file_written ip off src (s' v k) t = file_written ip off src s t"
proof -
  have i: "icache (s' v k) ip = (icache s ip)\<lparr>i_mtime := v\<rparr>" "icache (s' v k) = (icache s)(ip := (icache s ip)\<lparr>i_mtime := v\<rparr>)"
    by (simp_all add: s'_def)
  have n: "content (s' v k) = content s" "file_ok (s' v k) = file_ok s" "alloc_ok (s' v k) = alloc_ok s"
    "whole (s' v k) = whole s" "fits m (s' v k) = fits m s" "data_block (s' v k) = data_block s"
    "free_blocks (s' v k) = free_blocks s" "locked_blocks (s' v k) = locked_blocks s" "IBLOCK q (fs_sb (s' v k)) = IBLOCK q (fs_sb s)" for m q
    by (simp_all add: s'_def upd_inode_icache)
  have b: "file_bytes (s' v k) j = file_bytes s j" "file_bytes s (i\<lparr>i_mtime := v\<rparr>) = file_bytes s i" for i j
    by (simp_all add: file_bytes_def n)
  show "can_write ip off n (s' v k) = can_write ip off n s" by (simp add: can_write_def Let_def i n)
  show "file_written ip off src (s' v k) t = file_written ip off src s t"
    unfolding file_written_def Let_def i n by (simp add: b)
qed

lemma writei_tail:
  assumes c: "can_write ip off (length src) s" and off: "off \<le> unat (i_size (icache s ip))"
  obtains t where "rbind (writei_loop ip src off s) (\<lambda>s.
       if of_nat (length src) > (0 :: uint) \<and> of_nat (off + length src) > i_size (icache s ip) then
         rbind (iupdate ip (upd_inode ip (\<lambda>i. i\<lparr>i_size := of_nat (off + length src)\<rparr>) s)) (\<lambda>s. Inr (r, s))
       else Inr (r, s)) = Inr (r :: int, t)" and "file_written ip off src s t"
proof -
  let ?i = "icache s ip"
  have W: "file_ok s ?i" "whole s ?i" "alloc_ok s" "off + length src \<le> NDATA * BSIZE"
    "fits (chunks off (length src) + 1) s ?i" "no_ind ?i + chunks off (length src) \<le> card (free_blocks s)"
    using c by (auto simp: can_write_def Let_def)
  from writei_loop_ok [OF W(5,1,3,6,4)] obtain t i' where t: "writei_loop ip src off s = Inr t"
    "icache t = (icache s)(ip := i')" "put_bytes s ?i off src t i'" "fits 1 t i'" by blast
  have u: "unat (of_nat (off + length src) :: uint) = off + length src" "unat (of_nat (length src) :: uint) = length src"
    using W(4) by (simp_all add: unat_of_nat take_bit_nat_eq_self del: of_nat_add)
  have sz: "i_size i' = i_size ?i" using t(3) unfolding put_bytes_def
    by (metis inode.select_convs(10) inode.surjective inode.update_convs(11))
  show thesis
  proof (cases "unat (i_size ?i) < off + length src")
    case True
    then have "length src \<noteq> 0" using off by linarith
    then have "of_nat (length src) > (0 :: uint) \<and> of_nat (off + length src) > i_size i'"
      using True off sz u by (simp add: word_less_nat_alt del: of_nat_add)
    moreover from writei_grown [OF t(3,2,4) c off True u(1)] obtain v where
      "iupdate ip (upd_inode ip (\<lambda>i. i\<lparr>i_size := of_nat (off + length src)\<rparr>) t) = Inr v" "file_written ip off src s v" by blast
    ultimately show ?thesis using that [of v] t(1,2) by simp
  next
    case False
    then have "\<not> of_nat (off + length src) > i_size i'" using sz u by (simp add: word_less_nat_alt)
    moreover have "file_written ip off src s t" by (rule writei_same_size [OF t(3,2) W(2) off]) (use False in simp)
    ultimately show ?thesis using that [of t] t(1,2) by simp
  qed
qed

lemma writei_ok:
  assumes c: "clock_ok s" and cw: "can_write ip (unat off) (length src) s" and ty: "i_type (icache s ip) \<noteq> T_DEV"
    and off: "off \<le> i_size (icache s ip)"
  shows "\<exists>t. writei dsw ip src off s = Inr (int (length src), t) \<and> file_written ip (unat off) src s t"
proof -
  let ?i = "icache s ip" and ?n = "of_nat (length src) :: uint"
  have le: "unat off + length src \<le> NDATA * BSIZE" using cw by (simp add: can_write_def Let_def)
  from stamped [OF c] obtain v k where st: "fsupdtime s = Inr (s\<lparr>curtime := v, cmos_reads := k\<rparr>)"
    "s\<lparr>curtime := v, cmos_reads := k, fs_sb := (fs_sb s)\<lparr>sb_modtime := v\<rparr>\<rparr> = stamp v k s" by blast
  let ?s = "upd_inode ip (\<lambda>i. i\<lparr>i_mtime := v\<rparr>) (stamp v k s)"
  note sw = stamp_write [where ip = ip and s = s and v = v and k = k]
  have "unat off \<le> unat (i_size (icache ?s ip))" using off by (simp add: word_le_nat_alt)
  from writei_tail [OF cw [folded sw(1)] this, where r = "sint ?n"] obtain t where
    t: "rbind (writei_loop ip src (unat off) ?s) (\<lambda>s.
       if ?n > 0 \<and> of_nat (unat off + length src) > i_size (icache s ip) then
         rbind (iupdate ip (upd_inode ip (\<lambda>i. i\<lparr>i_size := of_nat (unat off + length src)\<rparr>) s)) (\<lambda>s. Inr (sint ?n, s))
       else Inr (sint ?n, s)) = Inr (sint ?n, t)" "file_written ip (unat off) src ?s t" by blast
  have u: "unat ?n = length src" "unat (off + ?n) = unat off + length src" "off + ?n = of_nat (unat off + length src)"
    using le by (simp_all add: unat_of_nat take_bit_nat_eq_self unat_word_ariths)
  have no: "\<not> (off > i_size ?i \<or> off + ?n < off)" "\<not> off + ?n > of_nat (MAXFILE * BSIZE)"
    using off u(1,2) le by (auto simp: word_less_nat_alt word_le_nat_alt)
  have "sint ?n = int (length src)" using sint_small [of ?n] le u(1) by simp
  then have "writei dsw ip src off s = Inr (int (length src), t)"
    using st no ty t(1) unfolding writei_def u(3) [symmetric] by (simp add: Let_def stamp_def)
  then show ?thesis using t(2) sw(2) by auto
qed


subsection \<open>The room of a transaction\<close>

lemma map_blocks_few:
  assumes "map_layout s"
  shows "card (map_blocks s) \<le> 3"
proof -
  have "map_blocks s \<subseteq> (\<lambda>q. of_nat q + sb_bmapstart (fs_sb s)) ` {..<3 :: nat}"
  proof
    fix x assume "x \<in> map_blocks s"
    then obtain c where c: "c < unat (sb_size (fs_sb s))" "x = BBLOCK (of_nat c) (fs_sb s)" by (auto simp: map_blocks_def)
    then have "c < 10000" using assms by (simp add: map_layout_def)
    then have "unat ((of_nat c :: uint) div 4096) = c div BPB" by (simp add: unat_div unat_small)
    then have "(of_nat c :: uint) div 4096 = of_nat (c div BPB)" using \<open>c < 10000\<close> by (simp add: word_unat_eq_iff unat_small)
    then have "x = of_nat (c div BPB) + sb_bmapstart (fs_sb s)" by (simp add: c(2) BBLOCK_def)
    moreover have "c div BPB < 3" using \<open>c < 10000\<close> by simp
    ultimately show "x \<in> (\<lambda>q. of_nat q + sb_bmapstart (fs_sb s)) ` {..<3 :: nat}" by blast
  qed
  then have "card (map_blocks s) \<le> card ((\<lambda>q. of_nat q + sb_bmapstart (fs_sb s)) ` {..<3 :: nat})"
    by (rule card_mono [rotated]) simp
  also have "\<dots> \<le> 3" using card_image_le [of "{..<3 :: nat}"] by simp
  finally show ?thesis .
qed

lemma log_need_le:
  assumes "log_inv s" and "map_layout s"
  shows "log_need s i \<le> nat (lh_n s) + 4"
proof -
  have "card (dirty_blocks s \<union> map_blocks s \<union> ind_set i) \<le> card (dirty_blocks s) + card (map_blocks s) + card (ind_set i)"
    by (meson add_right_mono card_Un_le le_trans)
  moreover have "card (ind_set i) + no_ind i = 1" by (simp add: ind_set_def no_ind_def)
  ultimately show ?thesis using map_blocks_few [OF assms(2)] dirty_count(2) [OF assms(1)] by (simp add: log_need_def)
qed

lemma chunks_le: "n \<le> m * BSIZE \<Longrightarrow> chunks off n \<le> Suc m"
proof -
  assume "n \<le> m * BSIZE"
  moreover have "off mod BSIZE < BSIZE" by simp
  ultimately have "off mod BSIZE + n + (BSIZE - 1) < (m + 2) * BSIZE" by (simp add: algebra_simps)
  then have "(off mod BSIZE + n + (BSIZE - 1)) div BSIZE < m + 2" by (simp only: div_less_iff_less_mult)
  then show ?thesis by (simp add: chunks_def)
qed

lemma chunk_fits:
  assumes "log_inv s" and "in_op s" and "map_layout s" and "lh_n s + MAXOPBLOCKS \<le> LOGSIZE" and "log_size s = LOGSIZE"
    and "locked_blocks s = {}" and "n \<le> 8 * BSIZE"
  shows "fits (chunks off n + 1) s i"
proof -
  have "nat (lh_n s) \<le> 40" using assms(4) by simp
  then show ?thesis
    using assms(1,2,5,6) log_need_le [OF assms(1,3), of i] chunks_le [OF assms(7), of off] by (simp add: fits_def)
qed

lemma outstanding_notions [simp]:
  "content (s\<lparr>log_outstanding := n\<rparr>) = content s" "home_block (s\<lparr>log_outstanding := n\<rparr>) = home_block s"
  "log_inv (s\<lparr>log_outstanding := n\<rparr>) = log_inv s"
proof -
  show c: "content (s\<lparr>log_outstanding := n\<rparr>) = content s" by (rule ext, rule content_cong; simp)
  show "home_block (s\<lparr>log_outstanding := n\<rparr>) = home_block s" by (simp add: fun_eq_iff home_block_def)
  show "log_inv (s\<lparr>log_outstanding := n\<rparr>) = log_inv s" by (simp add: log_inv_def c)
qed

text \<open>What \<^verbatim>\<open>begin_op\<close> does: it takes a reservation, and changes no block.\<close>

lemma begin_op_file:
  assumes "begin_op s = Inr t"
  shows "alloc_ok t = alloc_ok s" and "file_ok t = file_ok s" and "whole t = whole s" and "free_blocks t = free_blocks s"
    and "data_block t = data_block s" and "locked_blocks t = locked_blocks s" and "log_inv t = log_inv s"
    and "content t = content s" and "icache t = icache s" and "fs_sb t = fs_sb s" and "clock_ok t = clock_ok s"
    and "map_layout t = map_layout s" and "log_size t = log_size s" and "lh_n t = lh_n s"
    and "log_outstanding t = log_outstanding s + 1" and "lh_n t + log_outstanding t * MAXOPBLOCKS \<le> LOGSIZE"
proof -
  define n where "n = log_outstanding s + 1"
  have t: "t = s\<lparr>log_outstanding := n\<rparr>" and r: "lh_n s + n * MAXOPBLOCKS \<le> LOGSIZE"
    using assms by (auto simp: begin_op_def n_def split: if_splits)
  have u: "used t = used s" by (rule ext) (simp add: used_def t)
  show d: "data_block t = data_block s" by (rule ext) (simp add: data_block_def u, simp add: t)
  show "free_blocks t = free_blocks s" by (simp add: free_blocks_def u, simp add: t)
  show m: "map_layout t = map_layout s" by (simp add: map_layout_def, simp add: t)
  show "alloc_ok t = alloc_ok s" by (simp add: alloc_ok_def free_ok_def map_quiet_def u m, simp add: t)
  show "file_ok t = file_ok s" by (rule ext) (simp add: file_ok_def d, simp add: t)
  show "whole t = whole s" by (rule ext) (simp add: whole_def t)
  show "clock_ok t = clock_ok s" by (simp add: clock_ok_def t)
  show "lh_n t + log_outstanding t * MAXOPBLOCKS \<le> LOGSIZE" "log_outstanding t = log_outstanding s + 1"
    using r by (simp_all add: t n_def)
  show "locked_blocks t = locked_blocks s" "log_inv t = log_inv s" "content t = content s" "icache t = icache s"
    "fs_sb t = fs_sb s" "log_size t = log_size s" "lh_n t = lh_n s" by (simp_all add: t)
qed

section \<open>A sample file\<close>

definition demo_short :: inode where
  "demo_short = demo_inode\<lparr>i_dev := 1, i_inum := 5, i_type := T_FILE, i_size := 3, i_addrs := (\<lambda>_. 0)(0 := 75)\<rparr>"

definition demo_short_fs :: fs_st where
  "demo_short_fs = demo_fs\<lparr>icache := (\<lambda>_. demo_inode)(0 := demo_short)\<rparr>"

lemma demo_notions:
  "content demo_short_fs = demo_fs_disk 1" "used demo_short_fs = used demo_fs" "fs_sb demo_short_fs = fs_sb demo_fs"
  "home_block demo_short_fs = home_block demo_fs" "locked_blocks demo_short_fs = {}" "dirty_blocks demo_short_fs = {}"
  "icache demo_short_fs 0 = demo_short" "log_inv demo_short_fs" "data_block demo_short_fs = data_block demo_fs"
  "lh_n demo_short_fs = 0" "log_size demo_short_fs = 60" "in_op demo_short_fs" "map_layout demo_short_fs"
proof -
  have e: "demo_short_fs = icache_update (\<lambda>_. (\<lambda>_. demo_inode)(0 := demo_short)) demo_fs" by (simp add: demo_short_fs_def)
  show "content demo_short_fs = demo_fs_disk 1" "used demo_short_fs = used demo_fs"
    "home_block demo_short_fs = home_block demo_fs" "locked_blocks demo_short_fs = {}" "dirty_blocks demo_short_fs = {}"
    "log_inv demo_short_fs" "data_block demo_short_fs = data_block demo_fs"
    unfolding e by (simp_all add: demo_fs_cache demo_fs_inv)
  show "map_layout demo_short_fs" using demo_alloc_ok(1) unfolding e by (simp add: map_layout_def)
  show "in_op demo_short_fs" using demo_alloc_ok(4) unfolding e by (simp add: room_def)
  show "lh_n demo_short_fs = 0" "log_size demo_short_fs = 60" "fs_sb demo_short_fs = fs_sb demo_fs"
    "icache demo_short_fs 0 = demo_short" unfolding e by (simp_all add: demo_fs_def)
qed

lemma demo_data: "62 \<le> b \<Longrightarrow> b < 91 \<Longrightarrow> data_block demo_fs (of_nat b)"
proof -
  assume b: "62 \<le> b" "b < 91"
  have u: "unat (of_nat b :: uint) = b" using b by (simp add: unat_small)
  have "BBLOCK (of_nat c) (fs_sb demo_fs) \<noteq> of_nat b" if "c < 10000" for c
    using demo_BBLOCK [OF that] b u by auto
  moreover have "of_nat b \<noteq> (1 :: uint)" using u b by (auto simp: word_unat_eq_iff)
  ultimately show ?thesis using b u by (auto simp: data_block_def demo_sb_decode demo_used demo_home)
qed

lemma demo_short_amap: "amap c demo_short n = (if n = 0 then 75 else 0)"
  by (simp add: amap_def demo_short_def)

lemma demo_short_ok:
  "file_ok demo_short_fs demo_short" "whole demo_short_fs demo_short" "alloc_ok demo_short_fs" "can_read demo_short_fs"
  "clock_ok demo_short_fs" "file_blocks (content demo_short_fs) demo_short = {75}"
proof -
  show fb: "file_blocks (content demo_short_fs) demo_short = {75}"
    by (auto simp: file_blocks_def demo_short_amap) (auto simp: demo_short_def)
  have "data_block demo_fs 75" using demo_data [of 75] by simp
  then show "file_ok demo_short_fs demo_short"
    unfolding file_ok_def fb demo_short_amap by (simp add: demo_notions) (simp add: demo_short_def)
  show "whole demo_short_fs demo_short" unfolding whole_def demo_short_amap by (auto simp: demo_short_def)
  show "alloc_ok demo_short_fs"
    using demo_alloc_ok by (simp add: alloc_ok_def map_layout_def free_ok_def map_quiet_def demo_notions demo_fs_cache demo_used)
  show "can_read demo_short_fs" by (simp add: can_read_def demo_notions)
  show "clock_ok demo_short_fs" using demo_clock_ok by (simp add: clock_ok_def demo_short_fs_def demo_fs_def)
qed

lemma demo_can_write: "can_write 0 2 2 demo_short_fs"
proof -
  have "{94..<10000} \<subseteq> free_blocks demo_short_fs"
    by (auto simp: free_blocks_def demo_notions demo_sb_decode demo_used)
  then have "card {94..<10000 :: nat} \<le> card (free_blocks demo_short_fs)" by (rule card_mono [rotated]) simp
  then have fr: "9906 \<le> card (free_blocks demo_short_fs)" by simp
  have B: "IBLOCK (i_inum demo_short) (fs_sb demo_short_fs) = 62"
    by (simp add: IBLOCK_def demo_notions demo_sb_decode demo_short_def)
  have "chunks 2 2 = 1" by (simp add: chunks_def)
  moreover have "fits (chunks 2 2 + 1) demo_short_fs demo_short"
    by (rule chunk_fits) (simp_all add: demo_notions)
  ultimately show ?thesis
    using fr demo_short_ok demo_data [of 62] B by (simp add: can_write_def Let_def demo_notions no_ind_def demo_short_def)
qed


section \<open>Properties\<close>

text \<open>C7: \<^verbatim>\<open>readi\<close> returns the bytes of the file: for a file whose bytes all have their blocks, inside or outside of a
  transaction, it returns the number of bytes from \<open>off\<close> on, at most \<open>n\<close> and up to the end of the file, and exactly those bytes; it
  changes no block and only the access time of the inode. It returns -1 when \<open>off\<close> is behind the end or the sum overflows.\<close>

theorem readi_returns_file_bytes:
  assumes "clock_ok s" and "can_read s" and "file_ok s (icache s ip)" and "whole s (icache s ip)"
    and "i_type (icache s ip) \<noteq> T_DEV"
  shows "if off \<le> i_size (icache s ip) \<and> \<not> off + n < off
    then let bs = take (unat n) (drop (unat off) (file_bytes s (icache s ip))) in
      \<exists>t v. readi dsw ip off n s = Inr (int (length bs), bs, t)
        \<and> content t = content s \<and> icache t = (icache s)(ip := (icache s ip)\<lparr>i_atime := v\<rparr>)
    else \<exists>t. readi dsw ip off n s = Inr (- 1, [], t)"
proof (cases "off \<le> i_size (icache s ip) \<and> \<not> off + n < off")
  case True
  then show ?thesis
    using readi_ok [OF assms(1-5), of off n dsw] by (simp add: Let_def min.commute)
next
  case False
  from stamped [OF assms(1)] obtain v k where "fsupdtime s = Inr (s\<lparr>curtime := v, cmos_reads := k\<rparr>)" by blast
  then show ?thesis using False assms(5) by (auto simp: readi_def Let_def)
qed

theorem readi_returns_file_bytes_witness:
  "\<exists>t. readi (\<lambda>_. \<lparr>d_read = None, d_write = None, d_ioctl = None\<rparr>) 0 1 5 demo_short_fs = Inr (2, [0, 0], t)"
proof -
  have "i_type (icache demo_short_fs 0) \<noteq> T_DEV" by (simp add: demo_notions demo_short_def)
  from readi_returns_file_bytes [OF demo_short_ok(5,4) _ _ this, of 1 5 "\<lambda>_. \<lparr>d_read = None, d_write = None, d_ioctl = None\<rparr>"]
  have "\<exists>t. readi (\<lambda>_. \<lparr>d_read = None, d_write = None, d_ioctl = None\<rparr>) 0 1 5 demo_short_fs
      = Inr (int (length (take 5 (drop 1 (file_bytes demo_short_fs demo_short)))), take 5 (drop 1 (file_bytes demo_short_fs demo_short)), t)"
    using demo_short_ok by (auto simp: demo_notions demo_short_def Let_def split: if_splits)
  moreover have "file_bytes demo_short_fs demo_short = [0, 0, 0]"
    unfolding file_bytes_def file_byte_def demo_short_amap
    by (simp add: demo_short_def demo_notions demo_fs_disk_def upt_rec)
  ultimately show ?thesis by simp
qed

text \<open>C6: \<^verbatim>\<open>writei\<close> replaces exactly the bytes asked for: inside a transaction with room for the blocks it touches, a write that
  starts within the file returns its length and leaves the file with the new bytes at \<open>off\<close>, the old ones before and after them, and
  the larger of the two sizes; when the file has grown, its inode on disk says so. Every other file that shares no block
  with this one has the bytes it had.\<close>

theorem writei_overwrites_bytes:
  assumes "clock_ok s" and "can_write ip (unat off) (length src) s" and "i_type (icache s ip) \<noteq> T_DEV"
    and "off \<le> i_size (icache s ip)"
  shows "\<exists>t. writei dsw ip src off s = Inr (int (length src), t)
    \<and> file_bytes t (icache t ip) = take (unat off) (file_bytes s (icache s ip)) @ src
        @ drop (unat off + length src) (file_bytes s (icache s ip))
    \<and> file_written ip (unat off) src s t"
  using writei_ok [OF assms, of dsw] by (auto simp: file_written_def overwrite_def Let_def)

theorem writei_overwrites_bytes_witness:
  "\<exists>t. writei (\<lambda>_. \<lparr>d_read = None, d_write = None, d_ioctl = None\<rparr>) 0 [7, 8] 2 demo_short_fs = Inr (2, t)
     \<and> file_bytes t (icache t 0) = [0, 0, 7, 8]"
proof -
  have b: "file_bytes demo_short_fs demo_short = [0, 0, 0]"
    unfolding file_bytes_def file_byte_def demo_short_amap
    by (simp add: demo_short_def demo_notions demo_fs_disk_def upt_rec)
  have "i_type (icache demo_short_fs 0) \<noteq> T_DEV" "2 \<le> i_size (icache demo_short_fs 0)" by (simp_all add: demo_notions demo_short_def)
  moreover have "can_write 0 2 (Suc (Suc 0)) demo_short_fs" using demo_can_write by (simp add: numeral_2_eq_2)
  ultimately show ?thesis
    using writei_overwrites_bytes [OF demo_short_ok(5), of 0 2 "[7, 8]" "\<lambda>_. \<lparr>d_read = None, d_write = None, d_ioctl = None\<rparr>"]
    by (auto simp: demo_notions b)
qed

end
