(* ===== verification/KDir.thy ===== *)
theory KDir
  imports KInode
begin

text \<open>
  Directories and path names (\<^verbatim>\<open>kernel/fs.c\<close>): directory entries, \<^verbatim>\<open>dirlookup\<close>, \<^verbatim>\<open>dirlink\<close>,
  \<^verbatim>\<open>skipelem\<close>, \<^verbatim>\<open>namex\<close> and the routines on top of it. A C string is the list of its bytes
  before the terminating zero; the buffer \<^verbatim>\<open>name[DIRSIZ]\<close> is the list of the bytes before its
  first zero, at most \<^verbatim>\<open>DIRSIZ\<close> of them.
\<close>

section \<open>Definitions\<close>

abbreviation "DIRSIZ \<equiv> 14 :: nat"
abbreviation "ROOTINO \<equiv> 1 :: uint"

subsection \<open>Directory entries\<close>

text \<open>\<^verbatim>\<open>struct dirent\<close>: two bytes of inode number, then the name.\<close>

definition de_inum :: "uchar list \<Rightarrow> ushort" where
  "de_inum bs = rd16 (\<lambda>i. bs ! i) 0"

definition de_name :: "uchar list \<Rightarrow> uchar list" where
  "de_name bs = take DIRSIZ (drop 2 bs)"

definition enc_dirent :: "ushort \<Rightarrow> uchar list \<Rightarrow> uchar list" where
  "enc_dirent inum name =
     [ucast inum, ucast (drop_bit 8 inum)] @ take DIRSIZ (name @ replicate DIRSIZ 0)"

text \<open>\<^verbatim>\<open>strncmp\<close> on byte lists; the end of a list is its terminating zero.\<close>

fun strncmp_list :: "uchar list \<Rightarrow> uchar list \<Rightarrow> nat \<Rightarrow> int" where
  "strncmp_list p q 0 = 0"
| "strncmp_list [] [] (Suc n) = 0"
| "strncmp_list [] (c # q) (Suc n) = - uint c"
| "strncmp_list (c # p) [] (Suc n) = uint c"
| "strncmp_list (c # p) (e # q) (Suc n) =
     (if c \<noteq> 0 \<and> c = e then strncmp_list p q n else uint c - uint e)"

definition namecmp :: "uchar list \<Rightarrow> uchar list \<Rightarrow> int" where
  "namecmp s t = strncmp_list s t DIRSIZ"

text \<open>The offsets \<open>0, 16, 32, ...\<close> below the size of a directory.\<close>

definition dir_offs :: "nat \<Rightarrow> nat list" where
  "dir_offs sz = map (\<lambda>k. 16 * k) [0..<(sz + 15) div 16]"

primrec dirlookup_scan :: "(nat \<Rightarrow> 'a fs_st_scheme devsw) \<Rightarrow> nat \<Rightarrow> uchar list \<Rightarrow> nat list \<Rightarrow> 'a fs_st_scheme
    \<Rightarrow> ((nat \<times> nat) option \<times> 'a fs_st_scheme) res" where
  "dirlookup_scan dsw dp name [] s = Inr (None, s)"
| "dirlookup_scan dsw dp name (off # offs) s =
     rbind (readi dsw dp (of_nat off) 16 s) (\<lambda>(r, de, s).
     if r \<noteq> 16 then Inl (Panic ''dirlookup read'')
     else if de_inum de = 0 then dirlookup_scan dsw dp name offs s
     else if namecmp name (de_name de) = 0 then
       rbind (iget (i_dev (icache s dp)) (ucast (de_inum de)) s) (\<lambda>(ip, s). Inr (Some (ip, off), s))
     else dirlookup_scan dsw dp name offs s)"

definition dirlookup :: "(nat \<Rightarrow> 'a fs_st_scheme devsw) \<Rightarrow> nat \<Rightarrow> uchar list \<Rightarrow> 'a fs_st_scheme
    \<Rightarrow> ((nat \<times> nat) option \<times> 'a fs_st_scheme) res" where
  "dirlookup dsw dp name s =
     (if i_type (icache s dp) \<noteq> T_DIR then Inl (Panic ''dirlookup not DIR'')
      else dirlookup_scan dsw dp name (dir_offs (unat (i_size (icache s dp)))) s)"

text \<open>The search of \<^verbatim>\<open>dirlink\<close> for an empty entry; past the last entry it ends at the end.\<close>

primrec dirlink_scan :: "(nat \<Rightarrow> 'a fs_st_scheme devsw) \<Rightarrow> nat \<Rightarrow> nat list \<Rightarrow> nat \<Rightarrow> 'a fs_st_scheme
    \<Rightarrow> (nat \<times> 'a fs_st_scheme) res" where
  "dirlink_scan dsw dp [] end_off s = Inr (end_off, s)"
| "dirlink_scan dsw dp (off # offs) end_off s =
     rbind (readi dsw dp (of_nat off) 16 s) (\<lambda>(r, de, s).
     if r \<noteq> 16 then Inl (Panic ''dirlink read'')
     else if de_inum de = 0 then Inr (off, s)
     else dirlink_scan dsw dp offs end_off s)"

definition dirlink :: "(nat \<Rightarrow> 'a fs_st_scheme devsw) \<Rightarrow> nat \<Rightarrow> uchar list \<Rightarrow> uint \<Rightarrow> 'a fs_st_scheme
    \<Rightarrow> (int \<times> 'a fs_st_scheme) res" where
  "dirlink dsw dp name inum s =
     rbind (dirlookup dsw dp name s) (\<lambda>(found, s).
     case found of
       Some (ip, off) \<Rightarrow> rbind (iput ip s) (\<lambda>s. Inr (- 1, s))
     | None \<Rightarrow>
         (let sz = unat (i_size (icache s dp)) in
          rbind (dirlink_scan dsw dp (dir_offs sz) (16 * ((sz + 15) div 16)) s) (\<lambda>(off, s).
          rbind (writei dsw dp (enc_dirent (ucast inum) name) (of_nat off) s) (\<lambda>(r, s).
          if r \<noteq> 16 then Inl (Panic ''dirlink'') else Inr (0, s)))))"

subsection \<open>Paths\<close>

abbreviation "slash \<equiv> 47 :: uchar"

text \<open>\<^verbatim>\<open>skipelem\<close>: the next element, cut to the size of the name buffer, and the path behind it.\<close>

definition skipelem :: "uchar list \<Rightarrow> (uchar list \<times> uchar list) option" where
  "skipelem path =
     (let path = dropWhile (\<lambda>c. c = slash) path in
      if path = [] then None
      else
       (let s = takeWhile (\<lambda>c. c \<noteq> slash) path; path = dropWhile (\<lambda>c. c \<noteq> slash) path;
            name = (if length s \<ge> DIRSIZ then take DIRSIZ s else s)
        in Some (name, dropWhile (\<lambda>c. c = slash) path)))"

lemma skipelem_shorter:
  assumes "skipelem path = Some (name, rest)"
  shows "length rest < length path"
proof -
  let ?p = "dropWhile (\<lambda>c. c = slash) path"
  from assms have ne: "?p \<noteq> []"
    and rest: "rest = dropWhile (\<lambda>c. c = slash) (dropWhile (\<lambda>c. c \<noteq> slash) ?p)"
    by (auto simp: skipelem_def Let_def split: if_splits)
  then obtain c p where p: "?p = c # p" "c \<noteq> slash"
    by (metis (full_types) hd_dropWhile list.exhaust list.sel(1))
  have "length rest \<le> length (dropWhile (\<lambda>c. c \<noteq> slash) ?p)"
    unfolding rest by (rule length_dropWhile_le)
  also have "\<dots> \<le> length p" using p by (simp add: length_dropWhile_le)
  also have "\<dots> < length ?p" using p(1) by simp
  also have "\<dots> \<le> length path" by (rule length_dropWhile_le)
  finally show ?thesis .
qed

text \<open>
  The loop of \<^verbatim>\<open>namex\<close>. The result is the inode, or \<^term>\<open>None\<close> for the null pointer, and the
  contents of the name buffer.
\<close>

function namex_loop :: "(nat \<Rightarrow> 'a fs_st_scheme devsw) \<Rightarrow> bool \<Rightarrow> nat \<Rightarrow> uchar list \<Rightarrow> uchar list
    \<Rightarrow> 'a fs_st_scheme \<Rightarrow> (nat option \<times> uchar list \<times> 'a fs_st_scheme) res" where
  "namex_loop dsw parent ip path name s =
     (case skipelem path of
        None \<Rightarrow>
          if parent then rbind (iput ip s) (\<lambda>s. Inr (None, name, s)) else Inr (Some ip, name, s)
      | Some (name, path) \<Rightarrow>
          rbind (ilock (Some ip) s) (\<lambda>s.
          if i_type (icache s ip) \<noteq> T_DIR then
            rbind (iunlockput ip s) (\<lambda>s. Inr (None, name, s))
          else if parent \<and> path = [] then
            rbind (iunlock (Some ip) s) (\<lambda>s. Inr (Some ip, name, s))
          else
            rbind (dirlookup dsw ip name s) (\<lambda>(found, s).
            case found of
              None \<Rightarrow> rbind (iunlockput ip s) (\<lambda>s. Inr (None, name, s))
            | Some (next, off) \<Rightarrow>
                rbind (iunlockput ip s) (\<lambda>s. namex_loop dsw parent next path name s))))"
  by pat_completeness auto
termination
  by (relation "measure (\<lambda>(dsw, parent, ip, path, name, s). length path)") (auto dest: skipelem_shorter)

declare namex_loop.simps [simp del]

text \<open>\<open>cwd\<close> is \<^verbatim>\<open>myproc()->cwd\<close>.\<close>

definition namex :: "(nat \<Rightarrow> 'a fs_st_scheme devsw) \<Rightarrow> nat \<Rightarrow> uchar list \<Rightarrow> bool \<Rightarrow> 'a fs_st_scheme
    \<Rightarrow> (nat option \<times> uchar list \<times> 'a fs_st_scheme) res" where
  "namex dsw cwd path parent s =
     rbind (if path \<noteq> [] \<and> hd path = slash then iget ROOTDEV ROOTINO s else Inr (cwd, idup cwd s)) (\<lambda>(ip, s).
     namex_loop dsw parent ip path [] s)"

text \<open>The bytes of \<^verbatim>\<open>ip->addrs\<close>, where a symbolic link keeps its target.\<close>

definition addr_bytes :: "inode \<Rightarrow> uchar list" where
  "addr_bytes i = concat (map (\<lambda>k. let v = i_addrs i k in
     [ucast v, ucast (drop_bit 8 v), ucast (drop_bit 16 v), ucast (drop_bit 24 v)]) [0..<NDIRECT + 1])"

definition nameifollow :: "(nat \<Rightarrow> 'a fs_st_scheme devsw) \<Rightarrow> nat \<Rightarrow> nat \<Rightarrow> 'a fs_st_scheme
    \<Rightarrow> (nat option \<times> 'a fs_st_scheme) res" where
  "nameifollow dsw cwd ip s =
     (let i = icache s ip; sz = unat (i_size i) in
      if sz > 44 then Inl (BadAccess ''target'')
      else
        rbind (namex dsw cwd (takeWhile (\<lambda>c. c \<noteq> 0) (take sz (addr_bytes i))) False s) (\<lambda>(next, name, s).
        Inr (next, s)))"

text \<open>The loop of \<^verbatim>\<open>namei\<close>: at most eleven links are followed.\<close>

primrec namei_loop :: "(nat \<Rightarrow> 'a fs_st_scheme devsw) \<Rightarrow> nat \<Rightarrow> nat \<Rightarrow> nat \<Rightarrow> 'a fs_st_scheme
    \<Rightarrow> (nat option \<times> 'a fs_st_scheme) res" where
  "namei_loop dsw cwd 0 ip s = Inr (None, s)"
| "namei_loop dsw cwd (Suc k) ip s =
     (if i_type (icache s ip) = T_SYMLINK then
        rbind (nameifollow dsw cwd ip s) (\<lambda>(next, s).
        rbind (iput ip s) (\<lambda>s.
        case next of
          None \<Rightarrow> Inr (None, s)
        | Some ip \<Rightarrow> namei_loop dsw cwd k ip s))
      else Inr (Some ip, s))"

text \<open>\<^verbatim>\<open>namei\<close> reads \<^verbatim>\<open>ip->type\<close> without looking whether \<^verbatim>\<open>namex\<close> found anything.\<close>

definition namei :: "(nat \<Rightarrow> 'a fs_st_scheme devsw) \<Rightarrow> nat \<Rightarrow> uchar list \<Rightarrow> 'a fs_st_scheme
    \<Rightarrow> (nat option \<times> 'a fs_st_scheme) res" where
  "namei dsw cwd path s =
     rbind (namex dsw cwd path False s) (\<lambda>(ip, name, s).
     case ip of
       None \<Rightarrow> Inl (BadAccess ''ip'')
     | Some ip \<Rightarrow> namei_loop dsw cwd 11 ip s)"

definition nameiparent :: "(nat \<Rightarrow> 'a fs_st_scheme devsw) \<Rightarrow> nat \<Rightarrow> uchar list \<Rightarrow> 'a fs_st_scheme
    \<Rightarrow> (nat option \<times> uchar list \<times> 'a fs_st_scheme) res" where
  "nameiparent dsw cwd path s = namex dsw cwd path True s"

end
