(* ===== verification/KDirectory.thy ===== *)
theory KDirectory
  imports KData KDir
begin

text \<open>
  Directories as maps: what \<^verbatim>\<open>dirlookup\<close> and \<^verbatim>\<open>dirlink\<close> of \<^verbatim>\<open>kernel/fs.c\<close> do to a directory as a map from names to inode
  numbers. The map is read off the bytes of the directory file; the entries with inode number zero are free. The lemmas rest on
  what \<^verbatim>\<open>KData\<close> shows of \<^verbatim>\<open>readi\<close> and \<^verbatim>\<open>writei\<close>.
\<close>

section \<open>Names and entries\<close>

text \<open>What of a name counts: at most \<^verbatim>\<open>DIRSIZ\<close> bytes, up to the first zero.\<close>

definition dir_key :: "uchar list \<Rightarrow> uchar list" where
  "dir_key name = takeWhile (\<lambda>c. c \<noteq> 0) (take DIRSIZ name)"

definition dirent_at :: "uchar list \<Rightarrow> nat \<Rightarrow> uchar list" where
  "dirent_at bs k = take 16 (drop (16 * k) bs)"

definition dirents :: "uchar list \<Rightarrow> uchar list list" where
  "dirents bs = map (dirent_at bs) [0..<length bs div 16]"

abbreviation live :: "uchar list \<Rightarrow> bool" where
  "live de \<equiv> de_inum de \<noteq> 0"

definition dir_alist :: "uchar list \<Rightarrow> (uchar list \<times> ushort) list" where
  "dir_alist bs = map (\<lambda>de. (dir_key (de_name de), de_inum de)) (filter live (dirents bs))"

text \<open>The directory as a map, and that no name occurs twice in it.\<close>

definition dir_map :: "uchar list \<Rightarrow> uchar list \<Rightarrow> ushort option" where
  "dir_map bs = map_of (dir_alist bs)"

definition dir_unique :: "uchar list \<Rightarrow> bool" where
  "dir_unique bs \<longleftrightarrow> distinct (map fst (dir_alist bs))"

text \<open>The place of a new entry: the first free one, or the end.\<close>

definition dir_slot :: "uchar list \<Rightarrow> nat" where
  "dir_slot bs = (case find (\<lambda>k. \<not> live (dirent_at bs k)) [0..<length bs div 16] of Some k \<Rightarrow> k | None \<Rightarrow> length bs div 16)"

lemma strncmp_list_zero:
  "strncmp_list p q n = 0 \<longleftrightarrow> takeWhile (\<lambda>c. c \<noteq> 0) (take n p) = takeWhile (\<lambda>c. c \<noteq> 0) (take n q)"
  by (induction p q n rule: strncmp_list.induct) (auto simp: uint_0_iff dest: word_uint_eqI)

lemma namecmp_zero: "namecmp s t = 0 \<longleftrightarrow> dir_key s = dir_key t"
  by (simp add: namecmp_def dir_key_def strncmp_list_zero)

lemma enc_dirent_facts [simp]:
  "de_inum (enc_dirent inum name) = inum" "dir_key (de_name (enc_dirent inum name)) = dir_key name" "length (enc_dirent inum name) = 16"
proof -
  have "de_inum (enc_dirent inum name) = rd16 (wr16 (\<lambda>_. 0) 0 inum) 0"
    unfolding de_inum_def by (rule rd16_cong) (simp_all add: enc_dirent_def wr16_def)
  then show "de_inum (enc_dirent inum name) = inum" by simp
  have "takeWhile (\<lambda>c. c \<noteq> 0) (xs @ replicate n (0 :: uchar)) = takeWhile (\<lambda>c. c \<noteq> 0) xs" for xs n
    by (induction xs) (auto simp: takeWhile_eq_Nil_iff)
  then show "dir_key (de_name (enc_dirent inum name)) = dir_key name"
    by (simp add: dir_key_def de_name_def enc_dirent_def)
  show "length (enc_dirent inum name) = 16" by (simp add: enc_dirent_def)
qed

lemma map_of_filter_find: "map_of (map (\<lambda>d. (f d, g d)) (filter P ds)) k = map_option g (find (\<lambda>d. P d \<and> f d = k) ds)"
  by (induction ds) auto

lemma find_map: "find P (map f xs) = map_option f (find (\<lambda>x. P (f x)) xs)"
  by (induction xs) auto

abbreviation matches :: "uchar list \<Rightarrow> uchar list \<Rightarrow> nat \<Rightarrow> bool" where
  "matches bs name k \<equiv> live (dirent_at bs k) \<and> dir_key (de_name (dirent_at bs k)) = dir_key name"

lemma dir_map_find:
  "dir_map bs (dir_key name) = map_option (\<lambda>k. de_inum (dirent_at bs k)) (find (matches bs name) [0..<length bs div 16])"
  unfolding dir_map_def dir_alist_def map_of_filter_find dirents_def find_map by (simp add: option.map_comp comp_def)

lemma length_dirent_at: "16 * k + 16 \<le> length bs \<Longrightarrow> length (dirent_at bs k) = 16"
  by (simp add: dirent_at_def)

section \<open>Adding an entry\<close>

lemma dirent_at_overwrite:
  assumes "length e = 16" and "16 * k \<le> length bs"
  shows "dirent_at (overwrite bs (16 * k) e) j = (if j = k then e else dirent_at bs j)"
proof (cases j k rule: linorder_cases)
  case less
  then have "16 \<le> 16 * k - 16 * j" "16 \<le> length bs - 16 * j" using assms(2) by simp_all
  with less assms show ?thesis
    by (simp add: dirent_at_def overwrite_def drop_take min_def)
next
  case equal
  then show ?thesis using assms by (simp add: dirent_at_def overwrite_def)
next
  case greater
  then have "16 * j = 16 * k + 16 + (16 * j - (16 * k + 16))" by simp
  then obtain r where "16 * j = 16 * k + 16 + r" by blast
  with greater assms show ?thesis
    by (simp add: dirent_at_def overwrite_def add.commute)
qed

lemma dirents_overwrite:
  assumes "length e = 16" and "16 dvd length bs" and "k \<le> length bs div 16"
  shows "dirents (overwrite bs (16 * k) e) = take k (dirents bs) @ e # drop (Suc k) (dirents bs)"
proof -
  from assms(2) obtain n where n: "length bs = 16 * n" by (auto simp: dvd_def)
  have k: "k \<le> n" using assms(3) n by simp
  have l: "length (overwrite bs (16 * k) e) = 16 * max n (Suc k)" using assms(1) k n by (auto simp: overwrite_def max_def)
  show ?thesis
  proof (rule nth_equalityI)
    show "length (dirents (overwrite bs (16 * k) e)) = length (take k (dirents bs) @ e # drop (Suc k) (dirents bs))"
      using k n l by (simp add: dirents_def max_def)
    fix j assume "j < length (dirents (overwrite bs (16 * k) e))"
    then have "j < max n (Suc k)" using l by (simp add: dirents_def)
    then show "dirents (overwrite bs (16 * k) e) ! j = (take k (dirents bs) @ e # drop (Suc k) (dirents bs)) ! j"
      using k n l assms(1) by (auto simp: dirents_def dirent_at_overwrite nth_append nth_Cons' max_def split: if_splits)
  qed
qed

lemma dir_slot_dead:
  "dir_slot bs \<le> length bs div 16" "dir_slot bs < length bs div 16 \<Longrightarrow> \<not> live (dirent_at bs (dir_slot bs))"
proof -
  have "dir_slot bs \<le> length bs div 16 \<and> (dir_slot bs < length bs div 16 \<longrightarrow> \<not> live (dirent_at bs (dir_slot bs)))"
  proof (cases "find (\<lambda>k. \<not> live (dirent_at bs k)) [0..<length bs div 16]")
    case (Some k)
    then have "dir_slot bs = k" by (simp add: dir_slot_def)
    with Some [unfolded find_Some_iff] show ?thesis by auto
  qed (simp add: dir_slot_def)
  then show "dir_slot bs \<le> length bs div 16" "dir_slot bs < length bs div 16 \<Longrightarrow> \<not> live (dirent_at bs (dir_slot bs))" by auto
qed

lemma dir_alist_slot:
  assumes "16 dvd length bs" and "inum \<noteq> 0"
  obtains A B where "dir_alist bs = A @ B"
    and "dir_alist (overwrite bs (16 * dir_slot bs) (enc_dirent inum name)) = A @ (dir_key name, inum) # B"
proof -
  let ?k = "dir_slot bs" and ?f = "\<lambda>de. (dir_key (de_name de), de_inum de)" and ?ds = "dirents bs"
  have "filter live ?ds = filter live (take ?k ?ds) @ filter live (drop (Suc ?k) ?ds)"
  proof (cases "?k < length ?ds")
    case True
    have "filter live ?ds = filter live (take ?k ?ds @ ?ds ! ?k # drop (Suc ?k) ?ds)" using id_take_nth_drop [OF True] by simp
    moreover have "\<not> live (?ds ! ?k)" using True dir_slot_dead(2) [of bs] by (simp add: dirents_def)
    ultimately show ?thesis by simp
  qed simp
  moreover have "dirents (overwrite bs (16 * ?k) (enc_dirent inum name)) = take ?k ?ds @ enc_dirent inum name # drop (Suc ?k) ?ds"
    by (rule dirents_overwrite) (use assms(1) dir_slot_dead(1) in simp_all)
  ultimately show thesis
    using that [of "map ?f (filter live (take ?k ?ds))" "map ?f (filter live (drop (Suc ?k) ?ds))"] assms(2) by (simp add: dir_alist_def)
qed

lemma dir_map_link:
  assumes "16 dvd length bs" and "inum \<noteq> 0" and "dir_map bs (dir_key name) = None"
  shows "dir_map (overwrite bs (16 * dir_slot bs) (enc_dirent inum name)) = (dir_map bs)(dir_key name \<mapsto> inum)"
    and "dir_unique bs \<Longrightarrow> dir_unique (overwrite bs (16 * dir_slot bs) (enc_dirent inum name))"
proof -
  obtain A B where ab: "dir_alist bs = A @ B"
    "dir_alist (overwrite bs (16 * dir_slot bs) (enc_dirent inum name)) = A @ (dir_key name, inum) # B"
    by (rule dir_alist_slot [OF assms(1,2)])
  have no: "dir_key name \<notin> fst ` set A" "dir_key name \<notin> fst ` set B"
    using assms(3) unfolding dir_map_def ab(1) map_of_eq_None_iff by auto
  then have "dir_key name \<notin> dom (map_of A)" by (simp add: dom_map_of_conv_image_fst)
  then show "dir_map (overwrite bs (16 * dir_slot bs) (enc_dirent inum name)) = (dir_map bs)(dir_key name \<mapsto> inum)"
    unfolding dir_map_def ab by (simp add: map_add_upd_left)
  show "dir_unique (overwrite bs (16 * dir_slot bs) (enc_dirent inum name))" if "dir_unique bs"
    using that no unfolding dir_unique_def ab by auto
qed

section \<open>Reading a directory\<close>

definition fits_all :: "'a fs_st_scheme \<Rightarrow> nat \<Rightarrow> inode \<Rightarrow> bool" where
  "fits_all s m i = fits m s i"

text \<open>Reading leaves everything but the access time of the directory, the order of the buffers and the time.\<close>

definition peeked :: "nat \<Rightarrow> 'a fs_st_scheme \<Rightarrow> 'a fs_st_scheme \<Rightarrow> bool" where
  "peeked ip s t \<longleftrightarrow> content t = content s \<and> (\<exists>v. icache t = (icache s)(ip := (icache s ip)\<lparr>i_atime := v\<rparr>))
     \<and> fs_cmos t = fs_cmos s \<and> can_read t \<and> file_ok t = file_ok s \<and> whole t = whole s \<and> alloc_ok t = alloc_ok s \<and> fits_all t = fits_all s
     \<and> free_blocks t = free_blocks s \<and> data_block t = data_block s \<and> locked_blocks t = locked_blocks s
     \<and> sb_inodestart (fs_sb t) = sb_inodestart (fs_sb s)
     \<and> home_block t = home_block s \<and> mypid t = mypid s \<and> (room 1 s \<longrightarrow> room 1 t)"

text \<open>The clock can be read at any time.\<close>

definition clock_steady :: "'a fs_st_scheme \<Rightarrow> bool" where
  "clock_steady s \<longleftrightarrow> (\<forall>n. \<exists>v k. unix_uptime (fs_cmos s) n = Some (Inr v, k))"

definition dir_ok :: "'a fs_st_scheme \<Rightarrow> nat \<Rightarrow> bool" where
  "dir_ok s dp \<longleftrightarrow> clock_steady s \<and> can_read s \<and> file_ok s (icache s dp) \<and> whole s (icache s dp)
     \<and> i_type (icache s dp) = T_DIR \<and> 16 dvd unat (i_size (icache s dp))"

abbreviation dir_bytes :: "'a fs_st_scheme \<Rightarrow> nat \<Rightarrow> uchar list" where
  "dir_bytes s dp \<equiv> file_bytes s (icache s dp)"

lemma peeked_refl: "can_read s \<Longrightarrow> peeked ip s s"
  unfolding peeked_def by (auto intro!: exI [of _ "i_atime (icache s ip)"])

lemma peeked_trans: "peeked ip s t \<Longrightarrow> peeked ip t u \<Longrightarrow> peeked ip s u"
  unfolding peeked_def by force

lemma peeked_inode:
  assumes "peeked ip s t"
  obtains v where "icache t ip = (icache s ip)\<lparr>i_atime := v\<rparr>" and "icache t = (icache s)(ip := (icache s ip)\<lparr>i_atime := v\<rparr>)"
  using assms by (auto simp: peeked_def)

lemma peeked_dir:
  assumes "peeked dp s t"
  shows "dir_ok s dp \<Longrightarrow> dir_ok t dp" and "dir_bytes t dp = dir_bytes s dp" and "i_dev (icache t dp) = i_dev (icache s dp)"
    and "i_size (icache t dp) = i_size (icache s dp)"
proof -
  obtain v where i: "icache t dp = (icache s dp)\<lparr>i_atime := v\<rparr>" by (rule peeked_inode [OF assms])
  have p: "content t = content s" "fs_cmos t = fs_cmos s" "can_read t" "file_ok t = file_ok s" "whole t = whole s"
    using assms by (auto simp: peeked_def)
  show "dir_ok s dp \<Longrightarrow> dir_ok t dp" by (simp add: dir_ok_def clock_steady_def p i)
  show "dir_bytes t dp = dir_bytes s dp" by (simp add: file_bytes_def p i)
  show "i_dev (icache t dp) = i_dev (icache s dp)" "i_size (icache t dp) = i_size (icache s dp)" by (simp_all add: i)
qed

lemma looked_peeked:
  assumes r: "can_read s" and l: "looked (upd_inode ip (\<lambda>i. i\<lparr>i_atime := v\<rparr>) (stamp v k s)) t"
  shows "peeked ip s t"
proof -
  let ?s = "upd_inode ip (\<lambda>i. i\<lparr>i_atime := v\<rparr>) (stamp v k s)"
  have rs: "can_read ?s" using r by (simp add: upd_inode_icache can_read_def stamp_def)
  note K = looked_keeps [OF l]
  note N = same_notions [OF K(1,3)] and F = stays_fields [OF K(3)]
  have lg: "logs {} ?s t" using l by (simp add: looked_def)
  have "fits m t i = fits m ?s i" for m i
    using rs by (simp add: fits_def F stays_need [OF K(3) lg] can_read_def)
  then have "fits_all t = fits_all s" by (simp add: fits_all_def fun_eq_iff upd_inode_icache)
  moreover have "fs_cmos t = fs_cmos s" using same_outer_fs(4) [OF did_outer] l by (fastforce simp: looked_def upd_inode_icache stamp_def)
  moreover have "sb_inodestart (fs_sb t) = sb_inodestart (fs_sb s)" using K(9) by (simp add: upd_inode_icache stamp_def)
  moreover have "room 1 s \<Longrightarrow> room 1 t" "mypid t = mypid s"
    using l K(8) rs F(1,3,5) unfolding looked_def did_def room_def by (auto simp: upd_inode_icache stamp_def can_read_def same_outer_log)
  ultimately show ?thesis using K(1,2,4,7) rs N F(1,2) unfolding peeked_def by (auto simp: upd_inode_icache)
qed

lemma readi_dirent:
  assumes d: "dir_ok s dp" and k: "k < length (dir_bytes s dp) div 16"
  obtains t where "readi dsw dp (of_nat (16 * k)) 16 s = Inr (16, dirent_at (dir_bytes s dp) k, t)" and "peeked dp s t"
proof -
  have D: "clock_ok s" "can_read s" "file_ok s (icache s dp)" "whole s (icache s dp)" "i_type (icache s dp) \<noteq> T_DEV"
    using d by (auto simp: dir_ok_def clock_steady_def clock_ok_def)
  have k2: "16 * k + 16 \<le> unat (i_size (icache s dp))" using k by simp
  moreover have "unat (i_size (icache s dp)) \<le> NDATA * BSIZE" using D(4) by (simp add: whole_def)
  ultimately have u: "unat (of_nat (16 * k) :: uint) = 16 * k" unfolding unat_of_nat by (intro mod_less) simp
  have "unat (of_nat (16 * k) :: uint) + unat (16 :: uint) < 2 ^ LENGTH(32)" unfolding u using k2 D(4) by (simp add: whole_def)
  then have o: "\<not> of_nat (16 * k) + (16 :: uint) < of_nat (16 * k)" by (simp only: not_less no_olen_add_nat)
  have "of_nat (16 * k) \<le> i_size (icache s dp)" unfolding word_le_nat_alt u using k2 by simp
  from readi_run [OF D this o, of dsw] obtain v m t where
    "readi dsw dp (of_nat (16 * k)) 16 s = Inr (int (min 16 (unat (i_size (icache s dp)) - 16 * k)), take 16 (drop (16 * k) (dir_bytes s dp)), t)"
    and l: "looked (upd_inode dp (\<lambda>i. i\<lparr>i_atime := v\<rparr>) (stamp v m s)) t"
    unfolding u by auto
  moreover have "min 16 (unat (i_size (icache s dp)) - 16 * k) = 16" using k2 by simp
  ultimately show thesis using looked_peeked [OF D(2) l] that by (simp add: dirent_at_def)
qed

lemma dirlookup_scan_ok:
  assumes "dir_ok s dp" and "\<forall>k\<in>set ks. k < length (dir_bytes s dp) div 16"
  shows "case find (matches (dir_bytes s dp) name) ks of
      None \<Rightarrow> \<exists>t. dirlookup_scan dsw dp name (map (\<lambda>k. 16 * k) ks) s = Inr (None, t) \<and> peeked dp s t
    | Some k \<Rightarrow> \<exists>t. dirlookup_scan dsw dp name (map (\<lambda>k. 16 * k) ks) s
          = rbind (iget (i_dev (icache s dp)) (ucast (de_inum (dirent_at (dir_bytes s dp) k))) t) (\<lambda>(ip, u). Inr (Some (ip, 16 * k), u))
        \<and> peeked dp s t"
  using assms
proof (induction ks arbitrary: s)
  case Nil
  then show ?case by (auto simp: dir_ok_def intro: peeked_refl)
next
  case (Cons k ks)
  let ?bs = "dir_bytes s dp"
  obtain t where t: "readi dsw dp (of_nat (16 * k)) 16 s = Inr (16, dirent_at ?bs k, t)" "peeked dp s t"
    by (rule readi_dirent [OF Cons.prems(1), of k dsw]) (use Cons.prems(2) in auto)
  note P = peeked_dir [OF t(2)]
  show ?case
  proof (cases "matches ?bs name k")
    case True
    then have "namecmp name (de_name (dirent_at ?bs k)) = 0" by (simp add: namecmp_zero)
    with True t P(3) show ?thesis by (simp only: list.map dirlookup_scan.simps find.simps if_True) auto
  next
    case False
    then have "dirlookup_scan dsw dp name (map (\<lambda>k. 16 * k) (k # ks)) s = dirlookup_scan dsw dp name (map (\<lambda>k. 16 * k) ks) t"
      by (auto simp only: list.map dirlookup_scan.simps t(1) rbind_Inr namecmp_zero prod.case split: if_splits)
    moreover have "find (matches ?bs name) (k # ks) = find (matches (dir_bytes t dp) name) ks" using False P(2) by auto
    moreover note Cons.IH [OF P(1) [OF Cons.prems(1)]]
    ultimately show ?thesis using Cons.prems(2) P peeked_trans [OF t(2)] by (auto split: option.splits)
  qed
qed

lemma dir_offs_all: "16 dvd n \<Longrightarrow> dir_offs n = map (\<lambda>k. 16 * k) [0..<n div 16]"
  by (auto simp: dir_offs_def dvd_def)

lemma dirlink_scan_ok:
  assumes "dir_ok s dp" and "\<forall>k\<in>set ks. k < length (dir_bytes s dp) div 16"
  shows "\<exists>t. dirlink_scan dsw dp (map (\<lambda>k. 16 * k) ks) e s
        = Inr (case find (\<lambda>k. \<not> live (dirent_at (dir_bytes s dp) k)) ks of None \<Rightarrow> e | Some k \<Rightarrow> 16 * k, t)
      \<and> peeked dp s t"
  using assms
proof (induction ks arbitrary: s)
  case Nil
  then show ?case by (auto simp: dir_ok_def intro: peeked_refl)
next
  case (Cons k ks)
  let ?bs = "dir_bytes s dp"
  obtain t where t: "readi dsw dp (of_nat (16 * k)) 16 s = Inr (16, dirent_at ?bs k, t)" "peeked dp s t"
    by (rule readi_dirent [OF Cons.prems(1), of k dsw]) (use Cons.prems(2) in auto)
  note P = peeked_dir [OF t(2)]
  show ?case
  proof (cases "live (dirent_at ?bs k)")
    case False
    with t show ?thesis by (auto simp only: list.map dirlink_scan.simps rbind_Inr prod.case find.simps if_False if_True simp_thms option.case)
  next
    case True
    then have "dirlink_scan dsw dp (map (\<lambda>k. 16 * k) (k # ks)) e s = dirlink_scan dsw dp (map (\<lambda>k. 16 * k) ks) e t"
      by (simp only: list.map dirlink_scan.simps t(1) rbind_Inr prod.case simp_thms if_False)
    moreover have "\<exists>u. dirlink_scan dsw dp (map (\<lambda>k. 16 * k) ks) e t
        = Inr (case find (\<lambda>k. \<not> live (dirent_at (dir_bytes t dp) k)) ks of None \<Rightarrow> e | Some k \<Rightarrow> 16 * k, u) \<and> peeked dp t u"
      by (rule Cons.IH [OF P(1) [OF Cons.prems(1)]]) (use Cons.prems(2) P(2) in simp)
    ultimately show ?thesis using True P(2) peeked_trans [OF t(2)] by auto
  qed
qed

lemma dir_length:
  assumes "dir_ok s dp"
  shows "16 dvd length (dir_bytes s dp)" and "unat (i_size (icache s dp)) div 16 = length (dir_bytes s dp) div 16"
  using assms by (simp_all add: dir_ok_def)

lemma dirlookup_none:
  assumes "dir_ok s dp" and "dir_map (dir_bytes s dp) (dir_key name) = None"
  obtains t where "dirlookup dsw dp name s = Inr (None, t)" and "peeked dp s t"
proof -
  have "find (matches (dir_bytes s dp) name) [0..<length (dir_bytes s dp) div 16] = None"
    using assms(2) unfolding dir_map_find by simp
  with dirlookup_scan_ok [OF assms(1), where ks = "[0..<length (dir_bytes s dp) div 16]" and name = name and dsw = dsw] show thesis
    using that assms(1) dir_offs_all [of "unat (i_size (icache s dp))"] by (auto simp: dirlookup_def dir_ok_def)
qed

lemma dirlookup_some:
  assumes "dir_ok s dp" and "dir_map (dir_bytes s dp) (dir_key name) = Some inum"
  obtains t k where "dirlookup dsw dp name s = rbind (iget (i_dev (icache s dp)) (ucast inum) t) (\<lambda>(ip, u). Inr (Some (ip, 16 * k), u))"
    and "peeked dp s t" and "k < length (dir_bytes s dp) div 16" and "matches (dir_bytes s dp) name k"
    and "de_inum (dirent_at (dir_bytes s dp) k) = inum"
proof -
  obtain k where k: "find (matches (dir_bytes s dp) name) [0..<length (dir_bytes s dp) div 16] = Some k"
    "de_inum (dirent_at (dir_bytes s dp) k) = inum"
    using assms(2) unfolding dir_map_find by auto
  from dirlookup_scan_ok [OF assms(1), where ks = "[0..<length (dir_bytes s dp) div 16]" and name = name and dsw = dsw] obtain t where
    t: "dirlookup_scan dsw dp name (map (\<lambda>k. 16 * k) [0..<length (dir_bytes s dp) div 16]) s
        = rbind (iget (i_dev (icache s dp)) (ucast inum) t) (\<lambda>(ip, u). Inr (Some (ip, 16 * k), u))" "peeked dp s t"
    unfolding k(1) option.case k(2) by auto
  then have "dirlookup dsw dp name s = rbind (iget (i_dev (icache s dp)) (ucast inum) t) (\<lambda>(ip, u). Inr (Some (ip, 16 * k), u))"
    using assms(1) dir_offs_all [of "unat (i_size (icache s dp))"] by (simp add: dirlookup_def dir_ok_def)
  moreover have "k < length (dir_bytes s dp) div 16" "matches (dir_bytes s dp) name k" using k(1) [unfolded find_Some_iff] by auto
  ultimately show thesis using t(2) k(2) by (intro that)
qed

section \<open>Linking\<close>

lemma peeked_can_write:
  assumes "peeked ip s t"
  shows "can_write ip off n t = can_write ip off n s"
proof -
  obtain v where i: "icache t ip = (icache s ip)\<lparr>i_atime := v\<rparr>" by (rule peeked_inode [OF assms])
  have "fits m t j = fits m s j" for m j using assms by (simp add: peeked_def fits_all_def fun_eq_iff)
  moreover have "IBLOCK m (fs_sb t) = IBLOCK m (fs_sb s)" for m using assms by (simp add: peeked_def IBLOCK_def)
  moreover have "fits m s (j\<lparr>i_atime := v\<rparr>) = fits m s j" "no_ind (j\<lparr>i_atime := v\<rparr>) = no_ind j" for m j
    by (simp_all add: fits_def log_need_def no_ind_def ind_set_def)
  ultimately show ?thesis using assms by (simp add: can_write_def Let_def i peeked_def)
qed

lemma iget_names:
  shows "iget dev inum s = Inl e \<Longrightarrow> e = Panic ''iget: no inodes'' \<and> (\<forall>j<NINODE. i_ref (icache s j) \<noteq> 0)"
    and "iget dev inum s = Inr (i, t) \<Longrightarrow> names_inode dev inum (icache t i) \<and> 0 < i_ref (icache t i) \<and> content t = content s"
  by (cases rule: iget_cases [of s dev inum]; auto simp: names_inode_def upd_inode_icache)+

lemma dirlink_ok:
  assumes d: "dir_ok s dp" and none: "dir_map (dir_bytes s dp) (dir_key name) = None"
    and w: "can_write dp (16 * dir_slot (dir_bytes s dp)) 16 s"
  obtains t where "dirlink dsw dp name inum s = Inr (0, t)"
    and "dir_bytes t dp = overwrite (dir_bytes s dp) (16 * dir_slot (dir_bytes s dp)) (enc_dirent (ucast inum) name)"
    and "\<And>j. file_ok s j \<Longrightarrow> whole s j
        \<Longrightarrow> file_blocks (content s) j \<inter> insert (IBLOCK (i_inum (icache s dp)) (fs_sb s)) (file_blocks (content s) (icache s dp)) = {}
        \<Longrightarrow> file_bytes t j = file_bytes s j"
proof -
  let ?bs = "dir_bytes s dp" and ?e = "enc_dirent (ucast inum) name"
  let ?n = "length ?bs div 16" and ?off = "16 * dir_slot (dir_bytes s dp)"
  obtain s1 where s1: "dirlookup dsw dp name s = Inr (None, s1)" "peeked dp s s1" by (rule dirlookup_none [OF d none, of dsw])
  note P1 = peeked_dir [OF s1(2)] and d1 = peeked_dir(1) [OF s1(2) d]
  have al: "16 dvd unat (i_size (icache s dp))" using d by (simp add: dir_ok_def)
  obtain s2 where s2: "dirlink_scan dsw dp (map (\<lambda>k. 16 * k) [0..<?n]) (16 * ?n) s1
      = Inr (case find (\<lambda>k. \<not> live (dirent_at ?bs k)) [0..<?n] of None \<Rightarrow> 16 * ?n | Some k \<Rightarrow> 16 * k, s2)" "peeked dp s1 s2"
    using dirlink_scan_ok [OF d1, where ks = "[0..<?n]" and dsw = dsw and e = "16 * ?n"] P1(2) by auto
  have off: "(case find (\<lambda>k. \<not> live (dirent_at ?bs k)) [0..<?n] of None \<Rightarrow> 16 * ?n | Some k \<Rightarrow> 16 * k) = ?off"
    unfolding dir_slot_def by (simp split: option.split)
  note P = peeked_trans [OF s1(2) s2(2)] and P2 = peeked_dir [OF peeked_trans [OF s1(2) s2(2)]]
  have d2: "dir_ok s2 dp" by (rule P2(1) [OF d])
  have le: "?off \<le> unat (i_size (icache s dp))" using dir_slot_dead(1) [of ?bs] by simp
  moreover have "unat (i_size (icache s dp)) \<le> NDATA * BSIZE" using d by (simp add: dir_ok_def whole_def)
  ultimately have u: "unat (of_nat ?off :: uint) = ?off" unfolding unat_of_nat by (intro mod_less) simp
  have D: "clock_ok s2" "can_write dp (unat (of_nat ?off :: uint)) (length ?e) s2" "i_type (icache s2 dp) \<noteq> T_DEV" "of_nat ?off \<le> i_size (icache s2 dp)"
    using d2 w le u by (auto simp: dir_ok_def clock_steady_def clock_ok_def peeked_can_write [OF P] P2(4) word_le_nat_alt simp del: of_nat_mult)
  from writei_ok [OF D, of dsw] obtain t where t: "writei dsw dp ?e (of_nat ?off) s2 = Inr (16, t)" "file_written dp ?off ?e s2 t"
    unfolding u by auto
  have e16: "16 * ((unat (i_size (icache s dp)) + 15) div 16) = 16 * ?n" using al by (auto simp: dvd_def)
  have "dirlink dsw dp name inum s = Inr (0, t)"
    using s1(1) s2(1) t(1) unfolding dirlink_def off
    by (simp add: P1(4) dir_offs_all [OF al] e16 del: of_nat_mult)
  moreover have "dir_bytes t dp = overwrite ?bs ?off ?e" using t(2) P2(2) by (simp add: file_written_def Let_def)
  moreover obtain v where "icache s2 dp = (icache s dp)\<lparr>i_atime := v\<rparr>" by (rule peeked_inode [OF P])
  then have "file_bytes t j = file_bytes s j" if "file_ok s j" "whole s j"
    "file_blocks (content s) j \<inter> insert (IBLOCK (i_inum (icache s dp)) (fs_sb s)) (file_blocks (content s) (icache s dp)) = {}" for j
    using t(2) P that by (simp add: file_written_def Let_def peeked_def IBLOCK_def file_bytes_def)
  ultimately show thesis by (rule that)
qed

section \<open>A sample directory\<close>

text \<open>A directory with two free entries.\<close>

definition demo_dir :: inode where
  "demo_dir = demo_short\<lparr>i_type := T_DIR, i_size := 32\<rparr>"

definition demo_dir_fs :: fs_st where
  "demo_dir_fs = demo_fs\<lparr>icache := (\<lambda>_. demo_inode)(0 := demo_dir)\<rparr>"

lemma demo_dir_state: "demo_dir_fs = icache_update (\<lambda>_. (\<lambda>_. demo_inode)(0 := demo_dir)) demo_short_fs"
  by (simp add: demo_dir_fs_def demo_short_fs_def)

lemma demo_dir_amap: "amap c demo_dir n = (if n = 0 then 75 else 0)"
  by (simp add: amap_def demo_dir_def demo_short_def)

lemma demo_dir_bytes: "dir_bytes demo_dir_fs 0 = replicate 32 0"
proof -
  have "file_byte (demo_fs_disk 1) demo_dir q = 0" if "q < 32" for q
    using that by (simp add: file_byte_def demo_dir_amap demo_fs_disk_def)
  moreover have "content demo_dir_fs = demo_fs_disk 1" "icache demo_dir_fs 0 = demo_dir" "unat (i_size demo_dir) = 32"
    using demo_notions(1) unfolding demo_dir_state by (simp_all add: demo_dir_def)
  ultimately show ?thesis by (simp add: file_bytes_def list_eq_iff_nth_eq)
qed

lemma demo_dir_ok: "dir_ok demo_dir_fs 0" "can_write 0 0 16 demo_dir_fs"
proof -
  have fb: "file_blocks c demo_dir = {75}" for c
    by (auto simp: file_blocks_def demo_dir_amap) (auto simp: demo_dir_def demo_short_def)
  have i: "icache demo_dir_fs 0 = demo_dir" by (simp add: demo_dir_fs_def)
  have "data_block demo_fs 75" using demo_data [of 75] by simp
  then have f: "file_ok demo_dir_fs demo_dir" unfolding demo_dir_state file_icache file_ok_def fb demo_dir_amap
    by (simp add: demo_notions) (simp add: demo_dir_def demo_short_def)
  have w: "whole demo_dir_fs demo_dir" unfolding whole_def demo_dir_amap by (auto simp: demo_dir_def)
  have c: "can_read demo_dir_fs" using demo_short_ok(4) by (simp add: demo_dir_state can_read_def)
  have "clock_steady demo_dir_fs" using demo_clock_ok by (simp add: clock_steady_def demo_dir_fs_def demo_fs_def)
  then show "dir_ok demo_dir_fs 0" using f w c by (simp add: dir_ok_def i) (simp add: demo_dir_def)
  have ch: "chunks 2 2 = 1" "chunks 0 16 = 1" by (simp_all add: chunks_def)
  have C: "alloc_ok demo_short_fs" "fits (Suc (Suc 0)) demo_short_fs demo_short" "no_ind demo_short + 1 \<le> card (free_blocks demo_short_fs)"
    using demo_can_write by (simp_all add: can_write_def Let_def demo_notions ch)
  have B: "IBLOCK (i_inum demo_dir) (fs_sb demo_dir_fs) = 62"
    by (simp add: IBLOCK_def demo_dir_state demo_notions demo_sb_decode demo_dir_def demo_short_def)
  have "ind_set demo_dir = ind_set demo_short" "no_ind demo_dir = no_ind demo_short" by (simp_all add: ind_set_def no_ind_def demo_dir_def)
  moreover from this have "fits (Suc (Suc 0)) demo_dir_fs demo_dir"
    using C(2) unfolding demo_dir_state file_icache by (simp add: fits_def log_need_def)
  ultimately show "can_write 0 0 16 demo_dir_fs"
    using C(1,3) f w fb demo_data [of 62] unfolding can_write_def Let_def i B ch
    by simp (simp add: demo_dir_state demo_notions)
qed

section \<open>Properties\<close>

text \<open>C20: \<^verbatim>\<open>dirlookup\<close> is a lookup in the map: for a name that the directory does not have it returns nothing, and for any other the offset of
  the entry and the inode with the number the map gives, cached and referenced; it changes no block. It fails only when the inode cache is full
  of inodes in use.\<close>

theorem dirlookup_correct:
  assumes "dir_ok s dp"
  shows "case dir_map (dir_bytes s dp) (dir_key name) of
      None \<Rightarrow> \<exists>t. dirlookup dsw dp name s = Inr (None, t) \<and> content t = content s
    | Some inum \<Rightarrow>
        (case dirlookup dsw dp name s of
           Inl e \<Rightarrow> e = Panic ''iget: no inodes'' \<and> (\<forall>j<NINODE. i_ref (icache s j) \<noteq> 0)
         | Inr (r, t) \<Rightarrow> \<exists>ip k. r = Some (ip, 16 * k) \<and> names_inode (i_dev (icache s dp)) (ucast inum) (icache t ip) \<and> 0 < i_ref (icache t ip)
             \<and> k < length (dirents (dir_bytes s dp)) \<and> dir_key (de_name (dirent_at (dir_bytes s dp) k)) = dir_key name
             \<and> de_inum (dirent_at (dir_bytes s dp) k) = inum \<and> content t = content s)"
proof (cases "dir_map (dir_bytes s dp) (dir_key name)")
  case None
  obtain t where "dirlookup dsw dp name s = Inr (None, t)" "peeked dp s t" by (rule dirlookup_none [OF assms None, of dsw])
  then show ?thesis by (simp add: None peeked_def)
next
  case (Some inum)
  obtain t k where d: "dirlookup dsw dp name s = rbind (iget (i_dev (icache s dp)) (ucast inum) t) (\<lambda>(ip, u). Inr (Some (ip, 16 * k), u))"
    "peeked dp s t" "k < length (dir_bytes s dp) div 16" "matches (dir_bytes s dp) name k" "de_inum (dirent_at (dir_bytes s dp) k) = inum"
    by (rule dirlookup_some [OF assms Some, of dsw])
  obtain v where i: "icache t = (icache s)(dp := (icache s dp)\<lparr>i_atime := v\<rparr>)" by (rule peeked_inode [OF d(2)])
  then have ref: "i_ref (icache t j) = i_ref (icache s j)" for j by simp
  have c: "content t = content s" using d(2) by (simp add: peeked_def)
  show ?thesis
  proof (cases "iget (i_dev (icache s dp)) (ucast inum) t")
    case (Inl e)
    then show ?thesis using iget_names(1) [OF Inl] ref by (simp add: Some d(1))
  next
    case (Inr r)
    obtain ip u where r: "r = (ip, u)" by (cases r)
    show ?thesis using iget_names(2) [OF Inr [unfolded r]] c d(3-5) by (simp add: Some d(1) Inr r dirents_def)
  qed
qed

theorem dirlookup_correct_witness:
  "\<exists>t. dirlookup (\<lambda>_. \<lparr>d_read = None, d_write = None, d_ioctl = None\<rparr>) 0 [97] demo_dir_fs = Inr (None, t)"
proof -
  have "dir_map (dir_bytes demo_dir_fs 0) (dir_key [97]) = None"
    unfolding demo_dir_bytes by (simp add: dir_map_def dir_alist_def dirents_def dirent_at_def de_inum_def rd16_def)
  then show ?thesis
    using dirlookup_correct [OF demo_dir_ok(1), of "\<lambda>_. \<lparr>d_read = None, d_write = None, d_ioctl = None\<rparr>" "[97]"] by auto
qed



end
