(* ===== verification/KPath.thy ===== *)
theory KPath
  imports KDirectory
begin

text \<open>
  Path names: \<^verbatim>\<open>namex\<close> of \<^verbatim>\<open>kernel/fs.c\<close> follows a path from directory to directory, each of them a map from names to inode numbers.
  The lemmas show that it finds the inode that the path names in these maps, and that it gives back every reference it takes on the way.
\<close>

section \<open>Paths and the tree of directories\<close>

function path_names :: "uchar list \<Rightarrow> uchar list list" where
  "path_names path = (case skipelem path of None \<Rightarrow> [] | Some (name, rest) \<Rightarrow> name # path_names rest)"
  by pat_completeness auto
termination
  by (relation "measure length") (auto dest: skipelem_shorter)

declare path_names.simps [simp del]

primrec descend :: "(uint \<Rightarrow> (uchar list \<Rightarrow> ushort option) option) \<Rightarrow> uint \<Rightarrow> uchar list list \<Rightarrow> uint option" where
  "descend D n [] = Some n"
| "descend D n (e # es) = Option.bind (D n) (\<lambda>d. Option.bind (d (dir_key e)) (\<lambda>m. descend D (ucast m) es))"

text \<open>What \<^verbatim>\<open>namex\<close> looks for: the inode of the path, or the directory that its last element is in.\<close>

definition target :: "(uint \<Rightarrow> (uchar list \<Rightarrow> ushort option) option) \<Rightarrow> bool \<Rightarrow> uint \<Rightarrow> uchar list list \<Rightarrow> uint option" where
  "target D parent n es =
     (if \<not> parent then descend D n es
      else if es = [] then None
      else Option.bind (descend D n (butlast es)) (\<lambda>m. if D m = None then None else Some m))"

lemma target_Nil [simp]: "target D parent n [] = (if parent then None else Some n)"
  by (simp add: target_def)

lemma target_Cons:
  "target D parent n (e # es) =
     (case D n of
        None \<Rightarrow> None
      | Some d \<Rightarrow>
          if parent \<and> es = [] then Some n
          else (case d (dir_key e) of None \<Rightarrow> None | Some m \<Rightarrow> target D parent (ucast m) es))"
  by (auto simp: target_def split: option.splits)

lemma skipelem_rest:
  assumes "skipelem path = Some (name, rest)"
  shows "path_names path = name # path_names rest" and "rest = [] \<longleftrightarrow> path_names rest = []"
proof -
  show "path_names path = name # path_names rest" using assms by (simp add: path_names.simps [of path])
  from assms obtain xs where r: "rest = dropWhile (\<lambda>c. c = slash) xs"
    by (auto simp: skipelem_def Let_def split: if_splits)
  then have "dropWhile (\<lambda>c. c = slash) rest = rest" by simp
  then show "rest = [] \<longleftrightarrow> path_names rest = []"
    by (subst path_names.simps) (auto simp: skipelem_def Let_def)
qed

section \<open>Inodes on disk and in the cache\<close>

definition blank_inode_at :: "uint \<Rightarrow> inode" where
  "blank_inode_at n = \<lparr>i_dev = ROOTDEV, i_inum = n, i_ref = 0, i_lock = initsleeplock, i_valid = False, i_type = 0, i_major = 0, i_minor = 0,
     i_nlink = 0, i_size = 0, i_addrs = (\<lambda>_. 0), i_atime = 0, i_mtime = 0\<rparr>"

definition on_disk :: "'a fs_st_scheme \<Rightarrow> uint \<Rightarrow> inode" where
  "on_disk s n = load_dinode (content s (IBLOCK n (fs_sb s))) (dip n) (blank_inode_at n)"

text \<open>The directories on disk, as maps.\<close>

definition dirs :: "'a fs_st_scheme \<Rightarrow> uint \<Rightarrow> (uchar list \<Rightarrow> ushort option) option" where
  "dirs s n = (if i_type (on_disk s n) = T_DIR then Some (dir_map (file_bytes s (on_disk s n))) else None)"

text \<open>Two inodes that agree but for their time stamps, references and locks.\<close>

definition same_file :: "inode \<Rightarrow> inode \<Rightarrow> bool" where
  "same_file i j \<longleftrightarrow> i_dev i = i_dev j \<and> i_inum i = i_inum j \<and> i_type i = i_type j \<and> i_nlink i = i_nlink j \<and> i_size i = i_size j
     \<and> (\<forall>k\<le>NDIRECT. i_addrs i k = i_addrs j k)"

lemma same_file_notions:
  assumes "same_file i j"
  shows "file_ok s i = file_ok s j" and "whole s i = whole s j" and "file_bytes s i = file_bytes s j"
proof -
  have a: "amap c i = amap c j" for c using assms by (simp add: fun_eq_iff amap_def same_file_def)
  have n: "i_addrs i NDIRECT = i_addrs j NDIRECT" "i_dev i = i_dev j" "i_size i = i_size j" using assms by (auto simp: same_file_def)
  show "file_ok s i = file_ok s j" by (simp add: file_ok_def file_blocks_def a n)
  show "whole s i = whole s j" by (simp add: whole_def a n)
  show "file_bytes s i = file_bytes s j" by (simp add: file_bytes_def file_byte_def a n)
qed

lemma same_file_fields [simp]:
  "same_file (i\<lparr>i_lock := l\<rparr>) j = same_file i j" "same_file (i\<lparr>i_valid := v\<rparr>) j = same_file i j"
  "same_file (i\<lparr>i_atime := t\<rparr>) j = same_file i j" "same_file (i\<lparr>i_ref := r\<rparr>) j = same_file i j"
  by (simp_all add: same_file_def)

lemma fold_fun_upd: "fold (\<lambda>k a. a(k := g k)) [0..<m] f k = (if k < m then g k else f k)"
  by (induction m arbitrary: k) auto

lemma same_file_load:
  assumes "i_dev i = i_dev j" and "i_inum i = i_inum j"
  shows "same_file (load_dinode d p i) (load_dinode d p j)"
  using assms unfolding same_file_def load_dinode_def by (simp add: fold_fun_upd del: upt_Suc)

text \<open>The inodes \<open>N\<close> are in use, on blocks that can be read, and their directories are well-formed and name inodes of \<open>N\<close>.\<close>

definition tree_ok :: "'a fs_st_scheme \<Rightarrow> uint set \<Rightarrow> bool" where
  "tree_ok s N \<longleftrightarrow> (\<forall>n\<in>N. let i = on_disk s n; B = IBLOCK n (fs_sb s) in
     home_block s B \<and> B \<notin> locked_blocks s \<and> i_type i \<noteq> 0 \<and> i_nlink i \<noteq> 0
     \<and> (i_type i = T_DIR \<longrightarrow> file_ok s i \<and> whole s i \<and> 16 dvd unat (i_size i) \<and> (\<forall>m\<in>ran (dir_map (file_bytes s i)). ucast m \<in> N)))"

text \<open>The cache agrees with the disk on the inodes \<open>N\<close>, and no entry but those of \<open>L\<close> is locked.\<close>

definition walk_ok :: "'a fs_st_scheme \<Rightarrow> uint set \<Rightarrow> nat set \<Rightarrow> bool" where
  "walk_ok s N L \<longleftrightarrow> tree_ok s N \<and> icache_inv s \<and> clock_steady s \<and> room 1 s
     \<and> (\<forall>i<NINODE. i \<notin> L \<longrightarrow> \<not> sl_locked (i_lock (icache s i)))
     \<and> (\<forall>i<NINODE. 0 < i_ref (icache s i) \<and> i_valid (icache s i) \<and> i_dev (icache s i) = ROOTDEV \<and> i_inum (icache s i) \<in> N
          \<longrightarrow> same_file (icache s i) (on_disk s (i_inum (icache s i))))"

definition held :: "'a fs_st_scheme \<Rightarrow> nat \<Rightarrow> uint \<Rightarrow> bool" where
  "held s ip n \<longleftrightarrow> ip < NINODE \<and> 0 < i_ref (icache s ip) \<and> names_inode ROOTDEV n (icache s ip)"

text \<open>From \<open>s\<close> to \<open>t\<close> nothing has changed but the cache, the order of the buffers and the time.\<close>

definition still :: "'a fs_st_scheme \<Rightarrow> 'a fs_st_scheme \<Rightarrow> bool" where
  "still s t \<longleftrightarrow> content t = content s \<and> fs_cmos t = fs_cmos s \<and> sb_inodestart (fs_sb t) = sb_inodestart (fs_sb s)
     \<and> home_block t = home_block s \<and> locked_blocks t = locked_blocks s \<and> data_block t = data_block s \<and> mypid t = mypid s
     \<and> (room 1 s \<longrightarrow> room 1 t)"

lemma still_trans: "still s t \<Longrightarrow> still t u \<Longrightarrow> still s u"
  by (simp add: still_def)

lemma still_upd [simp]: "still s (upd_inode k f s)"
  by (simp add: still_def upd_inode_icache)

lemma peeked_still: "peeked ip s t \<Longrightarrow> still s t"
  by (simp add: peeked_def still_def)

lemma still_notions:
  assumes "still s t"
  shows "on_disk t = on_disk s" and "file_ok t = file_ok s" and "whole t = whole s" and "file_bytes t = file_bytes s" and "dirs t = dirs s"
    and "tree_ok t = tree_ok s" and "clock_steady t = clock_steady s"
proof -
  have f: "content t = content s" "fs_cmos t = fs_cmos s" "IBLOCK n (fs_sb t) = IBLOCK n (fs_sb s)" "home_block t = home_block s"
    "locked_blocks t = locked_blocks s" "data_block t = data_block s" for n
    using assms by (simp_all add: still_def IBLOCK_def)
  show a: "on_disk t = on_disk s" by (simp add: fun_eq_iff on_disk_def f)
  show b: "file_ok t = file_ok s" by (simp add: fun_eq_iff file_ok_def f)
  show c: "whole t = whole s" by (simp add: fun_eq_iff whole_def f)
  show d: "file_bytes t = file_bytes s" by (simp add: fun_eq_iff file_bytes_def f)
  show "dirs t = dirs s" by (simp add: fun_eq_iff dirs_def a d)
  show "tree_ok t = tree_ok s" by (simp add: fun_eq_iff tree_ok_def a b c d f)
  show "clock_steady t = clock_steady s" by (simp add: clock_steady_def f)
qed

section \<open>The steps of the walk\<close>

lemma cache_cong:
  assumes "icache t = icache s"
  shows "icache_inv t = icache_inv s" and "refs t = refs s"
  by (simp only: icache_inv_def assms) (intro ext, simp only: refs_def assms)

lemma walk_upd:
  assumes "walk_ok s N L" and "still s t" and "icache t = (icache s)(k := j)" and "icache_inv t"
    and "k < NINODE \<Longrightarrow> k \<notin> L' \<Longrightarrow> \<not> sl_locked (i_lock j)" and "L - {k} \<subseteq> L'"
    and "0 < i_ref j \<Longrightarrow> i_valid j \<Longrightarrow> i_dev j = ROOTDEV \<Longrightarrow> i_inum j \<in> N \<Longrightarrow> same_file j (on_disk s (i_inum j))"
  shows "walk_ok t N L'"
  using assms still_notions [OF assms(2)] unfolding walk_ok_def by (auto simp: still_def)

text \<open>A change of a referenced entry that keeps its name.\<close>

lemma refs_upd_same:
  assumes "held s k n" and "icache t = (icache s)(k := j)" and "names_inode ROOTDEV n j" and "0 \<le> i_ref j" and "icache_inv s"
  shows "icache_inv t" and "refs t d m = refs s d m + (if d = ROOTDEV \<and> m = n then i_ref j - i_ref (icache s k) else 0)"
proof -
  have t: "icache t = icache (upd_inode k (\<lambda>_. j) s)" using assms(2) by simp
  have h: "k < NINODE" "0 < i_ref (icache s k)" "i_dev (icache s k) = ROOTDEV" "i_inum (icache s k) = n" "i_dev j = ROOTDEV" "i_inum j = n"
    using assms(1,3) by (auto simp: held_def names_inode_def)
  show "icache_inv t" unfolding cache_cong(1) [OF t] by (rule icache_inv_count [OF assms(5) h(1,2)]) (use assms(4) h in auto)
  show "refs t d m = refs s d m + (if d = ROOTDEV \<and> m = n then i_ref j - i_ref (icache s k) else 0)"
    unfolding cache_cong(2) [OF t] refs_upd_inode [OF h(1)] using h by (auto simp: names_inode_def)
qed

lemma walk_inode:
  assumes "walk_ok s N L" and "n \<in> N"
  shows "home_block s (IBLOCK n (fs_sb s))" and "IBLOCK n (fs_sb s) \<notin> locked_blocks s" and "i_type (on_disk s n) \<noteq> 0"
    and "i_nlink (on_disk s n) \<noteq> 0"
  using assms by (auto simp: walk_ok_def tree_ok_def Let_def)

lemma ilock_walk:
  assumes w: "walk_ok s N {}" and h: "held s ip n" and n: "n \<in> N"
  obtains t where "ilock (Some ip) s = Inr t" and "still s t" and "walk_ok t N {ip}" and "held t ip n" and "refs t = refs s"
    and "i_lock (icache t ip) = \<lparr>sl_locked = True, sl_pid = mypid s\<rparr>" and "i_valid (icache t ip)" and "same_file (icache t ip) (on_disk s n)"
proof -
  let ?l = "\<lparr>sl_locked = True, sl_pid = mypid s\<rparr>" and ?i = "icache s ip"
  have H: "1 \<le> i_ref ?i" "\<not> sl_locked (i_lock ?i)" "i_dev ?i = ROOTDEV" "i_inum ?i = n" "ip < NINODE"
    using h w by (auto simp: held_def names_inode_def walk_ok_def)
  have "\<exists>t j. ilock (Some ip) s = Inr t \<and> still s t \<and> icache t = (icache s)(ip := j) \<and> i_ref j = i_ref ?i \<and> i_lock j = ?l \<and> i_valid j
      \<and> same_file j (on_disk s n)"
  proof (cases "i_valid ?i")
    case True
    then have "same_file ?i (on_disk s n)" using w h n H by (auto simp: walk_ok_def)
    then show ?thesis using ilock_valid [OF H(1,2) True]
      by (intro exI [of _ "upd_inode ip (\<lambda>i. i\<lparr>i_lock := ?l\<rparr>) s"] exI [of _ "?i\<lparr>i_lock := ?l\<rparr>"]) (simp add: True)
  next
    case False
    let ?j = "(load_dinode (content s (IBLOCK n (fs_sb s))) (dip n) ?i)\<lparr>i_lock := ?l, i_valid := True\<rparr>"
    have sf: "same_file ?j (on_disk s n)"
      unfolding on_disk_def same_file_fields by (rule same_file_load) (simp_all add: H blank_inode_at_def)
    then have "i_type ?j \<noteq> 0" using walk_inode(3) [OF w n] by (simp add: same_file_def)
    moreover have "room 1 s" using w by (simp add: walk_ok_def)
    ultimately obtain t where t: "ilock (Some ip) s = Inr t" "wrote 0 s t" "content t = content s" "icache t = (icache s)(ip := ?j)"
      "fs_sb t = fs_sb s" "fs_cmos t = fs_cmos s"
      using ilock_load [of s ?i ip "IBLOCK n (fs_sb s)" ?j] H False walk_inode(1,2) [OF w n] by auto
    have "stays s t" using t(2,5) by (auto simp: stays_def)
    from same_notions(2) [OF t(3) this] have "still s t"
      using t wrote_keeps [OF t(2)] wrote_room [of 0 1 s t] by (simp add: still_def)
    then show ?thesis using t(1,4) sf by (intro exI [of _ t] exI [of _ ?j]) simp
  qed
  then obtain t j where t: "ilock (Some ip) s = Inr t" "still s t" "icache t = (icache s)(ip := j)" "i_ref j = i_ref ?i" "i_lock j = ?l"
    "i_valid j" "same_file j (on_disk s n)" by blast
  have j: "i_dev j = ROOTDEV" "i_inum j = n" using t(7) by (simp_all add: same_file_def on_disk_def blank_inode_at_def)
  have inv: "icache_inv s" using w by (simp add: walk_ok_def)
  have "names_inode ROOTDEV n j" "0 \<le> i_ref j" using j t(4) H(1) by (simp_all add: names_inode_def)
  note r = refs_upd_same [OF h t(3) this inv]
  have "walk_ok t N {ip}" by (rule walk_upd [OF w t(2,3) r(1)]) (use t j in auto)
  moreover have "held t ip n" using H t(3,4) j by (simp add: held_def names_inode_def)
  moreover have "refs t = refs s" using r(2) t(4) by (auto simp: fun_eq_iff)
  ultimately show thesis using t by (intro that [of t]) auto
qed

lemma iput_walk:
  assumes w: "walk_ok s N {}" and h: "held s ip n" and n: "n \<in> N"
  obtains t where "iput ip s = Inr t" and "still s t" and "walk_ok t N {}"
    and "\<forall>d m. refs t d m = refs s d m - (if d = ROOTDEV \<and> m = n then 1 else 0)"
    and "\<forall>k m. (k \<noteq> ip \<or> 1 < i_ref (icache s ip)) \<and> held s k m \<longrightarrow> held t k m"
proof -
  let ?i = "icache s ip" and ?j = "(icache s ip)\<lparr>i_lock := \<lparr>sl_locked = False, sl_pid = 0\<rparr>, i_ref := i_ref (icache s ip) - 1\<rparr>"
  have H: "0 < i_ref ?i" "\<not> sl_locked (i_lock ?i)" "i_dev ?i = ROOTDEV" "i_inum ?i = n" "ip < NINODE"
    using h w by (auto simp: held_def names_inode_def walk_ok_def)
  have sf: "i_valid ?i \<Longrightarrow> same_file ?i (on_disk s n)" using w n H by (auto simp: walk_ok_def)
  then have nl: "i_valid ?i \<Longrightarrow> i_nlink ?i \<noteq> 0" using walk_inode(4) [OF w n] by (auto simp: same_file_def)
  let ?t = "upd_inode ip (\<lambda>_. ?j) s"
  have "iput ip s = Inr ?t"
    using nl H(2) by (auto simp: iput_def acquiresleep_free Let_def releasesleep_def upd_inode_def)
  moreover have inv: "icache_inv s" using w by (simp add: walk_ok_def)
  have tj: "icache ?t = (icache s)(ip := ?j)" by simp
  have nj: "names_inode ROOTDEV n ?j" "0 \<le> i_ref ?j" using H by (simp_all add: names_inode_def)
  note r = refs_upd_same [OF h tj nj inv]
  have "walk_ok ?t N {}" by (rule walk_upd [OF w still_upd tj r(1)]) (use sf H in auto)
  moreover have "refs ?t d m = refs s d m - (if d = ROOTDEV \<and> m = n then 1 else 0)" for d m using r(2) by simp
  moreover have "held ?t k m" if "k \<noteq> ip \<or> 1 < i_ref ?i" "held s k m" for k m
    using that by (auto simp: held_def names_inode_def)
  ultimately show thesis by (intro that [of ?t]) simp_all
qed

text \<open>The cache has an entry for another inode when fewer inodes than entries are referenced.\<close>

lemma iget_room:
  assumes "icache_inv s" and "finite P" and "\<And>d n. 0 < refs s d n \<Longrightarrow> (d, n) \<in> P" and "card P < NINODE"
  shows "\<exists>j<NINODE. i_ref (icache s j) = 0"
proof (rule ccontr)
  assume "\<not> (\<exists>j<NINODE. i_ref (icache s j) = 0)"
  then have u: "0 < i_ref (icache s j)" if "j < NINODE" for j using assms(1) that by (force simp: icache_inv_def)
  let ?f = "\<lambda>j. (i_dev (icache s j), i_inum (icache s j))"
  have "inj_on ?f {..<NINODE}"
  proof (rule inj_onI)
    fix i j assume "i \<in> {..<NINODE}" "j \<in> {..<NINODE}" "?f i = ?f j"
    then show "i = j" using assms(1) u unfolding icache_inv_def names_inode_def by auto
  qed
  moreover have "?f ` {..<NINODE} \<subseteq> P"
  proof
    fix x assume "x \<in> ?f ` {..<NINODE}"
    then obtain j where j: "j < NINODE" "x = ?f j" by auto
    have "0 < refs s (i_dev (icache s j)) (i_inum (icache s j))" unfolding refs_def
      by (rule sum_pos2 [of _ j]) (use j(1) u in \<open>auto simp: names_inode_def less_imp_le\<close>)
    then show "x \<in> P" unfolding j(2) by (rule assms(3))
  qed
  ultimately have "card {..<NINODE} \<le> card P" by (rule card_inj_on_le [OF _ _ assms(2)])
  then show False using assms(4) by simp
qed

lemma iget_walk:
  assumes w: "walk_ok s N L" and L: "\<And>i. i \<in> L \<Longrightarrow> 0 < i_ref (icache s i)" and P: "\<exists>j<NINODE. i_ref (icache s j) = 0"
  obtains k t where "iget ROOTDEV m s = Inr (k, t)" and "still s t" and "walk_ok t N L" and "held t k m"
    and "\<forall>d n. refs t d n = refs s d n + (if d = ROOTDEV \<and> n = m then 1 else 0)"
    and "\<forall>j. 0 < i_ref (icache s j) \<longrightarrow>
      icache t j = (if j = k then (icache s j)\<lparr>i_ref := i_ref (icache s j) + 1\<rparr> else icache s j)"
proof -
  have inv: "icache_inv s" using w by (simp add: walk_ok_def)
  show thesis
  proof (cases rule: iget_cases [of s ROOTDEV m])
    case (cached k)
    let ?j = "(icache s k)\<lparr>i_ref := i_ref (icache s k) + 1\<rparr>" and ?t = "upd_inode k (\<lambda>ip. ip\<lparr>i_ref := i_ref ip + 1\<rparr>) s"
    have h: "held s k m" using cached by (simp add: held_def)
    have t: "icache ?t = (icache s)(k := ?j)" "names_inode ROOTDEV m ?j" "0 \<le> i_ref ?j" using cached by (simp_all add: names_inode_def)
    note r = refs_upd_same [OF h t inv]
    have "walk_ok ?t N L"
      by (rule walk_upd [OF w still_upd t(1) r(1)]) (use w cached in \<open>auto simp: walk_ok_def\<close>)
    then show ?thesis using cached r(2) by (intro that [of k ?t]) (auto simp: held_def names_inode_def)
  next
    case (recycled k)
    let ?f = "\<lambda>ip. ip\<lparr>i_dev := ROOTDEV, i_inum := m, i_ref := 1, i_valid := False\<rparr>"
    let ?t = "upd_inode k ?f s"
    have i: "icache_inv ?t" by (rule icache_inv_upd [OF inv]) (use recycled in simp_all)
    have "walk_ok ?t N L"
      by (rule walk_upd [OF w still_upd _ i]) (use w recycled L in \<open>auto simp: walk_ok_def\<close>)
    moreover have "refs ?t d n = refs s d n + (if d = ROOTDEV \<and> n = m then 1 else 0)" for d n
      using recycled(2) by (auto simp: refs_upd_inode [OF recycled(1)] names_inode_def)
    ultimately show ?thesis using recycled by (intro that [of k ?t]) (auto simp: held_def names_inode_def)
  next
    case full
    then show ?thesis using P by auto
  qed
qed

text \<open>The entry of a directory that is being read.\<close>

definition reading :: "'a fs_st_scheme \<Rightarrow> uint set \<Rightarrow> nat \<Rightarrow> uint \<Rightarrow> bool" where
  "reading s N ip n \<longleftrightarrow> walk_ok s N {ip} \<and> held s ip n \<and> n \<in> N \<and> i_valid (icache s ip)
     \<and> i_lock (icache s ip) = \<lparr>sl_locked = True, sl_pid = mypid s\<rparr>"

lemma reading_same:
  assumes "reading s N ip n"
  shows "same_file (icache s ip) (on_disk s n)"
  using assms by (auto simp: reading_def walk_ok_def held_def names_inode_def)

lemma reading_dir:
  assumes r: "reading s N ip n" and d: "dirs s n = Some D"
  shows "dir_ok s ip" and "dir_map (dir_bytes s ip) = D" and "D e = Some m \<Longrightarrow> ucast m \<in> N" and "i_dev (icache s ip) = ROOTDEV"
proof -
  note sf = reading_same [OF r] and S = same_file_notions [OF reading_same [OF r]]
  have ty: "i_type (on_disk s n) = T_DIR" and D: "D = dir_map (file_bytes s (on_disk s n))"
    using d by (auto simp: dirs_def split: if_splits)
  have "tree_ok s N" "n \<in> N" "clock_steady s" "room 1 s" using r by (simp_all add: reading_def walk_ok_def)
  then have T: "file_ok s (on_disk s n)" "whole s (on_disk s n)" "16 dvd unat (i_size (on_disk s n))"
    "\<forall>m\<in>ran D. ucast m \<in> N" using ty D by (auto simp: tree_ok_def Let_def)
  have "can_read s" using \<open>room 1 s\<close> by (auto simp: can_read_def room_def)
  then show "dir_ok s ip" using T ty sf S \<open>clock_steady s\<close> by (auto simp: dir_ok_def same_file_def)
  show "dir_map (dir_bytes s ip) = D" by (simp add: D S)
  show "D e = Some m \<Longrightarrow> ucast m \<in> N" using T(4) by (auto simp: ran_def)
  show "i_dev (icache s ip) = ROOTDEV" using r by (simp add: reading_def held_def names_inode_def)
qed

lemma peeked_reading:
  assumes r: "reading s N ip n" and p: "peeked ip s t"
  shows "reading t N ip n" and "refs t = refs s"
proof -
  obtain v where t: "icache t = (icache s)(ip := (icache s ip)\<lparr>i_atime := v\<rparr>)" by (rule peeked_inode [OF p])
  have h: "held s ip n" and inv: "icache_inv s" and w: "walk_ok s N {ip}" using r by (auto simp: reading_def walk_ok_def)
  then have j: "names_inode ROOTDEV n ((icache s ip)\<lparr>i_atime := v\<rparr>)" "0 \<le> i_ref ((icache s ip)\<lparr>i_atime := v\<rparr>)"
    by (simp_all add: held_def names_inode_def)
  note R = refs_upd_same [OF h t j inv]
  have "walk_ok t N {ip}" by (rule walk_upd [OF w peeked_still [OF p] t R(1)]) (use w h in \<open>auto simp: walk_ok_def held_def\<close>)
  then show "reading t N ip n" using r p t by (auto simp: reading_def held_def names_inode_def peeked_def)
  show "refs t = refs s" using R(2) by (auto simp: fun_eq_iff)
qed

lemma iunlock_reading:
  assumes r: "reading s N ip n"
  obtains t where "iunlock (Some ip) s = Inr t" and "still s t" and "walk_ok t N {}" and "refs t = refs s"
    and "\<forall>k m. held s k m \<longrightarrow> held t k m" and "i_ref (icache t ip) = i_ref (icache s ip)"
proof -
  let ?j = "(icache s ip)\<lparr>i_lock := releasesleep (i_lock (icache s ip))\<rparr>" and ?t = "upd_inode ip (\<lambda>i. i\<lparr>i_lock := releasesleep (i_lock i)\<rparr>) s"
  have h: "held s ip n" and inv: "icache_inv s" and w: "walk_ok s N {ip}" using r by (auto simp: reading_def walk_ok_def)
  have j: "icache ?t = (icache s)(ip := ?j)" "names_inode ROOTDEV n ?j" "0 \<le> i_ref ?j" using h by (simp_all add: held_def names_inode_def)
  note R = refs_upd_same [OF h j inv]
  have "walk_ok ?t N {}"
    by (rule walk_upd [OF w still_upd j(1) R(1)]) (use w h in \<open>auto simp: walk_ok_def held_def releasesleep_def\<close>)
  moreover have "iunlock (Some ip) s = Inr ?t" using r by (auto simp: iunlock_def reading_def holdingsleep_def held_def)
  moreover have "refs ?t = refs s" using R(2) by (auto simp: fun_eq_iff)
  ultimately show thesis by (intro that [of ?t]) (auto simp: held_def names_inode_def)
qed

lemma iunlockput_walk:
  assumes r: "reading s N ip n"
  obtains t where "iunlockput ip s = Inr t" and "still s t" and "walk_ok t N {}"
    and "\<forall>d m. refs t d m = refs s d m - (if d = ROOTDEV \<and> m = n then 1 else 0)"
    and "\<forall>k m. (k \<noteq> ip \<or> 1 < i_ref (icache s ip)) \<and> held s k m \<longrightarrow> held t k m"
proof -
  obtain t where t: "iunlock (Some ip) s = Inr t" "still s t" "walk_ok t N {}" "refs t = refs s" "\<forall>k m. held s k m \<longrightarrow> held t k m"
    "i_ref (icache t ip) = i_ref (icache s ip)" by (rule iunlock_reading [OF r])
  have "held t ip n" "n \<in> N" using r t(5) by (auto simp: reading_def)
  from iput_walk [OF t(3) this] obtain u where u: "iput ip t = Inr u" "still t u" "walk_ok u N {}"
    "\<forall>d m. refs u d m = refs t d m - (if d = ROOTDEV \<and> m = n then 1 else 0)"
    "\<forall>k m. (k \<noteq> ip \<or> 1 < i_ref (icache t ip)) \<and> held t k m \<longrightarrow> held u k m" by blast
  have "iunlockput ip s = Inr u" using t(1) u(1) by (simp add: iunlockput_def)
  then show thesis using still_trans [OF t(2) u(2)] u(3-5) t(4-6) by (intro that [of u]) auto
qed

lemma dirlookup_reading:
  assumes r: "reading s N ip n" and d: "dirs s n = Some D" and P: "\<exists>j<NINODE. i_ref (icache s j) = 0"
  shows "case D (dir_key name) of
      None \<Rightarrow> \<exists>t. dirlookup dsw ip name s = Inr (None, t) \<and> still s t \<and> reading t N ip n \<and> refs t = refs s
    | Some m \<Rightarrow> \<exists>k off t. dirlookup dsw ip name s = Inr (Some (k, off), t) \<and> still s t \<and> reading t N ip n \<and> held t k (ucast m)
        \<and> ucast m \<in> N \<and> (k = ip \<longrightarrow> 1 < i_ref (icache t ip))
        \<and> (\<forall>d q. refs t d q = refs s d q + (if d = ROOTDEV \<and> q = ucast m then 1 else 0))"
proof (cases "D (dir_key name)")
  case None
  note R = reading_dir [OF r d]
  obtain t where "dirlookup dsw ip name s = Inr (None, t)" "peeked ip s t"
    by (rule dirlookup_none [OF R(1), of name dsw]) (simp add: R(2) None)
  then show ?thesis using peeked_still peeked_reading [OF r] by (auto simp: None)
next
  case (Some m)
  note R = reading_dir [OF r d]
  obtain t off where t: "dirlookup dsw ip name s = rbind (iget ROOTDEV (ucast m) t) (\<lambda>(ip, u). Inr (Some (ip, 16 * off), u))" "peeked ip s t"
    by (rule dirlookup_some [OF R(1), of name m dsw]) (simp_all add: R(2,4) Some)
  note T = peeked_reading [OF r t(2)]
  obtain v where "icache t = (icache s)(ip := (icache s ip)\<lparr>i_atime := v\<rparr>)" by (rule peeked_inode [OF t(2)])
  then have Pt: "\<exists>j<NINODE. i_ref (icache t j) = 0" using P by (auto split: if_splits)
  have w: "walk_ok t N {ip}" and ref: "0 < i_ref (icache t ip)" using T(1) by (auto simp: reading_def held_def)
  obtain k u where u: "iget ROOTDEV (ucast m) t = Inr (k, u)" "still t u" "walk_ok u N {ip}" "held u k (ucast m)"
    "\<forall>d n. refs u d n = refs t d n + (if d = ROOTDEV \<and> n = ucast m then 1 else 0)"
    "\<forall>j. 0 < i_ref (icache t j) \<longrightarrow> icache u j = (if j = k then (icache t j)\<lparr>i_ref := i_ref (icache t j) + 1\<rparr> else icache t j)"
    by (rule iget_walk [OF w _ Pt, of "ucast m"]) (use ref in auto)
  have "mypid u = mypid t" using u(2) by (simp add: still_def)
  then have "reading u N ip n" using T(1) u(3,6) ref by (auto simp: reading_def held_def names_inode_def)
  moreover have "k = ip \<longrightarrow> 1 < i_ref (icache u ip)" using u(6) ref by auto
  moreover have "still s u" by (rule still_trans [OF peeked_still [OF t(2)] u(2)])
  ultimately show ?thesis using t(1) u(1,4,5) R(3) [OF Some] T(2) by (auto simp: Some)
qed

lemma ilock_reading:
  assumes w: "walk_ok s N {}" and h: "held s ip n" and n: "n \<in> N"
  obtains t where "ilock (Some ip) s = Inr t" and "still s t" and "reading t N ip n" and "refs t = refs s"
    and "i_type (icache t ip) = T_DIR \<longleftrightarrow> dirs s n \<noteq> None"
proof -
  obtain t where t: "ilock (Some ip) s = Inr t" "still s t" "walk_ok t N {ip}" "held t ip n" "refs t = refs s"
    "i_lock (icache t ip) = \<lparr>sl_locked = True, sl_pid = mypid s\<rparr>" "i_valid (icache t ip)" "same_file (icache t ip) (on_disk s n)"
    by (rule ilock_walk [OF assms])
  have "mypid t = mypid s" using t(2) by (simp add: still_def)
  then have "reading t N ip n" using t n by (simp add: reading_def)
  then show thesis using t by (intro that [of t]) (auto simp: dirs_def same_file_def)
qed

lemma room_for_one:
  assumes "icache_inv s" and "finite Q" and "card Q + 2 \<le> NINODE" and "\<forall>d m. 0 < R d m \<longrightarrow> (d, m) \<in> Q"
    and "\<forall>d m. refs s d m = R d m + (if d = ROOTDEV \<and> m = n then 1 else 0)"
  shows "\<exists>j<NINODE. i_ref (icache s j) = 0"
proof (rule iget_room [OF assms(1), of "insert (ROOTDEV, n) Q"])
  show "0 < refs s d m \<Longrightarrow> (d, m) \<in> insert (ROOTDEV, n) Q" for d m using assms(4,5) by (auto split: if_splits)
  show "card (insert (ROOTDEV, n) Q) < NINODE" using assms(2,3) by (simp add: card_insert_if)
qed (use assms(2) in simp)

text \<open>The result of a walk: what the path names, with one more reference, or nothing.\<close>

definition found :: "uint option \<Rightarrow> (uint \<Rightarrow> uint \<Rightarrow> int) \<Rightarrow> nat option \<Rightarrow> 'a fs_st_scheme \<Rightarrow> bool" where
  "found goal R r t \<longleftrightarrow>
     (case goal of
        None \<Rightarrow> r = None \<and> (\<forall>d m. refs t d m = R d m)
      | Some n \<Rightarrow> \<exists>k. r = Some k \<and> held t k n \<and> (\<forall>d m. refs t d m = R d m + (if d = ROOTDEV \<and> m = n then 1 else 0)))"

lemma namex_loop_ok:
  assumes "walk_ok s N {}" and "held s ip n" and "n \<in> N"
    and "\<forall>d m. refs s d m = R d m + (if d = ROOTDEV \<and> m = n then 1 else 0)"
    and Q: "finite Q" "card Q + 2 \<le> NINODE" "\<forall>d m. 0 < R d m \<longrightarrow> (d, m) \<in> Q"
  shows "\<exists>r name' t. namex_loop dsw parent ip path name s = Inr (r, name', t) \<and> still s t \<and> walk_ok t N {}
    \<and> found (target (dirs s) parent n (path_names path)) R r t
    \<and> (path_names path \<noteq> [] \<longrightarrow> parent \<longrightarrow> r \<noteq> None \<longrightarrow> name' = last (path_names path))"
  using assms(1-4)
proof (induction path arbitrary: ip n name s rule: length_induct)
  case (1 path)
  note IH = 1(1) [rule_format] and w = 1(2) and h = 1(3) and n = 1(4) and R = 1(5)
  show ?case
  proof (cases "skipelem path")
    case None
    then have pn: "path_names path = []" by (simp add: path_names.simps)
    obtain t where t: "iput ip s = Inr t" "still s t" "walk_ok t N {}"
      "\<forall>d m. refs t d m = refs s d m - (if d = ROOTDEV \<and> m = n then 1 else 0)"
      by (rule iput_walk [OF w h n])
    have "still s s" by (simp add: still_def)
    then show ?thesis using t w h R None by (subst namex_loop.simps) (auto simp: pn found_def)
  next
    case (Some p)
    obtain e rest where p: "p = (e, rest)" by (cases p)
    note sk = Some [unfolded p]
    note pn = skipelem_rest [OF sk]
    obtain t where t: "ilock (Some ip) s = Inr t" "still s t" "reading t N ip n" "refs t = refs s"
      "i_type (icache t ip) = T_DIR \<longleftrightarrow> dirs s n \<noteq> None"
      by (rule ilock_reading [OF w h n])
    have Rt: "\<forall>d m. refs t d m = R d m + (if d = ROOTDEV \<and> m = n then 1 else 0)" using R t(4) by simp
    have dt: "dirs t = dirs s" by (rule still_notions(5) [OF t(2)])
    show ?thesis
    proof (cases "dirs s n")
      case None
      obtain u where u: "iunlockput ip t = Inr u" "still t u" "walk_ok u N {}"
        "\<forall>d m. refs u d m = refs t d m - (if d = ROOTDEV \<and> m = n then 1 else 0)" by (rule iunlockput_walk [OF t(3)])
      then show ?thesis using t(1,5) None sk Rt still_trans [OF t(2) u(2)]
        by (subst namex_loop.simps) (auto simp: pn(1) found_def target_Cons)
    next
      case D: (Some D)
      show ?thesis
      proof (cases "parent \<and> rest = []")
        case True
        obtain u where u: "iunlock (Some ip) t = Inr u" "still t u" "walk_ok u N {}" "refs u = refs t" "\<forall>k m. held t k m \<longrightarrow> held u k m"
          by (rule iunlock_reading [OF t(3)])
        have "held u ip n" using u(5) t(3) by (auto simp: reading_def)
        then show ?thesis using True u(1,3,4) t(1,5) D sk Rt still_trans [OF t(2) u(2)] pn
          by (subst namex_loop.simps) (auto simp: found_def target_Cons)
      next
        case False
        have "icache_inv t" using t(3) by (simp add: reading_def walk_ok_def)
        from room_for_one [OF this Q Rt] have P: "\<exists>j<NINODE. i_ref (icache t j) = 0" .
        note L = dirlookup_reading [OF t(3) D [folded dt] P, where name = e and dsw = dsw]
        show ?thesis
        proof (cases "D (dir_key e)")
          case None
          then obtain u where u: "dirlookup dsw ip e t = Inr (None, u)" "still t u" "reading u N ip n" "refs u = refs t" using L by auto
          obtain v where v: "iunlockput ip u = Inr v" "still u v" "walk_ok v N {}"
            "\<forall>d m. refs v d m = refs u d m - (if d = ROOTDEV \<and> m = n then 1 else 0)" by (rule iunlockput_walk [OF u(3)])
          have "still s v" by (rule still_trans [OF still_trans [OF t(2) u(2)] v(2)])
          then show ?thesis using False None u(1,4) v t(1,5) D sk Rt pn
            by (subst namex_loop.simps) (auto simp: found_def target_Cons)
        next
          case (Some m)
          then obtain k off u where u: "dirlookup dsw ip e t = Inr (Some (k, off), u)" "still t u" "reading u N ip n" "held u k (ucast m)"
            "ucast m \<in> N" "k = ip \<longrightarrow> 1 < i_ref (icache u ip)"
            "\<forall>d q. refs u d q = refs t d q + (if d = ROOTDEV \<and> q = ucast m then 1 else 0)" using L by auto
          obtain v where v: "iunlockput ip u = Inr v" "still u v" "walk_ok v N {}"
            "\<forall>d m. refs v d m = refs u d m - (if d = ROOTDEV \<and> m = n then 1 else 0)"
            "\<forall>k m. (k \<noteq> ip \<or> 1 < i_ref (icache u ip)) \<and> held u k m \<longrightarrow> held v k m" by (rule iunlockput_walk [OF u(3)])
          have st: "still s v" by (rule still_trans [OF still_trans [OF t(2) u(2)] v(2)])
          have hv: "held v k (ucast m)" using u(4,6) v(5) by auto
          have Rv: "\<forall>d q. refs v d q = R d q + (if d = ROOTDEV \<and> q = ucast m then 1 else 0)" using v(4) u(7) Rt by simp
          from IH [OF skipelem_shorter [OF sk] v(3) hv u(5) Rv [rule_format], of e] obtain r name' x where
            x: "namex_loop dsw parent k rest e v = Inr (r, name', x)" "still v x" "walk_ok x N {}"
              "found (target (dirs v) parent (ucast m) (path_names rest)) R r x"
              "path_names rest \<noteq> [] \<longrightarrow> parent \<longrightarrow> r \<noteq> None \<longrightarrow> name' = last (path_names rest)" by blast
          have "namex_loop dsw parent ip path name s = Inr (r, name', x)"
            using False x(1) t(1,5) D sk u(1) v(1) by (subst namex_loop.simps) auto
          moreover have "target (dirs s) parent n (path_names path) = target (dirs v) parent (ucast m) (path_names rest)"
            using False D Some pn by (simp add: target_Cons still_notions(5) [OF st])
          ultimately show ?thesis using x(3-5) still_trans [OF st x(2)] False pn by auto
        qed
      qed
    qed
  qed
qed

lemma finite_refs: "finite {(d, n). 0 < refs s d n}"
proof -
  have "{(d, n). 0 < refs s d n} \<subseteq> (\<lambda>i. (i_dev (icache s i), i_inum (icache s i))) ` {..<NINODE}"
  proof clarify
    fix d n assume p: "0 < refs s d n"
    have "\<exists>i<NINODE. names_inode d n (icache s i)"
    proof (rule ccontr)
      assume "\<not> (\<exists>i<NINODE. names_inode d n (icache s i))"
      then have "refs s d n = 0" unfolding refs_def by (intro sum.neutral) auto
      with p show False by simp
    qed
    then show "(d, n) \<in> (\<lambda>i. (i_dev (icache s i), i_inum (icache s i))) ` {..<NINODE}" by (auto simp: names_inode_def)
  qed
  then show ?thesis by (rule finite_subset) simp
qed

text \<open>Where a walk starts: at the root, or at the current directory.\<close>

lemma namex_start:
  assumes w: "walk_ok s N {}" and st: "if path \<noteq> [] \<and> hd path = slash then n = ROOTINO else held s cwd n"
    and c: "card {(d, n). 0 < refs s d n} + 2 \<le> NINODE"
  obtains ip t where "(if path \<noteq> [] \<and> hd path = slash then iget ROOTDEV ROOTINO s else Inr (cwd, idup cwd s)) = Inr (ip, t)"
    and "still s t" and "walk_ok t N {}" and "held t ip n" and "\<forall>d m. refs t d m = refs s d m + (if d = ROOTDEV \<and> m = n then 1 else 0)"
proof (cases "path \<noteq> [] \<and> hd path = slash")
  case True
  have inv: "icache_inv s" using w by (simp add: walk_ok_def)
  have P: "\<exists>j<NINODE. i_ref (icache s j) = 0"
    by (rule iget_room [OF inv finite_refs [of s]]) (use c in auto)
  obtain k t where t: "iget ROOTDEV n s = Inr (k, t)" "still s t" "walk_ok t N {}" "held t k n"
    "\<forall>d m. refs t d m = refs s d m + (if d = ROOTDEV \<and> m = n then 1 else 0)"
    by (rule iget_walk [OF w _ P, of n]) auto
  then show ?thesis using True st by (intro that [of k t]) simp_all
next
  case False
  let ?j = "(icache s cwd)\<lparr>i_ref := i_ref (icache s cwd) + 1\<rparr>"
  have h: "held s cwd n" and inv: "icache_inv s" using False st w by (auto simp: walk_ok_def)
  have j: "icache (idup cwd s) = (icache s)(cwd := ?j)" "names_inode ROOTDEV n ?j" "0 \<le> i_ref ?j"
    using h by (simp_all add: idup_def held_def names_inode_def)
  note R = refs_upd_same [OF h j inv]
  have "walk_ok (idup cwd s) N {}"
    by (rule walk_upd [OF w _ j(1) R(1)]) (use w h in \<open>auto simp: idup_def walk_ok_def held_def\<close>)
  then show ?thesis using False h R(2) by (intro that [of cwd "idup cwd s"]) (auto simp: idup_def held_def names_inode_def)
qed

section \<open>A sample tree\<close>

text \<open>A root directory with one file, \<^verbatim>\<open>/a\<close>, which is inode 2.\<close>

definition tree_root :: inode where
  "tree_root = (blank_inode_at 1)\<lparr>i_type := T_DIR, i_nlink := 1, i_size := 16, i_addrs := (\<lambda>_. 0)(0 := 75)\<rparr>"

definition tree_file :: inode where
  "tree_file = (blank_inode_at 2)\<lparr>i_type := T_FILE, i_nlink := 1\<rparr>"

definition tree_disk :: "uint \<Rightarrow> bytes" where
  "tree_disk = (demo_fs_disk 1)(62 := store_dinode (store_dinode (\<lambda>_. 0) (dip 1) tree_root) (dip 2) tree_file,
     75 := (\<lambda>i. if i < 16 then enc_dirent 2 [97] ! i else 0))"

definition demo_tree :: fs_st where
  "demo_tree = demo_fs\<lparr>disk := (\<lambda>_. tree_disk)\<rparr>"

lemma demo_tree_cache:
  "solo demo_tree" "content demo_tree = tree_disk" "dirty_blocks demo_tree = {}" "locked_blocks demo_tree = {}"
  "fs_sb demo_tree = fs_sb demo_fs" "home_block demo_tree = home_block demo_fs" "room 1 demo_tree"
proof -
  have b: "boot_bio demo_tree" by (simp add: boot_bio_def demo_tree_def demo_fs_def drive_ready_def)
  have "binit demo_tree = demo_tree" unfolding binit_boot [OF b] by (simp add: demo_tree_def demo_fs_def)
  with boot_solo [OF b] show c: "solo demo_tree" "content demo_tree = tree_disk" "dirty_blocks demo_tree = {}" "locked_blocks demo_tree = {}"
    by (simp_all add: demo_tree_def)
  show "fs_sb demo_tree = fs_sb demo_fs" by (simp add: demo_tree_def)
  show "home_block demo_tree = home_block demo_fs" by (simp add: fun_eq_iff home_block_def demo_tree_def)
  have "log_start demo_tree = 2" "log_size demo_tree = 60" "lh_n demo_tree = 0" "log_dev demo_tree = 1" "in_op demo_tree"
    by (simp_all add: demo_tree_def demo_fs_def in_op_def)
  then show "room 1 demo_tree"
    using c by (simp add: room_def log_inv_def log_layout_def head_ok_def logged_def tree_disk_def demo_fs_disk_def)
qed

lemma demo_tree_icache: "icache demo_tree i = demo_inode" "i_ref demo_inode = 0" "\<not> sl_locked (i_lock demo_inode)"
  by (simp_all add: demo_tree_def demo_fs_def demo_inode_def initsleeplock_def)

lemma demo_tree_inodes: "on_disk demo_tree 1 = tree_root" "on_disk demo_tree 2 = tree_file"
proof -
  have B: "IBLOCK 1 (fs_sb demo_tree) = 62" "IBLOCK 2 (fs_sb demo_tree) = 62"
    by (simp_all add: IBLOCK_def demo_tree_cache demo_sb_decode)
  have "unat (1 :: uint) mod IPB \<noteq> unat (2 :: uint) mod IPB" by simp
  then show "on_disk demo_tree 1 = tree_root" unfolding on_disk_def B
    by (simp add: demo_tree_cache tree_disk_def dip_disjoint load_store_dinode) (simp add: disk_fields_def tree_root_def blank_inode_at_def fun_eq_iff cong: if_cong)
  show "on_disk demo_tree 2 = tree_file" unfolding on_disk_def B
    by (simp add: demo_tree_cache tree_disk_def load_store_dinode) (simp add: disk_fields_def tree_file_def blank_inode_at_def cong: if_cong)
qed

lemma demo_tree_data: "data_block demo_tree 75"
proof -
  have u: "used demo_tree b = used demo_fs b" if "b < 10000" for b
  proof -
    have "unat (BBLOCK (of_nat b) (fs_sb demo_fs)) = b div BPB + 91" by (rule demo_BBLOCK [OF that])
    then have "BBLOCK (of_nat b) (fs_sb demo_fs) \<noteq> 62" "BBLOCK (of_nat b) (fs_sb demo_fs) \<noteq> 75" by (auto simp: word_unat_eq_iff)
    then show ?thesis by (simp add: used_def demo_tree_cache demo_fs_cache tree_disk_def)
  qed
  have "data_block demo_fs 75" using demo_data [of 75] by simp
  then show ?thesis using u [of 75] by (simp add: data_block_def demo_tree_cache)
qed

lemma demo_tree_root: "file_bytes demo_tree tree_root = enc_dirent 2 [97]"
proof (rule nth_equalityI)
  show l: "length (file_bytes demo_tree tree_root) = length (enc_dirent 2 [97])" by (simp add: tree_root_def)
  fix q assume "q < length (file_bytes demo_tree tree_root)"
  then have "q < 16" unfolding l by simp
  then show "file_bytes demo_tree tree_root ! q = enc_dirent 2 [97] ! q"
    by (simp add: file_bytes_def file_byte_def amap_def tree_root_def demo_tree_cache tree_disk_def)
qed

lemma demo_tree_map: "dir_map (enc_dirent 2 [97]) = [[97] \<mapsto> 2]"
proof -
  have "dirents (enc_dirent 2 [97]) = [enc_dirent 2 [97]]" by (simp add: dirents_def dirent_at_def)
  moreover have "dir_key [97] = [97]" by (simp add: dir_key_def)
  ultimately show ?thesis by (simp add: dir_map_def dir_alist_def)
qed

lemma demo_tree_ok: "walk_ok demo_tree {1, 2} {}"
proof -
  have a: "amap c tree_root n = (if n = 0 then 75 else 0)" for c n by (simp add: amap_def tree_root_def)
  have fb: "file_blocks c tree_root = {75}" for c by (auto simp: file_blocks_def a) (auto simp: tree_root_def)
  have f: "file_ok demo_tree tree_root" unfolding file_ok_def fb a using demo_tree_data
    by (simp add: demo_tree_cache) (simp add: tree_root_def blank_inode_at_def)
  have w: "whole demo_tree tree_root" unfolding whole_def a by (auto simp: tree_root_def)
  have "IBLOCK 1 (fs_sb demo_tree) = 62" "IBLOCK 2 (fs_sb demo_tree) = 62" by (simp_all add: IBLOCK_def demo_tree_cache demo_sb_decode)
  moreover have "i_type tree_root = T_DIR" "i_nlink tree_root \<noteq> 0" "unat (i_size tree_root) = 16" "i_type tree_file = T_FILE" "i_nlink tree_file \<noteq> 0"
    by (simp_all add: tree_root_def tree_file_def)
  ultimately have "tree_ok demo_tree {1, 2}"
    using f w by (simp add: tree_ok_def Let_def demo_tree_inodes demo_tree_cache demo_home demo_tree_root demo_tree_map)
  moreover have "icache demo_tree = icache demo_fs" by (simp add: demo_tree_def)
  then have "icache_inv demo_tree" using demo_icache_inv cache_cong(1) by blast
  moreover have "clock_steady demo_tree" using demo_clock_ok by (simp add: clock_steady_def demo_tree_def demo_fs_def)
  ultimately show ?thesis
    using demo_tree_cache(7) by (simp add: walk_ok_def demo_tree_icache)
qed

section \<open>Properties\<close>

text \<open>C9: \<^verbatim>\<open>namex\<close> finds what a path names. Inside a transaction, with no inode locked and room for two more inodes in the cache, it returns:
  the inode that the path leads to when every element is looked up in the map of the directory before it, from the root or the current
  directory on, or for \<^verbatim>\<open>nameiparent\<close> the directory of the last element together with that element; or nothing, when an element does not
  exist or its directory is not one. It changes no block, leaves the cache in agreement with the disk, and of all the references it takes on the
  way it keeps exactly that to the result.\<close>

theorem namex_resolves:
  assumes "walk_ok s N {}" and "start \<in> N" and "if path \<noteq> [] \<and> hd path = slash then start = ROOTINO else held s cwd start"
    and "card {(d, n). 0 < refs s d n} + 2 \<le> NINODE"
  shows "\<exists>r name t. namex dsw cwd path parent s = Inr (r, name, t) \<and> content t = content s \<and> walk_ok t N {}
    \<and> found (target (dirs s) parent start (path_names path)) (refs s) r t
    \<and> (parent \<and> r \<noteq> None \<longrightarrow> name = last (path_names path))"
proof -
  obtain ip t where t: "(if path \<noteq> [] \<and> hd path = slash then iget ROOTDEV ROOTINO s else Inr (cwd, idup cwd s)) = Inr (ip, t)"
    "still s t" "walk_ok t N {}" "held t ip start" "\<forall>d m. refs t d m = refs s d m + (if d = ROOTDEV \<and> m = start then 1 else 0)"
    by (rule namex_start [OF assms(1,3,4)])
  have q: "\<forall>d m. 0 < refs s d m \<longrightarrow> (d, m) \<in> {(d, n). 0 < refs s d n}" by simp
  from namex_loop_ok [OF t(3,4) assms(2) t(5) finite_refs assms(4) q, of dsw parent path "[]"] obtain r name u where
    u: "namex_loop dsw parent ip path [] t = Inr (r, name, u)" "still t u" "walk_ok u N {}"
      "found (target (dirs t) parent start (path_names path)) (refs s) r u"
      "path_names path \<noteq> [] \<longrightarrow> parent \<longrightarrow> r \<noteq> None \<longrightarrow> name = last (path_names path)" by blast
  have "namex dsw cwd path parent s = Inr (r, name, u)" using t(1) u(1) by (simp only: namex_def rbind_Inr prod.case)
  moreover have "content u = content s" using still_trans [OF t(2) u(2)] by (simp add: still_def)
  moreover have "found (target (dirs s) parent start (path_names path)) (refs s) r u" using u(4) still_notions(5) [OF t(2)] by simp
  moreover have "parent \<and> r \<noteq> None \<longrightarrow> name = last (path_names path)" using u(4,5) by (auto simp: found_def)
  ultimately show ?thesis using u(3) by blast
qed

theorem namex_resolves_witness:
  "\<exists>ip name t. namex (\<lambda>_. \<lparr>d_read = None, d_write = None, d_ioctl = None\<rparr>) 0 [47, 97] False demo_tree = Inr (Some ip, name, t)
     \<and> i_inum (icache t ip) = 2"
proof -
  have "refs demo_tree d n = 0" for d n by (simp add: refs_def demo_tree_icache cong: if_cong)
  then have c: "card {(d, n). 0 < refs demo_tree d n} + 2 \<le> NINODE" by simp
  have "path_names [47, 97] = [[97]]" by (simp add: path_names.simps skipelem_def)
  moreover have "dir_key [97] = [97]" by (simp add: dir_key_def)
  moreover have "dirs demo_tree 1 = Some [[97] \<mapsto> 2]"
    by (simp add: dirs_def demo_tree_inodes demo_tree_root demo_tree_map) (simp add: tree_root_def)
  ultimately have g: "target (dirs demo_tree) False 1 (path_names [47, 97]) = Some 2" by (simp add: target_Cons)
  have s: "if [47, 97 :: uchar] \<noteq> [] \<and> hd [47, 97] = slash then ROOTINO = ROOTINO else held demo_tree 0 ROOTINO" by simp
  show ?thesis
    using namex_resolves [OF demo_tree_ok _ s c, of "\<lambda>_. \<lparr>d_read = None, d_write = None, d_ioctl = None\<rparr>" False]
    unfolding g by (auto simp: found_def held_def names_inode_def)
qed

end
