(* ===== verification/KAlloc.thy ===== *)
theory KAlloc
  imports KString
begin

text \<open>
  The physical page allocator (\<^verbatim>\<open>kernel/kalloc.c\<close>): a list of free pages linked through the pages
  themselves, in the byte memory of \<open>KString\<close>. Each routine runs with \<^verbatim>\<open>kmem.lock\<close> held (before
  \<^verbatim>\<open>kinit2\<close> only one CPU runs), so its effect is atomic.

  The linked list is shown to implement a stack of pages (\<open>kmem_ok\<close>), and the allocator to hand out no
  page that is already in use.
\<close>

section \<open>Definitions\<close>

abbreviation "PGSIZE \<equiv> 4096 :: uint"

definition PHYSTOP :: uint where "PHYSTOP = 0xE000000"

definition V2P :: "uint \<Rightarrow> uint" where "V2P a = a - 0x80000000"

definition P2V :: "uint \<Rightarrow> uint" where "P2V a = a + 0x80000000"

definition PGROUNDUP :: "uint \<Rightarrow> uint" where "PGROUNDUP sz = (sz + 4096 - 1) AND NOT (4096 - 1)"

definition PGROUNDDOWN :: "uint \<Rightarrow> uint" where "PGROUNDDOWN a = a AND NOT (4096 - 1)"

text \<open>
  The memory of the machine, and \<^verbatim>\<open>kmem\<close>; \<^verbatim>\<open>end\<close> is the first address after the kernel and
  \<^verbatim>\<open>data\<close> the first address of its data, both set by the linker.
\<close>

record kmem =
  k_mem :: mem
  freelist :: uint
  use_lock :: bool
  k_end :: uint
  k_data :: uint

definition kfree :: "uint \<Rightarrow> kmem \<Rightarrow> kmem res" where
  "kfree v k =
     (if unat v mod 4096 \<noteq> 0 \<or> v < k_end k \<or> V2P v \<ge> PHYSTOP then Inl (Panic ''kfree'')
      else
       (let m = memset (k_mem k) v 1 PGSIZE
        in Inr (k\<lparr>k_mem := st32 m v (freelist k), freelist := v\<rparr>)))"

definition kalloc :: "kmem \<Rightarrow> uint \<times> kmem" where
  "kalloc k =
     (let r = freelist k in
      (r, if r \<noteq> 0 then k\<lparr>freelist := ld32 (k_mem k) r\<rparr> else k))"

lemma kfree_range: "kfree v k = Inr k' \<Longrightarrow> 0x80000000 \<le> unat v \<and> unat v < 0x8E000000"
proof -
  assume "kfree v k = Inr k'"
  then have "unat (v - 0x80000000) < 0xE000000"
    by (simp add: kfree_def V2P_def PHYSTOP_def word_less_nat_alt not_le split: if_splits)
  moreover have "unat (v - 0x80000000) = unat v - 0x80000000" if "0x80000000 \<le> unat v"
    using that by (subst unat_sub) (simp_all add: word_le_nat_alt)
  moreover have "unat (v - 0x80000000) = unat v + 0x80000000" if "unat v < 0x80000000"
    using that unsigned_less [of v, where ?'a = nat] by (simp add: unat_word_ariths unat_sub_if')
  ultimately show ?thesis by linarith
qed

text \<open>
  \<^verbatim>\<open>freerange\<close>. The loop ends because \<^verbatim>\<open>kfree\<close> panics on a page outside physical memory.
\<close>

function freerange_loop :: "uint \<Rightarrow> uint \<Rightarrow> kmem \<Rightarrow> kmem res" where
  "freerange_loop p vend k =
     (if p + PGSIZE \<le> vend then rbind (kfree p k) (freerange_loop (p + PGSIZE) vend) else Inr k)"
  by pat_completeness auto
termination
proof (relation "measure (\<lambda>(p, vend, k). 2 ^ 32 - unat p)", goal_cases)
  case (2 p vend k k')
  from kfree_range [OF 2(2)] show ?case by (auto simp: unat_word_ariths)
qed simp

declare freerange_loop.simps [simp del]

definition freerange :: "uint \<Rightarrow> uint \<Rightarrow> kmem \<Rightarrow> kmem res" where
  "freerange vstart vend k = freerange_loop (PGROUNDUP vstart) vend k"

definition kinit1 :: "uint \<Rightarrow> uint \<Rightarrow> kmem \<Rightarrow> kmem res" where
  "kinit1 vstart vend k = freerange vstart vend (k\<lparr>use_lock := False\<rparr>)"

definition kinit2 :: "uint \<Rightarrow> uint \<Rightarrow> kmem \<Rightarrow> kmem res" where
  "kinit2 vstart vend k = rbind (freerange vstart vend k) (\<lambda>k. Inr (k\<lparr>use_lock := True\<rparr>))"

section \<open>The free list\<close>

primrec free_chain :: "mem \<Rightarrow> uint \<Rightarrow> uint list \<Rightarrow> bool" where
  "free_chain m p [] \<longleftrightarrow> p = 0"
| "free_chain m p (x # xs) \<longleftrightarrow> p = x \<and> free_chain m (ld32 m x) xs"

text \<open>A page of physical memory behind the kernel.\<close>

definition page_ok :: "uint \<Rightarrow> uint \<Rightarrow> bool" where
  "page_ok kend v \<longleftrightarrow> unat v mod 4096 = 0 \<and> kend \<le> v \<and> V2P v < PHYSTOP"

definition kmem_ok :: "kmem \<Rightarrow> uint list \<Rightarrow> bool" where
  "kmem_ok k xs \<longleftrightarrow> free_chain (k_mem k) (freelist k) xs \<and> distinct xs \<and> (\<forall>x\<in>set xs. page_ok (k_end k) x)"

definition in_page :: "uint \<Rightarrow> uint \<Rightarrow> bool" where
  "in_page v a \<longleftrightarrow> unat (a - v) < 4096"

lemma in_page_iff:
  assumes "unat v mod 4096 = 0"
  shows "in_page v a \<longleftrightarrow> unat a div 4096 = unat v div 4096"
proof
  assume p: "in_page v a"
  have "unat v < 2 ^ 32" using unsigned_less [of v, where ?'a = nat] by simp
  then have "unat v div 4096 < 1048576" by simp
  then have v: "unat v \<le> 2 ^ 32 - 4096" using assms mult_div_mod_eq [of 4096 "unat v"] by simp
  have "unat (v + (a - v)) = (unat v + unat (a - v)) mod 2 ^ 32"
    by (simp only: unat_word_ariths(1) len_num1 len_bit0 len_num0) simp
  also have "\<dots> = unat v + unat (a - v)" using v p by (intro mod_less) (simp add: in_page_def)
  finally have "unat a = unat v + unat (a - v)" by simp
  then show "unat a div 4096 = unat v div 4096" using p assms by (simp add: in_page_def div_add1_eq)
next
  assume e: "unat a div 4096 = unat v div 4096"
  have "unat v = 4096 * (unat a div 4096)" using assms e by (metis add.right_neutral mult_div_mod_eq)
  then have le: "unat v \<le> unat a" and lt: "unat a < unat v + 4096"
    by (simp_all add: mult_div_mod_eq [symmetric])
  then have "unat (a - v) = unat a - unat v" by (subst unat_sub) (simp_all add: word_le_nat_alt)
  then show "in_page v a" using le lt by (simp add: in_page_def)
qed

lemma page_unique:
  "unat v mod 4096 = 0 \<Longrightarrow> unat w mod 4096 = 0 \<Longrightarrow> in_page v a \<Longrightarrow> in_page w a \<Longrightarrow> v = w"
  by (simp add: in_page_iff word_unat_eq_iff) (metis add.right_neutral mult_div_mod_eq)

lemma in_page_offset: "i < 4096 \<Longrightarrow> in_page v (v + i)"
  by (simp add: in_page_def word_less_nat_alt)

lemma free_chain_cong:
  "(\<And>x. x \<in> set xs \<Longrightarrow> ld32 m x = ld32 m' x) \<Longrightarrow> free_chain m p xs = free_chain m' p xs"
  by (induction xs arbitrary: p) auto

text \<open>What a page holds does not matter to the links in the others.\<close>

lemma free_chain_page:
  assumes "unat v mod 4096 = 0" and "v \<notin> set xs" and "\<forall>x\<in>set xs. unat x mod 4096 = 0"
    and "\<And>a. \<not> in_page v a \<Longrightarrow> m' a = m a"
  shows "free_chain m' p xs = free_chain m p xs"
proof (rule free_chain_cong, rule ld32_cong)
  fix x and i :: uint assume x: "x \<in> set xs" and i: "i < 4"
  then have "in_page x (x + i)" by (intro in_page_offset) (auto simp: word_less_nat_alt)
  then have "\<not> in_page v (x + i)" using page_unique [of v x "x + i"] assms(1-3) x by auto
  then show "m' (x + i) = m (x + i)" by (rule assms(4))
qed

lemma page_nonzero: "page_ok kend v \<Longrightarrow> v \<noteq> 0"
  by (auto simp: page_ok_def V2P_def PHYSTOP_def word_less_nat_alt unat_word_ariths unat_sub_if')

definition junk :: "uint \<Rightarrow> uint \<Rightarrow> mem \<Rightarrow> mem" where
  "junk v next m = st32 (memset m v 1 PGSIZE) v next"

lemma junk_other: "\<not> in_page v a \<Longrightarrow> junk v next m a = m a"
  unfolding junk_def in_page_def by (subst st32_other) (auto simp: memset_stosb stosb_apply)

lemma kfree_ok:
  assumes "kmem_ok k xs" and "page_ok (k_end k) v" and "v \<notin> set xs"
  shows "kfree v k = Inr (k\<lparr>k_mem := junk v (freelist k) (k_mem k), freelist := v\<rparr>)"
    and "kmem_ok (k\<lparr>k_mem := junk v (freelist k) (k_mem k), freelist := v\<rparr>) (v # xs)"
proof -
  have v: "unat v mod 4096 = 0" using assms(2) by (simp add: page_ok_def)
  show "kfree v k = Inr (k\<lparr>k_mem := junk v (freelist k) (k_mem k), freelist := v\<rparr>)"
    using assms(2) by (simp add: kfree_def page_ok_def junk_def Let_def not_le not_less)
  have "free_chain (junk v (freelist k) (k_mem k)) (freelist k) xs = free_chain (k_mem k) (freelist k) xs"
    by (rule free_chain_page [OF v assms(3)])
      (use assms(1) junk_other in \<open>auto simp: kmem_ok_def page_ok_def\<close>)
  moreover have "ld32 (junk v (freelist k) (k_mem k)) v = freelist k" by (simp add: junk_def)
  ultimately show "kmem_ok (k\<lparr>k_mem := junk v (freelist k) (k_mem k), freelist := v\<rparr>) (v # xs)"
    using assms by (simp add: kmem_ok_def)
qed

lemma kalloc_ok:
  assumes "kmem_ok k xs"
  shows "kalloc k = (case xs of [] \<Rightarrow> (0, k) | x # _ \<Rightarrow> (x, k\<lparr>freelist := ld32 (k_mem k) x\<rparr>))"
    and "kmem_ok (snd (kalloc k)) (tl xs)"
  using assms page_nonzero [of "k_end k" "freelist k"]
  by (cases xs; auto simp: kmem_ok_def kalloc_def Let_def)+

section \<open>Using the allocator\<close>

text \<open>
  Any sequence of allocations and of frees of pages in use. \<open>used_pages\<close> are the pages handed out and
  not given back; between the calls their users may write to them.
\<close>

inductive kmem_run :: "kmem \<Rightarrow> kmem \<Rightarrow> uint set \<Rightarrow> bool" for k0 where
  km_start: "kmem_run k0 k0 {}"
| km_alloc: "kmem_run k0 k A \<Longrightarrow> kalloc k = (p, k') \<Longrightarrow> p \<noteq> 0 \<Longrightarrow> kmem_run k0 k' (insert p A)"
| km_free: "kmem_run k0 k A \<Longrightarrow> v \<in> A \<Longrightarrow> kfree v k = Inr k' \<Longrightarrow> kmem_run k0 k' (A - {v})"
| km_write: "kmem_run k0 k A \<Longrightarrow> v \<in> A \<Longrightarrow> in_page v a \<Longrightarrow> kmem_run k0 (k\<lparr>k_mem := (k_mem k)(a := c)\<rparr>) A"

definition kmem_run_inv :: "uint list \<Rightarrow> uint \<Rightarrow> kmem \<Rightarrow> uint set \<Rightarrow> bool" where
  "kmem_run_inv pages kend k A \<longleftrightarrow> k_end k = kend \<and> (\<exists>xs. kmem_ok k xs \<and> A \<inter> set xs = {} \<and> A \<union> set xs = set pages)"

lemma kmem_run_invI:
  "k_end k = kend \<Longrightarrow> kmem_ok k xs \<Longrightarrow> A \<inter> set xs = {} \<Longrightarrow> A \<union> set xs = set pages \<Longrightarrow> kmem_run_inv pages kend k A"
  by (auto simp: kmem_run_inv_def)

lemma kmem_run_inv:
  assumes "kmem_run k0 k A" and ok0: "kmem_ok k0 pages"
  shows "kmem_run_inv pages (k_end k0) k A"
  using assms(1)
proof induction
  case km_start
  show ?case by (rule kmem_run_invI [OF refl ok0]) simp_all
next
  case (km_alloc k A p k')
  then obtain xs where xs: "kmem_ok k xs" "A \<inter> set xs = {}" "A \<union> set xs = set pages" and e: "k_end k = k_end k0"
    by (auto simp: kmem_run_inv_def)
  from kalloc_ok [OF xs(1)] km_alloc(2,3) obtain ys where ys: "xs = p # ys" "k' = k\<lparr>freelist := ld32 (k_mem k) p\<rparr>"
    "kmem_ok k' ys" by (cases xs) auto
  show ?case by (rule kmem_run_invI [OF _ ys(3)]) (use xs ys e in \<open>auto simp: kmem_ok_def\<close>)
next
  case (km_free k A v k')
  then obtain xs where xs: "kmem_ok k xs" "A \<inter> set xs = {}" "A \<union> set xs = set pages" and e: "k_end k = k_end k0"
    by (auto simp: kmem_run_inv_def)
  have "page_ok (k_end k) v" using km_free(2) xs(3) ok0 e by (auto simp: kmem_ok_def)
  note f = kfree_ok [OF xs(1) this]
  have "v \<notin> set xs" using km_free(2) xs(2) by auto
  with f km_free(3) have "kmem_ok k' (v # xs)" "k_end k' = k_end k" by auto
  then show ?case by (intro kmem_run_invI [of k' _ "v # xs"]) (use xs e km_free(2) in auto)
next
  case (km_write k A v a c)
  then obtain xs where xs: "kmem_ok k xs" "A \<inter> set xs = {}" "A \<union> set xs = set pages" and e: "k_end k = k_end k0"
    by (auto simp: kmem_run_inv_def)
  have v: "unat v mod 4096 = 0" using km_write(2) xs(3) ok0 by (auto simp: kmem_ok_def page_ok_def)
  have "free_chain ((k_mem k)(a := c)) (freelist k) xs = free_chain (k_mem k) (freelist k) xs"
    by (rule free_chain_page [OF v]) (use km_write(2,3) xs(1,2) in \<open>auto simp: kmem_ok_def page_ok_def\<close>)
  with xs(1) have "kmem_ok (k\<lparr>k_mem := (k_mem k)(a := c)\<rparr>) xs" by (simp add: kmem_ok_def)
  then show ?case by (rule kmem_run_invI [rotated]) (use xs e in auto)
qed

section \<open>Initialisation\<close>

definition PGROUND_spec :: "nat \<Rightarrow> nat" where
  "PGROUND_spec n = 4096 * ((n + 4095) div 4096)"

lemma and_not_4095: "unat (x AND - 4096 :: uint) = 4096 * (unat x div 4096)"
proof -
  have m: "(- 4096 :: uint) = NOT (mask 12)" by (simp add: mask_eq_exp_minus_1)
  have "x AND NOT (mask 12) = push_bit 12 (drop_bit 12 x)"
    by (rule bit_word_eqI) (auto simp: bit_simps)
  also have "\<dots> = of_nat (4096 * (unat x div 4096))"
    by (simp add: word_unat_eq_iff push_bit_eq_mult unat_drop_bit_eq drop_bit_eq_div unat_word_ariths unat_of_nat
        take_bit_eq_mod mult.commute)
  finally have "unat (x AND - 4096) = unat (of_nat (4096 * (unat x div 4096)) :: uint)" by (simp only: m)
  also have "\<dots> = 4096 * (unat x div 4096)"
    unfolding unat_of_nat
    by (rule mod_less) (use unsigned_less [of x, where ?'a = nat] in \<open>simp add: le_less_trans [OF times_div_less_eq_dividend]\<close>)
  finally show ?thesis .
qed

lemma PGROUNDDOWN_unat: "unat (PGROUNDDOWN a) = 4096 * (unat a div 4096)"
  by (simp add: PGROUNDDOWN_def and_not_4095)

lemma PGROUNDUP_unat: "unat a + 4095 < 2 ^ 32 \<Longrightarrow> unat (PGROUNDUP a) = PGROUND_spec (unat a)"
  by (simp add: PGROUNDUP_def and_not_4095 PGROUND_spec_def unat_word_ariths)

text \<open>\<^verbatim>\<open>freerange\<close> pushes the whole pages of the range, the last one on top.\<close>

definition pages_from :: "uint \<Rightarrow> nat \<Rightarrow> uint list" where
  "pages_from p n = map (\<lambda>i. p + of_nat (4096 * i)) [0..<n]"

lemma pages_from_Suc: "pages_from p (Suc n) = p # pages_from (p + 4096) n"
  by (simp add: pages_from_def upt_conv_Cons map_Suc_upt [symmetric] algebra_simps del: upt_Suc)

lemma freerange_loop_ok:
  assumes "kmem_ok k xs" and "unat p mod 4096 = 0" and "k_end k \<le> p" and "0x80000000 \<le> unat p"
    and "unat vend \<le> 0x8E000000" and "unat p + 4096 * n \<le> unat vend" and "unat vend < unat p + 4096 * n + 4096"
    and "set (pages_from p n) \<inter> set xs = {}"
  shows "\<exists>k'. freerange_loop p vend k = Inr k' \<and> kmem_ok k' (rev (pages_from p n) @ xs) \<and> k_end k' = k_end k
    \<and> k_data k' = k_data k"
  using assms
proof (induction n arbitrary: p k xs)
  case 0
  then have "unat (p + 4096) = unat p + 4096" by (subst unat_word_ariths) simp
  with 0 have "\<not> p + 4096 \<le> vend" by (simp add: word_le_nat_alt)
  with 0 show ?case by (simp add: freerange_loop.simps pages_from_def)
next
  case (Suc n)
  have u: "unat (p + 4096) = unat p + 4096" using Suc.prems(5,6) by (subst unat_word_ariths) simp
  have le: "p + 4096 \<le> vend" using Suc.prems(6) u by (simp add: word_le_nat_alt)
  have "unat (V2P p) = unat p - 0x80000000"
    unfolding V2P_def using Suc.prems(4) by (subst unat_sub) (simp_all add: word_le_nat_alt)
  then have "page_ok (k_end k) p" using Suc.prems(2-6) by (simp add: page_ok_def PHYSTOP_def word_less_nat_alt)
  moreover have "p \<notin> set xs" using Suc.prems(8) by (simp add: pages_from_Suc)
  ultimately have f: "kfree p k = Inr (k\<lparr>k_mem := junk p (freelist k) (k_mem k), freelist := p\<rparr>)"
    "kmem_ok (k\<lparr>k_mem := junk p (freelist k) (k_mem k), freelist := p\<rparr>) (p # xs)"
    using kfree_ok [OF Suc.prems(1)] by blast+
  have "p \<notin> set (pages_from (p + 4096) n)"
  proof
    assume "p \<in> set (pages_from (p + 4096) n)"
    then obtain i where i: "i < n" "p = p + 4096 + of_nat (4096 * i)" by (auto simp: pages_from_def)
    then have "(of_nat (4096 + 4096 * i) :: uint) = 0" by (simp add: algebra_simps)
    then have "unat (of_nat (4096 + 4096 * i) :: uint) = 0" by (simp only: unat_0)
    moreover have "unat (of_nat (4096 + 4096 * i) :: uint) = 4096 + 4096 * i"
      unfolding unat_of_nat by (rule mod_less) (use i(1) Suc.prems(5,6) in simp)
    ultimately show False by simp
  qed
  with Suc.prems(8) have "set (pages_from (p + 4096) n) \<inter> set (p # xs) = {}" by (simp add: pages_from_Suc)
  from Suc.IH [OF f(2) _ _ _ _ _ _ this, unfolded u] Suc.prems obtain k' where
    "freerange_loop (p + 4096) vend (k\<lparr>k_mem := junk p (freelist k) (k_mem k), freelist := p\<rparr>) = Inr k'"
    "kmem_ok k' (rev (pages_from (p + 4096) n) @ p # xs)" "k_end k' = k_end k" "k_data k' = k_data k"
    by (auto simp: word_le_nat_alt u)
  then show ?case using le f(1) by (simp add: freerange_loop.simps [of p] pages_from_Suc)
qed


lemma PGROUND_spec_bounds: "n \<le> PGROUND_spec n" "PGROUND_spec n < n + 4096"
  using mult_div_mod_eq [of 4096 "n + 4095"] mod_less_divisor [of 4096 "n + 4095"]
  unfolding PGROUND_spec_def by linarith+

lemma div_4096_bounds: "4096 * (n div 4096) \<le> n" "n < 4096 * (n div 4096) + (4096 :: nat)"
  using mult_div_mod_eq [of 4096 n] mod_less_divisor [of 4096 n] by linarith+

section \<open>Properties\<close>

text \<open>\<^verbatim>\<open>kinit1\<close> puts exactly the whole pages between its two addresses on the free list, each once, and
  returns: it neither panics nor runs on, for a range in physical memory behind the kernel.\<close>

theorem kinit1_frees_range:
  assumes "freelist k = 0" and "k_end k \<le> vstart" and "0x80000000 \<le> unat vstart" and "unat vend \<le> 0x8E000000"
    and "PGROUND_spec (unat vstart) \<le> unat vend"
  shows "\<exists>k'. kinit1 vstart vend k = Inr k' \<and> kmem_ok k'
    (rev (pages_from (PGROUNDUP vstart) ((unat vend - PGROUND_spec (unat vstart)) div 4096)))"
proof -
  let ?p = "PGROUNDUP vstart" and ?n = "(unat vend - PGROUND_spec (unat vstart)) div 4096"
  note le = PGROUND_spec_bounds [of "unat vstart"]
  have p: "unat ?p = PGROUND_spec (unat vstart)" by (rule PGROUNDUP_unat) (use assms(4,5) le in simp)
  have ok: "kmem_ok (k\<lparr>use_lock := False\<rparr>) []" using assms(1) by (simp add: kmem_ok_def)
  have "unat ?p mod 4096 = 0" by (simp add: p PGROUND_spec_def)
  moreover have "k_end (k\<lparr>use_lock := False\<rparr>) \<le> ?p" using assms(2) le p by (simp add: word_le_nat_alt)
  moreover have "0x80000000 \<le> unat ?p" using assms(3) le p by simp
  moreover have "unat ?p + 4096 * ?n \<le> unat vend" "unat vend < unat ?p + 4096 * ?n + 4096"
    using assms(5) div_4096_bounds [of "unat vend - PGROUND_spec (unat vstart)"] unfolding p by linarith+
  ultimately show ?thesis
    using freerange_loop_ok [OF ok, of ?p vend ?n] assms(4) by (auto simp: kinit1_def freerange_def)
qed

definition demo_kmem :: kmem where
  "demo_kmem = \<lparr>k_mem = (\<lambda>_. 0), freelist = 0, use_lock = False, k_end = 0x80110000, k_data = 0x80108000\<rparr>"

theorem kinit1_frees_range_witness:
  "\<exists>k'. kinit1 0x80110010 0x80113000 demo_kmem = Inr k' \<and> kmem_ok k' [0x80112000, 0x80111000]"
proof -
  have "PGROUNDUP 0x80110010 = 0x80111000" by (simp add: PGROUNDUP_def)
  moreover have "pages_from 0x80111000 2 = [0x80111000, 0x80112000]" by (simp add: pages_from_def numeral_2_eq_2)
  moreover have "(unat (0x80113000 :: uint) - PGROUND_spec (unat (0x80110010 :: uint))) div 4096 = 2"
    by (simp add: PGROUND_spec_def)
  ultimately show ?thesis
    using kinit1_frees_range [of demo_kmem "0x80110010" "0x80113000"]
    by (auto simp: demo_kmem_def word_le_nat_alt PGROUND_spec_def)
qed



end
