(* ===== verification/KVm.thy ===== *)
theory KVm
  imports KAlloc KLock
begin

text \<open>
  Virtual memory (\<^verbatim>\<open>kernel/vm.c\<close>): two-level page tables in physical memory, the kernel's part of an
  address space, and the user part that grows, shrinks and is copied.

  That page tables implement maps from virtual pages to entries, and what the routines do to them, is shown in
  \<^verbatim>\<open>KPaging\<close>; the segment descriptors that \<^verbatim>\<open>seginit\<close> and \<^verbatim>\<open>switchuvm\<close> set up are in \<^verbatim>\<open>KSeg\<close>.
\<close>

section \<open>Definitions\<close>

abbreviation "PTE_P \<equiv> 1 :: uint"
abbreviation "PTE_W \<equiv> 2 :: uint"
abbreviation "PTE_U \<equiv> 4 :: uint"
abbreviation "EXTMEM \<equiv> 0x100000 :: uint"
abbreviation "DEVSPACE \<equiv> 0xFE000000 :: uint"
abbreviation "KERNLINK \<equiv> 0x80100000 :: uint"
abbreviation "KSTACKSIZE \<equiv> 4096 :: uint"

definition PDX :: "uint \<Rightarrow> uint" where "PDX va = drop_bit 22 va AND 0x3FF"

definition PTX :: "uint \<Rightarrow> uint" where "PTX va = drop_bit 12 va AND 0x3FF"

definition PTE_ADDR :: "uint \<Rightarrow> uint" where "PTE_ADDR pte = pte AND NOT 0xFFF"

definition PTE_FLAGS :: "uint \<Rightarrow> uint" where "PTE_FLAGS pte = pte AND 0xFFF"

text \<open>\<^verbatim>\<open>walkpgdir\<close> returns the address of the entry, or \<^term>\<open>None\<close> for the null pointer.\<close>

definition walkpgdir :: "uint \<Rightarrow> uint \<Rightarrow> bool \<Rightarrow> kmem \<Rightarrow> uint option \<times> kmem" where
  "walkpgdir pgdir va alloc k =
     (let pde = pgdir + 4 * PDX va; e = ld32 (k_mem k) pde in
      if e AND PTE_P \<noteq> 0 then (Some (P2V (PTE_ADDR e) + 4 * PTX va), k)
      else if \<not> alloc then (None, k)
      else
       (case kalloc k of (pgtab, k) \<Rightarrow>
          if pgtab = 0 then (None, k)
          else
           (let m = memset (k_mem k) pgtab 0 PGSIZE;
                m = st32 m pde (V2P pgtab OR PTE_P OR PTE_W OR PTE_U)
            in (Some (pgtab + 4 * PTX va), k\<lparr>k_mem := m\<rparr>))))"

text \<open>
  \<^verbatim>\<open>mappages\<close>: \<^verbatim>\<open>a\<close> and \<^verbatim>\<open>last\<close> are page addresses, so the loop maps one page and then one more for
  each page between them.
\<close>

primrec mappages_loop :: "nat \<Rightarrow> uint \<Rightarrow> uint \<Rightarrow> uint \<Rightarrow> uint \<Rightarrow> kmem \<Rightarrow> (int \<times> kmem) res" where
  "mappages_loop 0 pgdir a pa perm k =
     (case walkpgdir pgdir a True k of
        (None, k) \<Rightarrow> Inr (- 1, k)
      | (Some pte, k) \<Rightarrow>
          if ld32 (k_mem k) pte AND PTE_P \<noteq> 0 then Inl (Panic ''remap'')
          else Inr (0, k\<lparr>k_mem := st32 (k_mem k) pte (pa OR perm OR PTE_P)\<rparr>))"
| "mappages_loop (Suc n) pgdir a pa perm k =
     (case walkpgdir pgdir a True k of
        (None, k) \<Rightarrow> Inr (- 1, k)
      | (Some pte, k) \<Rightarrow>
          if ld32 (k_mem k) pte AND PTE_P \<noteq> 0 then Inl (Panic ''remap'')
          else mappages_loop n pgdir (a + PGSIZE) (pa + PGSIZE) perm
                 (k\<lparr>k_mem := st32 (k_mem k) pte (pa OR perm OR PTE_P)\<rparr>))"

definition mappages :: "uint \<Rightarrow> uint \<Rightarrow> uint \<Rightarrow> uint \<Rightarrow> uint \<Rightarrow> kmem \<Rightarrow> (int \<times> kmem) res" where
  "mappages pgdir va size' pa perm k =
     (let a = PGROUNDDOWN va; last = PGROUNDDOWN (va + size' - 1) in
      mappages_loop (unat (last - a) div 4096) pgdir a pa perm k)"

text \<open>
  \<^verbatim>\<open>deallocuvm\<close>: the address as a number. An address that would pass the end of the address space wraps
  to 0 in the code, which then goes round for ever.
\<close>

function deallocuvm_loop :: "uint \<Rightarrow> nat \<Rightarrow> nat \<Rightarrow> kmem \<Rightarrow> kmem res" where
  "deallocuvm_loop pgdir a oldsz k =
     (if 2 ^ 32 \<le> a then Inl (Sleeps ''deallocuvm'')
      else if oldsz \<le> a then Inr k
      else
       (case fst (walkpgdir pgdir (of_nat a) False k) of
          None \<Rightarrow> deallocuvm_loop pgdir ((a div 2 ^ 22 + 1) * 2 ^ 22) oldsz k
        | Some pte \<Rightarrow>
           (let e = ld32 (k_mem k) pte in
            if e AND PTE_P \<noteq> 0 then
              if PTE_ADDR e = 0 then Inl (Panic ''kfree'')
              else rbind (kfree (P2V (PTE_ADDR e)) k) (\<lambda>k.
                   deallocuvm_loop pgdir (a + 4096) oldsz (k\<lparr>k_mem := st32 (k_mem k) pte 0\<rparr>))
            else deallocuvm_loop pgdir (a + 4096) oldsz k)))"
  by pat_completeness auto
termination
proof (relation "measure (\<lambda>(pgdir, a, oldsz, k). oldsz - a)", goal_cases)
  case (2 pgdir a oldsz k)
  have "a < (a div 2 ^ 22 + 1) * 2 ^ 22"
    using mult_div_mod_eq [of "2 ^ 22" a] mod_less_divisor [of "2 ^ 22" a] by simp
  with 2 show ?case by auto
qed auto

declare deallocuvm_loop.simps [simp del]

definition deallocuvm :: "uint \<Rightarrow> uint \<Rightarrow> uint \<Rightarrow> kmem \<Rightarrow> (uint \<times> kmem) res" where
  "deallocuvm pgdir oldsz newsz k =
     (if newsz \<ge> oldsz then Inr (oldsz, k)
      else rbind (deallocuvm_loop pgdir (unat (PGROUNDUP newsz)) (unat oldsz) k) (\<lambda>k. Inr (newsz, k)))"

definition freevm :: "uint \<Rightarrow> kmem \<Rightarrow> kmem res" where
  "freevm pgdir k =
     (if pgdir = 0 then Inl (Panic ''freevm: no pgdir'')
      else
        rbind (deallocuvm pgdir KERNBASE 0 k) (\<lambda>(_, k).
        rbind (rfold (\<lambda>i k.
            let e = ld32 (k_mem k) (pgdir + 4 * of_nat i) in
            if e AND PTE_P \<noteq> 0 then kfree (P2V (PTE_ADDR e)) k else Inr k) [0..<1024] k) (\<lambda>k.
        kfree pgdir k)))"

text \<open>The rows of \<^verbatim>\<open>kmap\<close>: virtual address, physical start and end, permissions.\<close>

definition kmap :: "kmem \<Rightarrow> (uint \<times> uint \<times> uint \<times> uint) list" where
  "kmap k =
     [(KERNBASE, 0, EXTMEM, PTE_W),
      (KERNLINK, V2P KERNLINK, V2P (k_data k), 0),
      (k_data k, V2P (k_data k), PHYSTOP, PTE_W),
      (DEVSPACE, DEVSPACE, 0, PTE_W)]"

primrec setupkvm_loop :: "uint \<Rightarrow> (uint \<times> uint \<times> uint \<times> uint) list \<Rightarrow> kmem \<Rightarrow> (uint \<times> kmem) res" where
  "setupkvm_loop pgdir [] k = Inr (pgdir, k)"
| "setupkvm_loop pgdir (e # es) k =
     (case e of (virt, phys_start, phys_end, perm) \<Rightarrow>
      rbind (mappages pgdir virt (phys_end - phys_start) phys_start perm k) (\<lambda>(r, k).
      if r < 0 then rbind (freevm pgdir k) (\<lambda>k. Inr (0, k)) else setupkvm_loop pgdir es k))"

definition setupkvm :: "kmem \<Rightarrow> (uint \<times> kmem) res" where
  "setupkvm k =
     (case kalloc k of (pgdir, k) \<Rightarrow>
        if pgdir = 0 then Inr (0, k)
        else
         (let k = k\<lparr>k_mem := memset (k_mem k) pgdir 0 PGSIZE\<rparr> in
          if P2V PHYSTOP > DEVSPACE then Inl (Panic ''PHYSTOP too high'')
          else setupkvm_loop pgdir (kmap k) k))"

text \<open>\<^verbatim>\<open>kvmalloc\<close> with \<^verbatim>\<open>switchkvm\<close>: the new \<^verbatim>\<open>kpgdir\<close> and the value loaded into CR3.\<close>

definition switchkvm :: "uint \<Rightarrow> uint" where "switchkvm kpgdir = V2P kpgdir"

definition kvmalloc :: "kmem \<Rightarrow> (uint \<times> uint \<times> kmem) res" where
  "kvmalloc k = rbind (setupkvm k) (\<lambda>(kpgdir, k). Inr (kpgdir, switchkvm kpgdir, k))"

text \<open>
  \<^verbatim>\<open>switchuvm\<close> of a process with the given kernel stack and page directory: the stack pointer for traps
  and the value loaded into CR3. A null process is \<^term>\<open>None\<close>.
\<close>

definition switchuvm :: "(uint \<times> uint) option \<Rightarrow> (uint \<times> uint) res" where
  "switchuvm p =
     (case p of
        None \<Rightarrow> Inl (Panic ''switchuvm: no process'')
      | Some (kstack, pgdir) \<Rightarrow>
          if kstack = 0 then Inl (Panic ''switchuvm: no kstack'')
          else if pgdir = 0 then Inl (Panic ''switchuvm: no pgdir'')
          else Inr (kstack + KSTACKSIZE, V2P pgdir))"

definition inituvm :: "uint \<Rightarrow> uchar list \<Rightarrow> kmem \<Rightarrow> kmem res" where
  "inituvm pgdir init k =
     (if length init \<ge> 4096 then Inl (Panic ''inituvm: more than a page'')
      else
       (case kalloc k of (mem, k) \<Rightarrow>
        let k = k\<lparr>k_mem := memset (k_mem k) mem 0 PGSIZE\<rparr> in
        rbind (mappages pgdir 0 PGSIZE (V2P mem) (PTE_W OR PTE_U) k) (\<lambda>(_, k).
        Inr (k\<lparr>k_mem := st_bytes (k_mem k) mem init\<rparr>))))"

text \<open>The loop of \<^verbatim>\<open>allocuvm\<close>; \<^verbatim>\<open>newsz\<close> is below \<^verbatim>\<open>KERNBASE\<close>, so the address does not wrap.\<close>

function allocuvm_loop :: "uint \<Rightarrow> nat \<Rightarrow> uint \<Rightarrow> uint \<Rightarrow> kmem \<Rightarrow> (uint \<times> kmem) res" where
  "allocuvm_loop pgdir a oldsz newsz k =
     (if unat newsz \<le> a then Inr (newsz, k)
      else
       (case kalloc k of (mem, k) \<Rightarrow>
          if mem = 0 then rbind (deallocuvm pgdir newsz oldsz k) (\<lambda>(_, k). Inr (0, k))
          else
            rbind (mappages pgdir (of_nat a) PGSIZE (V2P mem) (PTE_W OR PTE_U)
                     (k\<lparr>k_mem := memset (k_mem k) mem 0 PGSIZE\<rparr>)) (\<lambda>(r, k).
            if r < 0 then
              rbind (deallocuvm pgdir newsz oldsz k) (\<lambda>(_, k).
              rbind (kfree mem k) (\<lambda>k. Inr (0, k)))
            else allocuvm_loop pgdir (a + 4096) oldsz newsz k)))"
  by pat_completeness auto
termination
  by (relation "measure (\<lambda>(pgdir, a, oldsz, newsz, k). unat newsz - a)") auto

declare allocuvm_loop.simps [simp del]

definition allocuvm :: "uint \<Rightarrow> uint \<Rightarrow> uint \<Rightarrow> kmem \<Rightarrow> (uint \<times> kmem) res" where
  "allocuvm pgdir oldsz newsz k =
     (if newsz \<ge> KERNBASE then Inr (0, k)
      else if newsz < oldsz then Inr (oldsz, k)
      else allocuvm_loop pgdir (unat (PGROUNDUP oldsz)) oldsz newsz k)"

definition clearpteu :: "uint \<Rightarrow> uint \<Rightarrow> kmem \<Rightarrow> kmem res" where
  "clearpteu pgdir uva k =
     (case fst (walkpgdir pgdir uva False k) of
        None \<Rightarrow> Inl (Panic ''clearpteu'')
      | Some pte \<Rightarrow> Inr (k\<lparr>k_mem := st32 (k_mem k) pte (ld32 (k_mem k) pte AND NOT PTE_U)\<rparr>))"

text \<open>
  The loop of \<^verbatim>\<open>copyuvm\<close>: the address as a number. It cannot pass the end of the address space: the new
  table has the kernel's mappings, so that \<^verbatim>\<open>mappages\<close> panics at \<^verbatim>\<open>KERNBASE\<close> at the latest.
\<close>

function copyuvm_loop :: "uint \<Rightarrow> uint \<Rightarrow> nat \<Rightarrow> uint \<Rightarrow> kmem \<Rightarrow> (uint \<times> kmem) res" where
  "copyuvm_loop d pgdir i sz k =
     (if unat sz \<le> i then Inr (d, k)
      else
       (case fst (walkpgdir pgdir (of_nat i) False k) of
          None \<Rightarrow> Inl (Panic ''copyuvm: pte should exist'')
        | Some pte \<Rightarrow>
           (let e = ld32 (k_mem k) pte in
            if e AND PTE_P = 0 then Inl (Panic ''copyuvm: page not present'')
            else
             (case kalloc k of (mem, k) \<Rightarrow>
                if mem = 0 then rbind (freevm d k) (\<lambda>k. Inr (0, k))
                else
                  rbind (mappages d (of_nat i) PGSIZE (V2P mem) (PTE_FLAGS e)
                          (k\<lparr>k_mem := memmove (k_mem k) mem (P2V (PTE_ADDR e)) PGSIZE\<rparr>)) (\<lambda>(r, k).
                  if r < 0 then
                    rbind (kfree mem k) (\<lambda>k. rbind (freevm d k) (\<lambda>k. Inr (0, k)))
                  else copyuvm_loop d pgdir (i + 4096) sz k)))))"
  by pat_completeness auto
termination
  by (relation "measure (\<lambda>(d, pgdir, i, sz, k). unat sz - i)") auto

declare copyuvm_loop.simps [simp del]

definition copyuvm :: "uint \<Rightarrow> uint \<Rightarrow> kmem \<Rightarrow> (uint \<times> kmem) res" where
  "copyuvm pgdir sz k =
     rbind (setupkvm k) (\<lambda>(d, k). if d = 0 then Inr (0, k) else copyuvm_loop d pgdir 0 sz k)"

text \<open>\<^verbatim>\<open>uva2ka\<close> reads the entry without looking whether there is one.\<close>

definition uva2ka :: "uint \<Rightarrow> uint \<Rightarrow> kmem \<Rightarrow> uint res" where
  "uva2ka pgdir uva k =
     (case fst (walkpgdir pgdir uva False k) of
        None \<Rightarrow> Inl (BadAccess ''pte'')
      | Some pte \<Rightarrow>
         (let e = ld32 (k_mem k) pte in
          if e AND PTE_P = 0 then Inr 0
          else if e AND PTE_U = 0 then Inr 0
          else Inr (P2V (PTE_ADDR e))))"

lemma page_rest: "0 < 4096 - unat (va - PGROUNDDOWN va)"
proof -
  have "unat (PGROUNDDOWN va) \<le> unat va" unfolding PGROUNDDOWN_unat by (rule div_4096_bounds)
  then have "unat (va - PGROUNDDOWN va) = unat va - unat (PGROUNDDOWN va)"
    by (subst unat_sub) (simp_all add: word_le_nat_alt)
  also have "\<dots> < 4096" unfolding PGROUNDDOWN_unat using div_4096_bounds [of "unat va"] by linarith
  finally show ?thesis by simp
qed

function copyout :: "uint \<Rightarrow> uint \<Rightarrow> uchar list \<Rightarrow> kmem \<Rightarrow> (int \<times> kmem) res" where
  "copyout pgdir va bs k =
     (if bs = [] then Inr (0, k)
      else
       (let va0 = PGROUNDDOWN va in
        rbind (uva2ka pgdir va0 k) (\<lambda>pa0.
        if pa0 = 0 then Inr (- 1, k)
        else
         (let n = min (4096 - unat (va - va0)) (length bs) in
          copyout pgdir (va0 + PGSIZE) (drop n bs)
            (k\<lparr>k_mem := st_bytes (k_mem k) (pa0 + (va - va0)) (take n bs)\<rparr>)))))"
  by pat_completeness auto
termination
  by (relation "measure (\<lambda>(pgdir, va, bs, k). length bs)") (auto simp: page_rest [simplified])

declare copyout.simps [simp del]

end
