(* ===== verification/KPaging.thy ===== *)
theory KPaging
  imports KVm
begin

text \<open>
  Page tables as maps: what the routines of \<^verbatim>\<open>kernel/vm.c\<close> do to an address space.

  \<open>pte\<close> reads the entry of a virtual page number, \<open>pd_ok\<close> says that a page directory and its tables are pages of their
  own and not on the free list. The lemmas show that \<^verbatim>\<open>walkpgdir\<close> changes no entry when it adds a table, that \<^verbatim>\<open>mappages\<close>
  sets the entries of the pages asked for and no other, that \<^verbatim>\<open>setupkvm\<close> builds the mappings of \<^verbatim>\<open>kmap\<close>, and that
  \<^verbatim>\<open>allocuvm\<close> and \<^verbatim>\<open>copyuvm\<close> give a process zeroed pages, or a copy of its memory, that nobody else has.
\<close>

section \<open>Addresses\<close>

text \<open>The number of the page of an address.\<close>

definition vpn :: "uint \<Rightarrow> nat" where
  "vpn va = unat va div 4096"

lemma vpn_less: "vpn va < 1048576"
proof -
  have "unat va < 2 ^ 32" using unsigned_less [of va, where ?'a = nat] by simp
  then show ?thesis by (simp add: vpn_def)
qed

lemma drop_and_3FF: "n < 32 \<Longrightarrow> unat (drop_bit n (x :: uint) AND 0x3FF) = unat x div 2 ^ n mod 1024"
proof -
  have "drop_bit n x AND 0x3FF = take_bit 10 (drop_bit n x)"
    by (simp add: take_bit_eq_mask mask_eq_exp_minus_1)
  then have "unat (drop_bit n x AND 0x3FF) = unat (take_bit 10 (drop_bit n x))" by (rule arg_cong)
  also have "\<dots> = take_bit 10 (drop_bit n (unat x))" by (simp only: unsigned_take_bit_eq unat_drop_bit_eq)
  also have "\<dots> = unat x div 2 ^ n mod 1024" by (simp only: drop_bit_eq_div take_bit_eq_mod) simp
  finally show ?thesis .
qed

lemma unat_PDX: "unat (PDX va) = vpn va div 1024"
proof -
  have "unat va div 2 ^ 22 = vpn va div 1024" by (simp add: vpn_def div_mult2_eq [symmetric])
  then show ?thesis using vpn_less [of va] by (simp add: PDX_def drop_and_3FF)
qed

lemma unat_PTX: "unat (PTX va) = vpn va mod 1024"
  by (simp add: PTX_def drop_and_3FF vpn_def)

lemma PDX_of_nat: "PDX va = of_nat (vpn va div 1024)"
  by (simp flip: unat_PDX)

lemma PTX_of_nat: "PTX va = of_nat (vpn va mod 1024)"
  by (simp flip: unat_PTX)


text \<open>Addresses of pages have no low bits; an entry is such an address with flags in them.\<close>

lemma aligned_bits:
  fixes x :: uint
  shows "unat x mod 4096 = 0 \<longleftrightarrow> (\<forall>n<12. \<not> bit x n)"
proof -
  have "unat (take_bit 12 x) = take_bit 12 (unat x)" by (simp only: unsigned_take_bit_eq)
  then have "unat x mod 4096 = unat (take_bit 12 x)" by (simp only: take_bit_eq_mod) simp
  then have "unat x mod 4096 = 0 \<longleftrightarrow> take_bit 12 x = 0" by (simp add: word_unat_eq_iff)
  also have "\<dots> \<longleftrightarrow> (\<forall>n<12. \<not> bit x n)" by (auto simp: bit_eq_iff bit_take_bit_iff)
  finally show ?thesis .
qed

lemma FFF_mask: "(0xFFF :: uint) = mask 12"
  by (simp add: mask_eq_exp_minus_1)

lemma PTE_ADDR_or:
  assumes "unat x mod 4096 = 0" and "f AND 0xFFF = f"
  shows "PTE_ADDR (x OR f) = x" and "PTE_FLAGS (x OR f) = f"
proof -
  have x: "\<not> bit x n" if "n < 12" for n using assms(1) that unfolding aligned_bits by blast
  have f: "n < 12" if "bit f n" for n
  proof -
    have "bit (f AND 0xFFF) n" using that assms(2) by simp
    then show ?thesis by (simp add: FFF_mask bit_simps)
  qed
  show "PTE_ADDR (x OR f) = x"
    unfolding PTE_ADDR_def FFF_mask
  proof (rule bit_word_eqI)
    fix n assume "n < LENGTH(32)"
    then show "bit ((x OR f) AND NOT (mask 12)) n = bit x n" using x [of n] f [of n] by (cases "n < 12") (auto simp: bit_simps)
  qed
  show "PTE_FLAGS (x OR f) = f"
    unfolding PTE_FLAGS_def FFF_mask
  proof (rule bit_word_eqI)
    fix n assume "n < LENGTH(32)"
    then show "bit ((x OR f) AND mask 12) n = bit f n" using x [of n] f [of n] by (cases "n < 12") (auto simp: bit_simps)
  qed
qed

lemma PTE_ADDR_aligned: "unat (PTE_ADDR e) mod 4096 = 0"
  unfolding aligned_bits PTE_ADDR_def FFF_mask by (simp add: bit_simps)

lemma PTE_split: "PTE_ADDR e OR PTE_FLAGS e = e"
  unfolding PTE_ADDR_def PTE_FLAGS_def by (rule bit_word_eqI) (auto simp: bit_simps)

lemma P2V_V2P [simp]: "P2V (V2P x) = x" "V2P (P2V x) = x"
  by (simp_all add: P2V_def V2P_def)

lemma V2P_aligned: "unat (V2P x) mod 4096 = 0 \<longleftrightarrow> unat x mod 4096 = 0"
proof -
  have e: "unat (V2P x) = (if 0x80000000 \<le> unat x then unat x - 0x80000000 else unat x + 0x80000000)"
    by (simp add: V2P_def unat_sub_if')
  have p: "(c + 4096 * 524288) mod 4096 = c mod 4096" for c :: nat by (rule mod_mult_self2)
  show ?thesis
  proof (cases "0x80000000 \<le> unat x")
    case True
    then show ?thesis using e p [of "unat x - 0x80000000"] by simp
  next
    case False
    then show ?thesis using e p [of "unat x"] by simp
  qed
qed


section \<open>Entries\<close>

text \<open>Entry \<open>i\<close> of the table in page \<open>p\<close>.\<close>

definition ent :: "mem \<Rightarrow> uint \<Rightarrow> nat \<Rightarrow> uint" where
  "ent m p i = ld32 m (p + 4 * of_nat i)"

lemma unat_slot:
  assumes "i < 1024" and "r < (4 :: uint)"
  shows "unat (4 * of_nat i + r) = 4 * i + unat r"
proof -
  have "unat r < 4" using assms(2) by (simp add: word_less_nat_alt)
  then show ?thesis using assms(1) by (simp add: unat_word_ariths unat_of_nat)
qed

lemma slot_in_page: "i < 1024 \<Longrightarrow> r < (4 :: uint) \<Longrightarrow> in_page p (p + 4 * of_nat i + r)"
proof -
  assume i: "i < 1024" and r: "r < (4 :: uint)"
  have "unat r < 4" using r by (simp add: word_less_nat_alt)
  moreover have "p + 4 * of_nat i + r - p = 4 * of_nat i + r" by simp
  ultimately show ?thesis using i unat_slot [OF i r] by (simp add: in_page_def)
qed

lemma slot_apart:
  assumes "i < 1024" and "j < 1024" and "i \<noteq> j" and "r < (4 :: uint)"
  shows "4 \<le> unat (p + 4 * of_nat j + r - (p + 4 * of_nat i))"
proof -
  have r: "unat r < 4" using assms(4) by (simp add: word_less_nat_alt)
  have e: "p + 4 * of_nat j + r - (p + 4 * of_nat i) = (4 * of_nat j + r) - 4 * of_nat i" by simp
  have s: "unat (4 * of_nat j + r) = 4 * j + unat r" "unat (4 * of_nat i :: uint) = 4 * i"
    using unat_slot [OF assms(2,4)] unat_slot [OF assms(1), of 0] by simp_all
  show ?thesis
  proof (cases "i < j")
    case True
    then show ?thesis unfolding e unat_sub_if' s by simp
  next
    case False
    then show ?thesis unfolding e unat_sub_if' s using assms(1,3) r by simp
  qed
qed

lemma ent_st32:
  assumes "i < 1024" and "j < 1024"
  shows "ent (st32 m (p + 4 * of_nat i) v) p j = (if i = j then v else ent m p j)"
proof (cases "i = j")
  case False
  have "ld32 (st32 m (p + 4 * of_nat i) v) (p + 4 * of_nat j) = ld32 m (p + 4 * of_nat j)"
    by (rule ld32_cong, rule st32_other, rule slot_apart [OF assms False])
  with False show ?thesis by (simp add: ent_def)
qed (simp add: ent_def)

lemma st32_in_page: "i < 1024 \<Longrightarrow> \<not> in_page p a \<Longrightarrow> st32 m (p + 4 * of_nat i) v a = m a"
  using slot_in_page [of i 0 p] slot_in_page [of i 1 p] slot_in_page [of i 2 p] slot_in_page [of i 3 p]
  by (auto simp: st32_def)

text \<open>A table does not see what happens in other pages.\<close>

lemma ent_other:
  assumes "\<And>a. in_page p a \<Longrightarrow> m' a = m a" and "i < 1024"
  shows "ent m' p i = ent m p i"
  unfolding ent_def by (rule ld32_cong) (use assms slot_in_page in blast)

lemma page_apart:
  assumes "unat p mod 4096 = 0" and "unat q mod 4096 = 0" and "p \<noteq> q" and "in_page p a"
  shows "\<not> in_page q a"
  using page_unique [of p q a] assms by auto

lemma memset_page: "memset m p c PGSIZE a = (if in_page p a then ucast c else m a)"
  by (simp add: memset_stosb stosb_apply in_page_def)

lemma ent_memset: "i < 1024 \<Longrightarrow> ent (memset m p 0 PGSIZE) p i = 0"
  using slot_in_page [of i 0 p] slot_in_page [of i 1 p] slot_in_page [of i 2 p] slot_in_page [of i 3 p]
  by (simp add: ent_def ld32_def memset_page)


section \<open>Page tables\<close>

abbreviation present :: "uint \<Rightarrow> bool" where
  "present e \<equiv> e AND PTE_P \<noteq> 0"

text \<open>The page of table \<open>i\<close>, and the entry of virtual page \<open>n\<close>; an absent table has no present entries.\<close>

definition ptab :: "mem \<Rightarrow> uint \<Rightarrow> nat \<Rightarrow> uint" where
  "ptab m pgdir i = P2V (PTE_ADDR (ent m pgdir i))"

definition pte :: "mem \<Rightarrow> uint \<Rightarrow> nat \<Rightarrow> uint" where
  "pte m pgdir n = (if present (ent m pgdir (n div 1024)) then ent m (ptab m pgdir (n div 1024)) (n mod 1024) else 0)"

definition tables :: "mem \<Rightarrow> uint \<Rightarrow> uint set" where
  "tables m pgdir = insert pgdir (ptab m pgdir ` {i. i < 1024 \<and> present (ent m pgdir i)})"

text \<open>
  A page directory and its tables: pages of physical memory, different from each other and not free. \<open>xs\<close> are the free
  pages.
\<close>

definition pd_ok :: "kmem \<Rightarrow> uint \<Rightarrow> uint list \<Rightarrow> bool" where
  "pd_ok k pgdir xs \<longleftrightarrow> kmem_ok k xs \<and> (\<forall>v\<in>tables (k_mem k) pgdir. page_ok (k_end k) v \<and> v \<notin> set xs)
     \<and> (\<forall>i<1024. present (ent (k_mem k) pgdir i) \<longrightarrow> ptab (k_mem k) pgdir i \<noteq> pgdir)
     \<and> (\<forall>i<1024. \<forall>j<1024. present (ent (k_mem k) pgdir i) \<longrightarrow> present (ent (k_mem k) pgdir j) \<longrightarrow>
          ptab (k_mem k) pgdir i = ptab (k_mem k) pgdir j \<longrightarrow> i = j)"

text \<open>The tables that are still missing: a bound on the pages that mapping can need.\<close>

definition absent :: "mem \<Rightarrow> uint \<Rightarrow> nat" where
  "absent m pgdir = card {i. i < 1024 \<and> \<not> present (ent m pgdir i)}"

text \<open>Between two states only the memory in the pages \<open>P\<close> has changed.\<close>

definition only :: "uint set \<Rightarrow> kmem \<Rightarrow> kmem \<Rightarrow> bool" where
  "only P k k' \<longleftrightarrow> k_end k' = k_end k \<and> k_data k' = k_data k
     \<and> (\<forall>a. (\<forall>v\<in>P. \<not> in_page v a) \<longrightarrow> k_mem k' a = k_mem k a)"

lemma only_refl [simp]: "only P k k"
  by (simp add: only_def)

lemma only_trans: "only P k k' \<Longrightarrow> only P k' k'' \<Longrightarrow> only P k k''"
  by (auto simp: only_def)

lemma only_mono: "only P k k' \<Longrightarrow> P \<subseteq> Q \<Longrightarrow> only Q k k'"
  by (auto simp: only_def)

lemma only_outside:
  assumes "only P k k'" and "\<And>v. v \<in> P \<Longrightarrow> unat v mod 4096 = 0" and "unat x mod 4096 = 0" and "x \<notin> P" and "in_page x a"
  shows "k_mem k' a = k_mem k a"
proof -
  have "\<not> in_page v a" if "v \<in> P" for v using page_apart [OF assms(3) assms(2) [OF that] _ assms(5)] assms(4) that by blast
  then show ?thesis using assms(1) by (simp add: only_def)
qed

lemma pd_okD:
  assumes "pd_ok k pgdir xs"
  shows "kmem_ok k xs" and "page_ok (k_end k) pgdir" and "unat pgdir mod 4096 = 0" and "pgdir \<notin> set xs"
  using assms by (auto simp: pd_ok_def tables_def page_ok_def)

lemma pd_ok_tab:
  assumes "pd_ok k pgdir xs" and "i < 1024" and "present (ent (k_mem k) pgdir i)"
  shows "page_ok (k_end k) (ptab (k_mem k) pgdir i)" and "unat (ptab (k_mem k) pgdir i) mod 4096 = 0"
    and "ptab (k_mem k) pgdir i \<notin> set xs" and "ptab (k_mem k) pgdir i \<noteq> pgdir"
  using assms by (auto simp: pd_ok_def tables_def page_ok_def)

text \<open>Changes outside the tables are not seen.\<close>

lemma pd_same:
  assumes ok: "pd_ok k pgdir xs" and e: "k_end k' = k_end k"
    and m: "\<forall>v\<in>tables (k_mem k) pgdir. \<forall>a. in_page v a \<longrightarrow> k_mem k' a = k_mem k a"
  shows "i < 1024 \<Longrightarrow> ent (k_mem k') pgdir i = ent (k_mem k) pgdir i" and "tables (k_mem k') pgdir = tables (k_mem k) pgdir"
    and "n < 1048576 \<Longrightarrow> pte (k_mem k') pgdir n = pte (k_mem k) pgdir n" and "absent (k_mem k') pgdir = absent (k_mem k) pgdir"
    and "kmem_ok k' ys \<Longrightarrow> set ys \<subseteq> set xs \<Longrightarrow> pd_ok k' pgdir ys"
proof -
  have d: "pgdir \<in> tables (k_mem k) pgdir" by (simp add: tables_def)
  have en: "ent (k_mem k') pgdir i = ent (k_mem k) pgdir i" if "i < 1024" for i
    by (rule ent_other [OF _ that]) (use m d in blast)
  then show "i < 1024 \<Longrightarrow> ent (k_mem k') pgdir i = ent (k_mem k) pgdir i" .
  have pt: "ptab (k_mem k') pgdir i = ptab (k_mem k) pgdir i" if "i < 1024" for i
    using en [OF that] by (simp add: ptab_def)
  have s: "{i. i < 1024 \<and> present (ent (k_mem k') pgdir i)} = {i. i < 1024 \<and> present (ent (k_mem k) pgdir i)}"
    using en by auto
  show t: "tables (k_mem k') pgdir = tables (k_mem k) pgdir" using pt by (auto simp: tables_def s)
  show "absent (k_mem k') pgdir = absent (k_mem k) pgdir" using en by (auto simp: absent_def intro: arg_cong [where f = card])
  show "pte (k_mem k') pgdir n = pte (k_mem k) pgdir n" if n: "n < 1048576"
  proof -
    have i: "n div 1024 < 1024" using n by simp
    show ?thesis
    proof (cases "present (ent (k_mem k) pgdir (n div 1024))")
      case True
      then have "ptab (k_mem k) pgdir (n div 1024) \<in> tables (k_mem k) pgdir" using i by (auto simp: tables_def)
      then have "ent (k_mem k') (ptab (k_mem k) pgdir (n div 1024)) (n mod 1024) = ent (k_mem k) (ptab (k_mem k) pgdir (n div 1024)) (n mod 1024)"
        by (intro ent_other) (use m in auto)
      then show ?thesis using en [OF i] pt [OF i] by (simp add: pte_def)
    qed (simp add: pte_def en [OF i])
  qed
  show "kmem_ok k' ys \<Longrightarrow> set ys \<subseteq> set xs \<Longrightarrow> pd_ok k' pgdir ys"
    using ok en pt unfolding pd_ok_def t e by auto
qed


lemma kmem_ok_only:
  assumes ok: "kmem_ok k xs" and o: "only P k k'" and f: "freelist k' = freelist k"
    and P: "\<And>v. v \<in> P \<Longrightarrow> unat v mod 4096 = 0 \<and> v \<notin> set xs"
  shows "kmem_ok k' xs"
proof -
  have al: "\<And>x. x \<in> set xs \<Longrightarrow> unat x mod 4096 = 0" using ok by (auto simp: kmem_ok_def page_ok_def)
  have "ld32 (k_mem k') x = ld32 (k_mem k) x" if x: "x \<in> set xs" for x
  proof (rule ld32_cong)
    fix i :: uint assume "i < 4"
    then have "in_page x (x + i)" by (intro in_page_offset) (auto simp: word_less_nat_alt)
    then have "\<not> in_page v (x + i)" if "v \<in> P" for v
      using page_unique [of v x "x + i"] P [OF that] al [OF x] x by auto
    then show "k_mem k' (x + i) = k_mem k (x + i)" using o by (simp add: only_def)
  qed
  then have "free_chain (k_mem k') (freelist k) xs = free_chain (k_mem k) (freelist k) xs" by (rule free_chain_cong)
  then show ?thesis using ok o f by (simp add: kmem_ok_def only_def)
qed

text \<open>A new table in the free page \<open>x\<close> for directory entry \<open>i\<close>.\<close>

definition new_table :: "uint \<Rightarrow> nat \<Rightarrow> uint \<Rightarrow> kmem \<Rightarrow> kmem" where
  "new_table pgdir i x k = k\<lparr>freelist := ld32 (k_mem k) x,
     k_mem := st32 (memset (k_mem k) x 0 PGSIZE) (pgdir + 4 * of_nat i) (V2P x OR PTE_P OR PTE_W OR PTE_U)\<rparr>"

lemma new_table_mem:
  assumes "i < 1024" and "\<not> in_page pgdir a"
  shows "k_mem (new_table pgdir i x k) a = (if in_page x a then 0 else k_mem k a)"
  using assms by (simp add: new_table_def st32_in_page memset_page)

lemma table_entry:
  assumes "unat x mod 4096 = 0"
  shows "P2V (PTE_ADDR (V2P x OR PTE_P OR PTE_W OR PTE_U)) = x" and "present (V2P x OR PTE_P OR PTE_W OR PTE_U)"
proof -
  have "PTE_ADDR (V2P x OR (PTE_P OR PTE_W OR PTE_U)) = V2P x"
    by (rule PTE_ADDR_or) (use assms V2P_aligned in auto)
  then show "P2V (PTE_ADDR (V2P x OR PTE_P OR PTE_W OR PTE_U)) = x" by (simp add: or.assoc)
  have "bit (V2P x OR PTE_P OR PTE_W OR PTE_U) 0" by (simp add: bit_simps)
  then show "present (V2P x OR PTE_P OR PTE_W OR PTE_U)"
    by (metis and_exp_eq_0_iff_not_bit bit.conj_one_right power_0 and.right_neutral)
qed

lemma new_table_entries:
  assumes ok: "pd_ok k pgdir (x # ys)" and i: "i < 1024" and ab: "\<not> present (ent (k_mem k) pgdir i)"
  defines "k' \<equiv> new_table pgdir i x k"
  shows "j < 1024 \<Longrightarrow> ent (k_mem k') pgdir j = (if j = i then V2P x OR PTE_P OR PTE_W OR PTE_U else ent (k_mem k) pgdir j)"
    and "present (ent (k_mem k') pgdir i)" and "ptab (k_mem k') pgdir i = x"
    and "j < 1024 \<Longrightarrow> j \<noteq> i \<Longrightarrow> ptab (k_mem k') pgdir j = ptab (k_mem k) pgdir j"
    and "only {pgdir, x} k k'" and "tables (k_mem k') pgdir = insert x (tables (k_mem k) pgdir)"
    and "absent (k_mem k) pgdir = Suc (absent (k_mem k') pgdir)" and "unat x mod 4096 = 0" and "x \<noteq> pgdir"
proof -
  note D = pd_okD [OF ok]
  show x: "unat x mod 4096 = 0" and xp: "x \<noteq> pgdir" using D by (auto simp: kmem_ok_def page_ok_def)
  have en: "ent (k_mem k') pgdir j = (if j = i then V2P x OR PTE_P OR PTE_W OR PTE_U else ent (k_mem k) pgdir j)" if j: "j < 1024" for j
  proof -
    have "ent (memset (k_mem k) x 0 PGSIZE) pgdir j = ent (k_mem k) pgdir j"
      by (rule ent_other [OF _ j]) (use page_apart [OF D(3) x] xp in \<open>auto simp: memset_page\<close>)
    then show ?thesis using j i by (simp add: k'_def new_table_def ent_st32)
  qed
  then show "j < 1024 \<Longrightarrow> ent (k_mem k') pgdir j = (if j = i then V2P x OR PTE_P OR PTE_W OR PTE_U else ent (k_mem k) pgdir j)" .
  show p: "present (ent (k_mem k') pgdir i)" using en [OF i] table_entry(2) [OF x] by simp
  show t: "ptab (k_mem k') pgdir i = x" using en [OF i] table_entry(1) [OF x] by (simp add: ptab_def)
  have pt: "ptab (k_mem k') pgdir j = ptab (k_mem k) pgdir j" if "j < 1024" "j \<noteq> i" for j using en that by (simp add: ptab_def)
  then show "j < 1024 \<Longrightarrow> j \<noteq> i \<Longrightarrow> ptab (k_mem k') pgdir j = ptab (k_mem k) pgdir j" .
  show "only {pgdir, x} k k'" using new_table_mem [OF i] by (auto simp: only_def k'_def) (simp_all add: new_table_def)
  let ?S = "\<lambda>k. {j. j < 1024 \<and> present (ent (k_mem k) pgdir j)}"
  have S: "?S k' = insert i (?S k)" using en p i by (auto split: if_splits)
  have "ptab (k_mem k') pgdir ` ?S k = ptab (k_mem k) pgdir ` ?S k" by (rule image_cong) (use pt ab in auto)
  then show "tables (k_mem k') pgdir = insert x (tables (k_mem k) pgdir)"
    unfolding tables_def S using t by auto
  have "{j. j < 1024 \<and> \<not> present (ent (k_mem k) pgdir j)} = insert i {j. j < 1024 \<and> \<not> present (ent (k_mem k') pgdir j)}"
    using en p i ab by (auto split: if_splits)
  then show "absent (k_mem k) pgdir = Suc (absent (k_mem k') pgdir)" using p by (simp add: absent_def)
qed

lemma new_table_pte:
  assumes ok: "pd_ok k pgdir (x # ys)" and i: "i < 1024" and ab: "\<not> present (ent (k_mem k) pgdir i)" and n: "n < 1048576"
  shows "pte (k_mem (new_table pgdir i x k)) pgdir n = pte (k_mem k) pgdir n"
proof -
  let ?k = "new_table pgdir i x k"
  note E = new_table_entries [OF ok i ab] and D = pd_okD [OF ok]
  have j: "n div 1024 < 1024" "n mod 1024 < 1024" using n by simp_all
  show ?thesis
  proof (cases "n div 1024 = i")
    case True
    have "ent (k_mem ?k) x (n mod 1024) = ent (memset (k_mem k) x 0 PGSIZE) x (n mod 1024)"
      by (rule ent_other [OF _ j(2)]) (use page_apart [OF E(8) D(3) E(9)] i in \<open>auto simp: new_table_def st32_in_page\<close>)
    then show ?thesis using True E(2,3) ab j by (simp add: pte_def ent_memset)
  next
    case False
    show ?thesis
    proof (cases "present (ent (k_mem k) pgdir (n div 1024))")
      case True
      note T = pd_ok_tab [OF ok j(1) True]
      have "ptab (k_mem k) pgdir (n div 1024) \<noteq> x" using T(3) by auto
      then have "ent (k_mem ?k) (ptab (k_mem k) pgdir (n div 1024)) (n mod 1024) = ent (k_mem k) (ptab (k_mem k) pgdir (n div 1024)) (n mod 1024)"
        by (intro ent_other [OF _ j(2)])
          (use E(5) page_apart [OF T(2) D(3) T(4)] page_apart [OF T(2) E(8)] in \<open>auto simp: only_def\<close>)
      then show ?thesis using False E(1) [OF j(1)] E(4) [OF j(1)] by (simp add: pte_def)
    qed (use False E(1) [OF j(1)] in \<open>simp add: pte_def\<close>)
  qed
qed

lemma new_table_ok:
  assumes ok: "pd_ok k pgdir (x # ys)" and i: "i < 1024" and ab: "\<not> present (ent (k_mem k) pgdir i)"
  shows "pd_ok (new_table pgdir i x k) pgdir ys"
proof -
  let ?k = "new_table pgdir i x k"
  note E = new_table_entries [OF ok i ab] and D = pd_okD [OF ok]
  have x: "page_ok (k_end k) x" "x \<notin> set ys" using D(1) by (auto simp: kmem_ok_def)
  have km: "kmem_ok ?k ys"
  proof (rule kmem_ok_only)
    show "kmem_ok (k\<lparr>freelist := ld32 (k_mem k) x\<rparr>) ys" using D(1) by (auto simp: kmem_ok_def)
    show "only {pgdir, x} (k\<lparr>freelist := ld32 (k_mem k) x\<rparr>) ?k" using E(5) by (simp add: only_def)
  qed (use D x E(8) in \<open>auto simp: new_table_def\<close>)
  have xt: "ptab (k_mem k) pgdir j \<noteq> x" if "j < 1024" "present (ent (k_mem k) pgdir j)" for j
    using pd_ok_tab(3) [OF ok that] by simp
  have old: "present (ent (k_mem ?k) pgdir j) \<Longrightarrow> j \<noteq> i \<Longrightarrow> present (ent (k_mem k) pgdir j)" if "j < 1024" for j
    using E(1) [OF that] by simp
  have "ptab (k_mem ?k) pgdir j \<noteq> pgdir" if j: "j < 1024" "present (ent (k_mem ?k) pgdir j)" for j
    using E(3,9) E(4) [OF j(1)] old [OF j] pd_ok_tab(4) [OF ok j(1)] by (cases "j = i") auto
  moreover have "a = b" if ab: "a < 1024" "b < 1024" "present (ent (k_mem ?k) pgdir a)" "present (ent (k_mem ?k) pgdir b)"
    "ptab (k_mem ?k) pgdir a = ptab (k_mem ?k) pgdir b" for a b
  proof (rule ccontr)
    assume ne: "a \<noteq> b"
    consider "a = i" | "b = i" | "a \<noteq> i" "b \<noteq> i" by blast
    then show False
    proof cases
      case 1
      then show ?thesis using ne ab E(3) E(4) [OF ab(2)] xt [OF ab(2)] old [OF ab(2,4)] by auto
    next
      case 2
      then show ?thesis using ne ab E(3) E(4) [OF ab(1)] xt [OF ab(1)] old [OF ab(1,3)] by auto
    next
      case 3
      then show ?thesis using ne ab E(4) [OF ab(1)] E(4) [OF ab(2)] old [OF ab(1,3)] old [OF ab(2,4)] ok unfolding pd_ok_def by metis
    qed
  qed
  moreover have "k_end ?k = k_end k" using E(5) by (simp add: only_def)
  ultimately show ?thesis using km ok x unfolding pd_ok_def E(6) by auto
qed


section \<open>Walking and mapping\<close>

text \<open>Where the entry of page \<open>n\<close> is.\<close>

definition slot :: "mem \<Rightarrow> uint \<Rightarrow> nat \<Rightarrow> uint" where
  "slot m pgdir n = ptab m pgdir (n div 1024) + 4 * of_nat (n mod 1024)"

text \<open>
  The entries of the directory are now \<open>g\<close>. Some free pages, the first ones of the list, may have become tables; the
  memory changed is that of the tables.
\<close>

definition became :: "kmem \<Rightarrow> uint \<Rightarrow> uint list \<Rightarrow> (nat \<Rightarrow> uint) \<Rightarrow> kmem \<Rightarrow> uint list \<Rightarrow> bool" where
  "became k pgdir xs g k' xs' \<longleftrightarrow> pd_ok k' pgdir xs' \<and> (\<forall>n<1048576. pte (k_mem k') pgdir n = g n)
     \<and> only (tables (k_mem k') pgdir) k k'
     \<and> (\<exists>zs. xs = zs @ xs' \<and> tables (k_mem k') pgdir = tables (k_mem k) pgdir \<union> set zs
          \<and> absent (k_mem k) pgdir = absent (k_mem k') pgdir + length zs)"

lemma became_trans:
  assumes "became k pgdir xs g k' xs'" and "became k' pgdir xs' h k'' xs''"
  shows "became k pgdir xs h k'' xs''"
proof -
  from assms obtain zs ys where z: "xs = zs @ xs'" "tables (k_mem k') pgdir = tables (k_mem k) pgdir \<union> set zs"
    "absent (k_mem k) pgdir = absent (k_mem k') pgdir + length zs"
    and y: "xs' = ys @ xs''" "tables (k_mem k'') pgdir = tables (k_mem k') pgdir \<union> set ys"
    "absent (k_mem k') pgdir = absent (k_mem k'') pgdir + length ys" by (auto simp: became_def)
  have "only (tables (k_mem k'') pgdir) k k'" by (rule only_mono) (use assms(1) y(2) in \<open>auto simp: became_def\<close>)
  moreover have "only (tables (k_mem k'') pgdir) k' k''" using assms(2) by (simp add: became_def)
  ultimately have "only (tables (k_mem k'') pgdir) k k''" by (rule only_trans)
  then show ?thesis using assms(2) z y unfolding became_def by (intro conjI exI [of _ "zs @ ys"]) auto
qed

lemma became_cong: "became k pgdir xs g k' xs' \<Longrightarrow> (\<And>n. n < 1048576 \<Longrightarrow> g n = h n) \<Longrightarrow> became k pgdir xs h k' xs'"
  by (auto simp: became_def)

lemma became_refl: "pd_ok k pgdir xs \<Longrightarrow> became k pgdir xs (pte (k_mem k) pgdir) k xs"
  by (auto simp: became_def)

lemma walk_there:
  "present (ent (k_mem k) pgdir (vpn va div 1024)) \<Longrightarrow> walkpgdir pgdir va al k = (Some (slot (k_mem k) pgdir (vpn va)), k)"
  by (simp add: walkpgdir_def Let_def PDX_of_nat PTX_of_nat ent_def ptab_def slot_def)

lemma walk_not_there:
  "\<not> present (ent (k_mem k) pgdir (vpn va div 1024)) \<Longrightarrow> walkpgdir pgdir va False k = (None, k)"
  by (simp add: walkpgdir_def Let_def PDX_of_nat ent_def)

lemma walk_new:
  assumes ok: "pd_ok k pgdir (x # ys)" and ab: "\<not> present (ent (k_mem k) pgdir (vpn va div 1024))"
  shows "walkpgdir pgdir va True k
    = (Some (slot (k_mem (new_table pgdir (vpn va div 1024) x k)) pgdir (vpn va)), new_table pgdir (vpn va div 1024) x k)"
proof -
  have i: "vpn va div 1024 < 1024" using vpn_less [of va] by simp
  have ka: "kalloc k = (x, k\<lparr>freelist := ld32 (k_mem k) x\<rparr>)" using kalloc_ok(1) [OF pd_okD(1) [OF ok]] by simp
  have "x \<noteq> 0" by (rule page_nonzero [of "k_end k"]) (use pd_okD(1) [OF ok] in \<open>simp add: kmem_ok_def\<close>)
  then show ?thesis
    using ab ka new_table_entries(3) [OF ok i ab]
    by (simp add: walkpgdir_def Let_def PDX_of_nat PTX_of_nat ent_def slot_def new_table_def)
qed

lemma walk_ok:
  assumes ok: "pd_ok k pgdir xs"
  obtains "walkpgdir pgdir va True k = (None, k)" and "xs = []" and "0 < absent (k_mem k) pgdir"
  | k' xs' where "walkpgdir pgdir va True k = (Some (slot (k_mem k') pgdir (vpn va)), k')" and "became k pgdir xs (pte (k_mem k) pgdir) k' xs'"
    and "present (ent (k_mem k') pgdir (vpn va div 1024))"
proof (cases "present (ent (k_mem k) pgdir (vpn va div 1024))")
  case True
  from became_refl [OF ok] walk_there [OF True] True show ?thesis by (intro that(2))
next
  case False
  have i: "vpn va div 1024 < 1024" using vpn_less [of va] by simp
  show ?thesis
  proof (cases xs)
    case Nil
    have "kalloc k = (0, k)" using kalloc_ok(1) [OF pd_okD(1) [OF ok]] Nil by simp
    then have "walkpgdir pgdir va True k = (None, k)" using False by (simp add: walkpgdir_def Let_def PDX_of_nat ent_def)
    moreover have "0 < absent (k_mem k) pgdir" using i False by (auto simp: absent_def card_gt_0_iff)
    ultimately show ?thesis using Nil by (intro that(1))
  next
    case (Cons x ys)
    note ok' = ok [unfolded Cons]
    note E = new_table_entries [OF ok' i False]
    have "became k pgdir xs (pte (k_mem k) pgdir) (new_table pgdir (vpn va div 1024) x k) ys"
      unfolding became_def
    proof (intro conjI allI impI exI [of _ "[x]"])
      show "only (tables (k_mem (new_table pgdir (vpn va div 1024) x k)) pgdir) k (new_table pgdir (vpn va div 1024) x k)"
        by (rule only_mono [OF E(5)]) (auto simp: E(6), simp add: tables_def)
    qed (use new_table_ok [OF ok' i False] new_table_pte [OF ok' i False] E(6,7) Cons in auto)
    with walk_new [OF ok' False] E(2) show ?thesis by (intro that(2))
  qed
qed

text \<open>Setting the entry of page \<open>n\<close>.\<close>

definition set_pte :: "uint \<Rightarrow> nat \<Rightarrow> uint \<Rightarrow> kmem \<Rightarrow> kmem" where
  "set_pte pgdir n v k = k\<lparr>k_mem := st32 (k_mem k) (slot (k_mem k) pgdir n) v\<rparr>"

lemma set_pte_frame:
  fixes v :: uint
  assumes ok: "pd_ok k pgdir xs" and n: "n < 1048576" and p: "present (ent (k_mem k) pgdir (n div 1024))"
  defines "k' \<equiv> set_pte pgdir n v k"
  shows "\<not> in_page (ptab (k_mem k) pgdir (n div 1024)) a \<Longrightarrow> k_mem k' a = k_mem k a"
    and "j < 1024 \<Longrightarrow> ent (k_mem k') pgdir j = ent (k_mem k) pgdir j"
    and "pd_ok k' pgdir xs" and "tables (k_mem k') pgdir = tables (k_mem k) pgdir"
    and "absent (k_mem k') pgdir = absent (k_mem k) pgdir" and "only (tables (k_mem k) pgdir) k k'"
proof -
  have i: "n div 1024 < 1024" "n mod 1024 < 1024" using n by simp_all
  let ?T = "ptab (k_mem k) pgdir (n div 1024)"
  note T = pd_ok_tab [OF ok i(1) p] and D = pd_okD [OF ok]
  have T1: "?T \<in> tables (k_mem k) pgdir" using i p by (auto simp: tables_def)
  have m: "k_mem k' a = k_mem k a" if "\<not> in_page ?T a" for a
    using st32_in_page [OF i(2) that] by (simp add: k'_def set_pte_def slot_def)
  then show "\<not> in_page ?T a \<Longrightarrow> k_mem k' a = k_mem k a" .
  have en: "ent (k_mem k') pgdir j = ent (k_mem k) pgdir j" if j: "j < 1024" for j
    by (rule ent_other [OF _ j]) (use m page_apart [OF D(3) T(2)] T(4) in auto)
  then show "j < 1024 \<Longrightarrow> ent (k_mem k') pgdir j = ent (k_mem k) pgdir j" .
  have pt: "ptab (k_mem k') pgdir j = ptab (k_mem k) pgdir j" if "j < 1024" for j using en that by (simp add: ptab_def)
  have S: "{j. j < 1024 \<and> present (ent (k_mem k') pgdir j)} = {j. j < 1024 \<and> present (ent (k_mem k) pgdir j)}" using en by auto
  show tb: "tables (k_mem k') pgdir = tables (k_mem k) pgdir" unfolding tables_def S using pt by auto
  show "absent (k_mem k') pgdir = absent (k_mem k) pgdir" using en by (auto simp: absent_def intro: arg_cong [where f = card])
  show o: "only (tables (k_mem k) pgdir) k k'"
    using m T1 by (auto simp: only_def) (simp_all add: k'_def set_pte_def)
  have e: "k_end k' = k_end k" "freelist k' = freelist k" by (simp_all add: k'_def set_pte_def)
  have "kmem_ok k' xs" by (rule kmem_ok_only [OF D(1) o e(2)]) (use ok in \<open>auto simp: pd_ok_def page_ok_def\<close>)
  then show "pd_ok k' pgdir xs" using ok en pt unfolding pd_ok_def tb e by auto
qed

lemma set_pte_pte:
  assumes ok: "pd_ok k pgdir xs" and n: "n < 1048576" and p: "present (ent (k_mem k) pgdir (n div 1024))" and q: "q < 1048576"
  shows "pte (k_mem (set_pte pgdir n v k)) pgdir q = (if q = n then v else pte (k_mem k) pgdir q)"
proof -
  have i: "n div 1024 < 1024" "n mod 1024 < 1024" and j: "q div 1024 < 1024" "q mod 1024 < 1024" using n q by simp_all
  let ?T = "ptab (k_mem k) pgdir (n div 1024)"
  note F = set_pte_frame [where v = v, OF ok n p]
  have pt: "ptab (k_mem (set_pte pgdir n v k)) pgdir (q div 1024) = ptab (k_mem k) pgdir (q div 1024)"
    using F(2) [OF j(1)] by (simp add: ptab_def)
  show ?thesis
  proof (cases "q div 1024 = n div 1024")
    case True
    then have "q = n \<longleftrightarrow> n mod 1024 = q mod 1024" by (metis mult_div_mod_eq)
    moreover have "ent (k_mem (set_pte pgdir n v k)) ?T (q mod 1024) = (if n mod 1024 = q mod 1024 then v else ent (k_mem k) ?T (q mod 1024))"
      using ent_st32 [OF i(2) j(2), of "k_mem k" ?T v] by (simp add: set_pte_def slot_def)
    ultimately show ?thesis using True p F(2) [OF j(1)] pt by (simp add: pte_def)
  next
    case False
    show ?thesis
    proof (cases "present (ent (k_mem k) pgdir (q div 1024))")
      case True
      have "ptab (k_mem k) pgdir (q div 1024) \<noteq> ?T" using ok False True p i(1) j(1) unfolding pd_ok_def by metis
      from page_apart [OF pd_ok_tab(2) [OF ok j(1) True] pd_ok_tab(2) [OF ok i(1) p] this]
      have "ent (k_mem (set_pte pgdir n v k)) (ptab (k_mem k) pgdir (q div 1024)) (q mod 1024)
          = ent (k_mem k) (ptab (k_mem k) pgdir (q div 1024)) (q mod 1024)"
        by (intro ent_other [OF _ j(2)]) (use F(1) in auto)
      then show ?thesis using False F(2) [OF j(1)] pt by (auto simp: pte_def)
    qed (use False F(2) [OF j(1)] in \<open>auto simp: pte_def\<close>)
  qed
qed

lemma set_pte_ok:
  assumes "pd_ok k pgdir xs" and "n < 1048576" and "present (ent (k_mem k) pgdir (n div 1024))"
  shows "became k pgdir xs ((pte (k_mem k) pgdir)(n := v)) (set_pte pgdir n v k) xs"
  using set_pte_frame [where v = v, OF assms] set_pte_pte [OF assms, of _ v] by (auto simp: became_def)

text \<open>The entries after \<open>m\<close> pages from page \<open>p\<close> on have been mapped to the physical addresses from \<open>pa\<close> on.\<close>

definition mapping :: "(nat \<Rightarrow> uint) \<Rightarrow> nat \<Rightarrow> nat \<Rightarrow> uint \<Rightarrow> uint \<Rightarrow> nat \<Rightarrow> uint" where
  "mapping g p m pa perm q = (if p \<le> q \<and> q < p + m then (pa + of_nat (4096 * (q - p))) OR perm OR PTE_P else g q)"

lemma mapping_0 [simp]: "mapping g p 0 pa perm = g"
  by (auto simp: mapping_def fun_eq_iff)

lemma mapping_Suc:
  "mapping (g(p := pa OR perm OR PTE_P)) (Suc p) m (pa + 4096) perm = mapping g p (Suc m) pa perm"
proof (rule ext)
  fix q
  show "mapping (g(p := pa OR perm OR PTE_P)) (Suc p) m (pa + 4096) perm q = mapping g p (Suc m) pa perm q"
  proof (cases "q \<le> p")
    case False
    then have "4096 * (q - p) = 4096 + 4096 * (q - Suc p)" by simp
    then have "of_nat (4096 * (q - p)) = (4096 :: uint) + of_nat (4096 * (q - Suc p))" by (simp only: of_nat_add of_nat_numeral)
    then have "pa + of_nat (4096 * (q - p)) = pa + 4096 + of_nat (4096 * (q - Suc p))" by (simp only: add.assoc)
    moreover have "p \<le> q \<and> q < p + Suc m \<longleftrightarrow> Suc p \<le> q \<and> q < Suc p + m" "q \<noteq> p" using False by auto
    ultimately show ?thesis unfolding mapping_def by (simp only: fun_upd_apply if_False)
  qed (auto simp: mapping_def)
qed

lemma vpn_next:
  assumes "unat a mod 4096 = 0" and "vpn a + 1 < 1048576"
  shows "vpn (a + PGSIZE) = vpn a + 1" and "unat (a + PGSIZE) mod 4096 = 0"
proof -
  have "unat a = 4096 * vpn a" using assms(1) mult_div_mod_eq [of 4096 "unat a"] by (simp add: vpn_def)
  then have "unat (a + PGSIZE) = 4096 * (vpn a + 1)" using assms(2) by (simp add: unat_word_ariths)
  then show "vpn (a + PGSIZE) = vpn a + 1" "unat (a + PGSIZE) mod 4096 = 0" by (simp_all add: vpn_def)
qed


text \<open>One page: the body of the loop.\<close>

lemma map_one:
  assumes ok: "pd_ok k pgdir xs" and np: "\<not> present (pte (k_mem k) pgdir (vpn a))"
  obtains "walkpgdir pgdir a True k = (None, k)" and "xs = []" and "0 < absent (k_mem k) pgdir"
  | s k' xs' where "walkpgdir pgdir a True k = (Some s, k')" and "\<not> present (ld32 (k_mem k') s)"
    and "became k pgdir xs ((pte (k_mem k) pgdir)(vpn a := v)) (k'\<lparr>k_mem := st32 (k_mem k') s v\<rparr>) xs'"
proof (rule walk_ok [OF ok, of a])
  assume "walkpgdir pgdir a True k = (None, k)" "xs = []" "0 < absent (k_mem k) pgdir"
  then show thesis by (rule that(1))
next
  fix k' xs' assume w: "walkpgdir pgdir a True k = (Some (slot (k_mem k') pgdir (vpn a)), k')"
    "became k pgdir xs (pte (k_mem k) pgdir) k' xs'" "present (ent (k_mem k') pgdir (vpn a div 1024))"
  have ok': "pd_ok k' pgdir xs'" and g: "\<And>n. n < 1048576 \<Longrightarrow> pte (k_mem k') pgdir n = pte (k_mem k) pgdir n"
    using w(2) by (auto simp: became_def)
  have "ld32 (k_mem k') (slot (k_mem k') pgdir (vpn a)) = pte (k_mem k') pgdir (vpn a)"
    using w(3) by (simp add: pte_def slot_def ent_def)
  then have n: "\<not> present (ld32 (k_mem k') (slot (k_mem k') pgdir (vpn a)))" using np g [OF vpn_less] by simp
  have "became k' pgdir xs' ((pte (k_mem k) pgdir)(vpn a := v)) (set_pte pgdir (vpn a) v k') xs'"
    by (rule became_cong [OF set_pte_ok [OF ok' vpn_less w(3)]]) (simp add: g)
  from became_trans [OF w(2) this] w(1) n show thesis by (intro that(2)) (simp_all add: set_pte_def)
qed

lemma mappages_loop_ok:
  assumes "pd_ok k pgdir xs" and "unat a mod 4096 = 0" and "vpn a + n < 1048576"
    and "\<And>q. vpn a \<le> q \<Longrightarrow> q \<le> vpn a + n \<Longrightarrow> \<not> present (pte (k_mem k) pgdir q)"
  shows "\<exists>r k' xs' m. mappages_loop n pgdir a pa perm k = Inr (r, k') \<and> m \<le> Suc n
    \<and> became k pgdir xs (mapping (pte (k_mem k) pgdir) (vpn a) m pa perm) k' xs'
    \<and> (if m = Suc n then r = 0 else r = - 1 \<and> xs' = [] \<and> 0 < absent (k_mem k') pgdir)"
  using assms
proof (induction n arbitrary: a pa k xs)
  case 0
  have np: "\<not> present (pte (k_mem k) pgdir (vpn a))" using "0.prems"(4) by simp
  show ?case
  proof (rule map_one [OF "0.prems"(1) np, where v = "pa OR perm OR PTE_P"])
    assume "walkpgdir pgdir a True k = (None, k)" "xs = []" "0 < absent (k_mem k) pgdir"
    then show ?case using became_refl [OF "0.prems"(1)] by (intro exI [of _ "- 1"] exI [of _ k] exI [of _ "[]"] exI [of _ 0]) simp
  next
    fix s k' xs' assume w: "walkpgdir pgdir a True k = (Some s, k')" "\<not> present (ld32 (k_mem k') s)"
      "became k pgdir xs ((pte (k_mem k) pgdir)(vpn a := pa OR perm OR PTE_P)) (k'\<lparr>k_mem := st32 (k_mem k') s (pa OR perm OR PTE_P)\<rparr>) xs'"
    have "mapping (pte (k_mem k) pgdir) (vpn a) (Suc 0) pa perm = (pte (k_mem k) pgdir)(vpn a := pa OR perm OR PTE_P)"
      using mapping_Suc [of "pte (k_mem k) pgdir" "vpn a" pa perm 0] by simp
    note b = w(3) [folded this]
    show ?case using w(1,2) b by (intro exI [of _ "0 :: int"] exI [of _ "k'\<lparr>k_mem := st32 (k_mem k') s (pa OR perm OR PTE_P)\<rparr>"] exI [of _ xs'] exI [of _ "Suc 0"]) simp
  qed
next
  case (Suc n)
  have np: "\<not> present (pte (k_mem k) pgdir (vpn a))" using Suc.prems(4) by simp
  have "vpn a + 1 < 1048576" using Suc.prems(3) by simp
  note nx = vpn_next [OF Suc.prems(2) this]
  show ?case
  proof (rule map_one [OF Suc.prems(1) np, where v = "pa OR perm OR PTE_P"])
    assume "walkpgdir pgdir a True k = (None, k)" "xs = []" "0 < absent (k_mem k) pgdir"
    then show ?case using became_refl [OF Suc.prems(1)] by (intro exI [of _ "- 1"] exI [of _ k] exI [of _ "[]"] exI [of _ 0]) simp
  next
    fix s k' xs' assume w: "walkpgdir pgdir a True k = (Some s, k')" "\<not> present (ld32 (k_mem k') s)"
      "became k pgdir xs ((pte (k_mem k) pgdir)(vpn a := pa OR perm OR PTE_P)) (k'\<lparr>k_mem := st32 (k_mem k') s (pa OR perm OR PTE_P)\<rparr>) xs'"
    let ?k = "k'\<lparr>k_mem := st32 (k_mem k') s (pa OR perm OR PTE_P)\<rparr>"
    have ok: "pd_ok ?k pgdir xs'" and g: "\<And>q. q < 1048576 \<Longrightarrow> pte (k_mem ?k) pgdir q = ((pte (k_mem k) pgdir)(vpn a := pa OR perm OR PTE_P)) q"
      using w(3) by (auto simp: became_def)
    have "\<not> present (pte (k_mem ?k) pgdir q)" if "vpn (a + PGSIZE) \<le> q" "q \<le> vpn (a + PGSIZE) + n" for q
      using that g [of q] Suc.prems(3,4) by (simp add: nx)
    from Suc.IH [OF ok nx(2) _ this, of "pa + PGSIZE"] Suc.prems(3) obtain r k'' xs'' m where
      l: "mappages_loop n pgdir (a + PGSIZE) (pa + PGSIZE) perm ?k = Inr (r, k'')" "m \<le> Suc n"
        "became ?k pgdir xs' (mapping (pte (k_mem ?k) pgdir) (vpn (a + PGSIZE)) m (pa + PGSIZE) perm) k'' xs''"
        "if m = Suc n then r = 0 else r = - 1 \<and> xs'' = [] \<and> 0 < absent (k_mem k'') pgdir" by (auto simp: nx)
    have "became k pgdir xs (mapping (pte (k_mem k) pgdir) (vpn a) (Suc m) pa perm) k'' xs''"
      unfolding mapping_Suc [symmetric]
      by (rule became_cong [OF became_trans [OF w(3) l(3)]]) (use g in \<open>auto simp: mapping_def nx\<close>)
    then show ?case using w(1,2) l(1,2,4) by (intro exI [of _ r] exI [of _ k''] exI [of _ xs''] exI [of _ "Suc m"]) simp
  qed
qed


text \<open>The last page of a range of addresses.\<close>

definition last_page :: "uint \<Rightarrow> uint \<Rightarrow> nat" where
  "last_page va sz = (unat va + unat sz - 1) div 4096"

lemma vpn_PGROUNDDOWN: "vpn (PGROUNDDOWN va) = vpn va" "unat (PGROUNDDOWN va) mod 4096 = 0"
  by (simp_all add: vpn_def PGROUNDDOWN_unat)

lemma mappages_count:
  assumes "0 < unat sz" and "unat va + unat sz \<le> 2 ^ 32"
  shows "unat (PGROUNDDOWN (va + sz - 1) - PGROUNDDOWN va) div 4096 = last_page va sz - vpn va" and "vpn va \<le> last_page va sz"
    and "last_page va sz < 1048576"
proof -
  have "unat (sz - 1) = unat sz - 1" using assms(1) by (simp add: unat_sub word_le_nat_alt)
  then have "unat (va + (sz - 1)) = unat va + unat sz - 1" using assms by (simp add: unat_word_ariths)
  then have u: "unat (va + sz - 1) = unat va + unat sz - 1" by (simp add: algebra_simps)
  show le: "vpn va \<le> last_page va sz" using assms(1) by (simp add: vpn_def last_page_def div_le_mono)
  have A: "unat (PGROUNDDOWN (va + sz - 1)) = 4096 * last_page va sz" by (simp only: PGROUNDDOWN_unat u last_page_def)
  have B: "unat (PGROUNDDOWN va) = 4096 * vpn va" by (simp only: PGROUNDDOWN_unat vpn_def)
  have "PGROUNDDOWN va \<le> PGROUNDDOWN (va + sz - 1)" using le by (simp only: word_le_nat_alt A B)
  then have "unat (PGROUNDDOWN (va + sz - 1) - PGROUNDDOWN va) = 4096 * last_page va sz - 4096 * vpn va"
    by (simp only: unat_sub A B)
  also have "\<dots> = 4096 * (last_page va sz - vpn va)" by (simp add: diff_mult_distrib2)
  finally show "unat (PGROUNDDOWN (va + sz - 1) - PGROUNDDOWN va) div 4096 = last_page va sz - vpn va" by simp
  have "unat va + unat sz - 1 < 2 ^ 32" using assms by linarith
  then show "last_page va sz < 1048576" by (simp add: last_page_def)
qed

lemma mappages_ok:
  assumes ok: "pd_ok k pgdir xs" and sz: "0 < unat sz" "unat va + unat sz \<le> 2 ^ 32"
    and np: "\<And>q. vpn va \<le> q \<Longrightarrow> q \<le> last_page va sz \<Longrightarrow> \<not> present (pte (k_mem k) pgdir q)"
  obtains k' xs' m where "mappages pgdir va sz pa perm k = Inr (- 1, k')" and "m \<le> last_page va sz - vpn va"
    and "became k pgdir xs (mapping (pte (k_mem k) pgdir) (vpn va) m pa perm) k' []" and "length xs < absent (k_mem k) pgdir"
  | k' xs' where "mappages pgdir va sz pa perm k = Inr (0, k')"
    and "became k pgdir xs (mapping (pte (k_mem k) pgdir) (vpn va) (Suc (last_page va sz - vpn va)) pa perm) k' xs'"
proof -
  note c = mappages_count [OF sz] and g = vpn_PGROUNDDOWN [of va]
  have "vpn (PGROUNDDOWN va) + (last_page va sz - vpn va) < 1048576" using c by (simp add: g)
  from mappages_loop_ok [OF ok g(2) this, of pa perm] np c obtain r k' xs' m where
    l: "mappages pgdir va sz pa perm k = Inr (r, k')" "m \<le> Suc (last_page va sz - vpn va)"
      "became k pgdir xs (mapping (pte (k_mem k) pgdir) (vpn va) m pa perm) k' xs'"
      "if m = Suc (last_page va sz - vpn va) then r = 0 else r = - 1 \<and> xs' = [] \<and> 0 < absent (k_mem k') pgdir"
    by (auto simp: mappages_def Let_def g)
  show thesis
  proof (cases "m = Suc (last_page va sz - vpn va)")
    case True
    then show ?thesis using l that(2) by simp
  next
    case False
    then have "length xs < absent (k_mem k) pgdir" using l(3,4) by (auto simp: became_def)
    then show ?thesis using l False that(1) [of k' m] by auto
  qed
qed


section \<open>The kernel's part of an address space\<close>

text \<open>Mapping the rows of a table such as \<^verbatim>\<open>kmap\<close>, one after the other; no row may touch what is mapped already.\<close>

type_synonym kmap_row = "uint \<times> uint \<times> uint \<times> uint"

fun row_map :: "kmap_row \<Rightarrow> (nat \<Rightarrow> uint) \<Rightarrow> nat \<Rightarrow> uint" where
  "row_map (virt, ps, pe, perm) g = mapping g (vpn virt) (Suc (last_page virt (pe - ps) - vpn virt)) ps perm"

fun row_fits :: "kmap_row \<Rightarrow> (nat \<Rightarrow> uint) \<Rightarrow> bool" where
  "row_fits (virt, ps, pe, perm) g \<longleftrightarrow> 0 < unat (pe - ps) \<and> unat virt + unat (pe - ps) \<le> 2 ^ 32
     \<and> (\<forall>q. vpn virt \<le> q \<and> q \<le> last_page virt (pe - ps) \<longrightarrow> \<not> present (g q))"

primrec rows_fit :: "kmap_row list \<Rightarrow> (nat \<Rightarrow> uint) \<Rightarrow> bool" where
  "rows_fit [] g \<longleftrightarrow> True"
| "rows_fit (r # rs) g \<longleftrightarrow> row_fits r g \<and> rows_fit rs (row_map r g)"

lemma row_map_cong: "(\<And>n. n < 1048576 \<Longrightarrow> g n = h n) \<Longrightarrow> n < 1048576 \<Longrightarrow> row_map r g n = row_map r h n"
  by (cases r) (simp add: mapping_def)

lemma rows_fit_cong: "(\<And>n. n < 1048576 \<Longrightarrow> g n = h n) \<Longrightarrow> rows_fit rs g = rows_fit rs h"
proof (induction rs arbitrary: g h)
  case (Cons r rs)
  obtain v ps pe perm where r: "r = (v, ps, pe, perm)" by (cases r)
  have "row_fits r g = row_fits r h"
  proof (cases "0 < unat (pe - ps) \<and> unat v + unat (pe - ps) \<le> 2 ^ 32")
    case True
    then have "last_page v (pe - ps) < 1048576" using mappages_count(3) by blast
    then have "g q = h q" if "q \<le> last_page v (pe - ps)" for q using that by (intro Cons.prems) simp
    then show ?thesis by (auto simp: r)
  qed (auto simp: r)
  moreover have "rows_fit rs (row_map r g) = rows_fit rs (row_map r h)"
    by (rule Cons.IH) (rule row_map_cong, rule Cons.prems)
  ultimately show ?case by simp
qed simp

lemma fold_row_cong:
  "(\<And>n. n < 1048576 \<Longrightarrow> g n = h n) \<Longrightarrow> n < 1048576 \<Longrightarrow> fold row_map rs g n = fold row_map rs h n"
proof (induction rs arbitrary: g h)
  case (Cons r rs)
  show ?case unfolding fold_Cons comp_apply by (rule Cons.IH [OF _ Cons.prems(2)], rule row_map_cong, rule Cons.prems(1))
qed simp

lemma became_length: "became k pgdir xs g k' xs' \<Longrightarrow> absent (k_mem k) pgdir \<le> length xs \<Longrightarrow> absent (k_mem k') pgdir \<le> length xs'"
  by (auto simp: became_def)

lemma setupkvm_loop_ok:
  assumes "pd_ok k pgdir xs" and "rows_fit rs (pte (k_mem k) pgdir)" and "absent (k_mem k) pgdir \<le> length xs"
  shows "\<exists>k' xs'. setupkvm_loop pgdir rs k = Inr (pgdir, k') \<and> became k pgdir xs (fold row_map rs (pte (k_mem k) pgdir)) k' xs'"
  using assms
proof (induction rs arbitrary: k xs)
  case Nil
  then show ?case using became_refl [OF Nil.prems(1)] by auto
next
  case (Cons r rs)
  obtain v ps pe perm where r: "r = (v, ps, pe, perm)" by (cases r)
  have "0 < unat (pe - ps)" "unat v + unat (pe - ps) \<le> 2 ^ 32"
    "\<And>q. vpn v \<le> q \<Longrightarrow> q \<le> last_page v (pe - ps) \<Longrightarrow> \<not> present (pte (k_mem k) pgdir q)" using Cons.prems(2) by (auto simp: r)
  then show ?case
  proof (rule mappages_ok [OF Cons.prems(1)])
    fix k' xs' m assume "length xs < absent (k_mem k) pgdir"
    then show ?case using Cons.prems(3) by simp
  next
    fix k' xs' assume m: "mappages pgdir v (pe - ps) ps perm k = Inr (0, k')"
      "became k pgdir xs (mapping (pte (k_mem k) pgdir) (vpn v) (Suc (last_page v (pe - ps) - vpn v)) ps perm) k' xs'"
    then have b: "became k pgdir xs (row_map r (pte (k_mem k) pgdir)) k' xs'" by (simp add: r)
    have g: "pte (k_mem k') pgdir n = row_map r (pte (k_mem k) pgdir) n" if "n < 1048576" for n using b that by (simp add: became_def)
    have "rows_fit rs (pte (k_mem k') pgdir)" using Cons.prems(2) rows_fit_cong [OF g] by simp
    moreover have "pd_ok k' pgdir xs'" using b by (simp add: became_def)
    ultimately obtain k'' xs'' where s: "setupkvm_loop pgdir rs k' = Inr (pgdir, k'')"
      "became k' pgdir xs' (fold row_map rs (pte (k_mem k') pgdir)) k'' xs''"
      using Cons.IH became_length [OF b Cons.prems(3)] by blast
    have "fold row_map rs (pte (k_mem k') pgdir) n = fold row_map rs (row_map r (pte (k_mem k) pgdir)) n" if "n < 1048576" for n
      by (rule fold_row_cong [OF g that])
    then have "became k pgdir xs (fold row_map (r # rs) (pte (k_mem k) pgdir)) k'' xs''"
      using became_cong [OF became_trans [OF b s(2)]] by simp
    then show ?case using m(1) s(1) by (auto simp: r)
  qed
qed


text \<open>An empty directory in the free page \<open>x\<close>.\<close>

lemma empty_dir_ok:
  assumes ok: "kmem_ok k (x # ys)"
  defines "k0 \<equiv> k\<lparr>freelist := ld32 (k_mem k) x, k_mem := memset (k_mem k) x 0 PGSIZE\<rparr>"
  shows "pd_ok k0 x ys" and "pte (k_mem k0) x n = 0 \<or> 1048576 \<le> n" and "tables (k_mem k0) x = {x}" and "absent (k_mem k0) x = 1024"
    and "only {x} k k0" and "kalloc k = (x, k\<lparr>freelist := ld32 (k_mem k) x\<rparr>)" and "x \<noteq> 0"
proof -
  have x: "page_ok (k_end k) x" "unat x mod 4096 = 0" "x \<notin> set ys" using ok by (auto simp: kmem_ok_def page_ok_def)
  have en: "ent (k_mem k0) x i = 0" if "i < 1024" for i using ent_memset [OF that] by (simp add: k0_def)
  show t: "tables (k_mem k0) x = {x}" using en by (auto simp: tables_def)
  have "{i. i < 1024 \<and> \<not> present (ent (k_mem k0) x i)} = {..<1024}" using en by auto
  then show "absent (k_mem k0) x = 1024" by (simp add: absent_def)
  show "pte (k_mem k0) x n = 0 \<or> 1048576 \<le> n" using en [of "n div 1024"] by (cases "n < 1048576") (simp_all add: pte_def)
  show o: "only {x} k k0" by (simp add: only_def k0_def memset_page)
  have "kmem_ok k0 ys"
  proof (rule kmem_ok_only)
    show "kmem_ok (k\<lparr>freelist := ld32 (k_mem k) x\<rparr>) ys" using ok by (auto simp: kmem_ok_def)
    show "only {x} (k\<lparr>freelist := ld32 (k_mem k) x\<rparr>) k0" using o by (simp add: only_def)
  qed (use x in \<open>auto simp: k0_def\<close>)
  then show "pd_ok k0 x ys" using x en unfolding pd_ok_def t by (simp add: k0_def)
  show "kalloc k = (x, k\<lparr>freelist := ld32 (k_mem k) x\<rparr>)" using kalloc_ok(1) [OF ok] by simp
  show "x \<noteq> 0" by (rule page_nonzero [OF x(1)])
qed

text \<open>
  The linker puts the kernel's data on a page boundary behind its code. The map that \<^verbatim>\<open>kmap\<close> describes: physical memory
  from \<^verbatim>\<open>KERNBASE\<close> on, with the code not writable, and the devices at the top.
\<close>

definition kernel_layout :: "kmem \<Rightarrow> bool" where
  "kernel_layout k \<longleftrightarrow> unat (k_data k) mod 4096 = 0 \<and> 0x80100000 < unat (k_data k) \<and> unat (k_data k) < 0x8E000000"

definition kern_map :: "nat \<Rightarrow> nat \<Rightarrow> uint" where
  "kern_map D q =
     (if 0xFE000 \<le> q \<and> q < 0x100000 then of_nat (4096 * q) OR PTE_W OR PTE_P
      else if D \<le> q \<and> q < 0x8E000 then of_nat (4096 * (q - 0x80000)) OR PTE_W OR PTE_P
      else if 0x80100 \<le> q \<and> q < D then of_nat (4096 * (q - 0x80000)) OR 0 OR PTE_P
      else if 0x80000 \<le> q \<and> q < 0x80100 then of_nat (4096 * (q - 0x80000)) OR PTE_W OR PTE_P
      else 0)"

lemma kmap_ranges:
  assumes "kernel_layout k"
  defines "D \<equiv> vpn (k_data k)"
  shows "unat (k_data k) = 4096 * D" and "0x80100 < D" and "D < 0x8E000"
    and "vpn KERNBASE = 0x80000" and "vpn KERNLINK = 0x80100" and "vpn DEVSPACE = 0xFE000"
    and "unat (V2P (k_data k)) = 4096 * D - 0x80000000" and "unat (V2P (k_data k) - V2P KERNLINK) = 4096 * D - 0x80100000"
    and "unat (PHYSTOP - V2P (k_data k)) = 0x8E000000 - 4096 * D"
proof -
  show d: "unat (k_data k) = 4096 * D"
    using assms(1) mult_div_mod_eq [of 4096 "unat (k_data k)"] by (simp add: D_def vpn_def kernel_layout_def)
  show r: "0x80100 < D" "D < 0x8E000" using assms(1) d by (simp_all add: kernel_layout_def)
  show "vpn KERNBASE = 0x80000" "vpn KERNLINK = 0x80100" "vpn DEVSPACE = 0xFE000" by (simp_all add: vpn_def KERNBASE_def)
  show v: "unat (V2P (k_data k)) = 4096 * D - 0x80000000" using r d by (simp add: V2P_def unat_sub_if')
  have "unat (V2P KERNLINK) = 0x100000" by (simp add: V2P_def)
  then show "unat (V2P (k_data k) - V2P KERNLINK) = 4096 * D - 0x80100000" using r v by (simp add: unat_sub_if')
  have "unat PHYSTOP = 0xE000000" by (simp add: PHYSTOP_def)
  then show "unat (PHYSTOP - V2P (k_data k)) = 0x8E000000 - 4096 * D" using r v by (simp add: unat_sub_if')
qed


lemma kmap_rows:
  assumes lay: "kernel_layout k"
  defines "D \<equiv> vpn (k_data k)"
  shows "last_page KERNBASE (EXTMEM - 0) = 0x800FF" and "last_page KERNLINK (V2P (k_data k) - V2P KERNLINK) = D - 1"
    and "last_page (k_data k) (PHYSTOP - V2P (k_data k)) = 0x8DFFF" and "last_page DEVSPACE (0 - DEVSPACE) = 0xFFFFF"
proof -
  note r = kmap_ranges [OF lay, folded D_def]
  show "last_page KERNBASE (EXTMEM - 0) = 0x800FF" "last_page DEVSPACE (0 - DEVSPACE) = 0xFFFFF"
    by (simp_all add: last_page_def KERNBASE_def)
  have "unat KERNLINK = 0x80100000" by simp
  then have "unat KERNLINK + unat (V2P (k_data k) - V2P KERNLINK) - 1 = 4096 * (D - 1) + 4095" unfolding r(8) using r(2) by simp
  then show "last_page KERNLINK (V2P (k_data k) - V2P KERNLINK) = D - 1" by (simp only: last_page_def)
  have "unat (k_data k) + unat (PHYSTOP - V2P (k_data k)) - 1 = 0x8DFFFFFF" unfolding r(1,9) using r(3) by simp
  then show "last_page (k_data k) (PHYSTOP - V2P (k_data k)) = 0x8DFFF" by (simp only: last_page_def)
qed

lemma not_present_0 [simp]: "\<not> present 0"
  by simp

lemma of_nat_unat_id: "of_nat (unat (x :: uint)) = x"
  by simp

text \<open>The rows one by one: the physical address of page \<open>q\<close> is that of the first page of the row and the pages between.\<close>

lemma kmap_phys:
  assumes lay: "kernel_layout k"
  shows "0x80100 \<le> q \<Longrightarrow> V2P KERNLINK + of_nat (4096 * (q - 0x80100)) = of_nat (4096 * (q - 0x80000))"
    and "vpn (k_data k) \<le> q \<Longrightarrow> V2P (k_data k) + of_nat (4096 * (q - vpn (k_data k))) = of_nat (4096 * (q - 0x80000))"
    and "0xFE000 \<le> q \<Longrightarrow> DEVSPACE + of_nat (4096 * (q - 0xFE000)) = of_nat (4096 * q)"
proof -
  note r = kmap_ranges [OF lay]
  show "V2P KERNLINK + of_nat (4096 * (q - 0x80100)) = of_nat (4096 * (q - 0x80000))" if "0x80100 \<le> q"
  proof -
    have "4096 * (q - 0x80000) = 0x100000 + 4096 * (q - 0x80100)" using that by simp
    then have "of_nat (4096 * (q - 0x80000)) = (0x100000 :: uint) + of_nat (4096 * (q - 0x80100))" by (simp only: of_nat_add of_nat_numeral)
    then show ?thesis by (simp add: V2P_def)
  qed
  show "V2P (k_data k) + of_nat (4096 * (q - vpn (k_data k))) = of_nat (4096 * (q - 0x80000))" if "vpn (k_data k) \<le> q"
  proof -
    have "V2P (k_data k) = of_nat (4096 * vpn (k_data k) - 0x80000000)" using of_nat_unat_id [of "V2P (k_data k)"] r(7) by simp
    moreover have "4096 * (q - 0x80000) = (4096 * vpn (k_data k) - 0x80000000) + 4096 * (q - vpn (k_data k))" using that r(2) by simp
    ultimately show ?thesis by (simp only: of_nat_add)
  qed
  show "DEVSPACE + of_nat (4096 * (q - 0xFE000)) = of_nat (4096 * q)" if "0xFE000 \<le> q"
  proof -
    have "4096 * q = 0xFE000000 + 4096 * (q - 0xFE000)" using that by simp
    then have "of_nat (4096 * q) = (0xFE000000 :: uint) + of_nat (4096 * (q - 0xFE000))" by (simp only: of_nat_add of_nat_numeral)
    then show ?thesis by simp
  qed
qed

lemma kmap_maps:
  assumes lay: "kernel_layout k"
  shows "rows_fit (kmap k) (\<lambda>_. 0)" and "fold row_map (kmap k) (\<lambda>_. 0) = kern_map (vpn (k_data k))"
proof -
  define D where "D = vpn (k_data k)"
  note r = kmap_ranges [OF lay, folded D_def] and l = kmap_rows [OF lay, folded D_def] and ph = kmap_phys [OF lay, folded D_def]
  let ?r1 = "(KERNBASE, 0, EXTMEM, PTE_W)" and ?r2 = "(KERNLINK, V2P KERNLINK, V2P (k_data k), 0)"
    and ?r3 = "(k_data k, V2P (k_data k), PHYSTOP, PTE_W)" and ?r4 = "(DEVSPACE, DEVSPACE, 0, PTE_W)"
  define g1 where "g1 = row_map ?r1 (\<lambda>_. 0)"
  define g2 where "g2 = row_map ?r2 g1"
  define g3 where "g3 = row_map ?r3 g2"
  have g1: "g1 q = (if 0x80000 \<le> q \<and> q < 0x80100 then of_nat (4096 * (q - 0x80000)) OR PTE_W OR PTE_P else 0)" for q
    unfolding g1_def row_map.simps l(1) r(4) mapping_def by simp
  have "Suc (D - 1 - 0x80100) = D - 0x80100" using r(2) by simp
  then have g2: "g2 q = (if 0x80100 \<le> q \<and> q < D then of_nat (4096 * (q - 0x80000)) OR 0 OR PTE_P else g1 q)" for q
    unfolding g2_def row_map.simps l(2) r(5) mapping_def using r(2) ph(1) [of q] by (auto simp del: of_nat_mult)
  have "Suc (0x8DFFF - D) = 0x8E000 - D" using r(3) by simp
  then have g3: "g3 q = (if D \<le> q \<and> q < 0x8E000 then of_nat (4096 * (q - 0x80000)) OR PTE_W OR PTE_P else g2 q)" for q
    unfolding g3_def row_map.simps l(3) D_def [symmetric] mapping_def using r(3) ph(2) [of q] by (auto simp del: of_nat_mult)
  have g4: "row_map ?r4 g3 q = (if 0xFE000 \<le> q \<and> q < 0x100000 then of_nat (4096 * q) OR PTE_W OR PTE_P else g3 q)" for q
    unfolding row_map.simps l(4) r(6) mapping_def using ph(3) [of q] by (auto simp del: of_nat_mult)
  have k: "kmap k = [?r1, ?r2, ?r3, ?r4]" by (simp add: kmap_def)
  show "fold row_map (kmap k) (\<lambda>_. 0) = kern_map (vpn (k_data k))"
    unfolding k fold_simps g1_def [symmetric] g2_def [symmetric] g3_def [symmetric] D_def [symmetric]
    by (rule ext) (simp only: g4 g3 g2 g1 kern_map_def)
  have "row_fits ?r1 (\<lambda>_. 0)" by (simp add: KERNBASE_def)
  moreover have "row_fits ?r2 g1" unfolding row_fits.simps l(2) r(5,8) g1 using r(2,3) by simp
  moreover have "row_fits ?r3 g2" unfolding row_fits.simps l(3) r(9) D_def [symmetric] g2 g1 using r(1,2,3) by simp
  moreover have "row_fits ?r4 g3" unfolding row_fits.simps l(4) r(6) g3 g2 g1 using r(2,3) by simp
  ultimately show "rows_fit (kmap k) (\<lambda>_. 0)"
    unfolding k rows_fit.simps g1_def [symmetric] g2_def [symmetric] g3_def [symmetric] by simp
qed


text \<open>\<^verbatim>\<open>setupkvm\<close> with enough free pages: the directory is the first of them, and the first of the others become its tables.\<close>

lemma setupkvm_ok:
  assumes ok: "kmem_ok k (x # ys)" and lay: "kernel_layout k" and len: "1024 \<le> length ys"
  obtains k' xs' zs where "setupkvm k = Inr (x, k')" and "pd_ok k' x xs'" and "\<forall>n<1048576. pte (k_mem k') x n = kern_map (vpn (k_data k)) n"
    and "ys = zs @ xs'" and "tables (k_mem k') x = insert x (set zs)" and "only (insert x (set zs)) k k'"
    and "absent (k_mem k') x + length zs = 1024" and "x \<noteq> 0"
proof -
  let ?k = "k\<lparr>freelist := ld32 (k_mem k) x, k_mem := memset (k_mem k) x 0 PGSIZE\<rparr>"
  note E = empty_dir_ok [OF ok]
  have z: "pte (k_mem ?k) x n = (\<lambda>_. 0) n" if "n < 1048576" for n using E(2) [of n] that by simp
  have km: "kmap ?k = kmap k" by (simp add: kmap_def)
  have "rows_fit (kmap ?k) (pte (k_mem ?k) x)" using kmap_maps(1) [OF lay] rows_fit_cong [OF z] by (simp add: km)
  from setupkvm_loop_ok [OF E(1) this] E(4) len obtain k' xs' where
    s: "setupkvm_loop x (kmap ?k) ?k = Inr (x, k')" "became ?k x ys (fold row_map (kmap k) (pte (k_mem ?k) x)) k' xs'"
    by (auto simp: km)
  from s(2) obtain zs where B: "pd_ok k' x xs'" "only (tables (k_mem k') x) ?k k'" "ys = zs @ xs'"
    "tables (k_mem k') x = insert x (set zs)" "1024 = absent (k_mem k') x + length zs"
    and p: "\<And>n. n < 1048576 \<Longrightarrow> pte (k_mem k') x n = fold row_map (kmap k) (pte (k_mem ?k) x) n"
    using E(3,4) by (auto simp: became_def)
  have "pte (k_mem k') x n = kern_map (vpn (k_data k)) n" if "n < 1048576" for n
    using p [OF that] fold_row_cong [OF z that] kmap_maps(2) [OF lay] by simp
  moreover have "only (insert x (set zs)) k k'"
    by (rule only_trans [OF only_mono [OF E(5)]]) (use B(2,4) in auto)
  moreover have "setupkvm k = Inr (x, k')"
  proof -
    have "\<not> DEVSPACE < P2V PHYSTOP" by (simp add: P2V_def PHYSTOP_def)
    then show ?thesis using s(1) E(6,7) by (simp add: setupkvm_def Let_def)
  qed
  ultimately show thesis using B E(7) by (intro that [of k' xs' zs]) auto
qed

section \<open>The memory of a process\<close>

text \<open>The byte at a virtual address, and the bits of its entry.\<close>

definition frame :: "uint \<Rightarrow> uint" where
  "frame e = P2V (PTE_ADDR e)"

definition ubyte :: "mem \<Rightarrow> uint \<Rightarrow> nat \<Rightarrow> uchar option" where
  "ubyte m pgdir va = (let e = pte m pgdir (va div 4096) in
     if present e then Some (m (frame e + of_nat (va mod 4096))) else None)"

text \<open>
  The first \<open>n\<close> pages of an address space are mapped to pages of their own: no two to the same page, none to a free page
  or to a table.
\<close>

definition user_ok :: "kmem \<Rightarrow> uint \<Rightarrow> uint list \<Rightarrow> nat \<Rightarrow> bool" where
  "user_ok k pgdir xs n \<longleftrightarrow> pd_ok k pgdir xs \<and> n \<le> 0x80000
     \<and> (\<forall>q<n. let e = pte (k_mem k) pgdir q in present e \<and> page_ok (k_end k) (frame e) \<and> frame e \<notin> set xs
          \<and> frame e \<notin> tables (k_mem k) pgdir)
     \<and> (\<forall>p<n. \<forall>q<n. frame (pte (k_mem k) pgdir p) = frame (pte (k_mem k) pgdir q) \<longrightarrow> p = q)"

definition frames :: "kmem \<Rightarrow> uint \<Rightarrow> nat \<Rightarrow> uint set" where
  "frames k pgdir n = (\<lambda>q. frame (pte (k_mem k) pgdir q)) ` {..<n}"

lemma frame_byte_in_page: "in_page (frame e) (frame e + of_nat (va mod 4096))"
proof -
  have "unat (of_nat (va mod 4096) :: uint) = va mod 4096"
    unfolding unat_of_nat by (rule mod_less) (simp add: less_le_trans [OF mod_less_divisor])
  then show ?thesis by (simp add: in_page_def)
qed

text \<open>A frame for the next page: \<^verbatim>\<open>kalloc\<close>, filling it, and \<^verbatim>\<open>mappages\<close>.\<close>

lemma one_page:
  assumes "n < 0x100000"
  shows "vpn (of_nat (4096 * n)) = n" and "last_page (of_nat (4096 * n)) PGSIZE = n" and "unat (of_nat (4096 * n) :: uint) + unat PGSIZE \<le> 2 ^ 32"
proof -
  have u: "unat (of_nat (4096 * n) :: uint) = 4096 * n" unfolding unat_of_nat by (rule mod_less) (use assms in simp)
  show "vpn (of_nat (4096 * n)) = n" by (simp only: vpn_def u)
  have "4096 * n + 4096 - 1 = 4096 * n + 4095" by simp
  then show "last_page (of_nat (4096 * n)) PGSIZE = n" by (simp add: last_page_def u del: of_nat_mult)
  show "unat (of_nat (4096 * n) :: uint) + unat PGSIZE \<le> 2 ^ 32" unfolding u using assms by simp
qed


lemma add_page:
  assumes ok: "pd_ok k pgdir (x # ys)" and n: "n < 0x100000" and np: "\<not> present (pte (k_mem k) pgdir n)"
    and len: "absent (k_mem k) pgdir \<le> length ys" and F: "\<forall>a. \<not> in_page x a \<longrightarrow> F a = k_mem k a"
  obtains k' zs xs' where "mappages pgdir (of_nat (4096 * n)) PGSIZE (V2P x) perm (k\<lparr>freelist := ld32 (k_mem k) x, k_mem := F\<rparr>) = Inr (0, k')"
    and "pd_ok k' pgdir xs'" and "\<forall>q<1048576. pte (k_mem k') pgdir q = ((pte (k_mem k) pgdir)(n := V2P x OR perm OR PTE_P)) q"
    and "ys = zs @ xs'" and "tables (k_mem k') pgdir = tables (k_mem k) pgdir \<union> set zs"
    and "absent (k_mem k) pgdir = absent (k_mem k') pgdir + length zs" and "only (insert x (tables (k_mem k') pgdir)) k k'"
    and "\<forall>a. in_page x a \<longrightarrow> k_mem k' a = F a" and "x \<notin> tables (k_mem k') pgdir"
proof -
  let ?k = "k\<lparr>freelist := ld32 (k_mem k) x, k_mem := F\<rparr>"
  note D = pd_okD [OF ok]
  have x: "unat x mod 4096 = 0" "x \<notin> set ys" "x \<notin> tables (k_mem k) pgdir"
    using ok D(1) by (auto simp: kmem_ok_def page_ok_def pd_ok_def)
  have ta: "\<And>v. v \<in> tables (k_mem k) pgdir \<Longrightarrow> unat v mod 4096 = 0" using ok by (auto simp: pd_ok_def page_ok_def)
  have "kmem_ok ?k ys"
  proof (rule kmem_ok_only [where P = "{x}"])
    show "kmem_ok (k\<lparr>freelist := ld32 (k_mem k) x\<rparr>) ys" using D(1) by (auto simp: kmem_ok_def)
  qed (use x F in \<open>auto simp: only_def\<close>)
  moreover have "k_mem ?k a = k_mem k a" if "v \<in> tables (k_mem k) pgdir" "in_page v a" for v a
    using page_apart [OF ta [OF that(1)] x(1) _ that(2)] x(3) that(1) F by auto
  then have same: "\<forall>v\<in>tables (k_mem k) pgdir. \<forall>a. in_page v a \<longrightarrow> k_mem ?k a = k_mem k a" by blast
  have "k_end ?k = k_end k" by simp
  note S = pd_same [OF ok this same]
  ultimately have ok': "pd_ok ?k pgdir ys" by (intro S(5)) auto
  have pt: "pte (k_mem ?k) pgdir q = pte (k_mem k) pgdir q" if "q < 1048576" for q using S(3) that by simp
  note o = one_page [OF n]
  show thesis
  proof (rule mappages_ok [OF ok' _ o(3), where pa = "V2P x" and perm = perm])
    fix k' xs' m assume "length ys < absent (k_mem ?k) pgdir"
    then show thesis using len S(4) by simp
  next
    fix k' xs' assume m: "mappages pgdir (of_nat (4096 * n)) PGSIZE (V2P x) perm ?k = Inr (0, k')"
      "became ?k pgdir ys (mapping (pte (k_mem ?k) pgdir) (vpn (of_nat (4096 * n))) (Suc (last_page (of_nat (4096 * n)) PGSIZE - vpn (of_nat (4096 * n)))) (V2P x) perm) k' xs'"
    from m(2) obtain zs where z: "pd_ok k' pgdir xs'" "ys = zs @ xs'" "tables (k_mem k') pgdir = tables (k_mem k) pgdir \<union> set zs"
      "absent (k_mem k) pgdir = absent (k_mem k') pgdir + length zs" "only (tables (k_mem k') pgdir) ?k k'"
      and p: "\<And>q. q < 1048576 \<Longrightarrow> pte (k_mem k') pgdir q = mapping (pte (k_mem ?k) pgdir) n 1 (V2P x) perm q"
      using S(2,4) unfolding became_def o by auto
    have xt: "x \<notin> tables (k_mem k') pgdir" using x z(2,3) by auto
    show thesis
    proof (rule that [OF m(1) z(1) _ z(2,3,4) _ _ xt])
      show "\<forall>q<1048576. pte (k_mem k') pgdir q = ((pte (k_mem k) pgdir)(n := V2P x OR perm OR PTE_P)) q"
        using p pt by (auto simp: mapping_def)
      show "only (insert x (tables (k_mem k') pgdir)) k k'" using z(5) F by (auto simp: only_def)
      have "\<And>v. v \<in> tables (k_mem k') pgdir \<Longrightarrow> unat v mod 4096 = 0" using z(1) by (auto simp: pd_ok_def page_ok_def)
      then have "k_mem k' a = F a" if "in_page x a" for a
        using only_outside [OF z(5) _ x(1) xt that] by simp
      then show "\<forall>a. in_page x a \<longrightarrow> k_mem k' a = F a" by blast
    qed
  qed (use np pt [of n] n o in \<open>auto simp del: of_nat_mult\<close>)
qed


lemma user_entry:
  assumes "unat x mod 4096 = 0" and "perm AND 0xFFF = perm"
  shows "frame (V2P x OR perm OR PTE_P) = x" and "present (V2P x OR perm OR PTE_P)"
    and "PTE_FLAGS (V2P x OR perm OR PTE_P) = perm OR PTE_P"
proof -
  have f: "(perm OR PTE_P) AND 0xFFF = perm OR PTE_P"
    unfolding bit.conj_disj_distrib2 assms(2) by simp
  note e = PTE_ADDR_or [OF _ f, of "V2P x"]
  show "frame (V2P x OR perm OR PTE_P) = x" "PTE_FLAGS (V2P x OR perm OR PTE_P) = perm OR PTE_P"
    using e assms(1) V2P_aligned [of x] by (simp_all add: frame_def or.assoc)
  have "bit (V2P x OR perm OR PTE_P) 0" by (simp add: bit_simps)
  then show "present (V2P x OR perm OR PTE_P)" by (simp add: and_one_eq odd_iff_mod_2_eq_one bit_0 even_iff_mod_2_eq_zero)
qed

text \<open>The pages of an address space: its tables and the frames of its first \<open>n\<close> pages.\<close>

definition space :: "kmem \<Rightarrow> uint \<Rightarrow> nat \<Rightarrow> uint set" where
  "space k pgdir n = tables (k_mem k) pgdir \<union> frames k pgdir n"

lemma user_okD:
  assumes "user_ok k pgdir xs n"
  shows "pd_ok k pgdir xs" and "n \<le> 0x80000" and "\<And>v. v \<in> space k pgdir n \<Longrightarrow> unat v mod 4096 = 0 \<and> v \<notin> set xs \<and> page_ok (k_end k) v"
    and "\<And>q. q < n \<Longrightarrow> present (pte (k_mem k) pgdir q)"
  using assms by (auto simp: user_ok_def space_def frames_def Let_def pd_ok_def page_ok_def)

text \<open>What happens in other pages is not seen.\<close>

lemma user_other:
  assumes u: "user_ok k pgdir xs n" and o: "only P k k'" and P: "\<forall>v\<in>P. unat v mod 4096 = 0 \<and> v \<notin> space k pgdir n"
    and km: "kmem_ok k' xs'" "set xs' \<subseteq> set xs"
  shows "user_ok k' pgdir xs' n" and "q < 1048576 \<Longrightarrow> pte (k_mem k') pgdir q = pte (k_mem k) pgdir q"
    and "va < 4096 * n \<Longrightarrow> ubyte (k_mem k') pgdir va = ubyte (k_mem k) pgdir va" and "space k' pgdir n = space k pgdir n"
    and "absent (k_mem k') pgdir = absent (k_mem k) pgdir"
proof -
  note D = user_okD [OF u]
  have e: "k_end k' = k_end k" using o by (simp add: only_def)
  have mem: "k_mem k' a = k_mem k a" if "v \<in> space k pgdir n" "in_page v a" for v a
    by (rule only_outside [OF o _ _ _ that(2)]) (use P D(3) that(1) in auto)
  then have "\<forall>v\<in>tables (k_mem k) pgdir. \<forall>a. in_page v a \<longrightarrow> k_mem k' a = k_mem k a" by (auto simp: space_def)
  note S = pd_same [OF D(1) e this]
  then show pt: "q < 1048576 \<Longrightarrow> pte (k_mem k') pgdir q = pte (k_mem k) pgdir q" for q by blast
  show "absent (k_mem k') pgdir = absent (k_mem k) pgdir" by (rule S(4))
  have n: "q < 1048576" if "q < n" for q using that D(2) by simp
  show sp: "space k' pgdir n = space k pgdir n" using pt n by (auto simp: space_def frames_def S(2))
  show "user_ok k' pgdir xs' n"
    using u pt n S(5) [OF km] km(2) unfolding user_ok_def S(2) e by (auto simp: Let_def)
  show "ubyte (k_mem k') pgdir va = ubyte (k_mem k) pgdir va" if va: "va < 4096 * n"
  proof -
    have q: "va div 4096 < n" using va by (simp add: div_less_iff_less_mult mult.commute)
    then have "frame (pte (k_mem k) pgdir (va div 4096)) \<in> space k pgdir n" by (auto simp: space_def frames_def)
    from mem [OF this frame_byte_in_page] pt [OF n [OF q]] show ?thesis by (simp add: ubyte_def Let_def)
  qed
qed

text \<open>The next page.\<close>

lemma user_grow:
  assumes u: "user_ok k pgdir (x # ys) n" and n: "n < 0x80000" and perm: "perm AND 0xFFF = perm"
    and ok: "pd_ok k' pgdir xs'" and pt: "\<forall>q<1048576. pte (k_mem k') pgdir q = ((pte (k_mem k) pgdir)(n := V2P x OR perm OR PTE_P)) q"
    and ys: "ys = zs @ xs'" and t: "tables (k_mem k') pgdir = tables (k_mem k) pgdir \<union> set zs"
    and o: "only (insert x (tables (k_mem k') pgdir)) k k'" and F: "\<forall>a. in_page x a \<longrightarrow> k_mem k' a = F a" and xt: "x \<notin> tables (k_mem k') pgdir"
  shows "user_ok k' pgdir xs' (Suc n)" and "va < 4096 * n \<Longrightarrow> ubyte (k_mem k') pgdir va = ubyte (k_mem k) pgdir va"
    and "va div 4096 = n \<Longrightarrow> ubyte (k_mem k') pgdir va = Some (F (x + of_nat (va mod 4096)))"
    and "space k' pgdir (Suc n) = space k pgdir n \<union> insert x (set zs)"
proof -
  note D = user_okD [OF u]
  have e: "k_end k' = k_end k" using o by (simp add: only_def)
  have x: "unat x mod 4096 = 0" "page_ok (k_end k) x" "x \<notin> set ys" using pd_okD(1) [OF D(1)] by (auto simp: kmem_ok_def page_ok_def)
  note E = user_entry [OF x(1) perm]
  have pn: "pte (k_mem k') pgdir n = V2P x OR perm OR PTE_P" using pt n by simp
  have pq: "pte (k_mem k') pgdir q = pte (k_mem k) pgdir q" if "q < n" for q using pt that n by simp
  have fr: "frames k' pgdir (Suc n) = insert x (frames k pgdir n)"
    using pq by (auto simp: frames_def lessThan_Suc pn E)
  show "space k' pgdir (Suc n) = space k pgdir n \<union> insert x (set zs)" by (auto simp: space_def fr t)
  have xf: "x \<noteq> frame (pte (k_mem k) pgdir q)" if "q < n" for q
    using D(3) [of "frame (pte (k_mem k) pgdir q)"] that by (auto simp: space_def frames_def)
  have fq: "page_ok (k_end k) (frame (pte (k_mem k) pgdir q)) \<and> frame (pte (k_mem k) pgdir q) \<notin> set xs'
      \<and> frame (pte (k_mem k) pgdir q) \<notin> tables (k_mem k') pgdir" if "q < n" for q
    using u that ys t by (auto simp: user_ok_def Let_def)
  have inj: "p = q" if "p < Suc n" "q < Suc n" "frame (pte (k_mem k') pgdir p) = frame (pte (k_mem k') pgdir q)" for p q
  proof (cases "p = n \<or> q = n")
    case True
    then show ?thesis using that pn pq xf E(1) by (metis less_antisym)
  next
    case False
    then have "p < n" "q < n" using that by auto
    then show ?thesis using that(3) pq u by (auto simp: user_ok_def)
  qed
  have "present (pte (k_mem k') pgdir q) \<and> page_ok (k_end k') (frame (pte (k_mem k') pgdir q)) \<and> frame (pte (k_mem k') pgdir q) \<notin> set xs'
      \<and> frame (pte (k_mem k') pgdir q) \<notin> tables (k_mem k') pgdir" if "q < Suc n" for q
    using fq [of q] pq [of q] D(4) [of q] that x ys xt by (cases "q = n") (auto simp: pn E e)
  then show "user_ok k' pgdir xs' (Suc n)" using ok n inj by (simp add: user_ok_def Let_def)
  show "ubyte (k_mem k') pgdir va = Some (F (x + of_nat (va mod 4096)))" if "va div 4096 = n"
    using F frame_byte_in_page [of "V2P x OR perm OR PTE_P" va, unfolded E(1)] by (simp add: ubyte_def that pn E Let_def)
  show "ubyte (k_mem k') pgdir va = ubyte (k_mem k) pgdir va" if va: "va < 4096 * n"
  proof -
    have q: "va div 4096 < n" using va by (simp add: div_less_iff_less_mult mult.commute)
    let ?f = "frame (pte (k_mem k) pgdir (va div 4096))"
    have "k_mem k' (?f + of_nat (va mod 4096)) = k_mem k (?f + of_nat (va mod 4096))"
      by (rule only_outside [OF o _ _ _ frame_byte_in_page])
        (use ok x(1) fq [OF q] xf [OF q] in \<open>auto simp: pd_ok_def page_ok_def\<close>)
    then show ?thesis using pq [OF q] by (simp add: ubyte_def Let_def)
  qed
qed


section \<open>Copying and growing\<close>

text \<open>
  The first \<open>i\<close> pages of the parent \<open>pgdir\<close>, as they were in \<open>k0\<close>, have been copied to the child \<open>d\<close>; the parent, of \<open>n\<close> pages, is as
  it was, and the two share no page.
\<close>

definition copying :: "kmem \<Rightarrow> uint \<Rightarrow> nat \<Rightarrow> uint \<Rightarrow> kmem \<Rightarrow> uint list \<Rightarrow> nat \<Rightarrow> bool" where
  "copying k0 pgdir n d k xs i \<longleftrightarrow> user_ok k pgdir xs n \<and> user_ok k d xs i \<and> space k d i \<inter> space k pgdir n = {}
     \<and> (\<forall>va<4096 * n. ubyte (k_mem k) pgdir va = ubyte (k_mem k0) pgdir va)
     \<and> (\<forall>va<4096 * i. ubyte (k_mem k) d va = ubyte (k_mem k0) pgdir va)
     \<and> (\<forall>q<n. pte (k_mem k) pgdir q = pte (k_mem k0) pgdir q)
     \<and> (\<forall>q<i. PTE_FLAGS (pte (k_mem k) d q) = PTE_FLAGS (pte (k_mem k0) pgdir q))
     \<and> (\<forall>q. i \<le> q \<and> q < 0x80000 \<longrightarrow> \<not> present (pte (k_mem k) d q))"

lemma aligned_room:
  assumes "unat (x :: uint) mod 4096 = 0"
  shows "unat x + 4096 \<le> 2 ^ 32"
proof -
  have "unat x < 4096 * 1048576" using unsigned_less [of x, where ?'a = nat] by simp
  then have "unat x div 4096 < 1048576" by (simp add: div_less_iff_less_mult)
  then have "unat x + 4096 \<le> 4294967296" using assms mult_div_mod_eq [of 4096 "unat x"] by linarith
  then show ?thesis by simp
qed

lemma copy_page:
  assumes "unat x mod 4096 = 0" and "unat p mod 4096 = 0"
  shows "memmove m x p PGSIZE a = (if in_page x a then m (p + (a - x)) else m a)"
  using memmove_apply [of p PGSIZE x m a] aligned_room [OF assms(1)] aligned_room [OF assms(2)]
  by (simp add: in_page_def)

lemma pte_walk:
  assumes "present (pte (k_mem k) pgdir n)" and "n < 0x100000"
  shows "walkpgdir pgdir (of_nat (4096 * n)) False k = (Some (slot (k_mem k) pgdir n), k)"
    and "ld32 (k_mem k) (slot (k_mem k) pgdir n) = pte (k_mem k) pgdir n"
proof -
  have "present (ent (k_mem k) pgdir (n div 1024))" using assms(1) by (auto simp: pte_def split: if_splits)
  then show "walkpgdir pgdir (of_nat (4096 * n)) False k = (Some (slot (k_mem k) pgdir n), k)"
    using walk_there [of k pgdir "of_nat (4096 * n)"] one_page(1) [OF assms(2)] by simp
  show "ld32 (k_mem k) (slot (k_mem k) pgdir n) = pte (k_mem k) pgdir n"
    using \<open>present (ent (k_mem k) pgdir (n div 1024))\<close> by (simp add: pte_def slot_def ent_def)
qed

lemma flags_small: "PTE_FLAGS e AND 0xFFF = PTE_FLAGS e"
  by (simp add: PTE_FLAGS_def and.assoc)

lemma flags_present: "present e \<Longrightarrow> PTE_FLAGS e OR PTE_P = PTE_FLAGS e"
proof -
  assume "present e"
  then have "bit e 0" by (simp add: and_one_eq bit_0 odd_iff_mod_2_eq_one)
  then show ?thesis
    unfolding PTE_FLAGS_def FFF_mask by (intro bit_word_eqI) (auto simp: bit_simps)
qed


lemma copying_grow:
  assumes c: "copying k0 pgdir n d k (x # ys) i" and i: "i < n"
    and ok: "pd_ok k' d xs'" and pt: "\<forall>q<1048576. pte (k_mem k') d q
      = ((pte (k_mem k) d)(i := V2P x OR PTE_FLAGS (pte (k_mem k) pgdir i) OR PTE_P)) q"
    and ys: "ys = zs @ xs'" and t: "tables (k_mem k') d = tables (k_mem k) d \<union> set zs"
    and o: "only (insert x (tables (k_mem k') d)) k k'"
    and F: "\<forall>a. in_page x a \<longrightarrow> k_mem k' a = k_mem k (frame (pte (k_mem k) pgdir i) + (a - x))" and xt: "x \<notin> tables (k_mem k') d"
  shows "copying k0 pgdir n d k' xs' (Suc i)"
proof -
  note C = c [unfolded copying_def]
  have up: "user_ok k pgdir (x # ys) n" and ud: "user_ok k d (x # ys) i" and dis: "space k d i \<inter> space k pgdir n = {}" using C by auto
  note P = user_okD [OF up] and Q = user_okD [OF ud]
  have i20: "i < 0x80000" "i < 0x100000" using i P(2) by simp_all
  note g = user_grow [OF ud i20(1) flags_small ok pt ys t o F xt]
  have "\<forall>v\<in>insert x (tables (k_mem k') d). unat v mod 4096 = 0 \<and> v \<notin> space k pgdir n"
  proof
    fix v assume v: "v \<in> insert x (tables (k_mem k') d)"
    have "unat x mod 4096 = 0" using pd_okD(1) [OF P(1)] by (simp add: kmem_ok_def page_ok_def)
    moreover have "unat v mod 4096 = 0" if "v \<in> tables (k_mem k') d" for v using ok that by (auto simp: pd_ok_def page_ok_def)
    moreover have "v \<notin> space k pgdir n" if "v \<in> insert x (set zs)" using P(3) [of v] that ys by auto
    ultimately show "unat v mod 4096 = 0 \<and> v \<notin> space k pgdir n" using v dis by (auto simp: t space_def)
  qed
  note o = user_other [OF up o this pd_okD(1) [OF ok]]
  have sub: "set xs' \<subseteq> set (x # ys)" using ys by auto
  have pe: "present (pte (k_mem k) pgdir i)" by (rule P(4) [OF i])
  have new: "ubyte (k_mem k') d va = ubyte (k_mem k0) pgdir va" if va: "va div 4096 = i" for va
  proof -
    have "va < 4096 * n" using va i div_mult_mod_eq [of va 4096] mod_less_divisor [of 4096 va] by (simp add: div_less_iff_less_mult flip: va)
    moreover have "ubyte (k_mem k') d va = ubyte (k_mem k) pgdir va" using g(3) [OF va] pe by (simp add: ubyte_def va Let_def)
    ultimately show ?thesis using C by simp
  qed
  have al: "unat x mod 4096 = 0" using pd_okD(1) [OF P(1)] by (simp add: kmem_ok_def page_ok_def)
  have "pte (k_mem k') d i = V2P x OR PTE_FLAGS (pte (k_mem k) pgdir i) OR PTE_P" using pt i20 by simp
  then have fl: "PTE_FLAGS (pte (k_mem k') d i) = PTE_FLAGS (pte (k_mem k) pgdir i)"
    by (simp only: user_entry(3) [OF al flags_small]) (rule flags_present [OF pe])
  show ?thesis
    unfolding copying_def
  proof (intro conjI allI impI)
    show "user_ok k' pgdir xs' n" by (rule o(1) [OF sub])
    show "user_ok k' d xs' (Suc i)" by (rule g(1))
    show "space k' d (Suc i) \<inter> space k' pgdir n = {}" using dis P(3) ys by (auto simp: g(4) o(4) [OF sub])
    show "ubyte (k_mem k') pgdir va = ubyte (k_mem k0) pgdir va" if "va < 4096 * n" for va using o(3) [OF sub that] C that by simp
    show "ubyte (k_mem k') d va = ubyte (k_mem k0) pgdir va" if "va < 4096 * Suc i" for va
    proof (cases "va < 4096 * i")
      case True
      then show ?thesis using g(2) C by simp
    next
      case False
      then have "va div 4096 = i" using that by (intro div_nat_eqI) auto
      then show ?thesis by (rule new)
    qed
    show "pte (k_mem k') pgdir q = pte (k_mem k0) pgdir q" if "q < n" for q using o(2) [OF sub, of q] C that P(2) by simp
    show "PTE_FLAGS (pte (k_mem k') d q) = PTE_FLAGS (pte (k_mem k0) pgdir q)" if "q < Suc i" for q
      using fl pt C that i i20 by (cases "q = i") simp_all
    show "\<not> present (pte (k_mem k') d q)" if "Suc i \<le> q \<and> q < 0x80000" for q using pt that C by simp
  qed
qed

lemma copy_step:
  assumes c: "copying k0 pgdir n d k xs i" and i: "i < n" and len: "absent (k_mem k) d + (n - i) \<le> length xs"
  defines "e \<equiv> pte (k_mem k) pgdir i"
  obtains x k1 k' xs' where "walkpgdir pgdir (of_nat (4096 * i)) False k = (Some (slot (k_mem k) pgdir i), k)"
    and "ld32 (k_mem k) (slot (k_mem k) pgdir i) = e" and "present e" and "kalloc k = (x, k1)" and "x \<noteq> 0"
    and "mappages d (of_nat (4096 * i)) PGSIZE (V2P x) (PTE_FLAGS e) (k1\<lparr>k_mem := memmove (k_mem k1) x (frame e) PGSIZE\<rparr>) = Inr (0, k')"
    and "copying k0 pgdir n d k' xs' (Suc i)" and "absent (k_mem k') d + (n - Suc i) \<le> length xs'"
proof -
  note C = c [unfolded copying_def]
  have up: "user_ok k pgdir xs n" and ud: "user_ok k d xs i" and dis: "space k d i \<inter> space k pgdir n = {}" using C by auto
  note P = user_okD [OF up] and Q = user_okD [OF ud]
  have i20: "i < 0x80000" "i < 0x100000" using i P(2) by simp_all
  have pe: "present e" unfolding e_def by (rule P(4) [OF i])
  from len i obtain x ys where xs: "xs = x # ys" by (cases xs) auto
  have x: "unat x mod 4096 = 0" "x \<noteq> 0" using pd_okD(1) [OF P(1)] page_nonzero [of "k_end k" x] by (auto simp: xs kmem_ok_def page_ok_def)
  have fe: "frame e \<in> space k pgdir n" using i by (auto simp: e_def space_def frames_def)
  have fa: "unat (frame e) mod 4096 = 0" using P(3) [OF fe] by simp
  let ?F = "memmove (k_mem k) x (frame e) PGSIZE"
  have F: "\<forall>a. \<not> in_page x a \<longrightarrow> ?F a = k_mem k a" using copy_page [OF x(1) fa] by simp
  have ab: "absent (k_mem k) d \<le> length ys" "\<not> present (pte (k_mem k) d i)" using len i C i20 by (auto simp: xs)
  obtain k' zs xs' where
    a: "mappages d (of_nat (4096 * i)) PGSIZE (V2P x) (PTE_FLAGS e) (k\<lparr>freelist := ld32 (k_mem k) x, k_mem := ?F\<rparr>) = Inr (0, k')"
      "pd_ok k' d xs'" "\<forall>q<1048576. pte (k_mem k') d q = ((pte (k_mem k) d)(i := V2P x OR PTE_FLAGS e OR PTE_P)) q"
      "ys = zs @ xs'" "tables (k_mem k') d = tables (k_mem k) d \<union> set zs" "absent (k_mem k) d = absent (k_mem k') d + length zs"
      "only (insert x (tables (k_mem k') d)) k k'" "\<forall>a. in_page x a \<longrightarrow> k_mem k' a = ?F a" "x \<notin> tables (k_mem k') d"
    by (rule add_page [OF Q(1) [unfolded xs] i20(2) ab(2,1) F])
  have "copying k0 pgdir n d k' xs' (Suc i)"
    by (rule copying_grow [OF c [unfolded xs] i a(2) a(3) [unfolded e_def] a(4,5,7) _ a(9)]) (use a(8) copy_page [OF x(1) fa] in \<open>auto simp: e_def\<close>)
  moreover have "absent (k_mem k') d + (n - Suc i) \<le> length xs'" using len a(4,6) i by (simp add: xs)
  moreover have "kalloc k = (x, k\<lparr>freelist := ld32 (k_mem k) x\<rparr>)" using kalloc_ok(1) [OF pd_okD(1) [OF P(1)]] by (simp add: xs)
  ultimately show thesis
    using a(1) x(2) pe pte_walk [OF P(4) [OF i] i20(2)] by (intro that [of x "k\<lparr>freelist := ld32 (k_mem k) x\<rparr>" k' xs']) (simp_all add: e_def)
qed


text \<open>The number of pages of a size.\<close>

definition pages :: "uint \<Rightarrow> nat" where
  "pages sz = (unat sz + 4095) div 4096"

lemma pages_le: "unat sz \<le> 4096 * i \<longleftrightarrow> pages sz \<le> i"
proof -
  have "pages sz \<le> i \<longleftrightarrow> pages sz < Suc i" by auto
  also have "\<dots> \<longleftrightarrow> unat sz + 4095 < Suc i * 4096" unfolding pages_def by (rule div_less_iff_less_mult) simp
  also have "\<dots> \<longleftrightarrow> unat sz \<le> 4096 * i" by auto
  finally show ?thesis by simp
qed

lemma copyuvm_loop_ok:
  assumes "copying k0 pgdir (pages sz) d k xs i" and "absent (k_mem k) d + (pages sz - i) \<le> length xs" and "i \<le> pages sz"
  shows "\<exists>k' xs'. copyuvm_loop d pgdir (4096 * i) sz k = Inr (d, k') \<and> copying k0 pgdir (pages sz) d k' xs' (pages sz)"
  using assms
proof (induction "pages sz - i" arbitrary: i k xs)
  case 0
  then have e: "i = pages sz" by simp
  have "unat sz \<le> 4096 * i" unfolding pages_le e ..
  then show ?case using "0.prems"(1) e by (subst copyuvm_loop.simps) auto
next
  case (Suc j)
  have i: "i < pages sz" using Suc.hyps(2) by simp
  then have ni: "\<not> unat sz \<le> 4096 * i" unfolding pages_le by simp
  obtain x k1 k' xs' where
    s: "walkpgdir pgdir (of_nat (4096 * i)) False k = (Some (slot (k_mem k) pgdir i), k)"
      "ld32 (k_mem k) (slot (k_mem k) pgdir i) = pte (k_mem k) pgdir i" "present (pte (k_mem k) pgdir i)" "kalloc k = (x, k1)" "x \<noteq> 0"
      "mappages d (of_nat (4096 * i)) PGSIZE (V2P x) (PTE_FLAGS (pte (k_mem k) pgdir i))
        (k1\<lparr>k_mem := memmove (k_mem k1) x (frame (pte (k_mem k) pgdir i)) PGSIZE\<rparr>) = Inr (0, k')"
      "copying k0 pgdir (pages sz) d k' xs' (Suc i)" "absent (k_mem k') d + (pages sz - Suc i) \<le> length xs'"
    by (rule copy_step [OF Suc.prems(1) i Suc.prems(2)])
  have e: "4096 * Suc i = 4096 * i + 4096" by simp
  have "copyuvm_loop d pgdir (4096 * i) sz k = copyuvm_loop d pgdir (4096 * Suc i) sz k'"
    unfolding e using ni s(1-6) by (subst copyuvm_loop.simps) (simp add: frame_def Let_def del: of_nat_mult)
  moreover have "\<exists>k'' xs''. copyuvm_loop d pgdir (4096 * Suc i) sz k' = Inr (d, k'') \<and> copying k0 pgdir (pages sz) d k'' xs'' (pages sz)"
    by (rule Suc.hyps(1) [OF _ s(7,8)]) (use Suc.hyps(2) i in auto)
  ultimately show ?case by simp
qed


lemma kern_map_user: "0x80100 < D \<Longrightarrow> q < 0x80000 \<Longrightarrow> kern_map D q = 0"
  by (simp add: kern_map_def)

lemma copying_start:
  assumes u: "user_ok k pgdir xs n" and lay: "kernel_layout k" and len: "1025 + n \<le> length xs"
  obtains d k' xs' where "setupkvm k = Inr (d, k')" and "d \<noteq> 0" and "copying k pgdir n d k' xs' 0" and "absent (k_mem k') d + n \<le> length xs'"
proof -
  note P = user_okD [OF u]
  from len obtain x ys where xs: "xs = x # ys" by (cases xs) auto
  have ys: "1024 \<le> length ys" using len by (simp add: xs)
  obtain k' xs' zs where s: "setupkvm k = Inr (x, k')" "pd_ok k' x xs'"
    "\<forall>n<1048576. pte (k_mem k') x n = kern_map (vpn (k_data k)) n" "ys = zs @ xs'" "tables (k_mem k') x = insert x (set zs)"
    "only (insert x (set zs)) k k'" "absent (k_mem k') x + length zs = 1024" "x \<noteq> 0"
    by (rule setupkvm_ok [OF pd_okD(1) [OF P(1), unfolded xs] lay ys])
  have al: "\<And>v. v \<in> set xs \<Longrightarrow> unat v mod 4096 = 0" using pd_okD(1) [OF P(1)] by (auto simp: kmem_ok_def page_ok_def)
  have "\<forall>v\<in>insert x (set zs). unat v mod 4096 = 0 \<and> v \<notin> space k pgdir n" using al P(3) s(4) by (auto simp: xs)
  moreover have "set xs' \<subseteq> set xs" using s(4) by (auto simp: xs)
  ultimately have o: "user_ok k' pgdir xs' n" "\<And>q. q < 1048576 \<Longrightarrow> pte (k_mem k') pgdir q = pte (k_mem k) pgdir q"
    "\<And>va. va < 4096 * n \<Longrightarrow> ubyte (k_mem k') pgdir va = ubyte (k_mem k) pgdir va" "space k' pgdir n = space k pgdir n"
    using user_other [OF u s(6) _ pd_okD(1) [OF s(2)]] by auto
  have "pte (k_mem k') x q = 0" if "q < 0x80000" for q using s(3) kern_map_user [OF kmap_ranges(2) [OF lay] that] that by simp
  moreover have "space k' x 0 \<inter> space k' pgdir n = {}" using P(3) s(4) by (auto simp: space_def [of k' x] frames_def s(5) o(4) xs)
  moreover have "user_ok k' x xs' 0" using s(2) by (simp add: user_ok_def)
  ultimately have "copying k pgdir n x k' xs' 0" using o P(2) by (simp add: copying_def)
  moreover have "absent (k_mem k') x + n \<le> length xs'" using len s(4,7) by (simp add: xs)
  ultimately show thesis using s(1,8) by (intro that)
qed

lemma copyuvm_ok:
  assumes "user_ok k pgdir xs (pages sz)" and "kernel_layout k" and "1025 + pages sz \<le> length xs"
  obtains d k' xs' where "copyuvm pgdir sz k = Inr (d, k')" and "d \<noteq> 0" and "copying k pgdir (pages sz) d k' xs' (pages sz)"
proof -
  obtain d k1 xs1 where s: "setupkvm k = Inr (d, k1)" "d \<noteq> 0" "copying k pgdir (pages sz) d k1 xs1 0"
    "absent (k_mem k1) d + pages sz \<le> length xs1" by (rule copying_start [OF assms])
  from copyuvm_loop_ok [OF s(3)] s(4) obtain k' xs' where "copyuvm_loop d pgdir 0 sz k1 = Inr (d, k')"
    "copying k pgdir (pages sz) d k' xs' (pages sz)" by auto
  then show thesis using that s(1,2) by (simp add: copyuvm_def)
qed


text \<open>The pages from \<open>n\<close> up to \<open>i\<close> are new and full of zeros; what was there before, in \<open>k0\<close>, is as it was.\<close>

definition growing :: "kmem \<Rightarrow> nat \<Rightarrow> uint \<Rightarrow> kmem \<Rightarrow> uint list \<Rightarrow> nat \<Rightarrow> bool" where
  "growing k0 n pgdir k xs i \<longleftrightarrow> user_ok k pgdir xs i \<and> n \<le> i \<and> k_data k = k_data k0
     \<and> (\<forall>va<4096 * n. ubyte (k_mem k) pgdir va = ubyte (k_mem k0) pgdir va)
     \<and> (\<forall>va. 4096 * n \<le> va \<and> va < 4096 * i \<longrightarrow> ubyte (k_mem k) pgdir va = Some 0)
     \<and> (\<forall>q. i \<le> q \<and> q < 0x80000 \<longrightarrow> \<not> present (pte (k_mem k) pgdir q))"

lemma grow_step:
  assumes c: "growing k0 n pgdir k xs i" and i: "i < 0x80000" and len: "absent (k_mem k) pgdir + m < length xs"
  obtains x k1 k' xs' where "kalloc k = (x, k1)" and "x \<noteq> 0"
    and "mappages pgdir (of_nat (4096 * i)) PGSIZE (V2P x) (PTE_W OR PTE_U) (k1\<lparr>k_mem := memset (k_mem k1) x 0 PGSIZE\<rparr>) = Inr (0, k')"
    and "growing k0 n pgdir k' xs' (Suc i)" and "absent (k_mem k') pgdir + m \<le> length xs'"
proof -
  note C = c [unfolded growing_def]
  have u: "user_ok k pgdir xs i" using C by auto
  note P = user_okD [OF u]
  from len obtain x ys where xs: "xs = x # ys" by (cases xs) auto
  have x: "unat x mod 4096 = 0" "x \<noteq> 0" using pd_okD(1) [OF P(1)] page_nonzero [of "k_end k" x] by (auto simp: xs kmem_ok_def page_ok_def)
  let ?F = "memset (k_mem k) x 0 PGSIZE"
  have F: "\<forall>a. \<not> in_page x a \<longrightarrow> ?F a = k_mem k a" by (simp add: memset_page)
  have ab: "absent (k_mem k) pgdir \<le> length ys" "\<not> present (pte (k_mem k) pgdir i)" "i < 0x100000" using len i C by (auto simp: xs)
  obtain k' zs xs' where
    a: "mappages pgdir (of_nat (4096 * i)) PGSIZE (V2P x) (PTE_W OR PTE_U) (k\<lparr>freelist := ld32 (k_mem k) x, k_mem := ?F\<rparr>) = Inr (0, k')"
      "pd_ok k' pgdir xs'" "\<forall>q<1048576. pte (k_mem k') pgdir q = ((pte (k_mem k) pgdir)(i := V2P x OR (PTE_W OR PTE_U) OR PTE_P)) q"
      "ys = zs @ xs'" "tables (k_mem k') pgdir = tables (k_mem k) pgdir \<union> set zs" "absent (k_mem k) pgdir = absent (k_mem k') pgdir + length zs"
      "only (insert x (tables (k_mem k') pgdir)) k k'" "\<forall>a. in_page x a \<longrightarrow> k_mem k' a = ?F a" "x \<notin> tables (k_mem k') pgdir"
    by (rule add_page [OF P(1) [unfolded xs] ab(3,2,1) F])
  have "(PTE_W OR PTE_U) AND 0xFFF = PTE_W OR PTE_U" by simp
  note g = user_grow [OF u [unfolded xs] i this a(2,3,4,5,7,8,9)]
  have new: "ubyte (k_mem k') pgdir va = Some 0" if "va div 4096 = i" for va
  proof -
    have "unat (of_nat (va mod 4096) :: uint) < 4096"
      unfolding unat_of_nat by (rule le_less_trans [OF mod_less_eq_dividend]) simp
    then have "in_page x (x + of_nat (va mod 4096))" by (simp add: in_page_def)
    then show ?thesis using g(3) [OF that] by (simp add: memset_page)
  qed
  have "growing k0 n pgdir k' xs' (Suc i)"
    unfolding growing_def
  proof (intro conjI allI impI)
    show "user_ok k' pgdir xs' (Suc i)" by (rule g(1))
    show "n \<le> Suc i" "k_data k' = k_data k0" using C a(7) by (simp_all add: only_def)
    show "ubyte (k_mem k') pgdir va = ubyte (k_mem k0) pgdir va" if "va < 4096 * n" for va using g(2) [of va] C that by simp
    show "ubyte (k_mem k') pgdir va = Some 0" if va: "4096 * n \<le> va \<and> va < 4096 * Suc i" for va
    proof (cases "va < 4096 * i")
      case True
      then show ?thesis using g(2) C va by simp
    next
      case False
      then have "va div 4096 = i" using va by (intro div_nat_eqI) auto
      then show ?thesis by (rule new)
    qed
    show "\<not> present (pte (k_mem k') pgdir q)" if "Suc i \<le> q \<and> q < 0x80000" for q using a(3) that C by simp
  qed
  moreover have "absent (k_mem k') pgdir + m \<le> length xs'" using len a(4,6) by (simp add: xs)
  moreover have "kalloc k = (x, k\<lparr>freelist := ld32 (k_mem k) x\<rparr>)" using kalloc_ok(1) [OF pd_okD(1) [OF P(1)]] by (simp add: xs)
  ultimately show thesis
    using a(1) x(2) by (intro that [of x "k\<lparr>freelist := ld32 (k_mem k) x\<rparr>" k' xs']) simp_all
qed

lemma allocuvm_loop_ok:
  assumes "growing k0 n pgdir k xs i" and "absent (k_mem k) pgdir + (pages newsz - i) + m \<le> length xs" and "i \<le> pages newsz"
    and "pages newsz \<le> 0x80000"
  shows "\<exists>k' xs'. allocuvm_loop pgdir (4096 * i) oldsz newsz k = Inr (newsz, k') \<and> growing k0 n pgdir k' xs' (pages newsz)
    \<and> absent (k_mem k') pgdir + m \<le> length xs'"
  using assms
proof (induction "pages newsz - i" arbitrary: i k xs)
  case 0
  then have e: "i = pages newsz" by simp
  have "unat newsz \<le> 4096 * i" unfolding pages_le e ..
  then show ?case using "0.prems"(1,2) e by (subst allocuvm_loop.simps) auto
next
  case (Suc j)
  have i: "i < pages newsz" using Suc.hyps(2) by simp
  then have ni: "\<not> unat newsz \<le> 4096 * i" unfolding pages_le by simp
  have l: "i < 0x80000" "absent (k_mem k) pgdir + ((pages newsz - Suc i) + m) < length xs" using i Suc.prems(2,4) by simp_all
  obtain x k1 k' xs' where
    s: "kalloc k = (x, k1)" "x \<noteq> 0"
      "mappages pgdir (of_nat (4096 * i)) PGSIZE (V2P x) (PTE_W OR PTE_U) (k1\<lparr>k_mem := memset (k_mem k1) x 0 PGSIZE\<rparr>) = Inr (0, k')"
      "growing k0 n pgdir k' xs' (Suc i)" "absent (k_mem k') pgdir + ((pages newsz - Suc i) + m) \<le> length xs'"
    by (rule grow_step [OF Suc.prems(1) l])
  have e: "4096 * Suc i = 4096 * i + 4096" by simp
  have "allocuvm_loop pgdir (4096 * i) oldsz newsz k = allocuvm_loop pgdir (4096 * Suc i) oldsz newsz k'"
    unfolding e using ni s(1-3) by (subst allocuvm_loop.simps) (simp del: of_nat_mult)
  moreover have "\<exists>k'' xs''. allocuvm_loop pgdir (4096 * Suc i) oldsz newsz k' = Inr (newsz, k'') \<and> growing k0 n pgdir k'' xs'' (pages newsz)
    \<and> absent (k_mem k'') pgdir + m \<le> length xs''"
    by (rule Suc.hyps(1) [OF _ s(4)]) (use s(5) Suc.hyps(2) Suc.prems(4) i in auto)
  ultimately show ?case by simp
qed

lemma allocuvm_ok:
  assumes u: "user_ok k pgdir xs (pages oldsz)" and un: "\<forall>q. pages oldsz \<le> q \<and> q < 0x80000 \<longrightarrow> \<not> present (pte (k_mem k) pgdir q)"
    and sz: "oldsz \<le> newsz" "newsz < KERNBASE" and len: "absent (k_mem k) pgdir + (pages newsz - pages oldsz) + m \<le> length xs"
  obtains k' xs' where "allocuvm pgdir oldsz newsz k = Inr (newsz, k')" and "growing k (pages oldsz) pgdir k' xs' (pages newsz)"
    and "absent (k_mem k') pgdir + m \<le> length xs'"
proof -
  have n: "unat newsz < 0x80000000" "unat oldsz \<le> unat newsz" using sz by (simp_all add: KERNBASE_def word_less_nat_alt word_le_nat_alt)
  then have p: "pages newsz \<le> 0x80000" "pages oldsz \<le> pages newsz" by (simp_all add: pages_def div_le_mono)
  have "unat (PGROUNDUP oldsz) = 4096 * pages oldsz"
    using PGROUNDUP_unat [of oldsz] n by (simp add: PGROUND_spec_def pages_def)
  moreover have "growing k (pages oldsz) pgdir k xs (pages oldsz)" using u un by (auto simp: growing_def)
  from allocuvm_loop_ok [OF this len p(2,1), of oldsz] obtain k' xs' where
    "allocuvm_loop pgdir (4096 * pages oldsz) oldsz newsz k = Inr (newsz, k')" and g: "growing k (pages oldsz) pgdir k' xs' (pages newsz)"
    "absent (k_mem k') pgdir + m \<le> length xs'" by blast
  moreover have "\<not> newsz < oldsz" "\<not> KERNBASE \<le> newsz" using sz by (meson not_le)+
  ultimately have "allocuvm pgdir oldsz newsz k = Inr (newsz, k')" by (simp add: allocuvm_def)
  then show thesis using g by (rule that)
qed


text \<open>What the entries of the kernel's map say.\<close>

lemma entry_bits:
  assumes "q < 0x100000"
  shows "PTE_ADDR (of_nat (4096 * q) OR PTE_W OR PTE_P) = of_nat (4096 * q)" and "PTE_ADDR (of_nat (4096 * q) OR 0 OR PTE_P) = of_nat (4096 * q)"
    and "PTE_FLAGS (of_nat (4096 * q) OR PTE_W OR PTE_P) = PTE_W OR PTE_P" and "PTE_FLAGS (of_nat (4096 * q) OR 0 OR PTE_P) = PTE_P"
proof -
  have "unat (of_nat (4096 * q) :: uint) = 4096 * q" unfolding unat_of_nat by (rule mod_less) (use assms in simp)
  then have a: "unat (of_nat (4096 * q) :: uint) mod 4096 = 0" by simp
  show "PTE_ADDR (of_nat (4096 * q) OR PTE_W OR PTE_P) = of_nat (4096 * q)" "PTE_FLAGS (of_nat (4096 * q) OR PTE_W OR PTE_P) = PTE_W OR PTE_P"
    by (rule PTE_ADDR_or [OF a], simp)+
  show "PTE_ADDR (of_nat (4096 * q) OR 0 OR PTE_P) = of_nat (4096 * q)" "PTE_FLAGS (of_nat (4096 * q) OR 0 OR PTE_P) = PTE_P"
    using PTE_ADDR_or [OF a, of PTE_P] by simp_all
qed

lemma flag_bits: "e AND f = PTE_FLAGS e AND f" if "f AND 0xFFF = f"
proof -
  have "PTE_FLAGS e AND f = e AND (f AND 0xFFF)" by (simp add: PTE_FLAGS_def and.assoc and.commute [of f])
  then show ?thesis using that by simp
qed

lemma kern_map_entry:
  assumes "0x80100 \<le> D" and "D < 0x8E000" and "q < 0x100000"
  defines "e \<equiv> kern_map D q"
  shows "(present e \<longleftrightarrow> 0x80000 \<le> q \<and> q < 0x8E000 \<or> 0xFE000 \<le> q)
    \<and> (present e \<longrightarrow> PTE_ADDR e = of_nat (4096 * (if q < 0x8E000 then q - 0x80000 else q)) \<and> e AND PTE_U = 0
         \<and> (e AND PTE_W = 0 \<longleftrightarrow> 0x80100 \<le> q \<and> q < D))"
proof -
  have f: "e AND PTE_U = PTE_FLAGS e AND PTE_U" "e AND PTE_W = PTE_FLAGS e AND PTE_W" "e AND PTE_P = PTE_FLAGS e AND PTE_P"
    by (rule flag_bits, simp)+
  have z: "PTE_FLAGS 0 = 0" by (simp add: PTE_FLAGS_def)
  note b = entry_bits [OF assms(3)] entry_bits [of "q - 0x80000"]
  show ?thesis
    unfolding f
    using assms(1-3) b z unfolding e_def kern_map_def by auto
qed

subsection \<open>A sample machine\<close>

text \<open>The memory behind the kernel, all of it free: 56320 pages, as \<^verbatim>\<open>kinit1\<close> leaves it.\<close>

lemma sample_memory:
  obtains k xs where "kmem_ok k xs" and "kernel_layout k" and "length xs = 56320"
proof -
  let ?p = "0x80400000 :: uint" and ?e = "0x8E000000 :: uint"
  have "kmem_ok demo_kmem []" by (simp add: kmem_ok_def demo_kmem_def)
  from freerange_loop_ok [OF this, of ?p ?e 56320] obtain k where
    "kmem_ok k (rev (pages_from ?p 56320))" "k_data k = k_data demo_kmem" by (auto simp: demo_kmem_def)
  moreover have "length (rev (pages_from ?p 56320)) = 56320" by (simp add: pages_from_def)
  ultimately show thesis using that by (simp add: kernel_layout_def demo_kmem_def)
qed

text \<open>A process of two pages: a new directory, grown from nothing.\<close>

lemma sample_process:
  obtains k pgdir xs where "user_ok k pgdir xs (pages 5000)" and "kernel_layout k" and "5000 \<le> length xs"
    and "\<forall>q. pages 5000 \<le> q \<and> q < 0x80000 \<longrightarrow> \<not> present (pte (k_mem k) pgdir q)"
proof -
  obtain k0 zs where s: "kmem_ok k0 zs" "kernel_layout k0" "length zs = 56320" by (rule sample_memory)
  then obtain x ys where z: "zs = x # ys" by (cases zs) auto
  have ly: "1024 \<le> length ys" using s(3) z by simp
  obtain k1 xs1 ws where u: "setupkvm k0 = Inr (x, k1)" "pd_ok k1 x xs1" "\<forall>n<1048576. pte (k_mem k1) x n = kern_map (vpn (k_data k0)) n"
    "ys = ws @ xs1" "tables (k_mem k1) x = insert x (set ws)" "only (insert x (set ws)) k0 k1" "absent (k_mem k1) x + length ws = 1024" "x \<noteq> 0"
    by (rule setupkvm_ok [OF s(1) [unfolded z] s(2) ly])
  have lay: "kernel_layout k1" using s(2) u(6) by (simp add: kernel_layout_def only_def)
  have D: "0x80100 < vpn (k_data k0) \<or> vpn (k_data k0) = 0x80100" "0x80000 < vpn (k_data k0)"
    using s(2) by (auto simp: kernel_layout_def vpn_def)
  have p0: "pages 0 = 0" "pages 5000 = 2" by (simp_all add: pages_def)
  have us: "user_ok k1 x xs1 (pages 0)" using u(2) by (simp add: user_ok_def p0)
  have un: "\<forall>q. pages 0 \<le> q \<and> q < 0x80000 \<longrightarrow> \<not> present (pte (k_mem k1) x q)"
    using u(3) D by (auto simp: kern_map_def)
  have len: "absent (k_mem k1) x + (pages 5000 - pages 0) + 5000 \<le> length xs1" using s(3) z u(4,7) by (simp add: p0)
  obtain k' xs' where g: "allocuvm x 0 5000 k1 = Inr (5000, k')" "growing k1 (pages 0) x k' xs' (pages 5000)"
    "absent (k_mem k') x + 5000 \<le> length xs'"
    by (rule allocuvm_ok [OF us un _ _ len]) (simp_all add: KERNBASE_def)
  then show thesis using lay by (intro that [of k' x xs']) (auto simp: growing_def kernel_layout_def)
qed

subsection \<open>Properties\<close>



text \<open>C23: Growing a process with \<^verbatim>\<open>allocuvm\<close>, with enough free pages, gives it the new size: every address it had reads
  what it read, every new address up to the rounded size reads zero, nothing above is mapped, and all its pages are
  pages of its own, none free.\<close>

theorem allocuvm_grows_with_zeros:
  assumes "user_ok k pgdir xs (pages oldsz)" and "\<forall>q. pages oldsz \<le> q \<and> q < 0x80000 \<longrightarrow> \<not> present (pte (k_mem k) pgdir q)"
    and "oldsz \<le> newsz" and "newsz < KERNBASE" and "absent (k_mem k) pgdir + (pages newsz - pages oldsz) \<le> length xs"
  shows "\<exists>k' xs'. allocuvm pgdir oldsz newsz k = Inr (newsz, k') \<and> user_ok k' pgdir xs' (pages newsz)
    \<and> (\<forall>va<0x80000000. ubyte (k_mem k') pgdir va =
         (if va < 4096 * pages oldsz then ubyte (k_mem k) pgdir va else if va < 4096 * pages newsz then Some 0 else None))"
proof -
  have l: "absent (k_mem k) pgdir + (pages newsz - pages oldsz) + 0 \<le> length xs" using assms(5) by simp
  obtain k' xs' where g: "allocuvm pgdir oldsz newsz k = Inr (newsz, k')" "growing k (pages oldsz) pgdir k' xs' (pages newsz)"
    "absent (k_mem k') pgdir + 0 \<le> length xs'" by (rule allocuvm_ok [OF assms(1-4) l])
  have "ubyte (k_mem k') pgdir va = None" if "4096 * pages newsz \<le> va" "va < 0x80000000" for va
  proof -
    have "pages newsz \<le> va div 4096" "va div 4096 < 0x80000" using that by (auto simp: less_eq_div_iff_mult_less_eq)
    then show ?thesis using g(2) by (simp add: growing_def ubyte_def)
  qed
  then show ?thesis using g by (intro exI [of _ k'] exI [of _ xs']) (auto simp: growing_def not_less)
qed

theorem allocuvm_grows_with_zeros_witness:
  "\<exists>k pgdir k'. allocuvm pgdir 5000 20000 k = Inr (20000, k') \<and> ubyte (k_mem k') pgdir 19999 = Some 0"
proof -
  have p: "pages 5000 = 2" "pages 20000 = 5" by (simp_all add: pages_def)
  obtain k pgdir xs where s: "user_ok k pgdir xs (pages 5000)" "kernel_layout k" "5000 \<le> length xs"
    "\<forall>q. pages 5000 \<le> q \<and> q < 0x80000 \<longrightarrow> \<not> present (pte (k_mem k) pgdir q)" by (rule sample_process)
  have "absent (k_mem k) pgdir \<le> card {..<1024::nat}" unfolding absent_def by (rule card_mono) auto
  then have "absent (k_mem k) pgdir + (pages 20000 - pages 5000) \<le> length xs" using s(3) p by simp
  with s(1,4) obtain k' where a: "allocuvm pgdir 5000 20000 k = Inr (20000, k')"
    "\<forall>va<0x80000000. ubyte (k_mem k') pgdir va =
       (if va < 4096 * pages 5000 then ubyte (k_mem k) pgdir va else if va < 4096 * pages 20000 then Some 0 else None)"
    using allocuvm_grows_with_zeros [of k pgdir xs 5000 20000] by (auto simp: KERNBASE_def)
  have "ubyte (k_mem k') pgdir 19999 = Some 0" using a(2) p by simp
  with a(1) show ?thesis by blast
qed


text \<open>C25: The address space \<^verbatim>\<open>setupkvm\<close> builds: nothing below \<^verbatim>\<open>KERNBASE\<close> is mapped; each page of the kernel's half up to
  \<^verbatim>\<open>KERNBASE + PHYSTOP\<close> is mapped to the physical page \<^verbatim>\<open>KERNBASE\<close> lower, writable unless it is kernel text or
  read-only data (from \<^verbatim>\<open>KERNLINK\<close> up to \<^verbatim>\<open>data\<close>); the devices from \<^verbatim>\<open>DEVSPACE\<close> on are mapped to themselves, writable;
  nothing in between is mapped; and a process can touch none of it.\<close>

theorem setupkvm_maps_kernel:
  assumes "kmem_ok k (x # ys)" and "kernel_layout k" and "1024 \<le> length ys"
  shows "\<exists>k'. setupkvm k = Inr (x, k') \<and> (\<forall>q<0x100000. let e = pte (k_mem k') x q in
    (present e \<longleftrightarrow> 0x80000 \<le> q \<and> q < 0x8E000 \<or> 0xFE000 \<le> q)
    \<and> (present e \<longrightarrow> PTE_ADDR e = of_nat (4096 * (if q < 0x8E000 then q - 0x80000 else q)) \<and> e AND PTE_U = 0
         \<and> (e AND PTE_W = 0 \<longleftrightarrow> 0x80100 \<le> q \<and> q < vpn (k_data k))))"
proof -
  obtain k' xs' zs where s: "setupkvm k = Inr (x, k')" "pd_ok k' x xs'" "\<forall>n<1048576. pte (k_mem k') x n = kern_map (vpn (k_data k)) n"
    "ys = zs @ xs'" "tables (k_mem k') x = insert x (set zs)" "only (insert x (set zs)) k k'"
    "absent (k_mem k') x + length zs = 1024" "x \<noteq> 0" by (rule setupkvm_ok [OF assms])
  have D: "0x80100 \<le> vpn (k_data k)" "vpn (k_data k) < 0x8E000" using assms(2) by (auto simp: kernel_layout_def vpn_def)
  show ?thesis using s(1,3) kern_map_entry [OF D] by (intro exI [of _ k']) (simp add: Let_def)
qed


theorem setupkvm_maps_kernel_witness:
  "\<exists>k x k'. setupkvm k = Inr (x, k') \<and> PTE_ADDR (pte (k_mem k') x 0x80200) = 0x200000 \<and> \<not> present (pte (k_mem k') x 0)"
proof -
  obtain k xs where s: "kmem_ok k xs" "kernel_layout k" "length xs = 56320" by (rule sample_memory)
  then obtain x ys where z: "xs = x # ys" by (cases xs) auto
  have "1024 \<le> length ys" using s(3) z by simp
  from setupkvm_maps_kernel [OF s(1) [unfolded z] s(2) this] obtain k' where m: "setupkvm k = Inr (x, k')"
    "\<forall>q<0x100000. let e = pte (k_mem k') x q in (present e \<longleftrightarrow> 0x80000 \<le> q \<and> q < 0x8E000 \<or> 0xFE000 \<le> q)
      \<and> (present e \<longrightarrow> PTE_ADDR e = of_nat (4096 * (if q < 0x8E000 then q - 0x80000 else q)) \<and> e AND PTE_U = 0
           \<and> (e AND PTE_W = 0 \<longleftrightarrow> 0x80100 \<le> q \<and> q < vpn (k_data k)))" by blast
  have "PTE_ADDR (pte (k_mem k') x 0x80200) = 0x200000" "\<not> present (pte (k_mem k') x 0)"
    using m(2) [rule_format, of "0x80200"] m(2) [rule_format, of 0] by (simp_all add: Let_def)
  with m(1) show ?thesis by blast
qed

end
