(* ===== verification/KSeg.thy ===== *)
theory KSeg
  imports KVm
begin

text \<open>
  Segmentation (\<^verbatim>\<open>includes/generic/mmu.h\<close>, \<^verbatim>\<open>seginit\<close> and \<^verbatim>\<open>switchuvm\<close> of \<^verbatim>\<open>kernel/vm.c\<close>): the segment descriptors of
  a CPU with their bit fields at their widths, the task state segment, and the registers loaded with them. The lemmas
  decode the descriptors the way the processor does: base, limit in bytes, privilege.
\<close>

section \<open>Definitions\<close>

abbreviation "SEG_KCODE \<equiv> 1 :: nat"
abbreviation "SEG_KDATA \<equiv> 2 :: nat"
abbreviation "SEG_UCODE \<equiv> 3 :: nat"
abbreviation "SEG_UDATA \<equiv> 4 :: nat"
abbreviation "SEG_TSS \<equiv> 5 :: nat"
abbreviation "DPL_USER \<equiv> 3 :: 2 word"
abbreviation "STA_X \<equiv> 8 :: 4 word"
abbreviation "STA_W \<equiv> 2 :: 4 word"
abbreviation "STA_R \<equiv> 2 :: 4 word"
abbreviation "STS_T32A \<equiv> 9 :: 4 word"

record segdesc =
  lim_15_0 :: "16 word"
  base_15_0 :: "16 word"
  base_23_16 :: "8 word"
  sd_type :: "4 word"
  sd_s :: "1 word"
  sd_dpl :: "2 word"
  sd_p :: "1 word"
  lim_19_16 :: "4 word"
  sd_avl :: "1 word"
  sd_rsv1 :: "1 word"
  sd_db :: "1 word"
  sd_g :: "1 word"
  base_31_24 :: "8 word"

text \<open>The initialiser truncates each value to the width of its bit field.\<close>

definition SEG :: "4 word \<Rightarrow> uint \<Rightarrow> uint \<Rightarrow> 2 word \<Rightarrow> segdesc" where
  "SEG type base lim dpl =
     \<lparr>lim_15_0 = ucast (drop_bit 12 lim AND 0xFFFF), base_15_0 = ucast (base AND 0xFFFF),
      base_23_16 = ucast (drop_bit 16 base AND 0xFF), sd_type = type, sd_s = 1, sd_dpl = dpl, sd_p = 1,
      lim_19_16 = ucast (drop_bit 28 lim), sd_avl = 0, sd_rsv1 = 0, sd_db = 1, sd_g = 1, base_31_24 = ucast (drop_bit 24 base)\<rparr>"

definition SEG16 :: "4 word \<Rightarrow> uint \<Rightarrow> uint \<Rightarrow> 2 word \<Rightarrow> segdesc" where
  "SEG16 type base lim dpl =
     \<lparr>lim_15_0 = ucast (lim AND 0xFFFF), base_15_0 = ucast (base AND 0xFFFF),
      base_23_16 = ucast (drop_bit 16 base AND 0xFF), sd_type = type, sd_s = 1, sd_dpl = dpl, sd_p = 1,
      lim_19_16 = ucast (drop_bit 16 lim), sd_avl = 0, sd_rsv1 = 0, sd_db = 1, sd_g = 0, base_31_24 = ucast (drop_bit 24 base)\<rparr>"

text \<open>
  The parts of \<^verbatim>\<open>struct cpu\<close> that segmentation sets, with the fields of its \<^verbatim>\<open>struct taskstate\<close> that the kernel writes,
  and the registers the instructions \<^verbatim>\<open>lgdt\<close> (the size of the table), \<^verbatim>\<open>ltr\<close> and \<^verbatim>\<open>lcr3\<close> load.
\<close>

record seg_cpu =
  gdt :: "nat \<Rightarrow> segdesc"
  ts_ss0 :: ushort
  ts_esp0 :: uint
  ts_iomb :: ushort
  gdtr_limit :: nat
  tr :: ushort
  cr3 :: uint

abbreviation "NSEGS \<equiv> 6 :: nat"

definition seginit :: "seg_cpu \<Rightarrow> seg_cpu" where
  "seginit c = c\<lparr>gdt := (gdt c)(SEG_KCODE := SEG (STA_X OR STA_R) 0 0xFFFFFFFF 0, SEG_KDATA := SEG STA_W 0 0xFFFFFFFF 0,
       SEG_UCODE := SEG (STA_X OR STA_R) 0 0xFFFFFFFF DPL_USER, SEG_UDATA := SEG STA_W 0 0xFFFFFFFF DPL_USER),
     gdtr_limit := 8 * NSEGS - 1\<rparr>"

text \<open>
  \<^verbatim>\<open>switchuvm\<close> on a CPU whose \<^verbatim>\<open>ts\<close>, of 104 bytes, is at address \<^verbatim>\<open>ts\<close>: the checks and the two values that depend
  on the process are those of \<^const>\<open>switchuvm\<close>.
\<close>

definition switchuvm_cpu :: "uint \<Rightarrow> (uint \<times> uint) option \<Rightarrow> seg_cpu \<Rightarrow> seg_cpu res" where
  "switchuvm_cpu ts p c =
     rbind (switchuvm p) (\<lambda>(esp0, pd).
       Inr (c\<lparr>gdt := (gdt c)(SEG_TSS := (SEG16 STS_T32A ts (104 - 1) 0)\<lparr>sd_s := 0\<rparr>),
         ts_ss0 := of_nat (8 * SEG_KDATA), ts_esp0 := esp0, ts_iomb := 0xFFFF, tr := of_nat (8 * SEG_TSS), cr3 := pd\<rparr>))"

section \<open>Lemmas\<close>

text \<open>What the processor reads from a descriptor.\<close>

definition seg_base :: "segdesc \<Rightarrow> uint" where
  "seg_base d = push_bit 24 (ucast (base_31_24 d)) OR push_bit 16 (ucast (base_23_16 d)) OR ucast (base_15_0 d)"

definition seg_limit :: "segdesc \<Rightarrow> uint" where
  "seg_limit d = (let l = push_bit 16 (ucast (lim_19_16 d)) OR ucast (lim_15_0 d) :: uint in
     if sd_g d = 1 then push_bit 12 l OR 0xFFF else l)"

lemma masks: "(0xFF :: uint) = mask 8" "(0xFFFF :: uint) = mask 16" "(0xFFF :: uint) = mask 12" "(0xFFFFFFFF :: uint) = mask 32"
  by (simp_all add: mask_eq_exp_minus_1)

lemmas field_bits = bit_or_iff bit_and_iff bit_push_bit_iff bit_unsigned_iff bit_drop_bit_eq bit_mask_iff comp_apply
  possible_bit_word

lemma seg_fields:
  assumes "base_15_0 d = ucast (base AND 0xFFFF)" and "base_23_16 d = ucast (drop_bit 16 base AND 0xFF)"
    and "base_31_24 d = ucast (drop_bit 24 base)"
  shows "seg_base d = base"
proof (rule bit_word_eqI)
  fix n
  assume "n < LENGTH(32)"
  then consider "n < 16" | "16 \<le> n" "n < 24" | "24 \<le> n" "n < 32" by force
  then show "bit (seg_base d) n \<longleftrightarrow> bit base n"
    unfolding seg_base_def assms masks field_bits by cases auto
qed

lemma seg_base_SEG [simp]: "seg_base (SEG type base lim dpl) = base" "seg_base (SEG16 type base lim dpl) = base"
  by (rule seg_fields; simp add: SEG_def SEG16_def)+

text \<open>A normal segment has a limit in pages: the bytes up to the end of the page of \<open>lim\<close>.\<close>

lemma seg_limit_SEG: "seg_limit (SEG type base lim dpl) = lim OR 0xFFF"
proof (rule bit_word_eqI)
  fix n
  assume "n < LENGTH(32)"
  then consider "n < 12" | "12 \<le> n" "n < 28" | "28 \<le> n" "n < 32" by force
  moreover have "sd_g (SEG type base lim dpl) = 1" by (simp add: SEG_def)
  ultimately show "bit (seg_limit (SEG type base lim dpl)) n \<longleftrightarrow> bit (lim OR 0xFFF) n"
    unfolding seg_limit_def Let_def masks by cases (simp_all only: SEG_def segdesc.simps masks field_bits if_True refl, auto)
qed

lemma seg_limit_SEG16:
  assumes "drop_bit 20 lim = 0"
  shows "seg_limit (SEG16 type base lim dpl) = lim"
proof (rule bit_word_eqI)
  fix n
  assume "n < LENGTH(32)"
  then consider "n < 16" | "16 \<le> n" "n < 20" | "20 \<le> n" "n < 32" by force
  moreover have "\<not> bit lim n" if "20 \<le> n"
    using arg_cong [OF assms, of "\<lambda>x. bit x (n - 20)"] that by (simp add: bit_drop_bit_eq)
  moreover have "sd_g (SEG16 type base lim dpl) \<noteq> 1" by (simp add: SEG16_def)
  ultimately show "bit (seg_limit (SEG16 type base lim dpl)) n \<longleftrightarrow> bit lim n"
    unfolding seg_limit_def Let_def masks by cases (simp_all only: SEG16_def segdesc.simps masks field_bits if_False, auto)
qed

text \<open>
  After \<^verbatim>\<open>seginit\<close> the four segments are flat: base 0, limit \<open>2 ^ 32 - 1\<close>; a segment is a process's exactly when it is
  \<^verbatim>\<open>SEG_UCODE\<close> or \<^verbatim>\<open>SEG_UDATA\<close>.
\<close>

lemma seginit_flat:
  assumes "i \<in> {SEG_KCODE, SEG_KDATA, SEG_UCODE, SEG_UDATA}"
  shows "seg_base (gdt (seginit c) i) = 0" and "seg_limit (gdt (seginit c) i) = 0xFFFFFFFF" and "sd_p (gdt (seginit c) i) = 1"
    and "sd_dpl (gdt (seginit c) i) = DPL_USER \<longleftrightarrow> i \<in> {SEG_UCODE, SEG_UDATA}"
proof -
  obtain t where t: "gdt (seginit c) i = SEG t 0 0xFFFFFFFF (if i \<in> {SEG_UCODE, SEG_UDATA} then DPL_USER else 0)"
    using assms by (auto simp: seginit_def)
  show "seg_base (gdt (seginit c) i) = 0" "seg_limit (gdt (seginit c) i) = 0xFFFFFFFF" "sd_p (gdt (seginit c) i) = 1"
    "sd_dpl (gdt (seginit c) i) = DPL_USER \<longleftrightarrow> i \<in> {SEG_UCODE, SEG_UDATA}"
    unfolding t by (simp_all add: seg_limit_SEG) (simp_all add: SEG_def)
qed

text \<open>
  After \<^verbatim>\<open>switchuvm\<close> the task register selects a present system segment that is exactly the task state, traps use the
  top of the process's kernel stack with the kernel's data segment, port I/O from user mode is off, and the flat segments
  are as they were.
\<close>

lemma switchuvm_tss:
  assumes "switchuvm_cpu ts p c = Inr c'"
  obtains kstack pgdir where "p = Some (kstack, pgdir)" and "kstack \<noteq> 0" and "pgdir \<noteq> 0" and "ts_esp0 c' = kstack + KSTACKSIZE"
    and "cr3 c' = V2P pgdir" and "seg_base (gdt c' (unat (tr c') div 8)) = ts" and "seg_limit (gdt c' (unat (tr c') div 8)) = 103"
    and "sd_s (gdt c' (unat (tr c') div 8)) = 0" and "unat (ts_ss0 c') div 8 = SEG_KDATA" and "ts_iomb c' > 103"
    and "\<forall>i. i \<noteq> SEG_TSS \<longrightarrow> gdt c' i = gdt c i"
proof -
  obtain kstack pgdir where p: "p = Some (kstack, pgdir)" "kstack \<noteq> 0" "pgdir \<noteq> 0"
    using assms by (cases p) (auto simp: switchuvm_cpu_def switchuvm_def split: if_splits)
  have e: "seg_base (d\<lparr>sd_s := v\<rparr>) = seg_base d" "seg_limit (d\<lparr>sd_s := v\<rparr>) = seg_limit d" for d v
    by (simp_all add: seg_base_def seg_limit_def)
  show thesis
    using assms p by (intro that [OF p]) (auto simp: switchuvm_cpu_def switchuvm_def e seg_limit_SEG16)
qed

end
