(* ===== verification/KPipe.thy ===== *)
theory KPipe
  imports Xv7_Prelude
begin

text \<open>
  Pipes (\<^verbatim>\<open>kernel/pipe.c\<close>): a ring of \<^verbatim>\<open>PIPESIZE\<close> bytes with free-running 32-bit counters.

  A call that has to wait for the other end returns from the model at the \<^verbatim>\<open>sleep\<close> with what is left
  to do; the process goes on from there when it is woken. The ring is shown to implement a bounded
  FIFO queue of bytes, also when the counters wrap around, and any interleaving of writers and readers
  delivers the bytes written, in order, without loss or duplication.
\<close>

section \<open>Definitions\<close>

abbreviation "PIPESIZE \<equiv> 512 :: nat"

text \<open>\<^verbatim>\<open>struct pipe\<close> without its lock.\<close>

record pipe =
  p_data :: "nat \<Rightarrow> uchar"
  p_nread :: uint
  p_nwrite :: uint
  p_readopen :: bool
  p_writeopen :: bool

text \<open>The pipe that \<^verbatim>\<open>pipealloc\<close> sets up in a fresh page.\<close>

definition pipe_init :: "(nat \<Rightarrow> uchar) \<Rightarrow> pipe" where
  "pipe_init page = \<lparr>p_data = page, p_nread = 0, p_nwrite = 0, p_readopen = True, p_writeopen = True\<rparr>"

text \<open>\<^verbatim>\<open>pipeclose\<close>; the flag says that the page is given back.\<close>

definition pipeclose :: "bool \<Rightarrow> pipe \<Rightarrow> pipe \<times> bool" where
  "pipeclose writable p =
     (let p = (if writable then p\<lparr>p_writeopen := False\<rparr> else p\<lparr>p_readopen := False\<rparr>)
      in (p, \<not> p_readopen p \<and> \<not> p_writeopen p))"

datatype write_end =
    Wrote                    \<comment> \<open>all bytes are in the pipe\<close>
  | Broken                   \<comment> \<open>return -1\<close>
  | Write_sleep "uchar list" \<comment> \<open>asleep with these bytes left\<close>

definition pipe_full :: "pipe \<Rightarrow> bool" where
  "pipe_full p \<longleftrightarrow> p_nwrite p = p_nread p + of_nat PIPESIZE"

definition pipe_put :: "uchar \<Rightarrow> pipe \<Rightarrow> pipe" where
  "pipe_put c p = p\<lparr>p_data := (p_data p)(unat (p_nwrite p) mod PIPESIZE := c), p_nwrite := p_nwrite p + 1\<rparr>"

primrec pipewrite :: "bool \<Rightarrow> uchar list \<Rightarrow> pipe \<Rightarrow> write_end \<times> pipe" where
  "pipewrite killed [] p = (Wrote, p)"
| "pipewrite killed (c # cs) p =
     (if pipe_full p then
        if \<not> p_readopen p \<or> killed then (Broken, p) else (Write_sleep (c # cs), p)
      else pipewrite killed cs (pipe_put c p))"

datatype read_end =
    Got "uchar list"
  | Killed                   \<comment> \<open>return -1\<close>
  | Read_sleep

primrec piperead_copy :: "nat \<Rightarrow> pipe \<Rightarrow> uchar list \<times> pipe" where
  "piperead_copy 0 p = ([], p)"
| "piperead_copy (Suc n) p =
     (if p_nread p = p_nwrite p then ([], p)
      else
       (let c = p_data p (unat (p_nread p) mod PIPESIZE); p = p\<lparr>p_nread := p_nread p + 1\<rparr>;
            (cs, p) = piperead_copy n p
        in (c # cs, p)))"

definition piperead :: "bool \<Rightarrow> nat \<Rightarrow> pipe \<Rightarrow> read_end \<times> pipe" where
  "piperead killed n p =
     (if p_nread p = p_nwrite p \<and> p_writeopen p then
        if killed then (Killed, p) else (Read_sleep, p)
      else case piperead_copy n p of (cs, p) \<Rightarrow> (Got cs, p))"

section \<open>A bounded queue\<close>

text \<open>The interface: a bounded queue of bytes with an abstraction to lists.\<close>

locale byte_queue =
  fixes inv :: "'q \<Rightarrow> bool"
    and contents :: "'q \<Rightarrow> uchar list"
    and bound :: nat
    and full :: "'q \<Rightarrow> bool"
    and enq :: "uchar \<Rightarrow> 'q \<Rightarrow> 'q"
    and deq :: "nat \<Rightarrow> 'q \<Rightarrow> uchar list \<times> 'q"
  assumes full_iff: "inv q \<Longrightarrow> full q \<longleftrightarrow> length (contents q) = bound"
    and bounded: "inv q \<Longrightarrow> length (contents q) \<le> bound"
    and enq_inv: "inv q \<Longrightarrow> \<not> full q \<Longrightarrow> inv (enq c q)"
    and enq_contents: "inv q \<Longrightarrow> \<not> full q \<Longrightarrow> contents (enq c q) = contents q @ [c]"
    and deq_inv: "inv q \<Longrightarrow> inv (snd (deq n q))"
    and deq_bytes: "inv q \<Longrightarrow> fst (deq n q) = take n (contents q)"
    and deq_contents: "inv q \<Longrightarrow> contents (snd (deq n q)) = drop n (contents q)"
begin

text \<open>Writing as much as there is room for.\<close>

primrec enq_list :: "uchar list \<Rightarrow> 'q \<Rightarrow> uchar list \<times> 'q" where
  "enq_list [] q = ([], q)"
| "enq_list (c # cs) q = (if full q then (c # cs, q) else enq_list cs (enq c q))"

lemma enq_list_spec:
  "inv q \<Longrightarrow> inv (snd (enq_list cs q))
    \<and> contents (snd (enq_list cs q)) = contents q @ take (bound - length (contents q)) cs
    \<and> fst (enq_list cs q) = drop (bound - length (contents q)) cs"
proof (induction cs arbitrary: q)
  case Nil
  then show ?case by simp
next
  case (Cons c cs)
  show ?case
  proof (cases "full q")
    case True
    then have "bound - length (contents q) = 0" using full_iff Cons.prems by simp
    with True Cons.prems show ?thesis by simp
  next
    case False
    have c: "contents (enq c q) = contents q @ [c]" and i: "inv (enq c q)"
      using enq_contents enq_inv Cons.prems False by auto
    have "bound - length (contents q) = Suc (bound - Suc (length (contents q)))"
      using full_iff bounded Cons.prems False by fastforce
    with Cons.IH [OF i] c False show ?thesis by simp
  qed
qed

text \<open>A run of writes and reads: what went in, what came out, and the queue.\<close>

inductive run :: "'q \<Rightarrow> uchar list \<Rightarrow> uchar list \<Rightarrow> 'q \<Rightarrow> bool" where
  run_start: "run q [] [] q"
| run_enq: "run q ins outs q' \<Longrightarrow> \<not> full q' \<Longrightarrow> run q (ins @ [c]) outs (enq c q')"
| run_deq: "run q ins outs q' \<Longrightarrow> run q ins (outs @ fst (deq n q')) (snd (deq n q'))"

lemma run_fifo: "run q ins outs q' \<Longrightarrow> inv q \<Longrightarrow> inv q' \<and> contents q @ ins = outs @ contents q'"
proof (induction rule: run.induct)
  case (run_start q)
  then show ?case by simp
next
  case (run_enq q ins outs q' c)
  then show ?case by (simp add: enq_inv enq_contents append_assoc [symmetric] del: append_assoc)
next
  case (run_deq q ins outs q' n)
  then show ?case by (simp add: deq_inv deq_bytes deq_contents)
qed

end

section \<open>The ring is such a queue\<close>

definition pipe_len :: "pipe \<Rightarrow> nat" where
  "pipe_len p = unat (p_nwrite p - p_nread p)"

definition pipe_inv :: "pipe \<Rightarrow> bool" where
  "pipe_inv p \<longleftrightarrow> pipe_len p \<le> PIPESIZE"

definition pipe_q :: "pipe \<Rightarrow> uchar list" where
  "pipe_q p = map (\<lambda>k. p_data p (unat (p_nread p + of_nat k) mod PIPESIZE)) [0..<pipe_len p]"

text \<open>The ring size divides the range of the counters, so the index survives their wrap-around.\<close>

lemma ring_index: "unat (a + of_nat k :: uint) mod PIPESIZE = (unat a + k) mod PIPESIZE"
proof -
  have "unat (a + of_nat k :: uint) = (unat a + k mod 2 ^ 32) mod 2 ^ 32"
    by (simp add: unat_word_ariths unat_of_nat take_bit_eq_mod)
  also have "\<dots> mod PIPESIZE = (unat a + k mod 2 ^ 32) mod PIPESIZE"
    by (rule mod_mod_cancel) simp
  also have "\<dots> = (unat a + k mod 2 ^ 32 mod PIPESIZE) mod PIPESIZE" by presburger
  also have "k mod 2 ^ 32 mod PIPESIZE = k mod PIPESIZE" by (rule mod_mod_cancel) simp
  finally show ?thesis by presburger
qed

lemma ring_distinct:
  assumes "i < j" and "j < PIPESIZE"
  shows "(a + i) mod PIPESIZE \<noteq> (a + j) mod PIPESIZE"
proof
  assume "(a + i) mod PIPESIZE = (a + j) mod PIPESIZE"
  then have "PIPESIZE dvd (a + j) - (a + i)"
    using assms(1) mod_eq_dvd_iff_nat [of "a + i" "a + j" PIPESIZE] by simp
  then have "PIPESIZE dvd j - i" by simp
  then have "PIPESIZE \<le> j - i" using assms(1) by (intro dvd_imp_le) auto
  with assms show False by simp
qed

lemma pipe_full_len: "pipe_full p \<longleftrightarrow> pipe_len p = PIPESIZE"
proof -
  have "p_nwrite p = p_nread p + 512 \<longleftrightarrow> p_nwrite p - p_nread p = 512"
    by (auto simp: algebra_simps)
  also have "\<dots> \<longleftrightarrow> unat (p_nwrite p - p_nread p) = 512"
    by (simp add: word_unat_eq_iff)
  finally show ?thesis by (simp add: pipe_full_def pipe_len_def)
qed

lemma pipe_put_len:
  assumes "pipe_inv p" and "\<not> pipe_full p"
  shows "pipe_len (pipe_put c p) = Suc (pipe_len p)"
proof -
  have "pipe_len p < PIPESIZE" using assms by (simp add: pipe_inv_def pipe_full_len)
  then have lt: "unat (p_nwrite p - p_nread p) < PIPESIZE" by (simp add: pipe_len_def)
  have "p_nwrite (pipe_put c p) - p_nread (pipe_put c p) = (p_nwrite p - p_nread p) + 1"
    by (simp add: pipe_put_def)
  then show ?thesis using lt by (simp add: pipe_len_def unat_word_ariths)
qed

lemma pipe_put_q:
  assumes "pipe_inv p" and "\<not> pipe_full p"
  shows "pipe_q (pipe_put c p) = pipe_q p @ [c]"
proof -
  let ?r = "unat (p_nread p)" and ?n = "pipe_len p"
  have n: "?n < PIPESIZE" using assms by (simp add: pipe_inv_def pipe_full_len)
  have "p_nwrite p = p_nread p + of_nat ?n" by (simp add: pipe_len_def)
  then have w: "unat (p_nwrite p) mod PIPESIZE = (?r + ?n) mod PIPESIZE" by (metis ring_index)
  have old: "p_data (pipe_put c p) (unat (p_nread p + of_nat k) mod PIPESIZE)
      = p_data p (unat (p_nread p + of_nat k) mod PIPESIZE)" if "k < ?n" for k
    using ring_distinct [OF that n, of ?r] w by (simp add: pipe_put_def ring_index)
  have new: "p_data (pipe_put c p) (unat (p_nread p + of_nat ?n) mod PIPESIZE) = c"
    using w by (simp add: pipe_put_def ring_index)
  have "p_nread (pipe_put c p) = p_nread p" by (simp add: pipe_put_def)
  then show ?thesis
    unfolding pipe_q_def pipe_put_len [OF assms] by (simp add: old new)
qed

lemma pipe_take:
  assumes "p_nread p \<noteq> p_nwrite p" and "q = p\<lparr>p_nread := p_nread p + 1\<rparr>"
  shows "pipe_len p = Suc (pipe_len q)"
    and "pipe_q p = p_data p (unat (p_nread p) mod PIPESIZE) # pipe_q q"
proof -
  have "p_nwrite q - p_nread q = (p_nwrite p - p_nread p) - 1" using assms(2) by (simp add: algebra_simps)
  moreover have "p_nwrite p - p_nread p \<noteq> 0" using assms(1) by simp
  ultimately show len: "pipe_len p = Suc (pipe_len q)"
    using unat_minus_one [of "p_nwrite p - p_nread p"]
    by (simp add: pipe_len_def unat_gt_0 Suc_pred')
  have "[0..<pipe_len p] = 0 # map Suc [0..<pipe_len q]"
    by (simp only: len map_Suc_upt upt_conv_Cons zero_less_Suc)
  then show "pipe_q p = p_data p (unat (p_nread p) mod PIPESIZE) # pipe_q q"
    by (simp add: pipe_q_def assms(2) add.assoc)
qed

lemma pipe_empty: "p_nread p = p_nwrite p \<longleftrightarrow> pipe_q p = []"
  by (auto simp: pipe_q_def pipe_len_def unat_eq_0)

lemma piperead_copy_spec:
  "pipe_inv p \<Longrightarrow> pipe_inv (snd (piperead_copy n p)) \<and> fst (piperead_copy n p) = take n (pipe_q p)
    \<and> pipe_q (snd (piperead_copy n p)) = drop n (pipe_q p)"
proof (induction n arbitrary: p)
  case 0
  then show ?case by simp
next
  case (Suc n)
  show ?case
  proof (cases "p_nread p = p_nwrite p")
    case True
    then show ?thesis using Suc.prems pipe_empty [of p] by simp
  next
    case False
    let ?q = "p\<lparr>p_nread := p_nread p + 1\<rparr>"
    note t = pipe_take [OF False refl]
    have "pipe_inv ?q" using Suc.prems t(1) by (simp add: pipe_inv_def)
    from Suc.IH [OF this] t(2) False show ?thesis
      by (auto simp: Let_def split: prod.split)
  qed
qed

interpretation pq: byte_queue pipe_inv pipe_q PIPESIZE pipe_full pipe_put piperead_copy
proof (unfold_locales, goal_cases)
  case (1 q)
  then show ?case by (simp add: pipe_full_len pipe_q_def)
next
  case (2 q)
  then show ?case by (simp add: pipe_inv_def pipe_q_def)
next
  case (3 q c)
  then show ?case using pipe_put_len [of q c] by (auto simp: pipe_inv_def pipe_full_len)
next
  case (4 q c)
  then show ?case by (rule pipe_put_q)
next
  case (5 q n)
  then show ?case by (simp add: piperead_copy_spec)
next
  case (6 q n)
  then show ?case by (simp add: piperead_copy_spec)
next
  case (7 q n)
  then show ?case by (simp add: piperead_copy_spec)
qed

section \<open>Calls\<close>

text \<open>\<^verbatim>\<open>pipewrite\<close> puts in what there is room for, and then returns or sleeps.\<close>

lemma pipe_put_open [simp]: "p_readopen (pipe_put c p) = p_readopen p"
  by (simp add: pipe_put_def)

lemma pipewrite_enq:
  "pipewrite killed cs p = (case pq.enq_list cs p of (rest, q) \<Rightarrow>
     (if rest = [] then Wrote else if \<not> p_readopen p \<or> killed then Broken else Write_sleep rest, q))"
  by (induction cs arbitrary: p) (simp_all split: prod.split)

lemma pipewrite_spec:
  assumes "pipe_inv p"
  shows "pipe_inv (snd (pipewrite killed cs p))"
    and "pipe_q (snd (pipewrite killed cs p)) = pipe_q p @ take (PIPESIZE - length (pipe_q p)) cs"
    and "fst (pipewrite killed cs p) =
      (if length cs \<le> PIPESIZE - length (pipe_q p) then Wrote
       else if \<not> p_readopen p \<or> killed then Broken
       else Write_sleep (drop (PIPESIZE - length (pipe_q p)) cs))"
  using pq.enq_list_spec [OF assms, of cs] by (auto simp: pipewrite_enq split: prod.split)

lemma piperead_spec:
  assumes "pipe_inv p"
  shows "piperead killed n p =
    (if pipe_q p = [] \<and> p_writeopen p then (if killed then Killed else Read_sleep, p)
     else (Got (take n (pipe_q p)), snd (piperead_copy n p)))"
  using piperead_copy_spec [OF assms, of n] pipe_empty [of p]
  by (auto simp: piperead_def split: prod.split)

text \<open>Any sequence of calls on a pipe: the bytes that went in, the bytes that came out, the pipe.\<close>

inductive pipe_run :: "pipe \<Rightarrow> uchar list \<Rightarrow> uchar list \<Rightarrow> pipe \<Rightarrow> bool" where
  pr_start: "pipe_run p [] [] p"
| pr_write: "pipe_run p ins outs q \<Longrightarrow> pipewrite killed cs q = (r, q')
    \<Longrightarrow> pipe_run p (ins @ take (PIPESIZE - pipe_len q) cs) outs q'"
| pr_read: "pipe_run p ins outs q \<Longrightarrow> piperead killed n q = (Got cs, q')
    \<Longrightarrow> pipe_run p ins (outs @ cs) q'"
| pr_close: "pipe_run p ins outs q \<Longrightarrow> pipeclose w q = (q', freed) \<Longrightarrow> pipe_run p ins outs q'"

inductive_cases pipe_runE: "pipe_run p ins outs q"

lemma pipe_q_len: "length (pipe_q p) = pipe_len p"
  by (simp add: pipe_q_def)

lemma pipeclose_q: "pipeclose w q = (q', freed) \<Longrightarrow> pipe_q q' = pipe_q q \<and> pipe_inv q' = pipe_inv q"
  by (auto simp: pipeclose_def Let_def pipe_q_def pipe_inv_def pipe_len_def split: if_splits)

lemma pipe_run_fifo: "pipe_run p ins outs q \<Longrightarrow> pipe_inv p \<Longrightarrow> pipe_inv q \<and> pipe_q p @ ins = outs @ pipe_q q"
proof (induction rule: pipe_run.induct)
  case (pr_start p)
  then show ?case by simp
next
  case (pr_write p ins outs q killed cs r q')
  then have inv: "pipe_inv q" and eq: "pipe_q p @ ins = outs @ pipe_q q" by auto
  from pipewrite_spec(1,2) [OF inv, of killed cs] pr_write.hyps(2) eq show ?case
    by (simp add: pipe_q_len append_assoc [symmetric] del: append_assoc)
next
  case (pr_read p ins outs q killed n cs q')
  then have inv: "pipe_inv q" and eq: "pipe_q p @ ins = outs @ pipe_q q" by auto
  from pr_read.hyps(2) have "cs = take n (pipe_q q)" "q' = snd (piperead_copy n q)"
    by (auto simp: piperead_spec [OF inv] split: if_splits)
  then show ?case using piperead_copy_spec [OF inv, of n] eq by simp
next
  case (pr_close p ins outs q w q' freed)
  then show ?case using pipeclose_q by metis
qed

section \<open>Properties\<close>

text \<open>C8: Pipes deliver bytes in order: in every sequence of \<^verbatim>\<open>pipewrite\<close>, \<^verbatim>\<open>piperead\<close> and
  \<^verbatim>\<open>pipeclose\<close> calls on a new pipe, interleaved in any way and however often the counters wrap, the
  bytes read are a prefix of the bytes accepted from the writers, and the rest is in the pipe, which
  never holds more than \<^verbatim>\<open>PIPESIZE\<close> bytes.\<close>

theorem pipe_delivers_in_order:
  assumes "pipe_run (pipe_init page) ins outs q"
  shows "ins = outs @ pipe_q q \<and> length (pipe_q q) \<le> PIPESIZE"
proof -
  have "pipe_inv (pipe_init page)" and "pipe_q (pipe_init page) = []"
    by (simp_all add: pipe_init_def pipe_inv_def pipe_q_def pipe_len_def)
  with pipe_run_fifo [OF assms] show ?thesis by (simp add: pipe_inv_def pipe_q_len)
qed

theorem pipe_delivers_in_order_witness:
  "\<exists>q. pipe_run (pipe_init (\<lambda>_. 0)) [1, 2, 3] [1, 2] q \<and> pipe_q q = [3]"
proof -
  let ?p = "pipe_init (\<lambda>_. 0)"
  let ?p1 = "snd (pipewrite False [1, 2, 3] ?p)"
  have len: "pipe_len ?p = 0" by (simp add: pipe_init_def pipe_len_def)
  have "pipe_run ?p ([] @ take (PIPESIZE - pipe_len ?p) [1, 2, 3]) [] ?p1"
    by (rule pr_write [OF pr_start, where killed = False and r = "fst (pipewrite False [1, 2, 3] ?p)"]) simp
  then have r1: "pipe_run ?p [1, 2, 3] [] ?p1" by (simp add: len)
  have inv: "pipe_inv ?p" by (simp add: pipe_inv_def len)
  have q1: "pipe_inv ?p1" "pipe_q ?p1 = [1, 2, 3]"
    using pipewrite_spec [OF inv, of False "[1, 2, 3]"] by (simp_all add: pipe_q_def len)
  have "piperead False 2 ?p1 = (Got [1, 2], snd (piperead_copy 2 ?p1))"
    using piperead_spec [OF q1(1), of False 2] q1(2) by simp
  from pr_read [OF r1 this] have "pipe_run ?p [1, 2, 3] [1, 2] (snd (piperead_copy 2 ?p1))" by simp
  with pipe_delivers_in_order [OF this] show ?thesis by auto
qed

text \<open>C24: \<^verbatim>\<open>pipewrite\<close> and \<^verbatim>\<open>piperead\<close> meet the contract of a bounded queue on every branch: a write
  puts in as many bytes as fit, and when some are left it fails if nobody can read them or the writer
  has been killed and otherwise waits with exactly those bytes; a read waits only on an empty pipe that
  can still be written, and returns no bytes only at the end of the data.\<close>

theorem pipe_calls_refine_queue:
  assumes "pipe_inv p"
  shows "pipe_q (snd (pipewrite killed cs p)) = pipe_q p @ take (PIPESIZE - length (pipe_q p)) cs
    \<and> fst (pipewrite killed cs p) =
        (if length cs \<le> PIPESIZE - length (pipe_q p) then Wrote
         else if \<not> p_readopen p \<or> killed then Broken
         else Write_sleep (drop (PIPESIZE - length (pipe_q p)) cs))
    \<and> fst (piperead killed n p) =
        (if pipe_q p = [] \<and> p_writeopen p then if killed then Killed else Read_sleep
         else Got (take n (pipe_q p)))
    \<and> pipe_q (snd (piperead killed n p)) = (if pipe_q p = [] \<and> p_writeopen p then [] else drop n (pipe_q p))"
  using pipewrite_spec [OF assms] piperead_spec [OF assms] piperead_copy_spec [OF assms, of n] by simp

theorem pipe_calls_refine_queue_witness:
  "pipe_q (snd (pipewrite False [5, 6] (pipe_init (\<lambda>_. 0)))) = [5, 6]
    \<and> fst (piperead False 4 (pipe_init (\<lambda>_. 0))) = Read_sleep"
proof -
  have len: "pipe_len (pipe_init (\<lambda>_. 0)) = 0" by (simp add: pipe_init_def pipe_len_def)
  then have "pipe_inv (pipe_init (\<lambda>_. 0))" and q: "pipe_q (pipe_init (\<lambda>_. 0)) = []"
    by (simp_all add: pipe_inv_def pipe_q_def)
  moreover have "p_writeopen (pipe_init (\<lambda>_. 0))" by (simp add: pipe_init_def)
  ultimately show ?thesis
    using pipe_calls_refine_queue [of "pipe_init (\<lambda>_. 0)" False "[5, 6]" 4] by simp
qed

end
