(* ===== verification/KFile.thy ===== *)
theory KFile
  imports KDir KPipe KVm
begin

text \<open>
  Open files (\<^verbatim>\<open>kernel/file.c\<close>) and the creation of pipes (\<^verbatim>\<open>pipealloc\<close> in \<^verbatim>\<open>kernel/pipe.c\<close>): the table of
  open files with its reference counts, over inodes, pipes and the page allocator.

  A pipe lives in a page; \<open>pipes\<close> gives the pipe at the address of its page. A call that has to wait on a
  pipe ends with \<open>Sleeps\<close> here; what happens then is modelled in \<open>KPipe\<close>.
\<close>

section \<open>Definitions\<close>

abbreviation "NFILE \<equiv> 100 :: nat"
abbreviation "F_APPEND \<equiv> 1 :: uint"

datatype ftype = FD_NONE | FD_PIPE | FD_INODE

text \<open>\<^verbatim>\<open>struct file\<close>; a null \<^verbatim>\<open>ip\<close> is \<^term>\<open>None\<close>.\<close>

record kfile =
  f_type :: ftype
  f_ref :: int
  f_readable :: bool
  f_writable :: bool
  f_pipe :: uint
  f_ip :: "nat option"
  f_off :: uint
  f_flags :: uint

record file_st = fs_st +
  km :: kmem
  ftable :: "nat \<Rightarrow> kfile"
  pipes :: "uint \<Rightarrow> pipe"

definition upd_file :: "nat \<Rightarrow> (kfile \<Rightarrow> kfile) \<Rightarrow> 'a file_st_scheme \<Rightarrow> 'a file_st_scheme" where
  "upd_file f g s = s\<lparr>ftable := (ftable s)(f := g (ftable s f))\<rparr>"

definition filealloc :: "'a file_st_scheme \<Rightarrow> nat option \<times> 'a file_st_scheme" where
  "filealloc s =
     (case find (\<lambda>f. f_ref (ftable s f) = 0) [0..<NFILE] of
        Some f \<Rightarrow> (Some f, upd_file f (\<lambda>x. x\<lparr>f_ref := 1\<rparr>) s)
      | None \<Rightarrow> (None, s))"

definition filedup :: "nat \<Rightarrow> 'a file_st_scheme \<Rightarrow> 'a file_st_scheme res" where
  "filedup f s =
     (if f_ref (ftable s f) < 1 then Inl (Panic ''filedup'')
      else Inr (upd_file f (\<lambda>x. x\<lparr>f_ref := f_ref x + 1\<rparr>) s))"

text \<open>Closing one end of the pipe in a page; the page goes back when both ends are closed.\<close>

definition pipe_close_at :: "uint \<Rightarrow> bool \<Rightarrow> 'a file_st_scheme \<Rightarrow> 'a file_st_scheme res" where
  "pipe_close_at p w s =
     (case pipeclose w (pipes s p) of (q, freed) \<Rightarrow>
      let s = s\<lparr>pipes := (pipes s)(p := q)\<rparr> in
      if freed then rbind (kfree p (km s)) (\<lambda>k. Inr (s\<lparr>km := k\<rparr>)) else Inr s)"

definition fileclose :: "nat \<Rightarrow> 'a file_st_scheme \<Rightarrow> 'a file_st_scheme res" where
  "fileclose f s =
     (if f_ref (ftable s f) < 1 then Inl (Panic ''fileclose'')
      else
       (let s = upd_file f (\<lambda>x. x\<lparr>f_ref := f_ref x - 1\<rparr>) s in
        if f_ref (ftable s f) > 0 then Inr s
        else
         (let ff = ftable s f; s = upd_file f (\<lambda>x. x\<lparr>f_ref := 0, f_type := FD_NONE\<rparr>) s in
          case f_type ff of
            FD_PIPE \<Rightarrow> pipe_close_at (f_pipe ff) (f_writable ff) s
          | FD_INODE \<Rightarrow>
             (case f_ip ff of
                None \<Rightarrow> Inl (BadAccess ''ip'')
              | Some ip \<Rightarrow> rbind (begin_op s) (\<lambda>s. rbind (iput ip s) (\<lambda>s. end_op s)))
          | FD_NONE \<Rightarrow> Inr s)))"

text \<open>\<^verbatim>\<open>filestat\<close> fills the caller's structure \<open>st\<close>.\<close>

definition filestat :: "nat \<Rightarrow> stat \<Rightarrow> 'a file_st_scheme \<Rightarrow> (int \<times> stat \<times> 'a file_st_scheme) res" where
  "filestat f st s =
     (if f_type (ftable s f) = FD_INODE then
        rbind (ilock (f_ip (ftable s f)) s) (\<lambda>s.
        let st = stati (the (f_ip (ftable s f))) (st\<lparr>st_blksize := 512\<rparr>) s in
        rbind (iunlock (f_ip (ftable s f)) s) (\<lambda>s. Inr (0, st, s)))
      else Inr (- 1, st, s))"

text \<open>\<^verbatim>\<open>fileread\<close>: the result and the bytes stored at the destination. \<open>killed\<close> is \<^verbatim>\<open>myproc()->killed\<close>.\<close>

definition fileread :: "(nat \<Rightarrow> 'a file_st_scheme devsw) \<Rightarrow> bool \<Rightarrow> nat \<Rightarrow> int \<Rightarrow> 'a file_st_scheme
    \<Rightarrow> (int \<times> uchar list \<times> 'a file_st_scheme) res" where
  "fileread dsw killed f n s =
     (let x = ftable s f in
      if \<not> f_readable x then Inr (- 1, [], s)
      else if f_type x = FD_PIPE then
       (case piperead killed (nat n) (pipes s (f_pipe x)) of
          (Got cs, p) \<Rightarrow> Inr (int (length cs), cs, s\<lparr>pipes := (pipes s)(f_pipe x := p)\<rparr>)
        | (Killed, p) \<Rightarrow> Inr (- 1, [], s)
        | (Read_sleep, p) \<Rightarrow> Inl (Sleeps ''pipe''))
      else if f_type x = FD_INODE then
        rbind (ilock (f_ip x) s) (\<lambda>s.
        rbind (readi dsw (the (f_ip x)) (f_off x) (of_int n) s) (\<lambda>(r, bs, s).
        let s = (if r > 0 then upd_file f (\<lambda>x. x\<lparr>f_off := f_off x + of_int r\<rparr>) s else s) in
        rbind (iunlock (f_ip x) s) (\<lambda>s. Inr (r, bs, s))))
      else Inl (Panic ''fileread''))"

text \<open>
  The loop of \<^verbatim>\<open>filewrite\<close>: at most \<open>max_write\<close> bytes in one transaction. The flag of the result says that
  all bytes have been written.
\<close>

definition max_write :: nat where
  "max_write = (nat MAXOPBLOCKS - 1 - 1 - 2) div 2 * 512"

lemma max_write_pos [simp]: "0 < max_write"
  by (simp add: max_write_def)

function filewrite_loop :: "(nat \<Rightarrow> 'a file_st_scheme devsw) \<Rightarrow> nat \<Rightarrow> uchar list \<Rightarrow> 'a file_st_scheme
    \<Rightarrow> (bool \<times> 'a file_st_scheme) res" where
  "filewrite_loop dsw f bs s =
     (if bs = [] then Inr (True, s)
      else
       (let b1 = take max_write bs; ip = f_ip (ftable s f) in
        rbind (begin_op s) (\<lambda>s.
        rbind (ilock ip s) (\<lambda>s.
        rbind (writei dsw (the ip) b1 (f_off (ftable s f)) s) (\<lambda>(r, s).
        let s = (if r > 0 then upd_file f (\<lambda>x. x\<lparr>f_off := f_off x + of_int r\<rparr>) s else s) in
        rbind (iunlock ip s) (\<lambda>s.
        rbind (end_op s) (\<lambda>s.
        if r < 0 then Inr (False, s)
        else if r \<noteq> int (length b1) then Inl (Panic ''short filewrite'')
        else filewrite_loop dsw f (drop max_write bs) s)))))))"
  by pat_completeness auto
termination
  by (relation "measure (\<lambda>(dsw, f, bs, s). length bs)") (auto simp: length_greater_0_conv [symmetric] simp del: length_greater_0_conv)

declare filewrite_loop.simps [simp del]

definition filewrite :: "(nat \<Rightarrow> 'a file_st_scheme devsw) \<Rightarrow> bool \<Rightarrow> nat \<Rightarrow> uchar list \<Rightarrow> 'a file_st_scheme
    \<Rightarrow> (int \<times> 'a file_st_scheme) res" where
  "filewrite dsw killed f bs s =
     rbind (if f_flags (ftable s f) AND F_APPEND \<noteq> 0 then
              (case f_ip (ftable s f) of
                 None \<Rightarrow> Inl (BadAccess ''ip'')
               | Some ip \<Rightarrow> Inr (upd_file f (\<lambda>x. x\<lparr>f_off := i_size (icache s ip)\<rparr>) s))
            else Inr s) (\<lambda>s.
     let x = ftable s f in
     if \<not> f_writable x then Inr (- 1, s)
     else if f_type x = FD_PIPE then
      (case pipewrite killed bs (pipes s (f_pipe x)) of
         (Wrote, p) \<Rightarrow> Inr (int (length bs), s\<lparr>pipes := (pipes s)(f_pipe x := p)\<rparr>)
       | (Broken, p) \<Rightarrow> Inr (- 1, s\<lparr>pipes := (pipes s)(f_pipe x := p)\<rparr>)
       | (Write_sleep rest, p) \<Rightarrow> Inl (Sleeps ''pipe''))
     else if f_type x = FD_INODE then
       rbind (filewrite_loop dsw f bs s) (\<lambda>(all_done, s). Inr (if all_done then int (length bs) else - 1, s))
     else Inl (Panic ''filewrite''))"

text \<open>
  \<^verbatim>\<open>pipealloc\<close>: the two files, or \<^term>\<open>None\<close> for -1. The page is not cleared; the ring keeps its bytes.
\<close>

definition pipealloc :: "'a file_st_scheme \<Rightarrow> ((nat \<times> nat) option \<times> 'a file_st_scheme) res" where
  "pipealloc s =
     (let (f0, s) = filealloc s in
      case f0 of
        None \<Rightarrow> Inr (None, s)
      | Some f0 \<Rightarrow>
         (let (f1, s) = filealloc s in
          case f1 of
            None \<Rightarrow> rbind (fileclose f0 s) (\<lambda>s. Inr (None, s))
          | Some f1 \<Rightarrow>
             (let (p, k) = kalloc (km s); s = s\<lparr>km := k\<rparr> in
              if p = 0 then rbind (fileclose f0 s) (\<lambda>s. rbind (fileclose f1 s) (\<lambda>s. Inr (None, s)))
              else
               (let s = s\<lparr>pipes := (pipes s)(p := pipe_init (\<lambda>i. k_mem k (p + 52 + of_nat i)))\<rparr>;
                    s = upd_file f0 (\<lambda>x. x\<lparr>f_type := FD_PIPE, f_readable := True, f_writable := False, f_pipe := p\<rparr>) s;
                    s = upd_file f1 (\<lambda>x. x\<lparr>f_type := FD_PIPE, f_readable := False, f_writable := True, f_pipe := p\<rparr>) s
                in Inr (Some (f0, f1), s)))))"


section \<open>An example state\<close>

definition demo_kfile :: kfile where
  "demo_kfile = \<lparr>f_type = FD_NONE, f_ref = 0, f_readable = False, f_writable = False, f_pipe = 0, f_ip = None, f_off = 0,
     f_flags = 0\<rparr>"

definition demo_file_st :: file_st where
  "demo_file_st = fs_st.extend demo_fs (file_st.fields demo_kmem (\<lambda>_. demo_kfile) (\<lambda>_. pipe_init (\<lambda>_. 0)))"

end
