(* ===== verification/KProc.thy ===== *)
theory KProc
  imports KFile
begin

text \<open>
  Processes (\<^verbatim>\<open>kernel/proc.c\<close>): the process table, creation, exit and reaping of processes, sleeping and
  waking, the scheduler, and signals.

  A process is named by its index in \<^verbatim>\<open>ptable.proc\<close>. An operation takes the process that runs it,
  \<^verbatim>\<open>myproc()\<close>, as an argument; what it does under \<^verbatim>\<open>ptable.lock\<close> is one atomic function. A process that gives
  up the CPU is in the state that it has when \<^verbatim>\<open>swtch\<close> has entered the scheduler. \<open>proc_step\<close> interleaves
  these functions for any number of CPUs.
\<close>

section \<open>Definitions\<close>

abbreviation "NPROC \<equiv> 64 :: nat"
abbreviation "NOFILE \<equiv> 16 :: nat"
abbreviation "SIGINT \<equiv> 2 :: nat"
abbreviation "SIGKILL \<equiv> 9 :: nat"

datatype procstate = UNUSED | EMBRYO | SLEEPING | RUNNABLE | RUNNING | ZOMBIE

text \<open>What a process can sleep on: a process, or another address; a null pointer is \<open>Null\<close>.\<close>

datatype chan = Null | ProcChan nat | AddrChan string

record trapframe =
  t_edi :: uint
  t_esi :: uint
  t_ebp :: uint
  t_ebx :: uint
  t_edx :: uint
  t_ecx :: uint
  t_eax :: uint
  t_gs :: ushort
  t_fs :: ushort
  t_es :: ushort
  t_ds :: ushort
  t_trapno :: uint
  t_err :: uint
  t_eip :: uint
  t_cs :: ushort
  t_eflags :: uint
  t_esp :: uint
  t_ss :: ushort

definition zero_tf :: trapframe where
  "zero_tf = \<lparr>t_edi = 0, t_esi = 0, t_ebp = 0, t_ebx = 0, t_edx = 0, t_ecx = 0, t_eax = 0, t_gs = 0, t_fs = 0,
     t_es = 0, t_ds = 0, t_trapno = 0, t_err = 0, t_eip = 0, t_cs = 0, t_eflags = 0, t_esp = 0, t_ss = 0\<rparr>"

text \<open>
  \<^verbatim>\<open>struct proc\<close>. The trap frame is kept as a record; \<open>p_sig_tf\<close> is the page that holds the saved trap frame
  of a signal, with the frame, or \<^term>\<open>None\<close>. A name is the list of its bytes before the zero.
\<close>

record proc =
  p_sz :: uint
  p_pgdir :: uint
  p_kstack :: uint
  p_state :: procstate
  p_pid :: int
  p_parent :: "nat option"
  p_tf :: trapframe
  p_context :: uint
  p_chan :: chan
  p_killed :: bool
  p_ofile :: "nat \<Rightarrow> nat option"
  p_cwd :: "nat option"
  p_name :: "uchar list"
  p_pending :: uint
  p_blocked :: uint
  p_handlers :: "nat \<Rightarrow> uint"
  p_sig_tf :: "(uint \<times> trapframe) option"

text \<open>
  \<open>c_proc\<close> is \<^verbatim>\<open>cpus[c].proc\<close>; \<open>a_trapret\<close> and \<open>a_forkret\<close> are the addresses of these routines.
\<close>

record proc_st = file_st +
  procs :: "nat \<Rightarrow> proc"
  nextpid :: int
  initproc :: "nat option"
  c_proc :: "nat \<Rightarrow> nat option"
  a_trapret :: uint
  a_forkret :: uint

definition upd_proc :: "nat \<Rightarrow> (proc \<Rightarrow> proc) \<Rightarrow> 'a proc_st_scheme \<Rightarrow> 'a proc_st_scheme" where
  "upd_proc p f s = s\<lparr>procs := (procs s)(p := f (procs s p))\<rparr>"

subsection \<open>Finding the CPU and the process\<close>

text \<open>\<^verbatim>\<open>mycpu\<close>: the CPU whose APIC identifier the local APIC shows; \<open>apicids\<close> are the entries of \<^verbatim>\<open>cpus\<close>.\<close>

definition mycpu :: "uchar list \<Rightarrow> cpu \<Rightarrow> uchar \<Rightarrow> nat res" where
  "mycpu apicids c apicid =
     (if fl_if c then Inl (Panic ''mycpu called with interrupts enabled'')
      else
       (case find (\<lambda>i. apicids ! i = apicid) [0..<length apicids] of
          Some i \<Rightarrow> Inr i
        | None \<Rightarrow> Inl (Panic ''unknown apicid'')))"

definition myproc :: "nat \<Rightarrow> 'a proc_st_scheme \<Rightarrow> nat option" where
  "myproc cpu s = c_proc s cpu"

subsection \<open>Creating processes\<close>

text \<open>\<^verbatim>\<open>allocproc\<close>, up to the release of \<^verbatim>\<open>ptable.lock\<close>.\<close>

definition claim_slot :: "'a proc_st_scheme \<Rightarrow> nat option \<times> 'a proc_st_scheme" where
  "claim_slot s =
     (case find (\<lambda>p. p_state (procs s p) = UNUSED) [0..<NPROC] of
        None \<Rightarrow> (None, s)
      | Some p \<Rightarrow>
          (Some p, (upd_proc p (\<lambda>x. x\<lparr>p_state := EMBRYO, p_pid := nextpid s, p_pending := 0, p_blocked := 0,
             p_handlers := (\<lambda>_. 0), p_sig_tf := None\<rparr>) s)\<lparr>nextpid := nextpid s + 1\<rparr>))"

definition allocproc :: "'a proc_st_scheme \<Rightarrow> nat option \<times> 'a proc_st_scheme" where
  "allocproc s =
     (case claim_slot s of
        (None, s) \<Rightarrow> (None, s)
      | (Some p, s) \<Rightarrow>
         (let (kstack, k) = kalloc (km s); s = upd_proc p (\<lambda>x. x\<lparr>p_kstack := kstack\<rparr>) (s\<lparr>km := k\<rparr>) in
          if kstack = 0 then (None, upd_proc p (\<lambda>x. x\<lparr>p_state := UNUSED\<rparr>) s)
          else
           (let sp = kstack + KSTACKSIZE - 76; sp = sp - 4;
                m = st32 (k_mem k) sp (a_trapret s); sp = sp - 20;
                m = memset m sp 0 20; m = st32 m (sp + 16) (a_forkret s)
            in (Some p, upd_proc p (\<lambda>x. x\<lparr>p_context := sp\<rparr>) (s\<lparr>km := k\<lparr>k_mem := m\<rparr>\<rparr>)))))"

text \<open>\<^verbatim>\<open>userinit\<close>; \<open>initcode\<close> are the bytes linked into the kernel.\<close>

definition userinit :: "(nat \<Rightarrow> 'a proc_st_scheme devsw) \<Rightarrow> uchar list \<Rightarrow> 'a proc_st_scheme \<Rightarrow> 'a proc_st_scheme res" where
  "userinit dsw initcode s =
     (case allocproc s of
        (None, s) \<Rightarrow> Inl (BadAccess ''p'')
      | (Some p, s) \<Rightarrow>
          rbind (setupkvm (km s)) (\<lambda>(pgdir, k).
          if pgdir = 0 then Inl (Panic ''userinit: out of memory?'')
          else
            rbind (inituvm pgdir initcode k) (\<lambda>k.
            let s = s\<lparr>initproc := Some p, km := k\<rparr>;
                s = upd_proc p (\<lambda>x. x\<lparr>p_pgdir := pgdir, p_sz := PGSIZE,
                      p_tf := zero_tf\<lparr>t_cs := 27, t_ds := 35, t_es := 35, t_ss := 35, t_eflags := 0x200,
                        t_esp := PGSIZE, t_eip := 0\<rparr>,
                      p_name := [0x69, 0x6e, 0x69, 0x74, 0x63, 0x6f, 0x64, 0x65]\<rparr>) s in
            rbind (namei dsw 0 [slash] s) (\<lambda>(ip, s).
            Inr (upd_proc p (\<lambda>x. x\<lparr>p_cwd := ip, p_state := RUNNABLE\<rparr>) s)))))"

definition growproc :: "nat \<Rightarrow> int \<Rightarrow> 'a proc_st_scheme \<Rightarrow> (int \<times> 'a proc_st_scheme) res" where
  "growproc cur n s =
     (let x = procs s cur; sz = p_sz x in
      rbind (if n > 0 then allocuvm (p_pgdir x) sz (sz + of_int n) (km s)
             else if n < 0 then deallocuvm (p_pgdir x) sz (sz + of_int n) (km s)
             else Inr (sz, km s)) (\<lambda>(sz', k).
      let s = s\<lparr>km := k\<rparr> in
      if n \<noteq> 0 \<and> sz' = 0 then Inr (- 1, s)
      else
       (let s = upd_proc cur (\<lambda>x. x\<lparr>p_sz := sz'\<rparr>) s in
        rbind (switchuvm (Some (p_kstack (procs s cur), p_pgdir (procs s cur)))) (\<lambda>_. Inr (0, s)))))"

text \<open>The files of \<^verbatim>\<open>fork\<close>: every open one is shared with the child.\<close>

definition dup_files :: "nat \<Rightarrow> nat \<Rightarrow> 'a proc_st_scheme \<Rightarrow> 'a proc_st_scheme res" where
  "dup_files cur np s =
     rfold (\<lambda>i s. case p_ofile (procs s cur) i of
         None \<Rightarrow> Inr s
       | Some f \<Rightarrow> rbind (filedup f s) (\<lambda>s. Inr (upd_proc np (\<lambda>x. x\<lparr>p_ofile := (p_ofile x)(i := Some f)\<rparr>) s)))
     [0..<NOFILE] s"

definition fork :: "nat \<Rightarrow> 'a proc_st_scheme \<Rightarrow> (int \<times> 'a proc_st_scheme) res" where
  "fork cur s =
     (case allocproc s of
        (None, s) \<Rightarrow> Inr (- 1, s)
      | (Some np, s) \<Rightarrow>
          rbind (copyuvm (p_pgdir (procs s cur)) (p_sz (procs s cur)) (km s)) (\<lambda>(pgdir, k).
          let s = upd_proc np (\<lambda>x. x\<lparr>p_pgdir := pgdir\<rparr>) (s\<lparr>km := k\<rparr>) in
          if pgdir = 0 then
            rbind (kfree (p_kstack (procs s np)) (km s)) (\<lambda>k.
            Inr (- 1, upd_proc np (\<lambda>x. x\<lparr>p_kstack := 0, p_state := UNUSED\<rparr>) (s\<lparr>km := k\<rparr>)))
          else
           (let c = procs s cur;
                s = upd_proc np (\<lambda>x. x\<lparr>p_sz := p_sz c, p_parent := Some cur, p_tf := (p_tf c)\<lparr>t_eax := 0\<rparr>\<rparr>) s in
            rbind (dup_files cur np s) (\<lambda>s.
            case p_cwd (procs s cur) of
              None \<Rightarrow> Inl (BadAccess ''cwd'')
            | Some cwd \<Rightarrow>
               (let s = idup cwd s;
                    s = upd_proc np (\<lambda>x. x\<lparr>p_cwd := Some cwd, p_name := take 15 (p_name (procs s cur))\<rparr>) s;
                    pid = p_pid (procs s np);
                    s = upd_proc np (\<lambda>x. x\<lparr>p_state := RUNNABLE\<rparr>) s
                in Inr (pid, s))))))"

subsection \<open>Sleeping and waking\<close>

definition wakeup1 :: "chan \<Rightarrow> 'a proc_st_scheme \<Rightarrow> 'a proc_st_scheme" where
  "wakeup1 ch s = fold (\<lambda>p s. if p_state (procs s p) = SLEEPING \<and> p_chan (procs s p) = ch
     then upd_proc p (\<lambda>x. x\<lparr>p_state := RUNNABLE\<rparr>) s else s) [0..<NPROC] s"

definition wakeup :: "chan \<Rightarrow> 'a proc_st_scheme \<Rightarrow> 'a proc_st_scheme" where
  "wakeup ch s = wakeup1 ch s"

text \<open>
  \<^verbatim>\<open>sched\<close>: what it checks before it switches to the scheduler. \<open>pt_held\<close> says that this CPU holds
  \<^verbatim>\<open>ptable.lock\<close>. Back in the scheduler the CPU has no process.
\<close>

definition sched :: "nat \<Rightarrow> bool \<Rightarrow> cpu \<Rightarrow> nat \<Rightarrow> 'a proc_st_scheme \<Rightarrow> 'a proc_st_scheme res" where
  "sched cpu pt_held c p s =
     (if \<not> pt_held then Inl (Panic ''sched ptable.lock'')
      else if ncli c \<noteq> 1 then Inl (Panic ''sched locks'')
      else if p_state (procs s p) = RUNNING then Inl (Panic ''sched running'')
      else if fl_if c then Inl (Panic ''sched interruptible'')
      else Inr (s\<lparr>c_proc := (c_proc s)(cpu := None)\<rparr>))"

text \<open>
  \<^verbatim>\<open>sleep\<close> up to the switch, and the part after it. The lock passed is \<^term>\<open>None\<close> for a null pointer; its
  flag says whether it is \<^verbatim>\<open>ptable.lock\<close>. When it is another one, \<open>ncli\<close> falls back to 1 by its release.
\<close>

definition sleep :: "nat \<Rightarrow> cpu \<Rightarrow> chan \<Rightarrow> bool option \<Rightarrow> 'a proc_st_scheme \<Rightarrow> 'a proc_st_scheme res" where
  "sleep cpu c ch lk s =
     (case myproc cpu s of
        None \<Rightarrow> Inl (Panic ''sleep'')
      | Some p \<Rightarrow>
         (case lk of
            None \<Rightarrow> Inl (Panic ''sleep without lk'')
          | Some is_pt \<Rightarrow>
              rbind (if is_pt then Inr c else popcli (pushcli c)) (\<lambda>c.
              sched cpu True c p (upd_proc p (\<lambda>x. x\<lparr>p_chan := ch, p_state := SLEEPING\<rparr>) s))))"

definition sleep_end :: "nat \<Rightarrow> 'a proc_st_scheme \<Rightarrow> 'a proc_st_scheme" where
  "sleep_end p s = upd_proc p (\<lambda>x. x\<lparr>p_chan := Null\<rparr>) s"

definition yield :: "nat \<Rightarrow> cpu \<Rightarrow> 'a proc_st_scheme \<Rightarrow> 'a proc_st_scheme res" where
  "yield cpu c s =
     (case myproc cpu s of
        None \<Rightarrow> Inl (BadAccess ''myproc'')
      | Some p \<Rightarrow> sched cpu True (pushcli c) p (upd_proc p (\<lambda>x. x\<lparr>p_state := RUNNABLE\<rparr>) s))"

text \<open>
  One turn of the scan in \<^verbatim>\<open>scheduler\<close>: the first process from \<open>i\<close> on that can run is started; with none
  left the scan ends.
\<close>

definition scheduler :: "nat \<Rightarrow> nat \<Rightarrow> 'a proc_st_scheme \<Rightarrow> (nat option \<times> 'a proc_st_scheme) res" where
  "scheduler cpu i s =
     (case find (\<lambda>p. p_state (procs s p) = RUNNABLE) [i..<NPROC] of
        None \<Rightarrow> Inr (None, s)
      | Some p \<Rightarrow>
          rbind (switchuvm (Some (p_kstack (procs s p), p_pgdir (procs s p)))) (\<lambda>_.
          Inr (Some p, upd_proc p (\<lambda>x. x\<lparr>p_state := RUNNING\<rparr>) (s\<lparr>c_proc := (c_proc s)(cpu := Some p)\<rparr>))))"

text \<open>\<^verbatim>\<open>forkret\<close>: the first process to run also initialises the file system.\<close>

definition forkret :: "bool \<Rightarrow> 'a proc_st_scheme \<Rightarrow> 'a proc_st_scheme res" where
  "forkret first s = (if first then rbind (iinit ROOTDEV s) (initlog ROOTDEV) else Inr s)"

subsection \<open>Exit, wait and kill\<close>

text \<open>The files of \<^verbatim>\<open>exit\<close>.\<close>

definition close_files :: "nat \<Rightarrow> 'a proc_st_scheme \<Rightarrow> 'a proc_st_scheme res" where
  "close_files cur s =
     rfold (\<lambda>fd s. case p_ofile (procs s cur) fd of
         None \<Rightarrow> Inr s
       | Some f \<Rightarrow> rbind (fileclose f s) (\<lambda>s. Inr (upd_proc cur (\<lambda>x. x\<lparr>p_ofile := (p_ofile x)(fd := None)\<rparr>) s)))
     [0..<NOFILE] s"

text \<open>The null pointer is the channel of no process.\<close>

definition chan_of :: "nat option \<Rightarrow> chan" where
  "chan_of p = (case p of None \<Rightarrow> Null | Some p \<Rightarrow> ProcChan p)"

text \<open>What \<^verbatim>\<open>exit\<close> does under \<^verbatim>\<open>ptable.lock\<close>.\<close>

definition exit_table :: "nat \<Rightarrow> 'a proc_st_scheme \<Rightarrow> 'a proc_st_scheme" where
  "exit_table cur s =
     (let s = wakeup1 (chan_of (p_parent (procs s cur))) s;
          s = fold (\<lambda>p s.
                if p_parent (procs s p) = Some cur then
                 (let s = upd_proc p (\<lambda>x. x\<lparr>p_parent := initproc s\<rparr>) s in
                  if p_state (procs s p) = ZOMBIE then wakeup1 (chan_of (initproc s)) s else s)
                else s) [0..<NPROC] s
      in upd_proc cur (\<lambda>x. x\<lparr>p_state := ZOMBIE\<rparr>) s)"

definition exit :: "nat \<Rightarrow> cpu \<Rightarrow> nat \<Rightarrow> 'a proc_st_scheme \<Rightarrow> 'a proc_st_scheme res" where
  "exit cpu c cur s =
     (if Some cur = initproc s then Inl (Panic ''init exiting'')
      else
        rbind (close_files cur s) (\<lambda>s.
        rbind (begin_op s) (\<lambda>s.
        case p_cwd (procs s cur) of
          None \<Rightarrow> Inl (BadAccess ''cwd'')
        | Some cwd \<Rightarrow>
            rbind (iput cwd s) (\<lambda>s.
            rbind (end_op s) (\<lambda>s.
            let s = upd_proc cur (\<lambda>x. x\<lparr>p_cwd := None\<rparr>) s in
            sched cpu True (pushcli c) cur (exit_table cur s))))))"

text \<open>\<^verbatim>\<open>wait\<close>: one pass over the table; with children but no zombie among them the caller sleeps.\<close>

definition wait :: "nat \<Rightarrow> 'a proc_st_scheme \<Rightarrow> (int \<times> 'a proc_st_scheme) res" where
  "wait cur s =
     (case find (\<lambda>p. p_parent (procs s p) = Some cur \<and> p_state (procs s p) = ZOMBIE) [0..<NPROC] of
        Some p \<Rightarrow>
         (let x = procs s p in
          rbind (kfree (p_kstack x) (km s)) (\<lambda>k.
          rbind (freevm (p_pgdir x) k) (\<lambda>k.
          rbind (case p_sig_tf x of None \<Rightarrow> Inr k | Some (pg, _) \<Rightarrow> kfree pg k) (\<lambda>k.
          Inr (p_pid x, upd_proc p (\<lambda>x. x\<lparr>p_kstack := 0, p_pid := 0, p_parent := None, p_name := [], p_killed := False,
             p_sig_tf := None, p_state := UNUSED\<rparr>) (s\<lparr>km := k\<rparr>))))))
      | None \<Rightarrow>
          if find (\<lambda>p. p_parent (procs s p) = Some cur) [0..<NPROC] = None \<or> p_killed (procs s cur)
          then Inr (- 1, s)
          else Inl (Sleeps ''wait''))"

text \<open>\<^verbatim>\<open>kill\<close>. The shift is that of the machine, which uses the low five bits of the count.\<close>

definition kill :: "int \<Rightarrow> int \<Rightarrow> 'a proc_st_scheme \<Rightarrow> int \<times> 'a proc_st_scheme" where
  "kill pid sig s =
     (if pid = 1 then (- 1, s)
      else
       (case find (\<lambda>p. p_pid (procs s p) = pid) [0..<NPROC] of
          None \<Rightarrow> (- 1, s)
        | Some p \<Rightarrow>
           (let s = upd_proc p (\<lambda>x. if sig = int SIGKILL then x\<lparr>p_killed := True\<rparr>
                      else x\<lparr>p_pending := p_pending x OR push_bit (nat (sig mod 32)) 1\<rparr>) s;
                s = (if p_state (procs s p) = SLEEPING then upd_proc p (\<lambda>x. x\<lparr>p_state := RUNNABLE\<rparr>) s else s)
            in (0, s))))"

section \<open>Steps of the process table\<close>

text \<open>
  What the CPUs do to the process table, each item under \<^verbatim>\<open>ptable.lock\<close>. The creation of a process is in
  several steps, as in \<^verbatim>\<open>fork\<close>: the slot is claimed, given up again when memory runs out, or given a parent
  and then made runnable.
\<close>

inductive proc_step :: "'a proc_st_scheme \<Rightarrow> 'a proc_st_scheme \<Rightarrow> bool" where
  ps_run: "c_proc s c = None \<Longrightarrow> scheduler c i s = Inr (Some p, s') \<Longrightarrow> proc_step s s'"
| ps_yield: "c_proc s c = Some p \<Longrightarrow> yield c k s = Inr s' \<Longrightarrow> proc_step s s'"
| ps_sleep: "c_proc s c = Some p \<Longrightarrow> sleep c k ch lk s = Inr s' \<Longrightarrow> proc_step s s'"
| ps_woken: "c_proc s c = Some p \<Longrightarrow> proc_step s (sleep_end p s)"
| ps_wakeup: "proc_step s (wakeup ch s)"
| ps_exit: "c_proc s c = Some p \<Longrightarrow> Some p \<noteq> initproc s \<Longrightarrow> sched c True k p (exit_table p s) = Inr s' \<Longrightarrow> proc_step s s'"
| ps_wait: "c_proc s c = Some p \<Longrightarrow> wait p s = Inr (pid, s') \<Longrightarrow> proc_step s s'"
| ps_claim: "claim_slot s = (Some p, s') \<Longrightarrow> proc_step s s'"
| ps_abort: "p < NPROC \<Longrightarrow> p_state (procs s p) = EMBRYO \<Longrightarrow> p_parent (procs s p) = None
    \<Longrightarrow> proc_step s (upd_proc p (\<lambda>x. x\<lparr>p_state := UNUSED\<rparr>) s)"
| ps_adopt: "c_proc s c = Some q \<Longrightarrow> p < NPROC \<Longrightarrow> p_state (procs s p) = EMBRYO
    \<Longrightarrow> proc_step s (upd_proc p (\<lambda>x. x\<lparr>p_parent := Some q\<rparr>) s)"
| ps_ready: "p < NPROC \<Longrightarrow> p_state (procs s p) = EMBRYO \<Longrightarrow> p_parent (procs s p) \<noteq> None
    \<Longrightarrow> proc_step s (upd_proc p (\<lambda>x. x\<lparr>p_state := RUNNABLE\<rparr>) s)"
| ps_kill: "kill pid sig s = (r, s') \<Longrightarrow> proc_step s s'"

inductive_cases proc_stepE: "proc_step s s'"

text \<open>The invariant, on the fields of the table that it is about.\<close>

definition cpu_inv :: "(nat \<Rightarrow> nat option) \<Rightarrow> (nat \<Rightarrow> procstate) \<Rightarrow> bool" where
  "cpu_inv cp st \<longleftrightarrow> (\<forall>c p. cp c = Some p \<longrightarrow> p < NPROC \<and> st p = RUNNING)
     \<and> (\<forall>p<NPROC. st p = RUNNING \<longrightarrow> (\<exists>c. cp c = Some p))
     \<and> (\<forall>c d p. cp c = Some p \<and> cp d = Some p \<longrightarrow> c = d)"

definition pid_inv :: "(nat \<Rightarrow> int) \<Rightarrow> int \<Rightarrow> (nat \<Rightarrow> procstate) \<Rightarrow> bool" where
  "pid_inv pid n st \<longleftrightarrow> 1 \<le> n \<and> (\<forall>p<NPROC. 0 \<le> pid p \<and> pid p < n \<and> (st p \<noteq> UNUSED \<longrightarrow> pid p \<noteq> 0))
     \<and> (\<forall>p<NPROC. \<forall>q<NPROC. pid p \<noteq> 0 \<and> pid p = pid q \<longrightarrow> p = q)"

definition live :: "procstate \<Rightarrow> bool" where
  "live st \<longleftrightarrow> st \<in> {SLEEPING, RUNNABLE, RUNNING}"

definition family_inv :: "nat option \<Rightarrow> (nat \<Rightarrow> nat option) \<Rightarrow> (nat \<Rightarrow> procstate) \<Rightarrow> bool" where
  "family_inv init par st \<longleftrightarrow> (\<exists>i<NPROC. init = Some i \<and> live (st i))
     \<and> (\<forall>p<NPROC. \<forall>q. par p = Some q \<longrightarrow> q < NPROC \<and> live (st q))
     \<and> (\<forall>p<NPROC. st p \<notin> {UNUSED, EMBRYO} \<and> init \<noteq> Some p \<longrightarrow> par p \<noteq> None)
     \<and> (\<forall>p<NPROC. st p = UNUSED \<longrightarrow> par p = None)"

definition proc_inv :: "'a proc_st_scheme \<Rightarrow> bool" where
  "proc_inv s \<longleftrightarrow> cpu_inv (c_proc s) (\<lambda>p. p_state (procs s p))
     \<and> pid_inv (\<lambda>p. p_pid (procs s p)) (nextpid s) (\<lambda>p. p_state (procs s p))
     \<and> family_inv (initproc s) (\<lambda>p. p_parent (procs s p)) (\<lambda>p. p_state (procs s p))"

lemmas proc_inv_defs = proc_inv_def cpu_inv_def pid_inv_def family_inv_def live_def

lemma procs_upd_proc [simp]:
  "procs (upd_proc p f s) = (procs s)(p := f (procs s p))" "c_proc (upd_proc p f s) = c_proc s"
  "nextpid (upd_proc p f s) = nextpid s" "initproc (upd_proc p f s) = initproc s"
  by (simp_all add: upd_proc_def)

text \<open>A pass over the table that changes the entries with a property.\<close>

lemma fold_upd_proc:
  "fold (\<lambda>p s. if P (procs s p) then upd_proc p f s else s) [0..<n] s
    = s\<lparr>procs := (\<lambda>p. if p < n \<and> P (procs s p) then f (procs s p) else procs s p)\<rparr>"
proof (induction n)
  case 0
  then show ?case by simp
next
  case (Suc n)
  let ?t = "s\<lparr>procs := (\<lambda>p. if p < n \<and> P (procs s p) then f (procs s p) else procs s p)\<rparr>"
  have "fold (\<lambda>p s. if P (procs s p) then upd_proc p f s else s) [0..<Suc n] s
      = (if P (procs s n) then upd_proc n f ?t else ?t)"
    by (simp add: Suc)
  also have "\<dots> = s\<lparr>procs := (\<lambda>p. if p < Suc n \<and> P (procs s p) then f (procs s p) else procs s p)\<rparr>"
    by (auto simp: upd_proc_def fun_eq_iff less_Suc_eq intro!: arg_cong [where f = "\<lambda>x. s\<lparr>procs := x\<rparr>"])
  finally show ?case .
qed

lemma wakeup1_eq:
  "wakeup1 ch s = s\<lparr>procs := (\<lambda>p. if p < NPROC \<and> p_state (procs s p) = SLEEPING \<and> p_chan (procs s p) = ch
     then (procs s p)\<lparr>p_state := RUNNABLE\<rparr> else procs s p)\<rparr>"
  unfolding wakeup1_def
  by (rule fold_upd_proc [where P = "\<lambda>x. p_state x = SLEEPING \<and> p_chan x = ch" and f = "\<lambda>x. x\<lparr>p_state := RUNNABLE\<rparr>"])

text \<open>
  Waking: entries keep all fields but their state, which may go from sleeping to runnable.
\<close>

definition woke :: "proc \<Rightarrow> proc \<Rightarrow> bool" where
  "woke x y \<longleftrightarrow> y = x \<or> p_state x = SLEEPING \<and> y = x\<lparr>p_state := RUNNABLE\<rparr>"

definition table_woke :: "'a proc_st_scheme \<Rightarrow> 'a proc_st_scheme \<Rightarrow> bool" where
  "table_woke s t \<longleftrightarrow> t = s\<lparr>procs := procs t\<rparr> \<and> (\<forall>p. woke (procs s p) (procs t p))"

lemma woke_refl [simp]: "woke x x"
  by (simp add: woke_def)

lemma woke_fields: "woke x y \<Longrightarrow> p_pid y = p_pid x \<and> p_parent y = p_parent x \<and> p_chan y = p_chan x
    \<and> (p_state y = p_state x \<or> p_state x = SLEEPING \<and> p_state y = RUNNABLE)"
  by (auto simp: woke_def)

lemma wakeup1_woke: "table_woke s (wakeup1 ch s)"
  by (simp add: table_woke_def wakeup1_eq woke_def)

text \<open>The invariant does not tell sleeping from runnable.\<close>

lemma proc_inv_cong:
  assumes "proc_inv s" and "c_proc t = c_proc s" and "nextpid t = nextpid s" and "initproc t = initproc s"
    and "\<And>p. p_pid (procs t p) = p_pid (procs s p)" and "\<And>p. p_parent (procs t p) = p_parent (procs s p)"
    and st: "\<And>p. p_state (procs t p) = p_state (procs s p)
      \<or> p_state (procs s p) = SLEEPING \<and> p_state (procs t p) = RUNNABLE"
  shows "proc_inv t"
proof -
  have eq: "p_state (procs t p) = RUNNING \<longleftrightarrow> p_state (procs s p) = RUNNING"
    "p_state (procs t p) = UNUSED \<longleftrightarrow> p_state (procs s p) = UNUSED"
    "p_state (procs t p) = EMBRYO \<longleftrightarrow> p_state (procs s p) = EMBRYO"
    "live (p_state (procs t p)) \<longleftrightarrow> live (p_state (procs s p))" for p
    using st [of p] by (auto simp: live_def)
  have "proc_inv t \<longleftrightarrow> proc_inv s"
    unfolding proc_inv_def cpu_inv_def pid_inv_def family_inv_def
    by (simp only: assms(2-6) eq insert_iff empty_iff simp_thms)
  with assms(1) show ?thesis by simp
qed

lemma table_woke_inv: "proc_inv s \<Longrightarrow> table_woke s t \<Longrightarrow> proc_inv t"
proof (erule proc_inv_cong)
  assume w: "table_woke s t"
  then have t: "t = s\<lparr>procs := procs t\<rparr>" by (simp add: table_woke_def)
  show "c_proc t = c_proc s" "nextpid t = nextpid s" "initproc t = initproc s" by (subst t, simp)+
  fix p
  from w have "woke (procs s p) (procs t p)" by (simp add: table_woke_def)
  from woke_fields [OF this] show "p_pid (procs t p) = p_pid (procs s p)" "p_parent (procs t p) = p_parent (procs s p)"
    "p_state (procs t p) = p_state (procs s p) \<or> p_state (procs s p) = SLEEPING \<and> p_state (procs t p) = RUNNABLE"
    by auto
qed


text \<open>How the changes of single entries keep the parts of the invariant.\<close>

lemma cpu_inv_start:
  assumes "cpu_inv cp st" and "cp c = None" and "p < NPROC" and "st p \<noteq> RUNNING"
  shows "cpu_inv (cp(c := Some p)) (st(p := RUNNING))"
  using assms unfolding cpu_inv_def by (auto split: if_splits) (metis option.distinct(1))+

lemma cpu_inv_stop:
  assumes "cpu_inv cp st" and "cp c = Some p" and "x \<noteq> RUNNING"
  shows "cpu_inv (cp(c := None)) (st(p := x))"
  using assms unfolding cpu_inv_def by (auto split: if_splits) (metis option.inject)+

lemma cpu_inv_other:
  assumes "cpu_inv cp st" and "st p \<noteq> RUNNING" and "x \<noteq> RUNNING"
  shows "cpu_inv cp (st(p := x))"
  using assms unfolding cpu_inv_def by (auto split: if_splits)

lemma pid_inv_state:
  assumes "pid_inv pid n st" and "st p \<noteq> UNUSED \<or> x = UNUSED"
  shows "pid_inv pid n (st(p := x))"
  using assms unfolding pid_inv_def by auto

lemma pid_inv_new:
  assumes "pid_inv pid n st"
  shows "pid_inv (pid(p := n)) (n + 1) (st(p := x))"
proof -
  have lt: "pid q < n" "0 \<le> pid q" if "q < NPROC" for q using assms that by (auto simp: pid_inv_def)
  have "q = r" if "q < NPROC" "r < NPROC" "(pid(p := n)) q \<noteq> 0" "(pid(p := n)) q = (pid(p := n)) r" for q r
    using that lt [of q] lt [of r] assms unfolding pid_inv_def by (auto split: if_splits)
  with assms lt show ?thesis unfolding pid_inv_def by (auto intro: order.strict_trans1 less_imp_le)
qed

lemma pid_inv_reap:
  assumes "pid_inv pid n st"
  shows "pid_inv (pid(p := 0)) n (st(p := UNUSED))"
  using assms unfolding pid_inv_def by auto

lemma family_invI:
  assumes "i0 < NPROC" and "live (st i0)"
    and "\<And>p q. p < NPROC \<Longrightarrow> par p = Some q \<Longrightarrow> q < NPROC \<and> live (st q)"
    and "\<And>p. p < NPROC \<Longrightarrow> st p \<noteq> UNUSED \<Longrightarrow> st p \<noteq> EMBRYO \<Longrightarrow> p \<noteq> i0 \<Longrightarrow> par p \<noteq> None"
    and "\<And>p. p < NPROC \<Longrightarrow> st p = UNUSED \<Longrightarrow> par p = None"
  shows "family_inv (Some i0) par st"
  unfolding family_inv_def using assms by blast

lemma family_invE:
  assumes "family_inv i par st"
  obtains i0 where "i = Some i0" and "i0 < NPROC" and "live (st i0)"
    and "\<And>p q. p < NPROC \<Longrightarrow> par p = Some q \<Longrightarrow> q < NPROC \<and> live (st q)"
    and "\<And>p. p < NPROC \<Longrightarrow> st p \<noteq> UNUSED \<Longrightarrow> st p \<noteq> EMBRYO \<Longrightarrow> p \<noteq> i0 \<Longrightarrow> par p \<noteq> None"
    and "\<And>p. p < NPROC \<Longrightarrow> st p = UNUSED \<Longrightarrow> par p = None"
proof -
  from assms obtain i0 where "i = Some i0" "i0 < NPROC" "live (st i0)" unfolding family_inv_def by blast
  moreover have "\<And>p q. p < NPROC \<Longrightarrow> par p = Some q \<Longrightarrow> q < NPROC \<and> live (st q)"
    using assms unfolding family_inv_def by blast
  moreover have "\<And>p. p < NPROC \<Longrightarrow> st p \<noteq> UNUSED \<Longrightarrow> st p \<noteq> EMBRYO \<Longrightarrow> p \<noteq> i0 \<Longrightarrow> par p \<noteq> None"
    using assms \<open>i = Some i0\<close> unfolding family_inv_def by blast
  moreover have "\<And>p. p < NPROC \<Longrightarrow> st p = UNUSED \<Longrightarrow> par p = None"
    using assms unfolding family_inv_def by blast
  ultimately show thesis by (rule that)
qed

lemma live_simps [simp]:
  "live SLEEPING" "live RUNNABLE" "live RUNNING" "\<not> live UNUSED" "\<not> live EMBRYO" "\<not> live ZOMBIE"
  by (simp_all add: live_def)

lemma live_not: "live x \<Longrightarrow> x \<noteq> UNUSED \<and> x \<noteq> EMBRYO \<and> x \<noteq> ZOMBIE"
  by auto

lemma family_inv_state:
  assumes "family_inv i par st" and "live (st p) \<longrightarrow> live x" and "x = UNUSED \<longrightarrow> par p = None"
    and "x \<notin> {UNUSED, EMBRYO} \<longrightarrow> live (st p) \<or> par p \<noteq> None"
  shows "family_inv i par (st(p := x))"
  using assms(1)
proof (rule family_invE)
  fix i0
  assume i: "i = Some i0" "i0 < NPROC" "live (st i0)"
    and par: "\<And>p q. p < NPROC \<Longrightarrow> par p = Some q \<Longrightarrow> q < NPROC \<and> live (st q)"
    and some: "\<And>p. p < NPROC \<Longrightarrow> st p \<noteq> UNUSED \<Longrightarrow> st p \<noteq> EMBRYO \<Longrightarrow> p \<noteq> i0 \<Longrightarrow> par p \<noteq> None"
    and none: "\<And>p. p < NPROC \<Longrightarrow> st p = UNUSED \<Longrightarrow> par p = None"
  show ?thesis unfolding i(1)
  proof (rule family_invI)
    show "live ((st(p := x)) i0)" using i(3) assms(2) by auto
    fix q assume q: "q < NPROC"
    { fix r assume "par q = Some r"
      with par [OF q] show "r < NPROC \<and> live ((st(p := x)) r)" using assms(2) by auto }
    { assume "(st(p := x)) q \<noteq> UNUSED" "(st(p := x)) q \<noteq> EMBRYO" "q \<noteq> i0"
      then show "par q \<noteq> None" using some [OF q] assms(4) live_not [of "st p"] by (cases "q = p") auto }
    { assume "(st(p := x)) q = UNUSED"
      then show "par q = None" using none [OF q] assms(3) by (cases "q = p") auto }
  qed (rule i(2))
qed

lemma family_inv_adopt:
  assumes "family_inv i par st" and "st p = EMBRYO" and "q < NPROC" and "live (st q)"
  shows "family_inv i (par(p := Some q)) st"
  using assms(1)
proof (rule family_invE)
  fix i0
  assume i: "i = Some i0" "i0 < NPROC" "live (st i0)"
    and par: "\<And>p q. p < NPROC \<Longrightarrow> par p = Some q \<Longrightarrow> q < NPROC \<and> live (st q)"
    and some: "\<And>p. p < NPROC \<Longrightarrow> st p \<noteq> UNUSED \<Longrightarrow> st p \<noteq> EMBRYO \<Longrightarrow> p \<noteq> i0 \<Longrightarrow> par p \<noteq> None"
    and none: "\<And>p. p < NPROC \<Longrightarrow> st p = UNUSED \<Longrightarrow> par p = None"
  show ?thesis unfolding i(1)
  proof (rule family_invI [OF i(2)])
    show "live (st i0)" by (rule i(3))
    fix r assume r: "r < NPROC"
    { fix t assume "(par(p := Some q)) r = Some t"
      then show "t < NPROC \<and> live (st t)" using par [OF r] assms(3,4) by (cases "r = p") auto }
    { assume "st r \<noteq> UNUSED" "st r \<noteq> EMBRYO" "r \<noteq> i0"
      then show "(par(p := Some q)) r \<noteq> None" using some [OF r] by (cases "r = p") auto }
    { assume "st r = UNUSED"
      then show "(par(p := Some q)) r = None" using none [OF r] assms(2) by (cases "r = p") auto }
  qed
qed

lemma family_inv_reap:
  assumes "family_inv i par st" and "st p = ZOMBIE"
  shows "family_inv i (par(p := None)) (st(p := UNUSED))"
  using assms(1)
proof (rule family_invE)
  fix i0
  assume i: "i = Some i0" "i0 < NPROC" "live (st i0)"
    and par: "\<And>p q. p < NPROC \<Longrightarrow> par p = Some q \<Longrightarrow> q < NPROC \<and> live (st q)"
    and some: "\<And>p. p < NPROC \<Longrightarrow> st p \<noteq> UNUSED \<Longrightarrow> st p \<noteq> EMBRYO \<Longrightarrow> p \<noteq> i0 \<Longrightarrow> par p \<noteq> None"
    and none: "\<And>p. p < NPROC \<Longrightarrow> st p = UNUSED \<Longrightarrow> par p = None"
  have ip: "i0 \<noteq> p" using i(3) assms(2) by auto
  show ?thesis unfolding i(1)
  proof (rule family_invI [OF i(2)])
    show "live ((st(p := UNUSED)) i0)" using i(3) ip by simp
    fix q assume q: "q < NPROC"
    { fix r assume r: "(par(p := None)) q = Some r"
      then have "q \<noteq> p" "par q = Some r" by (auto split: if_splits)
      with par [OF q] assms(2) have "r < NPROC" "live (st r)" "r \<noteq> p" by auto
      then show "r < NPROC \<and> live ((st(p := UNUSED)) r)" by simp }
    { assume "(st(p := UNUSED)) q \<noteq> UNUSED" "(st(p := UNUSED)) q \<noteq> EMBRYO" "q \<noteq> i0"
      then show "(par(p := None)) q \<noteq> None" using some [OF q] by (cases "q = p") auto }
    { assume "(st(p := UNUSED)) q = UNUSED"
      then show "(par(p := None)) q = None" using none [OF q] by (cases "q = p") auto }
  qed
qed

lemma family_inv_exit:
  assumes "family_inv i par st" and "Some p \<noteq> i" and "live (st p)"
  shows "family_inv i (\<lambda>q. if q < NPROC \<and> par q = Some p then i else par q) (st(p := ZOMBIE))"
  using assms(1)
proof (rule family_invE)
  fix i0
  assume i: "i = Some i0" "i0 < NPROC" "live (st i0)"
    and par: "\<And>p q. p < NPROC \<Longrightarrow> par p = Some q \<Longrightarrow> q < NPROC \<and> live (st q)"
    and some: "\<And>p. p < NPROC \<Longrightarrow> st p \<noteq> UNUSED \<Longrightarrow> st p \<noteq> EMBRYO \<Longrightarrow> p \<noteq> i0 \<Longrightarrow> par p \<noteq> None"
    and none: "\<And>p. p < NPROC \<Longrightarrow> st p = UNUSED \<Longrightarrow> par p = None"
  have ip: "i0 \<noteq> p" using i(1) assms(2) by auto
  show ?thesis unfolding i(1)
  proof (rule family_invI [OF i(2)])
    show "live ((st(p := ZOMBIE)) i0)" using i(3) ip by simp
    fix q assume q: "q < NPROC"
    { fix r assume r: "(if q < NPROC \<and> par q = Some p then Some i0 else par q) = Some r"
      then show "r < NPROC \<and> live ((st(p := ZOMBIE)) r)" using par [OF q] i(2,3) ip q by (auto split: if_splits) }
    { assume "(st(p := ZOMBIE)) q \<noteq> UNUSED" "(st(p := ZOMBIE)) q \<noteq> EMBRYO" "q \<noteq> i0"
      then have "par q \<noteq> None" using some [OF q] assms(3) live_not [of "st p"] by (cases "q = p") auto
      then show "(if q < NPROC \<and> par q = Some p then Some i0 else par q) \<noteq> None" by simp }
    { assume "(st(p := ZOMBIE)) q = UNUSED"
      then have "par q = None" using none [OF q] by (cases "q = p") auto
      then show "(if q < NPROC \<and> par q = Some p then Some i0 else par q) = None" by simp }
  qed
qed


lemma comp_upd: "(\<lambda>q. F ((g(p := x)) q)) = (\<lambda>q. F (g q))(p := F x)"
  by auto

text \<open>A state in which the entry \<open>p\<close> is \<open>x\<close> and the others are as in \<open>s\<close>.\<close>

lemma proc_inv_entry:
  assumes "procs t = (procs s)(p := x)"
    and "cpu_inv (c_proc t) ((\<lambda>q. p_state (procs s q))(p := p_state x))"
    and "pid_inv ((\<lambda>q. p_pid (procs s q))(p := p_pid x)) (nextpid t) ((\<lambda>q. p_state (procs s q))(p := p_state x))"
    and "family_inv (initproc t) ((\<lambda>q. p_parent (procs s q))(p := p_parent x)) ((\<lambda>q. p_state (procs s q))(p := p_state x))"
  shows "proc_inv t"
  unfolding proc_inv_def assms(1) comp_upd using assms(2-4) by simp

lemma same_entry: "x = procs s p \<Longrightarrow> (\<lambda>q. F (procs s q))(p := F x) = (\<lambda>q. F (procs s q))"
  by auto

lemma running:
  assumes "proc_inv s" and "c_proc s c = Some p"
  shows "p < NPROC" and "p_state (procs s p) = RUNNING"
  using assms by (auto simp: proc_inv_def cpu_inv_def)

lemma inv_parts:
  assumes "proc_inv s"
  shows "cpu_inv (c_proc s) (\<lambda>p. p_state (procs s p))"
    and "pid_inv (\<lambda>p. p_pid (procs s p)) (nextpid s) (\<lambda>p. p_state (procs s p))"
    and "family_inv (initproc s) (\<lambda>p. p_parent (procs s p)) (\<lambda>p. p_state (procs s p))"
  using assms by (simp_all add: proc_inv_def)

text \<open>The process on a CPU leaves it for a state in which it is alive.\<close>

lemma leave_cpu_inv:
  assumes inv: "proc_inv s" and c: "c_proc s c = Some p" and x: "p_pid x = p_pid (procs s p)"
    "p_parent x = p_parent (procs s p)" "live (p_state x)" "p_state x \<noteq> RUNNING"
    and t: "procs t = (procs s)(p := x)" "c_proc t = (c_proc s)(c := None)" "nextpid t = nextpid s" "initproc t = initproc s"
  shows "proc_inv t"
proof (rule proc_inv_entry [OF t(1)])
  note i = inv_parts [OF inv] and r = running [OF inv c]
  have same: "(\<lambda>q. p_pid (procs s q))(p := p_pid x) = (\<lambda>q. p_pid (procs s q))"
    "(\<lambda>q. p_parent (procs s q))(p := p_parent x) = (\<lambda>q. p_parent (procs s q))" using x(1,2) by auto
  show "cpu_inv (c_proc t) ((\<lambda>q. p_state (procs s q))(p := p_state x))"
    unfolding t(2) by (rule cpu_inv_stop [OF i(1) c x(4)])
  show "pid_inv ((\<lambda>q. p_pid (procs s q))(p := p_pid x)) (nextpid t) ((\<lambda>q. p_state (procs s q))(p := p_state x))"
    unfolding same t(3) by (rule pid_inv_state [OF i(2)]) (simp add: r)
  show "family_inv (initproc t) ((\<lambda>q. p_parent (procs s q))(p := p_parent x)) ((\<lambda>q. p_state (procs s q))(p := p_state x))"
    unfolding same t(4) by (rule family_inv_state [OF i(3)]) (use r x(3) in auto)
qed

text \<open>An entry that is not on a CPU changes its state, or its parent while it is being set up.\<close>

lemma set_state_inv:
  assumes inv: "proc_inv s" and st: "p_state (procs s p) \<noteq> RUNNING" "st \<noteq> RUNNING"
    and "p_state (procs s p) \<noteq> UNUSED \<or> st = UNUSED" and "live (p_state (procs s p)) \<longrightarrow> live st"
    and "st = UNUSED \<longrightarrow> p_parent (procs s p) = None"
    and "st \<notin> {UNUSED, EMBRYO} \<longrightarrow> live (p_state (procs s p)) \<or> p_parent (procs s p) \<noteq> None"
  shows "proc_inv (upd_proc p (\<lambda>x. x\<lparr>p_state := st\<rparr>) s)"
proof (rule proc_inv_entry [of _ s p "(procs s p)\<lparr>p_state := st\<rparr>"])
  note i = inv_parts [OF inv]
  let ?x = "(procs s p)\<lparr>p_state := st\<rparr>"
  have same: "(\<lambda>q. p_pid (procs s q))(p := p_pid ?x) = (\<lambda>q. p_pid (procs s q))"
    "(\<lambda>q. p_parent (procs s q))(p := p_parent ?x) = (\<lambda>q. p_parent (procs s q))" by auto
  show "cpu_inv (c_proc (upd_proc p (\<lambda>x. x\<lparr>p_state := st\<rparr>) s)) ((\<lambda>q. p_state (procs s q))(p := p_state ?x))"
    using cpu_inv_other [OF i(1) st] by simp
  show "pid_inv ((\<lambda>q. p_pid (procs s q))(p := p_pid ?x)) (nextpid (upd_proc p (\<lambda>x. x\<lparr>p_state := st\<rparr>) s))
      ((\<lambda>q. p_state (procs s q))(p := p_state ?x))"
    unfolding same using pid_inv_state [OF i(2) assms(4)] by simp
  show "family_inv (initproc (upd_proc p (\<lambda>x. x\<lparr>p_state := st\<rparr>) s)) ((\<lambda>q. p_parent (procs s q))(p := p_parent ?x))
      ((\<lambda>q. p_state (procs s q))(p := p_state ?x))"
    unfolding same using family_inv_state [OF i(3) assms(5-7)] by simp
qed simp


text \<open>The pass of \<^verbatim>\<open>exit\<close> that gives the children of \<open>cur\<close> to \<^verbatim>\<open>initproc\<close>, up to the entry \<open>n\<close>.\<close>

definition reparented :: "nat \<Rightarrow> nat \<Rightarrow> 'a proc_st_scheme \<Rightarrow> 'a proc_st_scheme \<Rightarrow> bool" where
  "reparented cur n s t \<longleftrightarrow> c_proc t = c_proc s \<and> nextpid t = nextpid s \<and> initproc t = initproc s
     \<and> (\<forall>q. p_pid (procs t q) = p_pid (procs s q)
          \<and> p_parent (procs t q) = (if q < n \<and> p_parent (procs s q) = Some cur then initproc s else p_parent (procs s q))
          \<and> (p_state (procs t q) = p_state (procs s q)
             \<or> p_state (procs s q) = SLEEPING \<and> p_state (procs t q) = RUNNABLE))"

lemma wakeup1_reparented: "reparented cur n s t \<Longrightarrow> reparented cur n s (wakeup1 ch t)"
  unfolding reparented_def by (auto simp: wakeup1_eq) (metis procstate.distinct)+

lemma wakeup1_reparented0: "reparented cur 0 s (wakeup1 ch s)"
  by (simp add: reparented_def wakeup1_eq)

lemma fold_reparented:
  assumes "reparented cur 0 s t"
  shows "reparented cur n s (fold (\<lambda>p s.
      if p_parent (procs s p) = Some cur then
       (let s = upd_proc p (\<lambda>x. x\<lparr>p_parent := initproc s\<rparr>) s in
        if p_state (procs s p) = ZOMBIE then wakeup1 (chan_of (initproc s)) s else s)
      else s) [0..<n] t)" (is "reparented cur n s (fold ?f [0..<n] t)")
proof (induction n)
  case 0
  then show ?case using assms by simp
next
  case (Suc n)
  let ?u = "fold ?f [0..<n] t"
  have n: "p_parent (procs ?u n) = p_parent (procs s n)" using Suc by (simp add: reparented_def)
  have i: "initproc ?u = initproc s" using Suc by (simp add: reparented_def)
  show ?case
  proof (cases "p_parent (procs s n) = Some cur")
    case True
    let ?v = "upd_proc n (\<lambda>x. x\<lparr>p_parent := initproc ?u\<rparr>) ?u"
    have v: "reparented cur (Suc n) s ?v" using Suc True i by (auto simp: reparented_def less_Suc_eq)
    have "fold ?f [0..<Suc n] t = (if p_state (procs ?v n) = ZOMBIE then wakeup1 (chan_of (initproc ?v)) ?v else ?v)"
      using True n by (simp add: Let_def)
    then show ?thesis using v wakeup1_reparented [OF v] by simp
  next
    case False
    then have "reparented cur (Suc n) s ?u" using Suc by (auto simp: reparented_def less_Suc_eq)
    then show ?thesis using False n by simp
  qed
qed

lemma exit_table_reparented:
  obtains t where "reparented cur NPROC s t" and "exit_table cur s = upd_proc cur (\<lambda>x. x\<lparr>p_state := ZOMBIE\<rparr>) t"
  using fold_reparented [OF wakeup1_reparented0] unfolding exit_table_def Let_def by blast

lemma exit_inv:
  assumes inv: "proc_inv s" and c: "c_proc s c = Some p" and p: "Some p \<noteq> initproc s"
  shows "proc_inv ((exit_table p s)\<lparr>c_proc := (c_proc (exit_table p s))(c := None)\<rparr>)"
proof (rule exit_table_reparented [of p s])
  fix t assume t: "reparented p NPROC s t" and e: "exit_table p s = upd_proc p (\<lambda>x. x\<lparr>p_state := ZOMBIE\<rparr>) t"
  note i = inv_parts [OF inv] and r = running [OF inv c]
  let ?P = "\<lambda>q. (procs s q)\<lparr>p_parent := if q < NPROC \<and> p_parent (procs s q) = Some p then initproc s
    else p_parent (procs s q), p_state := ((\<lambda>q. p_state (procs s q))(p := ZOMBIE)) q\<rparr>"
  let ?u = "s\<lparr>procs := ?P, c_proc := (c_proc s)(c := None)\<rparr>"
  have "cpu_inv (c_proc ?u) (\<lambda>q. p_state (procs ?u q))"
    using cpu_inv_stop [OF i(1) c, of ZOMBIE] by (simp add: fun_upd_def)
  moreover have "pid_inv (\<lambda>q. p_pid (procs ?u q)) (nextpid ?u) (\<lambda>q. p_state (procs ?u q))"
    using pid_inv_state [OF i(2), of p ZOMBIE] r by (simp add: fun_upd_def)
  moreover have "family_inv (initproc ?u) (\<lambda>q. p_parent (procs ?u q)) (\<lambda>q. p_state (procs ?u q))"
    using family_inv_exit [OF i(3) p] r by (simp add: fun_upd_def)
  ultimately have u: "proc_inv ?u" by (simp only: proc_inv_def simp_thms)
  show ?thesis unfolding e
    by (rule proc_inv_cong [OF u]) (use t in \<open>auto simp: reparented_def fun_upd_def\<close>)
qed


text \<open>Each operation keeps the invariant.\<close>

lemma sched_Inr: "sched c True k p s = Inr s' \<Longrightarrow> s' = s\<lparr>c_proc := (c_proc s)(c := None)\<rparr> \<and> p_state (procs s p) \<noteq> RUNNING"
  by (auto simp: sched_def split: if_splits)

lemma scheduler_inv:
  assumes inv: "proc_inv s" and c: "c_proc s c = None" and "scheduler c i s = Inr (Some p, s')"
  shows "proc_inv s'"
proof -
  let ?x = "(procs s p)\<lparr>p_state := RUNNING\<rparr>"
  have f: "find (\<lambda>p. p_state (procs s p) = RUNNABLE) [i..<NPROC] = Some p"
    and s': "s' = upd_proc p (\<lambda>x. x\<lparr>p_state := RUNNING\<rparr>) (s\<lparr>c_proc := (c_proc s)(c := Some p)\<rparr>)"
    using assms(3) by (auto simp: scheduler_def rbind_eq_Inr split: option.splits)
  from find_SomeD [OF f] have p: "p_state (procs s p) = RUNNABLE" "p < NPROC" by auto
  note i = inv_parts [OF inv]
  have same: "(\<lambda>q. p_pid (procs s q))(p := p_pid ?x) = (\<lambda>q. p_pid (procs s q))"
    "(\<lambda>q. p_parent (procs s q))(p := p_parent ?x) = (\<lambda>q. p_parent (procs s q))" by auto
  show ?thesis
  proof (rule proc_inv_entry [of _ s p ?x])
    show "procs s' = (procs s)(p := ?x)" by (simp add: s')
    show "cpu_inv (c_proc s') ((\<lambda>q. p_state (procs s q))(p := p_state ?x))"
      using cpu_inv_start [OF i(1) c p(2)] p(1) by (simp add: s')
    show "pid_inv ((\<lambda>q. p_pid (procs s q))(p := p_pid ?x)) (nextpid s') ((\<lambda>q. p_state (procs s q))(p := p_state ?x))"
      unfolding same using pid_inv_state [OF i(2), of p] p(1) by (simp add: s')
    show "family_inv (initproc s') ((\<lambda>q. p_parent (procs s q))(p := p_parent ?x))
        ((\<lambda>q. p_state (procs s q))(p := p_state ?x))"
      unfolding same using family_inv_state [OF i(3), of p RUNNING] p(1) by (simp add: s')
  qed
qed

lemma yield_inv:
  assumes inv: "proc_inv s" and "yield c k s = Inr s'"
  shows "proc_inv s'"
proof -
  obtain p where c: "c_proc s c = Some p"
    and y: "sched c True (pushcli k) p (upd_proc p (\<lambda>x. x\<lparr>p_state := RUNNABLE\<rparr>) s) = Inr s'"
    using assms(2) by (auto simp: yield_def myproc_def split: option.splits)
  show ?thesis
    by (rule leave_cpu_inv [OF inv c, of "(procs s p)\<lparr>p_state := RUNNABLE\<rparr>"]) (use sched_Inr [OF y] in auto)
qed

lemma sleep_inv:
  assumes inv: "proc_inv s" and "sleep c k ch lk s = Inr s'"
  shows "proc_inv s'"
proof -
  obtain p k' where c: "c_proc s c = Some p"
    and y: "sched c True k' p (upd_proc p (\<lambda>x. x\<lparr>p_chan := ch, p_state := SLEEPING\<rparr>) s) = Inr s'"
    using assms(2) by (auto simp: sleep_def myproc_def rbind_eq_Inr split: option.splits)
  show ?thesis
    by (rule leave_cpu_inv [OF inv c, of "(procs s p)\<lparr>p_chan := ch, p_state := SLEEPING\<rparr>"])
      (use sched_Inr [OF y] in auto)
qed

lemma wait_inv:
  assumes inv: "proc_inv s" and w: "wait cur s = Inr (pid, s')"
  shows "proc_inv s'"
proof (cases "find (\<lambda>p. p_parent (procs s p) = Some cur \<and> p_state (procs s p) = ZOMBIE) [0..<NPROC]")
  case None
  then have "s' = s" using w by (simp add: wait_def split: if_splits)
  with inv show ?thesis by simp
next
  case (Some p)
  then obtain k where s': "s' = upd_proc p (\<lambda>x. x\<lparr>p_kstack := 0, p_pid := 0, p_parent := None, p_name := [],
      p_killed := False, p_sig_tf := None, p_state := UNUSED\<rparr>) (s\<lparr>km := k\<rparr>)"
    using w by (auto simp: wait_def Let_def rbind_eq_Inr)
  from Some have z: "p_state (procs s p) = ZOMBIE" by (auto dest: find_SomeD)
  note i = inv_parts [OF inv]
  show ?thesis
    by (rule proc_inv_entry [of _ s p "procs s' p"])
      (use cpu_inv_other [OF i(1), of p UNUSED] pid_inv_reap [OF i(2), of p] family_inv_reap [OF i(3) z] z in \<open>simp_all add: s'\<close>)
qed

lemma claim_inv:
  assumes inv: "proc_inv s" and w: "claim_slot s = (Some p, s')"
  shows "proc_inv s'"
proof -
  have f: "find (\<lambda>p. p_state (procs s p) = UNUSED) [0..<NPROC] = Some p"
    and s': "s' = (upd_proc p (\<lambda>x. x\<lparr>p_state := EMBRYO, p_pid := nextpid s, p_pending := 0, p_blocked := 0,
             p_handlers := (\<lambda>_. 0), p_sig_tf := None\<rparr>) s)\<lparr>nextpid := nextpid s + 1\<rparr>"
    using w by (auto simp: claim_slot_def split: option.splits)
  from find_SomeD [OF f] have u: "p_state (procs s p) = UNUSED" by simp
  note i = inv_parts [OF inv]
  have same: "(\<lambda>q. p_parent (procs s q))(p := p_parent (procs s p)) = (\<lambda>q. p_parent (procs s q))" by auto
  show ?thesis
    by (rule proc_inv_entry [of _ s p "procs s' p"])
      (use cpu_inv_other [OF i(1), of p EMBRYO] pid_inv_new [OF i(2), of p EMBRYO]
        family_inv_state [OF i(3), of p EMBRYO] u in \<open>simp_all add: s' same\<close>)
qed

lemma adopt_inv:
  assumes inv: "proc_inv s" and c: "c_proc s c = Some q" and e: "p_state (procs s p) = EMBRYO"
  shows "proc_inv (upd_proc p (\<lambda>x. x\<lparr>p_parent := Some q\<rparr>) s)"
proof -
  note i = inv_parts [OF inv] and r = running [OF inv c]
  have same: "(\<lambda>q. p_state (procs s q))(p := EMBRYO) = (\<lambda>q. p_state (procs s q))"
    "(\<lambda>q. p_pid (procs s q))(p := p_pid (procs s p)) = (\<lambda>q. p_pid (procs s q))" using e by auto
  show ?thesis
    by (rule proc_inv_entry [of _ s p "(procs s p)\<lparr>p_parent := Some q\<rparr>"])
      (use i family_inv_adopt [OF i(3) e r(1)] r e same in \<open>simp_all add: \<close>)
qed

lemma kill_inv: "proc_inv s \<Longrightarrow> kill pid sig s = (r, s') \<Longrightarrow> proc_inv s'"
  by (erule proc_inv_cong) (auto simp: kill_def Let_def split: if_splits option.splits)

lemma proc_step_inv:
  assumes "proc_step s s'" and inv: "proc_inv s"
  shows "proc_inv s'"
  using assms(1)
proof cases
  case (ps_woken c p)
  show ?thesis unfolding ps_woken(1) by (rule proc_inv_cong [OF inv]) (auto simp: sleep_end_def)
next
  case (ps_wakeup ch)
  then show ?thesis using table_woke_inv [OF inv wakeup1_woke] by (simp add: wakeup_def)
next
  case (ps_exit c p k)
  then show ?thesis using exit_inv [OF inv] sched_Inr [OF ps_exit(3)] by simp
next
  case (ps_abort p)
  then show ?thesis using set_state_inv [OF inv, of p UNUSED] by simp
next
  case (ps_ready p)
  then show ?thesis using set_state_inv [OF inv, of p RUNNABLE] by simp
next
  case (ps_adopt c q p)
  then show ?thesis using adopt_inv [OF inv] by simp
qed (rule scheduler_inv [OF inv] yield_inv [OF inv] sleep_inv [OF inv] wait_inv [OF inv] claim_inv [OF inv] kill_inv [OF inv];
  assumption)+


text \<open>
  The table that \<^verbatim>\<open>userinit\<close> leaves: the first process is runnable and has the identifier 1, all other entries
  are free and no CPU runs anything.
\<close>

definition boot_table :: "'a proc_st_scheme \<Rightarrow> bool" where
  "boot_table s \<longleftrightarrow> (\<forall>c. c_proc s c = None) \<and> nextpid s = 2 \<and> initproc s = Some 0
     \<and> p_state (procs s 0) = RUNNABLE \<and> p_pid (procs s 0) = 1 \<and> p_parent (procs s 0) = None
     \<and> (\<forall>p. 0 < p \<longrightarrow> p_state (procs s p) = UNUSED \<and> p_pid (procs s p) = 0 \<and> p_parent (procs s p) = None)"

lemma boot_table_inv: "boot_table s \<Longrightarrow> proc_inv s"
proof -
  assume b: "boot_table s"
  have st: "p_state (procs s p) = (if p = 0 then RUNNABLE else UNUSED)" "p_pid (procs s p) = (if p = 0 then 1 else 0)"
    "p_parent (procs s p) = None" for p using b by (cases p; simp add: boot_table_def)+
  have c: "c_proc s = (\<lambda>_. None)" and n: "nextpid s = 2" and i: "initproc s = Some 0"
    using b by (auto simp: boot_table_def)
  show ?thesis unfolding proc_inv_defs st c n i by auto
qed

lemma iget_procs: "iget dev inum s = Inr (ip, t) \<Longrightarrow> procs t = procs s \<and> c_proc t = c_proc s \<and> nextpid t = nextpid s
    \<and> initproc t = initproc s \<and> i_type (icache t ip) = i_type (icache s ip)"
  by (auto simp: iget_def upd_inode_def split: option.splits)

lemma namei_root:
  assumes "namei dsw cwd [slash] s = Inr (ip, t)" and "\<And>i. i_type (icache s i) = 0"
  shows "procs t = procs s \<and> c_proc t = c_proc s \<and> nextpid t = nextpid s \<and> initproc t = initproc s"
proof -
  obtain i u where g: "iget ROOTDEV ROOTINO s = Inr (i, u)" and r: "namei_loop dsw cwd 11 i u = Inr (ip, t)"
    using assms(1) by (auto simp: namei_def namex_def rbind_eq_Inr namex_loop.simps skipelem_def split: if_splits)
  have "i_type (icache u i) = 0" using iget_procs [OF g] assms(2) by simp
  moreover have "namei_loop dsw cwd 11 i u = namei_loop dsw cwd (Suc 10) i u" by simp
  ultimately have "t = u" using r by (simp only: namei_loop.simps if_False prod.inject sum.inject) simp
  then show ?thesis using iget_procs [OF g] by simp
qed


lemma icache_upd_proc [simp]: "icache (upd_proc p f s) = icache s" "km (upd_proc p f s) = km s"
  by (simp_all add: upd_proc_def)

lemma allocproc_table:
  assumes "find (\<lambda>p. p_state (procs s p) = UNUSED) [0..<NPROC] = Some p" and a: "allocproc s = (a, t)"
  shows "c_proc t = c_proc s" and "nextpid t = nextpid s + 1" and "initproc t = initproc s" and "icache t = icache s"
    and "a = None \<or> a = Some p" and "p_pid (procs t p) = nextpid s" and "p_parent (procs t p) = p_parent (procs s p)"
    and "q \<noteq> p \<Longrightarrow> procs t q = procs s q"
proof -
  obtain kp kk where k: "kalloc (km s) = (kp, kk)" by (cases "kalloc (km s)")
  note defs = allocproc_def claim_slot_def assms(1) Let_def k
  show "c_proc t = c_proc s" "nextpid t = nextpid s + 1" "initproc t = initproc s" "icache t = icache s"
    "a = None \<or> a = Some p" "p_pid (procs t p) = nextpid s" "p_parent (procs t p) = p_parent (procs s p)"
    "q \<noteq> p \<Longrightarrow> procs t q = procs s q"
    using a by (auto simp: defs split: if_splits)
qed

lemma userinit_boot:
  assumes "userinit dsw code s = Inr t" and "\<And>i. i_type (icache s i) = 0"
    and "\<And>c. c_proc s c = None" and "nextpid s = 1"
    and z: "\<And>p. p_state (procs s p) = UNUSED \<and> p_pid (procs s p) = 0 \<and> p_parent (procs s p) = None"
  shows "boot_table t"
proof -
  have f: "find (\<lambda>p. p_state (procs s p) = UNUSED) [0..<NPROC] = Some 0" using z by (simp add: find_upt_Some_iff)
  obtain a b where a: "allocproc s = (a, b)" by (cases "allocproc s")
  note bf = allocproc_table [OF f a]
  have "a \<noteq> None" using assms(1) a by (cases a) (simp_all add: userinit_def)
  then have a0: "a = Some 0" using bf(5) by blast
  obtain u v ip g where n: "namei dsw 0 [slash] u = Inr (ip, v)"
    and t: "t = upd_proc 0 (\<lambda>x. x\<lparr>p_cwd := ip, p_state := RUNNABLE\<rparr>) v"
    and u: "icache u = icache b" "c_proc u = c_proc b" "nextpid u = nextpid b" "initproc u = Some 0"
      "procs u = (procs b)(0 := g)" "p_pid g = p_pid (procs b 0)" "p_parent g = p_parent (procs b 0)"
    using assms(1) a a0
    by (clarsimp simp: userinit_def rbind_eq_Inr Let_def split: prod.splits if_splits)
  have v: "procs v = procs u \<and> c_proc v = c_proc u \<and> nextpid v = nextpid u \<and> initproc v = initproc u"
    by (rule namei_root [OF n]) (simp add: u bf assms(2))
  have "boot_table t \<longleftrightarrow> (\<forall>p>0. p_state (procs b p) = UNUSED \<and> p_pid (procs b p) = 0 \<and> p_parent (procs b p) = None)"
    using u v bf(1,2,6,7) assms(3,4) z [of 0] by (simp add: boot_table_def t)
  also have "\<dots>" using bf(8) z by simp
  finally show ?thesis .
qed

section \<open>The process table\<close>



definition demo_proc :: proc where
  "demo_proc = \<lparr>p_sz = 0x1000, p_pgdir = 0x80200000, p_kstack = 0, p_state = UNUSED, p_pid = 0, p_parent = None,
     p_tf = zero_tf, p_context = 0, p_chan = Null, p_killed = False, p_ofile = (\<lambda>_. None), p_cwd = None, p_name = [],
     p_pending = 0, p_blocked = 0, p_handlers = (\<lambda>_. 0), p_sig_tf = None\<rparr>"

definition demo_first :: proc where
  "demo_first = demo_proc\<lparr>p_state := RUNNABLE, p_pid := 1, p_kstack := 0x80201000\<rparr>"

definition demo_state :: proc_st where
  "demo_state = file_st.extend demo_file_st
     (proc_st.fields ((\<lambda>_. demo_proc)(0 := demo_first)) 2 (Some 0) (\<lambda>_. None) 0x80105000 0x80104000)"

lemma demo_state_simps [simp]:
  "procs demo_state = (\<lambda>_. demo_proc)(0 := demo_first)" "nextpid demo_state = 2" "initproc demo_state = Some 0"
  "c_proc demo_state c = None"
  by (simp_all add: demo_state_def proc_st.defs file_st.defs)


end
