(* ===== verification/KArgs.thy ===== *)
theory KArgs
  imports KProc
begin

text \<open>
  User memory as the kernel sees it, and the arguments of system calls (\<^verbatim>\<open>kernel/syscall.c\<close> up to the table).
  While a process is in the kernel its page table is loaded, so that an access to a user address goes where the
  table says; the translation is that of the x86 paging hardware. The checks of \<^verbatim>\<open>fetchint\<close>, \<^verbatim>\<open>fetchstr\<close>,
  \<^verbatim>\<open>argptr\<close> and \<^verbatim>\<open>argstr\<close> are shown to keep every access below the size of the process.
\<close>

section \<open>Definitions\<close>

subsection \<open>Address translation\<close>

text \<open>
  The kernel address of the byte that a virtual address stands for, or \<^term>\<open>None\<close> for a page fault. The kernel
  runs with write protection on, so a store needs both entries to be writable.
\<close>

definition mmu :: "mem \<Rightarrow> uint \<Rightarrow> bool \<Rightarrow> uint \<Rightarrow> uint option" where
  "mmu m pgdir w va =
     (let pde = ld32 m (pgdir + 4 * PDX va) in
      if pde AND PTE_P = 0 \<or> w \<and> pde AND PTE_W = 0 then None
      else
       (let pte = ld32 m (P2V (PTE_ADDR pde) + 4 * PTX va) in
        if pte AND PTE_P = 0 \<or> w \<and> pte AND PTE_W = 0 then None
        else Some (P2V (PTE_ADDR pte) + (va AND 0xFFF))))"

text \<open>Loads and stores of the kernel at addresses of the process \<open>cur\<close>.\<close>

definition uload :: "nat \<Rightarrow> uint \<Rightarrow> 'a proc_st_scheme \<Rightarrow> uchar res" where
  "uload cur a s =
     (case mmu (k_mem (km s)) (p_pgdir (procs s cur)) False a of
        None \<Rightarrow> Inl (BadAccess ''page'')
      | Some ka \<Rightarrow> Inr (k_mem (km s) ka))"

primrec uload_bytes :: "nat \<Rightarrow> uint \<Rightarrow> nat \<Rightarrow> 'a proc_st_scheme \<Rightarrow> uchar list res" where
  "uload_bytes cur a 0 s = Inr []"
| "uload_bytes cur a (Suc n) s =
     rbind (uload cur a s) (\<lambda>b. rbind (uload_bytes cur (a + 1) n s) (\<lambda>bs. Inr (b # bs)))"

definition uload32 :: "nat \<Rightarrow> uint \<Rightarrow> 'a proc_st_scheme \<Rightarrow> uint res" where
  "uload32 cur a s = rbind (uload_bytes cur a 4 s) (\<lambda>bs. Inr (rd32 (\<lambda>i. bs ! i) 0))"

definition ustore :: "nat \<Rightarrow> uint \<Rightarrow> uchar \<Rightarrow> 'a proc_st_scheme \<Rightarrow> 'a proc_st_scheme res" where
  "ustore cur a b s =
     (case mmu (k_mem (km s)) (p_pgdir (procs s cur)) True a of
        None \<Rightarrow> Inl (BadAccess ''page'')
      | Some ka \<Rightarrow> Inr (s\<lparr>km := (km s)\<lparr>k_mem := (k_mem (km s))(ka := b)\<rparr>\<rparr>))"

primrec ustore_bytes :: "nat \<Rightarrow> uint \<Rightarrow> uchar list \<Rightarrow> 'a proc_st_scheme \<Rightarrow> 'a proc_st_scheme res" where
  "ustore_bytes cur a [] s = Inr s"
| "ustore_bytes cur a (b # bs) s = rbind (ustore cur a b s) (ustore_bytes cur (a + 1) bs)"

definition enc32 :: "uint \<Rightarrow> uchar list" where
  "enc32 v = [ucast v, ucast (drop_bit 8 v), ucast (drop_bit 16 v), ucast (drop_bit 24 v)]"

subsection \<open>System call arguments\<close>

text \<open>The result \<^term>\<open>None\<close> stands for the return value -1.\<close>

definition fetchint :: "nat \<Rightarrow> uint \<Rightarrow> 'a proc_st_scheme \<Rightarrow> uint option res" where
  "fetchint cur addr s =
     (let sz = p_sz (procs s cur) in
      if addr \<ge> sz \<or> addr + 4 > sz then Inr None
      else rbind (uload32 cur addr s) (\<lambda>v. Inr (Some v)))"

lemma unat_next: "p < q \<Longrightarrow> unat (p + 1 :: uint) = Suc (unat p)"
proof -
  assume "p < q"
  then have "unat p + 1 < 2 ^ 32" using order.strict_trans1 [OF _ unsigned_less [of q], of "unat p + 1"]
    by (simp add: word_less_nat_alt)
  then show ?thesis by (simp add: unat_word_ariths)
qed

text \<open>The loop of \<^verbatim>\<open>fetchstr\<close>; the result is the bytes before the terminating zero.\<close>

function fetchstr_loop :: "nat \<Rightarrow> uint \<Rightarrow> 'a proc_st_scheme \<Rightarrow> uchar list option res" where
  "fetchstr_loop cur p s =
     (if p < p_sz (procs s cur) then
        rbind (uload cur p s) (\<lambda>b.
        if b = 0 then Inr (Some [])
        else rbind (fetchstr_loop cur (p + 1) s) (\<lambda>r. Inr (map_option ((#) b) r)))
      else Inr None)"
  by pat_completeness auto
termination
proof (relation "measure (\<lambda>(cur, p, s). unat (p_sz (procs s cur)) - unat p)", goal_cases)
  case (2 cur p s b)
  then have lt: "unat p < unat (p_sz (procs s cur))" by (simp add: word_less_nat_alt)
  have "unat (p + 1) = Suc (unat p)" using 2(1) by (rule unat_next)
  with lt show ?case by simp
qed simp

declare fetchstr_loop.simps [simp del]

definition fetchstr :: "nat \<Rightarrow> uint \<Rightarrow> 'a proc_st_scheme \<Rightarrow> uchar list option res" where
  "fetchstr cur addr s = (if addr \<ge> p_sz (procs s cur) then Inr None else fetchstr_loop cur addr s)"

definition argint :: "nat \<Rightarrow> nat \<Rightarrow> 'a proc_st_scheme \<Rightarrow> uint option res" where
  "argint cur n s = fetchint cur (t_esp (p_tf (procs s cur)) + 4 + 4 * of_nat n) s"

definition argptr :: "nat \<Rightarrow> nat \<Rightarrow> int \<Rightarrow> 'a proc_st_scheme \<Rightarrow> uint option res" where
  "argptr cur n size' s =
     rbind (argint cur n s) (\<lambda>i.
     case i of
       None \<Rightarrow> Inr None
     | Some i \<Rightarrow>
         if size' < 0 \<or> i \<ge> p_sz (procs s cur) \<or> i + of_int size' > p_sz (procs s cur) then Inr None
         else Inr (Some i))"

definition argstr :: "nat \<Rightarrow> nat \<Rightarrow> 'a proc_st_scheme \<Rightarrow> uchar list option res" where
  "argstr cur n s =
     rbind (argint cur n s) (\<lambda>addr. case addr of None \<Rightarrow> Inr None | Some addr \<Rightarrow> fetchstr cur addr s)"

text \<open>A call that returns -1 when an argument is refused.\<close>

definition need :: "'b option res \<Rightarrow> 's \<Rightarrow> ('b \<Rightarrow> (int \<times> 's) res) \<Rightarrow> (int \<times> 's) res" where
  "need m s f = rbind m (\<lambda>x. case x of None \<Rightarrow> Inr (- 1, s) | Some x \<Rightarrow> f x)"

section \<open>Bounds\<close>

text \<open>
  The check of \<^verbatim>\<open>argptr\<close> adds the size to the address as 32-bit numbers. A process is smaller than half the
  address space and a size that is not negative is too, so the sum does not wrap.
\<close>

lemma range_check:
  fixes i sz :: uint
  assumes "sz \<le> KERNBASE" and "0 \<le> n" and "n < 2 ^ 31" and "i < sz" and "i + of_int n \<le> sz"
  shows "unat i + nat n \<le> unat sz"
proof -
  have "(of_int n :: uint) = of_nat (nat n)" using assms(2) by simp
  moreover have "nat n < 2 ^ 32" using assms(3) by simp
  ultimately have n: "unat (of_int n :: uint) = nat n" by (simp only: unat_of_nat) (rule mod_less, simp)
  have "unat sz \<le> 2 ^ 31" using assms(1) by (simp add: word_le_nat_alt KERNBASE_def)
  moreover have "unat i < unat sz" using assms(4) by (simp add: word_less_nat_alt)
  moreover have "nat n < 2 ^ 31" using assms(2,3) by (simp add: nat_less_iff)
  ultimately have "unat i + nat n < 2 ^ 32" by simp
  then have "unat (i + of_int n) = unat i + nat n" using n by (simp add: unat_word_ariths)
  then show ?thesis using assms(5) by (simp add: word_le_nat_alt)
qed

text \<open>C19: When \<^verbatim>\<open>argptr\<close> accepts a pointer to \<open>n\<close> bytes, all of them lie below the size of the process, and
  the pointer is the word in the argument's place on the user stack; \<open>n\<close> may be any \<^verbatim>\<open>int\<close>, also one that the user chose.
  No process is larger than \<^verbatim>\<open>KERNBASE\<close> (\<^verbatim>\<open>allocuvm\<close> refuses it).\<close>

theorem argptr_in_process:
  assumes "argptr cur k n s = Inr (Some p)" and "- (2 ^ 31) \<le> n" and "n < 2 ^ 31"
    and "p_sz (procs s cur) \<le> KERNBASE"
  shows "0 \<le> n \<and> unat p + nat n \<le> unat (p_sz (procs s cur)) \<and> p < p_sz (procs s cur)
    \<and> argint cur k s = Inr (Some p)"
proof -
  have "argint cur k s = Inr (Some p)" "0 \<le> n" "p < p_sz (procs s cur)" "p + of_int n \<le> p_sz (procs s cur)"
    using assms(1) by (auto simp: argptr_def rbind_eq_Inr not_le not_less split: option.splits if_splits)
  then show ?thesis using range_check [OF assms(4) _ assms(3)] by simp
qed

lemma fetchstr_loop_ok:
  "fetchstr_loop cur p s = Inr (Some bs) \<Longrightarrow> unat p + length bs < unat (p_sz (procs s cur))
     \<and> uload_bytes cur p (length bs) s = Inr bs \<and> 0 \<notin> set bs \<and> uload cur (p + of_nat (length bs)) s = Inr 0"
proof (induction cur p s arbitrary: bs rule: fetchstr_loop.induct)
  case (1 cur p s)
  have p: "p < p_sz (procs s cur)" using "1.prems" by (subst (asm) fetchstr_loop.simps) (auto split: if_splits)
  then obtain b where b: "uload cur p s = Inr b" using "1.prems"
    by (subst (asm) fetchstr_loop.simps) (auto simp: rbind_eq_Inr)
  show ?case
  proof (cases "b = 0")
    case True
    then show ?thesis using "1.prems" p b by (subst (asm) fetchstr_loop.simps) (auto simp: word_less_nat_alt)
  next
    case False
    then obtain cs where cs: "fetchstr_loop cur (p + 1) s = Inr (Some cs)" "bs = b # cs"
      using "1.prems" p b by (subst (asm) fetchstr_loop.simps) (auto simp: rbind_eq_Inr)
    have "unat (p + 1) = Suc (unat p)" using p by (rule unat_next)
    with "1.IH" [OF p b False cs(1)] show ?thesis using b cs(2) False by (simp add: algebra_simps)
  qed
qed

text \<open>
  An example: one page table, one user page at the kernel address \<^verbatim>\<open>0x80202000\<close>, with the user stack at \<^verbatim>\<open>0x100\<close>.
  The first argument is the address \<^verbatim>\<open>0x200\<close> of the string "ab".
\<close>

definition demo_umem :: mem where
  "demo_umem = st32 (st32 (st32 (st32 (\<lambda>_. 0) 0x80200000 0x00201007) 0x80201000 0x00202007) 0x80202104 0x200) 0x80202200 0x6261"

definition demo_user :: proc_st where
  "demo_user = demo_state\<lparr>km := demo_kmem\<lparr>k_mem := demo_umem\<rparr>,
     procs := (\<lambda>_. demo_proc\<lparr>p_tf := zero_tf\<lparr>t_esp := 0x100\<rparr>\<rparr>)\<rparr>"

lemma demo_user_simps [simp]:
  "p_sz (procs demo_user c) = 0x1000" "p_pgdir (procs demo_user c) = 0x80200000" "t_esp (p_tf (procs demo_user c)) = 0x100"
  "k_mem (km demo_user) = demo_umem"
  by (simp_all add: demo_user_def demo_proc_def)

lemma demo_pte: "ld32 demo_umem 0x80200000 = 0x00201007" "ld32 demo_umem 0x80201000 = 0x00202007"
  by (simp_all add: demo_umem_def ld32_def st32_def)

lemma demo_mmu:
  assumes "a < 0x1000"
  shows "mmu demo_umem 0x80200000 w a = Some (0x80202000 + a)"
proof -
  have "unat a < 0x1000" using assms by (simp add: word_less_nat_alt)
  then have t: "a = take_bit 12 a" by (simp add: word_unat_eq_iff unsigned_take_bit_eq take_bit_nat_eq_self)
  have m: "(0xFFF :: uint) = mask 12" by (simp add: mask_eq_exp_minus_1)
  have "take_bit 12 a AND 0xFFF = take_bit 12 a" unfolding m take_bit_eq_mask [symmetric] by simp
  moreover have "drop_bit 22 (take_bit 12 a) = 0" "drop_bit 12 (take_bit 12 a) = 0"
    by (rule bit_word_eqI, simp add: bit_simps)+
  ultimately have "PDX a = 0" "PTX a = 0" "a AND 0xFFF = a" using t by (simp_all add: PDX_def PTX_def)
  then show ?thesis by (simp add: mmu_def demo_pte PTE_ADDR_def P2V_def)
qed

lemma demo_uload: "a < 0x1000 \<Longrightarrow> uload c a demo_user = Inr (demo_umem (0x80202000 + a))"
  by (simp add: uload_def demo_mmu)

lemma uload_bytes4:
  "uload_bytes c a 4 s = rbind (uload c a s) (\<lambda>b0. rbind (uload c (a + 1) s) (\<lambda>b1. rbind (uload c (a + 2) s) (\<lambda>b2.
     rbind (uload c (a + 3) s) (\<lambda>b3. Inr [b0, b1, b2, b3]))))"
  by (simp add: eval_nat_numeral add.assoc rbind_assoc)

lemma demo_argint: "argint 0 0 demo_user = Inr (Some 0x200)"
  by (simp add: argint_def fetchint_def uload32_def uload_bytes4 demo_uload demo_umem_def st32_def rd32_def)

theorem argptr_in_process_witness:
  "argptr 0 0 0xE00 demo_user = Inr (Some 0x200) \<and> argptr 0 0 0xE01 demo_user = Inr None
    \<and> unat (0x200 :: uint) + nat 0xE00 \<le> unat (p_sz (procs demo_user 0))"
proof -
  have a: "argptr 0 0 0xE00 demo_user = Inr (Some 0x200)" by (simp add: argptr_def demo_argint)
  have "p_sz (procs demo_user 0) \<le> KERNBASE" by (simp add: KERNBASE_def)
  with argptr_in_process [OF a] show ?thesis using a by (simp add: argptr_def demo_argint)
qed

text \<open>C37: When \<^verbatim>\<open>fetchstr\<close> accepts an address, the string and its terminating zero lie below the size of the process,
  and the result is the bytes in user memory up to the first zero; it always returns, unless a page below the size
  is not mapped.\<close>

theorem fetchstr_in_process:
  assumes "fetchstr cur a s = Inr (Some bs)"
  shows "unat a + length bs < unat (p_sz (procs s cur)) \<and> uload_bytes cur a (length bs) s = Inr bs
    \<and> 0 \<notin> set bs \<and> uload cur (a + of_nat (length bs)) s = Inr 0"
  using assms fetchstr_loop_ok by (simp add: fetchstr_def split: if_splits)

theorem fetchstr_in_process_witness:
  "fetchstr 0 0x200 demo_user = Inr (Some [0x61, 0x62]) \<and> uload 0 0x202 demo_user = Inr 0"
proof -
  have a: "fetchstr 0 0x200 demo_user = Inr (Some [0x61, 0x62])"
    by (simp add: fetchstr_def fetchstr_loop.simps demo_uload demo_umem_def st32_def)
  with fetchstr_in_process [OF a] show ?thesis by simp
qed

end
