(* ===== verification/KConsole.thy ===== *)
theory KConsole
  imports KProc
begin

text \<open>
  The console (\<^verbatim>\<open>kernel/dev/char/console.c\<close>), the keyboard (\<^verbatim>\<open>kbd.c\<close>, \<^verbatim>\<open>kbd.h\<close>) and the serial line (\<^verbatim>\<open>uart.c\<close>):
  what is printed, the editing of input lines and the two device functions that programs reach.

  The cursor is shown to stay on the screen, the input ring to implement a line editor, and a number that is
  printed to read back as that number.
\<close>

section \<open>Definitions\<close>

abbreviation "INPUT_BUF \<equiv> 128 :: uint"
abbreviation "BACKSPACE \<equiv> 0x100 :: int"
abbreviation "CONSOLE \<equiv> 1 :: nat"
abbreviation "COM1 \<equiv> 0x3F8 :: nat"
abbreviation "newline \<equiv> 10 :: uchar"

text \<open>\<^verbatim>\<open>struct input_struct\<close>.\<close>

record input_struct =
  in_buf :: "nat \<Rightarrow> uchar"
  in_r :: uint
  in_w :: uint
  in_e :: uint
  in_fgproc :: "nat option"

text \<open>
  \<open>crt\<close> is the memory of the screen and \<open>crt_reg\<close> the registers 14 and 15 of its controller, which hold the position
  of the cursor. \<open>ports\<close> records the values sent to other ports. The bytes that the keyboard controller and the
  serial line hold ready are \<open>kbd_q\<close> and \<open>uart_q\<close>.
\<close>

record con_st = proc_st +
  input :: input_struct
  panicked :: bool
  crt :: "nat \<Rightarrow> ushort"
  crt_reg :: "nat \<Rightarrow> uchar"
  ports :: "(nat \<times> uchar) list"
  uart_present :: bool
  uart_q :: "uchar list"
  kbd_q :: "uchar list"
  kbd_shift :: uint

definition outb :: "nat \<Rightarrow> uchar \<Rightarrow> 'a con_st_scheme \<Rightarrow> 'a con_st_scheme" where
  "outb port v s = s\<lparr>ports := ports s @ [(port, v)]\<rparr>"

subsection \<open>Serial line\<close>

definition uartsetbaud :: "nat \<Rightarrow> 'a con_st_scheme \<Rightarrow> 'a con_st_scheme" where
  "uartsetbaud baud s =
     (if \<not> uart_present s then s
      else
       (let divisor = (of_nat (115200 div baud) :: ushort);
            s = outb (COM1 + 3) 0x80 s; s = outb (COM1 + 0) (ucast divisor) s;
            s = outb (COM1 + 1) (ucast (drop_bit 8 divisor)) s
        in outb (COM1 + 3) 0x03 s))"

text \<open>\<open>lsr\<close> is what the line status register shows when it is probed.\<close>

definition uartinit :: "uchar \<Rightarrow> 'a con_st_scheme \<Rightarrow> 'a con_st_scheme" where
  "uartinit lsr s =
     (let s = outb (COM1 + 1) 0x00 s; s = outb (COM1 + 3) 0x80 s; s = outb (COM1 + 0) (of_nat (115200 div 9600)) s;
          s = outb (COM1 + 1) 0x00 s; s = outb (COM1 + 3) 0x03 s; s = outb (COM1 + 2) 0xC7 s; s = outb (COM1 + 4) 0x0B s
      in if lsr = 0xFF then s
         else
          (let s = s\<lparr>uart_present := True\<rparr>; s = outb (COM1 + 1) 0x01 s; s = s\<lparr>uart_q := tl (uart_q s)\<rparr>
           in uartsetbaud 115200 s))"

text \<open>The wait for the transmitter ends after 128 rounds in any case, and then the byte is sent.\<close>

definition uartputc :: "int \<Rightarrow> 'a con_st_scheme \<Rightarrow> 'a con_st_scheme" where
  "uartputc c s = (if \<not> uart_present s then s else outb COM1 (of_int c) s)"

definition uartgetc :: "'a con_st_scheme \<Rightarrow> int \<times> 'a con_st_scheme" where
  "uartgetc s =
     (if \<not> uart_present s then (- 1, s)
      else (case uart_q s of [] \<Rightarrow> (- 1, s) | b # bs \<Rightarrow> (int (unat b), s\<lparr>uart_q := bs\<rparr>)))"

subsection \<open>Screen\<close>

text \<open>
  \<^verbatim>\<open>vgaputc\<close> between reading the cursor position and setting it: the new position and screen memory.
\<close>

definition vga_char :: "int \<Rightarrow> nat \<Rightarrow> (nat \<Rightarrow> ushort) \<Rightarrow> nat \<times> (nat \<Rightarrow> ushort)" where
  "vga_char c pos m =
     (if c = 10 then (pos + (80 - pos mod 80), m)
      else if c = BACKSPACE then (pos - 1, m)
      else (pos + 1, m(pos := of_int (c mod 256) OR 0x0700)))"

definition vga_scroll :: "nat \<Rightarrow> (nat \<Rightarrow> ushort) \<Rightarrow> nat \<times> (nat \<Rightarrow> ushort)" where
  "vga_scroll pos m =
     (let pos = (if pos \<ge> 25 * 80 then 25 * 80 - 1 else pos) in
      if pos div 80 \<ge> 24 then
       (let m = (\<lambda>i. if i < 23 * 80 then m (i + 80) else m i); pos = pos - 80
        in (pos, \<lambda>i. if pos \<le> i \<and> i < 24 * 80 then 0 else m i))
      else (pos, m))"

definition crt_pos :: "'a con_st_scheme \<Rightarrow> nat" where
  "crt_pos s = 256 * unat (crt_reg s 14) + unat (crt_reg s 15)"

definition vgaputc :: "int \<Rightarrow> 'a con_st_scheme \<Rightarrow> 'a con_st_scheme" where
  "vgaputc c s =
     (case vga_char c (crt_pos s) (crt s) of (pos, m) \<Rightarrow>
      case vga_scroll pos m of (pos, m) \<Rightarrow>
      s\<lparr>crt_reg := (crt_reg s)(14 := of_nat (pos div 256), 15 := of_nat pos), crt := m(pos := 0x0720)\<rparr>)"

text \<open>After a panic the CPU that prints stops for good.\<close>

definition consputc :: "int \<Rightarrow> 'a con_st_scheme \<Rightarrow> 'a con_st_scheme res" where
  "consputc c s =
     (if panicked s then Inl (Sleeps ''panicked'')
      else
       (let s = (if c = BACKSPACE then uartputc 8 (uartputc 32 (uartputc 8 s)) else uartputc c s)
        in Inr (vgaputc c s)))"

subsection \<open>Formatted output\<close>

definition digits :: "nat \<Rightarrow> uchar" where
  "digits d = (if d < 10 then of_nat (48 + d) else of_nat (87 + d))"

text \<open>The digits that the loop of \<^verbatim>\<open>printint\<close> stores, the last one first; the base is 10 or 16 in all calls.\<close>

function printint_loop :: "nat \<Rightarrow> nat \<Rightarrow> uchar list" where
  "printint_loop x base =
     digits (x mod base) # (if base < 2 \<or> x div base = 0 then [] else printint_loop (x div base) base)"
  by pat_completeness auto
termination
proof (relation "measure (\<lambda>(x, base). x)", goal_cases)
  case (2 x base)
  then show ?case by (cases "x = 0") auto
qed simp

declare printint_loop.simps [simp del]

definition printint_chars :: "uint \<Rightarrow> nat \<Rightarrow> bool \<Rightarrow> uchar list" where
  "printint_chars xx base sign =
     (let neg = (sign \<and> sint xx < 0); x = (if neg then - xx else xx); buf = printint_loop (unat x) base
      in rev (buf @ (if neg then [45] else [])))"

definition put_all :: "uchar list \<Rightarrow> 'a con_st_scheme \<Rightarrow> 'a con_st_scheme res" where
  "put_all cs s = rfold (\<lambda>c s. consputc (sint c) s) cs s"

definition printint :: "uint \<Rightarrow> nat \<Rightarrow> bool \<Rightarrow> 'a con_st_scheme \<Rightarrow> 'a con_st_scheme res" where
  "printint xx base sign s = put_all (printint_chars xx base sign) s"

text \<open>The arguments of \<^verbatim>\<open>cprintf\<close>: words, and pointers to strings; a missing or wrong one is a bad access.\<close>

datatype carg = IntArg uint | StrArg "uchar list option"

fun cprintf_loop :: "uchar list \<Rightarrow> carg list \<Rightarrow> 'a con_st_scheme \<Rightarrow> 'a con_st_scheme res" where
  "cprintf_loop [] args s = Inr s"
| "cprintf_loop (c # fmt) args s =
     (if c \<noteq> 37 then rbind (consputc (int (unat c)) s) (cprintf_loop fmt args)
      else
       (case fmt of
          [] \<Rightarrow> Inr s
        | c # fmt \<Rightarrow>
            if c = 100 then
             (case args of
                IntArg v # args \<Rightarrow> rbind (printint v 10 True s) (cprintf_loop fmt args)
              | _ \<Rightarrow> Inl (BadAccess ''argp''))
            else if c = 120 \<or> c = 112 then
             (case args of
                IntArg v # args \<Rightarrow> rbind (printint v 16 False s) (cprintf_loop fmt args)
              | _ \<Rightarrow> Inl (BadAccess ''argp''))
            else if c = 115 then
             (case args of
                StrArg None # args \<Rightarrow> rbind (put_all [40, 110, 117, 108, 108, 41] s) (cprintf_loop fmt args)
              | StrArg (Some cs) # args \<Rightarrow> rbind (put_all cs s) (cprintf_loop fmt args)
              | _ \<Rightarrow> Inl (BadAccess ''argp''))
            else if c = 37 then rbind (consputc 37 s) (cprintf_loop fmt args)
            else rbind (consputc 37 s) (\<lambda>s. rbind (consputc (int (unat c)) s) (cprintf_loop fmt args))))"

definition cprintf :: "uchar list option \<Rightarrow> carg list \<Rightarrow> 'a con_st_scheme \<Rightarrow> 'a con_st_scheme res" where
  "cprintf fmt args s = (case fmt of None \<Rightarrow> Inl (Panic ''null fmt'') | Some fmt \<Rightarrow> cprintf_loop fmt args s)"

subsection \<open>Keyboard\<close>

text \<open>The tables of \<^verbatim>\<open>kbd.h\<close>: the entries given in order, then those given with their index; all others are 0.\<close>

definition key_table :: "uchar list \<Rightarrow> (nat \<times> uchar) list \<Rightarrow> nat \<Rightarrow> uchar" where
  "key_table lo hi i = (if i < length lo then lo ! i else case map_of hi i of None \<Rightarrow> 0 | Some c \<Rightarrow> c)"

definition shiftcode :: "nat \<Rightarrow> uchar" where
  "shiftcode = key_table
     []
     [(29, 2), (42, 1), (54, 1), (56, 4), (157, 2), (184, 4)]"

definition togglecode :: "nat \<Rightarrow> uchar" where
  "togglecode = key_table
     []
     [(58, 8), (69, 16), (70, 32)]"

definition normalmap :: "nat \<Rightarrow> uchar" where
  "normalmap = key_table
     [0, 27, 49, 50, 51, 52, 53, 54, 55, 56, 57, 48, 45, 61, 8, 9, 113, 119, 101, 114, 116, 121, 117, 105, 111,
     112, 91, 93, 10, 0, 97, 115, 100, 102, 103, 104, 106, 107, 108, 59, 39, 96, 0, 92, 122, 120, 99, 118, 98, 110,
     109, 44, 46, 47, 0, 42, 0, 32, 0, 0, 0, 0, 0, 0, 0, 0, 0, 0, 0, 0, 0, 55, 56, 57, 45, 52, 53, 54, 43, 49, 50,
     51, 48, 46, 0, 0, 0, 0]
     [(156, 10), (181, 47), (200, 226), (208, 227), (201, 230), (209, 231), (203, 228), (205, 229), (151, 224),
     (207, 225), (210, 232), (211, 233)]"

definition shiftmap :: "nat \<Rightarrow> uchar" where
  "shiftmap = key_table
     [0, 27, 33, 64, 35, 36, 37, 94, 38, 42, 40, 41, 95, 43, 8, 9, 81, 87, 69, 82, 84, 89, 85, 73, 79, 80, 123,
     125, 10, 0, 65, 83, 68, 70, 71, 72, 74, 75, 76, 58, 34, 126, 0, 124, 90, 88, 67, 86, 66, 78, 77, 60, 62, 63,
     0, 42, 0, 32, 0, 0, 0, 0, 0, 0, 0, 0, 0, 0, 0, 0, 0, 55, 56, 57, 45, 52, 53, 54, 43, 49, 50, 51, 48, 46, 0, 0,
     0, 0]
     [(156, 10), (181, 47), (200, 226), (208, 227), (201, 230), (209, 231), (203, 228), (205, 229), (151, 224),
     (207, 225), (210, 232), (211, 233)]"

definition ctlmap :: "nat \<Rightarrow> uchar" where
  "ctlmap = key_table
     [0, 0, 0, 0, 0, 0, 0, 0, 0, 0, 0, 0, 0, 0, 0, 0, 17, 23, 5, 18, 20, 25, 21, 9, 15, 16, 0, 0, 13, 0, 1, 19, 4,
     6, 7, 8, 10, 11, 12, 0, 0, 0, 0, 28, 26, 24, 3, 22, 2, 14, 13, 0, 0, 239, 0, 0]
     [(156, 13), (181, 239), (200, 226), (208, 227), (201, 230), (209, 231), (203, 228), (205, 229), (151, 224),
     (207, 225), (210, 232), (211, 233)]"

abbreviation "SHIFT \<equiv> 1 :: uint"
abbreviation "CTL \<equiv> 2 :: uint"
abbreviation "CAPSLOCK \<equiv> 8 :: uint"
abbreviation "E0ESC \<equiv> 64 :: uint"

text \<open>What \<^verbatim>\<open>kbdgetc\<close> does with a byte: the character (0 for none) and the new \<^verbatim>\<open>shift\<close>.\<close>

definition kbd_byte :: "uchar \<Rightarrow> uint \<Rightarrow> int \<times> uint" where
  "kbd_byte data shift =
     (if data = 0xE0 then (0, shift OR E0ESC)
      else if data AND 0x80 \<noteq> 0 then
       (let data = (if shift AND E0ESC \<noteq> 0 then data else data AND 0x7F)
        in (0, shift AND NOT (ucast (shiftcode (unat data)) OR E0ESC)))
      else
       (let (data, shift) =
              (if shift AND E0ESC \<noteq> 0 then (data OR 0x80, shift AND NOT E0ESC) else (data, shift));
            shift = shift OR ucast (shiftcode (unat data)); shift = shift XOR ucast (togglecode (unat data));
            sel = shift AND (CTL OR SHIFT);
            c = (if sel = 0 then normalmap else if sel = 1 then shiftmap else ctlmap) (unat data);
            c = (if shift AND CAPSLOCK \<noteq> 0 then
                   if 97 \<le> c \<and> c \<le> 122 then c - 32 else if 65 \<le> c \<and> c \<le> 90 then c + 32 else c
                 else c)
        in (int (unat c), shift)))"

definition kbdgetc :: "'a con_st_scheme \<Rightarrow> int \<times> 'a con_st_scheme" where
  "kbdgetc s =
     (case kbd_q s of
        [] \<Rightarrow> (- 1, s)
      | b # bs \<Rightarrow> (case kbd_byte b (kbd_shift s) of (c, sh) \<Rightarrow> (c, s\<lparr>kbd_q := bs, kbd_shift := sh\<rparr>)))"

subsection \<open>Input\<close>

definition upd_input :: "(input_struct \<Rightarrow> input_struct) \<Rightarrow> 'a con_st_scheme \<Rightarrow> 'a con_st_scheme" where
  "upd_input f s = s\<lparr>input := f (input s)\<rparr>"

definition in_at :: "input_struct \<Rightarrow> uint \<Rightarrow> uchar" where
  "in_at i p = in_buf i (unat (p mod INPUT_BUF))"

definition in_put :: "uchar \<Rightarrow> input_struct \<Rightarrow> input_struct" where
  "in_put c i = i\<lparr>in_buf := (in_buf i)(unat (in_e i mod INPUT_BUF) := c), in_e := in_e i + 1\<rparr>"

text \<open>Control-U takes back the characters of the line, one by one.\<close>

function kill_line :: "'a con_st_scheme \<Rightarrow> 'a con_st_scheme res" where
  "kill_line s =
     (let i = input s in
      if in_e i \<noteq> in_w i \<and> in_at i (in_e i - 1) \<noteq> newline then
        rbind (consputc BACKSPACE (upd_input (\<lambda>i. i\<lparr>in_e := in_e i - 1\<rparr>) s)) kill_line
      else Inr s)"
  by pat_completeness auto

lemma input_outb [simp]: "input (outb p v s) = input s" by (simp add: outb_def)

lemma input_vgaputc [simp]: "input (vgaputc c s) = input s"
  by (simp add: vgaputc_def split: prod.split)

lemma input_uartputc [simp]: "input (uartputc c s) = input s"
  by (simp add: uartputc_def)

lemma input_consputc: "consputc c s = Inr t \<Longrightarrow> input t = input s"
  by (auto simp: consputc_def Let_def split: if_splits)

termination kill_line
proof (relation "measure (\<lambda>s. unat (in_e (input s) - in_w (input s)))", goal_cases)
  case (2 s i x)
  from input_consputc [OF 2(3)] have x: "input x = (input s)\<lparr>in_e := in_e (input s) - 1\<rparr>" by (simp add: upd_input_def)
  have "in_e (input s) - in_w (input s) \<noteq> 0" using 2 by auto
  then have "unat (in_e (input s) - in_w (input s) - 1) < unat (in_e (input s) - in_w (input s))"
    by (simp add: unat_minus_one unat_gt_0)
  then show ?case by (simp add: x algebra_simps)
qed simp

declare kill_line.simps [simp del]

definition input_chan :: chan where
  "input_chan = AddrChan ''input.r''"

text \<open>
  What \<^verbatim>\<open>consoleintr\<close> does with a character. Control-P asks for a process listing, which only prints.
\<close>

definition consoleintr_char :: "int \<Rightarrow> 'a con_st_scheme \<Rightarrow> 'a con_st_scheme res" where
  "consoleintr_char c s =
     (let i = input s in
      if c = 16 then Inr s
      else if c = 21 then kill_line s
      else if c = 8 \<or> c = 127 then
        if in_e i \<noteq> in_w i then consputc BACKSPACE (upd_input (\<lambda>i. i\<lparr>in_e := in_e i - 1\<rparr>) s) else Inr s
      else if c = 3 then
       (case in_fgproc i of
          None \<Rightarrow> Inr s
        | Some p \<Rightarrow>
           (let s = snd (kill (p_pid (procs s p)) (int SIGINT) s);
                s = upd_input (\<lambda>i. in_put newline (i\<lparr>in_e := in_r i\<rparr>)) s;
                s = upd_input (\<lambda>i. i\<lparr>in_w := in_e i\<rparr>) s
            in Inr (wakeup input_chan s)))
      else if c \<noteq> 0 \<and> in_e i - in_r i < INPUT_BUF then
       (let c = (if c = 13 then 10 else c); s = upd_input (in_put (of_int c)) s in
        rbind (consputc c s) (\<lambda>s.
        if c = 10 \<or> c = 4 \<or> in_e (input s) = in_r (input s) + INPUT_BUF then
          Inr (wakeup input_chan (upd_input (\<lambda>i. i\<lparr>in_w := in_e i\<rparr>) s))
        else Inr s))
      else Inr s)"

text \<open>
  \<^verbatim>\<open>consoleintr\<close>: characters are taken until \<open>getc\<close> has none. \<open>n\<close> bounds their number; every call of
  \<^verbatim>\<open>kbdgetc\<close> and \<^verbatim>\<open>uartgetc\<close> takes a byte from the device, so the number of bytes that it holds is enough.
\<close>

primrec consoleintr :: "nat \<Rightarrow> ('a con_st_scheme \<Rightarrow> int \<times> 'a con_st_scheme) \<Rightarrow> 'a con_st_scheme \<Rightarrow> 'a con_st_scheme res" where
  "consoleintr 0 getc s = Inr s"
| "consoleintr (Suc n) getc s =
     (case getc s of (c, s) \<Rightarrow> if c < 0 then Inr s else rbind (consoleintr_char c s) (consoleintr n getc))"

definition kbdintr :: "'a con_st_scheme \<Rightarrow> 'a con_st_scheme res" where
  "kbdintr s = consoleintr (length (kbd_q s)) kbdgetc s"

definition uartintr :: "'a con_st_scheme \<Rightarrow> 'a con_st_scheme res" where
  "uartintr s = consoleintr (length (uart_q s)) uartgetc s"

definition interrupted :: "nat \<Rightarrow> 'a proc_st_scheme \<Rightarrow> bool" where
  "interrupted cur s \<longleftrightarrow> p_killed (procs s cur) \<or> p_pending (procs s cur) AND NOT (p_blocked (procs s cur)) \<noteq> 0"

text \<open>
  The loop of \<^verbatim>\<open>consoleread\<close>: \<open>n\<close> bytes are still wanted, and \<open>first\<close> says that none has been delivered. The flag
  of the result is false for the return value -1; the bytes are those stored.
\<close>

primrec consoleread_loop :: "nat \<Rightarrow> nat \<Rightarrow> bool \<Rightarrow> 'a con_st_scheme \<Rightarrow> (bool \<times> uchar list \<times> 'a con_st_scheme) res" where
  "consoleread_loop cur 0 first s = Inr (True, [], s)"
| "consoleread_loop cur (Suc n) first s =
     (let i = input s in
      if in_r i = in_w i then
        if interrupted cur s then Inr (False, [], s) else Inl (Sleeps ''input.r'')
      else
       (let c = in_at i (in_r i); s = upd_input (\<lambda>i. i\<lparr>in_r := in_r i + 1\<rparr>) s in
        if c = 4 then
          Inr (True, [], if first then s else upd_input (\<lambda>i. i\<lparr>in_r := in_r i - 1\<rparr>) s)
        else if c = newline then Inr (True, [c], s)
        else rbind (consoleread_loop cur n False s) (\<lambda>(ok, cs, s). Inr (ok, c # cs, s))))"

definition consoleread :: "nat \<Rightarrow> nat \<Rightarrow> uint \<Rightarrow> 'a con_st_scheme \<Rightarrow> (int \<times> uchar list \<times> 'a con_st_scheme) res" where
  "consoleread cur ip n s =
     rbind (iunlock (Some ip) s) (\<lambda>s.
     rbind (consoleread_loop cur (nat (sint n)) True s) (\<lambda>(ok, bs, s).
     rbind (ilock (Some ip) s) (\<lambda>s.
     Inr (if ok then int (length bs) else - 1, bs, s))))"

primrec consolewrite_loop :: "nat \<Rightarrow> uchar list \<Rightarrow> 'a con_st_scheme \<Rightarrow> (bool \<times> 'a con_st_scheme) res" where
  "consolewrite_loop cur [] s = Inr (True, s)"
| "consolewrite_loop cur (c # cs) s =
     (if interrupted cur s then Inr (False, s)
      else rbind (consputc (int (unat c)) s) (consolewrite_loop cur cs))"

definition consolewrite :: "nat \<Rightarrow> nat \<Rightarrow> uchar list \<Rightarrow> 'a con_st_scheme \<Rightarrow> (int \<times> 'a con_st_scheme) res" where
  "consolewrite cur ip buf s =
     rbind (iunlock (Some ip) s) (\<lambda>s.
     rbind (consolewrite_loop cur buf s) (\<lambda>(all_done, s).
     rbind (ilock (Some ip) s) (\<lambda>s.
     Inr (if all_done then int (length buf) else - 1, s))))"

definition consolecls :: "'a con_st_scheme \<Rightarrow> 'a con_st_scheme" where
  "consolecls s =
     s\<lparr>crt := (\<lambda>i. if i < 25 * 80 then 0x0720 else crt s i), crt_reg := (crt_reg s)(14 := 0, 15 := 0)\<rparr>"

definition consoleioctl :: "nat \<Rightarrow> int \<Rightarrow> uint \<Rightarrow> 'a con_st_scheme \<Rightarrow> (int \<times> 'a con_st_scheme) res" where
  "consoleioctl ip request arg s = Inr (if request = 1 then (0, consolecls s) else (- 1, s))"

text \<open>The entries that \<^verbatim>\<open>consoleinit\<close> makes; \<open>cur\<close> is the process that calls.\<close>

definition consoleinit :: "nat \<Rightarrow> (nat \<Rightarrow> 'a con_st_scheme devsw) \<Rightarrow> nat \<Rightarrow> 'a con_st_scheme devsw" where
  "consoleinit cur dsw = dsw(CONSOLE := \<lparr>d_read = Some (consoleread cur), d_write = Some (consolewrite cur),
     d_ioctl = Some consoleioctl\<rparr>)"


section \<open>The screen\<close>

lemma crt_pos_vgaputc:
  assumes "vga_char c (crt_pos s) (crt s) = (p, m)" and "vga_scroll p m = (q, m')"
  shows "crt_pos (vgaputc c s) = q" and "crt (vgaputc c s) = m'(q := 0x0720)"
proof -
  have q: "q < 24 * 80" using assms(2) by (auto simp: vga_scroll_def Let_def split: if_splits)
  have v: "vgaputc c s = s\<lparr>crt_reg := (crt_reg s)(14 := of_nat (q div 256), 15 := of_nat q), crt := m'(q := 0x0720)\<rparr>"
    using assms by (simp add: vgaputc_def)
  have "unat (of_nat (q div 256) :: uchar) = q div 256" using q by (simp add: unat_of_nat)
  moreover have "unat (of_nat q :: uchar) = q mod 256" by (simp add: unat_of_nat)
  ultimately show "crt_pos (vgaputc c s) = q" unfolding crt_pos_def v by simp
  show "crt (vgaputc c s) = m'(q := 0x0720)" by (simp add: v)
qed

text \<open>Whatever is printed and wherever the cursor was, \<^verbatim>\<open>vgaputc\<close> leaves it in the first 24 lines; and when it was there
  before, only the memory of these lines is written.\<close>

theorem cursor_stays_on_screen:
  "crt_pos (vgaputc c s) < 24 * 80
    \<and> (crt_pos s < 24 * 80 \<longrightarrow> (\<forall>i\<ge>24 * 80. crt (vgaputc c s) i = crt s i))"
proof -
  obtain p m where p: "vga_char c (crt_pos s) (crt s) = (p, m)" by (cases "vga_char c (crt_pos s) (crt s)")
  obtain q m' where q: "vga_scroll p m = (q, m')" by (cases "vga_scroll p m")
  have lt: "q < 24 * 80" using q by (auto simp: vga_scroll_def Let_def split: if_splits)
  have m': "m' i = m i" if "24 * 80 \<le> i" for i using q that by (auto simp: vga_scroll_def Let_def split: if_splits)
  have m: "m i = crt s i" if "crt_pos s < 24 * 80" "24 * 80 \<le> i" for i
    using p that by (auto simp: vga_char_def split: if_splits)
  show ?thesis using lt m m' by (auto simp: crt_pos_vgaputc [OF p q])
qed

section \<open>Numbers\<close>

text \<open>What a reader makes of the digits, the most significant one first.\<close>

definition digit_val :: "uchar \<Rightarrow> nat" where
  "digit_val c = (if c < 58 then unat c - 48 else unat c - 87)"

definition read_digits :: "nat \<Rightarrow> uchar list \<Rightarrow> nat" where
  "read_digits base cs = foldl (\<lambda>v c. base * v + digit_val c) 0 cs"

definition read_int :: "uchar list \<Rightarrow> int" where
  "read_int cs = (if cs \<noteq> [] \<and> hd cs = 45 then - int (read_digits 10 (tl cs)) else int (read_digits 10 cs))"

lemma unat_digits: "d < 16 \<Longrightarrow> unat (digits d) = (if d < 10 then 48 + d else 87 + d)"
  unfolding digits_def by (simp only: if_distrib [of unat] unat_of_nat) (auto intro: mod_less)

lemma digit_val_digits: "d < 16 \<Longrightarrow> digit_val (digits d) = d"
  by (simp add: digit_val_def word_less_nat_alt unat_digits)

lemma read_digits_snoc: "read_digits b (cs @ [c]) = b * read_digits b cs + digit_val c"
  by (simp add: read_digits_def)

lemma read_printint_loop:
  assumes "2 \<le> base" and "base \<le> 16"
  shows "read_digits base (rev (printint_loop x base)) = x"
  using assms
proof (induction x base rule: printint_loop.induct)
  case (1 x base)
  have d: "digit_val (digits (x mod base)) = x mod base"
    using 1(2,3) by (intro digit_val_digits order.strict_trans2 [OF mod_less_divisor]) auto
  show ?case
  proof (cases "x div base = 0")
    case True
    then have "x mod base = x" using 1(2) by (metis mult_zero_right mult_div_mod_eq add_0)
    with True d show ?thesis by (subst printint_loop.simps) (simp add: read_digits_def)
  next
    case False
    with 1 d show ?thesis by (subst printint_loop.simps) (simp add: read_digits_snoc)
  qed
qed

lemma length_printint_loop:
  "x < 10 ^ Suc k \<Longrightarrow> length (printint_loop x 10) \<le> Suc k"
proof (induction k arbitrary: x)
  case 0
  then show ?case by (subst printint_loop.simps) simp
next
  case (Suc k)
  then have "x div 10 < 10 ^ Suc k" by (simp add: less_mult_imp_div_less mult.commute)
  with Suc.IH show ?case by (subst printint_loop.simps) simp
qed

lemma hd_printint_loop: "last (printint_loop x 10) \<noteq> 45" "printint_loop x 10 \<noteq> []"
proof -
  have d: "digits (x mod 10) \<noteq> 45" for x :: nat
  proof -
    have "x mod 10 < 10" by simp
    then have "unat (digits (x mod 10)) \<noteq> 45" by (simp add: unat_digits)
    then show ?thesis by auto
  qed
  show "last (printint_loop x 10) \<noteq> 45"
  proof (induction x "10 :: nat" rule: printint_loop.induct)
    case (1 x)
    show ?case
    proof (cases "x div 10 = 0")
      case True
      then show ?thesis using d [of x] by (subst printint_loop.simps) simp
    next
      case False
      then have "last (printint_loop (x div 10) 10) \<noteq> 45" using 1 by simp
      moreover have "printint_loop (x div 10) 10 \<noteq> []" by (subst printint_loop.simps) simp
      ultimately show ?thesis using False by (subst printint_loop.simps) simp
    qed
  qed
  show "printint_loop x 10 \<noteq> []" by (subst printint_loop.simps) simp
qed

lemma sint_abs: "(if sint xx < 0 then - int (unat (- xx)) else int (unat xx)) = sint (xx :: uint)"
proof -
  have lt: "0 \<le> Word.uint xx" "Word.uint xx < 2 ^ 32" using unsigned_less [of xx, where 'a = int] by simp_all
  then have s: "sint xx = Word.uint xx - 2 ^ 32 * of_bool (bit (Word.uint xx) 31)"
    by (simp add: sint_uint signed_take_bit_eq_take_bit_minus take_bit_int_eq_self)
  show ?thesis
  proof (cases "sint xx < 0")
    case True
    then have b: "bit (Word.uint xx) 31" using s lt by (cases "bit (Word.uint xx) 31") auto
    then have "Word.uint xx \<noteq> 0" by auto
    then have "Word.uint (- xx) = 2 ^ 32 - Word.uint xx" using lt by (simp add: uint_word_ariths zmod_zminus1_eq_if)
    with True b s show ?thesis by simp
  next
    case False
    then show ?thesis using s lt by (cases "bit (Word.uint xx) 31") auto
  qed
qed

text \<open>The characters that \<^verbatim>\<open>printint\<close> prints for \<^verbatim>\<open>%d\<close> read back as the number, for every 32-bit number, and
  they fit in its buffer of 16; so does the smallest number, which has no negative.\<close>

theorem printint_reads_back:
  "read_int (printint_chars xx 10 True) = sint xx \<and> length (printint_chars xx 10 True) \<le> 11"
proof -
  let ?n = "sint xx < 0" and ?x = "unat (if sint xx < 0 then - xx else xx)"
  let ?l = "printint_loop ?x 10"
  have "?x < 2 ^ 32" by (rule order.strict_trans2 [OF unsigned_less]) simp
  then have len: "length ?l \<le> 10" using length_printint_loop [of ?x 9] by simp
  have val: "read_digits 10 (rev ?l) = ?x" by (rule read_printint_loop) simp_all
  have x: "(if ?n then - int ?x else int ?x) = sint xx" using sint_abs [of xx] by (cases ?n) simp_all
  show ?thesis
  proof (cases ?n)
    case True
    then show ?thesis using len val x by (simp add: printint_chars_def read_int_def Let_def)
  next
    case False
    moreover have "hd (rev ?l) \<noteq> 45" using hd_printint_loop [of ?x] by (simp add: hd_rev)
    ultimately show ?thesis using len val x hd_printint_loop(2) [of ?x]
      by (simp add: printint_chars_def read_int_def Let_def)
  qed
qed


section \<open>The input line\<close>

definition in_bytes :: "input_struct \<Rightarrow> uint \<Rightarrow> nat \<Rightarrow> uchar list" where
  "in_bytes i a n = map (\<lambda>j. in_at i (a + of_nat j)) [0..<n]"

text \<open>What is ready to be read, and the line that is still edited.\<close>

definition in_ready :: "input_struct \<Rightarrow> uchar list" where
  "in_ready i = in_bytes i (in_r i) (unat (in_w i - in_r i))"

definition in_line :: "input_struct \<Rightarrow> uchar list" where
  "in_line i = in_bytes i (in_w i) (unat (in_e i - in_w i))"

definition in_inv :: "input_struct \<Rightarrow> bool" where
  "in_inv i \<longleftrightarrow> length (in_ready i) + length (in_line i) \<le> 128 \<and> newline \<notin> set (in_line i)"

lemma length_in_bytes [simp]: "length (in_bytes i a n) = n"
  by (simp add: in_bytes_def)

lemma input_index: "unat ((a + of_nat j) mod INPUT_BUF) = (unat a + j) mod 128"
proof -
  have "unat ((a + of_nat j) mod INPUT_BUF) = unat (a + of_nat j) mod 128" by (simp add: unat_mod)
  also have "unat (a + of_nat j) = (unat a + j) mod 2 ^ 32" by (simp add: unat_word_ariths unat_of_nat mod_add_right_eq)
  also have "(unat a + j) mod 2 ^ 32 mod 128 = (unat a + j) mod 128" by (rule mod_mod_cancel) simp
  finally show ?thesis .
qed

lemma in_at_index: "in_at i (a + of_nat j) = in_buf i ((unat a + j) mod 128)"
  by (simp add: in_at_def input_index)

lemma in_bytes_append: "in_bytes i a (m + n) = in_bytes i a m @ in_bytes i (a + of_nat m) n"
  by (rule nth_equalityI) (auto simp: in_bytes_def nth_append add.assoc simp flip: of_nat_add)

lemma in_bytes_cong: "(\<And>j. j < n \<Longrightarrow> in_buf i ((unat a + j) mod 128) = in_buf i' ((unat a + j) mod 128))
    \<Longrightarrow> in_bytes i a n = in_bytes i' a n"
  by (simp add: in_bytes_def in_at_index)

lemma in_bytes_fields [simp]:
  "in_bytes (i\<lparr>in_e := x\<rparr>) a n = in_bytes i a n" "in_bytes (i\<lparr>in_r := x\<rparr>) a n = in_bytes i a n"
  "in_bytes (i\<lparr>in_w := x\<rparr>) a n = in_bytes i a n"
  by (simp_all add: in_bytes_def in_at_def)

lemma mod_window:
  fixes a :: nat
  assumes "j < n" and "n < 128"
  shows "(a + j) mod 128 \<noteq> (a + n) mod 128"
proof
  assume "(a + j) mod 128 = (a + n) mod 128"
  then have "128 dvd (a + n) - (a + j)" using assms(1) by (intro mod_eq_dvd_iff_nat [THEN iffD1]) auto
  with assms show False by (auto dest: dvd_imp_le)
qed

lemma in_bytes_put:
  assumes "in_e i = a + of_nat n" and "n < 128"
  shows "in_bytes (in_put c i) a n = in_bytes i a n" and "in_bytes (in_put c i) a (Suc n) = in_bytes i a n @ [c]"
proof -
  have e: "unat (in_e i mod INPUT_BUF) = (unat a + n) mod 128"
    by (simp add: assms(1) input_index)
  show same: "in_bytes (in_put c i) a n = in_bytes i a n"
    by (rule in_bytes_cong) (use mod_window [OF _ assms(2)] in \<open>simp add: in_put_def e\<close>)
  have "in_at (in_put c i) (a + of_nat n) = c" by (simp add: in_at_index in_put_def e)
  then show "in_bytes (in_put c i) a (Suc n) = in_bytes i a n @ [c]" using same by (simp add: in_bytes_def)
qed

lemma in_parts:
  "in_w i = in_r i + of_nat (length (in_ready i))" "in_e i = in_w i + of_nat (length (in_line i))"
  by (simp_all add: in_ready_def in_line_def)

lemma in_partsI:
  assumes "in_w i = in_r i + of_nat m" and "in_e i = in_w i + of_nat n" and "m < 2 ^ 32" and "n < 2 ^ 32"
  shows "in_ready i = in_bytes i (in_r i) m" and "in_line i = in_bytes i (in_w i) n"
  using assms by (simp_all add: in_ready_def in_line_def unat_of_nat)

text \<open>The line discipline on lists: the input ready and the line under the cursor. \<open>fg\<close> says that there is a foreground process.\<close>

definition edit :: "bool \<Rightarrow> int \<Rightarrow> uchar list \<times> uchar list \<Rightarrow> uchar list \<times> uchar list" where
  "edit fg c q =
     (case q of (rd, ln) \<Rightarrow>
      if c = 16 then (rd, ln)
      else if c = 21 then (rd, [])
      else if c = 8 \<or> c = 127 then (rd, butlast ln)
      else if c = 3 then (if fg then ([newline], []) else (rd, ln))
      else if c \<noteq> 0 \<and> length rd + length ln < 128 then
       (let ln = ln @ [if c = 13 then newline else of_int c] in
        if c = 10 \<or> c = 13 \<or> c = 4 \<or> length rd + length ln = 128 then (rd @ ln, []) else (rd, ln))
      else (rd, ln))"

lemma in_drop_last:
  assumes "in_e i \<noteq> in_w i"
  shows "in_ready (i\<lparr>in_e := in_e i - 1\<rparr>) = in_ready i" and "in_line (i\<lparr>in_e := in_e i - 1\<rparr>) = butlast (in_line i)"
    and "in_line i \<noteq> []" and "last (in_line i) = in_at i (in_e i - 1)"
proof -
  show "in_ready (i\<lparr>in_e := in_e i - 1\<rparr>) = in_ready i" by (simp add: in_ready_def)
  have ne: "in_e i - in_w i \<noteq> 0" using assms by simp
  then obtain n where n: "unat (in_e i - in_w i) = Suc n" by (metis not0_implies_Suc unat_eq_zero)
  then have "unat (in_e i - in_w i - 1) = n" using ne by (simp add: unat_minus_one)
  then have m: "unat (in_e i - 1 - in_w i) = n" by (simp add: algebra_simps)
  have "in_e i - in_w i = of_nat (Suc n)" unfolding n [symmetric] by simp
  then have e: "in_e i - 1 = in_w i + of_nat n" by (simp add: algebra_simps)
  show "in_line (i\<lparr>in_e := in_e i - 1\<rparr>) = butlast (in_line i)" "in_line i \<noteq> []"
    by (simp_all add: in_line_def n m) (simp_all add: in_bytes_def)
  show "last (in_line i) = in_at i (in_e i - 1)" by (simp add: in_line_def n in_bytes_def e)
qed

lemma consputc_returns:
  assumes "\<not> panicked s"
  obtains t where "consputc c s = Inr t" and "input t = input s" and "panicked t = panicked s"
proof -
  have "panicked (outb p v s) = panicked s" for p v and s :: "'a con_st_scheme" by (simp add: outb_def)
  then have u: "panicked (uartputc c s) = panicked s" for c and s :: "'a con_st_scheme" by (simp add: uartputc_def)
  have v: "panicked (vgaputc c s) = panicked s" for c and s :: "'a con_st_scheme"
    by (simp add: vgaputc_def split: prod.split)
  have "\<exists>t. consputc c s = Inr t \<and> panicked t = panicked s" using assms by (auto simp: consputc_def Let_def u v)
  with input_consputc [of c s] show ?thesis using that by blast
qed

lemma kill_line_ok:
  assumes "\<not> panicked s" and "newline \<notin> set (in_line (input s))"
  shows "\<exists>t. kill_line s = Inr t \<and> in_ready (input t) = in_ready (input s) \<and> in_line (input t) = []"
  using assms
proof (induction s rule: kill_line.induct)
  case (1 s)
  let ?i = "input s"
  show ?case
  proof (cases "in_e ?i = in_w ?i")
    case True
    then show ?thesis by (subst kill_line.simps) (simp add: in_line_def in_bytes_def)
  next
    case False
    note d = in_drop_last [OF False]
    have nl: "in_at ?i (in_e ?i - 1) \<noteq> newline" using 1(3) d(3,4) by (metis last_in_set)
    let ?s = "upd_input (\<lambda>i. i\<lparr>in_e := in_e i - 1\<rparr>) s"
    have "\<not> panicked ?s" using 1(2) by (simp add: upd_input_def)
    then obtain t where t: "consputc BACKSPACE ?s = Inr t" "input t = input ?s" "panicked t = panicked ?s"
      by (rule consputc_returns)
    have i: "input t = ?i\<lparr>in_e := in_e ?i - 1\<rparr>" using t(2) by (simp add: upd_input_def)
    have "newline \<notin> set (in_line (input t))" unfolding i d(2) using 1(3) by (auto dest: in_set_butlastD)
    moreover have "\<not> panicked t" using t(3) 1(2) by (simp add: upd_input_def)
    moreover have "in_ready (input t) = in_ready ?i" unfolding i by (rule d(1))
    ultimately show ?thesis using 1(1) [OF refl _ t(1)] False nl t(1) by (subst kill_line.simps) (simp add: Let_def)
  qed
qed


lemma in_put_parts:
  assumes "length (in_ready i) + length (in_line i) < 128"
  shows "in_ready (in_put c i) = in_ready i" and "in_line (in_put c i) = in_line i @ [c]"
proof -
  let ?L = "length (in_ready i)" and ?M = "length (in_line i)" and ?i = "in_put c i"
  have f: "in_r ?i = in_r i" "in_w ?i = in_w i" "in_e ?i = in_e i + 1" by (simp_all add: in_put_def)
  note w = in_parts(1) [of i] and e = in_parts(2) [of i]
  have r: "in_ready i = in_bytes i (in_r i) ?L" "in_line i = in_bytes i (in_w i) ?M" by (simp_all add: in_ready_def in_line_def)
  have "in_w ?i = in_r ?i + of_nat ?L" "in_e ?i = in_w ?i + of_nat (Suc ?M)" using w e f by (simp_all add: algebra_simps)
  from in_partsI [OF this] assms have p: "in_ready ?i = in_bytes ?i (in_r i) ?L" "in_line ?i = in_bytes ?i (in_w i) (Suc ?M)"
    by (simp_all add: f)
  have "in_e i = in_r i + of_nat (?L + ?M)" using e unfolding w by (simp add: algebra_simps)
  from in_bytes_put(1) [OF this assms, of c] have "in_bytes ?i (in_r i) ?L = in_bytes i (in_r i) ?L"
    by (simp add: in_bytes_append)
  with p r show "in_ready ?i = in_ready i" by simp
  show "in_line ?i = in_line i @ [c]" using p(2) in_bytes_put(2) [OF e, of c] assms r(2) by simp
qed

lemma in_commit_parts:
  assumes "length (in_ready i) + length (in_line i) \<le> 128"
  shows "in_ready (i\<lparr>in_w := in_e i\<rparr>) = in_ready i @ in_line i" and "in_line (i\<lparr>in_w := in_e i\<rparr>) = []"
proof -
  let ?L = "length (in_ready i)" and ?M = "length (in_line i)" and ?i = "i\<lparr>in_w := in_e i\<rparr>"
  note w = in_parts(1) [of i] and e = in_parts(2) [of i]
  have r: "in_ready i = in_bytes i (in_r i) ?L" "in_line i = in_bytes i (in_w i) ?M" by (simp_all add: in_ready_def in_line_def)
  have "in_w ?i = in_r ?i + of_nat (?L + ?M)" using e unfolding w by (simp add: algebra_simps)
  then have "in_ready ?i = in_bytes i (in_r i) (?L + ?M)" using in_partsI(1) [of ?i "?L + ?M" 0] assms by simp
  then show "in_ready ?i = in_ready i @ in_line i" using r w by (simp add: in_bytes_append)
  show "in_line ?i = []" by (simp add: in_line_def in_bytes_def)
qed

lemma in_restart:
  fixes i
  defines "j \<equiv> in_put newline (i\<lparr>in_e := in_r i\<rparr>)"
  shows "in_ready (j\<lparr>in_w := in_e j\<rparr>) = [newline]" and "in_line (j\<lparr>in_w := in_e j\<rparr>) = []"
proof -
  let ?e = "i\<lparr>in_e := in_r i, in_w := in_r i\<rparr>"
  have "in_ready ?e = []" "in_line ?e = []" by (simp_all add: in_ready_def in_line_def in_bytes_def)
  then have p: "in_ready (in_put newline ?e) = []" "in_line (in_put newline ?e) = [newline]"
    using in_put_parts [of ?e newline] by simp_all
  have "j\<lparr>in_w := in_e j\<rparr> = (in_put newline ?e)\<lparr>in_w := in_e (in_put newline ?e)\<rparr>"
    by (simp add: j_def in_put_def)
  with p show "in_ready (j\<lparr>in_w := in_e j\<rparr>) = [newline]" "in_line (j\<lparr>in_w := in_e j\<rparr>) = []"
    using in_commit_parts [of "in_put newline ?e"] by simp_all
qed

lemma input_procs [simp]: "input (upd_proc p f s) = input s" "input (wakeup ch s) = input s"
  by (simp_all add: upd_proc_def wakeup_def wakeup1_eq)

lemma input_kill [simp]: "input (snd (kill pid sig s)) = input s"
  by (simp add: kill_def Let_def split: option.split)

lemma input_upd_input [simp]: "input (upd_input f s) = f (input s)" "panicked (upd_input f s) = panicked s"
  by (simp_all add: upd_input_def)

lemma in_full: "in_e i = in_r i + INPUT_BUF \<longleftrightarrow> length (in_ready i) + length (in_line i) = 128"
    "in_e i - in_r i < INPUT_BUF \<longleftrightarrow> length (in_ready i) + length (in_line i) < 128"
  if "length (in_ready i) + length (in_line i) \<le> 128" for i
proof -
  let ?n = "length (in_ready i) + length (in_line i)"
  have "in_e i = in_r i + of_nat ?n" using in_parts [of i] by (simp add: algebra_simps)
  then have "in_e i - in_r i = of_nat ?n" by simp
  moreover have "unat (of_nat ?n :: uint) = ?n" unfolding unat_of_nat by (rule mod_less) (use that in simp)
  ultimately have u: "unat (in_e i - in_r i) = ?n" by simp
  have "in_e i = in_r i + INPUT_BUF \<longleftrightarrow> in_e i - in_r i = INPUT_BUF" by (auto simp: algebra_simps)
  also have "\<dots> \<longleftrightarrow> unat (in_e i - in_r i) = unat INPUT_BUF" by (rule word_unat_eq_iff)
  finally show "in_e i = in_r i + INPUT_BUF \<longleftrightarrow> ?n = 128" using u by simp
  show "in_e i - in_r i < INPUT_BUF \<longleftrightarrow> ?n < 128" using u by (simp add: word_less_nat_alt)
qed

lemma consoleintr_insert:
  assumes "in_inv (input s)" and "\<not> panicked s" and "0 \<le> c" and "c < 256" and "c \<notin> {0, 3, 8, 16, 21, 127}"
  shows "\<exists>t. consoleintr_char c s = Inr t \<and> in_inv (input t)
    \<and> (in_ready (input t), in_line (input t)) = edit fg c (in_ready (input s), in_line (input s))"
proof (cases "length (in_ready (input s)) + length (in_line (input s)) < 128")
  case False
  then show ?thesis using assms in_full(2) [of "input s"] by (simp add: consoleintr_char_def Let_def edit_def in_inv_def)
next
  case True
  let ?d = "if c = 13 then 10 else c" and ?b = "if c = 13 then newline else of_int c"
  have b: "of_int ?d = (?b :: uchar)" by simp
  let ?s = "upd_input (in_put ?b) s" and ?rd = "in_ready (input s)" and ?ln = "in_line (input s) @ [?b]"
  have "\<not> panicked ?s" using assms(2) by simp
  then obtain t where t: "consputc ?d ?s = Inr t" "input t = input ?s" by (rule consputc_returns)
  then have p: "in_ready (input t) = ?rd" "in_line (input t) = ?ln" using in_put_parts [OF True] by simp_all
  have le: "length (in_ready (input t)) + length (in_line (input t)) \<le> 128" using p True by simp
  note full = in_full(1) [OF le] and cm = in_commit_parts [OF le]
  have nl: "?b = newline \<longleftrightarrow> c = 10 \<or> c = 13"
  proof -
    have "Word.uint (of_int c :: uchar) = c" using assms(3,4) by (simp add: uint_word_of_int)
    then have "of_int c = newline \<longleftrightarrow> c = 10" by auto
    then show ?thesis by auto
  qed
  have c: "consoleintr_char c s = (if ?d = 10 \<or> ?d = 4 \<or> in_e (input t) = in_r (input t) + INPUT_BUF
      then Inr (wakeup input_chan (upd_input (\<lambda>i. i\<lparr>in_w := in_e i\<rparr>) t)) else Inr t)"
    using assms(5) True t(1) b in_full(2) [of "input s"] by (simp add: consoleintr_char_def Let_def)
  show ?thesis
  proof (cases "c = 10 \<or> c = 13 \<or> c = 4 \<or> length ?rd + length ?ln = 128")
    case True
    then show ?thesis using c full cm p assms(5) le \<open>length ?rd + length (in_line (input s)) < 128\<close>
      by (auto simp: edit_def in_inv_def Let_def)
  next
    case False
    then show ?thesis using c full p assms(1,5) nl \<open>length ?rd + length (in_line (input s)) < 128\<close>
      by (auto simp: edit_def in_inv_def Let_def)
  qed
qed



text \<open>
  Reading: what is delivered of the input that is ready, and what stays. The read waits, \<^term>\<open>None\<close>, when the
  input ends before the line does.
\<close>

fun read_line :: "nat \<Rightarrow> bool \<Rightarrow> uchar list \<Rightarrow> (uchar list \<times> uchar list) option" where
  "read_line 0 first rd = Some ([], rd)"
| "read_line (Suc n) first [] = None"
| "read_line (Suc n) first (c # rd) =
     (if c = 4 then Some ([], if first then rd else c # rd)
      else if c = newline then Some ([c], rd)
      else map_option (\<lambda>(cs, rd). (c # cs, rd)) (read_line n False rd))"

lemma in_next:
  assumes "in_ready i = c # rd" and "length (in_ready i) \<le> 128"
  shows "in_at i (in_r i) = c" and "in_r i \<noteq> in_w i" and "in_ready (i\<lparr>in_r := in_r i + 1\<rparr>) = rd"
    and "in_line (i\<lparr>in_r := x\<rparr>) = in_line i"
proof -
  have n: "unat (in_w i - in_r i) = Suc (length rd)" using arg_cong [OF assms(1), of length] by (simp add: in_ready_def)
  have b: "in_bytes i (in_r i) (Suc (length rd)) = c # rd" using assms(1) n by (simp add: in_ready_def)
  then have "in_bytes i (in_r i) 1 @ in_bytes i (in_r i + 1) (length rd) = c # rd"
    using in_bytes_append [of i "in_r i" 1 "length rd"] by simp
  then have h: "in_at i (in_r i) = c" and t: "in_bytes i (in_r i + 1) (length rd) = rd" by (simp_all add: in_bytes_def)
  show "in_at i (in_r i) = c" by (rule h)
  show "in_r i \<noteq> in_w i" using n by auto
  have "in_w i - (in_r i + 1) = of_nat (length rd)" using in_parts(1) [of i] assms(1) by (simp add: algebra_simps)
  moreover have "unat (of_nat (length rd) :: uint) = length rd"
    unfolding unat_of_nat by (rule mod_less) (use assms in simp)
  ultimately have "in_ready (i\<lparr>in_r := in_r i + 1\<rparr>) = in_bytes i (in_r i + 1) (length rd)" by (simp add: in_ready_def)
  then show "in_ready (i\<lparr>in_r := in_r i + 1\<rparr>) = rd" using t by simp
  show "in_line (i\<lparr>in_r := x\<rparr>) = in_line i" by (simp add: in_line_def)
qed

lemma consoleread_loop_ok:
  assumes "length (in_ready (input s)) \<le> 128"
  shows "case read_line n first (in_ready (input s)) of
      Some (bs, rd) \<Rightarrow> \<exists>t. consoleread_loop cur n first s = Inr (True, bs, t) \<and> in_ready (input t) = rd
        \<and> in_line (input t) = in_line (input s)
    | None \<Rightarrow> \<not> interrupted cur s \<longrightarrow> consoleread_loop cur n first s = Inl (Sleeps ''input.r'')"
  using assms
proof (induction n arbitrary: first s)
  case 0
  then show ?case by simp
next
  case (Suc n)
  show ?case
  proof (cases "in_ready (input s)")
    case Nil
    then have "in_r (input s) = in_w (input s)" using in_parts(1) [of "input s"] by simp
    with Nil show ?thesis by simp
  next
    case (Cons c rd)
    note nx = in_next [OF Cons Suc.prems]
    let ?s = "upd_input (\<lambda>i. i\<lparr>in_r := in_r i + 1\<rparr>) s"
    have r: "in_ready (input ?s) = rd" "in_line (input ?s) = in_line (input s)" using nx by simp_all
    have undone: "input (upd_input (\<lambda>i. i\<lparr>in_r := in_r i - 1\<rparr>) ?s) = input s" by simp
    have int: "interrupted cur ?s = interrupted cur s" by (simp add: interrupted_def upd_input_def)
    have IH: "case read_line n False rd of
        Some (bs, rd) \<Rightarrow> \<exists>t. consoleread_loop cur n False ?s = Inr (True, bs, t) \<and> in_ready (input t) = rd
          \<and> in_line (input t) = in_line (input s)
      | None \<Rightarrow> \<not> interrupted cur s \<longrightarrow> consoleread_loop cur n False ?s = Inl (Sleeps ''input.r'')"
      using Suc.IH [of ?s False] Suc.prems Cons unfolding r int by simp
    show ?thesis
    proof (cases "c = 4 \<or> c = newline")
      case True
      then show ?thesis using nx r Cons undone by (auto simp: Let_def)
    next
      case False
      then show ?thesis using nx IH Cons by (auto simp: Let_def split: option.splits)
    qed
  qed
qed

text \<open>A read of the console takes from the input that is ready, in order, up to the end of the line, to an end-of-file
  mark or to the number of bytes asked for; a mark that ends a read which has delivered something is kept for the next
  one. When the input runs out before that, the reader waits. The line that is still edited is not touched.\<close>

theorem console_read_takes_line:
  assumes "in_inv (input s)" and "\<not> interrupted cur s"
  shows "case read_line n True (in_ready (input s)) of
      Some (bs, rd) \<Rightarrow> \<exists>t. consoleread_loop cur n True s = Inr (True, bs, t) \<and> in_ready (input t) = rd
        \<and> in_line (input t) = in_line (input s)
    | None \<Rightarrow> consoleread_loop cur n True s = Inl (Sleeps ''input.r'')"
proof -
  have "length (in_ready (input s)) \<le> 128" using assms(1) by (simp add: in_inv_def)
  from consoleread_loop_ok [OF this, where n = n and first = True and cur = cur] assms(2) show ?thesis by (auto split: option.splits)
qed

section \<open>Examples\<close>

definition demo_input :: input_struct where
  "demo_input = \<lparr>in_buf = (\<lambda>_. 0), in_r = 0, in_w = 0, in_e = 0, in_fgproc = None\<rparr>"

definition demo_con :: con_st where
  "demo_con = proc_st.extend demo_state (con_st.fields demo_input False (\<lambda>_. 0) (\<lambda>_. 0) [] True [] [] 0)"

lemma demo_con_simps [simp]:
  "input demo_con = demo_input" "\<not> panicked demo_con" "crt demo_con = (\<lambda>_. 0)" "crt_reg demo_con = (\<lambda>_. 0)"
  "procs demo_con = (\<lambda>_. demo_proc)(0 := demo_first)"
  by (simp_all add: demo_con_def con_st.defs proc_st.defs demo_state_def file_st.defs)

text \<open>The letter h at the start of the screen.\<close>

theorem cursor_stays_on_screen_witness:
  "crt_pos demo_con < 24 * 80 \<and> crt_pos (vgaputc 104 demo_con) < 24 * 80 \<and> crt (vgaputc 104 demo_con) 1920 = crt demo_con 1920"
  using cursor_stays_on_screen [of 104 demo_con] by (simp add: crt_pos_def)


text \<open>With "h", newline and "i" ready, a read of ten bytes gives the line.\<close>

theorem console_read_takes_line_witness:
  "\<exists>t. consoleread_loop 0 10 True (demo_con\<lparr>input := demo_input\<lparr>in_buf := (\<lambda>_. 0)(0 := 104, 1 := 10, 2 := 105),
       in_w := 3, in_e := 3\<rparr>\<rparr>) = Inr (True, [104, 10], t) \<and> in_ready (input t) = [105]"
proof -
  define i where "i = demo_input\<lparr>in_buf := (\<lambda>_. 0)(0 := 104, 1 := 10, 2 := 105), in_w := 3, in_e := 3\<rparr>"
  have r: "in_ready i = [104, 10, 105]" and l: "in_line i = []"
    by (simp_all add: i_def demo_input_def in_ready_def in_line_def in_bytes_def upt_rec in_at_def)
  have v: "in_inv (input (demo_con\<lparr>input := i\<rparr>))" by (simp add: in_inv_def r l)
  have n: "\<not> interrupted 0 (demo_con\<lparr>input := i\<rparr>)" by (simp add: interrupted_def demo_first_def demo_proc_def)
  have "read_line (Suc (Suc 8)) True [104, 10, 105] = Some ([104, 10], [105])"
    by (simp only: read_line.simps) simp
  then have "read_line 10 True [104, 10, 105] = Some ([104, 10], [105])" by (simp del: read_line.simps)
  with console_read_takes_line [OF v n, of 10] show ?thesis unfolding i_def [symmetric] by (auto simp: r)
qed


section \<open>Output changes the screen and the ports only\<close>

definition con_only :: "'a con_st_scheme \<Rightarrow> 'a con_st_scheme \<Rightarrow> bool" where
  "con_only s t \<longleftrightarrow> t = s\<lparr>crt := crt t, crt_reg := crt_reg t, ports := ports t\<rparr>"

lemma con_only_refl [simp]: "con_only s s"
  by (simp add: con_only_def)

lemma con_only_iff: "con_only s t \<longleftrightarrow> (\<exists>a b c. t = s\<lparr>crt := a, crt_reg := b, ports := c\<rparr>)"
  by (auto simp: con_only_def)

lemma con_only_trans [trans]: "con_only s t \<Longrightarrow> con_only t u \<Longrightarrow> con_only s u"
proof -
  assume t: "con_only s t" and u: "con_only t u"
  from u have "u = t\<lparr>crt := crt u, crt_reg := crt_reg u, ports := ports u\<rparr>" by (simp add: con_only_def)
  also have "\<dots> = s\<lparr>crt := crt u, crt_reg := crt_reg u, ports := ports u\<rparr>"
    by (subst t [unfolded con_only_def]) simp
  finally show ?thesis by (simp add: con_only_def)
qed

lemma con_only_fields:
  assumes "con_only s t"
  shows "procs t = procs s" and "c_proc t = c_proc s" and "panicked t = panicked s" and "input t = input s" and "km t = km s"
  using assms by (auto simp: con_only_iff)

lemma ports_only: "con_only s (s\<lparr>ports := ps\<rparr>)"
  by (cases s) (simp add: con_only_def)

lemma uartputc_only: "con_only s (uartputc c s)"
  by (simp add: uartputc_def outb_def ports_only)

lemma crt_only: "con_only s (s\<lparr>crt_reg := r, crt := m\<rparr>)"
  by (cases s) (simp add: con_only_def)

lemma vgaputc_only: "con_only s (vgaputc c s)"
  by (simp add: vgaputc_def crt_only split: prod.split)

lemma consputc_only: "consputc c s = Inr t \<Longrightarrow> con_only s t"
  by (auto simp: consputc_def Let_def split: if_splits intro!: con_only_trans [OF _ vgaputc_only]
      con_only_trans [OF _ uartputc_only] uartputc_only)

lemma rfold_only:
  assumes "\<And>x s t. f x s = Inr t \<Longrightarrow> con_only s t" and "rfold f xs s = Inr t"
  shows "con_only s t"
  using assms(2)
proof (induction xs arbitrary: s)
  case (Cons x xs)
  then show ?case by (auto simp: rbind_eq_Inr intro: con_only_trans assms(1))
qed simp

lemma put_all_only: "put_all cs s = Inr t \<Longrightarrow> con_only s t"
  unfolding put_all_def by (rule rfold_only) (rule consputc_only)

lemma rbind_only:
  assumes "rbind m f = Inr t" and "\<And>u. m = Inr u \<Longrightarrow> con_only s u" and "\<And>u. f u = Inr t \<Longrightarrow> con_only u t"
  shows "con_only s t"
  using assms by (auto simp: rbind_eq_Inr intro: con_only_trans)

lemma cprintf_loop_only: "cprintf_loop fmt args s = Inr t \<Longrightarrow> con_only s t"
proof (induction "length fmt" arbitrary: fmt args s rule: less_induct)
  case less
  note IH = less(1) and eq = less(2)
  show ?case
  proof (cases fmt)
    case Nil
    with eq show ?thesis by simp
  next
    case (Cons c fmt')
    show ?thesis
    proof (cases "c = 37")
      case False
      with eq Cons have "rbind (consputc (int (unat c)) s) (cprintf_loop fmt' args) = Inr t" by simp
      moreover have "cprintf_loop fmt' args u = Inr t \<Longrightarrow> con_only u t" for u by (rule IH) (simp_all add: Cons)
      ultimately show ?thesis by (blast intro: rbind_only consputc_only)
    next
      case True
      note c = this
      show ?thesis
      proof (cases fmt')
        case Nil
        with eq Cons c show ?thesis by simp
      next
        case (Cons d f)
        have IHf: "cprintf_loop f as u = Inr t \<Longrightarrow> con_only u t" for as u
          by (rule IH) (simp_all add: Cons \<open>fmt = c # fmt'\<close>)
        have r: "rbind m (cprintf_loop f as) = Inr t \<Longrightarrow> (\<And>u. m = Inr u \<Longrightarrow> con_only s u) \<Longrightarrow> con_only s t" for m as
          by (erule rbind_only) (auto intro: IHf)
        have r2: "rbind m (\<lambda>u. rbind (consputc x u) (cprintf_loop f as)) = Inr t \<Longrightarrow> (\<And>u. m = Inr u \<Longrightarrow> con_only s u)
            \<Longrightarrow> con_only s t" for m x as
          by (erule rbind_only) (auto elim!: rbind_only intro: IHf consputc_only)
        show ?thesis using eq c Cons \<open>fmt = c # fmt'\<close>
          by (auto simp: printint_def split: if_splits list.splits carg.splits option.splits
            elim!: r r2 dest: consputc_only put_all_only)
      qed
    qed
  qed
qed

end
