(* ===== verification/KSysproc.thy ===== *)
theory KSysproc
  imports KArgs KConsole
begin

text \<open>
  The system calls on processes, time and signals (\<^verbatim>\<open>kernel/sysproc.c\<close>). A call takes the index of the process
  that makes it; its arguments come from that process's stack.
\<close>

section \<open>Definitions\<close>

text \<open>\<^verbatim>\<open>ticks\<close> of \<^verbatim>\<open>trap.c\<close> and \<^verbatim>\<open>boottime\<close> of \<^verbatim>\<open>time.c\<close>.\<close>

record sys_st = con_st +
  ticks :: uint
  boottime :: uint

definition sys_fork :: "nat \<Rightarrow> 'a sys_st_scheme \<Rightarrow> (int \<times> 'a sys_st_scheme) res" where
  "sys_fork cur s = fork cur s"

text \<open>\<^verbatim>\<open>sys_exit\<close> does not return; the state is the one that the scheduler goes on with.\<close>

definition sys_exit :: "nat \<Rightarrow> cpu \<Rightarrow> nat \<Rightarrow> 'a sys_st_scheme \<Rightarrow> 'a sys_st_scheme res" where
  "sys_exit cpu c cur s = exit cpu c cur s"

definition sys_wait :: "nat \<Rightarrow> 'a sys_st_scheme \<Rightarrow> (int \<times> 'a sys_st_scheme) res" where
  "sys_wait cur s = wait cur s"

definition sys_kill :: "nat \<Rightarrow> 'a sys_st_scheme \<Rightarrow> (int \<times> 'a sys_st_scheme) res" where
  "sys_kill cur s =
     need (argint cur 0 s) s (\<lambda>pid. need (argint cur 1 s) s (\<lambda>sig. Inr (kill (sint pid) (sint sig) s)))"

definition sys_getpid :: "nat \<Rightarrow> 'a sys_st_scheme \<Rightarrow> (int \<times> 'a sys_st_scheme) res" where
  "sys_getpid cur s = Inr (p_pid (procs s cur), s)"

text \<open>\<^verbatim>\<open>sys_getppid\<close> follows the parent pointer, which the first process has not set.\<close>

definition sys_getppid :: "nat \<Rightarrow> 'a sys_st_scheme \<Rightarrow> (int \<times> 'a sys_st_scheme) res" where
  "sys_getppid cur s =
     (case p_parent (procs s cur) of
        None \<Rightarrow> Inl (BadAccess ''parent'')
      | Some q \<Rightarrow> Inr (p_pid (procs s q), s))"

definition sys_kgetprogname :: "nat \<Rightarrow> 'a sys_st_scheme \<Rightarrow> (int \<times> 'a sys_st_scheme) res" where
  "sys_kgetprogname cur s =
     need (argptr cur 0 16 s) s (\<lambda>dst.
     rbind (ustore_bytes cur dst (take 15 (p_name (procs s cur)) @ [0]) s) (\<lambda>s. Inr (0, s)))"

text \<open>The clock, as \<^verbatim>\<open>unix_uptime\<close> reads it.\<close>

definition clock :: "'a sys_st_scheme \<Rightarrow> (uint \<times> 'a sys_st_scheme) res" where
  "clock s =
     (case unix_uptime (fs_cmos s) (cmos_reads s) of
        None \<Rightarrow> Inl (Sleeps ''cmos'')
      | Some (Inl e, t) \<Rightarrow> Inl e
      | Some (Inr v, t) \<Rightarrow> Inr (v, s\<lparr>cmos_reads := t\<rparr>))"

definition sys_time :: "nat \<Rightarrow> 'a sys_st_scheme \<Rightarrow> (int \<times> 'a sys_st_scheme) res" where
  "sys_time cur s = rbind (clock s) (\<lambda>(v, s). Inr (sint v, s))"

definition sys_ksetprogname :: "nat \<Rightarrow> 'a sys_st_scheme \<Rightarrow> (int \<times> 'a sys_st_scheme) res" where
  "sys_ksetprogname cur s =
     need (argstr cur 0 s) s (\<lambda>src. Inr (0, upd_proc cur (\<lambda>x. x\<lparr>p_name := take 15 src\<rparr>) s))"

definition sys_sbrk :: "nat \<Rightarrow> 'a sys_st_scheme \<Rightarrow> (int \<times> 'a sys_st_scheme) res" where
  "sys_sbrk cur s =
     need (argint cur 0 s) s (\<lambda>n.
     let addr = p_sz (procs s cur) in
     rbind (growproc cur (sint n) s) (\<lambda>(r, s). Inr (if r < 0 then - 1 else sint addr, s)))"

text \<open>
  \<^verbatim>\<open>sys_sleep\<close> entered when the tick counter was \<open>ticks0\<close>. The comparison is one of unsigned numbers, since
  \<^verbatim>\<open>ticks\<close> is unsigned.
\<close>

definition sleep_check :: "nat \<Rightarrow> uint \<Rightarrow> uint \<Rightarrow> 'a sys_st_scheme \<Rightarrow> (int \<times> 'a sys_st_scheme) res" where
  "sleep_check cur n ticks0 s =
     (if ticks s - ticks0 < n then
        if p_killed (procs s cur) then Inr (- 1, s) else Inl (Sleeps ''ticks'')
      else Inr (0, s))"

definition sys_sleep :: "nat \<Rightarrow> uint \<Rightarrow> 'a sys_st_scheme \<Rightarrow> (int \<times> 'a sys_st_scheme) res" where
  "sys_sleep cur ticks0 s = need (argint cur 0 s) s (\<lambda>n. sleep_check cur n ticks0 s)"

definition sys_uptime :: "nat \<Rightarrow> 'a sys_st_scheme \<Rightarrow> (int \<times> 'a sys_st_scheme) res" where
  "sys_uptime cur s = rbind (clock s) (\<lambda>(v, s). Inr (sint (v - boottime s), s))"

definition sys_sigaction :: "nat \<Rightarrow> 'a sys_st_scheme \<Rightarrow> (int \<times> 'a sys_st_scheme) res" where
  "sys_sigaction cur s =
     need (argint cur 0 s) s (\<lambda>sig.
     need (argptr cur 1 4 s) s (\<lambda>handler.
     if sint sig < 0 \<or> sint sig \<ge> 32 then Inr (- 1, s)
     else Inr (0, upd_proc cur (\<lambda>x. x\<lparr>p_handlers := (p_handlers x)(nat (sint sig) := handler)\<rparr>) s)))"

definition sys_sigprocmask :: "nat \<Rightarrow> 'a sys_st_scheme \<Rightarrow> (int \<times> 'a sys_st_scheme) res" where
  "sys_sigprocmask cur s =
     need (argint cur 0 s) s (\<lambda>mask. Inr (0, upd_proc cur (\<lambda>x. x\<lparr>p_blocked := mask\<rparr>) s))"

text \<open>The page of the saved frame is forgotten, not freed.\<close>

definition sys_sigreturn :: "nat \<Rightarrow> 'a sys_st_scheme \<Rightarrow> (int \<times> 'a sys_st_scheme) res" where
  "sys_sigreturn cur s =
     (case p_sig_tf (procs s cur) of
        None \<Rightarrow> Inr (0, s)
      | Some (pg, tf) \<Rightarrow> Inr (0, upd_proc cur (\<lambda>x. x\<lparr>p_tf := tf, p_sig_tf := None\<rparr>) s))"

definition sys_setfg :: "nat \<Rightarrow> 'a sys_st_scheme \<Rightarrow> (int \<times> 'a sys_st_scheme) res" where
  "sys_setfg cur s =
     need (argint cur 0 s) s (\<lambda>pid.
     case find (\<lambda>p. p_pid (procs s p) = sint pid) [0..<NPROC] of
       None \<Rightarrow> Inr (- 1, s)
     | Some p \<Rightarrow> Inr (0, upd_input (\<lambda>i. i\<lparr>in_fgproc := Some p\<rparr>) s))"

end
