(* ===== verification/KExec.thy ===== *)
theory KExec
  imports KSysproc
begin

text \<open>
  Program loading (\<^verbatim>\<open>kernel/exec.c\<close>, with \<^verbatim>\<open>loaduvm\<close> of \<^verbatim>\<open>vm.c\<close> and the headers of \<^verbatim>\<open>elf.h\<close>).
\<close>

section \<open>Definitions\<close>

abbreviation "ELF_MAGIC \<equiv> 0x464C457F :: uint"
abbreviation "ELF_PROG_LOAD \<equiv> 1 :: uint"
abbreviation "MAXARG \<equiv> 32 :: nat"

record elfhdr =
  eh_magic :: uint
  eh_entry :: uint
  eh_phoff :: uint
  eh_phnum :: ushort

definition decode_elfhdr :: "uchar list \<Rightarrow> elfhdr" where
  "decode_elfhdr bs =
     \<lparr>eh_magic = rd32 (\<lambda>i. bs ! i) 0, eh_entry = rd32 (\<lambda>i. bs ! i) 24, eh_phoff = rd32 (\<lambda>i. bs ! i) 28,
      eh_phnum = rd16 (\<lambda>i. bs ! i) 44\<rparr>"

record proghdr =
  ph_type :: uint
  ph_off :: uint
  ph_vaddr :: uint
  ph_filesz :: uint
  ph_memsz :: uint

definition decode_proghdr :: "uchar list \<Rightarrow> proghdr" where
  "decode_proghdr bs =
     \<lparr>ph_type = rd32 (\<lambda>i. bs ! i) 0, ph_off = rd32 (\<lambda>i. bs ! i) 4, ph_vaddr = rd32 (\<lambda>i. bs ! i) 8,
      ph_filesz = rd32 (\<lambda>i. bs ! i) 16, ph_memsz = rd32 (\<lambda>i. bs ! i) 20\<rparr>"

text \<open>
  The loop of \<^verbatim>\<open>loaduvm\<close>; \<open>i\<close> is the offset in the segment as a number. (A segment is smaller than
  \<^verbatim>\<open>KERNBASE\<close> where it is called, so that the 32-bit counter of the code does not wrap.)
\<close>

function loaduvm_loop :: "(nat \<Rightarrow> 'a proc_st_scheme devsw) \<Rightarrow> uint \<Rightarrow> uint \<Rightarrow> nat \<Rightarrow> uint \<Rightarrow> nat \<Rightarrow> nat
    \<Rightarrow> 'a proc_st_scheme \<Rightarrow> (int \<times> 'a proc_st_scheme) res" where
  "loaduvm_loop dsw pgdir addr ip offset i sz s =
     (if sz \<le> i then Inr (0, s)
      else
       (case fst (walkpgdir pgdir (addr + of_nat i) False (km s)) of
          None \<Rightarrow> Inl (Panic ''loaduvm: address should exist'')
        | Some pte \<Rightarrow>
           (let pa = PTE_ADDR (ld32 (k_mem (km s)) pte); n = min (sz - i) 4096 in
            rbind (readi dsw ip (offset + of_nat i) (of_nat n) s) (\<lambda>(r, bs, s).
            let s = s\<lparr>km := (km s)\<lparr>k_mem := st_bytes (k_mem (km s)) (P2V pa) bs\<rparr>\<rparr> in
            if r \<noteq> int n then Inr (- 1, s)
            else loaduvm_loop dsw pgdir addr ip offset (i + 4096) sz s))))"
  by pat_completeness auto
termination
  by (relation "measure (\<lambda>(dsw, pgdir, addr, ip, offset, i, sz, s). sz - i)") auto

declare loaduvm_loop.simps [simp del]

definition loaduvm :: "(nat \<Rightarrow> 'a proc_st_scheme devsw) \<Rightarrow> uint \<Rightarrow> uint \<Rightarrow> nat \<Rightarrow> uint \<Rightarrow> uint
    \<Rightarrow> 'a proc_st_scheme \<Rightarrow> (int \<times> 'a proc_st_scheme) res" where
  "loaduvm dsw pgdir addr ip offset sz s =
     (if addr mod PGSIZE \<noteq> 0 then Inl (Panic ''loaduvm: addr must be page aligned'')
      else loaduvm_loop dsw pgdir addr ip offset 0 (unat sz) s)"

text \<open>The label \<^verbatim>\<open>bad\<close> of \<^verbatim>\<open>exec\<close>; \<open>ip\<close> is \<^term>\<open>None\<close> once the file has been let go.\<close>

definition exec_bad :: "uint \<Rightarrow> nat option \<Rightarrow> 'a proc_st_scheme \<Rightarrow> (int \<times> 'a proc_st_scheme) res" where
  "exec_bad pgdir ip s =
     rbind (if pgdir \<noteq> 0 then rbind (freevm pgdir (km s)) (\<lambda>k. Inr (s\<lparr>km := k\<rparr>)) else Inr s) (\<lambda>s.
     case ip of
       None \<Rightarrow> Inr (- 1, s)
     | Some ip \<Rightarrow> rbind (iunlockput ip s) (\<lambda>s. rbind (end_op s) (\<lambda>s. Inr (- 1, s))))"

text \<open>
  The program headers. The result is the size, or \<^term>\<open>None\<close> when the code goes to \<^verbatim>\<open>bad\<close>.
\<close>

primrec exec_load :: "(nat \<Rightarrow> 'a proc_st_scheme devsw) \<Rightarrow> uint \<Rightarrow> nat \<Rightarrow> nat \<Rightarrow> uint \<Rightarrow> uint
    \<Rightarrow> 'a proc_st_scheme \<Rightarrow> (uint option \<times> 'a proc_st_scheme) res" where
  "exec_load dsw pgdir ip 0 off sz s = Inr (Some sz, s)"
| "exec_load dsw pgdir ip (Suc n) off sz s =
     rbind (readi dsw ip off 32 s) (\<lambda>(r, bs, s).
     let ph = decode_proghdr bs in
     if r \<noteq> 32 then Inr (None, s)
     else if ph_type ph \<noteq> ELF_PROG_LOAD then exec_load dsw pgdir ip n (off + 32) sz s
     else if ph_memsz ph < ph_filesz ph then Inr (None, s)
     else if ph_vaddr ph + ph_memsz ph < ph_vaddr ph then Inr (None, s)
     else
       rbind (allocuvm pgdir sz (ph_vaddr ph + ph_memsz ph) (km s)) (\<lambda>(sz, k).
       let s = s\<lparr>km := k\<rparr> in
       if sz = 0 then Inr (None, s)
       else if ph_vaddr ph mod PGSIZE \<noteq> 0 then Inr (None, s)
       else
         rbind (loaduvm dsw pgdir (ph_vaddr ph) ip (ph_off ph) (ph_filesz ph) s) (\<lambda>(r, s).
         if r < 0 then Inr (None, s) else exec_load dsw pgdir ip n (off + 32) sz s)))"

text \<open>
  The argument strings, pushed one by one; the result is the stack pointer and the addresses, or \<^term>\<open>None\<close> for
  \<^verbatim>\<open>bad\<close>.
\<close>

primrec exec_args :: "uint \<Rightarrow> nat \<Rightarrow> uchar list list \<Rightarrow> uint \<Rightarrow> kmem \<Rightarrow> ((uint \<times> uint list) option \<times> kmem) res" where
  "exec_args pgdir argc [] sp k = Inr (Some (sp, []), k)"
| "exec_args pgdir argc (arg # args) sp k =
     (if argc \<ge> MAXARG then Inr (None, k)
      else
       (let sp = (sp - (of_nat (length arg) + 1)) AND NOT 3 in
        rbind (copyout pgdir sp (arg @ [0]) k) (\<lambda>(r, k).
        if r < 0 then Inr (None, k)
        else
          rbind (exec_args pgdir (Suc argc) args sp k) (\<lambda>(res, k).
          Inr (map_option (\<lambda>(sp', ps). (sp', sp # ps)) res, k)))))"

text \<open>The name of the program: what follows the last slash of the path.\<close>

definition last_elem :: "uchar list \<Rightarrow> uchar list" where
  "last_elem path = rev (takeWhile (\<lambda>c. c \<noteq> slash) (rev path))"

text \<open>\<^verbatim>\<open>exec\<close> once the segments are loaded and the file is let go: the stack, and the switch to the new image.\<close>

definition exec_commit :: "nat \<Rightarrow> uchar list \<Rightarrow> uchar list list \<Rightarrow> uint \<Rightarrow> uint \<Rightarrow> uint \<Rightarrow> 'a proc_st_scheme
    \<Rightarrow> (int \<times> 'a proc_st_scheme) res" where
  "exec_commit cur path argv entry pgdir sz s =
     (let sz = PGROUNDUP sz in
      rbind (allocuvm pgdir sz (sz + 2 * PGSIZE) (km s)) (\<lambda>(sz, k).
      if sz = 0 then exec_bad pgdir None (s\<lparr>km := k\<rparr>)
      else
        rbind (clearpteu pgdir (sz - 2 * PGSIZE) k) (\<lambda>k.
        rbind (exec_args pgdir 0 argv sz k) (\<lambda>(res, k).
        case res of
          None \<Rightarrow> exec_bad pgdir None (s\<lparr>km := k\<rparr>)
        | Some (sp, ptrs) \<Rightarrow>
           (let argc = of_nat (length ptrs);
                ustack = [0xffffffff, argc, sp - (argc + 1) * 4] @ ptrs @ [0];
                sp = sp - (3 + argc + 1) * 4 in
            rbind (copyout pgdir sp (concat (map enc32 ustack)) k) (\<lambda>(r, k).
            if r < 0 then exec_bad pgdir None (s\<lparr>km := k\<rparr>)
            else
             (let oldpgdir = p_pgdir (procs s cur);
                  s = upd_proc cur (\<lambda>x. x\<lparr>p_name := take 15 (last_elem path), p_pgdir := pgdir, p_sz := sz,
                        p_tf := (p_tf x)\<lparr>t_eip := entry, t_esp := sp\<rparr>\<rparr>) (s\<lparr>km := k\<rparr>) in
              rbind (switchuvm (Some (p_kstack (procs s cur), pgdir))) (\<lambda>_.
              rbind (freevm oldpgdir (km s)) (\<lambda>k. Inr (0, s\<lparr>km := k\<rparr>))))))))))"

text \<open>The current directory of a process; every process has one while it runs.\<close>

definition cwd_of :: "nat \<Rightarrow> 'a proc_st_scheme \<Rightarrow> nat" where
  "cwd_of cur s = (case p_cwd (procs s cur) of None \<Rightarrow> 0 | Some ip \<Rightarrow> ip)"

definition exec :: "(nat \<Rightarrow> 'a proc_st_scheme devsw) \<Rightarrow> nat \<Rightarrow> uchar list \<Rightarrow> uchar list list \<Rightarrow> 'a proc_st_scheme
    \<Rightarrow> (int \<times> 'a proc_st_scheme) res" where
  "exec dsw cur path argv s =
     rbind (begin_op s) (\<lambda>s.
     rbind (namei dsw (cwd_of cur s) path s) (\<lambda>(ip, s).
     case ip of
       None \<Rightarrow> rbind (end_op s) (\<lambda>s. Inr (- 1, s))
     | Some ip \<Rightarrow>
         rbind (ilock (Some ip) s) (\<lambda>s.
         rbind (readi dsw ip 0 52 s) (\<lambda>(r, bs, s).
         let elf = decode_elfhdr bs in
         if r \<noteq> 52 then exec_bad 0 (Some ip) s
         else if eh_magic elf \<noteq> ELF_MAGIC then exec_bad 0 (Some ip) s
         else
           rbind (setupkvm (km s)) (\<lambda>(pgdir, k).
           let s = s\<lparr>km := k\<rparr> in
           if pgdir = 0 then exec_bad 0 (Some ip) s
           else
             rbind (exec_load dsw pgdir ip (unat (eh_phnum elf)) (eh_phoff elf) 0 s) (\<lambda>(res, s).
             case res of
               None \<Rightarrow> exec_bad pgdir (Some ip) s
             | Some sz \<Rightarrow>
                 rbind (iunlockput ip s) (\<lambda>s.
                 rbind (end_op s) (\<lambda>s.
                 exec_commit cur path argv (eh_entry elf) pgdir sz s))))))))"

end
