(* ===== verification/KSysfile.thy ===== *)
theory KSysfile
  imports KExec
begin

text \<open>
  The system calls on files (\<^verbatim>\<open>kernel/sysfile.c\<close>). The result of a call is its return value; what it stores in
  user memory is stored in the modelled memory. \<open>dsw\<close> is the table of devices.
\<close>

section \<open>Definitions\<close>

abbreviation "O_RDONLY \<equiv> 0 :: uint"
abbreviation "O_WRONLY \<equiv> 1 :: uint"
abbreviation "O_RDWR \<equiv> 2 :: uint"
abbreviation "O_CREATE \<equiv> 0x200 :: uint"
abbreviation "O_APPEND \<equiv> 0x800 :: uint"
abbreviation "F_GETFL \<equiv> 3 :: int"
abbreviation "F_SETFL \<equiv> 4 :: int"

subsection \<open>Descriptors\<close>

definition argfd :: "nat \<Rightarrow> nat \<Rightarrow> 'a proc_st_scheme \<Rightarrow> (nat \<times> nat) option res" where
  "argfd cur n s =
     rbind (argint cur n s) (\<lambda>fd.
     case fd of
       None \<Rightarrow> Inr None
     | Some fd \<Rightarrow>
         if sint fd < 0 \<or> sint fd \<ge> int NOFILE then Inr None
         else Inr (map_option (\<lambda>f. (nat (sint fd), f)) (p_ofile (procs s cur) (nat (sint fd)))))"

definition set_ofile :: "nat \<Rightarrow> nat \<Rightarrow> nat option \<Rightarrow> 'a proc_st_scheme \<Rightarrow> 'a proc_st_scheme" where
  "set_ofile cur fd f s = upd_proc cur (\<lambda>x. x\<lparr>p_ofile := (p_ofile x)(fd := f)\<rparr>) s"

definition fdalloc :: "nat \<Rightarrow> nat \<Rightarrow> 'a proc_st_scheme \<Rightarrow> int \<times> 'a proc_st_scheme" where
  "fdalloc cur f s =
     (case find (\<lambda>fd. p_ofile (procs s cur) fd = None) [0..<NOFILE] of
        None \<Rightarrow> (- 1, s)
      | Some fd \<Rightarrow> (int fd, set_ofile cur fd (Some f) s))"

definition sys_dup :: "nat \<Rightarrow> 'a sys_st_scheme \<Rightarrow> (int \<times> 'a sys_st_scheme) res" where
  "sys_dup cur s =
     need (argfd cur 0 s) s (\<lambda>(_, f).
     case fdalloc cur f s of (fd, s) \<Rightarrow>
     if fd < 0 then Inr (- 1, s) else rbind (filedup f s) (\<lambda>s. Inr (fd, s)))"

text \<open>\<^verbatim>\<open>fileread\<close> stores at the user address what it reads.\<close>

definition sys_read :: "(nat \<Rightarrow> 'a sys_st_scheme devsw) \<Rightarrow> nat \<Rightarrow> 'a sys_st_scheme \<Rightarrow> (int \<times> 'a sys_st_scheme) res" where
  "sys_read dsw cur s =
     need (argfd cur 0 s) s (\<lambda>(_, f).
     need (argint cur 2 s) s (\<lambda>n.
     need (argptr cur 1 (sint n) s) s (\<lambda>p.
     rbind (fileread dsw (p_killed (procs s cur)) f (sint n) s) (\<lambda>(r, bs, s).
     rbind (ustore_bytes cur p bs s) (\<lambda>s. Inr (r, s))))))"

definition sys_write :: "(nat \<Rightarrow> 'a sys_st_scheme devsw) \<Rightarrow> nat \<Rightarrow> 'a sys_st_scheme \<Rightarrow> (int \<times> 'a sys_st_scheme) res" where
  "sys_write dsw cur s =
     need (argfd cur 0 s) s (\<lambda>(_, f).
     need (argint cur 2 s) s (\<lambda>n.
     need (argptr cur 1 (sint n) s) s (\<lambda>p.
     rbind (uload_bytes cur p (nat (sint n)) s) (\<lambda>bs.
     filewrite dsw (p_killed (procs s cur)) f bs s))))"

definition sys_close :: "nat \<Rightarrow> 'a sys_st_scheme \<Rightarrow> (int \<times> 'a sys_st_scheme) res" where
  "sys_close cur s =
     need (argfd cur 0 s) s (\<lambda>(fd, f). rbind (fileclose f (set_ofile cur fd None s)) (\<lambda>s. Inr (0, s)))"

text \<open>The fields of \<^verbatim>\<open>struct stat\<close> with their offsets; the two gaps after the short ones are not written.\<close>

definition stat_fields :: "stat \<Rightarrow> (uint \<times> uchar list) list" where
  "stat_fields st =
     [(0, take 2 (enc32 (ucast (st_type st)))), (4, enc32 (st_dev st)), (8, enc32 (st_ino st)),
      (12, take 2 (enc32 (ucast (st_nlink st)))), (16, enc32 (st_size st)), (20, enc32 (st_blksize st)),
      (24, enc32 (st_atime st)), (28, enc32 (st_mtime st))]"

definition zero_stat :: stat where
  "zero_stat = \<lparr>st_type = 0, st_dev = 0, st_ino = 0, st_nlink = 0, st_size = 0, st_blksize = 0, st_atime = 0, st_mtime = 0\<rparr>"

definition sys_fstat :: "nat \<Rightarrow> 'a sys_st_scheme \<Rightarrow> (int \<times> 'a sys_st_scheme) res" where
  "sys_fstat cur s =
     need (argfd cur 0 s) s (\<lambda>(_, f).
     need (argptr cur 1 32 s) s (\<lambda>p.
     rbind (filestat f zero_stat s) (\<lambda>(r, st, s).
     if r < 0 then Inr (r, s)
     else rbind (rfold (\<lambda>(off, bs) s. ustore_bytes cur (p + off) bs s) (stat_fields st) s) (\<lambda>s. Inr (r, s)))))"

subsection \<open>Links\<close>

definition end_ret :: "int \<Rightarrow> 'a sys_st_scheme \<Rightarrow> (int \<times> 'a sys_st_scheme) res" where
  "end_ret r s = rbind (end_op s) (\<lambda>s. Inr (r, s))"

text \<open>
  The target of a symbolic link is kept in \<^verbatim>\<open>ip->addrs\<close>, 44 bytes. The zero that is stored behind a target of
  that length is the first byte of the field that follows, \<^verbatim>\<open>atime\<close>.
\<close>

definition put_target :: "uchar list \<Rightarrow> inode \<Rightarrow> inode" where
  "put_target target i =
     (let bs = take 44 target; m = bs @ replicate 44 0;
          i = i\<lparr>i_addrs := (\<lambda>k. if k < NDIRECT + 1 then rd32 (\<lambda>j. m ! j) (4 * k) else i_addrs i k)\<rparr>;
          i = (if length bs = 44 then i\<lparr>i_atime := i_atime i AND NOT 0xFF\<rparr> else i)
      in i\<lparr>i_size := of_nat (length bs)\<rparr>)"

text \<open>\<^verbatim>\<open>ialloc\<close> panics when there is no inode, so that it does not return a null pointer.\<close>

definition sys_symlink :: "(nat \<Rightarrow> 'a sys_st_scheme devsw) \<Rightarrow> nat \<Rightarrow> 'a sys_st_scheme \<Rightarrow> (int \<times> 'a sys_st_scheme) res" where
  "sys_symlink dsw cur s =
     need (argstr cur 0 s) s (\<lambda>target.
     need (argstr cur 1 s) s (\<lambda>linkpath.
     rbind (begin_op s) (\<lambda>s.
     rbind (nameiparent dsw (cwd_of cur s) linkpath s) (\<lambda>(parent, name, s).
     case parent of
       None \<Rightarrow> end_ret (- 1) s
     | Some parent \<Rightarrow>
         rbind (namei dsw (cwd_of cur s) target s) (\<lambda>(tip, s).
         case tip of
           None \<Rightarrow> end_ret (- 1) s
         | Some tip \<Rightarrow>
             rbind (iput tip s) (\<lambda>s.
             rbind (ilock (Some parent) s) (\<lambda>s.
             rbind (dirlookup dsw parent name s) (\<lambda>(found, s).
             if found \<noteq> None then rbind (iunlockput parent s) (end_ret (- 1))
             else
               rbind (ialloc (i_dev (icache s parent)) T_SYMLINK s) (\<lambda>(ip, s).
               rbind (ilock (Some ip) s) (\<lambda>s.
               let s = upd_inode ip (put_target target) s in
               rbind (iupdate ip s) (\<lambda>s.
               rbind (iunlock (Some ip) s) (\<lambda>s.
               rbind (dirlink dsw parent name (i_inum (icache s ip)) s) (\<lambda>(r, s).
               if r < 0 then rbind (iput ip s) (\<lambda>s. rbind (iunlockput parent s) (\<lambda>s. Inr (- 1, s)))
               else rbind (iunlockput parent s) (end_ret 0))))))))))))))"

definition set_nlink :: "nat \<Rightarrow> ushort \<Rightarrow> 'a sys_st_scheme \<Rightarrow> 'a sys_st_scheme" where
  "set_nlink ip n s = upd_inode ip (\<lambda>i. i\<lparr>i_nlink := n\<rparr>) s"

text \<open>The label \<^verbatim>\<open>bad\<close> of \<^verbatim>\<open>sys_link\<close>.\<close>

definition link_bad :: "nat \<Rightarrow> 'a sys_st_scheme \<Rightarrow> (int \<times> 'a sys_st_scheme) res" where
  "link_bad ip s =
     rbind (ilock (Some ip) s) (\<lambda>s.
     rbind (iupdate ip (set_nlink ip (i_nlink (icache s ip) - 1) s)) (\<lambda>s.
     rbind (iunlockput ip s) (end_ret (- 1))))"

definition sys_link :: "(nat \<Rightarrow> 'a sys_st_scheme devsw) \<Rightarrow> nat \<Rightarrow> 'a sys_st_scheme \<Rightarrow> (int \<times> 'a sys_st_scheme) res" where
  "sys_link dsw cur s =
     need (argstr cur 0 s) s (\<lambda>old.
     need (argstr cur 1 s) s (\<lambda>new.
     rbind (begin_op s) (\<lambda>s.
     rbind (namei dsw (cwd_of cur s) old s) (\<lambda>(ip, s).
     case ip of
       None \<Rightarrow> end_ret (- 1) s
     | Some ip \<Rightarrow>
         rbind (ilock (Some ip) s) (\<lambda>s.
         if i_type (icache s ip) = T_DIR then rbind (iunlockput ip s) (end_ret (- 1))
         else
           rbind (iupdate ip (set_nlink ip (i_nlink (icache s ip) + 1) s)) (\<lambda>s.
           rbind (iunlock (Some ip) s) (\<lambda>s.
           rbind (nameiparent dsw (cwd_of cur s) new s) (\<lambda>(dp, name, s).
           case dp of
             None \<Rightarrow> link_bad ip s
           | Some dp \<Rightarrow>
               rbind (ilock (Some dp) s) (\<lambda>s.
               rbind (if i_dev (icache s dp) \<noteq> i_dev (icache s ip) then Inr (- 1, s)
                      else dirlink dsw dp name (i_inum (icache s ip)) s) (\<lambda>(r, s).
               if r < 0 then rbind (iunlockput dp s) (link_bad ip)
               else rbind (iunlockput dp s) (\<lambda>s. rbind (iput ip s) (end_ret 0))))))))))))"

primrec isdirempty_scan :: "(nat \<Rightarrow> 'a sys_st_scheme devsw) \<Rightarrow> nat \<Rightarrow> nat list \<Rightarrow> 'a sys_st_scheme
    \<Rightarrow> (bool \<times> 'a sys_st_scheme) res" where
  "isdirempty_scan dsw dp [] s = Inr (True, s)"
| "isdirempty_scan dsw dp (off # offs) s =
     rbind (readi dsw dp (of_nat off) 16 s) (\<lambda>(r, de, s).
     if r \<noteq> 16 then Inl (Panic ''isdirempty: readi'')
     else if de_inum de \<noteq> 0 then Inr (False, s)
     else isdirempty_scan dsw dp offs s)"

definition isdirempty :: "(nat \<Rightarrow> 'a sys_st_scheme devsw) \<Rightarrow> nat \<Rightarrow> 'a sys_st_scheme \<Rightarrow> (bool \<times> 'a sys_st_scheme) res" where
  "isdirempty dsw dp s = isdirempty_scan dsw dp (drop 2 (dir_offs (unat (i_size (icache s dp))))) s"

definition unlink_bad :: "nat \<Rightarrow> 'a sys_st_scheme \<Rightarrow> (int \<times> 'a sys_st_scheme) res" where
  "unlink_bad dp s = rbind (iunlockput dp s) (end_ret (- 1))"

definition sys_unlink :: "(nat \<Rightarrow> 'a sys_st_scheme devsw) \<Rightarrow> nat \<Rightarrow> 'a sys_st_scheme \<Rightarrow> (int \<times> 'a sys_st_scheme) res" where
  "sys_unlink dsw cur s =
     need (argstr cur 0 s) s (\<lambda>path.
     rbind (begin_op s) (\<lambda>s.
     rbind (nameiparent dsw (cwd_of cur s) path s) (\<lambda>(dp, name, s).
     case dp of
       None \<Rightarrow> end_ret (- 1) s
     | Some dp \<Rightarrow>
         rbind (ilock (Some dp) s) (\<lambda>s.
         if namecmp name [46] = 0 \<or> namecmp name [46, 46] = 0 then unlink_bad dp s
         else
           rbind (dirlookup dsw dp name s) (\<lambda>(found, s).
           case found of
             None \<Rightarrow> unlink_bad dp s
           | Some (ip, off) \<Rightarrow>
               rbind (ilock (Some ip) s) (\<lambda>s.
               if sint (i_nlink (icache s ip)) < 1 then Inl (Panic ''unlink: nlink < 1'')
               else
                 rbind (if i_type (icache s ip) = T_DIR then isdirempty dsw ip s else Inr (True, s)) (\<lambda>(empty, s).
                 if \<not> empty then rbind (iunlockput ip s) (unlink_bad dp)
                 else
                   rbind (writei dsw dp (replicate 16 0) (of_nat off) s) (\<lambda>(r, s).
                   if r \<noteq> 16 then Inl (Panic ''unlink: writei'')
                   else
                     rbind (if i_type (icache s ip) = T_DIR
                            then iupdate dp (set_nlink dp (i_nlink (icache s dp) - 1) s) else Inr s) (\<lambda>s.
                     rbind (iunlockput dp s) (\<lambda>s.
                     rbind (iupdate ip (set_nlink ip (i_nlink (icache s ip) - 1) s)) (\<lambda>s.
                     rbind (iunlockput ip s) (end_ret 0))))))))))))"


subsection \<open>Creating and opening\<close>

definition create :: "(nat \<Rightarrow> 'a sys_st_scheme devsw) \<Rightarrow> nat \<Rightarrow> uchar list \<Rightarrow> ushort \<Rightarrow> ushort \<Rightarrow> ushort
    \<Rightarrow> 'a sys_st_scheme \<Rightarrow> (nat option \<times> 'a sys_st_scheme) res" where
  "create dsw cur path type major minor s =
     rbind (nameiparent dsw (cwd_of cur s) path s) (\<lambda>(dp, name, s).
     case dp of
       None \<Rightarrow> Inr (None, s)
     | Some dp \<Rightarrow>
         rbind (ilock (Some dp) s) (\<lambda>s.
         rbind (dirlookup dsw dp name s) (\<lambda>(found, s).
         case found of
           Some (ip, off) \<Rightarrow>
             rbind (iunlockput dp s) (\<lambda>s.
             rbind (ilock (Some ip) s) (\<lambda>s.
             if type = T_FILE \<and> i_type (icache s ip) = T_FILE then Inr (Some ip, s)
             else rbind (iunlockput ip s) (\<lambda>s. Inr (None, s))))
         | None \<Rightarrow>
             rbind (ialloc (i_dev (icache s dp)) type s) (\<lambda>(ip, s).
             rbind (ilock (Some ip) s) (\<lambda>s.
             let s = upd_inode ip (\<lambda>i. i\<lparr>i_major := major, i_minor := minor, i_nlink := 1\<rparr>) s in
             rbind (iupdate ip s) (\<lambda>s.
             rbind (if type = T_DIR then
                      rbind (iupdate dp (set_nlink dp (i_nlink (icache s dp) + 1) s)) (\<lambda>s.
                      rbind (dirlink dsw ip [46] (i_inum (icache s ip)) s) (\<lambda>(r, s).
                      if r < 0 then Inl (Panic ''create dots'')
                      else
                        rbind (dirlink dsw ip [46, 46] (i_inum (icache s dp)) s) (\<lambda>(r, s).
                        if r < 0 then Inl (Panic ''create dots'') else Inr s)))
                    else Inr s) (\<lambda>s.
             rbind (dirlink dsw dp name (i_inum (icache s ip)) s) (\<lambda>(r, s).
             if r < 0 then Inl (Panic ''create: dirlink'')
             else rbind (iunlockput dp s) (\<lambda>s. Inr (Some ip, s))))))))))"

text \<open>The inode that \<^verbatim>\<open>sys_open\<close> opens, locked; \<^term>\<open>None\<close> when it returns -1.\<close>

definition open_inode :: "(nat \<Rightarrow> 'a sys_st_scheme devsw) \<Rightarrow> nat \<Rightarrow> uchar list \<Rightarrow> uint \<Rightarrow> 'a sys_st_scheme
    \<Rightarrow> (nat option \<times> 'a sys_st_scheme) res" where
  "open_inode dsw cur path omode s =
     (if omode AND O_CREATE \<noteq> 0 then create dsw cur path T_FILE 0 0 s
      else
        rbind (namei dsw (cwd_of cur s) path s) (\<lambda>(ip, s).
        case ip of
          None \<Rightarrow> Inr (None, s)
        | Some ip \<Rightarrow>
            rbind (ilock (Some ip) s) (\<lambda>s.
            if i_type (icache s ip) = T_DIR \<and> omode \<noteq> O_RDONLY then rbind (iunlockput ip s) (\<lambda>s. Inr (None, s))
            else Inr (Some ip, s))))"

definition sys_open :: "(nat \<Rightarrow> 'a sys_st_scheme devsw) \<Rightarrow> nat \<Rightarrow> 'a sys_st_scheme \<Rightarrow> (int \<times> 'a sys_st_scheme) res" where
  "sys_open dsw cur s =
     need (argstr cur 0 s) s (\<lambda>path.
     need (argint cur 1 s) s (\<lambda>omode.
     rbind (begin_op s) (\<lambda>s.
     rbind (open_inode dsw cur path omode s) (\<lambda>(ip, s).
     case ip of
       None \<Rightarrow> end_ret (- 1) s
     | Some ip \<Rightarrow>
        (case filealloc s of
           (None, s) \<Rightarrow> rbind (iunlockput ip s) (end_ret (- 1))
         | (Some f, s) \<Rightarrow>
            (case fdalloc cur f s of (fd, s) \<Rightarrow>
             if fd < 0 then rbind (fileclose f s) (\<lambda>s. rbind (iunlockput ip s) (end_ret (- 1)))
             else
               rbind (iunlock (Some ip) s) (\<lambda>s.
               rbind (end_op s) (\<lambda>s.
               Inr (fd, upd_file f (\<lambda>x. x\<lparr>f_type := FD_INODE, f_ip := Some ip, f_off := 0,
                      f_readable := (omode AND O_WRONLY = 0),
                      f_writable := (omode AND O_WRONLY \<noteq> 0 \<or> omode AND O_RDWR \<noteq> 0)\<rparr>) s)))))))))"

text \<open>\<^verbatim>\<open>sys_mkdir\<close> and \<^verbatim>\<open>sys_mknod\<close> look at their arguments inside the transaction.\<close>

definition make_node :: "(nat \<Rightarrow> 'a sys_st_scheme devsw) \<Rightarrow> nat \<Rightarrow> uchar list \<Rightarrow> ushort \<Rightarrow> ushort \<Rightarrow> ushort
    \<Rightarrow> 'a sys_st_scheme \<Rightarrow> (int \<times> 'a sys_st_scheme) res" where
  "make_node dsw cur path type major minor s =
     rbind (create dsw cur path type major minor s) (\<lambda>(ip, s).
     case ip of None \<Rightarrow> end_ret (- 1) s | Some ip \<Rightarrow> rbind (iunlockput ip s) (end_ret 0))"

definition sys_mkdir :: "(nat \<Rightarrow> 'a sys_st_scheme devsw) \<Rightarrow> nat \<Rightarrow> 'a sys_st_scheme \<Rightarrow> (int \<times> 'a sys_st_scheme) res" where
  "sys_mkdir dsw cur s =
     rbind (begin_op s) (\<lambda>s.
     rbind (argstr cur 0 s) (\<lambda>path.
     case path of None \<Rightarrow> end_ret (- 1) s | Some path \<Rightarrow> make_node dsw cur path T_DIR 0 0 s))"

definition sys_mknod :: "(nat \<Rightarrow> 'a sys_st_scheme devsw) \<Rightarrow> nat \<Rightarrow> 'a sys_st_scheme \<Rightarrow> (int \<times> 'a sys_st_scheme) res" where
  "sys_mknod dsw cur s =
     rbind (begin_op s) (\<lambda>s.
     rbind (argstr cur 0 s) (\<lambda>path.
     rbind (argint cur 1 s) (\<lambda>major.
     rbind (argint cur 2 s) (\<lambda>minor.
     case (path, major, minor) of
       (Some path, Some major, Some minor) \<Rightarrow> make_node dsw cur path T_DEV (ucast major) (ucast minor) s
     | _ \<Rightarrow> end_ret (- 1) s))))"

definition sys_chdir :: "(nat \<Rightarrow> 'a sys_st_scheme devsw) \<Rightarrow> nat \<Rightarrow> 'a sys_st_scheme \<Rightarrow> (int \<times> 'a sys_st_scheme) res" where
  "sys_chdir dsw cur s =
     rbind (begin_op s) (\<lambda>s.
     rbind (argstr cur 0 s) (\<lambda>path.
     case path of
       None \<Rightarrow> end_ret (- 1) s
     | Some path \<Rightarrow>
         rbind (namei dsw (cwd_of cur s) path s) (\<lambda>(ip, s).
         case ip of
           None \<Rightarrow> end_ret (- 1) s
         | Some ip \<Rightarrow>
             rbind (ilock (Some ip) s) (\<lambda>s.
             if i_type (icache s ip) \<noteq> T_DIR then rbind (iunlockput ip s) (end_ret (- 1))
             else
               rbind (iunlock (Some ip) s) (\<lambda>s.
               rbind (iput (cwd_of cur s) s) (\<lambda>s.
               rbind (end_op s) (\<lambda>s. Inr (0, upd_proc cur (\<lambda>x. x\<lparr>p_cwd := Some ip\<rparr>) s))))))))"

text \<open>The argument vector of \<^verbatim>\<open>sys_exec\<close>: at most \<open>n\<close> more entries.\<close>

primrec fetch_argv :: "nat \<Rightarrow> nat \<Rightarrow> uint \<Rightarrow> 'a sys_st_scheme \<Rightarrow> uchar list list option res" where
  "fetch_argv 0 cur uargv s = Inr None"
| "fetch_argv (Suc n) cur uargv s =
     rbind (fetchint cur uargv s) (\<lambda>uarg.
     case uarg of
       None \<Rightarrow> Inr None
     | Some uarg \<Rightarrow>
         if uarg = 0 then Inr (Some [])
         else
           rbind (fetchstr cur uarg s) (\<lambda>arg.
           case arg of
             None \<Rightarrow> Inr None
           | Some arg \<Rightarrow> rbind (fetch_argv n cur (uargv + 4) s) (\<lambda>args. Inr (map_option ((#) arg) args))))"

definition sys_exec :: "(nat \<Rightarrow> 'a sys_st_scheme devsw) \<Rightarrow> nat \<Rightarrow> 'a sys_st_scheme \<Rightarrow> (int \<times> 'a sys_st_scheme) res" where
  "sys_exec dsw cur s =
     need (argstr cur 0 s) s (\<lambda>path.
     need (argint cur 1 s) s (\<lambda>uargv.
     need (fetch_argv MAXARG cur uargv s) s (\<lambda>argv. exec dsw cur path argv s)))"

definition sys_pipe :: "nat \<Rightarrow> 'a sys_st_scheme \<Rightarrow> (int \<times> 'a sys_st_scheme) res" where
  "sys_pipe cur s =
     need (argptr cur 0 8 s) s (\<lambda>fd.
     rbind (pipealloc s) (\<lambda>(fs, s).
     case fs of
       None \<Rightarrow> Inr (- 1, s)
     | Some (rf, wfile) \<Rightarrow>
        (case fdalloc cur rf s of (fd0, s) \<Rightarrow>
         case (if fd0 < 0 then (- 1, s) else fdalloc cur wfile s) of (fd1, s) \<Rightarrow>
         if fd0 < 0 \<or> fd1 < 0 then
           rbind (fileclose rf (if fd0 \<ge> 0 then set_ofile cur (nat fd0) None s else s)) (\<lambda>s.
           rbind (fileclose wfile s) (\<lambda>s. Inr (- 1, s)))
         else
           rbind (ustore_bytes cur fd (enc32 (of_int fd0) @ enc32 (of_int fd1)) s) (\<lambda>s. Inr (0, s)))))"


subsection \<open>Device control, the current directory, flags\<close>

text \<open>\<^verbatim>\<open>myproc()->ofile[fd]\<close> with a number that was not checked.\<close>

definition ofile_at :: "nat \<Rightarrow> uint \<Rightarrow> 'a proc_st_scheme \<Rightarrow> nat option res" where
  "ofile_at cur fd s =
     (if sint fd < 0 \<or> sint fd \<ge> int NOFILE then Inl (BadAccess ''ofile'')
      else Inr (p_ofile (procs s cur) (nat (sint fd))))"

definition sys_ioctl :: "(nat \<Rightarrow> 'a sys_st_scheme devsw) \<Rightarrow> nat \<Rightarrow> 'a sys_st_scheme \<Rightarrow> (int \<times> 'a sys_st_scheme) res" where
  "sys_ioctl dsw cur s =
     need (argint cur 0 s) s (\<lambda>fd.
     need (argint cur 1 s) s (\<lambda>request.
     need (argptr cur 2 4 s) s (\<lambda>arg.
     need (ofile_at cur fd s) s (\<lambda>f.
     if f_type (ftable s f) \<noteq> FD_INODE then Inr (- 1, s)
     else
      (case f_ip (ftable s f) of
         None \<Rightarrow> Inl (BadAccess ''ip'')
       | Some ip \<Rightarrow>
           if i_type (icache s ip) \<noteq> T_DEV then Inr (- 1, s)
           else
            (case dev_entry dsw (i_major (icache s ip)) d_ioctl of
               None \<Rightarrow> Inr (- 1, s)
             | Some ioctl \<Rightarrow> ioctl ip (sint request) arg s))))))"

text \<open>The entry of a directory with a given inode number; \<^verbatim>\<open>strlen(de.name)\<close> needs a zero in the name.\<close>

primrec entry_of :: "(nat \<Rightarrow> 'a sys_st_scheme devsw) \<Rightarrow> nat \<Rightarrow> uint \<Rightarrow> nat list \<Rightarrow> 'a sys_st_scheme
    \<Rightarrow> (uchar list option \<times> 'a sys_st_scheme) res" where
  "entry_of dsw dp inum [] s = Inr (None, s)"
| "entry_of dsw dp inum (off # offs) s =
     rbind (readi dsw dp (of_nat off) 16 s) (\<lambda>(r, de, s).
     if r \<noteq> 16 then Inl (Panic ''getcwd readi'')
     else if ucast (de_inum de) = inum then
       if 0 \<in> set (de_name de) then Inr (Some (takeWhile (\<lambda>c. c \<noteq> 0) (de_name de)), s)
       else Inl (BadAccess ''de.name'')
     else entry_of dsw dp inum offs s)"

text \<open>
  The loop of \<^verbatim>\<open>sys_getcwd\<close>. \<open>acc\<close> is what is in \<^verbatim>\<open>temp\<close> from \<^verbatim>\<open>pos\<close> on, so that \<^verbatim>\<open>pos\<close> is 511 less its length;
  every round that is not the last one adds a separator, and the room in \<^verbatim>\<open>temp\<close> bounds the number of rounds.
  The result is the inode held at the end with the path, or \<^term>\<open>None\<close> for -1.
\<close>

function getcwd_loop :: "(nat \<Rightarrow> 'a sys_st_scheme devsw) \<Rightarrow> nat \<Rightarrow> uint \<Rightarrow> uchar list \<Rightarrow> 'a sys_st_scheme
    \<Rightarrow> ((nat \<times> uchar list) option \<times> 'a sys_st_scheme) res" where
  "getcwd_loop dsw ip child_inum acc s =
     rbind (ilock (Some ip) s) (\<lambda>s.
     rbind (dirlookup dsw ip [46, 46] s) (\<lambda>(found, s).
     case found of
       None \<Rightarrow> rbind (iunlockput ip s) (\<lambda>s. Inr (None, s))
     | Some (parent, off) \<Rightarrow>
         rbind (iunlockput ip s) (\<lambda>s.
         rbind (ilock (Some parent) s) (\<lambda>s.
         rbind (entry_of dsw parent child_inum (dir_offs (unat (i_size (icache s parent)))) s) (\<lambda>(name, s).
         case name of
           None \<Rightarrow> rbind (iunlock (Some parent) s) (\<lambda>s. rbind (iput parent s) (\<lambda>s. Inr (None, s)))
         | Some name \<Rightarrow>
            (let acc' = name @ acc; root = (i_inum (icache s parent) = ROOTINO); acc'' = slash # acc' in
             if length acc' > 511 then rbind (iunlockput parent s) (\<lambda>s. Inr (None, s))
             else if root then rbind (iunlock (Some parent) s) (\<lambda>s. Inr (Some (parent, acc'), s))
             else if length acc'' > 511 then rbind (iunlockput parent s) (\<lambda>s. Inr (None, s))
             else
               rbind (iunlock (Some parent) s) (\<lambda>s.
               getcwd_loop dsw parent (i_inum (icache s parent)) acc'' s))))))) "
  by pat_completeness auto
termination
  by (relation "measure (\<lambda>(dsw, ip, child_inum, acc, s). 511 - length acc)") auto

declare getcwd_loop.simps [simp del]

definition put_ret :: "nat \<Rightarrow> int \<Rightarrow> 'a sys_st_scheme \<Rightarrow> (int \<times> 'a sys_st_scheme) res" where
  "put_ret ip r s = rbind (iput ip s) (\<lambda>s. Inr (r, s))"

definition store_root :: "nat \<Rightarrow> uint \<Rightarrow> int \<Rightarrow> nat \<Rightarrow> 'a sys_st_scheme \<Rightarrow> (int \<times> 'a sys_st_scheme) res" where
  "store_root cur buf size' ip s =
     (if size' < 2 then put_ret ip (- 1) s
      else rbind (ustore_bytes cur buf [slash, 0] s) (put_ret ip 0))"

definition sys_getcwd :: "(nat \<Rightarrow> 'a sys_st_scheme devsw) \<Rightarrow> nat \<Rightarrow> 'a sys_st_scheme \<Rightarrow> (int \<times> 'a sys_st_scheme) res" where
  "sys_getcwd dsw cur s =
     need (argptr cur 0 1 s) s (\<lambda>buf.
     need (argint cur 1 s) s (\<lambda>size'.
     if buf = 0 \<or> sint size' \<le> 0 then Inr (- 1, s)
     else
      (let ip = cwd_of cur s; s = idup ip s; inum = i_inum (icache s ip) in
       if inum = ROOTINO then store_root cur buf (sint size') ip s
       else
         rbind (getcwd_loop dsw ip inum [] s) (\<lambda>(res, s).
         case res of
           None \<Rightarrow> Inr (- 1, s)
         | Some (ip, path) \<Rightarrow>
             if path = [] then store_root cur buf (sint size') ip s
             else if int (length path) \<ge> sint size' then put_ret ip (- 1) s
             else if hd path \<noteq> slash \<and> length path = 511 then put_ret ip (- 1) s
             else
              (let path = (if hd path \<noteq> slash then slash # path else path) in
               rbind (ustore_bytes cur buf (path @ [0]) s) (put_ret ip 0))))))"

definition sys_sync :: "nat \<Rightarrow> 'a sys_st_scheme \<Rightarrow> (int \<times> 'a sys_st_scheme) res" where
  "sys_sync cur s = rbind (fssync s) (\<lambda>s. Inr (0, s))"

definition sys_fcntl :: "nat \<Rightarrow> 'a sys_st_scheme \<Rightarrow> (int \<times> 'a sys_st_scheme) res" where
  "sys_fcntl cur s =
     need (argint cur 0 s) s (\<lambda>fd.
     need (argint cur 1 s) s (\<lambda>cmd.
     rbind (argint cur 2 s) (\<lambda>arg.
     let arg = (case arg of None \<Rightarrow> 0 | Some arg \<Rightarrow> arg) in
     need (ofile_at cur fd s) s (\<lambda>f.
     let x = ftable s f in
     if sint cmd = F_GETFL then
       Inr (if f_readable x \<and> \<not> f_writable x then 0 else if \<not> f_readable x \<and> f_writable x then 1 else 2, s)
     else if sint cmd = F_SETFL then
       Inr (0, if arg AND O_APPEND \<noteq> 0 then upd_file f (\<lambda>x. x\<lparr>f_flags := f_flags x OR F_APPEND\<rparr>) s else s)
     else Inr (- 1, s)))))"

end
