(* ===== verification/KTrap.thy ===== *)
theory KTrap
  imports KSysfile
begin

text \<open>
  The table of system calls and their dispatch (\<^verbatim>\<open>kernel/syscall.c\<close> from the table on), and the trap handler
  (\<^verbatim>\<open>kernel/trap.c\<close>). A trap ends in one of three ways: the interrupted code goes on, the process has exited, or
  it has given up the CPU.

  A process that was killed does not get back to user mode (\<open>trap_resumes\<close>).
\<close>

section \<open>Definitions\<close>

subsection \<open>Dispatch\<close>

text \<open>
  The table \<^verbatim>\<open>syscalls\<close> but for \<^verbatim>\<open>sys_exit\<close>, which does not return. \<^verbatim>\<open>sys_sleep\<close> reads the tick counter when it is
  entered.
\<close>

definition syscalls :: "(nat \<Rightarrow> 'a sys_st_scheme devsw) \<Rightarrow> nat \<Rightarrow> int
    \<Rightarrow> ('a sys_st_scheme \<Rightarrow> (int \<times> 'a sys_st_scheme) res) option" where
  "syscalls dsw cur num = map_of
     [(1, sys_fork cur), (3, sys_wait cur), (4, sys_pipe cur), (5, sys_read dsw cur), (6, sys_kill cur),
      (7, sys_exec dsw cur), (8, sys_fstat cur), (9, sys_chdir dsw cur), (10, sys_dup cur), (11, sys_getpid cur),
      (12, sys_sbrk cur), (13, \<lambda>s. sys_sleep cur (ticks s) s), (14, sys_uptime cur), (15, sys_open dsw cur),
      (16, sys_write dsw cur), (17, sys_mknod dsw cur), (18, sys_unlink dsw cur), (19, sys_link dsw cur),
      (20, sys_mkdir dsw cur), (21, sys_close cur), (22, sys_getppid cur), (23, sys_ioctl dsw cur),
      (24, sys_getcwd dsw cur), (25, sys_sync cur), (26, sys_fcntl cur), (27, sys_kgetprogname cur),
      (28, sys_ksetprogname cur), (29, sys_time cur), (30, sys_symlink dsw cur), (31, sys_sigaction cur),
      (32, sys_sigprocmask cur), (33, sys_sigreturn cur), (34, sys_setfg cur)] num"

definition set_eax :: "nat \<Rightarrow> int \<Rightarrow> 'a sys_st_scheme \<Rightarrow> 'a sys_st_scheme" where
  "set_eax cur r s = upd_proc cur (\<lambda>x. x\<lparr>p_tf := (p_tf x)\<lparr>t_eax := of_int r\<rparr>\<rparr>) s"

definition ascii :: "string \<Rightarrow> uchar list" where
  "ascii cs = map of_char cs"

text \<open>\<^verbatim>\<open>syscall\<close>; the flag says that the process goes on.\<close>

definition syscall :: "(nat \<Rightarrow> 'a sys_st_scheme devsw) \<Rightarrow> nat \<Rightarrow> cpu \<Rightarrow> nat \<Rightarrow> 'a sys_st_scheme
    \<Rightarrow> (bool \<times> 'a sys_st_scheme) res" where
  "syscall dsw cpu c cur s =
     (let num = t_eax (p_tf (procs s cur)) in
      if sint num = 2 then rbind (sys_exit cpu c cur s) (\<lambda>s. Inr (False, s))
      else
       (case syscalls dsw cur (sint num) of
          Some f \<Rightarrow> rbind (f s) (\<lambda>(r, s). Inr (True, set_eax cur r s))
        | None \<Rightarrow>
            rbind (cprintf (Some (ascii ''%d %s: unknown sys call %d'' @ [newline]))
                    [IntArg (of_int (p_pid (procs s cur))), StrArg (Some (p_name (procs s cur))), IntArg num] s) (\<lambda>s.
            Inr (True, set_eax cur (- 1) s))))"

subsection \<open>The interrupt table\<close>

text \<open>\<^verbatim>\<open>struct gatedesc\<close>, the fields that \<^verbatim>\<open>SETGATE\<close> does not set to constants apart.\<close>

record gatedesc =
  g_off :: uint
  g_cs :: ushort
  g_type :: nat
  g_dpl :: nat

definition setgate :: "bool \<Rightarrow> ushort \<Rightarrow> uint \<Rightarrow> nat \<Rightarrow> gatedesc" where
  "setgate istrap sel off d = \<lparr>g_off = off, g_cs = sel, g_type = (if istrap then 0xF else 0xE), g_dpl = d\<rparr>"

definition tvinit :: "(nat \<Rightarrow> uint) \<Rightarrow> nat \<Rightarrow> gatedesc" where
  "tvinit vectors = (\<lambda>i. setgate False 8 (vectors i) 0)(64 := setgate True 8 (vectors 64) 3)"

subsection \<open>Traps\<close>

abbreviation "T_SYSCALL \<equiv> 64 :: uint"
abbreviation "T_IRQ0 \<equiv> 32 :: uint"

datatype trap_out = Resume trapframe | Exited | Yielded trapframe

definition user_mode :: "trapframe \<Rightarrow> bool" where
  "user_mode tf \<longleftrightarrow> t_cs tf AND 3 = 3"

definition do_exit :: "nat \<Rightarrow> cpu \<Rightarrow> nat \<Rightarrow> 'a sys_st_scheme \<Rightarrow> (trap_out \<times> 'a sys_st_scheme) res" where
  "do_exit cpu c cur s = rbind (exit cpu c cur s) (\<lambda>s. Inr (Exited, s))"

text \<open>The system call trap.\<close>

definition trap_syscall :: "(nat \<Rightarrow> 'a sys_st_scheme devsw) \<Rightarrow> nat \<Rightarrow> cpu \<Rightarrow> trapframe \<Rightarrow> 'a sys_st_scheme
    \<Rightarrow> (trap_out \<times> 'a sys_st_scheme) res" where
  "trap_syscall dsw cpu c tf s =
     (case myproc cpu s of
        None \<Rightarrow> Inl (BadAccess ''myproc'')
      | Some cur \<Rightarrow>
          if interrupted cur s then do_exit cpu c cur s
          else
            rbind (syscall dsw cpu c cur (upd_proc cur (\<lambda>x. x\<lparr>p_tf := tf\<rparr>) s)) (\<lambda>(goes_on, s).
            if \<not> goes_on then Inr (Exited, s)
            else if interrupted cur s then do_exit cpu c cur s
            else Inr (Resume (p_tf (procs s cur)), s)))"

text \<open>The interrupts and exceptions; \<open>cr2\<close> is the faulting address. Acknowledging the interrupt is not modelled.\<close>

definition trap_event :: "nat \<Rightarrow> uint \<Rightarrow> trapframe \<Rightarrow> 'a sys_st_scheme \<Rightarrow> 'a sys_st_scheme res" where
  "trap_event cpu cr2 tf s =
     (let no = t_trapno tf in
      if no = T_IRQ0 then
        Inr (if cpu = 0 then wakeup (AddrChan ''ticks'') (s\<lparr>ticks := ticks s + 1\<rparr>) else s)
      else if no = T_IRQ0 + 14 then ideintr s
      else if no = T_IRQ0 + 15 then Inr s
      else if no = T_IRQ0 + 1 then kbdintr s
      else if no = T_IRQ0 + 4 then uartintr s
      else if no = T_IRQ0 + 7 \<or> no = T_IRQ0 + 31 then
        cprintf (Some (ascii ''cpu%d: spurious interrupt at %x:%x'' @ [newline]))
          [IntArg (of_nat cpu), IntArg (ucast (t_cs tf)), IntArg (t_eip tf)] s
      else
       (case myproc cpu s of
          None \<Rightarrow> Inl (Panic ''trap'')
        | Some cur \<Rightarrow>
            if t_cs tf AND 3 = 0 then Inl (Panic ''trap'')
            else
              rbind (cprintf (Some (ascii ''pid %d %s: trap %d err %d on cpu %d eip 0x%x addr 0x%x--kill proc'' @ [newline]))
                [IntArg (of_int (p_pid (procs s cur))), StrArg (Some (p_name (procs s cur))), IntArg no, IntArg (t_err tf),
                 IntArg (of_nat cpu), IntArg (t_eip tf), IntArg cr2] s) (\<lambda>s.
              Inr (upd_proc cur (\<lambda>x. x\<lparr>p_killed := True\<rparr>) s))))"

text \<open>
  Signals that came up while the trap was handled: the frame to return with, and the state. Signal 0 stands for
  none.
\<close>

definition deliver :: "nat \<Rightarrow> trapframe \<Rightarrow> 'a sys_st_scheme \<Rightarrow> (trapframe \<times> 'a sys_st_scheme) res" where
  "deliver cur tf s =
     (let x = procs s cur; pending = p_pending x AND NOT (p_blocked x);
          sig = (case find (\<lambda>i. bit pending i) [0..<32] of None \<Rightarrow> 0 | Some i \<Rightarrow> i) in
      if sig = 0 then Inr (tf, s)
      else
       (let s = upd_proc cur (\<lambda>x. x\<lparr>p_pending := p_pending x AND NOT (push_bit sig 1)\<rparr>) s in
        if sig = SIGKILL \<or> sig = SIGINT \<and> p_handlers x sig = 0 then
          Inr (tf, upd_proc cur (\<lambda>x. x\<lparr>p_killed := True,
                 p_state := (if p_state x = SLEEPING then RUNNABLE else p_state x)\<rparr>) s)
        else if p_handlers x sig \<noteq> 0 then
         (let (pg, s) = (case p_sig_tf x of
                 Some (pg, _) \<Rightarrow> (pg, s)
               | None \<Rightarrow> (case kalloc (km s) of (pg, k) \<Rightarrow> (pg, s\<lparr>km := k\<rparr>))) in
          if pg = 0 then Inr (tf, s)
          else
           (let s = upd_proc cur (\<lambda>x. x\<lparr>p_sig_tf := Some (pg, tf)\<rparr>) s; tf = tf\<lparr>t_esp := t_esp tf - 4\<rparr> in
            rbind (ustore_bytes cur (t_esp tf) (enc32 (of_nat sig)) s) (\<lambda>s.
            Inr (tf\<lparr>t_eip := p_handlers x sig\<rparr>, s))))
        else Inr (tf, s)))"

text \<open>What follows the event: signals, exit of a killed process, and the end of a time slice.\<close>

definition trap_end :: "nat \<Rightarrow> cpu \<Rightarrow> trapframe \<Rightarrow> 'a sys_st_scheme \<Rightarrow> (trap_out \<times> 'a sys_st_scheme) res" where
  "trap_end cpu c tf s =
     (case myproc cpu s of
        None \<Rightarrow> Inr (Resume tf, s)
      | Some cur \<Rightarrow>
          rbind (if user_mode tf then deliver cur tf s else Inr (tf, s)) (\<lambda>(tf, s).
          if p_killed (procs s cur) \<and> user_mode tf then do_exit cpu c cur s
          else if p_state (procs s cur) = RUNNING \<and> t_trapno tf = T_IRQ0 then
            rbind (yield cpu c s) (\<lambda>s. Inr (Yielded tf, s))
          else Inr (Resume tf, s)))"

text \<open>Back from \<^verbatim>\<open>yield\<close>, when the process runs again.\<close>

definition trap_resume :: "nat \<Rightarrow> cpu \<Rightarrow> trapframe \<Rightarrow> 'a sys_st_scheme \<Rightarrow> (trap_out \<times> 'a sys_st_scheme) res" where
  "trap_resume cpu c tf s =
     (case myproc cpu s of
        None \<Rightarrow> Inr (Resume tf, s)
      | Some cur \<Rightarrow>
          if p_killed (procs s cur) \<and> user_mode tf then do_exit cpu c cur s else Inr (Resume tf, s))"

definition trap_body :: "(nat \<Rightarrow> 'a sys_st_scheme devsw) \<Rightarrow> nat \<Rightarrow> cpu \<Rightarrow> uint \<Rightarrow> trapframe \<Rightarrow> 'a sys_st_scheme
    \<Rightarrow> (trap_out \<times> 'a sys_st_scheme) res" where
  "trap_body dsw cpu c cr2 tf s =
     (if t_trapno tf = T_SYSCALL then trap_syscall dsw cpu c tf s
      else rbind (trap_event cpu cr2 tf s) (trap_end cpu c tf))"

definition trap :: "(nat \<Rightarrow> 'a sys_st_scheme devsw) \<Rightarrow> nat \<Rightarrow> cpu \<Rightarrow> uint \<Rightarrow> trapframe \<Rightarrow> 'a sys_st_scheme
    \<Rightarrow> (trap_out \<times> 'a sys_st_scheme) res" where
  "trap dsw cpu c cr2 tf s =
     (case myproc cpu s of
        Some cur \<Rightarrow>
          if user_mode tf \<and> interrupted cur s then do_exit cpu c cur s else trap_body dsw cpu c cr2 tf s
      | None \<Rightarrow> trap_body dsw cpu c cr2 tf s)"


section \<open>What a trap leaves alone\<close>

lemma c_proc_upd_input [simp]: "c_proc (upd_input f s) = c_proc s"
  by (simp add: upd_input_def)

lemma c_proc_wakeup [simp]: "c_proc (wakeup ch s) = c_proc s"
  by (simp add: wakeup_def wakeup1_eq)

lemma c_proc_kill [simp]: "c_proc (snd (kill pid sig s)) = c_proc s"
  by (simp add: kill_def Let_def split: option.split)

lemmas c_proc_only = con_only_fields(2)

lemma kill_line_c_proc: "kill_line s = Inr t \<Longrightarrow> c_proc t = c_proc s"
proof (induction s arbitrary: t rule: kill_line.induct)
  case (1 s)
  show ?case
  proof (cases "in_e (input s) \<noteq> in_w (input s) \<and> in_at (input s) (in_e (input s) - 1) \<noteq> newline")
    case True
    let ?s = "upd_input (\<lambda>i. i\<lparr>in_e := in_e i - 1\<rparr>) s"
    from 1(2) True obtain u where u: "consputc BACKSPACE ?s = Inr u" "kill_line u = Inr t"
      by (subst (asm) kill_line.simps) (auto simp: Let_def rbind_eq_Inr)
    have "c_proc t = c_proc u" by (rule 1(1) [OF refl True u(1) u(2)])
    also have "\<dots> = c_proc s" using c_proc_only [OF consputc_only [OF u(1)]] by simp
    finally show ?thesis .
  next
    case False
    then show ?thesis using 1(2) by (subst (asm) kill_line.simps) (auto simp: Let_def)
  qed
qed

lemma consoleintr_char_c_proc: "consoleintr_char c s = Inr t \<Longrightarrow> c_proc t = c_proc s"
  unfolding consoleintr_char_def Let_def
  by (auto simp: rbind_eq_Inr kill_line_c_proc dest!: consputc_only c_proc_only split: if_splits option.splits)

lemma consoleintr_c_proc:
  assumes "\<And>s c t. getc s = (c, t) \<Longrightarrow> c_proc t = c_proc s" and "consoleintr n getc s = Inr t"
  shows "c_proc t = c_proc s"
  using assms(2)
proof (induction n arbitrary: s)
  case (Suc n)
  then show ?case
    by (auto simp: rbind_eq_Inr split: prod.splits if_splits dest!: consoleintr_char_c_proc dest: assms(1))
qed simp

lemma kbdintr_c_proc: "kbdintr s = Inr t \<Longrightarrow> c_proc t = c_proc s"
  unfolding kbdintr_def by (erule consoleintr_c_proc [rotated]) (auto simp: kbdgetc_def split: list.splits prod.splits)

lemma uartintr_c_proc: "uartintr s = Inr t \<Longrightarrow> c_proc t = c_proc s"
  unfolding uartintr_def by (erule consoleintr_c_proc [rotated]) (auto simp: uartgetc_def split: list.splits if_splits)

lemma idestart_c_proc: "idestart i s = Inr t \<Longrightarrow> c_proc t = c_proc s"
  by (auto simp: idestart_def Let_def rbind_eq_Inr split: if_splits)

lemma ideintr_c_proc: "ideintr s = Inr t \<Longrightarrow> c_proc t = c_proc s"
  by (auto simp: ideintr_def Let_def rbind_eq_Inr upd_buf_def split: list.splits if_splits dest!: idestart_c_proc)

lemma cprintf_c_proc: "cprintf (Some fmt) args s = Inr t \<Longrightarrow> c_proc t = c_proc s"
  by (auto simp: cprintf_def dest!: cprintf_loop_only c_proc_only)

lemma trap_event_c_proc: "trap_event cpu cr2 tf s = Inr t \<Longrightarrow> c_proc t = c_proc s"
  unfolding trap_event_def Let_def
  by (auto simp: rbind_eq_Inr split: if_splits option.splits
      dest!: kbdintr_c_proc uartintr_c_proc ideintr_c_proc cprintf_c_proc)

lemma ustore_c_proc: "ustore_bytes cur a bs s = Inr t \<Longrightarrow> c_proc t = c_proc s"
  by (induction bs arbitrary: a s) (auto simp: rbind_eq_Inr ustore_def split: option.splits)

lemma deliver_frame:
  assumes "deliver cur tf s = Inr (tf', t)"
  shows "t_cs tf' = t_cs tf" and "t_trapno tf' = t_trapno tf"
  using assms unfolding deliver_def Let_def
  by (auto simp: rbind_eq_Inr split: if_splits option.splits prod.splits)

section \<open>Killed processes\<close>

lemma trap_end_killed:
  assumes "trap_end cpu c tf s = Inr (Resume tf', t)" and "user_mode tf" and "myproc cpu s = Some cur"
  shows "\<not> p_killed (procs t cur)"
proof -
  obtain tf1 s1 where d: "deliver cur tf s = Inr (tf1, s1)"
    and r: "(if p_killed (procs s1 cur) \<and> user_mode tf1 then do_exit cpu c cur s1
          else if p_state (procs s1 cur) = RUNNING \<and> t_trapno tf1 = T_IRQ0 then
            rbind (yield cpu c s1) (\<lambda>s. Inr (Yielded tf1, s))
          else Inr (Resume tf1, s1)) = Inr (Resume tf', t)"
    using assms by (auto simp: trap_end_def rbind_eq_Inr)
  have "user_mode tf1" using deliver_frame(1) [OF d] assms(2) by (simp add: user_mode_def)
  with r show ?thesis by (auto simp: do_exit_def rbind_eq_Inr split: if_splits)
qed

text \<open>C21: A process that has been killed does not run in user mode again: when a trap from user mode, of any kind, ends
  with a return to user mode, the process is not marked as killed, and after a system call it has no pending signal
  that is not blocked either; the same holds when it comes back from giving up the CPU in the trap.\<close>

theorem killed_process_does_not_return:
  assumes "user_mode tf" and "myproc cpu s = Some cur"
  shows "(trap dsw cpu c cr2 tf s = Inr (Resume tf', t) \<longrightarrow> \<not> p_killed (procs t cur)
      \<and> (t_trapno tf = T_SYSCALL \<longrightarrow> \<not> interrupted cur t))
    \<and> (trap_resume cpu c tf s = Inr (Resume tf', t) \<longrightarrow> \<not> p_killed (procs t cur))"
proof (intro conjI impI)
  assume r: "trap dsw cpu c cr2 tf s = Inr (Resume tf', t)"
  then have b: "trap_body dsw cpu c cr2 tf s = Inr (Resume tf', t)"
    using assms by (auto simp: trap_def do_exit_def rbind_eq_Inr split: if_splits)
  show sys: "\<not> interrupted cur t" if "t_trapno tf = T_SYSCALL"
    using b that assms(2) by (auto simp: trap_body_def trap_syscall_def do_exit_def rbind_eq_Inr split: if_splits)
  show "\<not> p_killed (procs t cur)"
  proof (cases "t_trapno tf = T_SYSCALL")
    case True
    with sys show ?thesis by (simp add: interrupted_def)
  next
    case False
    with b obtain u where u: "trap_event cpu cr2 tf s = Inr u" "trap_end cpu c tf u = Inr (Resume tf', t)"
      by (auto simp: trap_body_def rbind_eq_Inr)
    have "myproc cpu u = Some cur" using trap_event_c_proc [OF u(1)] assms(2) by (simp add: myproc_def)
    with u(2) assms(1) show ?thesis by (intro trap_end_killed)
  qed
next
  assume "trap_resume cpu c tf s = Inr (Resume tf', t)"
  then show "\<not> p_killed (procs t cur)"
    using assms by (auto simp: trap_resume_def do_exit_def rbind_eq_Inr split: if_splits)
qed


section \<open>Example\<close>

definition demo_sys :: sys_st where
  "demo_sys = con_st.extend (demo_con\<lparr>c_proc := (\<lambda>_. None)(1 := Some 0)\<rparr>) (sys_st.fields 0 0)"

lemma demo_sys_simps [simp]:
  "c_proc demo_sys = (\<lambda>_. None)(1 := Some 0)" "procs demo_sys = (\<lambda>_. demo_proc)(0 := demo_first)" "kbd_q demo_sys = []"
  by (simp_all add: demo_sys_def con_st.defs sys_st.defs demo_con_def proc_st.defs demo_state_def file_st.defs)

text \<open>A keyboard interrupt with nothing to read, on CPU 1.\<close>

theorem killed_process_does_not_return_witness:
  "\<exists>t. trap (\<lambda>_. \<lparr>d_read = None, d_write = None, d_ioctl = None\<rparr>) 1 \<lparr>ncli = 0, intena = True, fl_if = True\<rparr> 0
      (zero_tf\<lparr>t_cs := 27, t_trapno := 33\<rparr>) demo_sys = Inr (Resume (zero_tf\<lparr>t_cs := 27, t_trapno := 33\<rparr>), t)
    \<and> \<not> p_killed (procs t 0)"
proof -
  let ?tf = "zero_tf\<lparr>t_cs := 27, t_trapno := 33\<rparr>" and ?dsw = "\<lambda>_. \<lparr>d_read = None, d_write = None, d_ioctl = None\<rparr>"
  have u: "user_mode ?tf" by (simp add: user_mode_def)
  have m: "myproc 1 demo_sys = Some 0" by (simp add: myproc_def)
  have "find bot [0..<32 :: nat] = None" by (simp add: find_None_iff)
  then have "deliver 0 ?tf demo_sys = Inr (?tf, demo_sys)"
    by (simp add: deliver_def demo_first_def demo_proc_def Let_def)
  then have t: "trap ?dsw 1 \<lparr>ncli = 0, intena = True, fl_if = True\<rparr> 0 ?tf demo_sys = Inr (Resume ?tf, demo_sys)"
    using u m by (simp add: trap_def trap_body_def trap_event_def trap_end_def kbdintr_def interrupted_def
      demo_first_def demo_proc_def)
  from killed_process_does_not_return [OF u m, of ?dsw] t show ?thesis by blast
qed

end
