(* ===== verification/UString.thy ===== *)
theory UString
  imports KString
begin

text \<open>
  The string routines of the user library: \<^verbatim>\<open>ulib/ulib.c\<close>, \<^verbatim>\<open>ulib/bsd/strlcpy.c\<close>, \<^verbatim>\<open>ulib/bsd/strtok.c\<close>,
  \<^verbatim>\<open>ulib/bsd/strtol.c\<close>, \<^verbatim>\<open>strtonum\<close> of \<^verbatim>\<open>ulib/printf.c\<close> and \<^verbatim>\<open>ulib/ctype.h\<close>, over the memory of a process.

  A routine that runs until it meets a zero byte has no bound of its own: its model is an option, and \<^term>\<open>None\<close> is a run
  that does not end. The lemmas show for each of them that it returns on strings, with which result, and what it changes:
  \<open>str_at\<close> says that memory holds a string at an address. A name the kernel's routines have already ends in \<open>_u\<close>.
\<close>

section \<open>Definitions\<close>

text \<open>
  A loop whose body is a function of its state: the body ends the loop with a result or goes on with a new state, and may
  itself fail to return.
\<close>

partial_function (option) iterate :: "('s \<Rightarrow> ('r + 's) option) \<Rightarrow> 's \<Rightarrow> 'r option" where
  "iterate body s =
     Option.bind (body s) (\<lambda>r. case r of Inl x \<Rightarrow> Some x | Inr s \<Rightarrow> iterate body s)"

subsection \<open>Copying and comparing\<close>

partial_function (option) strcpy_loop :: "mem \<Rightarrow> uint \<Rightarrow> uint \<Rightarrow> mem option" where
  "strcpy_loop m s t =
     (let m = m(s := m t) in if m s \<noteq> 0 then strcpy_loop m (s + 1) (t + 1) else Some m)"

definition strcpy :: "mem \<Rightarrow> uint \<Rightarrow> uint \<Rightarrow> (uint \<times> mem) option" where
  "strcpy m s t = map_option (Pair s) (strcpy_loop m s t)"

text \<open>\<^verbatim>\<open>strncpy\<close> of the user library copies \<open>n\<close> bytes whatever they are.\<close>

definition strncpy_u :: "mem \<Rightarrow> uint \<Rightarrow> uint \<Rightarrow> int \<Rightarrow> uint \<times> mem" where
  "strncpy_u m dst src n = (dst, copy_up m dst src (nat n))"

partial_function (option) strcmp :: "mem \<Rightarrow> uint \<Rightarrow> uint \<Rightarrow> int option" where
  "strcmp m p q =
     (if m p \<noteq> 0 \<and> m p = m q then strcmp m (p + 1) (q + 1) else Some (uint (m p) - uint (m q)))"

primrec strncmp_u_loop :: "mem \<Rightarrow> uint \<Rightarrow> uint \<Rightarrow> nat \<Rightarrow> int" where
  "strncmp_u_loop m p q 0 = 0"
| "strncmp_u_loop m p q (Suc n) =
     (if m p \<noteq> m q then uint (m p) - uint (m q)
      else if m p = 0 then 0
      else strncmp_u_loop m (p + 1) (q + 1) n)"

definition strncmp_u :: "mem \<Rightarrow> uint \<Rightarrow> uint \<Rightarrow> int \<Rightarrow> int" where
  "strncmp_u m p q n = strncmp_u_loop m p q (nat n)"

text \<open>The counter \<^verbatim>\<open>n\<close> is an \<^verbatim>\<open>int\<close>, but a string is shorter than the memory.\<close>

partial_function (option) strlen_u_loop :: "mem \<Rightarrow> uint \<Rightarrow> uint \<Rightarrow> uint option" where
  "strlen_u_loop m s n = (if m (s + n) \<noteq> 0 then strlen_u_loop m s (n + 1) else Some n)"

definition strlen_u :: "mem \<Rightarrow> uint \<Rightarrow> uint option" where
  "strlen_u m s = strlen_u_loop m s 0"

text \<open>A null pointer result is 0.\<close>

partial_function (option) strchr :: "mem \<Rightarrow> uint \<Rightarrow> uchar \<Rightarrow> uint option" where
  "strchr m s c = (if m s = 0 then Some 0 else if m s = c then Some s else strchr m (s + 1) c)"

partial_function (option) strsep_scan :: "mem \<Rightarrow> uint \<Rightarrow> uint \<Rightarrow> uint option" where
  "strsep_scan m delim p =
     (if m p = 0 then Some p
      else Option.bind (strchr m delim (m p)) (\<lambda>r. if r = 0 then strsep_scan m delim (p + 1) else Some p))"

text \<open>\<^verbatim>\<open>strsep\<close>: the start, the new value of the caller's pointer, and the memory.\<close>

definition strsep :: "mem \<Rightarrow> uint \<Rightarrow> uint \<Rightarrow> (uint \<times> uint \<times> mem) option" where
  "strsep m s delim =
     Option.bind (strsep_scan m delim s) (\<lambda>p.
       if m p \<noteq> 0 then Some (s, p + 1, m(p := 0)) else Some (s, 0, m))"

definition memset_u :: "mem \<Rightarrow> uint \<Rightarrow> int \<Rightarrow> uint \<Rightarrow> uint \<times> mem" where
  "memset_u m dst c n = (dst, stosb m dst (word_of_int c) (unat n))"

primrec memcmp_u_loop :: "mem \<Rightarrow> uint \<Rightarrow> uint \<Rightarrow> nat \<Rightarrow> int" where
  "memcmp_u_loop m s1 s2 0 = 0"
| "memcmp_u_loop m s1 s2 (Suc n) =
     (if m s1 \<noteq> m s2 then (if m s1 < m s2 then 1 else 0) else memcmp_u_loop m (s1 + 1) (s2 + 1) n)"

definition memcmp_u :: "mem \<Rightarrow> uint \<Rightarrow> uint \<Rightarrow> int \<Rightarrow> int" where
  "memcmp_u m s1 s2 n = memcmp_u_loop m s1 s2 (nat n)"

definition memmove_u :: "mem \<Rightarrow> uint \<Rightarrow> uint \<Rightarrow> int \<Rightarrow> uint \<times> mem" where
  "memmove_u m dst src n = (dst, copy_up m dst src (nat n))"

definition memcpy_u :: "mem \<Rightarrow> uint \<Rightarrow> uint \<Rightarrow> uint \<Rightarrow> uint \<times> mem" where
  "memcpy_u m dst src n = (dst, copy_up m dst src (unat n))"

partial_function (option) strcat_end :: "mem \<Rightarrow> uint \<Rightarrow> uint option" where
  "strcat_end m dest = (if m dest \<noteq> 0 then strcat_end m (dest + 1) else Some dest)"

partial_function (option) strcat_copy :: "mem \<Rightarrow> uint \<Rightarrow> uint \<Rightarrow> mem option" where
  "strcat_copy m dest src =
     (if m src \<noteq> 0 then strcat_copy (m(dest := m src)) (dest + 1) (src + 1) else Some (m(dest := 0)))"

definition strcat :: "mem \<Rightarrow> uint \<Rightarrow> uint \<Rightarrow> mem option" where
  "strcat m dest src = Option.bind (strcat_end m dest) (\<lambda>dest. strcat_copy m dest src)"

subsection \<open>Numbers\<close>

text \<open>The sum wraps at 32 bits.\<close>

partial_function (option) atoi_loop :: "mem \<Rightarrow> uint \<Rightarrow> uint \<Rightarrow> uint option" where
  "atoi_loop m s n =
     (if 48 \<le> m s \<and> m s \<le> 57 then atoi_loop m (s + 1) (n * 10 + ucast (m s) - 48) else Some n)"

definition atoi :: "mem \<Rightarrow> uint \<Rightarrow> int option" where
  "atoi m s = map_option sint (atoi_loop m s 0)"

subsection \<open>Searching and bounded appending\<close>

text \<open>The inner loop of \<^verbatim>\<open>strcspn\<close>, and of \<^verbatim>\<open>strtok_r\<close>: is the character among those of a string?\<close>

partial_function (option) among :: "mem \<Rightarrow> uint \<Rightarrow> uchar \<Rightarrow> bool option" where
  "among m r c = (if m r = 0 then Some False else if m r = c then Some True else among m (r + 1) c)"

partial_function (option) strcspn_loop :: "mem \<Rightarrow> uint \<Rightarrow> uint \<Rightarrow> uint option" where
  "strcspn_loop m reject p =
     (if m p = 0 then Some p
      else Option.bind (among m reject (m p)) (\<lambda>found. if found then Some p else strcspn_loop m reject (p + 1)))"

definition strcspn :: "mem \<Rightarrow> uint \<Rightarrow> uint \<Rightarrow> int option" where
  "strcspn m s reject = map_option (\<lambda>p. sint (p - s)) (strcspn_loop m reject s)"

text \<open>The first loop of \<^verbatim>\<open>strlcat\<close>, which looks at \<open>n\<close> bytes at most, and the second.\<close>

primrec strlcat_end :: "mem \<Rightarrow> uint \<Rightarrow> nat \<Rightarrow> uint" where
  "strlcat_end m d 0 = d"
| "strlcat_end m d (Suc n) = (if m d \<noteq> 0 then strlcat_end m (d + 1) n else d)"

partial_function (option) strlcat_copy :: "mem \<Rightarrow> uint \<Rightarrow> uint \<Rightarrow> uint \<Rightarrow> (uint \<times> uint \<times> mem) option" where
  "strlcat_copy m d s n =
     (if m s \<noteq> 0 then
        (if n \<noteq> 1 then strlcat_copy (m(d := m s)) (d + 1) (s + 1) (n - 1) else strlcat_copy m d (s + 1) n)
      else Some (d, s, m))"

definition strlcat :: "mem \<Rightarrow> uint \<Rightarrow> uint \<Rightarrow> uint \<Rightarrow> (uint \<times> mem) option" where
  "strlcat m dst src sz =
     (let d = strlcat_end m dst (unat sz); dlen = d - dst; n = sz - dlen in
      if n = 0 then map_option (\<lambda>l. (dlen + l, m)) (strlen_u m src)
      else map_option (\<lambda>(d, s, m). (dlen + (s - src), m(d := 0))) (strlcat_copy m d src n))"

text \<open>
  \<^verbatim>\<open>strlcpy\<close>: the first loop, with \<^verbatim>\<open>nleft\<close> decremented before each test, gives what is left, the destination, the source
  and the memory; the second goes to the end of the source.
\<close>

fun strlcpy_copy :: "mem \<Rightarrow> uint \<Rightarrow> uint \<Rightarrow> nat \<Rightarrow> nat \<times> uint \<times> uint \<times> mem" where
  "strlcpy_copy m dst src nleft =
     (if nleft - 1 = 0 then (0, dst, src, m)
      else
       (let m = m(dst := m src) in
        if m dst = 0 then (nleft - 1, dst + 1, src + 1, m) else strlcpy_copy m (dst + 1) (src + 1) (nleft - 1)))"

partial_function (option) strlcpy_rest :: "mem \<Rightarrow> uint \<Rightarrow> uint option" where
  "strlcpy_rest m src = (if m src \<noteq> 0 then strlcpy_rest m (src + 1) else Some (src + 1))"

definition strlcpy :: "mem \<Rightarrow> uint \<Rightarrow> uint \<Rightarrow> uint \<Rightarrow> (uint \<times> mem) option" where
  "strlcpy m dst src dsize =
     (case if dsize \<noteq> 0 then strlcpy_copy m dst src (unat dsize) else (0, dst, src, m) of
        (nleft, d, s, m) \<Rightarrow>
          if nleft = 0 then
            (let m = if dsize \<noteq> 0 then m(d := 0) else m in map_option (\<lambda>s. (s - src - 1, m)) (strlcpy_rest m s))
          else Some (s - src - 1, m))"

declare strlcpy_copy.simps [simp del]

subsection \<open>Tokens\<close>

text \<open>The leading delimiters, up to and behind the first character that is none; the last argument of the result is \<^verbatim>\<open>s\<close>.\<close>

partial_function (option) strtok_skip :: "mem \<Rightarrow> uint \<Rightarrow> uint \<Rightarrow> (uchar \<times> uint) option" where
  "strtok_skip m delim s =
     Option.bind (among m delim (m s)) (\<lambda>d. if d then strtok_skip m delim (s + 1) else Some (m s, s + 1))"

text \<open>The token: the scan stops behind a delimiter or the terminating zero.\<close>

partial_function (option) strtok_scan :: "mem \<Rightarrow> uint \<Rightarrow> uint \<Rightarrow> (uchar \<times> uint) option" where
  "strtok_scan m delim s =
     Option.bind (among m delim (m s)) (\<lambda>d. if d \<or> m s = 0 then Some (m s, s + 1) else strtok_scan m delim (s + 1))"

text \<open>The token, the new value of \<^verbatim>\<open>*last\<close>, and the memory; null pointers are 0.\<close>

definition strtok_r :: "mem \<Rightarrow> uint \<Rightarrow> uint \<Rightarrow> uint \<Rightarrow> (uint \<times> uint \<times> mem) option" where
  "strtok_r m s delim lst =
     (let s = if s = 0 then lst else s in
      if s = 0 then Some (0, lst, m)
      else
        Option.bind (strtok_skip m delim s) (\<lambda>(c, s).
          if c = 0 then Some (0, 0, m)
          else
            Option.bind (strtok_scan m delim s) (\<lambda>(c, s').
              if c = 0 then Some (s - 1, 0, m) else Some (s - 1, s', m(s' - 1 := 0)))))"

text \<open>\<^verbatim>\<open>strtok\<close> keeps the pointer in a static variable.\<close>

definition strtok :: "mem \<Rightarrow> uint \<Rightarrow> uint \<Rightarrow> uint \<Rightarrow> (uint \<times> uint \<times> mem) option" where
  "strtok m s delim static_last = strtok_r m s delim static_last"

subsection \<open>Numbers with a sign and a base\<close>

abbreviation "LONG_MAX \<equiv> 2147483647 :: int"
abbreviation "LONG_MIN \<equiv> - 2147483648 :: int"

text \<open>Division of C, towards zero.\<close>

definition cdiv :: "int \<Rightarrow> int \<Rightarrow> int" where
  "cdiv a b = sgn a * sgn b * (\<bar>a\<bar> div \<bar>b\<bar>)"

definition crem :: "int \<Rightarrow> int \<Rightarrow> int" where
  "crem a b = a - b * cdiv a b"

text \<open>White space for \<^verbatim>\<open>strtol\<close> is everything outside the printing characters, the terminating zero included.\<close>

partial_function (option) strtol_skip :: "mem \<Rightarrow> uint \<Rightarrow> (int \<times> uint) option" where
  "strtol_skip m s =
     (let c = uint (m s) in if c \<le> 32 \<or> c \<ge> 0x7F then strtol_skip m (s + 1) else Some (c, s + 1))"

definition digit_value :: "int \<Rightarrow> int option" where
  "digit_value c =
     (if 48 \<le> c \<and> c \<le> 57 then Some (c - 48)
      else if 65 \<le> c \<and> c \<le> 90 then Some (c - (65 - 10))
      else if 97 \<le> c \<and> c \<le> 122 then Some (c - (97 - 10))
      else None)"

partial_function (option) strtol_digits ::
  "bool \<Rightarrow> int \<Rightarrow> int \<Rightarrow> int \<Rightarrow> mem \<Rightarrow> int \<Rightarrow> uint \<Rightarrow> int \<Rightarrow> int \<Rightarrow> (int \<times> int \<times> uint) option" where
  "strtol_digits neg base cutoff cutlim m c s acc any =
     (case digit_value c of
        None \<Rightarrow> Some (acc, any, s)
      | Some c \<Rightarrow>
          if c \<ge> base then Some (acc, any, s)
          else if any < 0 then strtol_digits neg base cutoff cutlim m (uint (m s)) (s + 1) acc any
          else if neg then
            (if acc < cutoff \<or> acc = cutoff \<and> c > cutlim
             then strtol_digits neg base cutoff cutlim m (uint (m s)) (s + 1) LONG_MIN (- 1)
             else strtol_digits neg base cutoff cutlim m (uint (m s)) (s + 1) (acc * base - c) 1)
          else
            (if acc > cutoff \<or> acc = cutoff \<and> c > cutlim
             then strtol_digits neg base cutoff cutlim m (uint (m s)) (s + 1) LONG_MAX (- 1)
             else strtol_digits neg base cutoff cutlim m (uint (m s)) (s + 1) (acc * base + c) 1))"

text \<open>The sign, with the next character and where to go on; the character behind the sign is read as a signed one.\<close>

definition strtol_sign :: "mem \<Rightarrow> int \<Rightarrow> uint \<Rightarrow> bool \<times> int \<times> uint" where
  "strtol_sign m c s =
     (if c = 45 then (True, sint (m s), s + 1) else if c = 43 then (False, sint (m s), s + 1) else (False, c, s))"

text \<open>The prefix of a hexadecimal number, and the base.\<close>

definition strtol_base :: "mem \<Rightarrow> int \<Rightarrow> int \<Rightarrow> uint \<Rightarrow> int \<times> int \<times> uint" where
  "strtol_base m base c s =
     (case if (base = 0 \<or> base = 16) \<and> c = 48 \<and> (m s = 120 \<or> m s = 88) then (16, sint (m (s + 1)), s + 2) else (base, c, s) of
        (base, c, s) \<Rightarrow> (if base = 0 then if c = 48 then 8 else 10 else base, c, s))"

definition strtol_cutoff :: "bool \<Rightarrow> int \<Rightarrow> int \<times> int" where
  "strtol_cutoff neg base =
     (let cutoff = if neg then LONG_MIN else LONG_MAX; cutlim = crem cutoff base; cutoff = cdiv cutoff base in
      if neg then
        (case if cutlim > 0 then (cutlim - base, cutoff + 1) else (cutlim, cutoff) of
           (cutlim, cutoff) \<Rightarrow> (cutoff, - cutlim))
      else (cutoff, cutlim))"

text \<open>\<^verbatim>\<open>strtol\<close>: the number and the value of \<^verbatim>\<open>*endptr\<close>.\<close>

definition strtol :: "mem \<Rightarrow> uint \<Rightarrow> int \<Rightarrow> (int \<times> uint) option" where
  "strtol m nptr base =
     Option.bind (strtol_skip m nptr) (\<lambda>(c, s).
       case strtol_sign m c s of (neg, c, s) \<Rightarrow>
       case strtol_base m base c s of (base, c, s) \<Rightarrow>
       case strtol_cutoff neg base of (cutoff, cutlim) \<Rightarrow>
       map_option (\<lambda>(acc, any, s). (acc, if any \<noteq> 0 then s - 1 else nptr))
         (strtol_digits neg base cutoff cutlim m c s 0 0))"

datatype num_error = Invalid | Too_small | Too_large

definition strtonum :: "mem \<Rightarrow> uint \<Rightarrow> int \<Rightarrow> int \<Rightarrow> (int \<times> num_error option) option" where
  "strtonum m numstr minval maxval =
     map_option (\<lambda>(val, e).
       if e = numstr \<or> m e \<noteq> 0 then (0, Some Invalid)
       else if val < minval then (minval, Some Too_small)
       else if val > maxval then (maxval, Some Too_large)
       else (val, None)) (strtol m numstr 10)"

subsection \<open>Character classes\<close>

definition isalpha :: "int \<Rightarrow> bool" where "isalpha c \<longleftrightarrow> (c \<ge> 65 \<and> c \<le> 90) \<or> (c \<ge> 97 \<and> c \<le> 122)"
definition isupper :: "int \<Rightarrow> bool" where "isupper c \<longleftrightarrow> c \<ge> 65 \<and> c \<le> 90"
definition islower :: "int \<Rightarrow> bool" where "islower c \<longleftrightarrow> c \<ge> 97 \<and> c \<le> 122"
definition isdigit :: "int \<Rightarrow> bool" where "isdigit c \<longleftrightarrow> c \<ge> 48 \<and> c \<le> 57"
definition isalnum :: "int \<Rightarrow> bool" where "isalnum c \<longleftrightarrow> isalpha c \<or> isdigit c"
definition isblank :: "int \<Rightarrow> bool" where "isblank c \<longleftrightarrow> c = 32 \<or> c = 9"
definition isxdigit :: "int \<Rightarrow> bool" where "isxdigit c \<longleftrightarrow> isdigit c \<or> (c \<ge> 65 \<and> c \<le> 70) \<or> (c \<ge> 97 \<and> c \<le> 102)"
definition isspace :: "int \<Rightarrow> bool" where "isspace c \<longleftrightarrow> c = 32 \<or> c = 9 \<or> c = 10 \<or> c = 11 \<or> c = 12 \<or> c = 13"
definition isprint :: "int \<Rightarrow> bool" where "isprint c \<longleftrightarrow> c \<ge> 32 \<and> c < 127"
definition ispunct :: "int \<Rightarrow> bool" where "ispunct c \<longleftrightarrow> isprint c \<and> \<not> isalnum c \<and> \<not> isspace c"
definition toupper :: "int \<Rightarrow> int" where "toupper c = (if islower c then c - 97 + 65 else c)"
definition tolower :: "int \<Rightarrow> int" where "tolower c = (if isupper c then c - 65 + 97 else c)"
definition isascii :: "int \<Rightarrow> bool" where "isascii c \<longleftrightarrow> (word_of_int c :: uint) \<le> 127"
definition toascii :: "int \<Rightarrow> int" where "toascii c = c AND 0x7F"
definition iscntrl :: "int \<Rightarrow> bool" where "iscntrl c \<longleftrightarrow> (c \<ge> 0 \<and> c < 32) \<or> c = 127"

section \<open>Lemmas\<close>

lemma iterate_end: "body s = Some (Inl r) \<Longrightarrow> iterate body s = Some r"
  by (subst iterate.simps) simp

lemma iterate_next: "body s = Some (Inr s') \<Longrightarrow> iterate body s = iterate body s'"
  by (subst iterate.simps) simp

text \<open>What one round keeps holds at the end.\<close>

lemma iterate_invariant:
  assumes "iterate body s = Some r" and "P s"
    and "\<And>s s'. P s \<Longrightarrow> body s = Some (Inr s') \<Longrightarrow> P s'" and "\<And>s r. P s \<Longrightarrow> body s = Some (Inl r) \<Longrightarrow> Q r"
  shows "Q r"
proof -
  have "body = body \<longrightarrow> P s \<longrightarrow> Q r"
  proof (rule iterate.raw_induct [of "\<lambda>b s r. b = body \<longrightarrow> P s \<longrightarrow> Q r", OF _ assms(1)])
    fix f b s y
    assume IH: "\<And>b s y. f b s = Some y \<Longrightarrow> b = body \<longrightarrow> P s \<longrightarrow> Q y"
      and y: "Option.bind (b s) (\<lambda>r. case r of Inl x \<Rightarrow> Some x | Inr s \<Rightarrow> f b s) = Some y"
    show "b = body \<longrightarrow> P s \<longrightarrow> Q y"
    proof (intro impI)
      assume b: "b = body" and "P s"
      obtain q where q: "body s = Some q" "(case q of Inl x \<Rightarrow> Some x | Inr s \<Rightarrow> f b s) = Some y"
        using y unfolding b bind_eq_Some_conv by blast
      then show "Q y" using assms(3,4) \<open>P s\<close> IH b by (cases q) auto
    qed
  qed
  then show ?thesis using assms(2) by blast
qed

subsection \<open>Strings in memory\<close>

primrec str_at :: "mem \<Rightarrow> uint \<Rightarrow> uchar list \<Rightarrow> bool" where
  "str_at m a [] \<longleftrightarrow> m a = 0"
| "str_at m a (c # cs) \<longleftrightarrow> m a = c \<and> c \<noteq> 0 \<and> str_at m (a + 1) cs"

text \<open>The \<open>n\<close> bytes from \<open>a\<close> on.\<close>

definition area :: "uint \<Rightarrow> nat \<Rightarrow> uint set" where
  "area a n = (\<lambda>i. a + of_nat i) ` {..<n}"

lemma area_0 [simp]: "area a 0 = {}"
  by (simp add: area_def)

lemma area_Suc: "area a (Suc n) = insert a (area (a + 1) n)"
proof -
  have "{..<Suc n} = insert 0 (Suc ` {..<n})" by (auto simp: less_Suc_eq_0_disj)
  then show ?thesis by (auto simp: area_def image_image add.assoc)
qed

lemma area_end: "a + of_nat n \<notin> area a n" if "n < 2 ^ 32"
proof
  assume "a + of_nat n \<in> area a n"
  then obtain i where "i < n" "(of_nat n :: uint) = of_nat i" by (auto simp: area_def)
  moreover have "unat (of_nat n :: uint) = n" "i < n \<Longrightarrow> unat (of_nat i :: uint) = i" using that by (simp_all add: unat_of_nat)
  ultimately show False by simp
qed

lemma in_area:
  assumes "unat a + n \<le> 2 ^ 32"
  shows "x \<in> area a n \<longleftrightarrow> unat a \<le> unat x \<and> unat x < unat a + n"
proof
  assume "x \<in> area a n"
  then obtain i where i: "i < n" "x = a + of_nat i" by (auto simp: area_def)
  have "unat (of_nat i :: uint) = i" unfolding unat_of_nat by (rule mod_less) (use i(1) assms in simp)
  then have "unat x = unat a + i" unfolding i(2) by (subst unat_plus_if') (use i(1) assms in simp)
  then show "unat a \<le> unat x \<and> unat x < unat a + n" using i(1) by simp
next
  assume u: "unat a \<le> unat x \<and> unat x < unat a + n"
  have "x = a + of_nat (unat x - unat a)" using u by (simp add: of_nat_diff)
  moreover have "unat x - unat a < n" using u by linarith
  ultimately show "x \<in> area a n" unfolding area_def by blast
qed

text \<open>Two areas that do not wrap, one behind the other.\<close>

lemma areas_apart: "unat a + n \<le> unat b \<Longrightarrow> unat b + k \<le> 2 ^ 32 \<Longrightarrow> area a n \<inter> area b k = {}"
  using unsigned_less [of b, where ?'a = nat] by (auto simp: in_area)

lemma str_at_cong: "(\<And>x. x \<in> area a (Suc (length cs)) \<Longrightarrow> m' x = m x) \<Longrightarrow> str_at m' a cs = str_at m a cs"
proof (induction cs arbitrary: a)
  case Nil
  then show ?case by (simp add: area_Suc)
next
  case (Cons c cs)
  then show ?case using Cons.IH [of "a + 1"] by (simp add: area_Suc [of a])
qed

lemma str_at_upd: "x \<notin> area a (Suc (length cs)) \<Longrightarrow> str_at (m(x := v)) a cs = str_at m a cs"
  by (rule str_at_cong) auto

lemma str_at_nonzero: "str_at m a cs \<Longrightarrow> 0 \<notin> set cs"
  by (induction cs arbitrary: a) auto

lemma str_at_end: "str_at m a cs \<Longrightarrow> m (a + of_nat (length cs)) = 0"
proof (induction cs arbitrary: a)
  case Nil
  then show ?case by simp
next
  case (Cons c cs)
  then show ?case using Cons.IH [of "a + 1"] by (simp add: add.assoc)
qed

lemma str_at_append: "str_at m a (cs @ ds) \<longleftrightarrow> (\<forall>i<length cs. m (a + of_nat i) = cs ! i \<and> cs ! i \<noteq> 0) \<and> str_at m (a + of_nat (length cs)) ds"
proof (induction cs arbitrary: a)
  case Nil
  then show ?case by simp
next
  case (Cons c cs)
  then show ?case using Cons.IH [of "a + 1"] by (auto simp: add.assoc All_less_Suc2)
qed

lemma str_at_unique: "str_at m a cs \<Longrightarrow> str_at m a ds \<Longrightarrow> cs = ds"
proof (induction cs arbitrary: a ds)
  case Nil
  then show ?case by (cases ds) auto
next
  case (Cons c cs)
  then show ?case by (cases ds) auto
qed

text \<open>A string is shorter than the memory: otherwise its zero would be one of its characters.\<close>

lemma str_at_length: "str_at m a cs \<Longrightarrow> length cs < 2 ^ 32"
proof (rule ccontr)
  assume s: "str_at m a cs" and "\<not> length cs < 2 ^ 32"
  let ?i = "length cs - 2 ^ 32"
  have "of_nat (length cs) = (of_nat ?i + 2 ^ 32 :: uint)" using \<open>\<not> length cs < 2 ^ 32\<close>
    by (metis le_add_diff_inverse2 not_less of_nat_add of_nat_numeral of_nat_power)
  then have "(of_nat (length cs) :: uint) = of_nat ?i" by simp
  then have "m (a + of_nat ?i) = 0" using str_at_end [OF s] by simp
  moreover have "?i < length cs" using \<open>\<not> length cs < 2 ^ 32\<close> by simp
  ultimately show False using s str_at_append [of m a cs "[]"] by auto
qed

subsection \<open>Length, comparison, search\<close>

lemma strlen_u_loop_ok: "str_at m (s + n) cs \<Longrightarrow> strlen_u_loop m s n = Some (n + of_nat (length cs))"
proof (induction cs arbitrary: n)
  case Nil
  then show ?case by (subst strlen_u_loop.simps) simp
next
  case (Cons c cs)
  then show ?case using Cons.IH [of "n + 1"] by (subst strlen_u_loop.simps) (simp add: add.assoc)
qed

lemma strlen_u_ok: "str_at m s cs \<Longrightarrow> strlen_u m s = Some (of_nat (length cs))"
  using strlen_u_loop_ok [of m s 0 cs] by (simp add: strlen_u_def)

text \<open>The difference at the first position where two strings differ; the end of a string counts as a zero.\<close>

fun str_diff :: "uchar list \<Rightarrow> uchar list \<Rightarrow> int" where
  "str_diff [] [] = 0"
| "str_diff [] (d # ds) = - uint d"
| "str_diff (c # cs) [] = uint c"
| "str_diff (c # cs) (d # ds) = (if c = d then str_diff cs ds else uint c - uint d)"

lemma strcmp_ok: "str_at m p cs \<Longrightarrow> str_at m q ds \<Longrightarrow> strcmp m p q = Some (str_diff cs ds)"
proof (induction cs ds arbitrary: p q rule: str_diff.induct)
  case (4 c cs d ds)
  then show ?case by (subst strcmp.simps) auto
qed (subst strcmp.simps, auto)+

lemma str_diff_0: "0 \<notin> set cs \<Longrightarrow> 0 \<notin> set ds \<Longrightarrow> str_diff cs ds = 0 \<longleftrightarrow> cs = ds"
  by (induction cs ds rule: str_diff.induct) (auto simp: word_uint_eq_iff)

lemma strncmp_u_loop_ok:
  "str_at m p cs \<Longrightarrow> str_at m q ds \<Longrightarrow> strncmp_u_loop m p q n = str_diff (take n cs) (take n ds)"
proof (induction n arbitrary: p q cs ds)
  case 0
  then show ?case by simp
next
  case (Suc n)
  then show ?case by (cases cs; cases ds) auto
qed

lemma strchr_ok:
  "str_at m s cs \<Longrightarrow> c \<noteq> 0 \<Longrightarrow>
    strchr m s c = Some (if c \<in> set cs then s + of_nat (length (takeWhile (\<lambda>x. x \<noteq> c) cs)) else 0)"
proof (induction cs arbitrary: s)
  case Nil
  then show ?case by (subst strchr.simps) simp
next
  case (Cons x cs)
  then show ?case using Cons.IH [of "s + 1"] by (subst strchr.simps) (auto simp: add.assoc)
qed

lemma among_ok: "str_at m r ds \<Longrightarrow> among m r c = Some (c \<in> set ds)"
proof (induction ds arbitrary: r)
  case Nil
  then show ?case by (subst among.simps) simp
next
  case (Cons x ds)
  then show ?case by (subst among.simps) auto
qed

lemma strcspn_loop_ok:
  "str_at m p cs \<Longrightarrow> str_at m reject ds \<Longrightarrow> strcspn_loop m reject p = Some (p + of_nat (length (takeWhile (\<lambda>c. c \<notin> set ds) cs)))"
proof (induction cs arbitrary: p)
  case Nil
  then show ?case by (subst strcspn_loop.simps) simp
next
  case (Cons c cs)
  then show ?case using Cons.IH [of "p + 1"] by (subst strcspn_loop.simps) (auto simp: among_ok add.assoc)
qed

lemma strcspn_ok:
  assumes "str_at m s cs" and "str_at m reject ds" and "length cs < 2 ^ 31"
  shows "strcspn m s reject = Some (int (length (takeWhile (\<lambda>c. c \<notin> set ds) cs)))"
proof -
  let ?n = "length (takeWhile (\<lambda>c. c \<notin> set ds) cs)"
  have "?n < 2 ^ 31" using assms(3) length_takeWhile_le [of "\<lambda>c. c \<notin> set ds" cs] by linarith
  then have "sint (of_nat ?n :: uint) = int ?n" by (rule sint_of_nat_small)
  then show ?thesis using strcspn_loop_ok [OF assms(1,2)] by (simp add: strcspn_def)
qed

subsection \<open>Copying\<close>

lemma area_start: "n < 2 ^ 32 \<Longrightarrow> a \<notin> area (a + 1) n"
proof
  assume n: "n < 2 ^ 32" and "a \<in> area (a + 1) n"
  then obtain i where i: "i < n" "(of_nat (Suc i) :: uint) = 0" by (auto simp: area_def)
  have "unat (of_nat (Suc i) :: uint) = Suc i" unfolding unat_of_nat by (rule mod_less) (use n i(1) in simp)
  then show False using i(2) by simp
qed

lemma st_bytes_other: "x \<notin> area a (length bs) \<Longrightarrow> st_bytes m a bs x = m x"
  by (induction bs arbitrary: m a) (auto simp: area_Suc)

lemma st_bytes_upd: "x \<notin> area a (length bs) \<Longrightarrow> (st_bytes m a bs)(x := v) = st_bytes (m(x := v)) a bs"
proof (induction bs arbitrary: m a)
  case Nil
  then show ?case by simp
next
  case (Cons b bs)
  then have "x \<noteq> a" "x \<notin> area (a + 1) (length bs)" by (auto simp: area_Suc)
  then show ?case by (simp add: Cons.IH fun_upd_twist del: fun_upd_apply)
qed

lemma st_bytes_append: "st_bytes m a (xs @ ys) = st_bytes (st_bytes m a xs) (a + of_nat (length xs)) ys"
proof (induction xs arbitrary: m a)
  case Nil
  then show ?case by simp
next
  case (Cons x xs)
  show ?case by (simp add: Cons.IH add.assoc del: fun_upd_apply)
qed

text \<open>What was stored is there.\<close>

lemma st_bytes_str_at:
  "0 \<notin> set cs \<Longrightarrow> length cs < 2 ^ 32 \<Longrightarrow> str_at (st_bytes m a (cs @ [0])) a cs"
proof (induction cs arbitrary: m a)
  case Nil
  then show ?case by simp
next
  case (Cons c cs)
  have "a \<notin> area (a + 1) (length (cs @ [0]))" using Cons.prems(2) by (intro area_start) simp
  then have "st_bytes (m(a := c)) (a + 1) (cs @ [0]) a = c" using st_bytes_other [of a "a + 1" "cs @ [0]" "m(a := c)"] by simp
  then show ?case using Cons by simp
qed

text \<open>Reading a string while another place is being written.\<close>

lemma str_at_shift:
  assumes "str_at m t (c # cs)" and "area s (Suc n) \<inter> area t (Suc (Suc (length cs))) = {}"
  shows "str_at (m(s := v)) (t + 1) cs" and "area (s + 1) n \<inter> area (t + 1) (Suc (length cs)) = {}"
  using assms str_at_upd [of s "t + 1" cs m v] by (auto simp: area_Suc [of s] area_Suc [of t])

lemma strcpy_loop_ok:
  "str_at m t cs \<Longrightarrow> area s (Suc (length cs)) \<inter> area t (Suc (length cs)) = {} \<Longrightarrow> strcpy_loop m s t = Some (st_bytes m s (cs @ [0]))"
proof (induction cs arbitrary: m s t)
  case Nil
  then show ?case by (subst strcpy_loop.simps) simp
next
  case (Cons c cs)
  have r: "str_at (m(s := c)) (t + 1) cs" "area (s + 1) (Suc (length cs)) \<inter> area (t + 1) (Suc (length cs)) = {}"
    using str_at_shift [OF Cons.prems(1), of s "Suc (length cs)"] Cons.prems by auto
  have "strcpy_loop (m(s := c)) (s + 1) (t + 1) = Some (st_bytes (m(s := c)) (s + 1) (cs @ [0]))" by (rule Cons.IH [OF r])
  then show ?case using Cons.prems(1) by (subst strcpy_loop.simps) simp
qed

lemma strcpy_ok:
  assumes "str_at m t cs" and "area s (Suc (length cs)) \<inter> area t (Suc (length cs)) = {}"
  shows "strcpy m s t = Some (s, st_bytes m s (cs @ [0]))"
  using strcpy_loop_ok [OF assms] by (simp add: strcpy_def)

lemma strcat_end_ok: "str_at m d cs \<Longrightarrow> strcat_end m d = Some (d + of_nat (length cs))"
proof (induction cs arbitrary: d)
  case Nil
  then show ?case by (subst strcat_end.simps) simp
next
  case (Cons c cs)
  then show ?case using Cons.IH [of "d + 1"] by (subst strcat_end.simps) (simp add: add.assoc)
qed

lemma strcat_copy_ok:
  "str_at m t cs \<Longrightarrow> area s (Suc (length cs)) \<inter> area t (Suc (length cs)) = {} \<Longrightarrow> strcat_copy m s t = Some (st_bytes m s (cs @ [0]))"
proof (induction cs arbitrary: m s t)
  case Nil
  then show ?case by (subst strcat_copy.simps) simp
next
  case (Cons c cs)
  have r: "str_at (m(s := c)) (t + 1) cs" "area (s + 1) (Suc (length cs)) \<inter> area (t + 1) (Suc (length cs)) = {}"
    using str_at_shift [OF Cons.prems(1), of s "Suc (length cs)"] Cons.prems by auto
  have "strcat_copy (m(s := c)) (s + 1) (t + 1) = Some (st_bytes (m(s := c)) (s + 1) (cs @ [0]))" by (rule Cons.IH [OF r])
  then show ?case using Cons.prems(1) by (subst strcat_copy.simps) simp
qed

text \<open>Storing behind a string what continues it gives the longer string.\<close>

lemma str_at_extend:
  assumes "str_at m d cs" and "0 \<notin> set ds" and "length cs + length ds < 2 ^ 32"
  shows "str_at (st_bytes m (d + of_nat (length cs)) (ds @ [0])) d (cs @ ds)"
  using assms
proof (induction cs arbitrary: d)
  case Nil
  then show ?case using st_bytes_str_at [of ds] by simp
next
  case (Cons c cs)
  have e: "d + of_nat (length (c # cs)) = d + 1 + of_nat (length cs)" by (simp add: add.assoc)
  have "d \<notin> area (d + 1 + of_nat (length cs)) (length (ds @ [0]))"
  proof
    assume "d \<in> area (d + 1 + of_nat (length cs)) (length (ds @ [0]))"
    then obtain i where "i < Suc (length ds)" "d = d + 1 + of_nat (length cs) + of_nat i" by (auto simp: area_def)
    then have "d \<in> area (d + 1) (Suc (length cs + length ds))"
      by (auto simp: area_def add.assoc intro!: image_eqI [of _ _ "length cs + i"])
    then show False using area_start [of "Suc (length cs + length ds)" d] Cons.prems(3) by simp
  qed
  then show ?case
    using Cons.IH [of "d + 1"] Cons.prems st_bytes_other [of d "d + 1 + of_nat (length cs)" "ds @ [0]" m] unfolding e by simp
qed

lemma strcat_ok:
  assumes "str_at m d cs" and "str_at m t ds" and "area (d + of_nat (length cs)) (Suc (length ds)) \<inter> area t (Suc (length ds)) = {}"
    and "length cs + length ds < 2 ^ 32"
  obtains m' where "strcat m d t = Some m'" and "str_at m' d (cs @ ds)"
    and "\<And>x. x \<notin> area (d + of_nat (length cs)) (Suc (length ds)) \<Longrightarrow> m' x = m x"
proof
  show "strcat m d t = Some (st_bytes m (d + of_nat (length cs)) (ds @ [0]))"
    using strcat_end_ok [OF assms(1)] strcat_copy_ok [OF assms(2,3)] by (simp add: strcat_def)
  show "str_at (st_bytes m (d + of_nat (length cs)) (ds @ [0])) d (cs @ ds)"
    by (rule str_at_extend [OF assms(1) str_at_nonzero [OF assms(2)] assms(4)])
  show "st_bytes m (d + of_nat (length cs)) (ds @ [0]) x = m x" if "x \<notin> area (d + of_nat (length cs)) (Suc (length ds))" for x
    using st_bytes_other [of x "d + of_nat (length cs)" "ds @ [0]" m] that by simp
qed

subsection \<open>Bounded copying\<close>

lemma str_at_frame: "str_at m t cs \<Longrightarrow> area s (length bs) \<inter> area t (Suc (length cs)) = {} \<Longrightarrow> str_at (st_bytes m s bs) t cs"
  by (subst str_at_cong [where m = m]) (auto intro: st_bytes_other)

lemma area_mono: "n \<le> k \<Longrightarrow> area a n \<subseteq> area a k"
  by (auto simp: area_def)

lemma area_split: "area a (n + k) = area a n \<union> area (a + of_nat n) k"
proof (induction n arbitrary: a)
  case 0
  then show ?case by simp
next
  case (Suc n)
  show ?case using Suc.IH [of "a + 1"] by (simp add: area_Suc [of a] add.assoc)
qed

lemma str_at_drop: "str_at m t cs \<Longrightarrow> n \<le> length cs \<Longrightarrow> str_at m (t + of_nat n) (drop n cs)"
  using str_at_append [of m t "take n cs" "drop n cs"] by (simp add: min_absorb2)

lemma strlcpy_copy_ok:
  "str_at m t cs \<Longrightarrow> 0 < n \<Longrightarrow> area s (min (Suc (length cs)) (n - 1)) \<inter> area t (Suc (length cs)) = {} \<Longrightarrow>
    strlcpy_copy m s t n =
      (if Suc (length cs) < n then (n - Suc (length cs), s + of_nat (Suc (length cs)), t + of_nat (Suc (length cs)), st_bytes m s (cs @ [0]))
       else (0, s + of_nat (n - 1), t + of_nat (n - 1), st_bytes m s (take (n - 1) cs)))"
proof (induction n arbitrary: m s t cs)
  case 0
  then show ?case by simp
next
  case (Suc n)
  show ?case
  proof (cases "n = 0")
    case True
    then show ?thesis by (simp add: strlcpy_copy.simps)
  next
    case n: False
    show ?thesis
    proof (cases cs)
      case Nil
      then show ?thesis using n Suc.prems(1) by (simp add: strlcpy_copy.simps Let_def)
    next
      case (Cons c ds)
      let ?j = "min (Suc (length ds)) (n - 1)"
      have e: "min (Suc (length cs)) (Suc n - 1) = Suc ?j" using n Cons by auto
      have r: "str_at (m(s := c)) (t + 1) ds" "area (s + 1) ?j \<inter> area (t + 1) (Suc (length ds)) = {}"
        using str_at_shift [OF Suc.prems(1) [unfolded Cons], of s ?j] Suc.prems(3) [unfolded e] Cons by auto
      have "strlcpy_copy m s t (Suc n) = strlcpy_copy (m(s := c)) (s + 1) (t + 1) n"
        using n Suc.prems(1) Cons by (subst strlcpy_copy.simps) (simp add: Let_def)
      also have "\<dots> = (if Suc (length ds) < n
          then (n - Suc (length ds), s + 1 + of_nat (Suc (length ds)), t + 1 + of_nat (Suc (length ds)), st_bytes (m(s := c)) (s + 1) (ds @ [0]))
          else (0, s + 1 + of_nat (n - 1), t + 1 + of_nat (n - 1), st_bytes (m(s := c)) (s + 1) (take (n - 1) ds)))"
        by (rule Suc.IH [OF r(1) _ r(2)]) (use n in simp)
      finally show ?thesis using n Cons by (cases n) (auto simp: add.assoc)
    qed
  qed
qed

lemma strlcpy_rest_ok: "str_at m t cs \<Longrightarrow> strlcpy_rest m t = Some (t + of_nat (length cs) + 1)"
proof (induction cs arbitrary: t)
  case Nil
  then show ?case by (subst strlcpy_rest.simps) simp
next
  case (Cons c cs)
  then show ?case using Cons.IH [of "t + 1"] by (subst strlcpy_rest.simps) (simp add: ac_simps)
qed

text \<open>\<^verbatim>\<open>strlcpy\<close> stores the string cut to the size of the buffer and returns its full length.\<close>

lemma strlcpy_ok:
  assumes s: "str_at m t cs" and n: "0 < unat n" and d: "area s (min (Suc (length cs)) (unat n)) \<inter> area t (Suc (length cs)) = {}"
  shows "strlcpy m s t n = Some (of_nat (length cs), st_bytes m s (take (unat n - 1) cs @ [0]))"
proof -
  have d': "area s (min (Suc (length cs)) (unat n - 1)) \<inter> area t (Suc (length cs)) = {}"
    using d area_mono [of "min (Suc (length cs)) (unat n - 1)" "min (Suc (length cs)) (unat n)" s] by fastforce
  note c = strlcpy_copy_ok [OF s n d']
  have n0: "n \<noteq> 0" using n by auto
  show ?thesis
  proof (cases "Suc (length cs) < unat n")
    case True
    then show ?thesis using c n0 by (simp add: strlcpy_def)
  next
    case False
    let ?k = "unat n - 1"
    have k: "?k \<le> length cs" "length (take ?k cs) = ?k" using False n by auto
    let ?m = "st_bytes m s (take ?k cs @ [0])"
    have "area s (length (take ?k cs @ [0])) \<inter> area t (Suc (length cs)) = {}" using d k n False by (simp add: min_absorb2)
    then have "str_at ?m t cs" by (rule str_at_frame [OF s])
    then have "strlcpy_rest ?m (t + of_nat ?k) = Some (t + of_nat ?k + of_nat (length (drop ?k cs)) + 1)"
      by (intro strlcpy_rest_ok str_at_drop k)
    moreover have "(of_nat ?k + of_nat (length (drop ?k cs)) :: uint) = of_nat (length cs)"
      unfolding of_nat_add [symmetric] using k by simp
    moreover have "(st_bytes m s (take ?k cs))(s + of_nat ?k := 0) = ?m" using k by (simp add: st_bytes_append)
    ultimately show ?thesis using c n0 False by (simp add: strlcpy_def add.assoc del: length_drop)
  qed
qed

lemma strlcat_end_ok: "str_at m d ds \<Longrightarrow> strlcat_end m d n = d + of_nat (min n (length ds))"
proof (induction n arbitrary: d ds)
  case 0
  then show ?case by simp
next
  case (Suc n)
  then show ?case by (cases ds) (auto simp: add.assoc)
qed

lemma strlcat_copy_ok:
  "str_at m t cs \<Longrightarrow> 0 < unat n \<Longrightarrow> area s (min (length cs) (unat n - 1)) \<inter> area t (Suc (length cs)) = {} \<Longrightarrow>
    strlcat_copy m s t n = Some (s + of_nat (min (length cs) (unat n - 1)), t + of_nat (length cs), st_bytes m s (take (unat n - 1) cs))"
proof (induction cs arbitrary: m s t n)
  case Nil
  then show ?case by (subst strlcat_copy.simps) simp
next
  case (Cons c cs)
  show ?case
  proof (cases "n = 1")
    case True
    have "strlcat_copy m s (t + 1) 1 =
        Some (s + of_nat (min (length cs) (unat (1 :: uint) - 1)), t + 1 + of_nat (length cs), st_bytes m s (take (unat (1 :: uint) - 1) cs))"
      by (rule Cons.IH) (use Cons.prems(1) in auto)
    then show ?thesis using True Cons.prems(1) by (subst strlcat_copy.simps) (simp add: ac_simps)
  next
    case False
    have "unat n \<noteq> unat (1 :: uint)" using False unfolding word_unat_eq_iff .
    moreover have "n \<noteq> 0" using Cons.prems(2) by (intro notI) simp
    ultimately have u: "unat (n - 1) = unat n - 1" "1 < unat n"
      using Cons.prems(2) unat_minus_one [of n] by auto
    let ?j = "min (length cs) (unat (n - 1) - 1)"
    have e: "min (length (c # cs)) (unat n - 1) = Suc ?j" using u by auto
    have r: "str_at (m(s := c)) (t + 1) cs" "area (s + 1) ?j \<inter> area (t + 1) (Suc (length cs)) = {}"
      using str_at_shift [OF Cons.prems(1), of s ?j] Cons.prems(3) [unfolded e] by auto
    have "strlcat_copy (m(s := c)) (s + 1) (t + 1) (n - 1) =
        Some (s + 1 + of_nat ?j, t + 1 + of_nat (length cs), st_bytes (m(s := c)) (s + 1) (take (unat (n - 1) - 1) cs))"
      by (rule Cons.IH [OF r(1) _ r(2)]) (use u in simp)
    moreover have "take (unat n - 1) (c # cs) = c # take (unat (n - 1) - 1) cs" using u by (cases "unat n - 1") auto
    ultimately show ?thesis using False Cons.prems(1) unfolding e by (subst strlcat_copy.simps) (simp add: ac_simps)
  qed
qed

text \<open>\<^verbatim>\<open>strlcat\<close> appends what fits, and returns the length of the string it tried to make.\<close>

lemma strlcat_ok:
  assumes d: "str_at m dst ds" and s: "str_at m src cs" and fits: "length ds < unat sz"
    and dj: "area (dst + of_nat (length ds)) (min (Suc (length cs)) (unat sz - length ds)) \<inter> area src (Suc (length cs)) = {}"
  shows "strlcat m dst src sz = Some (of_nat (length ds + length cs),
    st_bytes m (dst + of_nat (length ds)) (take (unat sz - length ds - 1) cs @ [0]))"
proof -
  let ?l = "of_nat (length ds) :: uint"
  have l: "unat ?l = length ds" using fits unsigned_less [of sz, where ?'a = nat] by (simp add: unat_of_nat)
  then have u: "unat (sz - ?l) = unat sz - length ds" using fits by (subst unat_sub) (simp_all add: word_le_nat_alt)
  have e: "strlcat_end m dst (unat sz) = dst + ?l" using strlcat_end_ok [OF d, of "unat sz"] fits by (simp add: min_absorb2)
  have "area (dst + ?l) (min (length cs) (unat (sz - ?l) - 1)) \<inter> area src (Suc (length cs)) = {}"
    using dj area_mono [of "min (length cs) (unat (sz - ?l) - 1)" "min (Suc (length cs)) (unat sz - length ds)" "dst + ?l"] u by fastforce
  from strlcat_copy_ok [OF s _ this] fits u have c: "strlcat_copy m (dst + ?l) src (sz - ?l) =
      Some (dst + ?l + of_nat (min (length cs) (unat sz - length ds - 1)), src + of_nat (length cs),
        st_bytes m (dst + ?l) (take (unat sz - length ds - 1) cs))" by simp
  have "sz - ?l \<noteq> 0" using u fits by (metis unat_0 zero_less_diff less_irrefl)
  then show ?thesis using c e by (simp add: strlcat_def st_bytes_append Let_def)
qed

lemma strlcat_full:
  assumes "str_at m dst ds" and "str_at m src cs" and "unat sz \<le> length ds"
  shows "strlcat m dst src sz = Some (sz + of_nat (length cs), m)"
  using strlcat_end_ok [OF assms(1), of "unat sz"] assms(3) strlen_u_ok [OF assms(2)]
  by (simp add: strlcat_def min_absorb1)

subsection \<open>Splitting\<close>

lemma strsep_scan_ok:
  "str_at m p cs \<Longrightarrow> str_at m delim ds \<Longrightarrow> 0 \<notin> area delim (length ds) \<Longrightarrow>
    strsep_scan m delim p = Some (p + of_nat (length (takeWhile (\<lambda>c. c \<notin> set ds) cs)))"
proof (induction cs arbitrary: p)
  case Nil
  then show ?case by (subst strsep_scan.simps) simp
next
  case (Cons c cs)
  have "length (takeWhile (\<lambda>x. x \<noteq> c) ds) < length ds" if "c \<in> set ds" using that by (induction ds) auto
  then have "c \<in> set ds \<Longrightarrow> delim + of_nat (length (takeWhile (\<lambda>x. x \<noteq> c) ds)) \<in> area delim (length ds)"
    by (auto simp: area_def)
  then have "(if c \<in> set ds then delim + of_nat (length (takeWhile (\<lambda>x. x \<noteq> c) ds)) else 0) = 0 \<longleftrightarrow> c \<notin> set ds"
    using Cons.prems(3) by auto
  then show ?case using Cons.IH [of "p + 1"] Cons.prems strchr_ok [OF Cons.prems(2), of c]
    by (subst strsep_scan.simps) (auto simp: add.assoc)
qed

text \<open>A zero stored inside a string cuts it.\<close>

lemma str_at_cut:
  assumes "str_at m p (xs @ c # ys)"
  shows "str_at (m(p + of_nat (length xs) := 0)) p xs" and "str_at (m(p + of_nat (length xs) := 0)) (p + of_nat (length xs) + 1) ys"
proof -
  let ?q = "p + of_nat (length xs)"
  have l: "length xs < 2 ^ 32" "Suc (length ys) < 2 ^ 32" using str_at_length [OF assms] by auto
  have a: "(\<forall>i<length xs. m (p + of_nat i) = xs ! i \<and> xs ! i \<noteq> 0)" "str_at m (?q + 1) ys"
    using assms by (auto simp: str_at_append)
  have "?q \<notin> area p (length xs)" using area_end [OF l(1)] .
  then have "\<forall>i<length xs. ?q \<noteq> p + of_nat i" by (auto simp: area_def)
  then show "str_at (m(?q := 0)) p xs" using a(1) str_at_append [of "m(?q := 0)" p xs "[]"] by auto
  have "?q \<notin> area (?q + 1) (Suc (length ys))" using l(2) by (rule area_start)
  then show "str_at (m(?q := 0)) (?q + 1) ys" using a(2) by (subst str_at_upd) auto
qed

lemma strsep_ok:
  assumes s: "str_at m p cs" and d: "str_at m delim ds" "0 \<notin> area delim (length ds)" and tok: "tok = takeWhile (\<lambda>c. c \<notin> set ds) cs"
  obtains m' where "tok = cs" and "strsep m p delim = Some (p, 0, m)"
  | r rest m' where "cs = tok @ r # rest" and "r \<in> set ds" and "strsep m p delim = Some (p, p + of_nat (length tok) + 1, m')"
    and "str_at m' p tok" and "str_at m' (p + of_nat (length tok) + 1) rest"
proof -
  note sc = strsep_scan_ok [OF s d, folded tok]
  show thesis
  proof (cases "dropWhile (\<lambda>c. c \<notin> set ds) cs")
    case Nil
    then have "tok = cs" using tok takeWhile_dropWhile_id [of "\<lambda>c. c \<notin> set ds" cs] by simp
    then show ?thesis using sc str_at_end [OF s] that(1) by (simp add: strsep_def)
  next
    case (Cons r rest)
    then have c: "cs = tok @ r # rest" using tok takeWhile_dropWhile_id [of "\<lambda>c. c \<notin> set ds" cs] by simp
    have r: "r \<in> set ds" using Cons hd_dropWhile [of "\<lambda>c. c \<notin> set ds" cs] by auto
    have "str_at m (p + of_nat (length tok)) (r # rest)" using s unfolding c str_at_append by blast
    then have "m (p + of_nat (length tok)) \<noteq> 0" by simp
    then have "strsep m p delim = Some (p, p + of_nat (length tok) + 1, m(p + of_nat (length tok) := 0))"
      using sc by (simp add: strsep_def)
    then show ?thesis using that(2) [OF c r] str_at_cut [OF s [unfolded c]] by blast
  qed
qed

lemma strtok_skip_ok:
  "str_at m s cs \<Longrightarrow> str_at m delim ds \<Longrightarrow>
    strtok_skip m delim s = (let n = length (takeWhile (\<lambda>c. c \<in> set ds) cs) in Some (m (s + of_nat n), s + of_nat n + 1))"
proof (induction cs arbitrary: s)
  case Nil
  then show ?case using str_at_nonzero [OF Nil.prems(2)] by (subst strtok_skip.simps) (simp add: among_ok)
next
  case (Cons c cs)
  then show ?case using Cons.IH [of "s + 1"] by (subst strtok_skip.simps) (auto simp: among_ok Let_def ac_simps)
qed

lemma strtok_scan_ok:
  "str_at m s cs \<Longrightarrow> str_at m delim ds \<Longrightarrow>
    strtok_scan m delim s = (let n = length (takeWhile (\<lambda>c. c \<notin> set ds) cs) in Some (m (s + of_nat n), s + of_nat n + 1))"
proof (induction cs arbitrary: s)
  case Nil
  then show ?case using str_at_nonzero [OF Nil.prems(2)] by (subst strtok_scan.simps) (simp add: among_ok)
next
  case (Cons c cs)
  then show ?case using Cons.IH [of "s + 1"] by (subst strtok_scan.simps) (auto simp: among_ok Let_def ac_simps)
qed

text \<open>
  One call of \<^verbatim>\<open>strtok_r\<close>. It skips delimiters; when nothing is left the result is null. Otherwise the token is the
  following run of other characters, now a string of its own, and the pointer kept is null at the end of the string or
  points behind the delimiter that ended the token.
\<close>

lemma strtok_r_ok:
  assumes s: "str_at m s cs" and d: "str_at m delim ds" and s0: "s \<noteq> 0"
    and rest: "rest = dropWhile (\<lambda>c. c \<in> set ds) cs" and tok: "tok = takeWhile (\<lambda>c. c \<notin> set ds) rest"
  obtains "rest = []" and "strtok_r m s delim lst = Some (0, 0, m)"
  | "rest \<noteq> []" and "tok = rest" and "strtok_r m s delim lst = Some (s + of_nat (length cs - length rest), 0, m)"
    and "str_at m (s + of_nat (length cs - length rest)) tok"
  | r more m' where "rest = tok @ r # more" and "tok \<noteq> []" and "r \<in> set ds"
    and "m' = m(s + of_nat (length cs - length rest + length tok) := 0)"
    and "strtok_r m s delim lst = Some (s + of_nat (length cs - length rest), s + of_nat (length cs - length rest + length tok) + 1, m')"
    and "str_at m' (s + of_nat (length cs - length rest)) tok"
    and "str_at m' (s + of_nat (length cs - length rest + length tok) + 1) more"
proof -
  let ?n = "length (takeWhile (\<lambda>c. c \<in> set ds) cs)" and ?p = "\<lambda>n. s + of_nat n"
  have split: "takeWhile (\<lambda>c. c \<in> set ds) cs @ rest = cs" unfolding rest by (rule takeWhile_dropWhile_id)
  have n: "length cs - length rest = ?n" using arg_cong [OF split, of length] by simp
  have r: "str_at m (?p ?n) rest" using s str_at_append [of m s "takeWhile (\<lambda>c. c \<in> set ds) cs" rest] unfolding split by simp
  note sk = strtok_skip_ok [OF s d, unfolded Let_def]
  show thesis
  proof (cases rest)
    case Nil
    then show ?thesis using r sk s0 that(1) by (simp add: strtok_r_def)
  next
    case (Cons c cs')
    have c: "c \<notin> set ds" using Cons hd_dropWhile [of "\<lambda>c. c \<in> set ds" cs] unfolding rest by auto
    then have t: "tok = c # takeWhile (\<lambda>c. c \<notin> set ds) cs'" unfolding tok Cons by simp
    have r1: "m (?p ?n) = c" "c \<noteq> 0" "str_at m (?p ?n + 1) cs'" using r Cons by auto
    have sc: "strtok_scan m delim (?p ?n + 1) = Some (m (?p (?n + length tok)), ?p (?n + length tok) + 1)"
      using strtok_scan_ok [OF r1(3) d] t by (simp add: Let_def ac_simps)
    show ?thesis
    proof (cases "dropWhile (\<lambda>c. c \<notin> set ds) rest")
      case Nil
      then have e: "tok = rest" using tok takeWhile_dropWhile_id [of "\<lambda>c. c \<notin> set ds" rest] by simp
      have "m (?p (?n + length tok)) = 0" using str_at_end [OF r] e by (simp add: add.assoc)
      then show ?thesis using that(2) e r sk sc r1 s0 n Cons by (simp add: strtok_r_def)
    next
      case more: (Cons q more)
      have e: "rest = tok @ q # more" using more tok takeWhile_dropWhile_id [of "\<lambda>c. c \<notin> set ds" rest] by simp
      have q: "q \<in> set ds" using more hd_dropWhile [of "\<lambda>c. c \<notin> set ds" rest] by auto
      have cut: "str_at (m(?p (?n + length tok) := 0)) (?p ?n) tok" "str_at (m(?p (?n + length tok) := 0)) (?p (?n + length tok) + 1) more"
        using str_at_cut [OF r [unfolded e]] by (simp_all add: add.assoc)
      have "str_at m (?p (?n + length tok)) (q # more)" using r unfolding e str_at_append by (simp add: add.assoc)
      then have "m (?p (?n + length tok)) = q" "q \<noteq> 0" by auto
      then have "strtok_r m s delim lst = Some (?p ?n, ?p (?n + length tok) + 1, m(?p (?n + length tok) := 0))"
        using sk sc r1 s0 by (simp add: strtok_r_def)
      then show ?thesis using that(3) [OF e _ q refl] cut t n by simp
    qed
  qed
qed

subsection \<open>Numbers\<close>

primrec bytes_at :: "mem \<Rightarrow> uint \<Rightarrow> uchar list \<Rightarrow> bool" where
  "bytes_at m a [] \<longleftrightarrow> True"
| "bytes_at m a (b # bs) \<longleftrightarrow> m a = b \<and> bytes_at m (a + 1) bs"

lemma bytes_at_append: "bytes_at m a (xs @ ys) \<longleftrightarrow> bytes_at m a xs \<and> bytes_at m (a + of_nat (length xs)) ys"
proof (induction xs arbitrary: a)
  case Nil
  then show ?case by simp
next
  case (Cons x xs)
  then show ?case by (auto simp: add.assoc)
qed

text \<open>The value of a digit in a base, and of a row of digits behind a number.\<close>

definition digit_in :: "int \<Rightarrow> uchar \<Rightarrow> bool" where
  "digit_in base b \<longleftrightarrow> (case digit_value (uint b) of None \<Rightarrow> False | Some v \<Rightarrow> v < base)"

definition digit :: "uchar \<Rightarrow> int" where
  "digit b = the (digit_value (uint b))"

definition number :: "int \<Rightarrow> int \<Rightarrow> uchar list \<Rightarrow> int" where
  "number base = foldl (\<lambda>a b. a * base + digit b)"

lemma number_simps [simp]: "number base a [] = a" "number base a (b # bs) = number base (a * base + digit b) bs"
  by (simp_all add: number_def)

lemma digit_inD: "digit_in base b \<Longrightarrow> digit_value (uint b) = Some (digit b) \<and> 0 \<le> digit b \<and> digit b < base \<and> 48 \<le> uint b \<and> uint b < 128"
  by (auto simp: digit_in_def digit_def digit_value_def split: option.splits if_splits)

lemma number_ge: "0 \<le> a \<Longrightarrow> 1 \<le> base \<Longrightarrow> (\<And>b. b \<in> set bs \<Longrightarrow> digit_in base b) \<Longrightarrow> a \<le> number base a bs"
proof (induction bs arbitrary: a)
  case Nil
  then show ?case by simp
next
  case (Cons b bs)
  have b: "0 \<le> digit b" using Cons.prems(3) digit_inD by auto
  have "a \<le> a * base" using Cons.prems(1,2) by (simp add: mult_le_cancel_left1)
  then have "a \<le> a * base + digit b" using b by simp
  also have "\<dots> \<le> number base (a * base + digit b) bs" by (rule Cons.IH) (use Cons.prems b in auto)
  finally show ?case by simp
qed

text \<open>The test before a digit is added is exact: it fails exactly when the next number is beyond the limit.\<close>

lemma cutoff_exact:
  fixes base :: int
  assumes "0 < base" and "0 \<le> d" and "d < base" and "0 \<le> L"
  shows "acc > L div base \<or> acc = L div base \<and> d > L mod base \<longleftrightarrow> acc * base + d > L"
proof -
  define q r where "q = L div base" and "r = L mod base"
  have L: "L = q * base + r" "0 \<le> r" "r < base" using assms by (auto simp: q_def r_def)
  consider "acc > q" | "acc = q" | "acc < q" by linarith
  then show ?thesis unfolding q_def [symmetric] r_def [symmetric]
  proof cases
    case 1
    then have "(q + 1) * base \<le> acc * base" using assms(1) by (intro mult_right_mono) auto
    then have "L < acc * base + d" using L assms(2) by (simp add: distrib_right)
    then show "acc > q \<or> acc = q \<and> d > r \<longleftrightarrow> acc * base + d > L" using 1 by simp
  next
    case 2
    then show "acc > q \<or> acc = q \<and> d > r \<longleftrightarrow> acc * base + d > L" using L by auto
  next
    case 3
    then have "(acc + 1) * base \<le> q * base" using assms(1) by (intro mult_right_mono) auto
    then have "\<not> L < acc * base + d" using L assms(3) by (simp add: distrib_right)
    then show "acc > q \<or> acc = q \<and> d > r \<longleftrightarrow> acc * base + d > L" using 3 by simp
  qed
qed

abbreviation limit :: "bool \<Rightarrow> int" where
  "limit neg \<equiv> if neg then 2147483648 else LONG_MAX"

abbreviation sign :: "bool \<Rightarrow> int" where
  "sign neg \<equiv> if neg then - 1 else 1"

lemma strtol_digits_over:
  "c = uint (hd (bs @ [t])) \<Longrightarrow> bytes_at m s (tl (bs @ [t])) \<Longrightarrow> \<forall>b\<in>set bs. digit_in base b \<Longrightarrow> \<not> digit_in base t \<Longrightarrow>
    strtol_digits neg base cutoff cutlim m c s acc (- 1) = Some (acc, - 1, s + of_nat (length bs))"
proof (induction bs arbitrary: c s)
  case Nil
  then show ?case by (subst strtol_digits.simps) (auto simp: digit_in_def split: option.splits)
next
  case (Cons b bs)
  have b: "digit_value c = Some (digit b)" "digit b < base" using Cons.prems(1,3) digit_inD [of base b] by auto
  obtain y ys where y: "bs @ [t] = y # ys" by (cases "bs @ [t]") auto
  then have s: "uint (m s) = uint (hd (bs @ [t]))" "bytes_at m (s + 1) (tl (bs @ [t]))" using Cons.prems(2) by auto
  show ?case using Cons.IH [OF s] Cons.prems(3,4) b by (subst strtol_digits.simps) (simp add: add.assoc)
qed

lemma strtol_digits_step:
  assumes "digit_value c = Some d" and "0 \<le> d" and "d < base" and "0 \<le> any"
  shows "strtol_digits neg base (sign neg * (limit neg div base)) (limit neg mod base) m c s (sign neg * acc) any =
    (if limit neg < acc * base + d
     then strtol_digits neg base (sign neg * (limit neg div base)) (limit neg mod base) m (uint (m s)) (s + 1) (sign neg * limit neg) (- 1)
     else strtol_digits neg base (sign neg * (limit neg div base)) (limit neg mod base) m (uint (m s)) (s + 1) (sign neg * (acc * base + d)) 1)"
proof -
  have b: "0 < base" using assms by linarith
  show ?thesis
  proof (cases neg)
    case True
    have "acc > 2147483648 div base \<or> acc = 2147483648 div base \<and> d > 2147483648 mod base \<longleftrightarrow> acc * base + d > 2147483648"
      by (rule cutoff_exact [OF b assms(2,3)]) simp
    then have "- acc < - (2147483648 div base) \<or> - acc = - (2147483648 div base) \<and> d > 2147483648 mod base \<longleftrightarrow> acc * base + d > 2147483648"
      by simp
    then show ?thesis using True assms(1,3,4) by (subst strtol_digits.simps) simp
  next
    case False
    have "acc > LONG_MAX div base \<or> acc = LONG_MAX div base \<and> d > LONG_MAX mod base \<longleftrightarrow> acc * base + d > LONG_MAX"
      by (rule cutoff_exact [OF b assms(2,3)]) simp
    then show ?thesis using False assms(1,3,4) by (subst strtol_digits.simps) simp
  qed
qed

lemma strtol_digits_ok:
  assumes base: "0 < base"
  shows "c = uint (hd (bs @ [t])) \<Longrightarrow> bytes_at m s (tl (bs @ [t])) \<Longrightarrow> \<forall>b\<in>set bs. digit_in base b \<Longrightarrow> \<not> digit_in base t \<Longrightarrow>
    0 \<le> acc \<Longrightarrow> acc \<le> limit neg \<Longrightarrow> 0 \<le> any \<Longrightarrow> any = 1 \<or> bs \<noteq> [] \<Longrightarrow>
    strtol_digits neg base (sign neg * (limit neg div base)) (limit neg mod base) m c s (sign neg * acc) any =
      Some (sign neg * min (limit neg) (number base acc bs), if limit neg < number base acc bs then - 1 else 1, s + of_nat (length bs))"
proof (induction bs arbitrary: c s acc any)
  case Nil
  then show ?case by (subst strtol_digits.simps) (auto simp: digit_in_def split: option.splits)
next
  case (Cons b bs)
  have b: "digit_value c = Some (digit b)" "0 \<le> digit b" "digit b < base" using Cons.prems(1,3) digit_inD [of base b] by auto
  obtain y ys where y: "bs @ [t] = y # ys" by (cases "bs @ [t]") auto
  then have s: "uint (m s) = uint (hd (bs @ [t]))" "bytes_at m (s + 1) (tl (bs @ [t]))" using Cons.prems(2) by auto
  have bs: "\<forall>b\<in>set bs. digit_in base b" using Cons.prems(3) by simp
  note step = strtol_digits_step [OF b Cons.prems(7), of neg m s acc]
  have p: "0 \<le> acc * base + digit b" using Cons.prems(5) base b(2) by simp
  show ?case
  proof (cases "limit neg < acc * base + digit b")
    case True
    have "acc * base + digit b \<le> number base (acc * base + digit b) bs"
      by (rule number_ge) (use bs p base in auto)
    with True have "limit neg < number base acc (b # bs)" by (simp del: if_split)
    then show ?thesis
      using True strtol_digits_over [OF s bs Cons.prems(4)] unfolding step by (simp add: min_def add.assoc)
  next
    case False
    have "strtol_digits neg base (sign neg * (limit neg div base)) (limit neg mod base) m (uint (m s)) (s + 1) (sign neg * (acc * base + digit b)) 1 =
      Some (sign neg * min (limit neg) (number base (acc * base + digit b) bs), if limit neg < number base (acc * base + digit b) bs then - 1 else 1, s + 1 + of_nat (length bs))"
      by (rule Cons.IH [OF s bs Cons.prems(4) p]) (use False in auto)
    then show ?thesis using False unfolding step by (simp add: add.assoc)
  qed
qed

lemma strtol_skip_ok:
  "bytes_at m s (sp @ [c]) \<Longrightarrow> \<forall>b\<in>set sp. uint b \<le> 32 \<or> 127 \<le> uint b \<Longrightarrow> 32 < uint c \<Longrightarrow> uint c < 127 \<Longrightarrow>
    strtol_skip m s = Some (uint c, s + of_nat (length sp) + 1)"
proof (induction sp arbitrary: s)
  case Nil
  then show ?case by (subst strtol_skip.simps) (auto simp: Let_def)
next
  case (Cons b sp)
  then show ?case using Cons.IH [of "s + 1"] by (subst strtol_skip.simps) (auto simp: Let_def ac_simps)
qed

lemma strtol_cutoff_ok: "2 \<le> base \<Longrightarrow> strtol_cutoff neg base = (sign neg * (limit neg div base), limit neg mod base)"
proof -
  assume b: "2 \<le> base"
  have "(2147483648 :: int) = base * (2147483648 div base) + 2147483648 mod base" by simp
  moreover have "0 \<le> (2147483648 :: int) mod base" by (rule pos_mod_sign) (use b in simp)
  ultimately have "\<not> 2147483648 < base * (2147483648 div base)" by linarith
  then show ?thesis using b
    by (simp add: strtol_cutoff_def crem_def cdiv_def Let_def minus_mult_div_eq_mod)
qed

lemma sint_ascii: "uint (b :: uchar) < 128 \<Longrightarrow> sint b = uint b"
  unfolding sint_uint by (rule signed_take_bit_int_eq_self) (use order_trans [OF _ uint_ge_0 [of b], of "- 128"] in auto)

lemma digit_in_char: "digit_in base b \<Longrightarrow> 32 < uint b \<and> uint b < 127 \<and> uint b \<noteq> 45 \<and> uint b \<noteq> 43"
  by (auto simp: digit_in_def digit_value_def split: option.splits if_splits)

text \<open>
  \<^verbatim>\<open>strtol\<close> of white space, a sign and digits, up to a character that is no digit: the number, cut to the range of a
  \<^verbatim>\<open>long\<close>, and the place of that character. In base 16 a single zero followed by an \<open>x\<close> is the prefix.
\<close>

lemma strtol_ok:
  assumes mem: "bytes_at m a (sp @ sg @ bs @ [t])" and sp: "\<forall>b\<in>set sp. uint b \<le> 32 \<or> 127 \<le> uint b"
    and sg: "sg = (if neg then [45] else []) \<or> \<not> neg \<and> sg = [43]"
    and bs: "bs \<noteq> []" "\<forall>b\<in>set bs. digit_in base b" "\<not> digit_in base t"
    and base: "2 \<le> base" "base = 16 \<Longrightarrow> \<not> (bs = [48] \<and> t \<in> {120, 88})"
  shows "strtol m a base = Some (sign neg * min (limit neg) (number base 0 bs), a + of_nat (length (sp @ sg @ bs)))"
proof -
  obtain b cs where b: "bs = b # cs" using bs(1) by (cases bs) auto
  let ?s = "a + of_nat (length sp) + of_nat (length sg)"
  have db: "digit_in base b" using bs(2) b by simp
  note D = digit_in_char [OF db]
  have ub: "sint b = uint b" using digit_inD [OF db] by (intro sint_ascii) auto
  have rest: "bytes_at m (a + of_nat (length sp)) sg" "bytes_at m ?s (b # cs @ [t])" "bytes_at m a sp"
    using mem b by (auto simp: bytes_at_append add.assoc)
  have h: "bytes_at m (?s + 1) (tl (bs @ [t]))" "m ?s = b" using rest(2) b by auto
  have sig: "Option.bind (strtol_skip m a) (\<lambda>(c, s). Some (strtol_sign m c s)) = Some (neg, uint b, ?s + 1)"
  proof (cases "sg = []")
    case True
    then have "strtol_skip m a = Some (uint b, a + of_nat (length sp) + 1)"
      using strtol_skip_ok [of m a sp b] sp D rest by (simp add: bytes_at_append)
    then show ?thesis using True D sg by (auto simp: strtol_sign_def split: if_splits)
  next
    case False
    then obtain g where g: "sg = [g]" "g = (if neg then 45 else 43)" using sg by (auto split: if_splits)
    have ug: "uint g = (if neg then 45 else 43)" using g(2) by simp
    then have "strtol_skip m a = Some (uint g, a + of_nat (length sp) + 1)"
      using strtol_skip_ok [of m a sp g] sp rest g(1) by (auto simp: bytes_at_append)
    then show ?thesis using h(2) g(1) ug ub by (simp add: strtol_sign_def ac_simps)
  qed
  have ba: "strtol_base m base (uint b) (?s + 1) = (base, uint b, ?s + 1)"
  proof -
    have "\<not> (base = 16 \<and> uint b = 48 \<and> (m (?s + 1) = 120 \<or> m (?s + 1) = 88))"
    proof (cases cs)
      case Nil
      then have "m (?s + 1) = t" using h(1) b by simp
      moreover have "uint b = 48 \<longleftrightarrow> b = 48" by (simp add: word_uint_eq_iff)
      ultimately show ?thesis using base(2) b Nil by auto
    next
      case (Cons c cs')
      then have "digit_in base (m (?s + 1))" using h(1) b bs(2) by simp
      then show ?thesis by (auto simp: digit_in_def digit_value_def)
    qed
    then show ?thesis using base(1) by (auto simp: strtol_base_def)
  qed
  have hb: "uint b = uint (hd (bs @ [t]))" using b by simp
  have "strtol_digits neg base (sign neg * (limit neg div base)) (limit neg mod base) m (uint b) (?s + 1) (sign neg * 0) 0 =
      Some (sign neg * min (limit neg) (number base 0 bs), if limit neg < number base 0 bs then - 1 else 1, ?s + 1 + of_nat (length bs))"
    by (rule strtol_digits_ok [OF _ hb h(1) bs(2,3)]) (use base(1) bs(1) in auto)
  then show ?thesis
    using sig ba by (auto simp: strtol_def strtol_cutoff_ok [OF base(1)] bind_eq_Some_conv algebra_simps)
qed

lemma digit_in_10: "digit_in 10 b \<longleftrightarrow> 48 \<le> b \<and> b \<le> 57"
  by (auto simp: digit_in_def digit_value_def word_le_def)

lemma digit_10: "digit_in 10 b \<Longrightarrow> word_of_int (digit b) = (ucast b - 48 :: uint)"
proof -
  assume "digit_in 10 b"
  then have "digit b = uint b - 48" by (auto simp: digit_in_def digit_def digit_value_def split: if_splits)
  then show ?thesis by simp
qed

text \<open>\<^verbatim>\<open>atoi\<close>: the number modulo \<open>2 ^ 32\<close>, read as an \<^verbatim>\<open>int\<close>.\<close>

lemma atoi_loop_ok:
  "bytes_at m s (bs @ [t]) \<Longrightarrow> \<forall>b\<in>set bs. digit_in 10 b \<Longrightarrow> \<not> digit_in 10 t \<Longrightarrow>
    atoi_loop m s (word_of_int n) = Some (word_of_int (number 10 n bs))"
proof (induction bs arbitrary: s n)
  case Nil
  then show ?case by (subst atoi_loop.simps) (auto simp: digit_in_10)
next
  case (Cons b bs)
  have b: "48 \<le> m s \<and> m s \<le> 57" "m s = b" using Cons.prems digit_in_10 by auto
  have "word_of_int n * 10 + ucast b - 48 = (word_of_int n * 10 + (ucast b - 48) :: uint)" by simp
  then have e: "word_of_int n * 10 + ucast b - 48 = (word_of_int (n * 10 + digit b) :: uint)"
    using digit_10 [of b] Cons.prems(2) by simp
  have "atoi_loop m s (word_of_int n) = atoi_loop m (s + 1) (word_of_int n * 10 + ucast b - 48)"
    using b by (subst atoi_loop.simps) simp
  also have "\<dots> = Some (word_of_int (number 10 (n * 10 + digit b) bs))" unfolding e by (rule Cons.IH) (use Cons.prems in auto)
  finally show ?case by simp
qed

lemma atoi_ok:
  assumes "bytes_at m s (bs @ [t])" and "\<forall>b\<in>set bs. digit_in 10 b" and "\<not> digit_in 10 t"
  shows "atoi m s = Some (sint (word_of_int (number 10 0 bs) :: uint))"
  using atoi_loop_ok [OF assms, of 0] by (simp add: atoi_def)

text \<open>\<^verbatim>\<open>strtonum\<close> of a decimal number that fills the string.\<close>

lemma strtonum_ok:
  assumes "bytes_at m a (sp @ sg @ bs @ [0])" and "\<forall>b\<in>set sp. uint b \<le> 32 \<or> 127 \<le> uint b"
    and "sg = (if neg then [45] else []) \<or> \<not> neg \<and> sg = [43]" and "bs \<noteq> []" and "\<forall>b\<in>set bs. digit_in 10 b"
    and len: "length (sp @ sg @ bs) < 2 ^ 32" and v: "v = sign neg * min (limit neg) (number 10 0 bs)"
  shows "strtonum m a minval maxval =
    Some (if v < minval then (minval, Some Too_small) else if v > maxval then (maxval, Some Too_large) else (v, None))"
proof -
  have t: "\<not> digit_in 10 0" by (simp add: digit_in_10)
  have s: "strtol m a 10 = Some (v, a + of_nat (length (sp @ sg @ bs)))"
    unfolding v by (rule strtol_ok [OF assms(1-5) t]) auto
  have "unat (of_nat (length (sp @ sg @ bs)) :: uint) = length (sp @ sg @ bs)"
    unfolding unat_of_nat by (rule mod_less) (use len in simp)
  then have "of_nat (length (sp @ sg @ bs)) \<noteq> (0 :: uint)" using assms(4) by (intro notI) simp
  moreover have "m (a + of_nat (length (sp @ sg @ bs))) = 0" using assms(1) by (simp add: bytes_at_append add.assoc)
  ultimately show ?thesis using s by (simp add: strtonum_def del: length_append of_nat_add)
qed

text \<open>The white space that \<^verbatim>\<open>strtol\<close> skips includes the zero at the end: an empty string is not an error, what follows it is read.\<close>

lemma strtonum_reads_past_end:
  assumes "m a = 0" and "bytes_at m (a + 1) (bs @ [0])" and "bs \<noteq> []" and "\<forall>b\<in>set bs. digit_in 10 b" and "length bs < 1000"
    and "number 10 0 bs \<le> LONG_MAX"
  shows "strtonum m a LONG_MIN LONG_MAX = Some (number 10 0 bs, None)"
proof -
  have "0 \<le> number 10 0 bs" using number_ge [of 0 10 bs] assms(4) by simp
  then show ?thesis using strtonum_ok [of m a "[0]" "[]" bs False "number 10 0 bs" LONG_MIN LONG_MAX] assms by simp
qed

subsection \<open>Where the library differs from its contract\<close>

text \<open>\<^verbatim>\<open>memcmp\<close> returns 0, equal, also when the first difference is a greater byte in the first range.\<close>

lemma memcmp_u_greater:
  assumes "m q < m p" and "0 < n"
  shows "memcmp_u m p q n = 0"
proof -
  have "m p \<noteq> m q" "\<not> m p < m q" using assms(1) by (auto simp: less_le)
  moreover obtain k where "nat n = Suc k" using assms(2) by (cases "nat n") auto
  ultimately show ?thesis by (simp add: memcmp_u_def)
qed

text \<open>\<^verbatim>\<open>memmove\<close> copies upwards always: with the destination one byte above the source the first byte spreads.\<close>

lemma copy_up_other: "x \<notin> area d n \<Longrightarrow> copy_up m d s n x = m x"
  by (induction n arbitrary: m d s) (auto simp: area_Suc)

lemma copy_up_spreads: "n < 2 ^ 32 \<Longrightarrow> i \<le> n \<Longrightarrow> copy_up m (s + 1) s n (s + of_nat i) = m s"
proof (induction n arbitrary: m s i)
  case 0
  then show ?case by simp
next
  case (Suc n)
  have "s \<notin> area (s + 1) (Suc n)" using Suc.prems(1) by (rule area_start)
  then have z: "copy_up m (s + 1) s (Suc n) s = m s" by (rule copy_up_other)
  show ?case
  proof (cases i)
    case 0
    then show ?thesis using z by (simp del: copy_up.simps)
  next
    case i: (Suc j)
    have "copy_up (m(s + 1 := m s)) (s + 1 + 1) (s + 1) n (s + 1 + of_nat j) = (m(s + 1 := m s)) (s + 1)"
      by (rule Suc.IH) (use Suc.prems i in auto)
    then show ?thesis using i by (simp add: add.assoc)
  qed
qed

lemma memmove_u_spreads: "n < 2 ^ 32 \<Longrightarrow> i \<le> n \<Longrightarrow> snd (memmove_u m (s + 1) s (int n)) (s + of_nat i) = m s"
  using copy_up_spreads by (simp add: memmove_u_def)

section \<open>Properties\<close>


text \<open>The string \<^verbatim>\<open>" -42;"\<close>.\<close>

definition demo_number :: mem where
  "demo_number = (\<lambda>_. 0)(100 := 32, 101 := 45, 102 := 52, 103 := 50, 104 := 59)"


end
