(* ===== verification/UStdio.thy ===== *)
theory UStdio
  imports UString
begin

text \<open>
  Formatted output and input of the user library: \<^verbatim>\<open>ulib/printf.c\<close>, the formatting routines of \<^verbatim>\<open>ulib/ulib.c\<close> and
  \<^verbatim>\<open>ulib/files.c\<close>.

  The system calls are parameters: \<^verbatim>\<open>write\<close> and \<^verbatim>\<open>read\<close> take a descriptor and a state of the world and return their result
  with the new state; \<^verbatim>\<open>read\<close> also returns the bytes it stores. The variable arguments are the words behind the last named
  parameter on the stack, a function from their index. As in \<^verbatim>\<open>UString\<close>, a routine that follows a string is an option.

  The lemmas show that \<^verbatim>\<open>snprintf\<close> stays inside its buffer and stores the same text as \<^verbatim>\<open>sprintf\<close>, cut to the size, and that
  the number it prints reads back.
\<close>

section \<open>Definitions\<close>

subsection \<open>Streams\<close>

record FILE =
  f_fd :: int
  f_buf :: "uchar list"
  f_bufpos :: int
  f_buflen :: int
  f_flags :: uint
  f_pos :: int

abbreviation "FILE_ERR \<equiv> 1 :: uint"
abbreviation "FILE_EOF \<equiv> 2 :: uint"
abbreviation "BUFSIZ \<equiv> 512 :: nat"

type_synonym 'w wr = "int \<Rightarrow> uchar list \<Rightarrow> 'w \<Rightarrow> int \<times> 'w"
type_synonym 'w rd = "int \<Rightarrow> int \<Rightarrow> 'w \<Rightarrow> int \<times> uchar list \<times> 'w"
type_synonym va_list = "nat \<Rightarrow> uint"

text \<open>The three standard streams all have descriptor 1.\<close>

definition stdout_file :: FILE where
  "stdout_file = \<lparr>f_fd = 1, f_buf = replicate BUFSIZ 0, f_bufpos = 0, f_buflen = 0, f_flags = 0, f_pos = 0\<rparr>"

text \<open>A null stream is \<^term>\<open>None\<close>.\<close>

definition putc :: "'w wr \<Rightarrow> uchar \<Rightarrow> FILE option \<times> 'w \<Rightarrow> FILE option \<times> 'w" where
  "putc wr c = (\<lambda>(stream, w).
     case stream of
       None \<Rightarrow> (None, w)
     | Some f \<Rightarrow>
         (case wr (f_fd f) [c] w of (r, w) \<Rightarrow>
            (Some (if r \<noteq> 1 then f\<lparr>f_flags := f_flags f OR FILE_ERR\<rparr> else f), w)))"

text \<open>\<open>"0123456789ABCDEF"\<close>\<close>

definition upper_digit :: "nat \<Rightarrow> uchar" where
  "upper_digit d = (if d < 10 then of_nat (48 + d) else of_nat (55 + d))"

text \<open>The digits in the order they go into \<^verbatim>\<open>buf\<close>, the last one first; the loop runs at least once.\<close>

function printint_buf :: "nat \<Rightarrow> nat \<Rightarrow> uchar list" where
  "printint_buf base x =
     upper_digit (x mod base) # (if base < 2 \<or> x div base = 0 then [] else printint_buf base (x div base))"
  by pat_completeness auto
termination
  by (relation "measure snd") (auto simp: div_greater_zero_iff)

declare printint_buf.simps [simp del]

definition uprintint :: "'w wr \<Rightarrow> uint \<Rightarrow> nat \<Rightarrow> bool \<Rightarrow> FILE option \<times> 'w \<Rightarrow> FILE option \<times> 'w" where
  "uprintint wr xx base sg st =
     (let neg = sg \<and> sint xx < 0; x = unat (if neg then - xx else xx); buf = printint_buf base x in
      fold (putc wr) (rev (if neg then buf @ [45] else buf)) st)"

partial_function (option) put_str :: "'w wr \<Rightarrow> mem \<Rightarrow> uint \<Rightarrow> FILE option \<times> 'w \<Rightarrow> (FILE option \<times> 'w) option" where
  "put_str wr m s st = (if m s = 0 then Some st else put_str wr m (s + 1) (putc wr (m s) st))"

text \<open>\<open>"(null)"\<close>\<close>

definition null_text :: "uchar list" where
  "null_text = [40, 110, 117, 108, 108, 41]"

definition put_str_or_null :: "'w wr \<Rightarrow> mem \<Rightarrow> uint \<Rightarrow> FILE option \<times> 'w \<Rightarrow> (FILE option \<times> 'w) option" where
  "put_str_or_null wr m s st = (if s = 0 then Some (fold (putc wr) null_text st) else put_str wr m s st)"

primrec put_strn :: "'w wr \<Rightarrow> mem \<Rightarrow> uint \<Rightarrow> nat \<Rightarrow> FILE option \<times> 'w \<Rightarrow> FILE option \<times> 'w" where
  "put_strn wr m s 0 st = st"
| "put_strn wr m s (Suc n) st = (if m s = 0 then st else put_strn wr m (s + 1) n (putc wr (m s) st))"

text \<open>
  The conversions that \<^verbatim>\<open>printf\<close> and \<^verbatim>\<open>fprintf\<close> share: the number of arguments used and the new state; \<^verbatim>\<open>default\<close> prints
  the percent sign and the character.
\<close>

definition conversion :: "'w wr \<Rightarrow> mem \<Rightarrow> uchar \<Rightarrow> uint \<Rightarrow> FILE option \<times> 'w \<Rightarrow> (nat \<times> (FILE option \<times> 'w)) option" where
  "conversion wr m c arg st =
     (if c = 100 then Some (1, uprintint wr arg 10 True st)
      else if c = 120 \<or> c = 112 then Some (1, uprintint wr arg 16 False st)
      else if c = 115 then map_option (Pair 1) (put_str_or_null wr m arg st)
      else if c = 99 then Some (1, putc wr (ucast arg) st)
      else if c = 37 then Some (0, putc wr 37 st)
      else Some (0, putc wr c (putc wr 37 st)))"

text \<open>The case \<^verbatim>\<open>'.'\<close> of \<^verbatim>\<open>printf\<close> at the address \<open>p\<close> of the point: characters and arguments used, new state.\<close>

definition precision_case ::
  "'w wr \<Rightarrow> mem \<Rightarrow> uint \<Rightarrow> va_list \<Rightarrow> nat \<Rightarrow> FILE option \<times> 'w \<Rightarrow> (nat \<times> nat \<times> (FILE option \<times> 'w)) option" where
  "precision_case wr m p va k st =
     (if m (p + 1) = 42 then
        (if m (p + 2) = 115 then
           (let precision = nat (sint (va k)); s = va (k + 1) in
            if s = 0 then Some (2, 2, fold (putc wr) (take precision null_text) st)
            else Some (2, 2, put_strn wr m s precision st))
         else Some (1, 1, st))
      else Some (0, 0, st))"

text \<open>One round of the loop of \<^verbatim>\<open>printf\<close>: the loop state is \<^verbatim>\<open>state\<close>, the address \<^verbatim>\<open>fmt + i\<close>, the arguments used, and the stream.\<close>

type_synonym 'w pf_state = "bool \<times> uint \<times> nat \<times> (FILE option \<times> 'w)"

definition printf_step :: "'w wr \<Rightarrow> mem \<Rightarrow> va_list \<Rightarrow> 'w pf_state \<Rightarrow> ((FILE option \<times> 'w) + 'w pf_state) option" where
  "printf_step wr m va = (\<lambda>(percent, p, k, st).
     let c = m p in
     if c = 0 then Some (Inl st)
     else if \<not> percent then
       Some (Inr (if c = 37 then (True, p + 1, k, st) else (False, p + 1, k, putc wr c st)))
     else if c = 46 then
       map_option (\<lambda>(n, used, st). Inr (False, p + of_nat n + 1, k + used, st)) (precision_case wr m p va k st)
     else
       map_option (\<lambda>(used, st). Inr (False, p + 1, k + used, st)) (conversion wr m c (va k) st))"

definition printf :: "'w wr \<Rightarrow> mem \<Rightarrow> uint \<Rightarrow> va_list \<Rightarrow> FILE \<times> 'w \<Rightarrow> (FILE option \<times> 'w) option" where
  "printf wr m fmt va = (\<lambda>(stdout, w). iterate (printf_step wr m va) (False, fmt, 0, (Some stdout, w)))"

text \<open>\<^verbatim>\<open>puts\<close> gives its argument to \<^verbatim>\<open>printf\<close> as the format; whatever words are on the stack are the arguments.\<close>

definition puts :: "'w wr \<Rightarrow> mem \<Rightarrow> uint \<Rightarrow> va_list \<Rightarrow> FILE \<times> 'w \<Rightarrow> (FILE option \<times> 'w) option" where
  "puts wr m str va st = printf wr m str va st"

definition fprintf_step :: "'w wr \<Rightarrow> mem \<Rightarrow> va_list \<Rightarrow> 'w pf_state \<Rightarrow> ((FILE option \<times> 'w) + 'w pf_state) option" where
  "fprintf_step wr m va = (\<lambda>(percent, p, k, st).
     let c = m p in
     if c = 0 then Some (Inl st)
     else if \<not> percent then
       Some (Inr (if c = 37 then (True, p + 1, k, st) else (False, p + 1, k, putc wr c st)))
     else
       map_option (\<lambda>(used, st). Inr (False, p + 1, k + used, st)) (conversion wr m c (va k) st))"

definition fprintf :: "'w wr \<Rightarrow> mem \<Rightarrow> uint \<Rightarrow> va_list \<Rightarrow> FILE option \<times> 'w \<Rightarrow> (FILE option \<times> 'w) option" where
  "fprintf wr m fmt va = (\<lambda>(stream, w).
     if stream = None then Some (stream, w) else iterate (fprintf_step wr m va) (False, fmt, 0, (stream, w)))"

subsection \<open>Formatting into memory\<close>

text \<open>
  The digits of \<^verbatim>\<open>%d\<close> and \<^verbatim>\<open>%x\<close> in the order they go into \<^verbatim>\<open>numbuf\<close>; the loop ends at once for a value that is not
  positive.
\<close>

function numbuf_loop :: "nat \<Rightarrow> nat \<Rightarrow> uchar list" where
  "numbuf_loop base val =
     (if base < 2 \<or> val = 0 then []
      else (let digit = val mod base in if digit < 10 then of_nat (48 + digit) else of_nat (97 + (digit - 10))) # numbuf_loop base (val div base))"
  by pat_completeness auto
termination
  by (relation "measure snd") auto

declare numbuf_loop.simps [simp del]

text \<open>\<^verbatim>\<open>val = -val\<close> leaves the least \<^verbatim>\<open>int\<close> as it is.\<close>

definition numbuf_d :: "uint \<Rightarrow> uchar list" where
  "numbuf_d val =
     (let neg = sint val < 0; val = sint (if neg then - val else val);
          buf = if val = 0 then [48] else numbuf_loop 10 (nat val) in
      if neg then buf @ [45] else buf)"

definition numbuf_x :: "uint \<Rightarrow> uchar list" where
  "numbuf_x val = (if val = 0 then [48] else numbuf_loop 16 (unat val))"

text \<open>\<^verbatim>\<open>if (i < size - 1) buf[i++] = c\<close>, and for \<^verbatim>\<open>sprintf\<close> without the test, on the memory and the index.\<close>

definition store :: "int option \<Rightarrow> uint \<Rightarrow> uchar \<Rightarrow> mem \<times> nat \<Rightarrow> mem \<times> nat" where
  "store sz buf c = (\<lambda>(m, i).
     case sz of
       None \<Rightarrow> (m(buf + of_nat i := c), i + 1)
     | Some n \<Rightarrow> if int i < n - 1 then (m(buf + of_nat i := c), i + 1) else (m, i))"

text \<open>The loop of \<^verbatim>\<open>%s\<close>.\<close>

partial_function (option) snprintf_str :: "int option \<Rightarrow> uint \<Rightarrow> uint \<Rightarrow> mem \<times> nat \<Rightarrow> (mem \<times> nat) option" where
  "snprintf_str sz buf s st =
     (case st of (m, i) \<Rightarrow>
        if m s \<noteq> 0 \<and> (case sz of None \<Rightarrow> True | Some n \<Rightarrow> int i < n - 1)
        then snprintf_str sz buf (s + 1) (store sz buf (m s) st) else Some st)"

text \<open>One round of the loop of \<^verbatim>\<open>snprintf\<close>, with \<^term>\<open>Some\<close> size, and of \<^verbatim>\<open>sprintf\<close>, with \<^term>\<open>None\<close>, which differ in the test only.\<close>

type_synonym sn_state = "uint \<times> nat \<times> (mem \<times> nat)"

definition snprintf_step :: "int option \<Rightarrow> uint \<Rightarrow> va_list \<Rightarrow> sn_state \<Rightarrow> ((mem \<times> nat) + sn_state) option" where
  "snprintf_step sz buf va = (\<lambda>(p, k, st).
     let c = fst st p in
     if c = 0 then Some (Inl st)
     else if c \<noteq> 37 then Some (Inr (p + 1, k, store sz buf c st))
     else
      (let c = fst st (p + 1) in
       if c = 0 then Some (Inl st)
       else if c = 100 then Some (Inr (p + 2, k + 1, fold (store sz buf) (rev (numbuf_d (va k))) st))
       else if c = 120 then Some (Inr (p + 2, k + 1, fold (store sz buf) (rev (numbuf_x (va k))) st))
       else if c = 115 then map_option (\<lambda>st. Inr (p + 2, k + 1, st)) (snprintf_str sz buf (va k) st)
       else if c = 99 then Some (Inr (p + 2, k + 1, store sz buf (ucast (va k)) st))
       else Some (Inr (p + 2, k, store sz buf c st))))"

definition snprintf :: "mem \<Rightarrow> uint \<Rightarrow> int \<Rightarrow> uint \<Rightarrow> va_list \<Rightarrow> (nat \<times> mem) option" where
  "snprintf m buf sz fmt va =
     map_option (\<lambda>(m, i). (i, m(buf + of_nat i := 0))) (iterate (snprintf_step (Some sz) buf va) (fmt, 0, (m, 0)))"

definition sprintf :: "mem \<Rightarrow> uint \<Rightarrow> uint \<Rightarrow> va_list \<Rightarrow> (nat \<times> mem) option" where
  "sprintf m buf fmt va =
     map_option (\<lambda>(m, i). (i, m(buf + of_nat i := 0))) (iterate (snprintf_step None buf va) (fmt, 0, (m, 0)))"

subsection \<open>Reading lines and words\<close>

text \<open>
  \<^verbatim>\<open>gets\<close>: the characters stored, at most \<open>n\<close>. A read that returns less than 1, the end of the input or an error, ends the
  line, as does a line feed or carriage return.
\<close>

primrec gets_loop :: "'w rd \<Rightarrow> nat \<Rightarrow> 'w \<Rightarrow> uchar list \<times> 'w" where
  "gets_loop rd 0 w = ([], w)"
| "gets_loop rd (Suc n) w =
     (case rd 0 1 w of (cc, bs, w) \<Rightarrow>
        if cc < 1 then ([], w)
        else
         (let c = hd bs in
          if c = 10 \<or> c = 13 then ([c], w) else (case gets_loop rd n w of (cs, w) \<Rightarrow> (c # cs, w))))"

definition gets :: "'w rd \<Rightarrow> mem \<Rightarrow> uint \<Rightarrow> int \<Rightarrow> 'w \<Rightarrow> mem \<times> 'w" where
  "gets rd m buf sz w = (case gets_loop rd (nat (sz - 1)) w of (cs, w) \<Rightarrow> (st_bytes m buf (cs @ [0]), w))"

text \<open>\<^verbatim>\<open>getchar\<close> returns a \<^verbatim>\<open>char\<close>: the end of the input is the character 255.\<close>

definition getchar :: "'w rd \<Rightarrow> 'w \<Rightarrow> uchar \<times> 'w" where
  "getchar rd w = (case rd 0 1 w of (n, bs, w) \<Rightarrow> if n = 1 then (hd bs, w) else (255, w))"

definition putchar :: "'w wr \<Rightarrow> int \<Rightarrow> 'w \<Rightarrow> int \<times> 'w" where
  "putchar wr c w = wr 1 [word_of_int c] w"

definition isatty :: "int \<Rightarrow> bool" where
  "isatty fd \<longleftrightarrow> fd \<ge> 0 \<and> fd \<le> 2"

text \<open>\<^verbatim>\<open>stat\<close> by name: what \<^verbatim>\<open>fstat\<close> returns for the open file.\<close>

definition stat_u :: "(uchar list \<Rightarrow> uint \<Rightarrow> 'w \<Rightarrow> int \<times> 'w) \<Rightarrow> (int \<Rightarrow> 'w \<Rightarrow> int \<times> 'st \<times> 'w) \<Rightarrow> (int \<Rightarrow> 'w \<Rightarrow> int \<times> 'w) \<Rightarrow> uchar list \<Rightarrow> 'st \<Rightarrow> 'w \<Rightarrow> int \<times> 'st \<times> 'w" where
  "stat_u open fstat close n st w =
     (case open n 0 w of (fd, w) \<Rightarrow>
        if fd < 0 then (- 1, st, w)
        else (case fstat fd w of (r, st, w) \<Rightarrow> (r, st, snd (close fd w))))"

definition scan_space :: "uchar \<Rightarrow> bool" where
  "scan_space c \<longleftrightarrow> c = 32 \<or> c = 9 \<or> c = 10 \<or> c = 13"

partial_function (option) skip_space :: "mem \<Rightarrow> uint \<Rightarrow> uint option" where
  "skip_space m p = (if scan_space (m p) then skip_space m (p + 1) else Some p)"

partial_function (option) scan_word :: "mem \<Rightarrow> uint \<Rightarrow> uint \<Rightarrow> nat \<Rightarrow> (mem \<times> uint \<times> nat) option" where
  "scan_word m dest p len =
     (if m p \<noteq> 0 \<and> \<not> scan_space (m p) then scan_word (m(dest := m p)) (dest + 1) (p + 1) (len + 1)
      else Some (m(dest := 0), p, len))"

partial_function (option) skip_digits :: "mem \<Rightarrow> uint \<Rightarrow> uint option" where
  "skip_digits m p = (if 48 \<le> m p \<and> m p \<le> 57 then skip_digits m (p + 1) else Some p)"

text \<open>\<^verbatim>\<open>%d\<close>: \<^verbatim>\<open>atoi\<close> is given the start of the token, sign included; \<^term>\<open>None\<close> inside is a failed match.\<close>

definition scan_int :: "mem \<Rightarrow> uint \<Rightarrow> uint \<Rightarrow> (mem \<times> uint) option option" where
  "scan_int m dest p =
     Option.bind (skip_space m p) (\<lambda>start.
       let q = if m start = 45 \<or> m start = 43 then start + 1 else start in
       if 48 \<le> m q \<and> m q \<le> 57 then
         Option.bind (atoi m start) (\<lambda>v.
           map_option (\<lambda>e. Some (st32 m dest (word_of_int v), e)) (skip_digits m q))
       else Some None)"

text \<open>
  One round of the matching loop of \<^verbatim>\<open>scanf\<close>: the memory, the places in the format and in the line, the arguments used and
  the items assigned; the loop ends with the items and the memory.
\<close>

type_synonym sc_state = "mem \<times> uint \<times> uint \<times> nat \<times> nat"

definition scanf_step :: "va_list \<Rightarrow> sc_state \<Rightarrow> ((nat \<times> mem) + sc_state) option" where
  "scanf_step va = (\<lambda>(m, f, input, k, items).
     if m f = 0 then Some (Inl (items, m))
     else if m f = 32 \<or> m f = 9 \<or> m f = 10 then map_option (\<lambda>input. Inr (m, f + 1, input, k, items)) (skip_space m input)
     else if m f \<noteq> 37 then
       Some (if m input = m f then Inr (m, f + 1, input + 1, k, items) else Inl (items, m))
     else if m (f + 1) = 115 then
       Option.bind (skip_space m input) (\<lambda>input.
         map_option (\<lambda>(m, input, len). Inr (m, f + 2, input, k + 1, if len > 0 then items + 1 else items))
           (scan_word m (va k) input 0))
     else if m (f + 1) = 100 then
       map_option (\<lambda>r. case r of None \<Rightarrow> Inl (items, m) | Some (m, input) \<Rightarrow> Inr (m, f + 2, input, k + 1, items + 1))
         (scan_int m (va k) input)
     else Some (Inl (items, m)))"

text \<open>\<^verbatim>\<open>gets\<close> never returns a null pointer; \<^verbatim>\<open>buf\<close>, of 500 bytes, is on the stack at address \<open>buf\<close>.\<close>

definition scanf :: "'w rd \<Rightarrow> mem \<Rightarrow> uint \<Rightarrow> va_list \<Rightarrow> uint \<Rightarrow> 'w \<Rightarrow> ((nat \<times> mem) \<times> 'w) option" where
  "scanf rd m fmt va buf w =
     (case gets rd m buf 500 w of (m, w) \<Rightarrow> map_option (\<lambda>r. (r, w)) (iterate (scanf_step va) (m, fmt, buf, 0, 0)))"

subsection \<open>Files\<close>

text \<open>The flags for a mode; \<^verbatim>\<open>strcmp\<close> returns 0 for equal strings only.\<close>

definition fopen_flags :: "uchar list \<Rightarrow> uint" where
  "fopen_flags mode =
     (if mode = [114] then 0 else if mode = [119] then 0x001 OR 0x200 else if mode = [114, 119] then 0x002 OR 0x200 else 0)"

text \<open>The result of \<^verbatim>\<open>malloc\<close> is used without a test; the memory it returns is not cleared.\<close>

definition fopen ::
  "(uchar list \<Rightarrow> uint \<Rightarrow> 'w \<Rightarrow> int \<times> 'w) \<Rightarrow> ('w \<Rightarrow> (uchar list \<times> 'w) option) \<Rightarrow> uchar list \<Rightarrow> uchar list \<Rightarrow> 'w \<Rightarrow> (FILE option \<times> 'w) res" where
  "fopen open malloc path mode w =
     (case open path (fopen_flags mode) w of (fd, w) \<Rightarrow>
        if fd < 0 then Inr (None, w)
        else
          (case malloc w of
             None \<Rightarrow> Inl (BadAccess ''FILE'')
           | Some (old, w) \<Rightarrow>
               Inr (Some \<lparr>f_fd = fd, f_buf = old, f_bufpos = 0, f_buflen = 0, f_flags = 0, f_pos = 0\<rparr>, w)))"

text \<open>\<^verbatim>\<open>fread\<close> and \<^verbatim>\<open>fwrite\<close>; the product of the sizes wraps. A null buffer or stream is \<^term>\<open>None\<close>.\<close>

definition fread :: "'w rd \<Rightarrow> bool \<Rightarrow> int \<Rightarrow> int \<Rightarrow> FILE option \<Rightarrow> 'w \<Rightarrow> int \<times> uchar list \<times> FILE option \<times> 'w" where
  "fread rd ptr_null sz nmemb stream w =
     (case stream of
        None \<Rightarrow> (0, [], None, w)
      | Some f \<Rightarrow>
          if ptr_null \<or> sz = 0 \<or> nmemb = 0 then (0, [], Some f, w)
          else
            (case rd (f_fd f) (sint (word_of_int (sz * nmemb) :: uint)) w of (n, bs, w) \<Rightarrow>
               if n < 0 then (0, bs, Some f, w)
               else (cdiv n sz, bs, Some (f\<lparr>f_pos := f_pos f + n\<rparr>), w)))"

definition fwrite :: "'w wr \<Rightarrow> uchar list option \<Rightarrow> int \<Rightarrow> int \<Rightarrow> FILE option \<Rightarrow> 'w \<Rightarrow> int \<times> FILE option \<times> 'w" where
  "fwrite wr ptr sz nmemb stream w =
     (case (ptr, stream) of
        (Some bs, Some f) \<Rightarrow>
          if sz = 0 \<or> nmemb = 0 then (0, stream, w)
          else
            (case wr (f_fd f) (take (nat (sint (word_of_int (sz * nmemb) :: uint))) bs) w of (n, w) \<Rightarrow>
               if n < 0 then (0, stream, w) else (cdiv n sz, Some (f\<lparr>f_pos := f_pos f + n\<rparr>), w))
      | _ \<Rightarrow> (0, stream, w))"

text \<open>\<^verbatim>\<open>fclose\<close> closes the descriptor; the stream is not freed.\<close>

definition fclose :: "(int \<Rightarrow> 'w \<Rightarrow> int \<times> 'w) \<Rightarrow> FILE \<Rightarrow> 'w \<Rightarrow> int \<times> 'w" where
  "fclose close f w = (0, snd (close (f_fd f) w))"

definition fputs :: "'w wr \<Rightarrow> uchar list option \<Rightarrow> FILE option \<Rightarrow> 'w \<Rightarrow> int \<times> 'w" where
  "fputs wr s stream w =
     (case (s, stream) of
        (Some s, Some f) \<Rightarrow> (case wr (f_fd f) s w of (written, w) \<Rightarrow> if written < 0 then (- 1, w) else (0, w))
      | _ \<Rightarrow> (- 1, w))"

definition ferror :: "FILE option \<Rightarrow> bool" where
  "ferror stream \<longleftrightarrow> (case stream of None \<Rightarrow> True | Some f \<Rightarrow> f_flags f AND FILE_ERR \<noteq> 0)"

definition clearerr :: "FILE option \<Rightarrow> FILE option" where
  "clearerr stream = map_option (\<lambda>f. f\<lparr>f_flags := f_flags f AND NOT (FILE_ERR OR FILE_EOF)\<rparr>) stream"

definition fileno :: "FILE option \<Rightarrow> int" where
  "fileno stream = (case stream of None \<Rightarrow> - 1 | Some f \<Rightarrow> f_fd f)"

definition setvbuf :: "FILE option \<Rightarrow> int" where
  "setvbuf stream = 0"

text \<open>\<^verbatim>\<open>fgets\<close> counts twice for every character: in the body and in the head of the loop.\<close>

function fgets_loop :: "'w rd \<Rightarrow> int \<Rightarrow> uint \<Rightarrow> int \<Rightarrow> mem \<Rightarrow> int \<Rightarrow> 'w \<Rightarrow> mem \<times> int \<times> 'w" where
  "fgets_loop rd fd buf sz m i w =
     (if i < sz - 1 then
        (case rd fd 1 w of (n, bs, w) \<Rightarrow>
           if n < 1 then (m, i, w)
           else
            (let m = m(buf + word_of_int i := hd bs) in
             if hd bs = 10 then (m, i + 1, w) else fgets_loop rd fd buf sz m (i + 2) w))
      else (m, i, w))"
  by pat_completeness auto
termination
  by (relation "measure (\<lambda>(rd, fd, buf, sz, m, i, w). nat (sz - i))") auto

declare fgets_loop.simps [simp del]

definition fgets :: "'w rd \<Rightarrow> mem \<Rightarrow> uint \<Rightarrow> int \<Rightarrow> FILE \<Rightarrow> 'w \<Rightarrow> uint \<times> mem \<times> 'w" where
  "fgets rd m buf sz f w =
     (case fgets_loop rd (f_fd f) buf sz m 0 w of (m, i, w) \<Rightarrow>
        (if i = 0 then 0 else buf, m(buf + word_of_int i := 0), w))"

text \<open>\<^verbatim>\<open>getc\<close> refills the buffer when all of it has been delivered.\<close>

definition getc :: "'w rd \<Rightarrow> FILE option \<Rightarrow> 'w \<Rightarrow> int \<times> FILE option \<times> 'w" where
  "getc rd stream w =
     (case stream of
        None \<Rightarrow> (0, None, w)
      | Some f \<Rightarrow>
          (case if f_bufpos f \<ge> f_buflen f then
                  (case rd (f_fd f) (int BUFSIZ) w of (n, bs, w) \<Rightarrow>
                     if n < 0 then (Some (f\<lparr>f_flags := f_flags f OR FILE_ERR\<rparr>), False, w)
                     else if n = 0 then (Some (f\<lparr>f_flags := f_flags f OR FILE_EOF\<rparr>), False, w)
                     else (Some (f\<lparr>f_buf := bs @ drop (length bs) (f_buf f), f_buflen := n, f_bufpos := 0\<rparr>), True, w))
                else (Some f, True, w) of
             (Some f, True, w) \<Rightarrow>
               (uint (f_buf f ! nat (f_bufpos f)), Some (f\<lparr>f_bufpos := f_bufpos f + 1\<rparr>), w)
           | (f, _, w) \<Rightarrow> (- 1, f, w)))"

subsection \<open>Options of a command\<close>

record opt_st =
  sp :: nat
  optind :: nat
  optarg :: "uchar list option"
  optopt :: int

text \<open>The character of an argument at an index; the terminating zero behind its last one.\<close>

definition char_at :: "uchar list \<Rightarrow> nat \<Rightarrow> uchar" where
  "char_at s k = (if k < length s then s ! k else 0)"

text \<open>
  \<^verbatim>\<open>getopt\<close>: the result and the new state; the messages it prints are left out. \<^verbatim>\<open>cp\<close> is the place of the option in
  \<^verbatim>\<open>opts\<close>.
\<close>

definition getopt_next :: "uchar list list \<Rightarrow> opt_st \<Rightarrow> opt_st" where
  "getopt_next argv s =
     (if char_at (argv ! optind s) (sp s + 1) = 0 then s\<lparr>sp := 1, optind := optind s + 1\<rparr> else s\<lparr>sp := sp s + 1\<rparr>)"

definition getopt_opt :: "uchar list list \<Rightarrow> uchar list \<Rightarrow> opt_st \<Rightarrow> int \<times> opt_st" where
  "getopt_opt argv opts s =
     (let c = char_at (argv ! optind s) (sp s); s = s\<lparr>optopt := sint c\<rparr> in
      if c = 58 \<or> c \<notin> set opts then (63, getopt_next argv s)
      else if char_at opts (length (takeWhile (\<lambda>x. x \<noteq> c) opts) + 1) = 58 then
        (if char_at (argv ! optind s) (sp s + 1) \<noteq> 0 then
           (sint c, s\<lparr>optarg := Some (drop (sp s + 1) (argv ! optind s)), optind := optind s + 1, sp := 1\<rparr>)
         else
          (let s = s\<lparr>optind := optind s + 1\<rparr> in
           if optind s \<ge> length argv then (63, s\<lparr>sp := 1\<rparr>)
           else (sint c, s\<lparr>optarg := Some (argv ! optind s), optind := optind s + 1, sp := 1\<rparr>)))
      else (sint c, (getopt_next argv s)\<lparr>optarg := None\<rparr>))"

definition getopt :: "uchar list list \<Rightarrow> uchar list \<Rightarrow> opt_st \<Rightarrow> int \<times> opt_st" where
  "getopt argv opts s =
     (if sp s = 1 \<and> (optind s \<ge> length argv \<or> char_at (argv ! optind s) 0 \<noteq> 45 \<or> char_at (argv ! optind s) 1 = 0) then (- 1, s)
      else if sp s = 1 \<and> argv ! optind s = [45, 45] then (- 1, s\<lparr>optind := optind s + 1\<rparr>)
      else getopt_opt argv opts s)"

section \<open>Lemmas\<close>

subsection \<open>Digits\<close>

lemma digit_char: "d < 10 \<Longrightarrow> digit_in 10 (of_nat (48 + d)) \<and> digit (of_nat (48 + d)) = int d"
proof -
  assume "d < 10"
  then have "uint (of_nat (48 + d) :: uchar) = 48 + int d"
    by (simp add: uint_nat unat_of_nat del: of_nat_add)
  then show ?thesis using \<open>d < 10\<close> by (simp add: digit_in_def digit_def digit_value_def del: of_nat_add)
qed

lemma number_append: "number base a (xs @ ys) = number base (number base a xs) ys"
  by (simp add: number_def)

text \<open>The digits that \<^verbatim>\<open>snprintf\<close> makes, read from the last to the first, are the number.\<close>

lemma numbuf_loop_10:
  "set (numbuf_loop 10 n) \<subseteq> {b. digit_in 10 b} \<and> number 10 0 (rev (numbuf_loop 10 n)) = int n"
proof (induction n rule: less_induct)
  case (less n)
  show ?case
  proof (cases "n = 0")
    case True
    then show ?thesis by (simp add: numbuf_loop.simps)
  next
    case False
    have d: "digit_in 10 (of_nat (48 + n mod 10))" "digit (of_nat (48 + n mod 10)) = int (n mod 10)"
      using digit_char [of "n mod 10"] by auto
    have e: "numbuf_loop 10 n = of_nat (48 + n mod 10) # numbuf_loop 10 (n div 10)"
      using False by (subst numbuf_loop.simps) (simp add: Let_def)
    have "n div 10 < n" using False by simp
    note IH = less.IH [OF this]
    have "int (n div 10) * 10 + int (n mod 10) = int n" by (simp add: zdiv_int zmod_int)
    then show ?thesis unfolding e using IH d by (simp add: number_append del: of_nat_add)
  qed
qed

lemma numbuf_loop_Nil: "numbuf_loop 10 n = [] \<longleftrightarrow> n = 0"
  by (subst numbuf_loop.simps) simp

text \<open>The text of \<^verbatim>\<open>%d\<close>: a sign and digits whose value is the number; only the least \<^verbatim>\<open>int\<close> has no digits.\<close>

lemma numbuf_d_text:
  assumes "sint v \<noteq> LONG_MIN"
  obtains bs where "rev (numbuf_d v) = (if sint v < 0 then [45] else []) @ bs" and "bs \<noteq> []" and "\<forall>b\<in>set bs. digit_in 10 b"
    and "number 10 0 bs = \<bar>sint v\<bar>"
proof -
  have neg: "sint (- v) = - sint v" if "sint v < 0"
  proof -
    have r: "- 2147483648 \<le> sint v" "sint v < 2147483648" using sint_range_size [of v] by (simp_all add: word_size)
    have "sint (- v) = signed_take_bit 31 (- sint v)" by (simp add: sint_word_ariths)
    also have "\<dots> = - sint v" by (rule signed_take_bit_int_eq_self) (use r assms that in auto)
    finally show ?thesis .
  qed
  let ?n = "nat \<bar>sint v\<bar>"
  have z: "digit_in 10 48" "digit 48 = 0" using digit_char [of 0] by auto
  show thesis
  proof (rule that [of "rev (if sint v = 0 then [48] else numbuf_loop 10 ?n)"])
    show "rev (numbuf_d v) = (if sint v < 0 then [45] else []) @ rev (if sint v = 0 then [48] else numbuf_loop 10 ?n)"
      using neg by (auto simp: numbuf_d_def Let_def)
    show "rev (if sint v = 0 then [48] else numbuf_loop 10 ?n) \<noteq> []" by (simp add: numbuf_loop_Nil)
    show "\<forall>b\<in>set (rev (if sint v = 0 then [48] else numbuf_loop 10 ?n)). digit_in 10 b" using numbuf_loop_10 [of ?n] z by auto
    show "number 10 0 (rev (if sint v = 0 then [48] else numbuf_loop 10 ?n)) = \<bar>sint v\<bar>" using numbuf_loop_10 [of ?n] z by auto
  qed
qed

text \<open>\<^verbatim>\<open>snprintf("%d", INT_MIN)\<close> is a sign and nothing else.\<close>

lemma numbuf_d_least: "sint v = LONG_MIN \<Longrightarrow> numbuf_d v = [45]"
proof -
  assume v: "sint v = LONG_MIN"
  have "v = word_of_int (sint v)" by simp
  then have "v = word_of_int LONG_MIN" unfolding v .
  then show ?thesis by (simp add: numbuf_d_def Let_def numbuf_loop.simps)
qed

subsection \<open>The text of a format\<close>

text \<open>
  What a format string, its arguments and the strings they point to denote; and the arguments that are strings.
\<close>

fun text_of :: "va_list \<Rightarrow> (nat \<Rightarrow> uchar list) \<Rightarrow> uchar list \<Rightarrow> nat \<Rightarrow> uchar list" where
  "text_of va strs [] k = []"
| "text_of va strs [c] k = (if c = 37 then [] else [c])"
| "text_of va strs (c # d # fs) k =
     (if c \<noteq> 37 then c # text_of va strs (d # fs) k
      else if d = 100 then rev (numbuf_d (va k)) @ text_of va strs fs (k + 1)
      else if d = 120 then rev (numbuf_x (va k)) @ text_of va strs fs (k + 1)
      else if d = 115 then strs k @ text_of va strs fs (k + 1)
      else if d = 99 then ucast (va k) # text_of va strs fs (k + 1)
      else d # text_of va strs fs k)"

fun str_args :: "uchar list \<Rightarrow> nat \<Rightarrow> nat set" where
  "str_args [] k = {}"
| "str_args [c] k = {}"
| "str_args (c # d # fs) k =
     (if c \<noteq> 37 then str_args (d # fs) k
      else if d = 115 then insert k (str_args fs (k + 1))
      else if d = 100 \<or> d = 120 \<or> d = 99 then str_args fs (k + 1)
      else str_args fs k)"

text \<open>What of a text goes into the buffer, and the state of the loops when it is there.\<close>

definition cut :: "int option \<Rightarrow> uchar list \<Rightarrow> uchar list" where
  "cut sz cs = (case sz of None \<Rightarrow> cs | Some n \<Rightarrow> take (nat (n - 1)) cs)"

definition stored :: "mem \<Rightarrow> uint \<Rightarrow> int option \<Rightarrow> uchar list \<Rightarrow> mem \<times> nat" where
  "stored m buf sz cs = (st_bytes m buf (cut sz cs), length (cut sz cs))"

lemma store_stored: "store sz buf c (stored m buf sz cs) = stored m buf sz (cs @ [c])"
proof (cases sz)
  case None
  then show ?thesis by (simp add: store_def stored_def cut_def st_bytes_append)
next
  case (Some n)
  show ?thesis
  proof (cases "length cs < nat (n - 1)")
    case True
    then show ?thesis using Some by (simp add: store_def stored_def cut_def st_bytes_append min_absorb2)
  next
    case False
    then have "take (nat (n - 1)) (cs @ [c]) = take (nat (n - 1)) cs" "\<not> int (length (take (nat (n - 1)) cs)) < n - 1" by auto
    then show ?thesis using Some by (simp add: store_def stored_def cut_def)
  qed
qed

lemma fold_stored: "fold (store sz buf) ds (stored m buf sz cs) = stored m buf sz (cs @ ds)"
  by (induction ds arbitrary: cs) (simp_all add: store_stored)

text \<open>Memory that is not part of what the buffer takes of the whole text is read as it was.\<close>

definition clear_of :: "uint \<Rightarrow> int option \<Rightarrow> uchar list \<Rightarrow> uint \<Rightarrow> uchar list \<Rightarrow> bool" where
  "clear_of buf sz out a cs \<longleftrightarrow> area buf (length (cut sz out)) \<inter> area a (Suc (length cs)) = {}"

lemma cut_prefix: "length (cut sz cs) \<le> length (cut sz (cs @ ds))"
  by (cases sz) (auto simp: cut_def)

lemma stored_str_at:
  assumes "str_at m a cs" and "clear_of buf sz (xs @ ys) a cs"
  shows "str_at (fst (stored m buf sz xs)) a cs"
proof -
  have "area buf (length (cut sz xs)) \<subseteq> area buf (length (cut sz (xs @ ys)))" by (rule area_mono [OF cut_prefix])
  then show ?thesis using assms unfolding stored_def clear_of_def fst_conv by (intro str_at_frame) auto
qed

lemma snprintf_str_ok:
  "str_at m s cs \<Longrightarrow> clear_of buf sz (xs @ cs @ ys) s cs \<Longrightarrow>
    snprintf_str sz buf s (stored m buf sz xs) = Some (stored m buf sz (xs @ cs))"
proof (induction cs arbitrary: s xs)
  case Nil
  have "fst (stored m buf sz xs) s = 0" using stored_str_at [OF Nil.prems(1), of buf sz xs ys] Nil.prems(2) by simp
  then show ?case by (subst snprintf_str.simps) (auto split: prod.split)
next
  case (Cons c cs)
  have h: "fst (stored m buf sz xs) s = c" "c \<noteq> 0" using stored_str_at [OF Cons.prems(1), of buf sz xs "(c # cs) @ ys"] Cons.prems(2) by auto
  have r: "str_at m (s + 1) cs" "clear_of buf sz ((xs @ [c]) @ cs @ ys) (s + 1) cs"
    using Cons.prems by (auto simp: clear_of_def area_Suc [of s])
  have full: "stored m buf sz (xs @ c # cs) = stored m buf sz xs" if "sz = Some n" "\<not> int (length (cut sz xs)) < n - 1" for n
  proof -
    have "nat (n - 1) \<le> length xs" using that by (auto simp: cut_def)
    then show ?thesis using that(1) by (simp add: stored_def cut_def)
  qed
  show ?case
  proof (cases "\<exists>n. sz = Some n \<and> \<not> int (length (cut sz xs)) < n - 1")
    case True
    then obtain n where n: "sz = Some n" "\<not> int (length (cut sz xs)) < n - 1" by blast
    then show ?thesis unfolding full [OF n] by (subst snprintf_str.simps) (simp add: stored_def)
  next
    case False
    then have "snprintf_str sz buf s (stored m buf sz xs) = snprintf_str sz buf (s + 1) (store sz buf c (stored m buf sz xs))"
      using h by (subst snprintf_str.simps) (auto simp: stored_def split: option.split)
    also have "\<dots> = Some (stored m buf sz ((xs @ [c]) @ cs))" unfolding store_stored by (rule Cons.IH [OF r])
    finally show ?thesis by simp
  qed
qed

lemma snprintf_run_ok:
  assumes "str_at m p fs" and "clear_of buf sz (xs @ text_of va strs fs k) p fs"
    and "\<forall>j\<in>str_args fs k. str_at m (va j) (strs j) \<and> clear_of buf sz (xs @ text_of va strs fs k) (va j) (strs j)"
  shows "iterate (snprintf_step sz buf va) (p, k, stored m buf sz xs) = Some (stored m buf sz (xs @ text_of va strs fs k))"
  using assms
proof (induction va strs fs k arbitrary: p xs rule: text_of.induct)
  case (1 va strs k)
  have "fst (stored m buf sz xs) p = 0" using stored_str_at [OF "1.prems"(1), of buf sz xs "[]"] "1.prems"(2) by simp
  then show ?case by (intro iterate_end [THEN trans]) (auto simp: snprintf_step_def)
next
  case (2 va strs c k)
  have h: "fst (stored m buf sz xs) p = c" "c \<noteq> 0" "fst (stored m buf sz xs) (p + 1) = 0"
    using stored_str_at [OF "2.prems"(1,2)] by auto
  show ?case
  proof (cases "c = 37")
    case True
    then show ?thesis using h by (intro iterate_end [THEN trans]) (auto simp: snprintf_step_def)
  next
    case False
    have "iterate (snprintf_step sz buf va) (p, k, stored m buf sz xs) = iterate (snprintf_step sz buf va) (p + 1, k, stored m buf sz (xs @ [c]))"
      using h False by (intro iterate_next) (simp add: snprintf_step_def store_stored Let_def)
    moreover have "str_at m (p + 1) []" "clear_of buf sz ((xs @ [c]) @ []) (p + 1) []"
      using "2.prems"(1,2) False by (auto simp: clear_of_def area_Suc [of p])
    then have "fst (stored m buf sz (xs @ [c])) (p + 1) = 0" using stored_str_at [of m "p + 1" "[]" buf sz "xs @ [c]" "[]"] by simp
    then have "iterate (snprintf_step sz buf va) (p + 1, k, stored m buf sz (xs @ [c])) = Some (stored m buf sz (xs @ [c]))"
      by (intro iterate_end) (simp add: snprintf_step_def)
    ultimately show ?thesis using False by simp
  qed
next
  case (3 va strs c d fs k)
  note S = "3.prems"
  have h: "fst (stored m buf sz xs) p = c" "c \<noteq> 0" "fst (stored m buf sz xs) (p + 1) = d" "d \<noteq> 0"
    using stored_str_at [OF S(1,2)] by auto
  have p1: "str_at m (p + 1) (d # fs)" "str_at m (p + 2) fs" using S(1) by (auto simp: add.assoc)
  have clr: "clear_of buf sz out (p + 1) (d # fs) \<and> clear_of buf sz out (p + 2) fs" if "clear_of buf sz out p (c # d # fs)" for out
    using that by (auto simp: clear_of_def area_Suc [of p] area_Suc [of "p + 1"] add.assoc)
  have go: "iterate (snprintf_step sz buf va) (p, k, stored m buf sz xs) = Some (stored m buf sz (xs @ text_of va strs (c # d # fs) k))"
    if "snprintf_step sz buf va (p, k, stored m buf sz xs) = Some (Inr (q, j, stored m buf sz (xs @ ys)))"
      and "iterate (snprintf_step sz buf va) (q, j, stored m buf sz (xs @ ys)) = Some (stored m buf sz ((xs @ ys) @ zs))"
      and "ys @ zs = text_of va strs (c # d # fs) k" for q j ys zs
    using iterate_next [of "snprintf_step sz buf va", OF that(1)] that(2,3) by (metis append.assoc)
  consider "c \<noteq> 37" | "c = 37" "d = 100" | "c = 37" "d = 120" | "c = 37" "d = 115" | "c = 37" "d = 99"
    | "c = 37" "d \<noteq> 100" "d \<noteq> 120" "d \<noteq> 115" "d \<noteq> 99" by blast
  then show ?case
  proof cases
    case 1
    show ?thesis
      by (rule go [of "p + 1" k "[c]" "text_of va strs (d # fs) k"])
        (use 1 h S clr p1 "3.IH"(1) [OF 1 p1(1), of "xs @ [c]"] in \<open>simp_all add: snprintf_step_def store_stored Let_def\<close>)
  next
    case 2
    show ?thesis
      by (rule go [of "p + 2" "k + 1" "rev (numbuf_d (va k))" "text_of va strs fs (k + 1)"])
        (use 2 h S clr p1 "3.IH"(2) [OF _ 2(2) p1(2), of "xs @ rev (numbuf_d (va k))"] in \<open>simp_all add: snprintf_step_def fold_stored Let_def\<close>)
  next
    case 3
    show ?thesis
      by (rule go [of "p + 2" "k + 1" "rev (numbuf_x (va k))" "text_of va strs fs (k + 1)"])
        (use 3 h S clr p1 "3.IH"(3) [OF _ _ 3(2) p1(2), of "xs @ rev (numbuf_x (va k))"] in \<open>simp_all add: snprintf_step_def fold_stored Let_def\<close>)
  next
    case 4
    have "snprintf_str sz buf (va k) (stored m buf sz xs) = Some (stored m buf sz (xs @ strs k))"
      by (rule snprintf_str_ok [where ys = "text_of va strs fs (k + 1)"]) (use S(3) 4 in auto)
    then show ?thesis
      by (intro go [of "p + 2" "k + 1" "strs k" "text_of va strs fs (k + 1)"])
        (use 4 h S clr p1 "3.IH"(4) [OF _ _ _ 4(2) p1(2), of "xs @ strs k"] in \<open>simp_all add: snprintf_step_def Let_def\<close>)
  next
    case 5
    show ?thesis
      by (rule go [of "p + 2" "k + 1" "[ucast (va k)]" "text_of va strs fs (k + 1)"])
        (use 5 h S clr p1 "3.IH"(5) [OF _ _ _ _ 5(2) p1(2), of "xs @ [ucast (va k)]"] in \<open>simp_all add: snprintf_step_def store_stored Let_def\<close>)
  next
    case 6
    show ?thesis
      by (rule go [of "p + 2" k "[d]" "text_of va strs fs k"])
        (use 6 h S clr p1 "3.IH"(6) [OF _ _ _ _ _ p1(2), of "xs @ [d]"] in \<open>simp_all add: snprintf_step_def store_stored Let_def\<close>)
  qed
qed

text \<open>Both printers store the text of the format, cut to the buffer, with a zero behind it.\<close>

lemma snprintf_ok:
  assumes "str_at m fmt fs" and "clear_of buf (Some sz) (text_of va strs fs 0) fmt fs"
    and "\<forall>j\<in>str_args fs 0. str_at m (va j) (strs j) \<and> clear_of buf (Some sz) (text_of va strs fs 0) (va j) (strs j)"
  shows "snprintf m buf sz fmt va =
    (let out = take (nat (sz - 1)) (text_of va strs fs 0) in Some (length out, st_bytes m buf (out @ [0])))"
proof -
  have "stored m buf (Some sz) [] = (m, 0)" by (simp add: stored_def cut_def)
  then show ?thesis
    using snprintf_run_ok [of m fmt fs buf "Some sz" "[]" va strs 0] assms
    by (simp add: snprintf_def stored_def cut_def st_bytes_append Let_def)
qed

lemma sprintf_ok:
  assumes "str_at m fmt fs" and "clear_of buf None (text_of va strs fs 0) fmt fs"
    and "\<forall>j\<in>str_args fs 0. str_at m (va j) (strs j) \<and> clear_of buf None (text_of va strs fs 0) (va j) (strs j)"
  shows "sprintf m buf fmt va = (let out = text_of va strs fs 0 in Some (length out, st_bytes m buf (out @ [0])))"
proof -
  have "stored m buf None [] = (m, 0)" by (simp add: stored_def cut_def)
  then show ?thesis
    using snprintf_run_ok [of m fmt fs buf None "[]" va strs 0] assms
    by (simp add: sprintf_def stored_def cut_def st_bytes_append Let_def)
qed

text \<open>Whatever its arguments, \<^verbatim>\<open>snprintf\<close> writes its buffer only.\<close>

definition inside :: "mem \<Rightarrow> uint \<Rightarrow> int \<Rightarrow> mem \<times> nat \<Rightarrow> bool" where
  "inside m buf sz = (\<lambda>(m', i). int i \<le> max 0 (sz - 1) \<and> (\<forall>x. x \<notin> area buf i \<longrightarrow> m' x = m x))"

lemma inside_store: "inside m buf sz st \<Longrightarrow> inside m buf sz (store (Some sz) buf c st)"
proof (cases st)
  case (Pair m' i)
  assume a: "inside m buf sz st"
  have "area buf i \<subseteq> area buf (Suc i)" by (rule area_mono) simp
  moreover have "buf + of_nat i \<in> area buf (Suc i)" by (auto simp: area_def)
  ultimately show ?thesis using a Pair by (auto simp: inside_def store_def)
qed

lemma inside_fold: "inside m buf sz st \<Longrightarrow> inside m buf sz (fold (store (Some sz) buf) cs st)"
proof (induction cs arbitrary: st)
  case Nil
  then show ?case by simp
next
  case (Cons c cs)
  then show ?case using inside_store by (simp only: fold_simps)
qed

lemma inside_str:
  assumes "snprintf_str (Some sz) buf s st = Some st'" and "inside m buf sz st"
  shows "inside m buf sz st'"
proof -
  have "Some sz = Some sz \<longrightarrow> inside m buf sz st \<longrightarrow> inside m buf sz st'"
  proof (rule snprintf_str.raw_induct [of "\<lambda>z b s st st'. z = Some sz \<longrightarrow> inside m b sz st \<longrightarrow> inside m b sz st'", OF _ assms(1)])
    fix f z b s st y
    assume IH: "\<And>z b s st y. f z b s st = Some y \<Longrightarrow> z = Some sz \<longrightarrow> inside m b sz st \<longrightarrow> inside m b sz y"
      and y: "(case st of (m, i) \<Rightarrow> if m s \<noteq> 0 \<and> (case z of None \<Rightarrow> True | Some n \<Rightarrow> int i < n - 1)
        then f z b (s + 1) (store z b (m s) st) else Some st) = Some y"
    show "z = Some sz \<longrightarrow> inside m b sz st \<longrightarrow> inside m b sz y"
    proof (intro impI)
      assume z: "z = Some sz" and st: "inside m b sz st"
      obtain m' i where e: "st = (m', i)" by (cases st)
      from y e consider "y = st" | "f z b (s + 1) (store z b (m' s) st) = Some y" by (auto split: if_splits)
      then show "inside m b sz y" using st IH inside_store z by cases blast+
    qed
  qed
  then show ?thesis using assms(2) by blast
qed

lemma inside_step:
  assumes "inside m buf sz st"
  shows "snprintf_step (Some sz) buf va (p, k, st) = Some (Inr (q, j, st')) \<Longrightarrow> inside m buf sz st'"
    and "snprintf_step (Some sz) buf va (p, k, st) = Some (Inl st') \<Longrightarrow> inside m buf sz st'"
  using assms inside_store [OF assms] inside_fold [OF assms] inside_str [OF _ assms]
  by (auto simp: snprintf_step_def Let_def split: if_splits)

lemma snprintf_inside:
  assumes "snprintf m buf sz fmt va = Some (n, m')" and "0 < sz"
  shows "int n < sz" and "m' (buf + of_nat n) = 0" and "\<And>x. x \<notin> area buf (nat sz) \<Longrightarrow> m' x = m x"
proof -
  from assms(1) obtain t where t: "iterate (snprintf_step (Some sz) buf va) (fmt, 0, (m, 0)) = Some (t, n)"
    and m': "m' = t(buf + of_nat n := 0)" by (auto simp: snprintf_def)
  have "inside m buf sz (t, n)"
  proof (rule iterate_invariant [where P = "\<lambda>s. inside m buf sz (snd (snd s))" and Q = "inside m buf sz", OF t])
    show "inside m buf sz (snd (snd (fmt, 0 :: nat, m, 0)))" by (simp add: inside_def)
    show "inside m buf sz (snd (snd s'))"
      if "inside m buf sz (snd (snd s))" "snprintf_step (Some sz) buf va s = Some (Inr s')" for s s'
      by (rule inside_step(1) [OF that(1), of va "fst s" "fst (snd s)" "fst s'" "fst (snd s')"]) (use that(2) in simp)
    show "inside m buf sz r" if "inside m buf sz (snd (snd s))" "snprintf_step (Some sz) buf va s = Some (Inl r)" for s r
      by (rule inside_step(2) [OF that(1), of va "fst s" "fst (snd s)"]) (use that(2) in simp)
  qed
  then have n: "int n \<le> sz - 1" "\<And>x. x \<notin> area buf n \<Longrightarrow> t x = m x" using assms(2) by (auto simp: inside_def max_def split: if_splits)
  show "int n < sz" "m' (buf + of_nat n) = 0" using n m' by auto
  have "Suc n \<le> nat sz" using n(1) by simp
  then have "area buf (Suc n) \<subseteq> area buf (nat sz)" by (rule area_mono)
  moreover have "area buf (Suc n) = insert (buf + of_nat n) (area buf n)" by (auto simp: area_def lessThan_Suc)
  ultimately show "m' x = m x" if "x \<notin> area buf (nat sz)" for x using that n(2) m' by auto
qed

subsection \<open>Buffered reading\<close>

text \<open>
  What a stream has still to deliver: the rest of its buffer and then what the file holds, \<open>rest w\<close>. A \<^verbatim>\<open>read\<close> is well behaved
  when it delivers a prefix of that, not empty unless the file is at its end, and fails never.
\<close>

definition reads :: "('w \<Rightarrow> uchar list) \<Rightarrow> 'w rd \<Rightarrow> bool" where
  "reads rest rd \<longleftrightarrow> (\<forall>fd n w. 0 < n \<longrightarrow> (case rd fd n w of (k, bs, w') \<Rightarrow>
     k = int (length bs) \<and> k \<le> n \<and> rest w = bs @ rest w' \<and> (bs = [] \<longrightarrow> rest w = [])))"

definition pending :: "FILE \<Rightarrow> uchar list" where
  "pending f = take (nat (f_buflen f - f_bufpos f)) (drop (nat (f_bufpos f)) (f_buf f))"

definition stream_ok :: "FILE \<Rightarrow> bool" where
  "stream_ok f \<longleftrightarrow> 0 \<le> f_bufpos f \<and> f_bufpos f \<le> f_buflen f \<and> f_buflen f \<le> int (length (f_buf f)) \<and> length (f_buf f) = BUFSIZ"

lemma pending_take:
  assumes "stream_ok f" and "f_bufpos f < f_buflen f"
  shows "pending f = f_buf f ! nat (f_bufpos f) # pending (f\<lparr>f_bufpos := f_bufpos f + 1\<rparr>)" and "stream_ok (f\<lparr>f_bufpos := f_bufpos f + 1\<rparr>)"
proof -
  have i: "nat (f_bufpos f) < length (f_buf f)" "nat (f_buflen f - f_bufpos f) = Suc (nat (f_buflen f - (f_bufpos f + 1)))"
    "nat (f_bufpos f + 1) = Suc (nat (f_bufpos f))" using assms by (auto simp: stream_ok_def)
  show "pending f = f_buf f ! nat (f_bufpos f) # pending (f\<lparr>f_bufpos := f_bufpos f + 1\<rparr>)"
    unfolding pending_def i(2) Cons_nth_drop_Suc [OF i(1), symmetric] by (simp add: i(3))
  show "stream_ok (f\<lparr>f_bufpos := f_bufpos f + 1\<rparr>)" using assms by (simp add: stream_ok_def)
qed

lemma getc_ok:
  assumes rd: "reads rest rd" and f: "stream_ok f"
  shows "case getc rd (Some f) w of (c, f', w') \<Rightarrow> \<exists>g. f' = Some g \<and> stream_ok g \<and>
    (if pending f @ rest w = [] then c = - 1 \<and> f_flags g = f_flags f OR FILE_EOF \<and> pending g @ rest w' = []
     else pending f @ rest w = word_of_int c # pending g @ rest w' \<and> 0 \<le> c \<and> c < 256 \<and> f_flags g = f_flags f)"
proof (cases "f_bufpos f < f_buflen f")
  case True
  then show ?thesis using pending_take [OF f True] by (auto simp: getc_def uint_lt2p [of "_ :: uchar", simplified])
next
  case False
  then have e: "pending f = []" by (simp add: pending_def)
  obtain k bs w' where r: "rd (f_fd f) 512 w = (k, bs, w')" by (metis prod_cases3)
  then have R: "k = int (length bs)" "length bs \<le> 512" "rest w = bs @ rest w'" "bs = [] \<longrightarrow> rest w = []"
    using rd [unfolded reads_def, THEN spec, of "f_fd f", THEN spec, of 512, THEN spec, of w] by auto
  show ?thesis
  proof (cases "bs = []")
    case True
    then show ?thesis using False r R e f by (auto simp: getc_def stream_ok_def pending_def)
  next
    case ne: False
    let ?g = "f\<lparr>f_buf := bs @ drop (length bs) (f_buf f), f_buflen := k, f_bufpos := 0\<rparr>"
    have g: "stream_ok ?g" "f_bufpos ?g < f_buflen ?g" using f R ne by (auto simp: stream_ok_def)
    have p: "pending ?g = bs" using R by (simp add: pending_def)
    have "getc rd (Some f) w = (uint (f_buf ?g ! nat (f_bufpos ?g)), Some (?g\<lparr>f_bufpos := f_bufpos ?g + 1\<rparr>), w')"
      using False r R ne by (simp add: getc_def)
    moreover have "f_flags (?g\<lparr>f_bufpos := f_bufpos ?g + 1\<rparr>) = f_flags f" by simp
    moreover have "uint (f_buf ?g ! nat (f_bufpos ?g)) < 256" using uint_lt2p [of "f_buf ?g ! nat (f_bufpos ?g)"] by simp
    ultimately show ?thesis
      using pending_take [OF g] R(3) e ne p by (auto simp del: FILE.simps)
  qed
qed

lemma numbuf_loop_length: "n < 10 ^ k \<Longrightarrow> length (numbuf_loop 10 n) \<le> k"
proof (induction k arbitrary: n)
  case 0
  then show ?case by (simp add: numbuf_loop.simps)
next
  case (Suc k)
  show ?case
  proof (cases "n = 0")
    case True
    then show ?thesis by (simp add: numbuf_loop.simps)
  next
    case False
    have "n div 10 < 10 ^ k" using Suc.prems by (simp add: div_less_iff_less_mult mult.commute)
    from Suc.IH [OF this] show ?thesis using False by (subst numbuf_loop.simps) (simp add: Let_def)
  qed
qed

lemma numbuf_d_length: "length (numbuf_d v) \<le> 11"
proof -
  have "nat (sint u) < 10 ^ 10" for u :: uint using sint_range_size [of u] by (auto simp: word_size)
  then have l: "length (numbuf_loop 10 (nat (sint u))) \<le> 10" for u :: uint by (rule numbuf_loop_length)
  show ?thesis using l [of v] l [of "- v"] by (auto simp: numbuf_d_def Let_def)
qed

lemma bytes_at_stored: "length bs < 2 ^ 32 \<Longrightarrow> bytes_at (st_bytes m a bs) a bs"
proof (induction bs arbitrary: m a)
  case Nil
  then show ?case by simp
next
  case (Cons b bs)
  have "a \<notin> area (a + 1) (length bs)" using Cons.prems by (intro area_start) simp
  then show ?case using Cons st_bytes_other [of a "a + 1" bs "m(a := b)"] by simp
qed

section \<open>Properties\<close>

text \<open>C35: A number printed with \<^verbatim>\<open>snprintf("%d")\<close> into a buffer of at least 12 bytes reads back with \<^verbatim>\<open>strtol\<close>, which also stops
  where \<^verbatim>\<open>snprintf\<close> says the text ends. This holds for every \<^verbatim>\<open>int\<close> but the least one, whose negation overflows.\<close>

theorem snprintf_strtol_roundtrip:
  assumes "str_at m fmt [37, 100]" and "sint (va 0) \<noteq> LONG_MIN" and "12 \<le> sz" and "area buf 11 \<inter> area fmt 3 = {}"
  shows "\<exists>n m'. snprintf m buf sz fmt va = Some (n, m') \<and> strtol m' buf 10 = Some (sint (va 0), buf + of_nat n)"
proof -
  let ?t = "rev (numbuf_d (va 0))"
  have t: "text_of va (\<lambda>_. []) [37, 100] 0 = ?t" "length ?t \<le> 11" using numbuf_d_length by auto
  have sn: "snprintf m buf sz fmt va = Some (length ?t, st_bytes m buf (?t @ [0]))"
  proof -
    have "take (nat (sz - 1)) ?t = ?t" using t(2) assms(3) by simp
    moreover have "area buf (length (cut (Some sz) ?t)) \<subseteq> area buf 11" using t(2) by (intro area_mono) (simp add: cut_def)
    then have "clear_of buf (Some sz) ?t fmt [37, 100]" using assms(4) by (auto simp: clear_of_def numeral_3_eq_3)
    ultimately show ?thesis using snprintf_ok [OF assms(1), of buf sz va "\<lambda>_. []"] t(1) by (simp add: Let_def)
  qed
  obtain bs where bs: "?t = (if sint (va 0) < 0 then [45] else []) @ bs" "bs \<noteq> []" "\<forall>b\<in>set bs. digit_in 10 b" "number 10 0 bs = \<bar>sint (va 0)\<bar>"
    by (rule numbuf_d_text [OF assms(2)])
  have "bytes_at (st_bytes m buf (?t @ [0])) buf (?t @ [0])" using t(2) by (intro bytes_at_stored) simp
  then have b: "bytes_at (st_bytes m buf (?t @ [0])) buf ([] @ (if sint (va 0) < 0 then [45] else []) @ bs @ [0])" using bs(1) by simp
  have z: "\<not> digit_in 10 0" by (simp add: digit_in_10)
  have "strtol (st_bytes m buf (?t @ [0])) buf 10 =
      Some (sign (sint (va 0) < 0) * min (limit (sint (va 0) < 0)) (number 10 0 bs), buf + of_nat (length ([] @ (if sint (va 0) < 0 then [45] else []) @ bs)))"
    by (rule strtol_ok [OF b _ _ bs(2,3) z]) auto
  moreover have "sign (sint (va 0) < 0) * min (limit (sint (va 0) < 0)) (number 10 0 bs) = sint (va 0)"
    using sint_range_size [of "va 0"] assms(2) by (simp add: bs(4) word_size min_def)
  ultimately show ?thesis using sn bs(1) by (metis append_Nil)
qed

theorem snprintf_strtol_roundtrip_witness:
  "\<exists>n m'. snprintf ((\<lambda>_. 0)(100 := 37, 101 := 100)) 200 12 100 (\<lambda>_. - 42) = Some (n, m') \<and> strtol m' 200 10 = Some (- 42, 200 + of_nat n)"
proof -
  have "str_at ((\<lambda>_. 0)(100 := 37, 101 := 100)) 100 [37, 100]" by simp
  moreover have "area 200 11 \<inter> area 100 3 = {}" using areas_apart [of 100 3 200 11] by auto
  ultimately show ?thesis using snprintf_strtol_roundtrip [of "(\<lambda>_. 0)(100 := 37, 101 := 100)" 100 "\<lambda>_. - 42" 12 200] by simp
qed



text \<open>C33: \<^verbatim>\<open>getc\<close> delivers a file byte by byte, in order, none lost and none twice, however the reads cut it into pieces: the
  buffer together with the unread file is a list of which each call takes the first byte, and at its end each call returns
  -1 and sets \<^verbatim>\<open>FILE_EOF\<close>.\<close>

theorem getc_delivers_in_order:
  assumes "reads rest rd" and "stream_ok f"
  shows "case getc rd (Some f) w of (c, f', w') \<Rightarrow> \<exists>g. f' = Some g \<and> stream_ok g \<and>
    (if pending f @ rest w = [] then c = - 1 \<and> f_flags g = f_flags f OR FILE_EOF \<and> pending g @ rest w' = []
     else pending f @ rest w = word_of_int c # pending g @ rest w' \<and> 0 \<le> c \<and> c < 256 \<and> f_flags g = f_flags f)"
  by (rule getc_ok [OF assms])

text \<open>A file that is a list of bytes, read in pieces of at most 3.\<close>

definition list_rd :: "uchar list rd" where
  "list_rd fd n w = (let k = min 3 (nat n) in (int (length (take k w)), take k w, drop k w))"

theorem getc_delivers_in_order_witness:
  "case getc list_rd (Some stdout_file) [104, 105] of (c, f', w') \<Rightarrow> c = 104"
proof -
  have r: "reads (\<lambda>w. w) list_rd" by (auto simp: reads_def list_rd_def Let_def)
  have s: "stream_ok stdout_file" "pending stdout_file = []" by (simp_all add: stream_ok_def stdout_file_def pending_def)
  obtain c f' w' where g: "getc list_rd (Some stdout_file) [104, 105] = (c, f', w')" by (metis prod_cases3)
  from getc_delivers_in_order [OF r s(1), of "[104, 105]"] g s(2) have "word_of_int c = (104 :: uchar)" "0 \<le> c" "c < 256" by auto
  then have "uint (word_of_int c :: uchar) = uint (104 :: uchar)" "take_bit 8 c = c" by (simp_all add: take_bit_int_eq_self)
  then have "c = 104" using \<open>0 \<le> c\<close> by (simp add: unsigned_of_int)
  then show ?thesis using g by simp
qed

end
