(* ===== verification/UMalloc.thy ===== *)
theory UMalloc
  imports UString
begin

text \<open>
  The memory allocator of the user library (\<^verbatim>\<open>ulib/umalloc.c\<close>): a circular list of free blocks in order of their
  addresses, with a header of two words in front of every block.

  \<^verbatim>\<open>sbrk\<close> is the system call: it returns the old end of the memory of the process and moves the end, unless the parameter
  \<open>grants\<close>, the kernel's answer, refuses. The lemmas abstract the list to its blocks: \<^verbatim>\<open>malloc\<close> takes its block out of free or
  new memory, \<^verbatim>\<open>free\<close> gives exactly the bytes of the block back, both always return, and no two blocks in use overlap.
\<close>

section \<open>Definitions\<close>

record heap =
  h_mem :: mem
  freep :: uint
  base :: uint
  h_brk :: uint

text \<open>The fields of a header, 8 bytes: \<^verbatim>\<open>s.ptr\<close> and \<^verbatim>\<open>s.size\<close>. Pointers to headers move in steps of 8.\<close>

abbreviation ptr_of :: "mem \<Rightarrow> uint \<Rightarrow> uint" where "ptr_of m p \<equiv> ld32 m p"
abbreviation size_of :: "mem \<Rightarrow> uint \<Rightarrow> uint" where "size_of m p \<equiv> ld32 m (p + 4)"

text \<open>The search of \<^verbatim>\<open>free\<close> for the block behind which \<^verbatim>\<open>bp\<close> belongs.\<close>

partial_function (option) free_find :: "mem \<Rightarrow> uint \<Rightarrow> uint \<Rightarrow> uint option" where
  "free_find m bp p =
     (let q = ptr_of m p in
      if bp > p \<and> bp < q then Some p
      else if p \<ge> q \<and> (bp > p \<or> bp < q) then Some p
      else free_find m bp q)"

text \<open>Linking the block in, joined to its neighbours where they touch.\<close>

definition join_upper :: "uint \<Rightarrow> uint \<Rightarrow> mem \<Rightarrow> mem" where
  "join_upper bp p m =
     (let q = ptr_of m p in
      if bp + 8 * size_of m bp = q then
        (let m = st32 m (bp + 4) (size_of m bp + size_of m q) in st32 m bp (ptr_of m q))
      else st32 m bp q)"

definition join_lower :: "uint \<Rightarrow> uint \<Rightarrow> mem \<Rightarrow> mem" where
  "join_lower bp p m =
     (if p + 8 * size_of m p = bp then
        (let m = st32 m (p + 4) (size_of m p + size_of m bp) in st32 m p (ptr_of m bp))
      else st32 m p bp)"

definition free :: "uint \<Rightarrow> heap \<Rightarrow> heap option" where
  "free ap h =
     (let bp = ap - 8 in
      map_option (\<lambda>p. h\<lparr>h_mem := join_lower bp p (join_upper bp p (h_mem h)), freep := p\<rparr>) (free_find (h_mem h) bp (freep h)))"

definition sbrk :: "(uint \<Rightarrow> uint \<Rightarrow> bool) \<Rightarrow> uint \<Rightarrow> heap \<Rightarrow> uint \<times> heap" where
  "sbrk grants n h = (if grants (h_brk h) n then (h_brk h, h\<lparr>h_brk := h_brk h + n\<rparr>) else (- 1, h))"

text \<open>\<^verbatim>\<open>morecore\<close>: 0 when there is no more memory, otherwise \<^verbatim>\<open>freep\<close>.\<close>

definition morecore :: "(uint \<Rightarrow> uint \<Rightarrow> bool) \<Rightarrow> uint \<Rightarrow> heap \<Rightarrow> (uint \<times> heap) option" where
  "morecore grants nu h =
     (let nu = (if nu < 4096 then 4096 else nu) in
      case sbrk grants (nu * 8) h of (p, h) \<Rightarrow>
        if p = - 1 then Some (0, h)
        else map_option (\<lambda>h. (freep h, h)) (free (p + 8) (h\<lparr>h_mem := st32 (h_mem h) (p + 4) nu\<rparr>)))"

text \<open>Taking \<open>nunits\<close> from the block \<open>p\<close> behind \<open>prevp\<close>: all of it, or its tail. The result is the address of the header.\<close>

definition take_block :: "uint \<Rightarrow> uint \<Rightarrow> uint \<Rightarrow> mem \<Rightarrow> uint \<times> mem" where
  "take_block nunits prevp p m =
     (if size_of m p = nunits then (p, st32 m prevp (ptr_of m p))
      else
       (let rest = size_of m p - nunits; m = st32 m (p + 4) rest; p = p + 8 * rest in
        (p, st32 m (p + 4) nunits)))"

text \<open>One round of the loop of \<^verbatim>\<open>malloc\<close>, on \<^verbatim>\<open>prevp\<close>, \<^verbatim>\<open>p\<close> and the heap.\<close>

definition malloc_step :: "(uint \<Rightarrow> uint \<Rightarrow> bool) \<Rightarrow> uint \<Rightarrow> uint \<times> uint \<times> heap \<Rightarrow> ((uint \<times> heap) + (uint \<times> uint \<times> heap)) option" where
  "malloc_step grants nunits = (\<lambda>(prevp, p, h).
     if size_of (h_mem h) p \<ge> nunits then
       (case take_block nunits prevp p (h_mem h) of (p, m) \<Rightarrow> Some (Inl (p + 8, h\<lparr>h_mem := m, freep := prevp\<rparr>)))
     else if p = freep h then
       map_option (\<lambda>(p, h). if p = 0 then Inl (0, h) else Inr (p, ptr_of (h_mem h) p, h)) (morecore grants nunits h)
     else Some (Inr (p, ptr_of (h_mem h) p, h)))"

definition malloc_start :: "heap \<Rightarrow> heap" where
  "malloc_start h =
     (if freep h = 0 then h\<lparr>h_mem := st32 (st32 (h_mem h) (base h) (base h)) (base h + 4) 0, freep := base h\<rparr> else h)"

definition malloc_units :: "uint \<Rightarrow> uint" where
  "malloc_units nbytes = (nbytes + 8 - 1) div 8 + 1"

definition malloc :: "(uint \<Rightarrow> uint \<Rightarrow> bool) \<Rightarrow> uint \<Rightarrow> heap \<Rightarrow> (uint \<times> heap) option" where
  "malloc grants nbytes h =
     (let h = malloc_start h in
      iterate (malloc_step grants (malloc_units nbytes)) (freep h, ptr_of (h_mem h) (freep h), h))"

text \<open>\<^verbatim>\<open>calloc\<close> refuses a product that overflows.\<close>

definition calloc :: "(uint \<Rightarrow> uint \<Rightarrow> bool) \<Rightarrow> uint \<Rightarrow> uint \<Rightarrow> heap \<Rightarrow> (uint \<times> heap) option" where
  "calloc grants nmemb sz h =
     (if nmemb = 0 \<or> sz = 0 then malloc grants 0 h
      else
       (let total = nmemb * sz in
        if total div sz \<noteq> nmemb then Some (0, h)
        else
          map_option (\<lambda>(ptr, h). if ptr = 0 then (0, h) else (ptr, h\<lparr>h_mem := snd (memset_u (h_mem h) ptr 0 total)\<rparr>))
            (malloc grants total h)))"

definition realloc :: "(uint \<Rightarrow> uint \<Rightarrow> bool) \<Rightarrow> uint \<Rightarrow> uint \<Rightarrow> heap \<Rightarrow> (uint \<times> heap) option" where
  "realloc grants ptr sz h =
     (if ptr = 0 then malloc grants sz h
      else if sz = 0 then map_option (Pair 0) (free ptr h)
      else
       (let old_data_size = (size_of (h_mem h) (ptr - 8) - 1) * 8 in
        Option.bind (malloc grants sz h) (\<lambda>(new_ptr, h).
          if new_ptr = 0 then Some (0, h)
          else
           (let copy_size = (if old_data_size < sz then old_data_size else sz);
                h = h\<lparr>h_mem := snd (memmove_u (h_mem h) new_ptr ptr (sint copy_size))\<rparr> in
            map_option (Pair new_ptr) (free ptr h)))))"

section \<open>Lemmas\<close>

subsection \<open>Headers in memory\<close>

lemma ld32_st32_apart:
  assumes "unat a + 4 \<le> unat b \<or> unat b + 4 \<le> unat a" and "unat a + 4 \<le> 2 ^ 32" and "unat b + 4 \<le> 2 ^ 32"
  shows "ld32 (st32 m a v) b = ld32 m b"
proof (rule ld32_cong)
  fix i :: uint
  assume "i < 4"
  then have i: "unat i < 4" by (simp add: word_less_nat_alt)
  have "unat (b + i) = unat b + unat i" by (subst unat_plus_if') (use assms(3) i in simp)
  then have "4 \<le> unat (b + i - a)" using assms i by (auto simp: unat_sub_if')
  then show "st32 m a v (b + i) = m (b + i)" by (rule st32_other)
qed

text \<open>An address with room for a header, and headers that do not touch.\<close>

definition hdr :: "uint \<Rightarrow> bool" where
  "hdr a \<longleftrightarrow> unat a + 8 \<le> 2 ^ 32"

definition apart_hdr :: "uint \<Rightarrow> uint \<Rightarrow> bool" where
  "apart_hdr a b \<longleftrightarrow> unat a + 8 \<le> unat b \<or> unat b + 8 \<le> unat a"

lemma unat_plus_4: "hdr a \<Longrightarrow> unat (a + 4) = unat a + 4"
  by (subst unat_plus_if') (simp add: hdr_def)

lemma hdr_other:
  assumes "hdr a" "hdr b" "apart_hdr a b"
  shows "ptr_of (st32 m a v) b = ptr_of m b" and "size_of (st32 m a v) b = size_of m b"
    and "ptr_of (st32 m (a + 4) v) b = ptr_of m b" and "size_of (st32 m (a + 4) v) b = size_of m b"
  by (rule ld32_st32_apart; use assms unat_plus_4 [of a] unat_plus_4 [of b] in \<open>auto simp: hdr_def apart_hdr_def\<close>)+

lemma hdr_same:
  assumes "hdr a"
  shows "size_of (st32 m a v) a = size_of m a" and "ptr_of (st32 m (a + 4) v) a = ptr_of m a"
  by (rule ld32_st32_apart; use assms unat_plus_4 [of a] in \<open>auto simp: hdr_def\<close>)+

lemma st32_frame:
  assumes "hdr a" and "unat x < unat a \<or> unat a + 8 \<le> unat x"
  shows "st32 m a v x = m x" and "st32 m (a + 4) v x = m x"
proof -
  have "4 \<le> unat (x - a)" "4 \<le> unat (x - (a + 4))"
    using assms unat_plus_4 [OF assms(1)] unsigned_less [of a, where ?'a = nat] unsigned_less [of x, where ?'a = nat]
    unfolding unat_sub_if' by (auto simp: hdr_def)
  then show "st32 m a v x = m x" "st32 m (a + 4) v x = m x" by (simp_all add: st32_other)
qed

subsection \<open>The free list as a list of blocks\<close>

text \<open>A block: the address of its header and its size in units of 8 bytes. The static \<^verbatim>\<open>base\<close> has size 0 but is a header.\<close>

type_synonym block = "uint \<times> nat"

definition fin :: "block \<Rightarrow> nat" where
  "fin b = unat (fst b) + 8 * max 1 (snd b)"

definition ivl :: "block \<Rightarrow> nat set" where
  "ivl b = {unat (fst b)..<fin b}"

definition bytes_of :: "block list \<Rightarrow> nat set" where
  "bytes_of bs = (\<Union>b\<in>set bs. ivl b)"

definition start :: "block list \<Rightarrow> uint \<Rightarrow> uint" where
  "start bs e = (case bs of [] \<Rightarrow> e | b # _ \<Rightarrow> fst b)"

lemma start_simps [simp]: "start [] e = e" "start (b # bs) e = fst b" "start (xs @ ys) e = start xs (start ys e)"
  by (auto simp: start_def split: list.splits)

primrec links :: "mem \<Rightarrow> block list \<Rightarrow> uint \<Rightarrow> bool" where
  "links m [] e \<longleftrightarrow> True"
| "links m (b # bs) e \<longleftrightarrow> ptr_of m (fst b) = start bs e \<and> size_of m (fst b) = of_nat (snd b) \<and> links m bs e"

lemma links_append: "links m (xs @ ys) e \<longleftrightarrow> links m xs (start ys e) \<and> links m ys e"
proof (induction xs)
  case Nil
  then show ?case by simp
next
  case (Cons x xs)
  then show ?case by auto
qed

lemma links_cong:
  "(\<And>b. b \<in> set bs \<Longrightarrow> ptr_of m' (fst b) = ptr_of m (fst b) \<and> size_of m' (fst b) = size_of m (fst b)) \<Longrightarrow> links m' bs e = links m bs e"
  by (induction bs) auto

definition spaced :: "block list \<Rightarrow> bool" where
  "spaced bs \<longleftrightarrow> sorted_wrt (\<lambda>b c. fin b \<le> unat (fst c)) bs"

definition heap_ok :: "heap \<Rightarrow> block list \<Rightarrow> bool" where
  "heap_ok h bs \<longleftrightarrow> bs \<noteq> [] \<and> hd bs = (base h, 0) \<and> links (h_mem h) bs (base h) \<and> spaced bs \<and> (\<forall>b\<in>set (tl bs). 1 \<le> snd b)
     \<and> (\<forall>b\<in>set bs. fin b \<le> unat (h_brk h)) \<and> freep h \<in> fst ` set bs \<and> base h \<noteq> 0"

lemma fin_gt: "unat (fst b) + 8 \<le> fin b"
  by (simp add: fin_def)

lemma heap_hdr: "heap_ok h bs \<Longrightarrow> b \<in> set bs \<Longrightarrow> hdr (fst b)"
  using fin_gt [of b] unsigned_less [of "h_brk h", where ?'a = nat] by (fastforce simp: heap_ok_def hdr_def)

lemma spaced_simps: "spaced [] " "spaced (b # bs) \<longleftrightarrow> (\<forall>c\<in>set bs. fin b \<le> unat (fst c)) \<and> spaced bs"
  "spaced (xs @ ys) \<longleftrightarrow> spaced xs \<and> spaced ys \<and> (\<forall>b\<in>set xs. \<forall>c\<in>set ys. fin b \<le> unat (fst c))"
  by (auto simp: spaced_def sorted_wrt_append)

subsection \<open>Freeing\<close>

text \<open>The search reaches the last block below \<open>bp\<close>, wherever it starts.\<close>

lemma free_find_below:
  assumes "links m (vs @ b # ys) e" and "spaced (vs @ b # ys)" and "fst b < bp" and "\<forall>c\<in>set ys. bp < fst c" and "e \<le> fst b"
  shows "free_find m bp (start (vs @ [b]) e) = Some (fst b)"
  using assms
proof (induction vs)
  case Nil
  then have "ptr_of m (fst b) = start ys e" by simp
  moreover have "ys = [] \<or> bp < start ys e" using Nil(4) by (cases ys) auto
  ultimately show ?case using Nil.prems(3,5) by (subst free_find.simps) (auto simp: Let_def)
next
  case (Cons v vs)
  have "free_find m bp (start (vs @ [b]) e) = Some (fst b)" by (rule Cons.IH) (use Cons.prems in \<open>auto simp: spaced_simps\<close>)
  moreover have q: "ptr_of m (fst v) = start (vs @ [b]) e" using Cons.prems(1) by simp
  have "fin v \<le> unat (start (vs @ [b]) e)" using Cons.prems(2) by (cases vs) (auto simp: spaced_simps)
  moreover have "start (vs @ [b]) e \<le> fst b"
  proof (cases vs)
    case (Cons w ws)
    then have "fin w \<le> unat (fst b)" using Cons.prems(2) by (auto simp: spaced_simps)
    then show ?thesis using Cons fin_gt [of w] by (simp add: word_le_nat_alt)
  qed simp
  ultimately show ?case using q Cons.prems(3) fin_gt [of v] by (subst free_find.simps) (auto simp: Let_def word_less_nat_alt word_le_nat_alt)
qed

lemma free_find_above:
  assumes "links m vs e" and "spaced vs" and "\<forall>c\<in>set vs. bp < fst c" and "e < bp"
  shows "free_find m bp (start vs e) = free_find m bp e"
  using assms
proof (induction vs)
  case Nil
  then show ?case by simp
next
  case (Cons v vs)
  have IH: "free_find m bp (start vs e) = free_find m bp e" by (rule Cons.IH) (use Cons.prems in \<open>auto simp: spaced_simps\<close>)
  have q: "ptr_of m (fst v) = start vs e" using Cons.prems(1) by simp
  have v: "bp < fst v" using Cons.prems(3) by simp
  have "\<not> (fst v \<ge> start vs e \<and> bp < start vs e)"
  proof (cases vs)
    case Nil
    then show ?thesis using Cons.prems(4) by (simp add: not_less less_imp_le)
  next
    case w: (Cons w ws)
    then have "fin v \<le> unat (fst w)" using Cons.prems(2) by (auto simp: spaced_simps)
    then show ?thesis using w fin_gt [of v] by (simp add: word_le_nat_alt)
  qed
  then have "free_find m bp (fst v) = free_find m bp (start vs e)"
    using v q by (subst free_find.simps) (auto simp: Let_def)
  then show ?case using IH by simp
qed

lemma free_find_ok:
  assumes l: "links m (xs @ b # ys) e" and s: "spaced (xs @ b # ys)" and b: "fst b < bp" and y: "\<forall>c\<in>set ys. bp < fst c"
    and e: "start (xs @ [b]) e = e" "e \<le> fst b" and p: "p \<in> fst ` set (xs @ b # ys)"
  shows "free_find m bp p = Some (fst b)"
proof -
  have e_bp: "e < bp" using e(2) b by (rule le_less_trans)
  have fe: "free_find m bp e = Some (fst b)" using free_find_below [OF l s b y e(2)] e(1) by simp
  from p obtain c where c: "p = fst c" "c \<in> set (xs @ b # ys)" by (rule imageE)
  from c(2) have "c \<in> set xs \<or> c = b \<or> c \<in> set ys" by auto
  then show ?thesis
  proof (elim disjE)
    assume "c \<in> set xs"
    then obtain us ws where x: "xs = us @ c # ws" by (meson split_list)
    have "free_find m bp (start ((c # ws) @ [b]) e) = Some (fst b)"
      by (rule free_find_below [OF _ _ b y e(2)]) (use l s x in \<open>auto simp: links_append spaced_simps\<close>)
    then show ?thesis using c(1) by simp
  next
    assume "c = b"
    have "free_find m bp (start ([] @ [b]) e) = Some (fst b)"
      by (rule free_find_below [OF _ _ b y e(2)]) (use l s in \<open>auto simp: links_append spaced_simps\<close>)
    then show ?thesis using c(1) \<open>c = b\<close> by simp
  next
    assume "c \<in> set ys"
    then obtain us ws where x: "ys = us @ c # ws" by (meson split_list)
    have "free_find m bp (start (c # ws) e) = free_find m bp e"
      by (rule free_find_above [OF _ _ _ e_bp]) (use l s y x in \<open>auto simp: links_append spaced_simps\<close>)
    then show ?thesis using c(1) fe by simp
  qed
qed

lemma unat_block_end: "fin (p, s) < 2 ^ 32 \<Longrightarrow> unat (p + 8 * of_nat s) = unat p + 8 * s"
proof -
  assume f: "fin (p, s) < 2 ^ 32"
  have "8 * s \<le> 8 * max 1 s" by simp
  then have s: "unat p + 8 * s < 2 ^ 32" using f unfolding fin_def by simp
  then have "unat (8 * of_nat s :: uint) = 8 * s" by (simp add: unat_word_ariths unat_of_nat)
  then show ?thesis using s by (subst unat_plus_if') simp
qed

lemma bytes_of_simps [simp]: "bytes_of [] = {}" "bytes_of (b # bs) = ivl b \<union> bytes_of bs" "bytes_of (xs @ ys) = bytes_of xs \<union> bytes_of ys"
  by (auto simp: bytes_of_def)

text \<open>Two blocks of which one ends where the other begins are one block.\<close>

lemma ivl_join:
  assumes "1 \<le> s" and "1 \<le> t" and "unat p + 8 * s = unat q"
  shows "ivl (p, s + t) = ivl (p, s) \<union> ivl (q, t)" and "fin (p, s + t) = fin (q, t)"
proof -
  show f: "fin (p, s + t) = fin (q, t)" using assms by (simp add: fin_def)
  have "fin (p, s) = unat q" using assms by (simp add: fin_def)
  then show "ivl (p, s + t) = ivl (p, s) \<union> ivl (q, t)" unfolding ivl_def f using fin_gt [of "(q, t)"] assms(3) by auto
qed

lemma join_upper_ok:
  assumes q: "ptr_of m p = start ys e" and s: "size_of m bp = of_nat s" "1 \<le> s" and f: "fin (bp, s) < 2 ^ 32"
    and ys: "links m ys e" "spaced ((bp, s) # ys)" "\<forall>c\<in>set ys. 1 \<le> snd c \<and> fin c < 2 ^ 32" and e: "e < bp"
  obtains s1 ys1 where "links (join_upper bp p m) ((bp, s1) # ys1) e" and "spaced ((bp, s1) # ys1)" and "1 \<le> s1"
    and "bytes_of ((bp, s1) # ys1) = ivl (bp, s) \<union> bytes_of ys" and "set ys1 \<subseteq> set ys"
    and "fin (bp, s1) \<in> {fin (bp, s)} \<union> fin ` set ys"
    and "\<forall>x. unat x < unat bp \<or> unat bp + 8 \<le> unat x \<longrightarrow> join_upper bp p m x = m x" and "s \<le> s1"
proof -
  have h: "hdr bp" using f fin_gt [of "(bp, s)"] by (simp add: hdr_def)
  have hc: "hdr (fst c) \<and> apart_hdr bp (fst c)" if "c \<in> set ys" for c
  proof -
    have "fin (bp, s) \<le> unat (fst c)" "fin c < 2 ^ 32" using ys(2,3) that by (auto simp: spaced_simps)
    then show ?thesis using fin_gt [of "(bp, s)"] fin_gt [of c] by (auto simp: hdr_def apart_hdr_def)
  qed
  have keep: "links (st32 n bp v) zs e \<longleftrightarrow> links n zs e" "links (st32 n (bp + 4) v) zs e \<longleftrightarrow> links n zs e" if "set zs \<subseteq> set ys" for n v zs
    by (rule links_cong; use hc that hdr_other [OF h] in blast)+
  have u: "bp + 8 * of_nat s = start ys e \<longleftrightarrow> unat bp + 8 * s = unat (start ys e)"
    unfolding word_unat_eq_iff using unat_block_end [OF f] by simp
  show thesis
  proof (cases "bp + 8 * of_nat s = start ys e")
    case True
    then obtain c zs where c: "ys = c # zs" using u e by (cases ys) (auto simp: word_less_nat_alt)
    let ?m = "st32 (st32 m (bp + 4) (size_of m bp + size_of m (fst c))) bp (ptr_of m (fst c))"
    have j: "join_upper bp p m = ?m"
      using True q s(1) c hdr_other(3) [OF h, of "fst c"] hc [of c] by (simp add: join_upper_def Let_def)
    have t: "unat bp + 8 * s = unat (fst c)" "1 \<le> snd c" using u True c ys(3) by auto
    note J = ivl_join [OF s(2) t(2,1)]
    have l: "ptr_of m (fst c) = start zs e" "size_of m (fst c) = of_nat (snd c)" "links m zs e" using ys(1) c by auto
    have "links ?m ((bp, s + snd c) # zs) e"
      using l s(1) keep [of zs] c hdr_same [OF h] by auto
    moreover have "spaced ((bp, s + snd c) # zs)" using ys(2) c J(2) by (auto simp: spaced_simps)
    moreover have "bytes_of ((bp, s + snd c) # zs) = ivl (bp, s) \<union> bytes_of ys" using J(1) c by auto
    moreover have "fin (bp, s + snd c) \<in> {fin (bp, s)} \<union> fin ` set ys" using J(2) c by simp
    ultimately show ?thesis using c s(2) st32_frame [OF h] by (intro that [unfolded j, of "s + snd c" zs]) auto
  next
    case False
    then have j: "join_upper bp p m = st32 m bp (start ys e)" using q s(1) by (simp add: join_upper_def Let_def)
    have "links (st32 m bp (start ys e)) ((bp, s) # ys) e" using keep [of ys] ys(1) s(1) hdr_same [OF h] by simp
    then show ?thesis using ys(2) s(2) st32_frame [OF h] by (intro that [unfolded j, of s ys]) auto
  qed
qed

lemma join_lower_ok:
  assumes l: "links m ((bp, s1) # ys1) e" "spaced ((p, sp) # (bp, s1) # ys1)" "1 \<le> s1" "\<forall>c\<in>set ((bp, s1) # ys1). fin c < 2 ^ 32"
    and p: "size_of m p = of_nat sp" "fin (p, sp) < 2 ^ 32"
  obtains zs where "links (join_lower bp p m) zs e" and "spaced zs" and "start zs e = p" and "\<forall>c\<in>set (tl zs). c = (bp, s1) \<or> c \<in> set ys1"
    and "hd zs = (p, sp) \<or> sp \<noteq> 0 \<and> hd zs = (p, sp + s1)" and "zs \<noteq> []"
    and "bytes_of zs = ivl (p, sp) \<union> bytes_of ((bp, s1) # ys1)" and "fin (hd zs) \<in> {fin (p, sp), fin (bp, s1)}"
    and "\<forall>x. unat x < unat p \<or> unat p + 8 \<le> unat x \<longrightarrow> join_lower bp p m x = m x" and "\<exists>c\<in>set zs. s1 \<le> snd c"
proof -
  have h: "hdr p" using p(2) fin_gt [of "(p, sp)"] by (simp add: hdr_def)
  have hc: "hdr (fst c) \<and> apart_hdr p (fst c)" if "c \<in> set ((bp, s1) # ys1)" for c
  proof -
    have "fin (p, sp) \<le> unat (fst c)" "fin c < 2 ^ 32" using l(2,4) that by (auto simp: spaced_simps)
    then show ?thesis using fin_gt [of "(p, sp)"] fin_gt [of c] by (auto simp: hdr_def apart_hdr_def)
  qed
  have keep: "links (st32 n p v) zs e \<longleftrightarrow> links n zs e" "links (st32 n (p + 4) v) zs e \<longleftrightarrow> links n zs e"
    if "set zs \<subseteq> set ((bp, s1) # ys1)" for n v zs
    by (rule links_cong; use hc that hdr_other [OF h] in blast)+
  have b: "ptr_of m bp = start ys1 e" "size_of m bp = of_nat s1" "links m ys1 e" using l(1) by auto
  have u: "p + 8 * of_nat sp = bp \<longleftrightarrow> unat p + 8 * sp = unat bp" unfolding word_unat_eq_iff using unat_block_end [OF p(2)] by simp
  have fp: "fin (p, sp) \<le> unat bp" using l(2) by (simp add: spaced_simps)
  show thesis
  proof (cases "p + 8 * of_nat sp = bp")
    case True
    then have sp: "1 \<le> sp" "unat p + 8 * sp = unat bp" using u fp by (auto simp: fin_def max_def split: if_splits)
    note J = ivl_join [OF sp(1) l(3) sp(2)]
    let ?m = "st32 (st32 m (p + 4) (of_nat (sp + s1))) p (start ys1 e)"
    have j: "join_lower bp p m = ?m"
      using True p(1) b hc [of "(bp, s1)"] hdr_other(3) [OF h, of bp] by (simp add: join_lower_def Let_def)
    have "links ?m ((p, sp + s1) # ys1) e" using b keep [of ys1] hdr_same [OF h] by auto
    moreover have "spaced ((p, sp + s1) # ys1)" using l(2) J(2) by (auto simp: spaced_simps)
    ultimately show ?thesis using sp J st32_frame [OF h] by (intro that [unfolded j, of "(p, sp + s1) # ys1"]) auto
  next
    case False
    then have j: "join_lower bp p m = st32 m p bp" using p(1) by (simp add: join_lower_def)
    have "links (st32 m p bp) ((p, sp) # (bp, s1) # ys1) e" using keep [of "(bp, s1) # ys1"] l(1) p(1) hdr_same [OF h] by auto
    then show ?thesis using l(2) st32_frame [OF h] by (intro that [unfolded j, of "(p, sp) # (bp, s1) # ys1"]) auto
  qed
qed

lemma frame_hdr:
  assumes "\<forall>x. unat x < unat a \<or> unat a + 8 \<le> unat x \<longrightarrow> m' x = m x" and "hdr b" and "apart_hdr a b"
  shows "ptr_of m' b = ptr_of m b \<and> size_of m' b = size_of m b"
proof -
  have i: "unat (b + i) = unat b + unat i" if "unat i < 8" for i :: uint
    by (subst unat_plus_if') (use assms(2) that in \<open>simp add: hdr_def\<close>)
  have e: "m' (b + i) = m (b + i)" if "unat i < 8" for i
    using assms(1,3) i [OF that] that by (auto simp: apart_hdr_def)
  have "ptr_of m' b = ptr_of m b" by (rule ld32_cong) (use e in \<open>simp add: word_less_nat_alt\<close>)
  moreover have "size_of m' b = size_of m b"
  proof (rule ld32_cong)
    fix i :: uint
    assume "i < 4"
    then have "unat (4 + i) < 8" by (subst unat_plus_if') (simp add: word_less_nat_alt)
    then show "m' (b + 4 + i) = m (b + 4 + i)" using e [of "4 + i"] by (simp add: add.assoc)
  qed
  ultimately show ?thesis by blast
qed

lemma ivl_nonempty: "unat (fst b) \<in> ivl b"
  using fin_gt [of b] by (simp add: ivl_def)

lemma ivl_before:
  assumes "ivl b \<inter> ivl c = {}" and "unat (fst c) \<le> unat (fst b)"
  shows "fin c \<le> unat (fst b)"
  using assms ivl_nonempty [of b] fin_gt [of c] by (auto simp: ivl_def not_less)

text \<open>Where a block that is not on the list belongs.\<close>

lemma split_at_block:
  assumes ok: "heap_ok h bs" and dj: "ivl b \<inter> bytes_of bs = {}" and base: "base h < fst b"
  obtains xs p sp ys where "bs = xs @ (p, sp) # ys" and "p < fst b" and "fin (p, sp) \<le> unat (fst b)" and "\<forall>c\<in>set ys. fin b \<le> unat (fst c)"
    and "xs = [] \<longrightarrow> (p, sp) = (base h, 0)"
proof -
  let ?P = "\<lambda>c. fst c < fst b"
  have bs: "bs \<noteq> []" "hd bs = (base h, 0)" "spaced bs" using ok by (auto simp: heap_ok_def)
  then have "takeWhile ?P bs \<noteq> []" using base by (cases bs) auto
  then obtain xs c where c: "takeWhile ?P bs = xs @ [c]" by (metis rev_exhaust)
  define ys where "ys = dropWhile ?P bs"
  have e: "bs = xs @ c # ys" using takeWhile_dropWhile_id [of ?P bs] c unfolding ys_def by (metis append.assoc append_Cons append_Nil)
  have "?P c" using c set_takeWhileD [of c ?P bs] by simp
  have d: "ivl b \<inter> ivl x = {}" if "x \<in> set bs" for x using dj that by (auto simp: bytes_of_def)
  have above: "fin b \<le> unat (fst x)" if "x \<in> set ys" for x
  proof -
    have "unat (fst b) \<le> unat (fst x)"
    proof (cases ys)
      case Nil
      then show ?thesis using that by simp
    next
      case (Cons y zs)
      then have "\<not> ?P y" using hd_dropWhile [of ?P bs] unfolding ys_def by simp
      moreover have "x = y \<or> fin y \<le> unat (fst x)" using bs(3) that unfolding e Cons by (auto simp: spaced_simps)
      ultimately show ?thesis using fin_gt [of y] by (auto simp: word_less_nat_alt not_less)
    qed
    then show ?thesis using ivl_before [of x b] d [of x] that e by (auto simp: Int_commute)
  qed
  have "fin c \<le> unat (fst b)"
    by (rule ivl_before [OF d]) (use e \<open>?P c\<close> in \<open>auto simp: word_less_nat_alt\<close>)
  moreover have "xs = [] \<longrightarrow> c = (base h, 0)" using e bs(2) by (metis append_Nil list.sel(1))
  ultimately show thesis using that [of xs "fst c" "snd c" ys] e \<open>?P c\<close> above by auto
qed

text \<open>Both joins, on the part of the list from the block \<open>p\<close> on; what is before it stays.\<close>

lemma joins_ok:
  assumes l: "links m (xs @ (p, sp) # ys) e" "spaced (xs @ (p, sp) # ys)" "\<forall>c\<in>set ys. 1 \<le> snd c" and b: "1 \<le> snd b" "size_of m (fst b) = of_nat (snd b)"
    and f: "fin (p, sp) \<le> unat (fst b)" "\<forall>c\<in>set ys. fin b \<le> unat (fst c)" "\<forall>c\<in>set (b # xs @ (p, sp) # ys). fin c \<le> L" "L < 2 ^ 32" and e: "e < fst b"
  defines "m' \<equiv> join_lower (fst b) p (join_upper (fst b) p m)"
  obtains zs where "links m' (xs @ zs) e" and "spaced (xs @ zs)" and "start zs e = p" and "zs \<noteq> []" and "\<forall>c\<in>set (tl zs). 1 \<le> snd c"
    and "hd zs = (p, sp) \<or> sp \<noteq> 0 \<and> fst (hd zs) = p \<and> 1 \<le> snd (hd zs)" and "bytes_of zs = ivl (p, sp) \<union> ivl b \<union> bytes_of ys"
    and "\<forall>c\<in>set zs. fin c \<le> L" and "\<forall>x. unat x \<notin> ivl (p, sp) \<union> ivl b \<longrightarrow> m' x = m x" and "\<exists>c\<in>set zs. snd b \<le> snd c"
proof -
  let ?bp = "fst b"
  have L: "links m xs p" "ptr_of m p = start ys e" "size_of m p = of_nat sp" "links m ys e" "spaced ((p, sp) # ys)" "\<forall>c\<in>set xs. fin c \<le> unat p" "spaced xs"
    using l(1,2) by (auto simp: links_append spaced_simps)
  have sb: "spaced ((?bp, snd b) # ys)" using f(2) L(5) by (auto simp: spaced_simps)
  have flt: "fin c < 2 ^ 32" if "c \<in> set (b # xs @ (p, sp) # ys)" for c using f(3,4) that by (meson le_less_trans)
  then have fb: "fin (?bp, snd b) < 2 ^ 32" "fin (p, sp) < 2 ^ 32" by simp_all
  have ys: "\<forall>c\<in>set ys. 1 \<le> snd c \<and> fin c < 2 ^ 32" using l(3) flt by simp
  obtain s1 ys1 where u: "links (join_upper ?bp p m) ((?bp, s1) # ys1) e" "spaced ((?bp, s1) # ys1)" "1 \<le> s1"
    "bytes_of ((?bp, s1) # ys1) = ivl (?bp, snd b) \<union> bytes_of ys" "set ys1 \<subseteq> set ys" "fin (?bp, s1) \<in> {fin (?bp, snd b)} \<union> fin ` set ys"
    "\<forall>x. unat x < unat ?bp \<or> unat ?bp + 8 \<le> unat x \<longrightarrow> join_upper ?bp p m x = m x" "snd b \<le> s1"
    by (rule join_upper_ok [OF L(2) b(2,1) fb(1) L(4) sb ys e])
  have hp: "hdr p" "apart_hdr ?bp p" using f(1) fin_gt [of "(p, sp)"] fb(2) by (auto simp: hdr_def apart_hdr_def)
  have m1: "size_of (join_upper ?bp p m) p = of_nat sp" using frame_hdr [OF u(7) hp] L(3) by simp
  have fl: "\<forall>c\<in>set ((?bp, s1) # ys1). fin c \<le> L" using u(5,6) f(3) by auto
  have sl: "spaced ((p, sp) # (?bp, s1) # ys1)" using u(2,5) f(1) L(5) by (auto simp: spaced_simps)
  have fl2: "\<forall>c\<in>set ((?bp, s1) # ys1). fin c < 2 ^ 32" using fl f(4) le_less_trans by blast
  obtain zs where j: "links m' zs e" "spaced zs" "start zs e = p" "\<forall>c\<in>set (tl zs). c = (?bp, s1) \<or> c \<in> set ys1"
    "hd zs = (p, sp) \<or> sp \<noteq> 0 \<and> hd zs = (p, sp + s1)" "zs \<noteq> []" "bytes_of zs = ivl (p, sp) \<union> bytes_of ((?bp, s1) # ys1)"
    "fin (hd zs) \<in> {fin (p, sp), fin (?bp, s1)}" "\<forall>x. unat x < unat p \<or> unat p + 8 \<le> unat x \<longrightarrow> m' x = join_upper ?bp p m x"
    "\<exists>c\<in>set zs. s1 \<le> snd c"
    unfolding m'_def by (rule join_lower_ok [OF u(1) sl u(3) fl2 m1 fb(2)])
  have z: "zs = hd zs # tl zs" "fst (hd zs) = p" using j(5,6) by auto
  have "links m' xs p"
  proof (subst links_cong [of xs m' m])
    fix c
    assume "c \<in> set xs"
    then have c: "fin c \<le> unat p" "fin c \<le> L" using L(6) f(3) by auto
    then have a: "hdr (fst c)" "apart_hdr ?bp (fst c)" "apart_hdr p (fst c)"
      using fin_gt [of c] fin_gt [of "(p, sp)"] f(1,4) by (auto simp: hdr_def apart_hdr_def)
    show "ptr_of m' (fst c) = ptr_of m (fst c) \<and> size_of m' (fst c) = size_of m (fst c)"
      using frame_hdr [OF j(9) a(1,3)] frame_hdr [OF u(7) a(1,2)] by simp
  qed (rule L(1))
  then have 1: "links m' (xs @ zs) e" using j(1,3) by (simp add: links_append)
  have 2: "spaced (xs @ zs)"
  proof -
    have "unat p \<le> unat (fst d)" if "d \<in> set zs" for d
    proof (cases "d = hd zs")
      case False
      then have "fin (hd zs) \<le> unat (fst d)" using j(2) that z(1) by (metis spaced_simps(2) set_ConsD)
      then show ?thesis using fin_gt [of "hd zs"] z(2) by simp
    qed (use z in simp)
    then show ?thesis using L(6,7) j(2) le_trans unfolding spaced_simps by blast
  qed
  have "unat x < unat q \<or> unat q + 8 \<le> unat x" if "unat x \<notin> ivl (q, n)" for x q n
    using that fin_gt [of "(q, n)"] by (auto simp: ivl_def)
  then have 3: "\<forall>x. unat x \<notin> ivl (p, sp) \<union> ivl b \<longrightarrow> m' x = m x" using j(9) u(7) by (metis UnCI prod.collapse)
  have 4: "\<forall>c\<in>set (tl zs). 1 \<le> snd c" using j(4) u(3,5) l(3) by (metis snd_conv subsetD)
  have 5: "hd zs = (p, sp) \<or> sp \<noteq> 0 \<and> fst (hd zs) = p \<and> 1 \<le> snd (hd zs)" using j(5) by auto
  have 6: "bytes_of zs = ivl (p, sp) \<union> ivl b \<union> bytes_of ys" using j(7) u(4) by auto
  have 7: "\<forall>c\<in>set zs. fin c \<le> L"
  proof
    fix c
    assume "c \<in> set zs"
    then have "c = hd zs \<or> c \<in> set (tl zs)" using z(1) by (metis set_ConsD)
    then show "fin c \<le> L" using j(4,8) fl f(3) by auto
  qed
  have 8: "\<exists>c\<in>set zs. snd b \<le> snd c" using j(10) u(8) le_trans by blast
  show thesis by (rule that [OF 1 2 j(3,6) 4 5 6 7 3 8])
qed

text \<open>
  \<^verbatim>\<open>free\<close> of a block that is not on the list returns, and the list has exactly its bytes more. Only free memory is written.
\<close>

lemma free_ok:
  assumes ok: "heap_ok h bs" and b: "1 \<le> snd b" "size_of (h_mem h) (fst b) = of_nat (snd b)" "fin b \<le> unat (h_brk h)"
    and dj: "ivl b \<inter> bytes_of bs = {}" and base: "base h < fst b"
  obtains h' bs' where "free (fst b + 8) h = Some h'" and "heap_ok h' bs'" and "bytes_of bs' = bytes_of bs \<union> ivl b"
    and "base h' = base h" and "h_brk h' = h_brk h" and "\<exists>c\<in>set bs'. snd b \<le> snd c"
    and "\<forall>x. unat x \<notin> bytes_of bs \<union> ivl b \<longrightarrow> h_mem h' x = h_mem h x"
proof -
  note H = ok [unfolded heap_ok_def]
  obtain xs p sp ys where s: "bs = xs @ (p, sp) # ys" "p < fst b" "fin (p, sp) \<le> unat (fst b)" "\<forall>c\<in>set ys. fin b \<le> unat (fst c)"
    "xs = [] \<longrightarrow> (p, sp) = (base h, 0)" by (rule split_at_block [OF ok dj base])
  have B: "unat (h_brk h) < 2 ^ 32" using unsigned_less [of "h_brk h", where ?'a = nat] by simp
  have l: "links (h_mem h) (xs @ (p, sp) # ys) (base h)" "spaced (xs @ (p, sp) # ys)" using H s(1) by auto
  have pos: "\<forall>c\<in>set ys. 1 \<le> snd c" "\<forall>c\<in>set (tl xs). 1 \<le> snd c" using H s(1) by (cases xs; auto)+
  have f: "\<forall>c\<in>set (b # xs @ (p, sp) # ys). fin c \<le> unat (h_brk h)" using H s(1) b(3) by auto
  let ?m = "join_lower (fst b) p (join_upper (fst b) p (h_mem h))"
  obtain zs where z: "links ?m (xs @ zs) (base h)" "spaced (xs @ zs)" "start zs (base h) = p" "zs \<noteq> []" "\<forall>c\<in>set (tl zs). 1 \<le> snd c"
    "hd zs = (p, sp) \<or> sp \<noteq> 0 \<and> fst (hd zs) = p \<and> 1 \<le> snd (hd zs)" "bytes_of zs = ivl (p, sp) \<union> ivl b \<union> bytes_of ys"
    "\<forall>c\<in>set zs. fin c \<le> unat (h_brk h)" "\<forall>x. unat x \<notin> ivl (p, sp) \<union> ivl b \<longrightarrow> ?m x = h_mem h x" "\<exists>c\<in>set zs. snd b \<le> snd c"
    by (rule joins_ok [OF l pos(1) b(1,2) s(3,4) f B base])
  have ys: "\<forall>c\<in>set ys. fst b < fst c" using s(4) fin_gt [of b] by (auto simp: word_less_nat_alt)
  have st: "start (xs @ [(p, sp)]) (base h) = base h" using H s(1) by (cases xs) auto
  have "base h \<le> p"
  proof (cases xs)
    case Nil
    then show ?thesis using s(5) by simp
  next
    case (Cons x xs')
    then have "fin x \<le> unat p" "x = (base h, 0)" using l(2) H s(1) by (auto simp: spaced_simps)
    then show ?thesis using fin_gt [of x] by (simp add: word_le_nat_alt)
  qed
  then have ff: "free_find (h_mem h) (fst b) (freep h) = Some p"
    using free_find_ok [OF l, of "fst b"] s(1,2) ys st H by simp
  have pz: "p \<in> fst ` set zs" using z(3,4) by (cases zs) auto
  have hdz: "hd (xs @ zs) = (base h, 0)" using H s(1,5) z(4,6) by (cases xs) auto
  have posz: "1 \<le> snd c" if "c \<in> set (tl (xs @ zs))" for c
  proof (cases xs)
    case (Cons x xs')
    then have "1 \<le> sp" using H s(1) by auto
    then have "1 \<le> snd d" if "d \<in> set zs" for d using that z(4,5,6) by (cases zs) auto
    moreover have "c \<in> set xs' \<or> c \<in> set zs" using that Cons by simp
    ultimately show ?thesis using Cons pos(2) by (metis list.sel(3))
  qed (use that z(5) in simp)
  let ?h = "h\<lparr>h_mem := ?m, freep := p\<rparr>"
  have "heap_ok ?h (xs @ zs)"
    unfolding heap_ok_def using H z(1,2,4,8) f pz hdz posz by (simp add: ball_Un image_Un)
  then have ok': "heap_ok ?h (xs @ zs)" .
  have fr: "free (fst b + 8) h = Some ?h" using ff by (simp add: free_def Let_def)
  show thesis
    by (rule that [OF fr ok']) (use z(7,9,10) s(1) in auto)
qed

subsection \<open>More memory\<close>

text \<open>The kernel keeps the memory of a process below the end of the address space.\<close>

definition grant_ok :: "(uint \<Rightarrow> uint \<Rightarrow> bool) \<Rightarrow> bool" where
  "grant_ok grants \<longleftrightarrow> (\<forall>b n. grants b n \<longrightarrow> unat b + unat n < 2 ^ 32)"

lemma heap_above: "heap_ok h bs \<Longrightarrow> b \<in> set bs \<Longrightarrow> unat (base h) \<le> unat (fst b) \<and> fst b \<noteq> 0"
proof -
  assume ok: "heap_ok h bs" and b: "b \<in> set bs"
  obtain cs where bs: "bs = (base h, 0) # cs" using ok by (cases bs) (auto simp: heap_ok_def)
  have "b = (base h, 0) \<or> fin (base h, 0) \<le> unat (fst b)" using ok b bs by (auto simp: heap_ok_def spaced_simps)
  then have "unat (base h) \<le> unat (fst b)" using fin_gt [of "(base h, 0)"] by auto
  moreover have "unat (base h) \<noteq> 0" using ok by (auto simp: heap_ok_def unat_eq_0)
  ultimately show ?thesis by (auto simp: unat_eq_0)
qed

lemma morecore_ok:
  assumes ok: "heap_ok h bs" and g: "grant_ok grants" and nu: "unat nu < 2 ^ 29"
  obtains "morecore grants nu h = Some (0, h)"
  | h' bs' where "morecore grants nu h = Some (freep h', h')" and "heap_ok h' bs'" and "unat (h_brk h) < unat (h_brk h')"
    and "bytes_of bs' = bytes_of bs \<union> {unat (h_brk h)..<unat (h_brk h')}" and "base h' = base h" and "\<exists>c\<in>set bs'. unat nu \<le> snd c"
    and "\<forall>x. unat x \<notin> bytes_of bs' \<longrightarrow> h_mem h' x = h_mem h x"
proof (cases "grants (h_brk h) ((if nu < 4096 then 4096 else nu) * 8)")
  case False
  then show ?thesis using that(1) by (simp add: morecore_def sbrk_def Let_def)
next
  case True
  let ?nu = "if nu < 4096 then 4096 else nu" and ?p = "h_brk h"
  let ?b = "(?p, unat ?nu)" and ?h = "h\<lparr>h_brk := ?p + ?nu * 8, h_mem := st32 (h_mem h) (?p + 4) ?nu\<rparr>"
  note H = ok [unfolded heap_ok_def]
  have n8: "unat (?nu * 8) = 8 * unat ?nu" "1 \<le> unat ?nu" "unat nu \<le> unat ?nu"
    using nu by (auto simp: unat_word_ariths word_less_nat_alt)
  have lim: "unat ?p + 8 * unat ?nu < 2 ^ 32" using g [unfolded grant_ok_def, rule_format, OF True] unfolding n8(1) .
  then have brk: "unat (?p + ?nu * 8) = unat ?p + 8 * unat ?nu" by (subst unat_plus_if') (simp add: n8(1))
  have hp: "hdr ?p" using lim n8(2) by (simp add: hdr_def)
  have ap: "hdr (fst c) \<and> apart_hdr ?p (fst c)" if "c \<in> set bs" for c
    using heap_hdr [OF ok that] H that fin_gt [of c] by (auto simp: apart_hdr_def)
  have "links (st32 (h_mem h) (?p + 4) ?nu) bs (base h) = links (h_mem h) bs (base h)"
    by (rule links_cong) (use ap hdr_other [OF hp] in blast)
  then have ok': "heap_ok ?h bs" using H brk unfolding heap_ok_def by auto
  have b: "1 \<le> snd ?b" "size_of (h_mem ?h) (fst ?b) = of_nat (snd ?b)" "fin ?b \<le> unat (h_brk ?h)" "fin ?b = unat (h_brk ?h)"
    using n8(2) brk by (simp_all add: fin_def)
  have dj: "ivl ?b \<inter> bytes_of bs = {}" using H by (fastforce simp: bytes_of_def ivl_def)
  have "unat (base h) + 8 \<le> unat ?p" using H fin_gt [of "(base h, 0)"] by (cases bs) auto
  then have base: "base ?h < fst ?b" by (simp add: word_less_nat_alt)
  obtain h' bs' where f: "free (fst ?b + 8) ?h = Some h'" "heap_ok h' bs'" "bytes_of bs' = bytes_of bs \<union> ivl ?b" "base h' = base ?h"
    "h_brk h' = h_brk ?h" "\<exists>c\<in>set bs'. snd ?b \<le> snd c" "\<forall>x. unat x \<notin> bytes_of bs \<union> ivl ?b \<longrightarrow> h_mem h' x = h_mem ?h x"
    by (rule free_ok [OF ok' b(1-3) dj base])
  have iv: "ivl ?b = {unat ?p..<unat (h_brk h')}" using b(4) f(5) by (simp add: ivl_def)
  have mc: "morecore grants nu h = Some (freep h', h')"
  proof -
    have "?p \<noteq> - 1" using lim n8(2) by (auto simp: unat_minus_1_max)
    then show ?thesis using True f(1) unfolding morecore_def sbrk_def Let_def by (simp split del: if_split)
  qed
  have "\<forall>x. unat x \<notin> bytes_of bs' \<longrightarrow> h_mem h' x = h_mem h x"
  proof (intro allI impI)
    fix x :: uint
    assume x: "unat x \<notin> bytes_of bs'"
    then have "unat x < unat ?p \<or> unat ?p + 8 \<le> unat x" using f(3) fin_gt [of ?b] by (auto simp: ivl_def)
    then show "h_mem h' x = h_mem h x" using f(3,7) x st32_frame(2) [OF hp] by simp
  qed
  then show ?thesis using that(2) [OF mc f(2)] f(3,4,5,6) iv brk n8(2,3) by (auto intro: order_trans)
qed

subsection \<open>Allocating\<close>

lemma size_small: "heap_ok h bs \<Longrightarrow> b \<in> set bs \<Longrightarrow> snd b < 2 ^ 29"
  using unsigned_less [of "h_brk h", where ?'a = nat] by (fastforce simp: heap_ok_def fin_def)

lemma unat_small_29: "n < 2 ^ 29 \<Longrightarrow> unat (of_nat n :: uint) = n"
  unfolding unat_of_nat by (rule mod_less) simp

lemma heap_size: "heap_ok h bs \<Longrightarrow> b \<in> set bs \<Longrightarrow> size_of (h_mem h) (fst b) = of_nat (snd b)"
proof -
  assume ok: "heap_ok h bs" and "b \<in> set bs"
  then obtain us vs where "bs = us @ b # vs" by (meson split_list)
  then show ?thesis using ok by (auto simp: heap_ok_def links_append)
qed

text \<open>The tail of a block is a block, and so is what it leaves.\<close>

lemma ivl_split:
  assumes "n < s" and "1 \<le> n" and "unat q = unat p + 8 * (s - n)"
  shows "ivl (p, s) = ivl (p, s - n) \<union> ivl (q, n)" and "ivl (p, s - n) \<inter> ivl (q, n) = {}" and "fin (q, n) = fin (p, s)" and "fin (p, s - n) = unat q"
  using ivl_join(1) [of "s - n" n p q] ivl_join(2) [of "s - n" n p q] assms by (auto simp: ivl_def fin_def)

lemma spaced_apart: "spaced (xs @ c # ys) \<Longrightarrow> b \<in> set xs \<union> set ys \<Longrightarrow> apart_hdr (fst c) (fst b)"
  using fin_gt [of b] fin_gt [of c] by (fastforce simp: spaced_simps apart_hdr_def)

lemma relink:
  assumes l: "links m xs (fst c)" "size_of m (fst c) = of_nat (snd c)" "links m ys e" and s: "spaced (xs @ c # ys)"
    and h: "\<And>b. b \<in> set (xs @ c # ys) \<Longrightarrow> hdr (fst b)"
  shows "links (st32 m (fst c) (start ys e)) (xs @ c # ys) e"
proof -
  have hc: "hdr (fst c)" using h by simp
  have A: "hdr (fst b) \<and> apart_hdr (fst c) (fst b)" if "b \<in> set xs \<union> set ys" for b
    using spaced_apart [OF s that] h [of b] that by auto
  have "links (st32 m (fst c) (start ys e)) zs f = links m zs f" if "set zs \<subseteq> set xs \<union> set ys" for zs f
    by (rule links_cong) (use that hdr_other [OF hc] A in blast)
  then show ?thesis using l hdr_same [OF hc] by (simp add: links_append)
qed

lemma resize:
  assumes l: "links m (xs @ c # ys) e" and s: "spaced (xs @ c # ys)" and h: "\<And>b. b \<in> set (xs @ c # ys) \<Longrightarrow> hdr (fst b)"
  shows "links (st32 m (fst c + 4) (of_nat n)) (xs @ (fst c, n) # ys) e"
proof -
  have hc: "hdr (fst c)" using h by simp
  have A: "hdr (fst b) \<and> apart_hdr (fst c) (fst b)" if "b \<in> set xs \<union> set ys" for b
    using spaced_apart [OF s that] h [of b] that by auto
  have "links (st32 m (fst c + 4) (of_nat n)) zs f = links m zs f" if "set zs \<subseteq> set xs \<union> set ys" for zs f
    by (rule links_cong) (use that hdr_other [OF hc] A in blast)
  then show ?thesis using l hdr_same [OF hc] by (simp add: links_append)
qed

lemma heap_disjoint:
  assumes ok: "heap_ok h bs" and bs: "bs = xs @ d # ys"
  shows "ivl d \<inter> bytes_of (xs @ ys) = {}"
  using ok unfolding heap_ok_def bs by (fastforce simp: spaced_simps bytes_of_def ivl_def)

text \<open>The block that \<^verbatim>\<open>malloc\<close> takes: \<open>n\<close> units at \<open>a\<close>, out of the free block \<open>d\<close>.\<close>

definition taken_from :: "heap \<Rightarrow> block list \<Rightarrow> nat \<Rightarrow> uint \<Rightarrow> heap \<Rightarrow> bool" where
  "taken_from h bs n a h' \<longleftrightarrow> (\<exists>bs'. heap_ok h' bs' \<and> ivl (a, n) \<subseteq> bytes_of bs \<and> bytes_of bs' = bytes_of bs - ivl (a, n))
     \<and> size_of (h_mem h') a = of_nat n \<and> (\<forall>x. unat x \<notin> bytes_of bs \<longrightarrow> h_mem h' x = h_mem h x)
     \<and> base h < a \<and> base h' = base h \<and> h_brk h' = h_brk h"

lemma take_exact_ok:
  assumes ok: "heap_ok h (xs @ c # d # ys)" and n: "1 \<le> snd d"
  shows "taken_from h (xs @ c # d # ys) (snd d) (fst d) (h\<lparr>h_mem := st32 (h_mem h) (fst c) (ptr_of (h_mem h) (fst d)), freep := fst c\<rparr>)"
proof -
  let ?bs = "xs @ c # d # ys" and ?m = "h_mem h"
  note H = ok [unfolded heap_ok_def]
  have l: "links ?m xs (fst c)" "size_of ?m (fst c) = of_nat (snd c)" "ptr_of ?m (fst d) = start ys (base h)"
    "size_of ?m (fst d) = of_nat (snd d)" "links ?m ys (base h)" using H unfolding links_append by auto
  have s: "spaced ?bs" "spaced (xs @ c # ys)" using H by (auto simp: spaced_simps)
  have h: "hdr (fst b)" if "b \<in> set ?bs" for b using heap_hdr [OF ok that] .
  have hc: "hdr (fst c)" using h by simp
  have lk: "links (st32 ?m (fst c) (start ys (base h))) (xs @ c # ys) (base h)" by (rule relink [OF l(1,2,5) s(2)]) (use h in auto)
  have dj: "ivl d \<inter> bytes_of ((xs @ [c]) @ ys) = {}" by (rule heap_disjoint [OF ok]) simp
  let ?h = "h\<lparr>h_mem := st32 ?m (fst c) (ptr_of ?m (fst d)), freep := fst c\<rparr>"
  have "\<forall>b\<in>set (tl (xs @ c # ys)). 1 \<le> snd b" using H by (cases xs) auto
  moreover have "hd (xs @ c # ys) = (base h, 0)" using H by (cases xs) auto
  ultimately have ok': "heap_ok ?h (xs @ c # ys)" unfolding heap_ok_def using H lk s(2) l(3) by auto
  have d: "ivl (fst d, snd d) = ivl d" by simp
  have "apart_hdr (fst c) (fst d)" using spaced_apart [of xs c "d # ys" d] s(1) by simp
  then have sz: "size_of (h_mem ?h) (fst d) = of_nat (snd d)" using hdr_other(2) [OF hc] h [of d] l(4) by simp
  have fr: "h_mem ?h x = ?m x" if "unat x \<notin> bytes_of ?bs" for x
    using that st32_frame(1) [OF hc] fin_gt [of c] by (auto simp: ivl_def)
  have "base h < fst d"
  proof -
    have "base h = fst (hd (xs @ [c]))" using H by (cases xs) auto
    moreover have "fin (hd (xs @ [c])) \<le> unat (fst d)" using s(1) by (cases xs) (auto simp: spaced_simps)
    ultimately show ?thesis using fin_gt [of "hd (xs @ [c])"] by (simp add: word_less_nat_alt)
  qed
  then show ?thesis unfolding taken_from_def using ok' dj sz fr by (auto intro!: exI [of _ "xs @ c # ys"])
qed

lemma take_tail_ok:
  assumes ok: "heap_ok h (xs @ c # d # ys)" and n: "1 \<le> n" "n < snd d"
  defines "rest \<equiv> of_nat (snd d - n) :: uint"
  defines "a \<equiv> fst d + 8 * rest"
  shows "taken_from h (xs @ c # d # ys) n a
    (h\<lparr>h_mem := st32 (st32 (h_mem h) (fst d + 4) rest) (a + 4) (of_nat n), freep := fst c\<rparr>)"
proof -
  let ?bs = "xs @ c # d # ys" and ?m = "h_mem h" and ?d = "(fst d, snd d - n)"
  let ?cs = "(xs @ [c]) @ ?d # ys" and ?m1 = "st32 (h_mem h) (fst d + 4) rest"
  note H = ok [unfolded heap_ok_def]
  have h: "hdr (fst b)" if "b \<in> set ?bs" for b using heap_hdr [OF ok that] .
  have hd: "hdr (fst d)" using h by simp
  have lim: "fin d \<le> unat (h_brk h)" "unat (h_brk h) < 2 ^ 32" using H unsigned_less [of "h_brk h", where ?'a = nat] by auto
  have "fin ?d \<le> fin d" by (simp add: fin_def)
  then have ua: "unat a = unat (fst d) + 8 * (snd d - n)" unfolding a_def rest_def using lim by (intro unat_block_end) simp
  note V = ivl_split [OF n(2,1) ua, simplified]
  have ha: "hdr a" using V(3) lim fin_gt [of "(a, n)"] by (simp add: hdr_def)
  have s: "spaced ?bs" "spaced ((xs @ [c]) @ d # ys)" using H by simp_all
  have s': "spaced ?cs" using s(2) V(3,4) fin_gt [of "(a, n)"] by (auto simp: spaced_simps)
  have "links ?m1 ?cs (base h)" unfolding rest_def by (rule resize [OF _ s(2)]) (use H h in auto)
  moreover have A: "apart_hdr a (fst b)" if "b \<in> set ?cs" for b
  proof (cases "b = ?d")
    case True
    then show ?thesis using ua n by (auto simp: apart_hdr_def)
  next
    case False
    then have "fin b \<le> unat (fst d) \<or> fin d \<le> unat (fst b)" using s(2) that by (auto simp: spaced_simps)
    then show ?thesis using fin_gt [of b] fin_gt [of "(a, n)"] V(3) ua by (auto simp: apart_hdr_def)
  qed
  moreover have hcs: "hdr (fst b)" if "b \<in> set ?cs" for b using that h [of b] hd by auto
  ultimately have lk: "links (st32 ?m1 (a + 4) (of_nat n)) ?cs (base h)"
    by (subst links_cong [of ?cs _ ?m1]) (use hdr_other [OF ha] in blast)+
  let ?h = "h\<lparr>h_mem := st32 ?m1 (a + 4) (of_nat n), freep := fst c\<rparr>"
  have "\<forall>b\<in>set (tl ?cs). 1 \<le> snd b" using H n by (cases xs) auto
  moreover have "hd ?cs = (base h, 0)" using H by (cases xs) auto
  moreover have "\<forall>b\<in>set ?cs. fin b \<le> unat (h_brk h)" using H \<open>fin ?d \<le> fin d\<close> by auto
  ultimately have ok': "heap_ok ?h ?cs" unfolding heap_ok_def using H lk s' by auto
  have sub: "ivl (a, n) \<subseteq> ivl d" using V(1) by auto
  have "ivl d \<inter> bytes_of ((xs @ [c]) @ ys) = {}" by (rule heap_disjoint [OF ok]) simp
  then have by': "bytes_of ?cs = bytes_of ?bs - ivl (a, n)" using V(1,2) by auto
  have fr: "h_mem ?h x = ?m x" if "unat x \<notin> bytes_of ?bs" for x
    using that sub st32_frame(2) [OF hd] st32_frame(2) [OF ha] fin_gt [of d] fin_gt [of "(a, n)"] by (auto simp: ivl_def)
  have "0 < snd d - n" "unat (base h) \<le> unat (fst d)" using n heap_above [OF ok, of d] by simp_all
  then have "base h < a" unfolding word_less_nat_alt ua by linarith
  then show ?thesis unfolding taken_from_def using ok' by' sub fr by (auto intro!: exI [of _ ?cs])
qed

lemma take_block_ok:
  assumes ok: "heap_ok h (xs @ c # d # ys)" and n: "1 \<le> n" "n \<le> snd d"
  obtains a m' where "take_block (of_nat n) (fst c) (fst d) (h_mem h) = (a, m')"
    and "taken_from h (xs @ c # d # ys) n a (h\<lparr>h_mem := m', freep := fst c\<rparr>)"
proof -
  have sz: "size_of (h_mem h) (fst d) = of_nat (snd d)" by (rule heap_size [OF ok]) simp
  have "snd d < 2 ^ 29" by (rule size_small [OF ok]) simp
  then have u: "(of_nat (snd d) :: uint) = of_nat n \<longleftrightarrow> snd d = n" "(of_nat (snd d) - of_nat n :: uint) = of_nat (snd d - n)"
    unfolding word_unat_eq_iff using n by (simp_all add: unat_small_29 of_nat_diff)
  show thesis
  proof (cases "snd d = n")
    case True
    then show ?thesis
      using that [of "fst d"] take_exact_ok [OF ok] sz n by (simp add: take_block_def)
  next
    case False
    then have "taken_from h (xs @ c # d # ys) n (fst d + 8 * of_nat (snd d - n))
        (h\<lparr>h_mem := st32 (st32 (h_mem h) (fst d + 4) (of_nat (snd d - n))) (fst d + 8 * of_nat (snd d - n) + 4) (of_nat n), freep := fst c\<rparr>)"
      by (intro take_tail_ok [OF ok n(1)]) (use n in simp)
    moreover have "take_block (of_nat n) (fst c) (fst d) (h_mem h) = (fst d + 8 * of_nat (snd d - n),
        st32 (st32 (h_mem h) (fst d + 4) (of_nat (snd d - n))) (fst d + 8 * of_nat (snd d - n) + 4) (of_nat n))"
      using False unfolding take_block_def sz Let_def u(2) by (simp only: u(1) if_False)
    ultimately show ?thesis using that by blast
  qed
qed

text \<open>The ring walked from a block: each pointer leads to the next block.\<close>

primrec path :: "mem \<Rightarrow> block \<Rightarrow> block list \<Rightarrow> bool" where
  "path m b [] \<longleftrightarrow> True"
| "path m b (c # cs) \<longleftrightarrow> ptr_of m (fst b) = fst c \<and> path m c cs"

lemma links_path: "links m (b # bs) (fst c) \<Longrightarrow> path m b (bs @ [c])"
  by (induction bs arbitrary: b) auto

lemma path_append: "path m b (xs @ c # ys) \<longleftrightarrow> path m b (xs @ [c]) \<and> path m c ys"
  by (induction xs arbitrary: b) auto

lemma ring_path:
  assumes ok: "heap_ok h (us @ f # vs)"
  shows "path (h_mem h) f (vs @ us @ [f])"
proof -
  let ?m = "h_mem h"
  have l: "links ?m us (fst f)" "links ?m (f # vs) (base h)" "hd (us @ f # vs) = (base h, 0)" using ok by (auto simp: heap_ok_def links_append)
  show ?thesis
  proof (cases us)
    case Nil
    then show ?thesis using links_path [of ?m f vs f] l by simp
  next
    case (Cons u ws)
    then have "fst u = base h" using l(3) by simp
    then have "path ?m f (vs @ [u])" "path ?m u (ws @ [f])" using links_path l(1,2) Cons by auto
    then show ?thesis using path_append [of ?m f vs u "ws @ [f]"] Cons by simp
  qed
qed

lemma spaced_order: "spaced bs \<Longrightarrow> x \<in> set bs \<Longrightarrow> y \<in> set bs \<Longrightarrow> x \<noteq> y \<Longrightarrow> fin x \<le> unat (fst y) \<or> fin y \<le> unat (fst x)"
  by (induction bs) (auto simp: spaced_simps)

text \<open>Two blocks of the ring that follow each other are neighbours in the list, unless the second one is \<^verbatim>\<open>base\<close>.\<close>

lemma ring_neighbours:
  assumes ok: "heap_ok h bs" and c: "c \<in> set bs" and d: "d \<in> set bs" "1 \<le> snd d" and p: "ptr_of (h_mem h) (fst c) = fst d"
  obtains xs ys where "bs = xs @ c # d # ys"
proof -
  note H = ok [unfolded heap_ok_def]
  obtain xs rest where r: "bs = xs @ c # rest" using c by (meson split_list)
  have q: "fst d = start rest (base h)" using H p unfolding r links_append by auto
  have inj: "x = y" if "x \<in> set bs" "y \<in> set bs" "fst x = fst y" for x y
  proof (rule ccontr)
    assume "x \<noteq> y"
    then have "fin x \<le> unat (fst y) \<or> fin y \<le> unat (fst x)"
      using spaced_order [of bs x y] H that(1,2) by blast
    then show False using that(3) fin_gt [of x] fin_gt [of y] by auto
  qed
  have "(base h, 0) \<in> set bs" using H by (metis hd_in_set)
  then have "fst d \<noteq> base h" using inj [of d "(base h, 0)"] d by auto
  then obtain e ys where "rest = e # ys" using q by (cases rest) auto
  moreover have "e = d" using inj [of e d] q d(1) r calculation by simp
  ultimately show thesis using that r by blast
qed

text \<open>
  The scan from behind \<open>b\<close> to the block of \<^verbatim>\<open>freep\<close>, the last one of \<open>ws\<close>: it takes from the first block that is large enough, or asks
  for more memory at the end.
\<close>

lemma malloc_scan:
  assumes ok: "heap_ok h bs" and "path (h_mem h) b (zs @ [f])" and "set (b # zs @ [f]) \<subseteq> set bs" and "fst f = freep h" and "\<forall>z\<in>set zs. fst z \<noteq> freep h"
  obtains c d where "c \<in> set bs" and "d \<in> set bs" and "ptr_of (h_mem h) (fst c) = fst d" and "unat n \<le> snd d"
    and "iterate (malloc_step grants n) (fst b, start (zs @ [f]) 0, h) =
      (case take_block n (fst c) (fst d) (h_mem h) of (p, m) \<Rightarrow> Some (p + 8, h\<lparr>h_mem := m, freep := fst c\<rparr>))"
  | "\<forall>d\<in>set (zs @ [f]). snd d < unat n"
    and "iterate (malloc_step grants n) (fst b, start (zs @ [f]) 0, h) =
      Option.bind (morecore grants n h) (\<lambda>(p, h). if p = 0 then Some (0, h) else iterate (malloc_step grants n) (p, ptr_of (h_mem h) p, h))"
  using assms(2-)
proof (induction zs arbitrary: b thesis)
  case Nil
  have f: "f \<in> set bs" "b \<in> set bs" "ptr_of (h_mem h) (fst b) = fst f" using Nil.prems(3,4) by auto
  have sz: "size_of (h_mem h) (fst f) = of_nat (snd f)" "unat (of_nat (snd f) :: uint) = snd f"
    using heap_size [OF ok f(1)] size_small [OF ok f(1)] by (simp_all add: unat_small_29)
  show ?case
  proof (cases "unat n \<le> snd f")
    case True
    then show ?thesis using f sz
      by (intro Nil.prems(1) [of b f]) (auto simp: malloc_step_def word_le_nat_alt split: prod.split intro!: iterate_end)
  next
    case False
    show ?thesis
    proof (rule Nil.prems(2))
      show "\<forall>d\<in>set ([] @ [f]). snd d < unat n" using False by simp
      show "iterate (malloc_step grants n) (fst b, start ([] @ [f]) 0, h) =
        Option.bind (morecore grants n h) (\<lambda>(p, h). if p = 0 then Some (0, h) else iterate (malloc_step grants n) (p, ptr_of (h_mem h) p, h))"
        using False sz Nil.prems(5)
        by (subst iterate.simps) (auto simp: malloc_step_def word_le_nat_alt Option.bind_map_option comp_def intro!: Option.bind_cong)
    qed
  qed
next
  case (Cons z zs)
  have z: "z \<in> set bs" "b \<in> set bs" "ptr_of (h_mem h) (fst b) = fst z" "fst z \<noteq> freep h" using Cons.prems(3,4,6) by auto
  have sz: "size_of (h_mem h) (fst z) = of_nat (snd z)" "unat (of_nat (snd z) :: uint) = snd z"
    using heap_size [OF ok z(1)] size_small [OF ok z(1)] by (simp_all add: unat_small_29)
  show ?case
  proof (cases "unat n \<le> snd z")
    case True
    then show ?thesis using z sz
      by (intro Cons.prems(1) [of b z]) (auto simp: malloc_step_def word_le_nat_alt split: prod.split intro!: iterate_end)
  next
    case False
    have q: "ptr_of (h_mem h) (fst z) = start (zs @ [f]) 0" using Cons.prems(3) by (cases zs) auto
    have e: "iterate (malloc_step grants n) (fst b, start ((z # zs) @ [f]) 0, h) = iterate (malloc_step grants n) (fst z, start (zs @ [f]) 0, h)"
      by (rule iterate_next) (use False sz z(4) q in \<open>simp add: malloc_step_def word_le_nat_alt\<close>)
    show ?thesis
      by (rule Cons.IH [of z]) (use Cons.prems False e in auto)
  qed
qed

lemma malloc_round:
  assumes ok: "heap_ok h bs" and n: "1 \<le> unat n"
  obtains a h' where "iterate (malloc_step grants n) (freep h, ptr_of (h_mem h) (freep h), h) = Some (a + 8, h')" and "taken_from h bs (unat n) a h'"
  | "\<forall>d\<in>set bs. snd d < unat n"
    and "iterate (malloc_step grants n) (freep h, ptr_of (h_mem h) (freep h), h) =
      Option.bind (morecore grants n h) (\<lambda>(p, h). if p = 0 then Some (0, h) else iterate (malloc_step grants n) (p, ptr_of (h_mem h) p, h))"
proof -
  obtain f us vs where f: "fst f = freep h" "bs = us @ f # vs" using ok unfolding heap_ok_def by (metis imageE split_list)
  have sp: "spaced (us @ f # vs)" using ok f(2) by (simp add: heap_ok_def)
  have path: "path (h_mem h) f ((vs @ us) @ [f])" using ring_path [of h us f vs] ok f(2) by simp
  have zs: "\<forall>z\<in>set (vs @ us). fst z \<noteq> freep h"
  proof (intro ballI notI)
    fix z
    assume "z \<in> set (vs @ us)" "fst z = freep h"
    then show False using spaced_apart [OF sp, of z] f(1) by (auto simp: apart_hdr_def)
  qed
  have set: "set (f # (vs @ us) @ [f]) \<subseteq> set bs" "set ((vs @ us) @ [f]) = set bs" using f(2) by auto
  have q: "start ((vs @ us) @ [f]) 0 = ptr_of (h_mem h) (freep h)" using path f(1) by (cases "vs @ us") auto
  show thesis
  proof (rule malloc_scan [OF ok path set(1) f(1) zs, of n grants])
    fix c d
    assume c: "c \<in> set bs" "d \<in> set bs" "ptr_of (h_mem h) (fst c) = fst d" "unat n \<le> snd d"
      and i: "iterate (malloc_step grants n) (fst f, start ((vs @ us) @ [f]) 0, h) =
        (case take_block n (fst c) (fst d) (h_mem h) of (p, m) \<Rightarrow> Some (p + 8, h\<lparr>h_mem := m, freep := fst c\<rparr>))"
    have "1 \<le> snd d" using n c(4) by simp
    then obtain xs ys where bs: "bs = xs @ c # d # ys" by (rule ring_neighbours [OF ok c(1,2) _ c(3)])
    obtain a m' where "take_block (of_nat (unat n)) (fst c) (fst d) (h_mem h) = (a, m')" "taken_from h bs (unat n) a (h\<lparr>h_mem := m', freep := fst c\<rparr>)"
      using take_block_ok [OF ok [unfolded bs] n c(4)] bs by metis
    then show thesis using that(1) i q f(1) by simp
  next
    assume a: "\<forall>d\<in>set ((vs @ us) @ [f]). snd d < unat n" and i: "iterate (malloc_step grants n) (fst f, start ((vs @ us) @ [f]) 0, h) =
      Option.bind (morecore grants n h) (\<lambda>(p, h). if p = 0 then Some (0, h) else iterate (malloc_step grants n) (p, ptr_of (h_mem h) p, h))"
    then show thesis using that(2) a [unfolded set(2)] i [unfolded q f(1)] by blast
  qed
qed

text \<open>
  \<^verbatim>\<open>malloc\<close> on a heap that has been set up returns: 0 when the kernel refuses more memory, with the heap as it was, or a block
  taken out of the free memory, to which more may have been added at its end.
\<close>

lemma malloc_ok:
  assumes ok: "heap_ok h bs" and g: "grant_ok grants" and n: "1 \<le> unat n" "unat n < 2 ^ 29"
  obtains "iterate (malloc_step grants n) (freep h, ptr_of (h_mem h) (freep h), h) = Some (0, h)"
  | a h1 bs1 h' where "iterate (malloc_step grants n) (freep h, ptr_of (h_mem h) (freep h), h) = Some (a + 8, h')" and "taken_from h1 bs1 (unat n) a h'"
    and "heap_ok h1 bs1" and "base h1 = base h" and "unat (h_brk h) \<le> unat (h_brk h1)"
    and "bytes_of bs1 = bytes_of bs \<union> {unat (h_brk h)..<unat (h_brk h1)}"
    and "\<forall>x. unat x \<notin> bytes_of bs1 \<longrightarrow> h_mem h1 x = h_mem h x"
proof (rule malloc_round [OF ok n(1), of grants])
  fix a h'
  assume "iterate (malloc_step grants n) (freep h, ptr_of (h_mem h) (freep h), h) = Some (a + 8, h')" "taken_from h bs (unat n) a h'"
  then show thesis using that(2) [of a h' h bs] ok by simp
next
  assume i: "iterate (malloc_step grants n) (freep h, ptr_of (h_mem h) (freep h), h) =
      Option.bind (morecore grants n h) (\<lambda>(p, h). if p = 0 then Some (0, h) else iterate (malloc_step grants n) (p, ptr_of (h_mem h) p, h))"
  show thesis
  proof (rule morecore_ok [OF ok g n(2)])
    assume "morecore grants n h = Some (0, h)"
    then show thesis using i that(1) by simp
  next
    fix h1 bs1
    assume m: "morecore grants n h = Some (freep h1, h1)" "heap_ok h1 bs1" "unat (h_brk h) < unat (h_brk h1)"
      "bytes_of bs1 = bytes_of bs \<union> {unat (h_brk h)..<unat (h_brk h1)}" "base h1 = base h" "\<exists>c\<in>set bs1. unat n \<le> snd c"
      "\<forall>x. unat x \<notin> bytes_of bs1 \<longrightarrow> h_mem h1 x = h_mem h x"
    have "freep h1 \<noteq> 0" using m(2) heap_above [OF m(2)] by (auto simp: heap_ok_def)
    then have j: "iterate (malloc_step grants n) (freep h, ptr_of (h_mem h) (freep h), h) = iterate (malloc_step grants n) (freep h1, ptr_of (h_mem h1) (freep h1), h1)"
      using i m(1) by simp
    show thesis
    proof (rule malloc_round [OF m(2) n(1), of grants])
      fix a h'
      assume "iterate (malloc_step grants n) (freep h1, ptr_of (h_mem h1) (freep h1), h1) = Some (a + 8, h')" "taken_from h1 bs1 (unat n) a h'"
      then show thesis using that(2) [of a h' h1 bs1] j m(2,3,4,5,7) by simp
    next
      assume "\<forall>d\<in>set bs1. snd d < unat n"
      then show thesis using m(6) by fastforce
    qed
  qed
qed

subsection \<open>Blocks in use\<close>

text \<open>
  The blocks handed out and not yet given back: they are real blocks, apart from each other and from the free list, and their headers
  are as \<^verbatim>\<open>malloc\<close> wrote them.
\<close>

definition used_ok :: "heap \<Rightarrow> nat set \<Rightarrow> block \<Rightarrow> bool" where
  "used_ok h F b \<longleftrightarrow> 1 \<le> snd b \<and> size_of (h_mem h) (fst b) = of_nat (snd b) \<and> fin b \<le> unat (h_brk h) \<and> base h < fst b \<and> ivl b \<inter> F = {}"

definition apart_blocks :: "block list \<Rightarrow> bool" where
  "apart_blocks bs \<longleftrightarrow> sorted_wrt (\<lambda>b c. ivl b \<inter> ivl c = {}) bs"

definition heap_fresh :: "heap \<Rightarrow> bool" where
  "heap_fresh h \<longleftrightarrow> freep h = 0 \<and> base h \<noteq> 0 \<and> unat (base h) + 8 \<le> unat (h_brk h)"

definition heap_inv :: "heap \<Rightarrow> block list \<Rightarrow> bool" where
  "heap_inv h us \<longleftrightarrow> heap_fresh h \<and> us = [] \<or> (\<exists>bs. heap_ok h bs \<and> (\<forall>b\<in>set us. used_ok h (bytes_of bs) b) \<and> apart_blocks us)"

lemma malloc_start_ok:
  assumes "heap_fresh h"
  shows "heap_ok (malloc_start h) [(base h, 0)]"
proof -
  have "hdr (base h)" using assms unsigned_less [of "h_brk h", where ?'a = nat] by (auto simp: heap_fresh_def hdr_def)
  then have "ptr_of (h_mem (malloc_start h)) (base h) = base h" "size_of (h_mem (malloc_start h)) (base h) = 0"
    using assms hdr_same [of "base h"] by (simp_all add: heap_fresh_def malloc_start_def)
  then show ?thesis using assms by (simp add: heap_ok_def heap_fresh_def malloc_start_def spaced_def fin_def)
qed

lemma malloc_start_inv:
  assumes "heap_inv h us"
  obtains bs where "heap_ok (malloc_start h) bs" and "\<forall>b\<in>set us. used_ok (malloc_start h) (bytes_of bs) b" and "apart_blocks us"
    and "base (malloc_start h) = base h" and "h_brk (malloc_start h) = h_brk h" and "us \<noteq> [] \<Longrightarrow> malloc_start h = h"
proof (cases "heap_fresh h \<and> us = []")
  case True
  then show ?thesis using that [OF malloc_start_ok] by (simp add: apart_blocks_def malloc_start_def)
next
  case False
  then obtain bs where bs: "heap_ok h bs" "\<forall>b\<in>set us. used_ok h (bytes_of bs) b" "apart_blocks us" using assms by (auto simp: heap_inv_def)
  have "freep h \<noteq> 0" using bs(1) heap_above [OF bs(1)] by (auto simp: heap_ok_def)
  then have "malloc_start h = h" by (simp add: malloc_start_def)
  then show ?thesis using that [of bs] bs by simp
qed

lemma malloc_units_bounds:
  assumes "unat nbytes \<le> 2 ^ 31"
  shows "unat (malloc_units nbytes) = (unat nbytes + 7) div 8 + 1" and "1 \<le> unat (malloc_units nbytes)" and "unat (malloc_units nbytes) < 2 ^ 29"
proof -
  have "nbytes + 8 - 1 = nbytes + 7" by simp
  then have a: "unat (nbytes + 8 - 1) = unat nbytes + 7" using assms by (simp only:) (subst unat_plus_if', simp)
  have d: "unat ((nbytes + 8 - 1) div 8) = (unat nbytes + 7) div 8" unfolding unat_div_distrib a by simp
  show u: "unat (malloc_units nbytes) = (unat nbytes + 7) div 8 + 1"
    unfolding malloc_units_def unat_plus_if' d using assms by auto
  show "1 \<le> unat (malloc_units nbytes)" "unat (malloc_units nbytes) < 2 ^ 29" using assms unfolding u by auto
qed

text \<open>Writing outside a block keeps its header.\<close>

lemma header_kept:
  assumes "\<forall>x. unat x \<notin> F \<longrightarrow> m' x = m x" and "ivl b \<inter> F = {}" and "fin b < 2 ^ 32"
  shows "size_of m' (fst b) = size_of m (fst b)"
proof (rule ld32_cong)
  fix i :: uint
  assume "i < 4"
  then have i: "unat i < 4" by (simp add: word_less_nat_alt)
  have f: "unat (fst b) + 8 < 2 ^ 32" using assms(3) fin_gt [of b] by simp
  then have "hdr (fst b)" by (simp add: hdr_def)
  then have "unat (fst b + 4 + i) = unat (fst b) + 4 + unat i" using i f by (subst unat_plus_if') (simp add: unat_plus_4)
  then have "unat (fst b + 4 + i) \<in> ivl b" using i fin_gt [of b] by (simp add: ivl_def)
  then show "m' (fst b + 4 + i) = m (fst b + 4 + i)" using assms(1,2) by blast
qed

lemma used_kept:
  assumes u: "used_ok h F b" and f: "\<forall>x. unat x \<notin> F' \<longrightarrow> h_mem h' x = h_mem h x" and F: "ivl b \<inter> F' = {}" "G \<subseteq> F'"
    and k: "base h' = base h" "unat (h_brk h) \<le> unat (h_brk h')"
  shows "used_ok h' G b"
proof -
  have "fin b < 2 ^ 32" using u unsigned_less [of "h_brk h", where ?'a = nat] by (simp add: used_ok_def)
  then have "size_of (h_mem h') (fst b) = size_of (h_mem h) (fst b)" by (rule header_kept [OF f F(1)])
  then show ?thesis using u F k by (auto simp: used_ok_def)
qed

lemma apart_remove: "apart_blocks us \<Longrightarrow> apart_blocks (remove1 b us)"
  by (induction us) (auto simp: apart_blocks_def dest: set_remove1_subset [THEN subsetD])

lemma apart_removed: "apart_blocks us \<Longrightarrow> b \<in> set us \<Longrightarrow> c \<in> set (remove1 b us) \<Longrightarrow> ivl c \<inter> ivl b = {}"
  by (induction us) (auto simp: apart_blocks_def split: if_splits dest: set_remove1_subset [THEN subsetD])

text \<open>
  \<^verbatim>\<open>malloc\<close> keeps the invariant with one block more, of the size asked for and its header, and does not touch the bytes of the
  other blocks; or it returns 0 and the blocks are as they were.
\<close>

lemma malloc_inv:
  assumes inv: "heap_inv h us" and g: "grant_ok grants" and n: "unat nbytes \<le> 2 ^ 31"
  obtains h' where "malloc grants nbytes h = Some (0, h')" and "heap_inv h' us" and "us \<noteq> [] \<Longrightarrow> h' = h"
  | a h' where "malloc grants nbytes h = Some (a + 8, h')" and "a + 8 \<noteq> 0" and "heap_inv h' ((a, unat (malloc_units nbytes)) # us)"
    and "\<forall>b\<in>set us. \<forall>x. unat x \<in> ivl b \<longrightarrow> h_mem h' x = h_mem h x"
proof -
  let ?n = "malloc_units nbytes" and ?h = "malloc_start h"
  obtain bs where bs: "heap_ok ?h bs" "\<forall>b\<in>set us. used_ok ?h (bytes_of bs) b" "apart_blocks us" "us \<noteq> [] \<Longrightarrow> ?h = h"
    using malloc_start_inv [OF inv] by metis
  note u = malloc_units_bounds(2,3) [OF n]
  show thesis
  proof (rule malloc_ok [OF bs(1) g u])
    assume "iterate (malloc_step grants ?n) (freep ?h, ptr_of (h_mem ?h) (freep ?h), ?h) = Some (0, ?h)"
    then show thesis using that(1) [of ?h] bs by (auto simp: malloc_def heap_inv_def)
  next
    fix a h1 bs1 h'
    assume r: "iterate (malloc_step grants ?n) (freep ?h, ptr_of (h_mem ?h) (freep ?h), ?h) = Some (a + 8, h')"
      and t: "taken_from h1 bs1 (unat ?n) a h'" and ok1: "heap_ok h1 bs1" and b1: "base h1 = base ?h" and k1: "unat (h_brk ?h) \<le> unat (h_brk h1)"
      and m1: "bytes_of bs1 = bytes_of bs \<union> {unat (h_brk ?h)..<unat (h_brk h1)}" and f1: "\<forall>x. unat x \<notin> bytes_of bs1 \<longrightarrow> h_mem h1 x = h_mem ?h x"
    obtain bs' where T: "heap_ok h' bs'" "ivl (a, unat ?n) \<subseteq> bytes_of bs1" "bytes_of bs' = bytes_of bs1 - ivl (a, unat ?n)" "size_of (h_mem h') a = ?n"
      "\<forall>x. unat x \<notin> bytes_of bs1 \<longrightarrow> h_mem h' x = h_mem h1 x" "base h1 < a" "base h' = base h1" "h_brk h' = h_brk h1"
      using t by (auto simp: taken_from_def)
    have F: "ivl b \<inter> bytes_of bs1 = {}" if "b \<in> set us" for b
      using bs(2) that unfolding m1 by (fastforce simp: used_ok_def ivl_def)
    have fr: "\<forall>x. unat x \<notin> bytes_of bs1 \<longrightarrow> h_mem h' x = h_mem ?h x" using T(5) f1 by simp
    have us: "used_ok h' (bytes_of bs') b" if "b \<in> set us" for b
      by (rule used_kept [OF bs(2) [rule_format, OF that] fr F [OF that]]) (use T(3,7,8) b1 k1 in auto)
    have "fin (a, unat ?n) - 1 \<in> ivl (a, unat ?n)" using u(1) by (simp add: ivl_def fin_def)
    then have "fin (a, unat ?n) - 1 \<in> bytes_of bs1" using T(2) by blast
    then have fa: "fin (a, unat ?n) \<le> unat (h_brk h')" using ok1 T(8) by (fastforce simp: heap_ok_def bytes_of_def ivl_def)
    then have "unat (a + 8) = unat a + 8"
      using fin_gt [of "(a, unat ?n)"] unsigned_less [of "h_brk h'", where ?'a = nat] by (subst unat_plus_if') simp
    then have a8: "a + 8 \<noteq> 0" by (metis add_eq_0_iff_both_eq_0 unat_0 zero_neq_numeral)
    have "used_ok h' (bytes_of bs') (a, unat ?n)" using u(1) T(3,4,6,7) fa by (auto simp: used_ok_def)
    moreover have "apart_blocks ((a, unat ?n) # us)" using bs(3) F T(2) by (fastforce simp: apart_blocks_def)
    ultimately have "heap_inv h' ((a, unat ?n) # us)" using T(1) us by (auto simp: heap_inv_def)
    then show thesis using that(2) [of a h'] r a8 fr F bs(4) by (fastforce simp: malloc_def)
  qed
qed

text \<open>\<^verbatim>\<open>free\<close> of a block in use keeps the invariant without the block, and the bytes of the other blocks.\<close>

lemma free_inv:
  assumes inv: "heap_inv h us" and b: "b \<in> set us"
  obtains h' where "free (fst b + 8) h = Some h'" and "heap_inv h' (remove1 b us)"
    and "\<forall>c\<in>set (remove1 b us). \<forall>x. unat x \<in> ivl c \<longrightarrow> h_mem h' x = h_mem h x"
proof -
  obtain bs where bs: "heap_ok h bs" "\<forall>c\<in>set us. used_ok h (bytes_of bs) c" "apart_blocks us" using inv b by (auto simp: heap_inv_def)
  have B: "1 \<le> snd b" "size_of (h_mem h) (fst b) = of_nat (snd b)" "fin b \<le> unat (h_brk h)" "ivl b \<inter> bytes_of bs = {}" "base h < fst b"
    using bs(2) b by (auto simp: used_ok_def)
  show thesis
  proof (rule free_ok [OF bs(1) B])
    fix h' bs'
    assume f: "free (fst b + 8) h = Some h'" "heap_ok h' bs'" "bytes_of bs' = bytes_of bs \<union> ivl b" "base h' = base h" "h_brk h' = h_brk h"
      "\<forall>x. unat x \<notin> bytes_of bs \<union> ivl b \<longrightarrow> h_mem h' x = h_mem h x"
    have F: "ivl c \<inter> (bytes_of bs \<union> ivl b) = {}" if "c \<in> set (remove1 b us)" for c
      using bs(2) apart_removed [OF bs(3) b that] set_remove1_subset [THEN subsetD, OF that] by (auto simp: used_ok_def)
    have "used_ok h' (bytes_of bs') c" if "c \<in> set (remove1 b us)" for c
      by (rule used_kept [OF bs(2) [rule_format, OF set_remove1_subset [THEN subsetD, OF that]] f(6) F [OF that]]) (use f(3-5) in auto)
    then have "heap_inv h' (remove1 b us)" using f(2) apart_remove [OF bs(3)] by (auto simp: heap_inv_def)
    then show thesis using that [of h'] f F by blast
  qed
qed

subsection \<open>A program that allocates, uses and frees\<close>

text \<open>
  The program starts with an untouched heap, asks for blocks, writes to the blocks it has, behind the header, and gives blocks back it has.
\<close>

inductive heap_run :: "(uint \<Rightarrow> uint \<Rightarrow> bool) \<Rightarrow> heap \<Rightarrow> block list \<Rightarrow> bool" for grants where
  run_start: "heap_fresh h \<Longrightarrow> heap_run grants h []"
| run_malloc: "heap_run grants h us \<Longrightarrow> unat nbytes \<le> 2 ^ 31 \<Longrightarrow> malloc grants nbytes h = Some (p, h') \<Longrightarrow>
    heap_run grants h' (if p = 0 then us else (p - 8, unat (malloc_units nbytes)) # us)"
| run_free: "heap_run grants h us \<Longrightarrow> b \<in> set us \<Longrightarrow> free (fst b + 8) h = Some h' \<Longrightarrow> heap_run grants h' (remove1 b us)"
| run_write: "heap_run grants h us \<Longrightarrow> b \<in> set us \<Longrightarrow> unat (fst b) + 8 \<le> unat x \<Longrightarrow> unat x < fin b \<Longrightarrow>
    heap_run grants (h\<lparr>h_mem := (h_mem h)(x := v)\<rparr>) us"

lemma apart_used:
  assumes "apart_blocks us" and "b \<in> set us" and "c \<in> set us" and "c \<noteq> b"
  shows "ivl c \<inter> ivl b = {}"
  using apart_removed [OF assms(1,2)] assms(3,4) by (simp add: in_set_remove1)

lemma write_inv:
  assumes inv: "heap_inv h us" and b: "b \<in> set us" and x: "unat (fst b) + 8 \<le> unat x" "unat x < fin b"
  shows "heap_inv (h\<lparr>h_mem := (h_mem h)(x := v)\<rparr>) us"
proof -
  let ?h = "h\<lparr>h_mem := (h_mem h)(x := v)\<rparr>"
  obtain bs where bs: "heap_ok h bs" "\<forall>c\<in>set us. used_ok h (bytes_of bs) c" "apart_blocks us" using inv b by (auto simp: heap_inv_def)
  have xb: "unat x \<in> ivl b" using x by (simp add: ivl_def)
  then have xF: "unat x \<notin> bytes_of bs" using bs(2) b by (fastforce simp: used_ok_def)
  have upd: "((h_mem h)(x := v)) y = h_mem h y" if "unat y \<noteq> unat x" for y using that by auto
  have k: "ptr_of ((h_mem h)(x := v)) (fst c) = ptr_of (h_mem h) (fst c) \<and> size_of ((h_mem h)(x := v)) (fst c) = size_of (h_mem h) (fst c)"
    if c: "hdr (fst c)" "unat x < unat (fst c) \<or> unat (fst c) + 8 \<le> unat x" for c :: block
  proof -
    have e: "unat (fst c + i) = unat (fst c) + unat i" if "unat i < 8" for i :: uint
      by (subst unat_plus_if') (use c(1) that in \<open>simp add: hdr_def\<close>)
    have n: "((h_mem h)(x := v)) (fst c + i) = h_mem h (fst c + i)" if "unat i < 8" for i
      by (rule upd) (use e [OF that] c(2) that in auto)
    have four: "unat (4 + i) < 8" if "i < 4" for i :: uint using that by (subst unat_plus_if') (simp add: word_less_nat_alt)
    show ?thesis
      by (intro conjI; rule ld32_cong) (use n four in \<open>simp_all add: word_less_nat_alt add.assoc del: fun_upd_apply\<close>)
  qed
  have away: "unat x < unat (fst c) \<or> unat (fst c) + 8 \<le> unat x" if "unat x \<notin> ivl c" for c :: block
    using that fin_gt [of c] by (auto simp: ivl_def)
  have "links ((h_mem h)(x := v)) bs (base h) = links (h_mem h) bs (base h)"
    by (rule links_cong, rule k) (use heap_hdr [OF bs(1)] away xF in \<open>auto simp: bytes_of_def\<close>)
  then have ok: "heap_ok ?h bs" using bs(1) by (simp add: heap_ok_def)
  have "used_ok ?h (bytes_of bs) c" if c: "c \<in> set us" for c
  proof -
    have u: "used_ok h (bytes_of bs) c" using bs(2) c by blast
    have "hdr (fst c)" using u fin_gt [of c] unsigned_less [of "h_brk h", where ?'a = nat] by (auto simp: used_ok_def hdr_def)
    moreover have "unat x < unat (fst c) \<or> unat (fst c) + 8 \<le> unat x" using away [of c] x(1) apart_used [OF bs(3) b c] xb by (cases "c = b") blast+
    ultimately show ?thesis using k [of c] u by (simp add: used_ok_def)
  qed
  then show ?thesis using ok bs(3) by (auto simp: heap_inv_def)
qed

lemma heap_run_inv: "heap_run grants h us \<Longrightarrow> grant_ok grants \<Longrightarrow> heap_inv h us"
proof (induction rule: heap_run.induct)
  case (run_start h)
  then show ?case by (simp add: heap_inv_def)
next
  case (run_malloc h us nbytes p h')
  then have "heap_inv h us" by blast
  then show ?case using run_malloc.prems run_malloc.hyps(2) by (rule malloc_inv) (use run_malloc.hyps(3) in auto)
next
  case (run_free h us b h')
  then have "heap_inv h us" by blast
  then show ?case by (rule free_inv [OF _ run_free.hyps(2)]) (use run_free.hyps(3) in auto)
next
  case (run_write h us b x v)
  then show ?case by (intro write_inv) auto
qed

section \<open>Properties\<close>

text \<open>A process of 8192 bytes, with its \<^verbatim>\<open>base\<close> at 4096, whose kernel allows one growth by 4096 units.\<close>

definition demo_heap :: heap where
  "demo_heap = \<lparr>h_mem = (\<lambda>_. 0), freep = 0, base = 4096, h_brk = 8192\<rparr>"

definition demo_grants :: "uint \<Rightarrow> uint \<Rightarrow> bool" where
  "demo_grants b n \<longleftrightarrow> b = 8192 \<and> n = 32768"

lemma demo_grants_ok: "grant_ok demo_grants"
  by (simp add: grant_ok_def demo_grants_def)

lemma demo_fresh: "heap_fresh demo_heap"
  by (simp add: heap_fresh_def demo_heap_def)

text \<open>Two blocks of 20 and of 100 bytes, from the end of the new memory.\<close>

definition demo_heap_20 :: heap where
  "demo_heap_20 = \<lparr>h_mem = st32 (st32 (st32 (st32 (st32 (st32 (st32 (\<lambda>_. 0) 4096 4096) 4100 0) 8196 4096) 8192 4096) 4096 8192) 8196 4092) 40932 4,
     freep = 4096, base = 4096, h_brk = 40960\<rparr>"

lemma demo_malloc_20: "malloc demo_grants 20 demo_heap = Some (40936, demo_heap_20)"
proof -
  define m0 where "m0 = st32 (st32 (\<lambda>_. 0) 4096 4096) 4100 0"
  define m1 where "m1 = st32 m0 8196 4096"
  define m3 where "m3 = st32 (st32 m1 8192 4096) 4096 8192"
  have l0: "ld32 m0 4096 = 4096" "ld32 m0 4100 = 0" by (simp_all add: m0_def ld32_st32_apart)
  have l1: "ld32 m1 4096 = 4096" "ld32 m1 4100 = 0" "ld32 m1 8196 = 4096" using l0 by (simp_all add: m1_def ld32_st32_apart)
  have l3: "ld32 m3 4096 = 8192" "ld32 m3 8196 = 4096" using l1 by (simp_all add: m3_def ld32_st32_apart)
  have "free_find m1 8192 4096 = Some 4096" using l1 by (subst free_find.simps) simp
  moreover have "join_lower 8192 4096 (join_upper 8192 4096 m1) = m3"
    using l1 by (simp add: join_upper_def join_lower_def Let_def m3_def ld32_st32_apart)
  ultimately have "morecore demo_grants 4 \<lparr>h_mem = m0, freep = 4096, base = 4096, h_brk = 8192\<rparr>
      = Some (4096, \<lparr>h_mem = m3, freep = 4096, base = 4096, h_brk = 40960\<rparr>)"
    by (simp add: morecore_def sbrk_def demo_grants_def free_def m1_def)
  then show ?thesis using l0 l3
    by (simp add: malloc_def malloc_start_def malloc_units_def malloc_step_def take_block_def iterate_end iterate_next demo_heap_def m0_def [symmetric])
      (simp add: demo_heap_20_def m0_def m1_def m3_def)
qed

lemma demo_malloc_100: "\<exists>h'. malloc demo_grants 100 demo_heap_20 = Some (40824, h')"
proof -
  have "freep demo_heap_20 = 4096" "ld32 (h_mem demo_heap_20) 4096 = 8192" "ld32 (h_mem demo_heap_20) 8196 = 4092"
    by (simp_all add: demo_heap_20_def ld32_st32_apart)
  then show ?thesis by (simp add: malloc_def malloc_start_def malloc_units_def malloc_step_def take_block_def iterate_end)
qed

lemma demo_two_blocks:
  obtains h h' where "malloc demo_grants 20 demo_heap = Some (40936, h)" and "malloc demo_grants 100 h = Some (40824, h')"
    and "heap_run demo_grants h [(40928, 4)]" and "heap_run demo_grants h' [(40816, 14), (40928, 4)]"
proof -
  obtain h h' where m: "malloc demo_grants 20 demo_heap = Some (40936, h)" "malloc demo_grants 100 h = Some (40824, h')"
    using demo_malloc_20 demo_malloc_100 by blast
  have u: "unat (malloc_units 20) = 4" "unat (malloc_units 100) = 14" by (simp_all add: malloc_units_def)
  have r: "heap_run demo_grants h [(40928, 4)]" using run_malloc [OF run_start [OF demo_fresh] _ m(1)] by (simp add: u)
  show thesis using that [OF m r] run_malloc [OF r _ m(2)] by (simp add: u)
qed







text \<open>A size just below 4 GB wraps around to one unit: the block has no room behind its header.\<close>

lemma malloc_units_wraps: "malloc_units 0xFFFFFFFF = 1"
  by (simp add: malloc_units_def)

text \<open>\<^verbatim>\<open>calloc\<close> never hands out a block that is too small because the product of its arguments wrapped around.\<close>

lemma calloc_refuses_overflow:
  assumes "2 ^ 32 \<le> unat nmemb * unat sz"
  shows "calloc grants nmemb sz h = Some (0, h)"
proof -
  have z: "nmemb \<noteq> 0" "sz \<noteq> 0" using assms by (auto simp: unat_eq_0)
  have "nmemb * sz div sz \<noteq> nmemb"
  proof
    assume "nmemb * sz div sz = nmemb"
    then have "unat nmemb * unat sz = unat (nmemb * sz) div unat sz * unat sz" by (metis unat_div_distrib)
    also have "\<dots> \<le> unat (nmemb * sz)" by simp
    also have "\<dots> < 2 ^ 32" using unsigned_less [of "nmemb * sz", where ?'a = nat] by simp
    finally show False using assms by simp
  qed
  then show ?thesis using z by (simp add: calloc_def Let_def)
qed

end
