(* ===== verification/USh.thy ===== *)
theory USh
  imports Xv7_Prelude "HOL-Library.Sublist"
begin

text \<open>
  The shell (\<^verbatim>\<open>bin/sh/sh.c\<close>): the recursive-descent parser of command lines and the execution of the commands.

  A pointer into the command line is represented by the text from it up to the end \<^verbatim>\<open>es\<close> of the line: \<^verbatim>\<open>s < es\<close> says that the text is not
  empty, \<^verbatim>\<open>*s\<close> is its first character, the terminating zero when it is empty, and \<^verbatim>\<open>s++\<close> drops it. A call of \<^verbatim>\<open>panic\<close>, which ends the
  process, is an error value with the message. The commands that \<^verbatim>\<open>malloc\<close> makes room for are trees, the type of a command its constructor.
  The parser is total; the lemmas show that it reads back every command tree from its text, that what \<^verbatim>\<open>nulterminate\<close> leaves at the
  pointers of a command are the words of the line, and that redirections and pipes reach the programs that are started.
\<close>

section \<open>Definitions\<close>

subsection \<open>Commands\<close>

text \<open>The arguments of a command and the file names are of type \<open>'w\<close>: the pointers to the start and the end of the word for the parser.\<close>

datatype 'w cmd =
    EXEC "'w list"
  | REDIR "'w cmd" 'w nat nat
  | PIPE "'w cmd" "'w cmd"
  | LIST "'w cmd" "'w cmd"
  | BACK "'w cmd"

definition O_RDONLY :: nat where "O_RDONLY = 0"
definition O_WRONLY :: nat where "O_WRONLY = 0x001"
definition O_CREATE :: nat where "O_CREATE = 0x200"

abbreviation MAXARGS :: nat where "MAXARGS \<equiv> 10"

definition execcmd :: "'w cmd" where
  "execcmd = EXEC []"

definition redircmd :: "'w cmd \<Rightarrow> 'w \<Rightarrow> nat \<Rightarrow> nat \<Rightarrow> 'w cmd" where
  "redircmd subcmd f mode fd = REDIR subcmd f mode fd"

definition pipecmd :: "'w cmd \<Rightarrow> 'w cmd \<Rightarrow> 'w cmd" where
  "pipecmd left right = PIPE left right"

definition listcmd :: "'w cmd \<Rightarrow> 'w cmd \<Rightarrow> 'w cmd" where
  "listcmd left right = LIST left right"

definition backcmd :: "'w cmd \<Rightarrow> 'w cmd" where
  "backcmd subcmd = BACK subcmd"

subsection \<open>Tokens\<close>

definition whitespace :: string where
  "whitespace = [CHR '' '', CHR 0x09, CHR 0x0D, CHR 0x0A, CHR 0x0B]"

definition symbols :: string where
  "symbols = ''<|>&;()''"

definition skip_white :: "string \<Rightarrow> string" where
  "skip_white s = dropWhile (\<lambda>c. c \<in> set whitespace) s"

text \<open>The kind of the token, the pointers to its start and its end, and the text behind it.\<close>

type_synonym word_ptr = "string \<times> string"

definition gettoken :: "string \<Rightarrow> char \<times> word_ptr \<times> string" where
  "gettoken s =
     (let q = skip_white s;
          (ret, eq) =
            (case q of
               [] \<Rightarrow> (CHR 0x00, q)
             | c # r \<Rightarrow>
                 if c = CHR 0x00 then (c, q)
                 else if c \<in> set ''|();&<'' then (c, r)
                 else if c = CHR ''>'' then (if r \<noteq> [] \<and> hd r = CHR ''>'' then (CHR ''+'', tl r) else (c, r))
                 else (CHR ''a'', dropWhile (\<lambda>c. c \<notin> set whitespace \<and> c \<notin> set symbols) q))
      in (ret, (q, eq), skip_white eq))"

definition peek :: "string \<Rightarrow> string \<Rightarrow> bool \<times> string" where
  "peek s toks = (let s = skip_white s in (s \<noteq> [] \<and> hd s \<noteq> CHR 0x00 \<and> hd s \<in> set toks, s))"

abbreviation after_token :: "string \<Rightarrow> string" where
  "after_token s \<equiv> snd (snd (gettoken s))"

lemma skip_white_shorter: "length (skip_white s) \<le> length s"
  by (simp add: skip_white_def length_dropWhile_le)

lemma peek_shorter: "peek s toks = (b, s') \<Longrightarrow> length s' \<le> length s"
  using skip_white_shorter [of s] by (auto simp: peek_def Let_def)

lemma skip_white_idem [simp]: "skip_white (skip_white s) = skip_white s"
  by (simp add: skip_white_def dropWhile_idem)

text \<open>A token other than the end of the line takes at least one character.\<close>

lemma word_shorter: "c \<notin> set whitespace \<Longrightarrow> c \<notin> set symbols \<Longrightarrow> length (dropWhile (\<lambda>c. c \<notin> set whitespace \<and> c \<notin> set symbols) (c # r)) < length (c # r)"
  using length_dropWhile_le [of "\<lambda>c. c \<notin> set whitespace \<and> c \<notin> set symbols" r] by simp

lemma skip_white_head: "skip_white s = c # r \<Longrightarrow> c \<notin> set whitespace"
  using hd_dropWhile [of "\<lambda>c. c \<in> set whitespace" s] by (fastforce simp: skip_white_def)

lemma gettoken_shorter:
  assumes "gettoken s = (ret, w, s')" and "ret \<noteq> CHR 0x00"
  shows "length s' < length s"
proof (cases "skip_white s")
  case Nil
  then show ?thesis using assms by (simp add: gettoken_def)
next
  case (Cons c r)
  have "c \<notin> set whitespace" by (rule skip_white_head [OF Cons])
  then have "length (snd (fst (snd (gettoken s)))) < length (skip_white s)"
    using assms Cons word_shorter [of c r] by (auto simp: gettoken_def Let_def symbols_def split: if_splits)
  moreover have "s' = skip_white (snd (fst (snd (gettoken s))))" using assms(1) by (auto simp: gettoken_def Let_def split: prod.splits)
  ultimately show ?thesis using skip_white_shorter [of s] skip_white_shorter [of "snd (fst (snd (gettoken s)))"] by simp
qed

lemma peek_token_shorter: "peek s toks = (True, s') \<Longrightarrow> length (after_token s') < length s"
proof -
  assume p: "peek s toks = (True, s')"
  then obtain c r where s': "s' = c # r" "c \<noteq> CHR 0x00" "s' = skip_white s" by (cases s') (auto simp: peek_def Let_def)
  then have "skip_white s' = c # r" by (metis skip_white_idem)
  then have "fst (gettoken s') \<noteq> CHR 0x00" using s'(2) by (auto simp: gettoken_def Let_def split: if_splits)
  then have "length (after_token s') < length s'" using gettoken_shorter by (metis prod.collapse)
  then show ?thesis using peek_shorter [OF p] by simp
qed
lemma redir_shorter:
  "peek s toks = (True, s') \<Longrightarrow> gettoken s' = (tok, w, s1) \<Longrightarrow> gettoken s1 = (CHR ''a'', q, s2) \<Longrightarrow> length s2 < length s"
  using peek_token_shorter [of s toks s'] gettoken_shorter [of s1 "CHR ''a''" q s2] by simp

subsection \<open>The parser\<close>

function parseredirs :: "word_ptr cmd \<Rightarrow> string \<Rightarrow> string + (word_ptr cmd \<times> string)" where
  "parseredirs c s =
     (case peek s ''<>'' of (b, s) \<Rightarrow>
       if \<not> b then Inr (c, s)
       else
         (case gettoken s of (tok, _, s) \<Rightarrow>
          case gettoken s of (t, q, s) \<Rightarrow>
            if t \<noteq> CHR ''a'' then Inl ''missing file for redirection''
            else
              (let c = (if tok = CHR ''<'' then redircmd c q O_RDONLY 0
                        else if tok = CHR ''>'' then redircmd c q (O_WRONLY + O_CREATE) 1
                        else if tok = CHR ''+'' then redircmd c q (O_WRONLY + O_CREATE) 1
                        else c)
               in parseredirs c s)))"
  by pat_completeness auto
termination
  by (relation "measure (length \<circ> snd)") (auto dest: redir_shorter [OF sym sym sym])

declare parseredirs.simps [simp del]

lemma parseredirs_shorter: "parseredirs c s = Inr (c', s') \<Longrightarrow> length s' \<le> length s"
proof (induction c s rule: parseredirs.induct)
  case (1 c s)
  show ?case
  proof (cases "fst (peek s ''<>'')")
    case False
    then show ?thesis using 1(2) peek_shorter [of s "''<>''"] by (auto simp: parseredirs.simps [of c s] split: prod.splits)
  next
    case True
    obtain s1 tok w s2 t q s3 where p: "peek s ''<>'' = (True, s1)" "gettoken s1 = (tok, w, s2)" "gettoken s2 = (t, q, s3)"
      using True by (metis prod.collapse)
    have t: "t = CHR ''a''" using 1(2) p by (simp add: parseredirs.simps [of c s] split: if_splits)
    have "length s3 < length s" using redir_shorter [OF p(1,2)] p(3) t by simp
    moreover have "length s' \<le> length s3" using 1 p t by (auto simp: parseredirs.simps [of c s] Let_def)
    ultimately show ?thesis by simp
  qed
qed

text \<open>\<^verbatim>\<open>cmd\<close> is the command with the arguments inside the redirections that have been wrapped around it.\<close>

primrec add_arg :: "'w \<Rightarrow> 'w cmd \<Rightarrow> 'w cmd" where
  "add_arg a (EXEC as) = EXEC (as @ [a])"
| "add_arg a (REDIR c f m d) = REDIR (add_arg a c) f m d"
| "add_arg a (PIPE l r) = PIPE l r"
| "add_arg a (LIST l r) = LIST l r"
| "add_arg a (BACK c) = BACK c"

lemma arg_shorter:
  "peek s toks = (b, s') \<Longrightarrow> gettoken s' = (CHR ''a'', q, s1) \<Longrightarrow> parseredirs c s1 = Inr (ret, s2) \<Longrightarrow> length s2 < length s"
  using peek_shorter [of s toks b s'] gettoken_shorter [of s' "CHR ''a''" q s1] parseredirs_shorter [of c s1 ret s2] by simp

function parseargs :: "nat \<Rightarrow> word_ptr cmd \<Rightarrow> string \<Rightarrow> string + (word_ptr cmd \<times> string)" where
  "parseargs argc ret s =
     (case peek s ''|)&;'' of (b, s) \<Rightarrow>
       if b then Inr (ret, s)
       else
         (case gettoken s of (tok, q, s) \<Rightarrow>
            if tok = CHR 0x00 then Inr (ret, s)
            else if tok \<noteq> CHR ''a'' then Inl ''syntax''
            else if argc + 1 \<ge> MAXARGS then Inl ''too many args''
            else
              (case parseredirs (add_arg q ret) s of
                 Inl e \<Rightarrow> Inl e
               | Inr (ret, s) \<Rightarrow> parseargs (argc + 1) ret s)))"
  by pat_completeness auto
termination
  by (relation "measure (length \<circ> snd \<circ> snd)") (auto dest: arg_shorter [OF sym sym])

declare parseargs.simps [simp del]

lemma gettoken_no_longer: "gettoken s = (ret, w, s') \<Longrightarrow> length s' \<le> length s"
proof (cases "ret = CHR 0x00")
  case True
  moreover assume g: "gettoken s = (ret, w, s')"
  ultimately have "s' = skip_white (skip_white s)" by (auto simp: gettoken_def Let_def simp del: skip_white_idem split: list.splits if_splits)
  then show ?thesis using skip_white_shorter [of s] by simp
qed (simp add: gettoken_shorter less_imp_le)

lemma parseargs_shorter: "parseargs argc c s = Inr (c', s') \<Longrightarrow> length s' \<le> length s"
proof (induction argc c s rule: parseargs.induct)
  case (1 argc c s)
  obtain b s0 tok q s1 where p: "peek s ''|)&;'' = (b, s0)" "gettoken s0 = (tok, q, s1)" by (metis prod.collapse)
  have s0: "length s0 \<le> length s" using peek_shorter [OF p(1)] .
  have s1: "length s1 \<le> length s0" by (rule gettoken_no_longer [OF p(2)])
  show ?case
  proof (cases "b \<or> tok \<noteq> CHR ''a''")
    case True
    then show ?thesis using 1(2) p s0 s1 by (auto simp: parseargs.simps [of argc c s] split: if_splits)
  next
    case False
    then obtain ret s2 where r: "parseredirs (add_arg q c) s1 = Inr (ret, s2)" "argc + 1 < MAXARGS" "parseargs (argc + 1) ret s2 = Inr (c', s')"
      using 1(2) p by (auto simp: parseargs.simps [of argc c s] split: if_splits sum.splits)
    have "length s' \<le> length s2" using 1(1) [OF p(1) [symmetric] _ p(2) [symmetric] refl _ _ _ r(1) refl r(3)] r(2) False by simp
    then show ?thesis using parseredirs_shorter [OF r(1)] s1 s0 by simp
  qed
qed

text \<open>The loop over \<^verbatim>\<open>&\<close> behind a command.\<close>

function parsebacks :: "word_ptr cmd \<Rightarrow> string \<Rightarrow> word_ptr cmd \<times> string" where
  "parsebacks c s = (case peek s ''&'' of (b, s) \<Rightarrow> if b then parsebacks (backcmd c) (after_token s) else (c, s))"
  by pat_completeness auto
termination
  by (relation "measure (length \<circ> snd)") (auto dest: peek_token_shorter [OF sym])

declare parsebacks.simps [simp del]

lemma parsebacks_shorter: "length (snd (parsebacks c s)) \<le> length s"
proof (induction c s rule: parsebacks.induct)
  case (1 c s)
  obtain b s0 where p: "peek s ''&'' = (b, s0)" by (metis prod.collapse)
  show ?case
  proof (cases b)
    case True
    have "length (snd (parsebacks (backcmd c) (after_token s0))) \<le> length (after_token s0)" by (rule 1 [OF p [symmetric] True])
    then show ?thesis using peek_token_shorter [of s "''&''" s0] p True by (simp add: parsebacks.simps [of c s])
  next
    case False
    then show ?thesis using p peek_shorter [OF p] by (simp add: parsebacks.simps [of c s])
  qed
qed

text \<open>No routine gives back more text than it got, and so the recursion behind a token ends.\<close>

abbreviation parse_order :: "((string + string) + (string + string)) rel" where
  "parse_order \<equiv> inv_image (less_than <*lex*> less_than)
     (case_sum (case_sum (\<lambda>s. (length s, 3 :: nat)) (\<lambda>s. (length s, 2))) (case_sum (\<lambda>s. (length s, 1)) (\<lambda>s. (length s, 0))))"

function parseline :: "string \<Rightarrow> string + (word_ptr cmd \<times> string)"
  and parsepipe :: "string \<Rightarrow> string + (word_ptr cmd \<times> string)"
  and parseexec :: "string \<Rightarrow> string + (word_ptr cmd \<times> string)"
  and parseblock :: "string \<Rightarrow> string + (word_ptr cmd \<times> string)" where
  "parseline s =
     (case parsepipe s of
        Inl e \<Rightarrow> Inl e
      | Inr (c, s) \<Rightarrow>
          (case parsebacks c s of (c, s) \<Rightarrow>
           case peek s '';'' of (b, s) \<Rightarrow>
             if b then (case parseline (after_token s) of Inl e \<Rightarrow> Inl e | Inr (d, s) \<Rightarrow> Inr (listcmd c d, s))
             else Inr (c, s)))"
| "parsepipe s =
     (case parseexec s of
        Inl e \<Rightarrow> Inl e
      | Inr (c, s) \<Rightarrow>
          (case peek s ''|'' of (b, s) \<Rightarrow>
             if b then (case parsepipe (after_token s) of Inl e \<Rightarrow> Inl e | Inr (d, s) \<Rightarrow> Inr (pipecmd c d, s))
             else Inr (c, s)))"
| "parseexec s =
     (case peek s ''('' of (b, s) \<Rightarrow>
        if b then parseblock s
        else (case parseredirs execcmd s of Inl e \<Rightarrow> Inl e | Inr (ret, s) \<Rightarrow> parseargs 0 ret s))"
| "parseblock s =
     (case peek s ''('' of (b, s) \<Rightarrow>
        if \<not> b then Inl ''parseblock''
        else
          (case parseline (after_token s) of
             Inl e \<Rightarrow> Inl e
           | Inr (c, s) \<Rightarrow>
               (case peek s '')'' of (b, s) \<Rightarrow>
                  if \<not> b then Inl ''syntax - missing )'' else parseredirs c (after_token s))))"
  by pat_completeness auto

termination
proof -
  have shorter:
    "parseline_parsepipe_parseexec_parseblock_dom (Inl (Inl s)) \<Longrightarrow> parseline s = Inr (c, s') \<Longrightarrow> length s' \<le> length s"
    "parseline_parsepipe_parseexec_parseblock_dom (Inl (Inr s)) \<Longrightarrow> parsepipe s = Inr (c, s') \<Longrightarrow> length s' \<le> length s"
    "parseline_parsepipe_parseexec_parseblock_dom (Inr (Inl s)) \<Longrightarrow> parseexec s = Inr (c, s') \<Longrightarrow> length s' \<le> length s"
    "parseline_parsepipe_parseexec_parseblock_dom (Inr (Inr s)) \<Longrightarrow> parseblock s = Inr (c, s') \<Longrightarrow> length s' \<le> length s"
    for s s' c
  proof (induction s and s and s and s arbitrary: c s' and c s' and c s' and c s' rule: parseline_parsepipe_parseexec_parseblock.pinduct)
    case (1 s c s')
    obtain d s1 e s2 b s3 where p: "parsepipe s = Inr (d, s1)" "parsebacks d s1 = (e, s2)" "peek s2 '';'' = (b, s3)"
      using 1(1,4) by (auto simp: parseline.psimps split: sum.splits prod.splits)
    have s3: "length s1 \<le> length s" "length s3 \<le> length s1"
      using 1(2) [OF p(1)] parsebacks_shorter [of d s1] p peek_shorter [OF p(3)] by auto
    show ?case
    proof (cases b)
      case True
      then obtain f where "parseline (after_token s3) = Inr (f, s')" using 1(1,4) p by (auto simp: parseline.psimps split: sum.splits prod.splits)
      then have "length s' \<le> length (after_token s3)" using 1(3) [OF p(1) refl p(2) [symmetric] p(3) [symmetric] True] by blast
      then show ?thesis using peek_token_shorter [of s2 "'';''" s3] p True s3 parsebacks_shorter [of d s1] by simp
    next
      case False
      then show ?thesis using 1(1,4) p s3 by (simp add: parseline.psimps)
    qed
  next
    case (2 s c s')
    obtain d s1 b s3 where p: "parseexec s = Inr (d, s1)" "peek s1 ''|'' = (b, s3)"
      using 2(1,4) by (auto simp: parsepipe.psimps split: sum.splits prod.splits)
    have s3: "length s1 \<le> length s" "length s3 \<le> length s1" using 2(2) [OF p(1)] peek_shorter [OF p(2)] by auto
    show ?case
    proof (cases b)
      case True
      then obtain f where "parsepipe (after_token s3) = Inr (f, s')" using 2(1,4) p by (auto simp: parsepipe.psimps split: sum.splits prod.splits)
      then have "length s' \<le> length (after_token s3)" using 2(3) [OF p(1) refl p(2) [symmetric] True] by blast
      then show ?thesis using peek_token_shorter [of s1 "''|''" s3] p True s3 by simp
    next
      case False
      then show ?thesis using 2(1,4) p s3 by (simp add: parsepipe.psimps)
    qed
  next
    case (3 s c s')
    obtain b s1 where p: "peek s ''('' = (b, s1)" by (metis prod.collapse)
    show ?case
    proof (cases b)
      case True
      then have "length s' \<le> length s1" using 3 p by (auto simp: parseexec.psimps)
      then show ?thesis using peek_shorter [OF p] by simp
    next
      case False
      then obtain ret s2 where "parseredirs execcmd s1 = Inr (ret, s2)" "parseargs 0 ret s2 = Inr (c, s')"
        using 3(1,3) p by (auto simp: parseexec.psimps split: sum.splits prod.splits)
      then show ?thesis using parseredirs_shorter [of execcmd s1 ret s2] parseargs_shorter [of 0 ret s2 c s'] peek_shorter [OF p] by simp
    qed
  next
    case (4 s c s')
    obtain s1 d s2 s3 where p: "peek s ''('' = (True, s1)" "parseline (after_token s1) = Inr (d, s2)" "peek s2 '')'' = (True, s3)"
      "parseredirs d (after_token s3) = Inr (c, s')"
      using 4(1,3) by (auto simp: parseblock.psimps split: sum.splits prod.splits if_splits)
    have "length s2 \<le> length (after_token s1)" using 4(2) [OF p(1) [symmetric] _ p(2)] by simp
    then show ?case using peek_token_shorter [OF p(1)] peek_token_shorter [OF p(3)] parseredirs_shorter [OF p(4)] by simp
  qed
  show ?thesis
  proof (relation parse_order)
    show "wf parse_order" by auto
  next
    fix s c s1 d s2 b s3
    fix x :: "word_ptr cmd \<times> string"
    assume "parseline_parsepipe_parseexec_parseblock_dom (Inl (Inr s))" "parsepipe s = Inr x" "(c, s1) = x"
      and p: "(d, s2) = parsebacks c s1" "(b, s3) = peek s2 '';''" b
    then have "length s1 \<le> length s" using shorter(2) by (metis (no_types, lifting))
    moreover have "length s2 \<le> length s1" using parsebacks_shorter [of c s1] p(1) by (metis snd_conv)
    moreover have "length (after_token s3) < length s2" using peek_token_shorter p(2,3) by (metis (full_types))
    ultimately show "(Inl (Inl (after_token s3)), Inl (Inl s)) \<in> parse_order" by simp
  next
    fix s c s1 b s3
    fix x :: "word_ptr cmd \<times> string"
    assume "parseline_parsepipe_parseexec_parseblock_dom (Inr (Inl s))" "parseexec s = Inr x" "(c, s1) = x" and p: "(b, s3) = peek s1 ''|''" b
    then have "length s1 \<le> length s" using shorter(3) by (metis (no_types, lifting))
    moreover have "length (after_token s3) < length s1" using peek_token_shorter p by (metis (full_types))
    ultimately show "(Inl (Inr (after_token s3)), Inl (Inr s)) \<in> parse_order" by simp
  next
    fix s b s1
    assume "(b, s1) = peek s ''(''"
    then show "(Inr (Inr s1), Inr (Inl s)) \<in> parse_order" using peek_shorter [of s "''(''" b s1] by (cases "length s1 < length s") auto
  next
    fix s b s1
    assume "(b, s1) = peek s ''(''" "\<not> \<not> b"
    then show "(Inl (Inl (after_token s1)), Inr (Inr s)) \<in> parse_order" using peek_token_shorter [of s "''(''" s1] by simp
  qed auto
qed

declare parseline.simps [simp del] parsepipe.simps [simp del] parseexec.simps [simp del] parseblock.simps [simp del]

text \<open>\<^verbatim>\<open>nulterminate\<close> stores a zero at the end of every word. The offset of a pointer in the buffer \<^verbatim>\<open>line\<close> follows from the text behind it.\<close>

definition offset :: "string \<Rightarrow> string \<Rightarrow> nat" where
  "offset line p = length line - length p"

primrec nulterminate :: "string \<Rightarrow> word_ptr cmd \<Rightarrow> string \<Rightarrow> string" where
  "nulterminate line (EXEC as) buf = fold (\<lambda>(q, eq) buf. buf[offset line eq := CHR 0x00]) as buf"
| "nulterminate line (REDIR c f m d) buf = (nulterminate line c buf)[offset line (snd f) := CHR 0x00]"
| "nulterminate line (PIPE l r) buf = nulterminate line r (nulterminate line l buf)"
| "nulterminate line (LIST l r) buf = nulterminate line r (nulterminate line l buf)"
| "nulterminate line (BACK c) buf = nulterminate line c buf"

text \<open>\<^verbatim>\<open>parsecmd\<close> gives the command and the buffer, of which the text up to its zero is \<open>line\<close>.\<close>

definition parsecmd :: "string \<Rightarrow> string + (word_ptr cmd \<times> string)" where
  "parsecmd line =
     (case parseline line of
        Inl e \<Rightarrow> Inl e
      | Inr (c, s) \<Rightarrow>
          (case peek s '''' of (_, s) \<Rightarrow>
             if s \<noteq> [] then Inl ''syntax'' else Inr (c, nulterminate line c (line @ [CHR 0x00]))))"

text \<open>The string at a pointer, and the command with the strings its pointers point to.\<close>

definition string_at :: "string \<Rightarrow> nat \<Rightarrow> string" where
  "string_at buf p = takeWhile (\<lambda>c. c \<noteq> CHR 0x00) (drop p buf)"

definition strings_of :: "string \<Rightarrow> string \<Rightarrow> word_ptr cmd \<Rightarrow> string cmd" where
  "strings_of line buf c = map_cmd (\<lambda>(q, eq). string_at buf (offset line q)) c"

subsection \<open>Execution\<close>

text \<open>
  What is at a descriptor of a process: the console, a file opened with a mode, or an end of a pipe. The system calls change the table of
  the process as the kernel's do: a new descriptor is the lowest free one.
\<close>

datatype obj = Console | OnFile string nat | PipeRead nat | PipeWrite nat

type_synonym fds = "obj option list"

primrec first_free :: "fds \<Rightarrow> nat option" where
  "first_free [] = None"
| "first_free (x # xs) = (if x = None then Some 0 else map_option Suc (first_free xs))"

definition close_fd :: "nat \<Rightarrow> fds \<Rightarrow> fds" where
  "close_fd d t = t[d := None]"

definition new_fd :: "obj \<Rightarrow> fds \<Rightarrow> (nat \<times> fds) option" where
  "new_fd x t = map_option (\<lambda>d. (d, t[d := Some x])) (first_free t)"

definition dup_fd :: "nat \<Rightarrow> fds \<Rightarrow> fds" where
  "dup_fd d t = (if d < length t then (case t ! d of None \<Rightarrow> t | Some x \<Rightarrow> (case new_fd x t of None \<Rightarrow> t | Some (_, t) \<Rightarrow> t)) else t)"

text \<open>
  The answers of the kernel: which programs can be executed, which files opened, which directories entered, and which calls of
  \<^verbatim>\<open>fork\<close> and \<^verbatim>\<open>pipe\<close>, counted together, succeed. The count also names the pipes.
\<close>

record kernel_answers =
  exec_ok :: "string \<Rightarrow> bool"
  open_ok :: "string \<Rightarrow> nat \<Rightarrow> bool"
  chdir_ok :: "string \<Rightarrow> bool"
  fork_ok :: "nat \<Rightarrow> bool"
  pipe_ok :: "nat \<Rightarrow> bool"

text \<open>What a process does: start a program with its arguments and descriptors, print, fork a child that does what is listed, wait, exit.\<close>

datatype event = Runs string "string list" fds | Says string | Child "event list" | Waits | Exits

primrec runcmd :: "kernel_answers \<Rightarrow> string cmd \<Rightarrow> fds \<Rightarrow> nat \<Rightarrow> event list \<times> nat" where
  "runcmd e (EXEC argv) t k =
     (case argv of
        [] \<Rightarrow> ([Exits], k)
      | a # _ \<Rightarrow>
          if exec_ok e a then ([Runs a argv t], k)
          else if (a = [] \<or> hd a \<noteq> CHR ''/'') \<and> exec_ok e (''/bin/'' @ a) then ([Runs (''/bin/'' @ a) argv t], k)
          else ([Says (''sh: '' @ a @ '' does not exist''), Exits], k))"
| "runcmd e (REDIR c f mode fd) t k =
     (let t = close_fd fd t in
      case (if open_ok e f mode then new_fd (OnFile f mode) t else None) of
        None \<Rightarrow> ([Says (''open '' @ f @ '' failed''), Exits], k)
      | Some (_, t) \<Rightarrow> runcmd e c t k)"
| "runcmd e (LIST l r) t k =
     (if \<not> fork_ok e k then ([Says ''fork'', Exits], k + 1)
      else
        (case runcmd e l t (k + 1) of (child, k) \<Rightarrow>
         case runcmd e r t k of (evs, k) \<Rightarrow> (Child child # Waits # evs, k)))"
| "runcmd e (PIPE l r) t k =
     (case Option.bind (if pipe_ok e k then new_fd (PipeRead k) t else None) (\<lambda>(p0, t). map_option (\<lambda>(p1, t). (p0, p1, t)) (new_fd (PipeWrite k) t)) of
        None \<Rightarrow> ([Says ''pipe'', Exits], k + 1)
      | Some (p0, p1, t) \<Rightarrow>
          if \<not> fork_ok e (k + 1) then ([Says ''fork'', Exits], k + 2)
          else
            (case runcmd e l (close_fd p1 (close_fd p0 (dup_fd p1 (close_fd 1 t)))) (k + 2) of (left, k) \<Rightarrow>
               if \<not> fork_ok e k then ([Child left, Says ''fork'', Exits], k + 1)
               else
                 (case runcmd e r (close_fd p1 (close_fd p0 (dup_fd p0 (close_fd 0 t)))) (k + 1) of (right, k) \<Rightarrow>
                    ([Child left, Child right, Waits, Waits, Exits], k))))"
| "runcmd e (BACK c) t k =
     (if \<not> fork_ok e k then ([Says ''fork'', Exits], k + 1)
      else (case runcmd e c t (k + 1) of (child, k) \<Rightarrow> ([Child child, Exits], k)))"

text \<open>One round of the loop of \<^verbatim>\<open>main\<close> on the line that \<^verbatim>\<open>getcmd\<close> left in the buffer: \<^verbatim>\<open>cd\<close> in the shell itself, other commands in a child.
  The calls of \<^verbatim>\<open>setfg\<close> around it, which direct the interrupt key, are left out.\<close>

definition run_line :: "kernel_answers \<Rightarrow> string \<Rightarrow> fds \<Rightarrow> nat \<Rightarrow> event list \<times> nat" where
  "run_line e line t k =
     (if take 3 line = ''cd '' then
        (let dir = drop 3 (butlast line) in ((if chdir_ok e dir then [] else [Says (''cannot cd '' @ dir)]), k))
      else if \<not> fork_ok e k then ([Says ''fork'', Exits], k + 1)
      else
        (case parsecmd line of
           Inl msg \<Rightarrow> ([Child [Says msg, Exits], Waits], k + 1)
         | Inr (c, buf) \<Rightarrow> (case runcmd e (strings_of line buf c) t (k + 1) of (child, k) \<Rightarrow> ([Child child, Waits], k))))"

text \<open>\<^verbatim>\<open>main\<close>: descriptors 0 to 2 are opened on the console, then the lines are run; an empty line is the end of the input.\<close>

primrec open_console :: "kernel_answers \<Rightarrow> nat \<Rightarrow> fds \<Rightarrow> fds" where
  "open_console e 0 t = t"
| "open_console e (Suc n) t =
     (case (if open_ok e ''console'' 2 then new_fd Console t else None) of
        None \<Rightarrow> t
      | Some (d, t) \<Rightarrow> if d \<ge> 3 then close_fd d t else open_console e n t)"

primrec run_lines :: "kernel_answers \<Rightarrow> string list \<Rightarrow> fds \<Rightarrow> nat \<Rightarrow> event list" where
  "run_lines e [] t k = [Exits]"
| "run_lines e (line # lines) t k =
     (if line = [] then [Exits]
      else
        (case run_line e line t k of (evs, k) \<Rightarrow> if evs \<noteq> [] \<and> last evs = Exits then evs else evs @ run_lines e lines t k))"

definition sh_main :: "kernel_answers \<Rightarrow> string list \<Rightarrow> fds \<Rightarrow> event list" where
  "sh_main e lines t = run_lines e lines (open_console e (length t + 1) t) 0"

section \<open>Lemmas\<close>

subsection \<open>Tokens\<close>

lemma peek_skip [simp]: "peek (skip_white s) toks = peek s toks"
  by (simp add: peek_def)

lemma gettoken_skip [simp]: "gettoken (skip_white s) = gettoken s"
  by (simp add: gettoken_def)

definition word_char :: "char \<Rightarrow> bool" where
  "word_char c \<longleftrightarrow> c \<notin> set whitespace \<and> c \<notin> set symbols \<and> c \<noteq> CHR 0x00"

definition is_word :: "string \<Rightarrow> bool" where
  "is_word w \<longleftrightarrow> w \<noteq> [] \<and> (\<forall>c\<in>set w. word_char c)"

lemma skip_symbol: "c \<in> set symbols \<Longrightarrow> skip_white (c # r) = c # r"
  by (auto simp: skip_white_def symbols_def whitespace_def)

lemma peek_symbol: "c \<in> set symbols \<Longrightarrow> peek (c # r) toks = (c \<in> set toks, c # r)"
  by (simp add: peek_def skip_symbol) (auto simp: symbols_def)

lemma after_symbol: "c \<in> set ''|();&<'' \<Longrightarrow> after_token (c # r) = skip_white r"
  using skip_symbol [of c r] by (auto simp: gettoken_def symbols_def)

lemma skip_word: "is_word w \<Longrightarrow> skip_white (w @ r) = w @ r"
  by (cases w) (auto simp: is_word_def word_char_def skip_white_def)

lemma peek_word: "is_word w \<Longrightarrow> peek (w @ r) toks = (hd w \<in> set toks, w @ r)"
  unfolding peek_def Let_def by (subst (1 2 3 4) skip_word) (auto simp: is_word_def word_char_def)

lemma gettoken_word:
  assumes w: "is_word w" and r: "r = [] \<or> hd r \<in> set whitespace \<union> set symbols"
  shows "gettoken (w @ r) = (CHR ''a'', (w @ r, r), skip_white r)"
proof -
  let ?P = "\<lambda>c. c \<notin> set whitespace \<and> c \<notin> set symbols"
  obtain c w' where cw: "w = c # w'" "?P c" "c \<noteq> CHR 0x00" using w by (cases w) (auto simp: is_word_def word_char_def)
  have "dropWhile ?P (w @ r) = dropWhile ?P r" using w by (intro dropWhile_append2) (auto simp: is_word_def word_char_def)
  also have "\<dots> = r" using r by (cases r) auto
  finally have d: "dropWhile ?P (w @ r) = r" .
  have s: "c \<notin> set ''|();&<''" "c \<noteq> CHR ''>''" using cw(2) by (auto simp: symbols_def)
  show ?thesis unfolding gettoken_def Let_def skip_word [OF w] using s cw(3) d by (simp add: cw(1))
qed

text \<open>What \<^verbatim>\<open>gettoken\<close> says is a word is one, up to the next separator or the end of the line.\<close>

definition good :: "string \<Rightarrow> word_ptr \<Rightarrow> bool" where
  "good line p \<longleftrightarrow> suffix (fst p) line \<and> (\<exists>w. fst p = w @ snd p \<and> w \<noteq> [] \<and> (\<forall>c\<in>set w. c \<notin> set whitespace \<and> c \<notin> set symbols))
     \<and> (snd p = [] \<or> hd (snd p) \<in> set whitespace \<union> set symbols)"

lemma good_suffix: "good s p \<Longrightarrow> suffix s line \<Longrightarrow> good line p"
  by (auto simp: good_def intro: suffix_order.trans)

lemma skip_suffix: "suffix (skip_white s) s"
  by (simp add: skip_white_def suffix_dropWhile)

lemma peek_suffix: "peek s toks = (b, s') \<Longrightarrow> suffix s' s"
  using skip_suffix [of s] by (auto simp: peek_def Let_def)

lemma gettoken_suffix: "gettoken s = (ret, p, s') \<Longrightarrow> suffix s' s"
proof -
  assume g: "gettoken s = (ret, p, s')"
  let ?eq = "snd (fst (snd (gettoken s)))"
  have "suffix ?eq (skip_white s)"
    by (cases "skip_white s") (auto simp: gettoken_def Let_def suffix_dropWhile suffix_Cons suffix_tl intro: suffix_order.trans [OF suffix_tl])
  moreover have "s' = skip_white ?eq" using g by (auto simp: gettoken_def Let_def split: prod.splits)
  ultimately show ?thesis using skip_suffix by (metis suffix_order.trans)
qed

lemma gettoken_good: "gettoken s = (CHR ''a'', p, s') \<Longrightarrow> good s p"
proof -
  assume g: "gettoken s = (CHR ''a'', p, s')"
  let ?P = "\<lambda>c. c \<notin> set whitespace \<and> c \<notin> set symbols" and ?q = "skip_white s"
  obtain c r where q: "?q = c # r" using g by (cases ?q) (auto simp: gettoken_def)
  have c: "c \<noteq> CHR 0x00 \<and> c \<notin> set ''|();&<'' \<and> c \<noteq> CHR ''>''" and p: "p = (?q, dropWhile ?P ?q)"
    using g q by (auto simp: gettoken_def Let_def split: if_splits)
  then have "?P c" using skip_white_head [OF q] by (auto simp: symbols_def)
  then have t: "takeWhile ?P ?q \<noteq> []" using q by simp
  have "\<exists>w. fst p = w @ snd p \<and> w \<noteq> [] \<and> (\<forall>c\<in>set w. ?P c)"
  proof (intro exI conjI)
    show "fst p = takeWhile ?P ?q @ snd p" unfolding p fst_conv snd_conv by (rule takeWhile_dropWhile_id [symmetric])
    show "\<forall>c\<in>set (takeWhile ?P ?q). ?P c" using set_takeWhileD by fast
  qed (rule t)
  moreover have "snd p = [] \<or> hd (snd p) \<in> set whitespace \<union> set symbols" unfolding p snd_conv using hd_dropWhile [of ?P ?q] by blast
  moreover have "suffix (fst p) s" using skip_suffix [of s] by (simp add: p)
  ultimately show ?thesis unfolding good_def by blast
qed

subsection \<open>The words of a parsed command\<close>

primrec redirs_std :: "'w cmd \<Rightarrow> bool" where
  "redirs_std (EXEC as) \<longleftrightarrow> True"
| "redirs_std (REDIR c f m d) \<longleftrightarrow> d < 3 \<and> redirs_std c"
| "redirs_std (PIPE l r) \<longleftrightarrow> redirs_std l \<and> redirs_std r"
| "redirs_std (LIST l r) \<longleftrightarrow> redirs_std l \<and> redirs_std r"
| "redirs_std (BACK c) \<longleftrightarrow> redirs_std c"

lemma add_arg_std: "redirs_std (add_arg a c) \<longleftrightarrow> redirs_std c"
  by (induction c) auto

text \<open>
  Every routine of the parser leaves a rest of the line it was given, all pointers of its command are words of that line, and only standard
  descriptors are redirected.
\<close>

definition reads_words :: "string \<Rightarrow> word_ptr cmd \<Rightarrow> bool" where
  "reads_words line c \<longleftrightarrow> (\<forall>p\<in>set_cmd c. good line p) \<and> redirs_std c"

lemma reads_words_simps [simp]:
  "reads_words l execcmd"
  "reads_words l (redircmd c f m fd) \<longleftrightarrow> reads_words l c \<and> good l f \<and> fd < 3"
  "reads_words l (pipecmd c d) \<longleftrightarrow> reads_words l c \<and> reads_words l d"
  "reads_words l (listcmd c d) \<longleftrightarrow> reads_words l c \<and> reads_words l d"
  "reads_words l (backcmd c) \<longleftrightarrow> reads_words l c"
  by (auto simp: reads_words_def execcmd_def redircmd_def pipecmd_def listcmd_def backcmd_def)

lemma set_add_arg: "set_cmd (add_arg p c) \<subseteq> insert p (set_cmd c)"
  by (induction c) auto

lemma reads_words_add: "reads_words l c \<Longrightarrow> good l p \<Longrightarrow> reads_words l (add_arg p c)"
  using set_add_arg [of p c] by (auto simp: reads_words_def add_arg_std)

lemma reads_words_suffix: "reads_words s c \<Longrightarrow> suffix s l \<Longrightarrow> reads_words l c"
  by (auto simp: reads_words_def intro: good_suffix)

lemma parseredirs_words:
  "parseredirs c s = Inr (c', s') \<Longrightarrow> reads_words l c \<Longrightarrow> suffix s l \<Longrightarrow> reads_words l c' \<and> suffix s' l"
proof (induction c s rule: parseredirs.induct)
  case (1 c s)
  obtain b s1 where p: "peek s ''<>'' = (b, s1)" by (metis prod.collapse)
  have s1: "suffix s1 l" using peek_suffix [OF p] 1(4) suffix_order.trans by blast
  show ?case
  proof (cases b)
    case False
    then show ?thesis using 1(2,3) p s1 by (simp add: parseredirs.simps [of c s])
  next
    case b: True
    obtain tok w s2 t q s3 where g: "gettoken s1 = (tok, w, s2)" "gettoken s2 = (t, q, s3)" by (metis prod.collapse)
    have t: "t = CHR ''a''" using 1(2) p b g by (simp add: parseredirs.simps [of c s] split: if_splits)
    have s: "suffix s2 l" "suffix s3 l" using gettoken_suffix [OF g(1)] gettoken_suffix [OF g(2)] s1 suffix_order.trans by blast+
    have q: "good l q" using gettoken_good g(2) s(1) good_suffix unfolding t by blast
    let ?c = "if tok = CHR ''<'' then redircmd c q O_RDONLY 0 else if tok = CHR ''>'' then redircmd c q (O_WRONLY + O_CREATE) 1
      else if tok = CHR ''+'' then redircmd c q (O_WRONLY + O_CREATE) 1 else c"
    have "parseredirs ?c s3 = Inr (c', s')" using 1(2) p b g t by (simp add: parseredirs.simps [of c s] Let_def)
    moreover have "reads_words l ?c" using 1(3) q by simp
    ultimately show ?thesis using 1(1) [OF p [symmetric] _ g(1) [symmetric] refl g(2) [symmetric] refl _ refl] b t s(2) by blast
  qed
qed

lemma parseargs_words:
  "parseargs n c s = Inr (c', s') \<Longrightarrow> reads_words l c \<Longrightarrow> suffix s l \<Longrightarrow> reads_words l c' \<and> suffix s' l"
proof (induction n c s rule: parseargs.induct)
  case (1 n c s)
  obtain b s0 tok q s1 where p: "peek s ''|)&;'' = (b, s0)" "gettoken s0 = (tok, q, s1)" by (metis prod.collapse)
  have s: "suffix s0 l" "suffix s1 l" using peek_suffix [OF p(1)] gettoken_suffix [OF p(2)] 1(4) suffix_order.trans by blast+
  show ?case
  proof (cases "b \<or> tok \<noteq> CHR ''a''")
    case True
    then show ?thesis using 1(2,3) p s by (auto simp: parseargs.simps [of n c s] split: if_splits)
  next
    case False
    then obtain ret s2 where r: "parseredirs (add_arg q c) s1 = Inr (ret, s2)" "n + 1 < MAXARGS" "parseargs (n + 1) ret s2 = Inr (c', s')"
      using 1(2) p by (auto simp: parseargs.simps [of n c s] split: if_splits sum.splits)
    have "good l q" using gettoken_good p(2) s(1) good_suffix False by blast
    then have "reads_words l ret \<and> suffix s2 l" using parseredirs_words [OF r(1) reads_words_add [OF 1(3)] s(2)] by blast
    then show ?thesis using 1(1) [OF p(1) [symmetric] _ p(2) [symmetric] refl _ _ _ r(1) refl r(3)] r(2) False by simp
  qed
qed

lemma parsebacks_words:
  "reads_words l c \<Longrightarrow> suffix s l \<Longrightarrow> parsebacks c s = (c', s') \<Longrightarrow> reads_words l c' \<and> suffix s' l"
proof (induction c s rule: parsebacks.induct)
  case (1 c s)
  obtain b s0 where p: "peek s ''&'' = (b, s0)" by (metis prod.collapse)
  have s: "suffix s0 l" using peek_suffix [OF p] 1(3) suffix_order.trans by blast
  have "suffix (after_token s0) s0" using gettoken_suffix by (metis prod.collapse)
  then have "suffix (after_token s0) l" using s suffix_order.trans by blast
  then show ?case using 1(1) [OF p [symmetric]] 1(2,4) p s by (cases b) (simp_all add: parsebacks.simps [of c s])
qed

lemma after_token_suffix: "suffix s l \<Longrightarrow> suffix (after_token s) l"
  using gettoken_suffix [of s] suffix_order.trans by (metis prod.collapse)

lemma parse_words:
  "parseline s = Inr (c, s') \<Longrightarrow> suffix s l \<Longrightarrow> reads_words l c \<and> suffix s' l"
  "parsepipe s = Inr (c, s') \<Longrightarrow> suffix s l \<Longrightarrow> reads_words l c \<and> suffix s' l"
  "parseexec s = Inr (c, s') \<Longrightarrow> suffix s l \<Longrightarrow> reads_words l c \<and> suffix s' l"
  "parseblock s = Inr (c, s') \<Longrightarrow> suffix s l \<Longrightarrow> reads_words l c \<and> suffix s' l"
proof (induction s and s and s and s arbitrary: c s' and c s' and c s' and c s' rule: parseline_parsepipe_parseexec_parseblock.induct)
  case (1 s)
  obtain d s1 e s2 b s3 where p: "parsepipe s = Inr (d, s1)" "parsebacks d s1 = (e, s2)" "peek s2 '';'' = (b, s3)"
    using 1(3) by (auto simp: parseline.simps [of s] split: sum.splits prod.splits)
  have d: "reads_words l d" "suffix s1 l" using 1(1) [OF p(1) 1(4)] by auto
  have e: "reads_words l e" "suffix s2 l" using parsebacks_words [OF d p(2)] by auto
  have s3: "suffix s3 l" using peek_suffix [OF p(3)] e(2) suffix_order.trans by blast
  show ?case
  proof (cases b)
    case True
    then obtain f where f: "parseline (after_token s3) = Inr (f, s')" "c = listcmd e f"
      using 1(3) p by (auto simp: parseline.simps [of s] split: sum.splits prod.splits)
    then show ?thesis using 1(2) [OF p(1) refl p(2) [symmetric] p(3) [symmetric] True f(1) after_token_suffix [OF s3]] e by simp
  next
    case False
    then show ?thesis using 1(3) p e s3 by (simp add: parseline.simps [of s])
  qed
next
  case (2 s)
  obtain d s1 b s3 where p: "parseexec s = Inr (d, s1)" "peek s1 ''|'' = (b, s3)"
    using 2(3) by (auto simp: parsepipe.simps [of s] split: sum.splits prod.splits)
  have d: "reads_words l d" "suffix s1 l" using 2(1) [OF p(1) 2(4)] by auto
  have s3: "suffix s3 l" using peek_suffix [OF p(2)] d(2) suffix_order.trans by blast
  show ?case
  proof (cases b)
    case True
    then obtain f where f: "parsepipe (after_token s3) = Inr (f, s')" "c = pipecmd d f"
      using 2(3) p by (auto simp: parsepipe.simps [of s] split: sum.splits prod.splits)
    then show ?thesis using 2(2) [OF p(1) refl p(2) [symmetric] True f(1) after_token_suffix [OF s3]] d by simp
  next
    case False
    then show ?thesis using 2(3) p d s3 by (simp add: parsepipe.simps [of s])
  qed
next
  case (3 s)
  obtain b s1 where p: "peek s ''('' = (b, s1)" by (metis prod.collapse)
  have s1: "suffix s1 l" using peek_suffix [OF p] 3(3) suffix_order.trans by blast
  show ?case
  proof (cases b)
    case True
    then show ?thesis using 3 p s1 by (auto simp: parseexec.simps [of s])
  next
    case False
    then obtain ret s2 where r: "parseredirs execcmd s1 = Inr (ret, s2)" "parseargs 0 ret s2 = Inr (c, s')"
      using 3(2) p by (auto simp: parseexec.simps [of s] split: sum.splits prod.splits)
    then show ?thesis using parseredirs_words [OF r(1) _ s1] parseargs_words [OF r(2)] by simp
  qed
next
  case (4 s)
  obtain s1 d s2 s3 where p: "peek s ''('' = (True, s1)" "parseline (after_token s1) = Inr (d, s2)" "peek s2 '')'' = (True, s3)"
    "parseredirs d (after_token s3) = Inr (c, s')"
    using 4(2) by (auto simp: parseblock.simps [of s] split: sum.splits prod.splits if_splits)
  have s1: "suffix s1 l" using peek_suffix [OF p(1)] 4(3) suffix_order.trans by blast
  have d: "reads_words l d" "suffix s2 l" using 4(1) [OF p(1) [symmetric] _ p(2) after_token_suffix [OF s1]] by auto
  have "suffix s3 l" using peek_suffix [OF p(3)] d(2) suffix_order.trans by blast
  then show ?case using parseredirs_words [OF p(4) d(1) after_token_suffix] by blast
qed

subsection \<open>The terminated words\<close>

definition word_of :: "word_ptr \<Rightarrow> string" where
  "word_of p = take (length (fst p) - length (snd p)) (fst p)"

lemma fold_nul:
  "length (fold (\<lambda>(q, eq) buf. buf[offset line eq := CHR 0x00]) as buf) = length buf"
  "i < length buf \<Longrightarrow> fold (\<lambda>(q, eq) buf. buf[offset line eq := CHR 0x00]) as buf ! i =
     (if i \<in> (\<lambda>p. offset line (snd p)) ` set as then CHR 0x00 else buf ! i)"
  by (induction as arbitrary: buf) (simp_all add: nth_list_update case_prod_beta)

lemma nulterminate_nth:
  "length (nulterminate line c buf) = length buf \<and> (\<forall>i<length buf. nulterminate line c buf ! i =
     (if i \<in> (\<lambda>p. offset line (snd p)) ` set_cmd c then CHR 0x00 else buf ! i))"
proof (induction c arbitrary: buf)
  case (EXEC as)
  then show ?case by (simp add: fold_nul)
next
  case (REDIR c f m d)
  then have l: "length (nulterminate line c buf) = length buf" by blast
  have "(nulterminate line c buf)[offset line (snd f) := CHR 0x00] ! i = (if i = offset line (snd f) then CHR 0x00 else nulterminate line c buf ! i)"
    if "i < length buf" for i using that l by (simp add: nth_list_update)
  then show ?case using REDIR [of buf] by simp
qed (simp_all add: image_Un)

lemma good_nth:
  assumes "good line p"
  obtains w where "word_of p = w" and "w \<noteq> []" and "\<forall>j<length w. line ! (offset line (fst p) + j) = w ! j \<and> w ! j \<notin> set whitespace \<union> set symbols"
    and "offset line (snd p) = offset line (fst p) + length w" and "offset line (snd p) \<le> length line"
    and "offset line (snd p) < length line \<longrightarrow> line ! offset line (snd p) \<in> set whitespace \<union> set symbols"
proof -
  obtain q eq where p: "p = (q, eq)" by (cases p)
  obtain w where w: "q = w @ eq" "w \<noteq> []" "\<forall>c\<in>set w. c \<notin> set whitespace \<and> c \<notin> set symbols" "eq = [] \<or> hd eq \<in> set whitespace \<union> set symbols"
    and s: "suffix q line" using assms unfolding good_def p by auto
  obtain l where l: "line = l @ w @ eq" using s w(1) by (auto elim: suffixE)
  have o: "offset line q = length l" "offset line eq = length l + length w" by (simp_all add: offset_def l w(1))
  show thesis
  proof (rule that [of w])
    show "offset line (snd p) < length line \<longrightarrow> line ! offset line (snd p) \<in> set whitespace \<union> set symbols"
      unfolding p snd_conv o(2) using w(4) by (cases eq) (auto simp: l nth_append)
  qed (use w o in \<open>auto simp: p word_of_def l nth_append\<close>)
qed

lemma string_at_word:
  assumes c: "reads_words line c" and p: "p \<in> set_cmd c" and nul: "CHR 0x00 \<notin> set line"
  shows "string_at (nulterminate line c (line @ [CHR 0x00])) (offset line (fst p)) = word_of p"
proof -
  let ?buf = "nulterminate line c (line @ [CHR 0x00])" and ?o = "offset line (fst p)"
  obtain w where w: "word_of p = w" "w \<noteq> []" "\<forall>j<length w. line ! (?o + j) = w ! j \<and> w ! j \<notin> set whitespace \<union> set symbols"
    "offset line (snd p) = ?o + length w" "offset line (snd p) \<le> length line"
    by (rule good_nth [of line p]) (use c p in \<open>auto simp: reads_words_def\<close>)
  have len: "length ?buf = length line + 1" using nulterminate_nth [of line c "line @ [CHR 0x00]"] by simp
  have nth: "?buf ! i = (if i \<in> (\<lambda>p. offset line (snd p)) ` set_cmd c then CHR 0x00 else (line @ [CHR 0x00]) ! i)" if "i \<le> length line" for i
    using nulterminate_nth [of line c "line @ [CHR 0x00]"] that by simp
  have inside: "?buf ! (?o + j) = w ! j" "w ! j \<noteq> CHR 0x00" if j: "j < length w" for j
  proof -
    have lt: "?o + j < length line" using j w(4,5) by simp
    have "?o + j \<noteq> offset line (snd p')" if p': "p' \<in> set_cmd c" for p'
    proof
      assume e: "?o + j = offset line (snd p')"
      obtain w' where "offset line (snd p') < length line \<longrightarrow> line ! offset line (snd p') \<in> set whitespace \<union> set symbols"
        by (rule good_nth [of line p']) (use c p' in \<open>auto simp: reads_words_def\<close>)
      then show False using e lt w(3) j by metis
    qed
    then show "?buf ! (?o + j) = w ! j" using nth [of "?o + j"] lt w(3) j by (auto simp: nth_append)
    show "w ! j \<noteq> CHR 0x00" using w(3) j lt nul nth_mem [OF lt] by metis
  qed
  have "?o + length w \<in> (\<lambda>p. offset line (snd p)) ` set_cmd c" using w(4) p by (metis (no_types, lifting) imageI)
  then have "?buf ! (?o + length w) = CHR 0x00" using nth [of "?o + length w"] w(4,5) by simp
  then have "takeWhile (\<lambda>c. c \<noteq> CHR 0x00) (drop ?o ?buf) = take (length w) (drop ?o ?buf)"
    using inside w(4,5) len by (intro takeWhile_eq_take_P_nth) auto
  also have "\<dots> = w" using inside w(4,5) len by (intro nth_equalityI) auto
  finally show ?thesis using w(1) by (simp add: string_at_def)
qed

lemma parsecmd_words:
  assumes "parsecmd line = Inr (c, buf)" and "CHR 0x00 \<notin> set line"
  shows "strings_of line buf c = map_cmd word_of c" and "\<forall>p\<in>set_cmd c. is_word (word_of p)"
proof -
  obtain s where s: "parseline line = Inr (c, s)" "buf = nulterminate line c (line @ [CHR 0x00])"
    using assms(1) by (auto simp: parsecmd_def split: sum.splits prod.splits if_splits)
  have c: "reads_words line c" using parse_words(1) [OF s(1), of line] by simp
  show "strings_of line buf c = map_cmd word_of c"
    unfolding strings_of_def s(2) by (intro cmd.map_cong refl) (use string_at_word [OF c _ assms(2)] in force)
  show "\<forall>p\<in>set_cmd c. is_word (word_of p)"
  proof
    fix p
    assume "p \<in> set_cmd c"
    then have g: "good line p" using c by (simp add: reads_words_def)
    obtain w where "word_of p = w" "w \<noteq> []" "\<forall>j<length w. line ! (offset line (fst p) + j) = w ! j \<and> w ! j \<notin> set whitespace \<union> set symbols"
      "offset line (snd p) = offset line (fst p) + length w" "offset line (snd p) \<le> length line" by (rule good_nth [OF g])
    then show "is_word (word_of p)" using assms(2)
      by (fastforce simp: is_word_def word_char_def in_set_conv_nth)
  qed
qed

subsection \<open>Reading back what is written\<close>

text \<open>
  The text of a command, with parentheses only where the grammar needs them: at level 3 stand the arguments of \<^verbatim>\<open>|\<close> on its left, at level 2
  those on its right, at level 1 what stands before \<^verbatim>\<open>&\<close> or \<^verbatim>\<open>;\<close>, at level 0 whole lines.
\<close>

definition parens :: "bool \<Rightarrow> string \<Rightarrow> string" where
  "parens b s = (if b then ''('' @ s @ '')'' else s)"

definition show_redir :: "string \<Rightarrow> nat \<Rightarrow> string" where
  "show_redir f m = (if m = O_RDONLY then ''<'' else ''>'') @ f @ '' ''"

primrec show_cmd :: "string cmd \<Rightarrow> nat \<Rightarrow> string" where
  "show_cmd (EXEC ws) lv = concat (map (\<lambda>w. w @ '' '') ws)"
| "show_cmd (REDIR c f m d) lv = show_cmd c 3 @ show_redir f m"
| "show_cmd (PIPE l r) lv = parens (2 < lv) (show_cmd l 3 @ ''|'' @ show_cmd r 2)"
| "show_cmd (BACK c) lv = parens (1 < lv) (show_cmd c 1 @ ''&'')"
| "show_cmd (LIST l r) lv = parens (0 < lv) (show_cmd l 1 @ '';'' @ show_cmd r 0)"

text \<open>The commands that a line can express: words, fewer of them than \<^verbatim>\<open>MAXARGS\<close>, and the two kinds of redirection.\<close>

primrec expressible :: "string cmd \<Rightarrow> bool" where
  "expressible (EXEC ws) \<longleftrightarrow> length ws < MAXARGS \<and> list_all is_word ws"
| "expressible (REDIR c f m d) \<longleftrightarrow> expressible c \<and> is_word f \<and> (m = O_RDONLY \<and> d = 0 \<or> m = O_WRONLY + O_CREATE \<and> d = 1)"
| "expressible (PIPE l r) \<longleftrightarrow> expressible l \<and> expressible r"
| "expressible (LIST l r) \<longleftrightarrow> expressible l \<and> expressible r"
| "expressible (BACK c) \<longleftrightarrow> expressible c"

type_synonym redir = "string \<times> nat \<times> nat"

definition wrap :: "'w cmd \<Rightarrow> ('w \<times> nat \<times> nat) list \<Rightarrow> 'w cmd" where
  "wrap c rs = foldl (\<lambda>c (f, m, d). REDIR c f m d) c rs"

definition show_redirs :: "redir list \<Rightarrow> string" where
  "show_redirs rs = concat (map (\<lambda>(f, m, d). show_redir f m) rs)"

definition redir_ok :: "redir \<Rightarrow> bool" where
  "redir_ok r \<longleftrightarrow> (case r of (f, m, d) \<Rightarrow> is_word f \<and> (m = O_RDONLY \<and> d = 0 \<or> m = O_WRONLY + O_CREATE \<and> d = 1))"

lemma wrap_simps [simp]: "wrap c [] = c" "wrap c ((f, m, d) # rs) = wrap (REDIR c f m d) rs"
  by (simp_all add: wrap_def)

lemma show_redirs_simps [simp]: "show_redirs [] = []" "show_redirs ((f, m, d) # rs) = show_redir f m @ show_redirs rs"
  by (simp_all add: show_redirs_def)

text \<open>A text that starts, behind white space, with one of the given characters, or is at its end.\<close>

definition stops :: "string \<Rightarrow> string \<Rightarrow> bool" where
  "stops toks r \<longleftrightarrow> skip_white r = [] \<or> hd (skip_white r) \<in> set toks"

lemma stops_peek: "stops toks r \<Longrightarrow> set toks \<subseteq> set symbols \<Longrightarrow> set toks \<inter> set toks' = {} \<Longrightarrow> peek r toks' = (False, skip_white r)"
  by (auto simp: stops_def peek_def Let_def)

lemma stops_symbol: "c \<in> set symbols \<Longrightarrow> c \<in> set toks \<Longrightarrow> stops toks (c # r)"
  by (simp add: stops_def skip_symbol)

lemma stops_mono: "stops toks r \<Longrightarrow> set toks \<subseteq> set toks' \<Longrightarrow> stops toks' r"
  by (auto simp: stops_def)

lemma parseredirs_skip [simp]: "parseredirs c (skip_white s) = parseredirs c s"
  by (subst (1 2) parseredirs.simps) simp

lemma parseexec_skip [simp]: "parseexec (skip_white s) = parseexec s"
  by (subst (1 2) parseexec.simps) simp

lemma parsepipe_skip [simp]: "parsepipe (skip_white s) = parsepipe s"
  by (subst (1 2) parsepipe.simps) simp

lemma parseline_skip [simp]: "parseline (skip_white s) = parseline s"
  by (subst (1 2) parseline.simps) simp

lemma parseargs_skip [simp]: "parseargs n c (skip_white s) = parseargs n c s"
  by (subst (1 2) parseargs.simps) simp

lemma parsebacks_skip [simp]: "parsebacks c (skip_white s) = parsebacks c s"
  by (subst (1 2) parsebacks.simps) simp

lemma parseredirs_stop: "stops ''|)&;'' r \<Longrightarrow> parseredirs c r = Inr (c, skip_white r)"
  by (subst parseredirs.simps) (simp add: stops_peek symbols_def)

lemma skip_blank [simp]: "skip_white (CHR '' '' # r) = skip_white r"
  by (simp add: skip_white_def whitespace_def)

text \<open>Redirections read back.\<close>

lemma gettoken_redir:
  assumes "t = CHR ''<'' \<or> t = CHR ''>''" and "hd r \<noteq> CHR ''>''"
  shows "\<exists>q. gettoken (t # r) = (t, q, skip_white r)"
proof -
  have "skip_white (t # r) = t # r" by (rule skip_symbol) (use assms(1) in \<open>auto simp: symbols_def\<close>)
  then show ?thesis using assms by (auto simp: gettoken_def)
qed

lemma parseredirs_one:
  assumes w: "is_word f" and m: "m = O_RDONLY \<and> d = 0 \<or> m = O_WRONLY + O_CREATE \<and> d = 1"
  obtains p where "parseredirs c (show_redir f m @ r) = parseredirs (REDIR c p m d) r" and "word_of p = f"
proof (rule that [of "(f @ '' '' @ r, '' '' @ r)"])
  let ?t = "if m = O_RDONLY then CHR ''<'' else CHR ''>''"
  have s: "show_redir f m @ r = ?t # f @ '' '' @ r" by (simp add: show_redir_def)
  have sym: "?t \<in> set symbols" by (simp add: symbols_def)
  obtain a f' where f: "f = a # f'" "a \<noteq> CHR ''>''" using w by (cases f) (auto simp: is_word_def word_char_def symbols_def)
  have p: "peek (show_redir f m @ r) ''<>'' = (True, show_redir f m @ r)" unfolding s by (subst peek_symbol [OF sym]) simp
  have h: "?t = CHR ''<'' \<or> ?t = CHR ''>''" "hd (f @ '' '' @ r) \<noteq> CHR ''>''" using f by simp_all
  obtain q where g: "gettoken (show_redir f m @ r) = (?t, q, skip_white (f @ '' '' @ r))"
    unfolding s using gettoken_redir [OF h] by blast
  have g2: "gettoken (f @ '' '' @ r) = (CHR ''a'', (f @ '' '' @ r, '' '' @ r), skip_white r)"
    using gettoken_word [OF w, of "'' '' @ r"] by (simp add: whitespace_def)
  show "parseredirs c (show_redir f m @ r) = parseredirs (REDIR c (f @ '' '' @ r, '' '' @ r) m d) r"
    by (subst parseredirs.simps) (use m p g g2 in \<open>auto simp: redircmd_def O_RDONLY_def O_WRONLY_def O_CREATE_def\<close>)
qed (simp add: word_of_def)

lemma parseredirs_many:
  assumes "list_all redir_ok rs" and "stops ''|)&;'' r"
  shows "\<exists>rs'. parseredirs c (show_redirs rs @ r) = Inr (wrap c rs', skip_white r) \<and> map (apfst word_of) rs' = rs"
  using assms
proof (induction rs arbitrary: c)
  case Nil
  then show ?case by (intro exI [of _ "[]"]) (simp add: parseredirs_stop)
next
  case (Cons x rs)
  obtain f m d where x: "x = (f, m, d)" by (cases x)
  then have "is_word f" "m = O_RDONLY \<and> d = 0 \<or> m = O_WRONLY + O_CREATE \<and> d = 1" using Cons.prems(1) by (auto simp: redir_ok_def)
  then obtain p where p: "parseredirs c (show_redir f m @ show_redirs rs @ r) = parseredirs (REDIR c p m d) (show_redirs rs @ r)" "word_of p = f"
    by (rule parseredirs_one)
  obtain rs' where "parseredirs (REDIR c p m d) (show_redirs rs @ r) = Inr (wrap (REDIR c p m d) rs', skip_white r)" "map (apfst word_of) rs' = rs"
    using Cons by force
  then show ?case using p x by (intro exI [of _ "(p, m, d) # rs'"]) simp
qed

lemma parseargs_stop: "stops ''|)&;'' r \<Longrightarrow> parseargs n c r = Inr (c, skip_white r)"
proof (cases "skip_white r = []")
  case True
  then have "peek r ''|)&;'' = (False, [])" by (simp add: peek_def)
  moreover have "gettoken [] = (CHR 0x00, ([], []), [])" by (simp add: gettoken_def skip_white_def)
  ultimately show ?thesis using True by (subst parseargs.simps) simp
next
  case False
  moreover assume "stops ''|)&;'' r"
  ultimately have "peek r ''|)&;'' = (True, skip_white r)" by (auto simp: stops_def peek_def Let_def)
  then show ?thesis by (subst parseargs.simps) simp
qed

text \<open>Arguments and the redirections behind them read back.\<close>

lemma parseargs_many:
  assumes "list_all is_word ws" and "n + length ws < MAXARGS" and "list_all redir_ok rs" and "stops ''|)&;'' r"
  shows "\<exists>ps rs'. (case parseredirs (EXEC as) (concat (map (\<lambda>w. w @ '' '') ws) @ show_redirs rs @ r) of
      Inl e \<Rightarrow> Inl e | Inr (ret, s) \<Rightarrow> parseargs n ret s) = Inr (wrap (EXEC (as @ ps)) rs', skip_white r)
    \<and> map word_of ps = ws \<and> map (apfst word_of) rs' = rs"
  using assms
proof (induction ws arbitrary: n as)
  case Nil
  obtain rs' where "parseredirs (EXEC as) (show_redirs rs @ r) = Inr (wrap (EXEC as) rs', skip_white r)" "map (apfst word_of) rs' = rs"
    using parseredirs_many [OF Nil.prems(3,4)] by blast
  then show ?case using Nil.prems(4) by (intro exI [of _ "[]"] exI [of _ rs']) (simp add: parseargs_stop)
next
  case (Cons w ws)
  let ?rest = "concat (map (\<lambda>w. w @ '' '') ws) @ show_redirs rs @ r" and ?p = "(w @ '' '' @ concat (map (\<lambda>w. w @ '' '') ws) @ show_redirs rs @ r, '' '' @ concat (map (\<lambda>w. w @ '' '') ws) @ show_redirs rs @ r)"
  have w: "is_word w" using Cons.prems(1) by simp
  have h: "hd w \<notin> set symbols" using w by (cases w) (auto simp: is_word_def word_char_def)
  have p: "peek (w @ '' '' @ ?rest) ''<>'' = (False, w @ '' '' @ ?rest)" "peek (w @ '' '' @ ?rest) ''|)&;'' = (False, w @ '' '' @ ?rest)"
    using h by (simp_all only: peek_word [OF w]) (auto simp: symbols_def)
  have g: "gettoken (w @ '' '' @ ?rest) = (CHR ''a'', ?p, skip_white ?rest)"
    using gettoken_word [OF w, of "'' '' @ ?rest"] by (simp add: whitespace_def)
  have r1: "parseredirs (EXEC as) (w @ '' '' @ ?rest) = Inr (EXEC as, w @ '' '' @ ?rest)" using p(1) by (subst parseredirs.simps) simp
  have r2: "parseargs n (EXEC as) (w @ '' '' @ ?rest) =
      (case parseredirs (EXEC (as @ [?p])) ?rest of Inl e \<Rightarrow> Inl e | Inr (ret, s) \<Rightarrow> parseargs (n + 1) ret s)"
    using p(2) g Cons.prems(2) by (subst parseargs.simps) simp
  obtain ps rs' where "(case parseredirs (EXEC (as @ [?p])) ?rest of Inl e \<Rightarrow> Inl e | Inr (ret, s) \<Rightarrow> parseargs (n + 1) ret s)
      = Inr (wrap (EXEC ((as @ [?p]) @ ps)) rs', skip_white r)" "map word_of ps = ws" "map (apfst word_of) rs' = rs"
    using Cons.IH [of "n + 1" "as @ [?p]"] Cons.prems by auto
  moreover have "word_of ?p = w" by (simp add: word_of_def)
  ultimately show ?case using r1 r2 by (intro exI [of _ "?p # ps"] exI [of _ rs']) simp
qed

lemma map_wrap: "map_cmd f (wrap c rs) = wrap (map_cmd f c) (map (apfst f) rs)"
  by (induction rs arbitrary: c) auto

lemma show_wrap: "show_cmd (wrap c rs) 3 = show_cmd c 3 @ show_redirs rs"
  by (induction rs arbitrary: c) auto

definition backs :: "nat \<Rightarrow> 'w cmd \<Rightarrow> 'w cmd" where
  "backs n c = (BACK ^^ n) c"

lemma parsebacks_many: "stops '';)'' r \<Longrightarrow> parsebacks c (replicate n CHR ''&'' @ r) = (backs n c, skip_white r)"
proof (induction n arbitrary: c)
  case 0
  then show ?case by (subst parsebacks.simps) (simp add: stops_peek symbols_def backs_def)
next
  case (Suc n)
  have "peek (CHR ''&'' # replicate n CHR ''&'' @ r) ''&'' = (True, CHR ''&'' # replicate n CHR ''&'' @ r)"
    by (simp add: peek_symbol symbols_def)
  moreover have "after_token (CHR ''&'' # replicate n CHR ''&'' @ r) = skip_white (replicate n CHR ''&'' @ r)" by (simp add: after_symbol)
  ultimately show ?case using Suc by (subst parsebacks.simps) (simp add: backcmd_def backs_def funpow_swap1)
qed

text \<open>The four levels of the grammar.\<close>

definition reads3 :: "string cmd \<Rightarrow> bool" where
  "reads3 c \<longleftrightarrow> (\<forall>rs r. list_all redir_ok rs \<and> stops ''|)&;'' r \<longrightarrow>
     (\<exists>d. parseexec (show_cmd c 3 @ show_redirs rs @ r) = Inr (d, skip_white r) \<and> map_cmd word_of d = wrap c rs))"

definition reads2 :: "string cmd \<Rightarrow> bool" where
  "reads2 c \<longleftrightarrow> (\<forall>r. stops '')&;'' r \<longrightarrow> (\<exists>d. parsepipe (show_cmd c 2 @ r) = Inr (d, skip_white r) \<and> map_cmd word_of d = c))"

definition reads1 :: "string cmd \<Rightarrow> bool" where
  "reads1 c \<longleftrightarrow> (\<forall>n r. stops '';)'' r \<longrightarrow> (\<exists>d s e. parsepipe (show_cmd c 1 @ replicate n CHR ''&'' @ r) = Inr (d, s)
     \<and> parsebacks d s = (e, skip_white r) \<and> map_cmd word_of e = backs n c))"

definition reads0 :: "string cmd \<Rightarrow> bool" where
  "reads0 c \<longleftrightarrow> (\<forall>r. stops '')'' r \<longrightarrow> (\<exists>d. parseline (show_cmd c 0 @ r) = Inr (d, skip_white r) \<and> map_cmd word_of d = c))"

lemma map_backs: "map_cmd f (backs n c) = backs n (map_cmd f c)"
  by (induction n) (auto simp: backs_def)

lemma reads3_exec: "length ws < MAXARGS \<Longrightarrow> list_all is_word ws \<Longrightarrow> reads3 (EXEC ws)"
  unfolding reads3_def
proof (intro allI impI)
  fix rs r
  assume a: "length ws < MAXARGS" "list_all is_word ws" "list_all redir_ok rs \<and> stops ''|)&;'' r"
  let ?s = "concat (map (\<lambda>w. w @ '' '') ws) @ show_redirs rs @ r"
  have "\<not> fst (peek ?s ''('')"
  proof (cases ws)
    case Nil
    show ?thesis
    proof (cases rs)
      case r: Nil
      then show ?thesis using a(3) Nil by (auto simp: stops_def peek_def Let_def)
    next
      case (Cons x xs)
      obtain f m d where "x = (f, m, d)" by (cases x)
      then show ?thesis using Nil Cons by (simp add: show_redir_def peek_symbol symbols_def)
    qed
  next
    case (Cons w ws')
    then have "is_word w" using a(2) by simp
    then have "fst (peek (w @ r') ''('') = (hd w = CHR ''('')" "hd w \<notin> set symbols" for r'
      by (simp_all add: peek_word) (cases w; simp add: is_word_def word_char_def)
    then show ?thesis using Cons by (auto simp: symbols_def)
  qed
  then have e: "parseexec ?s = (case parseredirs (EXEC []) ?s of Inl e \<Rightarrow> Inl e | Inr (ret, s) \<Rightarrow> parseargs 0 ret s)"
    by (subst parseexec.simps) (auto simp: execcmd_def peek_def Let_def)
  obtain ps rs' where "parseexec ?s = Inr (wrap (EXEC ps) rs', skip_white r)" "map word_of ps = ws" "map (apfst word_of) rs' = rs"
    using parseargs_many [of ws 0 rs r "[]"] a e by auto
  then show "\<exists>d. parseexec (show_cmd (EXEC ws) 3 @ show_redirs rs @ r) = Inr (d, skip_white r) \<and> map_cmd word_of d = wrap (EXEC ws) rs"
    by (intro exI [of _ "wrap (EXEC ps) rs'"]) (simp add: map_wrap)
qed

lemma reads2_of_3: "reads3 c \<Longrightarrow> show_cmd c 2 = show_cmd c 3 \<Longrightarrow> reads2 c"
  unfolding reads2_def
proof (intro allI impI)
  fix r
  assume a: "reads3 c" "show_cmd c 2 = show_cmd c 3" "stops '')&;'' r"
  have "stops ''|)&;'' r" by (rule stops_mono [OF a(3)]) auto
  then obtain d where "parseexec (show_cmd c 3 @ r) = Inr (d, skip_white r)" "map_cmd word_of d = c"
    using a(1) [unfolded reads3_def, rule_format, of "[]" r] by auto
  moreover have "peek r ''|'' = (False, skip_white r)" using a(3) by (rule stops_peek) (auto simp: symbols_def)
  ultimately show "\<exists>d. parsepipe (show_cmd c 2 @ r) = Inr (d, skip_white r) \<and> map_cmd word_of d = c"
    using a(2) by (intro exI [of _ d], subst parsepipe.simps) simp
qed

lemma reads1_of_2: "reads2 c \<Longrightarrow> show_cmd c 1 = show_cmd c 2 \<Longrightarrow> reads1 c"
  unfolding reads1_def
proof (intro allI impI)
  fix n r
  assume a: "reads2 c" "show_cmd c 1 = show_cmd c 2" "stops '';)'' r"
  have s: "stops '')&;'' (replicate n CHR ''&'' @ r)"
  proof (cases n)
    case 0
    then show ?thesis using stops_mono [OF a(3)] by auto
  qed (simp add: stops_symbol symbols_def)
  obtain d where d: "parsepipe (show_cmd c 2 @ replicate n CHR ''&'' @ r) = Inr (d, skip_white (replicate n CHR ''&'' @ r))" "map_cmd word_of d = c"
    using a(1) [unfolded reads2_def, rule_format, OF s] by blast
  then show "\<exists>d s e. parsepipe (show_cmd c 1 @ replicate n CHR ''&'' @ r) = Inr (d, s) \<and> parsebacks d s = (e, skip_white r) \<and> map_cmd word_of e = backs n c"
    using parsebacks_many [OF a(3), of d n] a(2) by (simp add: map_backs)
qed

lemma reads0_of_1: "reads1 c \<Longrightarrow> show_cmd c 0 = show_cmd c 1 \<Longrightarrow> reads0 c"
  unfolding reads0_def
proof (intro allI impI)
  fix r
  assume a: "reads1 c" "show_cmd c 0 = show_cmd c 1" "stops '')'' r"
  have "stops '';)'' r" by (rule stops_mono [OF a(3)]) auto
  then obtain d s e where "parsepipe (show_cmd c 1 @ r) = Inr (d, s)" "parsebacks d s = (e, skip_white r)" "map_cmd word_of e = c"
    using a(1) [unfolded reads1_def, rule_format, of r 0] by (auto simp: backs_def)
  moreover have "peek r '';'' = (False, skip_white r)" using a(3) by (rule stops_peek) (auto simp: symbols_def)
  ultimately show "\<exists>d. parseline (show_cmd c 0 @ r) = Inr (d, skip_white r) \<and> map_cmd word_of d = c"
    using a(2) by (intro exI [of _ e], subst parseline.simps) simp
qed

lemma reads3_of_0: "reads0 c \<Longrightarrow> show_cmd c 3 = ''('' @ show_cmd c 0 @ '')'' \<Longrightarrow> reads3 c"
  unfolding reads3_def
proof (intro allI impI)
  fix rs r
  assume a: "reads0 c" "show_cmd c 3 = ''('' @ show_cmd c 0 @ '')''" "list_all redir_ok rs \<and> stops ''|)&;'' r"
  let ?s = "show_cmd c 0 @ CHR '')'' # show_redirs rs @ r"
  have sym: "CHR ''('' \<in> set symbols" "CHR '')'' \<in> set symbols" by (auto simp: symbols_def)
  have "stops '')'' (CHR '')'' # show_redirs rs @ r)" using sym by (simp add: stops_symbol)
  then obtain d where d: "parseline ?s = Inr (d, CHR '')'' # show_redirs rs @ r)" "map_cmd word_of d = c"
    using a(1) [unfolded reads0_def, rule_format, of "CHR '')'' # show_redirs rs @ r"] skip_symbol [OF sym(2)] by auto
  obtain rs' where r: "parseredirs d (show_redirs rs @ r) = Inr (wrap d rs', skip_white r)" "map (apfst word_of) rs' = rs"
    using parseredirs_many a(3) by blast
  have "parseblock (CHR ''('' # ?s) = Inr (wrap d rs', skip_white r)"
    using d(1) r(1) by (subst parseblock.simps) (simp add: peek_symbol [OF sym(1)] peek_symbol [OF sym(2)] after_symbol)
  then have "parseexec (CHR ''('' # ?s) = Inr (wrap d rs', skip_white r)"
    by (subst parseexec.simps) (simp add: peek_symbol [OF sym(1)])
  then show "\<exists>d. parseexec (show_cmd c 3 @ show_redirs rs @ r) = Inr (d, skip_white r) \<and> map_cmd word_of d = wrap c rs"
    using d(2) r(2) a(2) by (intro exI [of _ "wrap d rs'"]) (simp add: map_wrap)
qed

lemma reads2_pipe: "reads3 l \<Longrightarrow> reads2 r \<Longrightarrow> reads2 (PIPE l r)"
  unfolding reads2_def [of "PIPE l r"]
proof (intro allI impI)
  fix s
  assume a: "reads3 l" "reads2 r" "stops '')&;'' s"
  have sym: "CHR ''|'' \<in> set symbols" by (simp add: symbols_def)
  obtain d where d: "parseexec (show_cmd l 3 @ CHR ''|'' # show_cmd r 2 @ s) = Inr (d, CHR ''|'' # show_cmd r 2 @ s)" "map_cmd word_of d = l"
    using a(1) [unfolded reads3_def, rule_format, of "[]" "CHR ''|'' # show_cmd r 2 @ s"] stops_symbol [OF sym] skip_symbol [OF sym] by auto
  obtain e where e: "parsepipe (show_cmd r 2 @ s) = Inr (e, skip_white s)" "map_cmd word_of e = r"
    using a(2) [unfolded reads2_def] a(3) by blast
  show "\<exists>d. parsepipe (show_cmd (PIPE l r) 2 @ s) = Inr (d, skip_white s) \<and> map_cmd word_of d = PIPE l r"
    using d e by (intro exI [of _ "PIPE d e"], subst parsepipe.simps) (simp add: parens_def peek_symbol [OF sym] after_symbol pipecmd_def)
qed

lemma reads1_back: "reads1 c \<Longrightarrow> reads1 (BACK c)"
  unfolding reads1_def [of "BACK c"]
proof (intro allI impI)
  fix n r
  assume a: "reads1 c" "stops '';)'' r"
  show "\<exists>d s e. parsepipe (show_cmd (BACK c) 1 @ replicate n CHR ''&'' @ r) = Inr (d, s) \<and> parsebacks d s = (e, skip_white r) \<and> map_cmd word_of e = backs n (BACK c)"
    using a(1) [unfolded reads1_def, rule_format, OF a(2), of "Suc n"] by (auto simp: parens_def backs_def funpow_swap1)
qed

lemma reads0_list: "reads1 l \<Longrightarrow> reads0 r \<Longrightarrow> reads0 (LIST l r)"
  unfolding reads0_def [of "LIST l r"]
proof (intro allI impI)
  fix s
  assume a: "reads1 l" "reads0 r" "stops '')'' s"
  have sym: "CHR '';'' \<in> set symbols" by (simp add: symbols_def)
  let ?s = "CHR '';'' # show_cmd r 0 @ s"
  obtain d t e where d: "parsepipe (show_cmd l 1 @ ?s) = Inr (d, t)" "parsebacks d t = (e, ?s)" "map_cmd word_of e = l"
    using a(1) [unfolded reads1_def, rule_format, of ?s 0] stops_symbol [OF sym] skip_symbol [OF sym] by (auto simp: backs_def)
  obtain f where f: "parseline (show_cmd r 0 @ s) = Inr (f, skip_white s)" "map_cmd word_of f = r"
    using a(2) [unfolded reads0_def] a(3) by blast
  show "\<exists>d. parseline (show_cmd (LIST l r) 0 @ s) = Inr (d, skip_white s) \<and> map_cmd word_of d = LIST l r"
    using d f by (intro exI [of _ "LIST e f"], subst parseline.simps) (simp add: parens_def peek_symbol [OF sym] after_symbol listcmd_def)
qed

lemma reads3_redir:
  assumes "reads3 c" and "redir_ok (f, m, d)"
  shows "reads3 (REDIR c f m d)"
  unfolding reads3_def
proof (intro allI impI)
  fix rs r
  assume "list_all redir_ok rs \<and> stops ''|)&;'' r"
  then show "\<exists>e. parseexec (show_cmd (REDIR c f m d) 3 @ show_redirs rs @ r) = Inr (e, skip_white r) \<and> map_cmd word_of e = wrap (REDIR c f m d) rs"
    using assms(1) [unfolded reads3_def, rule_format, of "(f, m, d) # rs" r] assms(2) by simp
qed

lemma reads_all: "expressible c \<Longrightarrow> reads3 c \<and> reads2 c \<and> reads1 c \<and> reads0 c"
proof (induction c)
  case (EXEC ws)
  then have "reads3 (EXEC ws)" by (simp add: reads3_exec)
  then show ?case using reads2_of_3 reads1_of_2 reads0_of_1 by (metis show_cmd.simps(1))
next
  case (REDIR c f m d)
  then have "reads3 (REDIR c f m d)" by (simp add: reads3_redir redir_ok_def)
  then show ?case using reads2_of_3 reads1_of_2 reads0_of_1 by (metis show_cmd.simps(2))
next
  case (PIPE l r)
  then have "reads2 (PIPE l r)" by (simp add: reads2_pipe)
  moreover then have "reads1 (PIPE l r)" by (rule reads1_of_2) (simp add: parens_def)
  moreover then have "reads0 (PIPE l r)" by (rule reads0_of_1) (simp add: parens_def)
  moreover then have "reads3 (PIPE l r)" by (rule reads3_of_0) (simp add: parens_def)
  ultimately show ?case by blast
next
  case (LIST l r)
  then have "reads0 (LIST l r)" by (simp add: reads0_list)
  moreover then have "reads3 (LIST l r)" by (rule reads3_of_0) (simp add: parens_def)
  moreover then have "reads2 (LIST l r)" by (rule reads2_of_3) (simp add: parens_def)
  moreover then have "reads1 (LIST l r)" by (rule reads1_of_2) (simp add: parens_def)
  ultimately show ?case by blast
next
  case (BACK c)
  then have "reads1 (BACK c)" by (simp add: reads1_back)
  moreover then have "reads0 (BACK c)" by (rule reads0_of_1) (simp add: parens_def)
  moreover then have "reads3 (BACK c)" by (rule reads3_of_0) (simp add: parens_def)
  moreover then have "reads2 (BACK c)" by (rule reads2_of_3) (simp add: parens_def)
  ultimately show ?case by blast
qed

subsection \<open>Descriptors of the programs that are started\<close>

text \<open>A table with exactly the descriptors 0, 1 and 2 open, and room for a pipe.\<close>

definition std_fds :: "fds \<Rightarrow> bool" where
  "std_fds t \<longleftrightarrow> (\<exists>a b c n. t = Some a # Some b # Some c # replicate (n + 2) None)"

lemma first_free_replicate [simp]: "first_free (replicate n None) = (if n = 0 then None else Some 0)"
  by (cases n) auto

lemma close_replicate [simp]: "(replicate n None)[i := None] = replicate n None"
  by (cases "i < n") (auto intro!: nth_equalityI simp: nth_list_update)

text \<open>The descriptor that was closed is the one the next \<^verbatim>\<open>open\<close> or \<^verbatim>\<open>dup\<close> gets.\<close>

lemma redirect_fd:
  assumes "std_fds t" and "d < 3"
  shows "new_fd x (close_fd d t) = Some (d, t[d := Some x])" and "std_fds (t[d := Some x])"
proof -
  have "d = 0 \<or> d = 1 \<or> d = 2" using assms(2) by auto
  then show "new_fd x (close_fd d t) = Some (d, t[d := Some x])" "std_fds (t[d := Some x])"
    using assms(1) by (auto simp: std_fds_def new_fd_def close_fd_def numeral_2_eq_2)
qed

lemma pipe_fds:
  assumes "std_fds t"
  shows "Option.bind (new_fd x t) (\<lambda>(p0, t). map_option (\<lambda>(p1, t). (p0, p1, t)) (new_fd y t)) = Some (3, 4, t[3 := Some x, 4 := Some y])"
  using assms by (auto simp: std_fds_def new_fd_def numeral_eq_Suc)

lemma pipe_child_fds:
  assumes "std_fds t" and "t' = t[3 := Some x, 4 := Some y]"
  shows "close_fd 4 (close_fd 3 (dup_fd 4 (close_fd 1 t'))) = t[1 := Some y]" and "close_fd 4 (close_fd 3 (dup_fd 3 (close_fd 0 t'))) = t[0 := Some x]"
  using assms by (auto simp: std_fds_def dup_fd_def new_fd_def close_fd_def numeral_eq_Suc)

text \<open>The programs that a process and its children start.\<close>

fun programs :: "event list \<Rightarrow> (string \<times> string list \<times> fds) list" where
  "programs [] = []"
| "programs (Runs p argv t # evs) = (p, argv, t) # programs evs"
| "programs (Child evs' # evs) = programs evs' @ programs evs"
| "programs (_ # evs) = programs evs"

text \<open>A process that runs a command never gets back to its caller: it becomes the program or exits.\<close>

definition ends :: "event list \<Rightarrow> bool" where
  "ends evs \<longleftrightarrow> evs \<noteq> [] \<and> (case last evs of Runs _ _ _ \<Rightarrow> True | Exits \<Rightarrow> True | _ \<Rightarrow> False)"

lemma ends_simps [simp]: "ends (e # evs) \<longleftrightarrow> ends evs \<or> evs = [] \<and> (case e of Runs _ _ _ \<Rightarrow> True | Exits \<Rightarrow> True | _ \<Rightarrow> False)"
  by (auto simp: ends_def)

lemma runcmd_pipe:
  assumes "std_fds t" and "pipe_ok e k" and "fork_ok e (k + 1)"
  shows "runcmd e (PIPE l r) t k =
    (case runcmd e l (t[1 := Some (PipeWrite k)]) (k + 2) of (left, k1) \<Rightarrow>
       if \<not> fork_ok e k1 then ([Child left, Says ''fork'', Exits], k1 + 1)
       else (case runcmd e r (t[0 := Some (PipeRead k)]) (k1 + 1) of (right, k2) \<Rightarrow> ([Child left, Child right, Waits, Waits, Exits], k2)))"
  using assms(2,3) pipe_fds [OF assms(1), of "PipeRead k" "PipeWrite k"] pipe_child_fds [OF assms(1) refl, of "PipeRead k" "PipeWrite k"]
  by (simp split: prod.split)

lemma runcmd_redir:
  assumes "std_fds t" and "d < 3" and "open_ok e f m"
  shows "runcmd e (REDIR c f m d) t k = runcmd e c (t[d := Some (OnFile f m)]) k"
  using redirect_fd [OF assms(1,2), of "OnFile f m"] assms(3) by simp

lemma runcmd_std:
  assumes "std_fds t" and "redirs_std c"
  shows "ends (fst (runcmd e c t k)) \<and> (\<forall>p\<in>set (programs (fst (runcmd e c t k))). std_fds (snd (snd p)))"
  using assms
proof (induction c arbitrary: t k)
  case (EXEC as)
  then show ?case by (auto simp: ends_def split: list.splits)
next
  case (REDIR c f m d)
  show ?case
  proof (cases "open_ok e f m")
    case True
    have "std_fds (t[d := Some (OnFile f m)])" using REDIR.prems redirect_fd(2) [of t d] by simp
    then show ?thesis using REDIR.IH [of "t[d := Some (OnFile f m)]" k] REDIR.prems True runcmd_redir [of t d e f m c k] by (simp del: runcmd.simps)
  qed (simp add: ends_def)
next
  case (PIPE l r)
  show ?case
  proof (cases "pipe_ok e k \<and> fork_ok e (k + 1)")
    case True
    obtain left k1 where l: "runcmd e l (t[1 := Some (PipeWrite k)]) (k + 2) = (left, k1)" by (metis prod.collapse)
    obtain right k2 where r: "runcmd e r (t[0 := Some (PipeRead k)]) (k1 + 1) = (right, k2)" by (metis prod.collapse)
    have "\<forall>p\<in>set (programs left). std_fds (snd (snd p))" "\<forall>p\<in>set (programs right). std_fds (snd (snd p))"
      using PIPE.IH(1) [of "t[1 := Some (PipeWrite k)]" "k + 2"] PIPE.IH(2) [of "t[0 := Some (PipeRead k)]" "k1 + 1"] PIPE.prems
        redirect_fd(2) [of t] l r by auto
    then show ?thesis using runcmd_pipe [OF PIPE.prems(1)] True l r by (auto simp del: runcmd.simps)
  next
    case False
    then show ?thesis using pipe_fds [OF PIPE.prems(1), of "PipeRead k" "PipeWrite k"] by (cases "pipe_ok e k") simp_all
  qed
next
  case (LIST l r)
  obtain child k1 where l: "runcmd e l t (k + 1) = (child, k1)" by (metis prod.collapse)
  obtain evs k2 where r: "runcmd e r t k1 = (evs, k2)" by (metis prod.collapse)
  then show ?case using LIST.IH(1) [of t "k + 1"] LIST.IH(2) [of t k1] LIST.prems l r by (auto simp del: ends_simps(1)) (auto simp: ends_def)
next
  case (BACK c)
  obtain child k1 where l: "runcmd e c t (k + 1) = (child, k1)" by (metis prod.collapse)
  then show ?case using BACK.IH [of t "k + 1"] BACK.prems by auto
qed


lemma redirs_std_map [simp]: "redirs_std (map_cmd f c) \<longleftrightarrow> redirs_std c"
  by (induction c) auto

lemma parsecmd_std: "parsecmd line = Inr (c, buf) \<Longrightarrow> redirs_std c"
  using parse_words(1) [of line c _ line] by (auto simp: parsecmd_def reads_words_def split: sum.splits prod.splits if_splits)

lemma show_no_nul: "expressible c \<Longrightarrow> CHR 0x00 \<notin> set (show_cmd c lv)"
  by (induction c arbitrary: lv) (auto simp: parens_def show_redir_def list_all_iff is_word_def word_char_def)

text \<open>The loop of \<^verbatim>\<open>main\<close> that opens the console takes a free descriptor in every round: more rounds than the table has entries change nothing.\<close>

definition free_slots :: "fds \<Rightarrow> nat" where
  "free_slots t = length (filter (\<lambda>x. x = None) t)"

lemma first_free_slots: "first_free t = Some d \<Longrightarrow> Suc (free_slots (t[d := Some x])) = free_slots t"
  by (induction t arbitrary: d) (auto simp: free_slots_def split: if_splits)

lemma open_console_enough: "free_slots t \<le> n \<Longrightarrow> open_console e (Suc n + m) t = open_console e (Suc n) t"
proof (induction n arbitrary: t)
  case 0
  then have "first_free t = None" by (cases "first_free t") (use first_free_slots in fastforce)+
  then show ?case by (simp add: new_fd_def)
next
  case (Suc n)
  show ?case
  proof (cases "first_free t")
    case (Some d)
    then have "free_slots (t[d := Some Console]) \<le> n" using first_free_slots [of t d Console] Suc.prems by simp
    then have "open_console e (Suc n + m) (t[d := Some Console]) = open_console e (Suc n) (t[d := Some Console])" by (rule Suc.IH)
    moreover have "open_console e (Suc k) t =
        (if open_ok e ''console'' 2 then if d \<ge> 3 then close_fd d (t[d := Some Console]) else open_console e k (t[d := Some Console]) else t)" for k
      using Some by (simp add: new_fd_def)
    ultimately show ?thesis by (metis add_Suc)
  qed (simp add: new_fd_def)
qed

lemma open_console_fresh:
  assumes "open_ok e ''console'' 2"
  shows "open_console e (n + 6) (replicate (n + 5) None) = replicate 3 (Some Console) @ replicate (n + 2) None"
  using assms by (simp add: new_fd_def close_fd_def numeral_eq_Suc)

section \<open>Properties\<close>

definition demo_pipeline :: "string cmd" where
  "demo_pipeline = LIST (BACK (PIPE (REDIR (EXEC [''cat'', ''-n'']) ''in'' O_RDONLY 0) (REDIR (LIST (EXEC [''head'']) (EXEC [''wc''])) ''out'' (O_WRONLY + O_CREATE) 1))) (EXEC [''ls''])"

lemma demo_pipeline_expressible: "expressible demo_pipeline"
  by (simp add: demo_pipeline_def is_word_def word_char_def whitespace_def symbols_def)

text \<open>C16: the parser reads back every command tree from its text, whatever the nesting of pipes, lists, background commands, blocks and
  redirections: \<^verbatim>\<open>parsecmd\<close> of the text gives the tree, with the strings that its pointers point to in the terminated line.\<close>

theorem shell_parses_every_command:
  assumes "expressible c"
  shows "\<exists>d buf. parsecmd (show_cmd c 0) = Inr (d, buf) \<and> strings_of (show_cmd c 0) buf d = c"
proof -
  have "reads0 c" using reads_all [OF assms] by blast
  moreover have nil: "skip_white [] = []" by (simp add: skip_white_def)
  ultimately obtain d where d: "parseline (show_cmd c 0) = Inr (d, [])" "map_cmd word_of d = c"
    unfolding reads0_def using nil by (metis append_Nil2 stops_def)
  then obtain buf where "parsecmd (show_cmd c 0) = Inr (d, buf)" using nil by (auto simp: parsecmd_def peek_def)
  then show ?thesis using parsecmd_words(1) [OF _ show_no_nul [OF assms]] d(2) by metis
qed

theorem shell_parses_every_command_witness:
  "show_cmd demo_pipeline 0 = ''cat -n <in |(head ;wc )>out &;ls ''
   \<and> (\<exists>d buf. parsecmd ''cat -n <in |(head ;wc )>out &;ls '' = Inr (d, buf) \<and> strings_of ''cat -n <in |(head ;wc )>out &;ls '' buf d = demo_pipeline)"
proof -
  have s: "show_cmd demo_pipeline 0 = ''cat -n <in |(head ;wc )>out &;ls ''" by (simp add: demo_pipeline_def parens_def show_redir_def O_RDONLY_def O_WRONLY_def O_CREATE_def)
  show ?thesis using shell_parses_every_command [OF demo_pipeline_expressible] by (simp add: s)
qed

text \<open>C32: for every line the parser accepts, each argument and file name of the command is, once \<^verbatim>\<open>nulterminate\<close> has stored its zeros, a
  word of the line: the characters from its pointer up to the next white space or symbol, none of them lost to the zero of another word.\<close>

theorem shell_words_are_intact:
  assumes "parsecmd line = Inr (c, buf)" and "CHR 0x00 \<notin> set line" and "p \<in> set_cmd c"
  shows "string_at buf (offset line (fst p)) = takeWhile word_char (fst p) \<and> string_at buf (offset line (fst p)) \<noteq> [] \<and> suffix (fst p) line"
proof -
  obtain s where s: "parseline line = Inr (c, s)" "buf = nulterminate line c (line @ [CHR 0x00])"
    using assms(1) by (auto simp: parsecmd_def split: sum.splits prod.splits if_splits)
  have c: "reads_words line c" using parse_words(1) [OF s(1), of line] by simp
  then have g: "good line p" using assms(3) by (simp add: reads_words_def)
  obtain w where w: "fst p = w @ snd p" "snd p = [] \<or> hd (snd p) \<in> set whitespace \<union> set symbols" using g by (auto simp: good_def)
  then have "word_of p = w" by (simp add: word_of_def)
  moreover have "is_word (word_of p)" using parsecmd_words(2) [OF assms(1,2)] assms(3) by blast
  ultimately have "takeWhile word_char (fst p) = word_of p" "word_of p \<noteq> []"
    using w by (cases "snd p"; auto simp: is_word_def word_char_def takeWhile_append)+
  then show ?thesis using string_at_word [OF c assms(3,2)] s(2) g by (simp add: good_def)
qed

theorem shell_words_are_intact_witness:
  "\<exists>c buf. parsecmd ''ls|wc'' = Inr (c, buf) \<and> (''ls|wc'', ''|wc'') \<in> set_cmd c \<and> string_at buf (offset ''ls|wc'' ''ls|wc'') = ''ls''"
proof -
  let ?c = "PIPE (EXEC [(''ls|wc'', ''|wc'')]) (EXEC [(''wc'', [])])"
  let ?buf = "[CHR ''l'', CHR ''s'', CHR 0x00, CHR ''w'', CHR ''c'', CHR 0x00]"
  have e: "parsecmd ''ls|wc'' = Inr (?c, ?buf)" by code_simp
  have w: "takeWhile word_char ''ls|wc'' = ''ls''" by code_simp
  have m: "(''ls|wc'', ''|wc'') \<in> set_cmd ?c" and n: "CHR 0x00 \<notin> set ''ls|wc''" by simp_all
  show ?thesis
    using shell_words_are_intact [OF e n m, unfolded fst_conv w] e m by (intro exI [of _ ?c] exI [of _ ?buf]) blast
qed

text \<open>A shell on the console whose kernel grants everything asked for.\<close>

definition console_fds :: fds where
  "console_fds = replicate 3 (Some Console) @ replicate 13 None"

definition demo_answers :: kernel_answers where
  "demo_answers = \<lparr>exec_ok = (\<lambda>p. take 5 p = ''/bin/''), open_ok = (\<lambda>_ _. True), chdir_ok = (\<lambda>_. True), fork_ok = (\<lambda>_. True), pipe_ok = (\<lambda>_. True)\<rparr>"

lemma console_fds_std: "std_fds console_fds"
  by (auto simp: std_fds_def console_fds_def numeral_eq_Suc intro!: exI [of _ "11 :: nat"])

text \<open>C26: a shell that holds the descriptors 0, 1 and 2 runs every line in a child that does not return to the loop, and every program
  started for it, in however many pipes, has exactly the descriptors 0, 1 and 2: no end of a pipe is left open in a program that does not
  use it, which would keep a reader waiting for the end of its input.\<close>

theorem shell_leaks_no_descriptor:
  assumes "std_fds t" and "run_line e line t k = (evs, k')"
  shows "(\<forall>child\<in>{child. Child child \<in> set evs}. ends child) \<and> (\<forall>p\<in>set (programs evs). std_fds (snd (snd p)))"
proof (cases "take 3 line = ''cd '' \<or> \<not> fork_ok e k")
  case True
  then show ?thesis using assms(2) by (auto simp: run_line_def Let_def split: if_splits)
next
  case False
  show ?thesis
  proof (cases "parsecmd line")
    case (Inl msg)
    then show ?thesis using assms(2) False by (auto simp: run_line_def)
  next
    case (Inr x)
    obtain c buf where c: "parsecmd line = Inr (c, buf)" using Inr by (cases x) auto
    have "redirs_std (strings_of line buf c)" using parsecmd_std [OF c] by (simp add: strings_of_def)
    note r = runcmd_std [OF assms(1) this, of e "k + 1"]
    obtain child k1 where "runcmd e (strings_of line buf c) t (k + 1) = (child, k1)" by (metis prod.collapse)
    then show ?thesis using assms(2) c False r by (auto simp: run_line_def)
  qed
qed

theorem shell_leaks_no_descriptor_witness:
  "\<exists>evs k. run_line demo_answers ''ls|wc'' console_fds 0 = (evs, k) \<and> length (programs evs) = 2 \<and> (\<forall>p\<in>set (programs evs). std_fds (snd (snd p)))"
proof -
  obtain evs k where r: "run_line demo_answers ''ls|wc'' console_fds 0 = (evs, k)" by (metis prod.collapse)
  have "length (programs (fst (run_line demo_answers ''ls|wc'' console_fds 0))) = 2" by code_simp
  then show ?thesis using shell_leaks_no_descriptor [OF console_fds_std r] r by auto
qed

text \<open>C36: in a pipeline the left command runs with its output on the pipe and the right command with its input on the same pipe, in children
  of a process that waits for both; a redirection puts the file at its descriptor. Nothing else of the table changes.\<close>

theorem shell_connects_pipes_and_files:
  assumes "std_fds t" and "pipe_ok e k" and "\<forall>n. fork_ok e n" and "d < 3" and "open_ok e f m"
  shows "(\<exists>k1 k2. runcmd e (PIPE l r) t k =
      ([Child (fst (runcmd e l (t[1 := Some (PipeWrite k)]) (k + 2))), Child (fst (runcmd e r (t[0 := Some (PipeRead k)]) k1)), Waits, Waits, Exits], k2))
    \<and> runcmd e (REDIR c f m d) t k = runcmd e c (t[d := Some (OnFile f m)]) k"
proof
  show "\<exists>k1 k2. runcmd e (PIPE l r) t k =
      ([Child (fst (runcmd e l (t[1 := Some (PipeWrite k)]) (k + 2))), Child (fst (runcmd e r (t[0 := Some (PipeRead k)]) k1)), Waits, Waits, Exits], k2)"
    unfolding runcmd_pipe [OF assms(1,2) assms(3) [rule_format]] using assms(3) by (auto split: prod.split) (metis fst_conv)
  show "runcmd e (REDIR c f m d) t k = runcmd e c (t[d := Some (OnFile f m)]) k" by (rule runcmd_redir [OF assms(1,4,5)])
qed

theorem shell_connects_pipes_and_files_witness:
  "\<exists>k1 k2. runcmd demo_answers (PIPE (EXEC [''ls'']) (EXEC [''wc''])) console_fds 0 =
     ([Child (fst (runcmd demo_answers (EXEC [''ls'']) (console_fds[1 := Some (PipeWrite 0)]) 2)),
       Child (fst (runcmd demo_answers (EXEC [''wc'']) (console_fds[0 := Some (PipeRead 0)]) k1)), Waits, Waits, Exits], k2)"
proof -
  have "pipe_ok demo_answers 0" "\<forall>n. fork_ok demo_answers n" "(1 :: nat) < 3" "open_ok demo_answers ''x'' 0" by (simp_all add: demo_answers_def)
  from shell_connects_pipes_and_files [OF console_fds_std this, THEN conjunct1, of "EXEC [''ls'']" "EXEC [''wc'']"]
  show ?thesis by (simp only: add_0)
qed

end
