(* ===== verification/TMkfs.thy ===== *)
theory TMkfs
  imports KData KDir
begin

text \<open>
  The tool that makes a file system image (\<^verbatim>\<open>tools/mkfs.c\<close>).

  The image is a map from block numbers to blocks; reads and writes of the image file succeed. A struct on disk is the bytes it
  consists of, as \<^verbatim>\<open>mkfs\<close> copies it. An exit with an error and a failed assertion are the outcome \<open>Panic\<close>. The host machine has Intel
  byte order. The lemmas read the image with the definitions of the kernel: what \<^verbatim>\<open>iappend\<close> adds is what the kernel reads, files share no
  block, and the free map marks the blocks in use.
\<close>

section \<open>Definitions\<close>

abbreviation "fssize \<equiv> 10000 :: nat"
abbreviation "NINODES \<equiv> 200 :: nat"

definition nbitmap :: nat where "nbitmap = fssize div (BSIZE * 8) + 1"
definition ninodeblocks :: nat where "ninodeblocks = NINODES div IPB + 1"
definition nlog :: nat where "nlog = 60"
definition nmeta :: nat where "nmeta = 2 + nlog + ninodeblocks + nbitmap"

record mk_st =
  img :: "uint \<Rightarrow> bytes"
  freeinode :: uint
  freeblock :: uint

text \<open>The value whose bytes in memory are those of \<open>x\<close> in Intel order.\<close>

definition xshort :: "ushort \<Rightarrow> ushort" where
  "xshort x = rd16 (\<lambda>i. [ucast x, ucast (drop_bit 8 x)] ! i) 0"

definition xint :: "uint \<Rightarrow> uint" where
  "xint x = rd32 (\<lambda>i. [ucast x, ucast (drop_bit 8 x), ucast (drop_bit 16 x), ucast (drop_bit 24 x)] ! i) 0"

definition mk_sb :: superblock where
  "mk_sb =
     \<lparr>sb_size = xint (of_nat fssize), sb_nblocks = xint (of_nat (fssize - nmeta)), sb_ninodes = xint (of_nat NINODES), sb_nlog = xint (of_nat nlog),
      sb_logstart = xint 2, sb_inodestart = xint (of_nat (2 + nlog)), sb_bmapstart = xint (of_nat (2 + nlog + ninodeblocks)),
      sb_mounttime = 0, sb_modtime = 0\<rparr>"

definition encode_sb :: "superblock \<Rightarrow> bytes" where
  "encode_sb sb =
     (let d = wr32 (\<lambda>_. 0) 0 (sb_size sb); d = wr32 d 4 (sb_nblocks sb); d = wr32 d 8 (sb_ninodes sb); d = wr32 d 12 (sb_nlog sb);
          d = wr32 d 16 (sb_logstart sb); d = wr32 d 20 (sb_inodestart sb); d = wr32 d 24 (sb_bmapstart sb);
          d = wr32 d 28 (sb_mounttime sb)
      in wr32 d 32 (sb_modtime sb))"

definition rsect :: "uint \<Rightarrow> mk_st \<Rightarrow> bytes" where
  "rsect sec s = img s sec"

definition wsect :: "uint \<Rightarrow> bytes \<Rightarrow> mk_st \<Rightarrow> mk_st" where
  "wsect sec buf s = s\<lparr>img := (img s)(sec := buf)\<rparr>"

definition winode :: "uint \<Rightarrow> bytes \<Rightarrow> mk_st \<Rightarrow> mk_st" where
  "winode inum din s =
     (let bn = IBLOCK inum mk_sb; buf = rsect bn s in
      wsect bn (bytes_put buf (dip inum) din 72) s)"

definition rinode :: "uint \<Rightarrow> mk_st \<Rightarrow> bytes" where
  "rinode inum s = (let bn = IBLOCK inum mk_sb; buf = rsect bn s in (\<lambda>i. buf (dip inum + i)))"

text \<open>The fields of a \<^verbatim>\<open>struct dinode\<close>, as \<^verbatim>\<open>KInode\<close> has them: \<^verbatim>\<open>size\<close> at 8, \<^verbatim>\<open>addrs\<close> from 12.\<close>

abbreviation din_size :: "bytes \<Rightarrow> uint" where "din_size din \<equiv> rd32 din 8"
abbreviation din_addr :: "bytes \<Rightarrow> nat \<Rightarrow> uint" where "din_addr din k \<equiv> rd32 din (12 + 4 * k)"
abbreviation set_din_addr :: "bytes \<Rightarrow> nat \<Rightarrow> uint \<Rightarrow> bytes" where "set_din_addr din k x \<equiv> wr32 din (12 + 4 * k) x"

definition mk_ialloc :: "ushort \<Rightarrow> mk_st \<Rightarrow> uint \<times> mk_st" where
  "mk_ialloc type s =
     (let inum = freeinode s;
          din = (\<lambda>_. 0);
          din = wr16 din 0 (xshort type); din = wr16 din 6 (xshort 1); din = wr32 din 8 (xint 0);
          din = wr32 din 64 (xint 0); din = wr32 din 68 (xint 0)
      in (inum, winode inum din (s\<lparr>freeinode := inum + 1\<rparr>)))"

definition mk_balloc :: "nat \<Rightarrow> mk_st \<Rightarrow> mk_st res" where
  "mk_balloc n s =
     (if \<not> n < BSIZE * 8 then Inl (Panic ''used < BSIZE * 8'')
      else Inr (wsect (sb_bmapstart mk_sb) (fold set_map_bit [0..<n] (\<lambda>_. 0)) s))"

text \<open>The parts of \<^verbatim>\<open>iappend\<close>: an address of the inode, and an entry of a block of addresses, each allocated when it is zero.\<close>

definition din_slot :: "nat \<Rightarrow> bytes \<Rightarrow> mk_st \<Rightarrow> uint \<times> bytes \<times> mk_st" where
  "din_slot k din s =
     (if din_addr din k = 0 then (freeblock s, set_din_addr din k (freeblock s), s\<lparr>freeblock := freeblock s + 1\<rparr>)
      else (din_addr din k, din, s))"

definition blk_slot :: "uint \<Rightarrow> nat \<Rightarrow> mk_st \<Rightarrow> uint \<times> mk_st" where
  "blk_slot b k s =
     (let lbuf = rsect b s in
      if rd32 lbuf (4 * k) = 0 then
        (freeblock s, wsect b (wr32 lbuf (4 * k) (freeblock s)) (s\<lparr>freeblock := freeblock s + 1\<rparr>))
      else (rd32 lbuf (4 * k), s))"

definition iappend_map :: "nat \<Rightarrow> bytes \<Rightarrow> mk_st \<Rightarrow> uint \<times> bytes \<times> mk_st" where
  "iappend_map fbn din s =
     (if fbn < NDIRECT then din_slot fbn din s
      else if fbn < NDIRECT + NINDIRECT then
        (let sind_idx = fbn - NDIRECT in
         case din_slot NDIRECT din s of (a, din, s) \<Rightarrow>
         case blk_slot a sind_idx s of (x, s) \<Rightarrow> (x, din, s))
      else if fbn < NDIRECT + NINDIRECT + NDINDIRECT then
        (let fbn_rel = fbn - (NDIRECT + NINDIRECT); dind_idx = fbn_rel div NINDIRECT; sind_idx = fbn_rel mod NINDIRECT in
         case din_slot (NDIRECT + 1) din s of (a, din, s) \<Rightarrow>
         case blk_slot a dind_idx s of (l2_addr, s) \<Rightarrow>
         case blk_slot l2_addr sind_idx s of (x, s) \<Rightarrow> (x, din, s))
      else
        (let fbn_rel = fbn - (NDIRECT + NINDIRECT + NDINDIRECT); tind_idx = fbn_rel div NDINDIRECT;
             dind_idx = (fbn_rel mod NDINDIRECT) div NINDIRECT; sind_idx = (fbn_rel mod NDINDIRECT) mod NINDIRECT in
         case din_slot (NDIRECT + 2) din s of (a, din, s) \<Rightarrow>
         case blk_slot a tind_idx s of (l2_addr, s) \<Rightarrow>
         case blk_slot l2_addr dind_idx s of (l3_addr, s) \<Rightarrow>
         case blk_slot l3_addr sind_idx s of (x, s) \<Rightarrow> (x, din, s)))"

function iappend_loop :: "nat \<Rightarrow> uchar list \<Rightarrow> bytes \<Rightarrow> mk_st \<Rightarrow> (nat \<times> bytes \<times> mk_st) res" where
  "iappend_loop off p din s =
     (if p = [] then Inr (off, din, s)
      else
        (let fbn = off div BSIZE in
         if fbn \<ge> MAXFILE then Inl (Panic ''file is too large'')
         else
           (case iappend_map fbn din s of (x, din, s) \<Rightarrow>
              let n1 = min (length p) ((fbn + 1) * BSIZE - off);
                  buf = bytes_put (rsect x s) (off - fbn * BSIZE) (\<lambda>i. p ! i) n1
              in iappend_loop (off + n1) (drop n1 p) din (wsect x buf s))))"
  by pat_completeness auto
termination
proof (relation "measure (\<lambda>(off, p, din, s). length p)")
  fix off :: nat and p :: "uchar list" and din :: bytes and s x din' s' fbn n1 buf
  fix y z
  assume p: "p \<noteq> []" and n1: "n1 = min (length p) ((fbn + 1) * BSIZE - off)" and fbn: "fbn = off div BSIZE"
  have "off < (fbn + 1) * BSIZE" unfolding fbn by (simp add: dividend_less_div_times)
  then have "0 < n1" using p n1 by simp
  then show "((off + n1, drop n1 p, din', wsect x buf s'), (off, p, din, s)) \<in> measure (\<lambda>(off, p, din, s). length p)"
    using p by simp
qed simp

declare iappend_loop.simps [simp del]

definition iappend :: "uint \<Rightarrow> uchar list \<Rightarrow> mk_st \<Rightarrow> mk_st res" where
  "iappend inum p s =
     (let din = rinode inum s in
      rbind (iappend_loop (unat (din_size din)) p din s) (\<lambda>(off, din, s).
      Inr (winode inum (wr32 din 8 (of_nat off)) s)))"

text \<open>The name of an entry: its bytes without the zeros and blanks at the end, read as a string.\<close>

definition entry_name :: "uchar list \<Rightarrow> uchar list" where
  "entry_name de = takeWhile (\<lambda>c. c \<noteq> 0) (rev (dropWhile (\<lambda>c. c = 0 \<or> c = 32) (rev (de_name de))))"

primrec find_entry :: "uchar list \<Rightarrow> uchar list list \<Rightarrow> uint option" where
  "find_entry name [] = None"
| "find_entry name (de # des) =
     (let inum = xshort (de_inum de) in
      if inum \<noteq> 0 \<and> entry_name de = name then Some (ucast inum) else find_entry name des)"

definition block_entries :: "bytes \<Rightarrow> uchar list list" where
  "block_entries buf = map (\<lambda>j. map (\<lambda>i. buf (16 * j + i)) [0..<16]) [0..<BSIZE div 16]"

definition mk_dirlookup :: "uint \<Rightarrow> uchar list \<Rightarrow> mk_st \<Rightarrow> uint" where
  "mk_dirlookup dirinum name s =
     (let din = rinode dirinum s;
          addrs = filter (\<lambda>a. a \<noteq> 0) (map (\<lambda>i. xint (din_addr din i)) [0..<NDIRECT])
      in case find_entry name (concat (map (\<lambda>a. block_entries (rsect a s)) addrs)) of None \<Rightarrow> 0 | Some inum \<Rightarrow> inum)"

text \<open>A new directory in \<open>parent\<close>: its inode, its entry, and its entries for itself and its parent.\<close>

definition add_entry :: "uint \<Rightarrow> uint \<Rightarrow> uchar list \<Rightarrow> mk_st \<Rightarrow> mk_st res" where
  "add_entry dir inum name s = iappend dir (enc_dirent (xshort (ucast inum)) name) s"

definition new_dir :: "uint \<Rightarrow> uchar list \<Rightarrow> mk_st \<Rightarrow> (uint \<times> mk_st) res" where
  "new_dir parent name s =
     (case mk_ialloc T_DIR s of (inum, s) \<Rightarrow>
      rbind (add_entry parent inum name s) (\<lambda>s.
      rbind (add_entry inum inum [46] s) (\<lambda>s.
      rbind (add_entry inum parent [46, 46] s) (\<lambda>s. Inr (inum, s)))))"

text \<open>The elements that \<^verbatim>\<open>strtok\<close> finds between slashes, and the walk along them.\<close>

function elements :: "uchar list \<Rightarrow> uchar list list" where
  "elements path =
     (let p = dropWhile (\<lambda>c. c = slash) path in
      if p = [] then [] else takeWhile (\<lambda>c. c \<noteq> slash) p # elements (dropWhile (\<lambda>c. c \<noteq> slash) p))"
  by pat_completeness auto
termination
proof (relation "measure length")
  fix path p :: "uchar list"
  assume p: "p = dropWhile (\<lambda>c. c = slash) path" "p \<noteq> []"
  then obtain c cs where c: "p = c # cs" "c \<noteq> slash" using hd_dropWhile [of "\<lambda>c. c = slash" path] by (metis list.collapse)
  have "length (dropWhile (\<lambda>c. c \<noteq> slash) p) < length p" using c length_dropWhile_le [of "\<lambda>c. c \<noteq> slash" cs] by simp
  also have "\<dots> \<le> length path" using p(1) length_dropWhile_le [of "\<lambda>c. c = slash" path] by simp
  finally show "(dropWhile (\<lambda>c. c \<noteq> slash) p, path) \<in> measure length" by simp
qed simp

declare elements.simps [simp del]

primrec walk_path :: "uint \<Rightarrow> uchar list list \<Rightarrow> mk_st \<Rightarrow> (uint \<times> mk_st) res" where
  "walk_path parent [] s = Inr (parent, s)"
| "walk_path parent (tok # toks) s =
     (let found = mk_dirlookup parent tok s in
      if found = 0 then rbind (new_dir parent tok s) (\<lambda>(inum, s). walk_path inum toks s)
      else walk_path found toks s)"

definition ensure_path :: "uint \<Rightarrow> uchar list \<Rightarrow> mk_st \<Rightarrow> (uint \<times> mk_st) res" where
  "ensure_path parent path s = walk_path parent (elements (take 511 path)) s"

text \<open>
  The body of the loop over the arguments. What the host has at a path is a parameter: nothing, a regular file that can be read, with its
  bytes, or something else. The bytes are read in blocks.
\<close>

datatype host_file = Missing | Regular "uchar list" | Other_kind

fun append_blocks :: "uint \<Rightarrow> uchar list \<Rightarrow> mk_st \<Rightarrow> mk_st res" where
  "append_blocks inum data s =
     (if data = [] then Inr s
      else rbind (iappend inum (take BSIZE data) s) (\<lambda>s. append_blocks inum (drop BSIZE data) s))"

declare append_blocks.simps [simp del]

definition image_path :: "uchar list \<Rightarrow> uchar list" where
  "image_path hostpath =
     (let p = take 511 hostpath;
          p = (if take 10 p = map (of_nat \<circ> of_char) ''userspace/'' then drop 10 p else p)
      in rev (dropWhile (\<lambda>c. c = slash) (rev p)))"

definition split_path :: "uchar list \<Rightarrow> uchar list \<times> uchar list" where
  "split_path p =
     (if slash \<in> set p then
        (let base = rev (takeWhile (\<lambda>c. c \<noteq> slash) (rev p)) in (take (length p - length base - 1) p, base))
      else ([], p))"

definition add_path :: "uchar list \<Rightarrow> host_file \<Rightarrow> mk_st \<Rightarrow> mk_st res" where
  "add_path hostpath f s =
     (if f = Missing then Inl (Panic ''stat'')
      else
        (let (dir, base) = split_path (image_path hostpath);
             base = (if base \<noteq> [] \<and> hd base = 95 then tl base else base) in
         rbind (if slash \<in> set (image_path hostpath) then ensure_path ROOTINO dir s else Inr (ROOTINO, s)) (\<lambda>(parent, s).
         case f of
           Regular data \<Rightarrow>
             (case mk_ialloc T_FILE s of (inum, s) \<Rightarrow>
              rbind (add_entry parent inum base s) (\<lambda>s. append_blocks inum data s))
         | _ \<Rightarrow> Inr s)))"

text \<open>\<^verbatim>\<open>main\<close>: an empty image, the root directory, the files, the size of the root directory and the free map.\<close>

definition mkfs_init :: mk_st where
  "mkfs_init = wsect 1 (encode_sb mk_sb) \<lparr>img = (\<lambda>_ _. 0), freeinode = 1, freeblock = of_nat nmeta\<rparr>"

definition mkfs_root :: "mk_st \<Rightarrow> mk_st res" where
  "mkfs_root s =
     (case mk_ialloc T_DIR s of (rootino, s) \<Rightarrow>
      if rootino \<noteq> ROOTINO then Inl (Panic ''rootino == ROOTINO'')
      else rbind (add_entry rootino rootino [46] s) (\<lambda>s. add_entry rootino rootino [46, 46] s))"

definition fix_root_size :: "mk_st \<Rightarrow> mk_st" where
  "fix_root_size s =
     (let din = rinode ROOTINO s; off = xint (din_size din); off = (off div 512 + 1) * 512 in
      winode ROOTINO (wr32 din 8 (xint off)) s)"

definition mkfs :: "(uchar list \<times> host_file) list \<Rightarrow> mk_st res" where
  "mkfs files =
     rbind (mkfs_root mkfs_init) (\<lambda>s.
     rbind (rfold (\<lambda>(path, f) s. add_path path f s) files s) (\<lambda>s.
     let s = fix_root_size s in mk_balloc (unat (freeblock s)) s))"

section \<open>Lemmas\<close>

subsection \<open>The layout\<close>

lemma xshort_id [simp]: "xshort x = x"
proof -
  have "xshort x = rd16 (wr16 (\<lambda>_. 0) 0 x) 0" unfolding xshort_def by (rule rd16_cong) (simp_all add: wr16_def)
  then show ?thesis by simp
qed

lemma xint_id [simp]: "xint x = x"
proof -
  have "xint x = rd32 (wr32 (\<lambda>_. 0) 0 x) 0" unfolding xint_def rd32_def wr32_def by (simp add: numeral_eq_Suc)
  then show ?thesis by simp
qed

lemma layout [simp]:
  "nmeta = 94" "sb_bmapstart mk_sb = 91" "sb_inodestart mk_sb = 62" "sb_size mk_sb = 10000" "IBLOCK n mk_sb = n div 7 + 62"
  by (simp_all add: nmeta_def nlog_def ninodeblocks_def nbitmap_def mk_sb_def IBLOCK_def)

lemma decode_encode_sb: "decode_sb (encode_sb sb) = sb"
  unfolding decode_sb_def encode_sb_def Let_def by (simp add: byte_simps)

subsection \<open>Inodes in the image\<close>

text \<open>The inode as the kernel loads it.\<close>

definition blank_inode :: inode where
  "blank_inode = \<lparr>i_dev = ROOTDEV, i_inum = 0, i_ref = 0, i_lock = initsleeplock, i_valid = True, i_type = 0, i_major = 0, i_minor = 0,
     i_nlink = 0, i_size = 0, i_addrs = (\<lambda>_. 0), i_atime = 0, i_mtime = 0\<rparr>"

definition inode_of :: "bytes \<Rightarrow> inode" where
  "inode_of din = load_dinode din 0 blank_inode"

definition disk_inode :: "mk_st \<Rightarrow> uint \<Rightarrow> inode" where
  "disk_inode s n = load_dinode (img s (IBLOCK n mk_sb)) (dip n) blank_inode"

lemma rd_shift: "rd32 (\<lambda>i. d (p + i)) k = rd32 d (p + k)" "rd16 (\<lambda>i. d (p + i)) k = rd16 d (p + k)"
  by (simp_all add: rd32_def rd16_def add.assoc)

lemma disk_inode_rinode: "disk_inode s n = inode_of (rinode n s)"
  unfolding disk_inode_def inode_of_def rinode_def rsect_def Let_def load_dinode_def
  by (simp add: rd_shift add.assoc)

lemma inode_of_simps [simp]: "i_size (inode_of din) = din_size din" "i_type (inode_of din) = rd16 din 0" "i_dev (inode_of din) = ROOTDEV"
  by (simp_all add: inode_of_def load_dinode_def blank_inode_def)

lemma upt_split_11: "k < 11 \<longleftrightarrow> k \<in> {0, 1, 2, 3, 4, 5, 6, 7, 8, 9, 10 :: nat}"
proof -
  have "k < 11 \<longleftrightarrow> k \<in> set [0..<11]" by simp
  then show ?thesis unfolding upt_11 by simp
qed

lemma inode_of_addrs: "i_addrs (inode_of din) k = (if k \<le> NDIRECT then din_addr din k else 0)"
proof -
  have "k \<le> NDIRECT \<longleftrightarrow> k < 11" by presburger
  then show ?thesis unfolding upt_split_11 by (auto simp: inode_of_def load_dinode_def blank_inode_def upt_11)
qed

lemma inode_of_cong: "(\<And>q. q < 72 \<Longrightarrow> d q = e q) \<Longrightarrow> inode_of d = inode_of e"
  unfolding inode_of_def by (rule load_dinode_cong) simp

lemma winode_same: "disk_inode (winode n din s) n = inode_of din"
  unfolding disk_inode_rinode by (rule inode_of_cong) (simp add: rinode_def winode_def rsect_def wsect_def bytes_put_def Let_def)

lemma winode_other: "b \<noteq> IBLOCK n mk_sb \<Longrightarrow> img (winode n din s) b = img s b"
  by (simp add: winode_def wsect_def rsect_def Let_def)

lemma winode_other_inode:
  assumes "m \<noteq> n"
  shows "disk_inode (winode n din s) m = disk_inode s m"
proof (cases "m div 7 = n div 7")
  case False
  then show ?thesis unfolding disk_inode_def by (subst winode_other) simp_all
next
  case True
  then have "unat m div 7 = unat n div 7" using unat_div_distrib [of m 7] unat_div_distrib [of n 7] by simp
  moreover have "unat m \<noteq> unat n" using assms by (simp add: word_unat_eq_iff)
  ultimately have "unat m mod 7 \<noteq> unat n mod 7" by (metis div_mult_mod_eq)
  then have "dip n + 72 \<le> dip m \<or> dip m + 72 \<le> dip n" unfolding dip_def by linarith
  then have "load_dinode (bytes_put d (dip n) din 72) (dip m) blank_inode = load_dinode d (dip m) blank_inode" for d
    by (intro load_dinode_cong) (auto simp: bytes_put_def)
  then show ?thesis using True by (simp add: disk_inode_def winode_def wsect_def rsect_def Let_def)
qed

lemma winode_simps [simp]: "freeinode (winode n din s) = freeinode s" "freeblock (winode n din s) = freeblock s"
  by (simp_all add: winode_def wsect_def Let_def)

lemma IBLOCK_low: "unat n < NINODES \<Longrightarrow> unat (IBLOCK n mk_sb) < 91 \<and> IBLOCK n mk_sb \<noteq> 1"
proof -
  assume n: "unat n < NINODES"
  have d: "unat (n div 7) = unat n div 7" by (simp add: unat_div_distrib)
  then have "unat (n div 7) < 29" using n by simp
  then have "unat (n div 7 + 62) = unat (n div 7) + 62" by (subst unat_plus_if') simp
  then have "unat (IBLOCK n mk_sb) < 91" "unat (IBLOCK n mk_sb) \<noteq> unat (1 :: uint)" using n by (auto simp: d)
  then show ?thesis by metis
qed

subsection \<open>Files that share no block\<close>

text \<open>A file all of whose blocks are data blocks below \<open>fb\<close> and different from each other, and one with a block for every byte below \<open>n\<close>.\<close>

definition file_wf :: "(uint \<Rightarrow> bytes) \<Rightarrow> inode \<Rightarrow> nat \<Rightarrow> bool" where
  "file_wf c i fb \<longleftrightarrow> (\<forall>b\<in>file_blocks c i. nmeta \<le> unat b \<and> unat b < fb)
     \<and> (\<forall>m<NDATA. \<forall>n<NDATA. amap c i m \<noteq> 0 \<and> amap c i m = amap c i n \<longrightarrow> m = n)
     \<and> (\<forall>n<NDATA. amap c i n \<noteq> 0 \<longrightarrow> amap c i n \<noteq> i_addrs i NDIRECT)"

definition file_full :: "(uint \<Rightarrow> bytes) \<Rightarrow> inode \<Rightarrow> nat \<Rightarrow> bool" where
  "file_full c i n \<longleftrightarrow> n \<le> NDATA * BSIZE \<and> (\<forall>k<NDATA. k * BSIZE < n \<longrightarrow> amap c i k \<noteq> 0)"

text \<open>A table of inodes: nothing is used from block \<open>fb\<close> on, and no two files of \<open>N\<close> share a block.\<close>

definition tab_inv :: "(uint \<Rightarrow> inode) \<Rightarrow> (uint \<Rightarrow> bytes) \<Rightarrow> uint set \<Rightarrow> nat \<Rightarrow> bool" where
  "tab_inv T c N fb \<longleftrightarrow> nmeta \<le> fb \<and> fb < 2 ^ 31 \<and> (\<forall>b. fb \<le> unat b \<longrightarrow> (\<forall>k<BSIZE. c b k = 0))
     \<and> (\<forall>n\<in>N. file_wf c (T n) fb) \<and> (\<forall>n\<in>N. \<forall>m\<in>N. n \<noteq> m \<longrightarrow> file_blocks c (T n) \<inter> file_blocks c (T m) = {})"

text \<open>What is in the blocks of the files stays.\<close>

definition keeps :: "uint set \<Rightarrow> (uint \<Rightarrow> inode) \<Rightarrow> (uint \<Rightarrow> bytes) \<Rightarrow> (uint \<Rightarrow> inode) \<Rightarrow> (uint \<Rightarrow> bytes) \<Rightarrow> bool" where
  "keeps N T c T' c' \<longleftrightarrow> (\<forall>n\<in>N. \<forall>k<NDATA. amap c (T n) k \<noteq> 0 \<longrightarrow>
     amap c' (T' n) k = amap c (T n) k \<and> c' (amap c (T n) k) = c (amap c (T n) k))"

lemma keeps_refl: "keeps N T c T c"
  by (simp add: keeps_def)

lemma keeps_trans: "keeps N T c T' c' \<Longrightarrow> keeps N T' c' T'' c'' \<Longrightarrow> keeps N T c T'' c''"
  unfolding keeps_def by (metis (no_types, lifting))

lemma keeps_byte: "keeps N T c T' c' \<Longrightarrow> n \<in> N \<Longrightarrow> p div BSIZE < NDATA \<Longrightarrow> amap c (T n) (p div BSIZE) \<noteq> 0 \<Longrightarrow> file_byte c' (T' n) p = file_byte c (T n) p"
  by (simp add: keeps_def file_byte_def)

lemma amap_block: "n < NDATA \<Longrightarrow> amap c i n \<noteq> 0 \<Longrightarrow> amap c i n \<in> file_blocks c i"
  by (auto simp: file_blocks_def)

lemma ind_block: "i_addrs i NDIRECT \<noteq> 0 \<Longrightarrow> i_addrs i NDIRECT \<in> file_blocks c i"
  by (simp add: file_blocks_def)

lemma file_wf_mono: "file_wf c i fb \<Longrightarrow> fb \<le> fb' \<Longrightarrow> file_wf c i fb'"
  by (fastforce simp: file_wf_def)

text \<open>A file gets the first free block; only a block of addresses of its own has changed.\<close>

lemma tab_grow:
  assumes inv: "tab_inv T c N fb" and n: "n \<in> N" and fb: "fb + 1 < 2 ^ 31" and c': "\<And>b. c' b = c b \<or> b = i_addrs (T n) NDIRECT \<and> b \<noteq> 0"
    and wf: "file_wf c' i' (fb + 1)" and bl: "file_blocks c' i' \<subseteq> insert (of_nat fb) (file_blocks c (T n))"
    and am: "\<And>k. k < NDATA \<Longrightarrow> amap c (T n) k \<noteq> 0 \<Longrightarrow> amap c' i' k = amap c (T n) k"
  shows "tab_inv (T(n := i')) c' N (fb + 1)" and "keeps N T c (T(n := i')) c'"
proof -
  have u: "unat (of_nat fb :: uint) = fb" using fb by (simp add: unat_of_nat)
  have wfT: "file_wf c (T m) fb" if "m \<in> N" for m using inv that by (simp add: tab_inv_def)
  have dj: "file_blocks c (T n) \<inter> file_blocks c (T m) = {}" if "m \<in> N" "m \<noteq> n" for m using inv that n by (auto simp: tab_inv_def)
  have own: "b \<in> file_blocks c (T n)" if "c' b \<noteq> c b" for b using c' [of b] that ind_block [of "T n" c] by auto
  have same: "amap c' (T m) = amap c (T m)" if m: "m \<in> N" "m \<noteq> n" for m
    by (rule amap_cong) (use own dj [OF m] ind_block [of "T m" c] in blast)
  then have blm: "file_blocks c' (T m) = file_blocks c (T m)" if "m \<in> N" "m \<noteq> n" for m using that by (simp add: file_blocks_def)
  have wfm: "file_wf c' (T m) (fb + 1)" if m: "m \<in> N" "m \<noteq> n" for m
    using file_wf_mono [OF wfT [OF m(1)] le_add1 [of fb 1]] unfolding file_wf_def blm [OF m] same [OF m] .
  have fresh: "of_nat fb \<notin> file_blocks c (T m)" if "m \<in> N" for m using wfT [OF that] u by (auto simp: file_wf_def)
  have "file_blocks c' i' \<inter> file_blocks c' (T m) = {}" if m: "m \<in> N" "m \<noteq> n" for m
    using bl dj [OF m] fresh [OF m(1)] unfolding blm [OF m] by blast
  moreover have "file_blocks c' (T l) \<inter> file_blocks c' (T m) = {}" if "l \<in> N" "m \<in> N" "l \<noteq> m" "l \<noteq> n" "m \<noteq> n" for l m
    using inv that by (simp add: blm tab_inv_def)
  moreover have "\<forall>k<BSIZE. c' b k = 0" if b: "fb + 1 \<le> unat b" for b
  proof -
    have "b \<notin> file_blocks c (T n)" using wfT [OF n] b by (auto simp: file_wf_def)
    then have "c' b = c b" using own by blast
    moreover have "\<forall>k<BSIZE. c b k = 0" using inv b by (simp add: tab_inv_def)
    ultimately show ?thesis by simp
  qed
  ultimately show "tab_inv (T(n := i')) c' N (fb + 1)"
    using inv fb wf wfm by (auto simp: tab_inv_def Int_commute)
  have "c' (amap c (T m) k) = c (amap c (T m) k)" if m: "m \<in> N" "k < NDATA" "amap c (T m) k \<noteq> 0" for m k
  proof (cases "m = n")
    case True
    then have "amap c (T m) k \<noteq> i_addrs (T n) NDIRECT" using wfT [OF n] m by (simp add: file_wf_def)
    then show ?thesis using c' [of "amap c (T m) k"] by simp
  next
    case False
    then show ?thesis using own dj [OF m(1)] amap_block [OF m(2,3)] by blast
  qed
  then show "keeps N T c (T(n := i')) c'" using am same by (auto simp: keeps_def)
qed

lemma set_din_addr_inode:
  assumes "k \<le> NDIRECT"
  shows "inode_of (set_din_addr din k a) = (inode_of din)\<lparr>i_addrs := (i_addrs (inode_of din))(k := a)\<rparr>"
proof -
  have r: "rd32 (set_din_addr din k a) q = rd32 din q" if "q + 4 \<le> 12 \<or> 56 \<le> q" for q
    by (rule rd32_wr32_other) (use that assms in auto)
  have r16: "rd16 (set_din_addr din k a) q = rd16 din q" if "q + 2 \<le> 12 \<or> 56 \<le> q" for q
    by (rule rd16_wr32_other) (use that assms in auto)
  have "i_addrs (inode_of (set_din_addr din k a)) = (i_addrs (inode_of din))(k := a)"
  proof
    fix m
    have "m \<noteq> k \<Longrightarrow> rd32 (set_din_addr din k a) (12 + 4 * m) = rd32 din (12 + 4 * m)" by (rule rd32_wr32_other) linarith
    then show "i_addrs (inode_of (set_din_addr din k a)) m = ((i_addrs (inode_of din))(k := a)) m" using assms by (auto simp: inode_of_addrs)
  qed
  then show ?thesis by (intro inode.equality) (simp_all add: inode_of_def load_dinode_def blank_inode_def r r16)
qed

text \<open>The three ways to give a file the free block \<open>fb\<close>: as a direct block, as its block of addresses, and as an entry of that.\<close>

lemma fresh_block:
  assumes "tab_inv T c N fb" and "n \<in> N"
  shows "(of_nat fb :: uint) \<noteq> 0" and "unat (of_nat fb :: uint) = fb" and "\<forall>k<BSIZE. c (of_nat fb) k = 0" and "of_nat fb \<notin> file_blocks c (T n)"
    and "file_wf c (T n) fb"
proof -
  show u: "unat (of_nat fb :: uint) = fb" using assms(1) by (simp add: tab_inv_def unat_of_nat)
  then show "(of_nat fb :: uint) \<noteq> 0" using assms(1) by (auto simp: tab_inv_def)
  show "\<forall>k<BSIZE. c (of_nat fb) k = 0" using assms(1) u by (simp add: tab_inv_def)
  show "file_wf c (T n) fb" using assms by (simp add: tab_inv_def)
  then show "of_nat fb \<notin> file_blocks c (T n)" using u by (auto simp: file_wf_def)
qed

lemma file_wf_new_entry:
  assumes wf: "file_wf c i fb" and am: "\<And>m. m < NDATA \<Longrightarrow> amap c' i' m = (if m = bn then a else amap c i m)" and i': "i_addrs i' NDIRECT = i_addrs i NDIRECT"
    and a: "a \<noteq> 0" "nmeta \<le> unat a" "unat a < fb'" "fb \<le> fb'" and fresh: "a \<notin> file_blocks c i"
  shows "file_wf c' i' fb'" and "file_blocks c' i' \<subseteq> insert a (file_blocks c i)"
proof -
  show bl: "file_blocks c' i' \<subseteq> insert a (file_blocks c i)" using am i' by (auto simp: file_blocks_def split: if_splits)
  have na: "amap c i m \<noteq> a" if "m < NDATA" for m using fresh amap_block [OF that, of c i] a(1) by auto
  have "a \<noteq> i_addrs i NDIRECT" using fresh a(1) ind_block [of i c] by auto
  moreover have "nmeta \<le> unat b \<and> unat b < fb'" if "b \<in> file_blocks c' i'" for b
    using bl that wf a by (fastforce simp: file_wf_def)
  moreover have "m = l" if "m < NDATA" "l < NDATA" "amap c' i' m \<noteq> 0" "amap c' i' m = amap c' i' l" for m l
    using that am na wf by (auto simp: file_wf_def split: if_splits)
  moreover have "amap c' i' m \<noteq> i_addrs i' NDIRECT" if "m < NDATA" "amap c' i' m \<noteq> 0" for m
    using that am calculation(1) wf by (auto simp: i' file_wf_def split: if_splits)
  ultimately show "file_wf c' i' fb'" unfolding file_wf_def by blast
qed

lemma new_direct:
  assumes inv: "tab_inv T c N fb" and n: "n \<in> N" and fb: "fb + 1 < 2 ^ 31" and k: "k < NDIRECT" "i_addrs (T n) k = 0" and i': "i' = (T n)\<lparr>i_addrs := (i_addrs (T n))(k := of_nat fb)\<rparr>"
  shows "tab_inv (T(n := i')) c N (fb + 1)" and "keeps N T c (T(n := i')) c" and "\<And>m. m < NDATA \<Longrightarrow> amap c i' m = (if m = k then of_nat fb else amap c (T n) m)"
proof -
  note f = fresh_block [OF inv n]
  have nf: "nmeta \<le> fb" using inv by (simp add: tab_inv_def)
  show am: "amap c i' m = (if m = k then of_nat fb else amap c (T n) m)" if "m < NDATA" for m using k(1) by (simp add: i' amap_def)
  have wf: "file_wf c i' (fb + 1)" "file_blocks c i' \<subseteq> insert (of_nat fb) (file_blocks c (T n))"
    by (rule file_wf_new_entry [where fb' = "fb + 1", OF f(5) am _ f(1) _ _ _ f(4)]; use f(2) nf k(1) in \<open>simp add: i'\<close>)+
  have z: "amap c (T n) k = 0" using k by (simp add: amap_def)
  show "tab_inv (T(n := i')) c N (fb + 1)" "keeps N T c (T(n := i')) c"
    by (rule tab_grow [OF inv n fb _ wf]; use am z in auto)+
qed

lemma new_indirect:
  assumes inv: "tab_inv T c N fb" and n: "n \<in> N" and fb: "fb + 1 < 2 ^ 31" and k: "i_addrs (T n) NDIRECT = 0" and i': "i' = (T n)\<lparr>i_addrs := (i_addrs (T n))(NDIRECT := of_nat fb)\<rparr>"
  shows "tab_inv (T(n := i')) c N (fb + 1)" and "keeps N T c (T(n := i')) c" and "\<And>m. m < NDATA \<Longrightarrow> amap c i' m = amap c (T n) m"
proof -
  note f = fresh_block [OF inv n]
  have nf: "nmeta \<le> fb" using inv by (simp add: tab_inv_def)
  have zero: "\<And>k. k < BSIZE \<Longrightarrow> c (of_nat fb) k = 0" using f(3) by blast
  show am: "amap c i' m = amap c (T n) m" if "m < NDATA" for m unfolding i' by (rule amap_new_ind [where c = c, OF k zero that])
  have bl: "file_blocks c i' = insert (of_nat fb) (file_blocks c (T n))" unfolding i' by (rule file_blocks_new_ind [where c = c, OF k zero f(1)])
  have "amap c (T n) m \<noteq> of_nat fb" if "m < NDATA" for m using f(1,4) amap_block [OF that, of c "T n"] by auto
  then have wf: "file_wf c i' (fb + 1)" using f(2,5) nf bl am by (auto simp: file_wf_def i')
  show "tab_inv (T(n := i')) c N (fb + 1)" "keeps N T c (T(n := i')) c"
    by (rule tab_grow [OF inv n fb _ wf]; use am bl in auto)+
qed

lemma new_entry:
  assumes inv: "tab_inv T c N fb" and n: "n \<in> N" and fb: "fb + 1 < 2 ^ 31" and b: "b = i_addrs (T n) NDIRECT" "b \<noteq> 0" and j: "j < NINDIRECT"
    and z: "rd32 (c b) (4 * j) = 0" and c': "c' = c(b := wr32 (c b) (4 * j) (of_nat fb))"
  shows "tab_inv T c' N (fb + 1)" and "keeps N T c T c'" and "\<And>m. m < NDATA \<Longrightarrow> amap c' (T n) m = (if m = NDIRECT + j then of_nat fb else amap c (T n) m)"
proof -
  note f = fresh_block [OF inv n]
  have nf: "nmeta \<le> fb" using inv by (simp add: tab_inv_def)
  show am: "amap c' (T n) m = (if m = NDIRECT + j then of_nat fb else amap c (T n) m)" if "m < NDATA" for m
  proof (cases "m < NDIRECT")
    case False
    then have "m \<noteq> NDIRECT + j \<Longrightarrow> rd32 (wr32 (c b) (4 * j) (of_nat fb)) (4 * (m - NDIRECT)) = rd32 (c b) (4 * (m - NDIRECT))"
      by (intro rd32_wr32_other) linarith
    then show ?thesis using False b by (auto simp: amap_def c')
  qed (simp add: amap_def)
  have wf: "file_wf c' (T n) (fb + 1)" "file_blocks c' (T n) \<subseteq> insert (of_nat fb) (file_blocks c (T n))"
    by (rule file_wf_new_entry [where fb' = "fb + 1", OF f(5) am _ f(1) _ _ _ f(4)]; use f(2) nf in simp)+
  have z': "amap c (T n) (NDIRECT + j) = 0" using b z by (simp add: amap_def)
  have cc: "c' b' = c b' \<or> b' = i_addrs (T n) NDIRECT \<and> b' \<noteq> 0" for b' using b by (auto simp: c')
  have aa: "amap c' (T n) k = amap c (T n) k" if "k < NDATA" "amap c (T n) k \<noteq> 0" for k using that am z' by auto
  have "tab_inv (T(n := T n)) c' N (fb + 1)" "keeps N T c (T(n := T n)) c'"
    by (rule tab_grow [OF inv n fb cc wf aa]; assumption?)+
  then show "tab_inv T c' N (fb + 1)" "keeps N T c T c'" by simp_all
qed

text \<open>What a step of \<^verbatim>\<open>iappend\<close> on the inode \<open>n\<close>, held in memory as \<open>din\<close>, leaves in order.\<close>

definition mk_step :: "(uint \<Rightarrow> inode) \<Rightarrow> uint set \<Rightarrow> uint \<Rightarrow> nat \<Rightarrow> bytes \<Rightarrow> mk_st \<Rightarrow> bytes \<Rightarrow> mk_st \<Rightarrow> bool" where
  "mk_step T N n k din s din' s' \<longleftrightarrow> tab_inv (T(n := inode_of din')) (img s') N (unat (freeblock s'))
     \<and> unat (freeblock s) \<le> unat (freeblock s') \<and> unat (freeblock s') \<le> unat (freeblock s) + k \<and> freeinode s' = freeinode s
     \<and> (\<forall>q. q < 12 \<or> 56 \<le> q \<longrightarrow> din' q = din q) \<and> (\<forall>b. unat b < nmeta \<longrightarrow> img s' b = img s b)"

lemma mk_step_refl: "tab_inv (T(n := inode_of din)) (img s) N (unat (freeblock s)) \<Longrightarrow> mk_step T N n k din s din s"
  by (simp add: mk_step_def)

lemma mk_step_trans: "mk_step T N n k din s din' s' \<Longrightarrow> mk_step T N n l din' s' din'' s'' \<Longrightarrow> mk_step T N n (k + l) din s din'' s''"
  unfolding mk_step_def by auto

lemma unat_next_block: "unat x + 1 < 2 ^ 31 \<Longrightarrow> unat (x + 1 :: uint) = unat x + 1"
  by (subst unat_plus_if') simp

lemma din_slot_ok:
  assumes inv: "tab_inv (T(n := inode_of din)) (img s) N (unat (freeblock s))" and n: "n \<in> N" and fb: "unat (freeblock s) + 1 < 2 ^ 31" and k: "k \<le> NDIRECT"
  obtains x din' s' where "din_slot k din s = (x, din', s')" and "x \<noteq> 0" and "mk_step T N n 1 din s din' s'"
    and "keeps N (T(n := inode_of din)) (img s) (T(n := inode_of din')) (img s')" and "i_addrs (inode_of din') k = x"
proof (cases "din_addr din k = 0")
  case False
  then show ?thesis using that [of "din_addr din k" din s] inv k by (simp add: din_slot_def mk_step_refl keeps_refl inode_of_addrs)
next
  case True
  let ?din = "set_din_addr din k (freeblock s)" and ?s = "s\<lparr>freeblock := freeblock s + 1\<rparr>" and ?i = "inode_of din"
  have i': "inode_of ?din = ?i\<lparr>i_addrs := (i_addrs ?i)(k := freeblock s)\<rparr>" by (rule set_din_addr_inode [OF k])
  have z: "i_addrs ?i k = 0" using True k by (simp add: inode_of_addrs)
  have t: "tab_inv (T(n := inode_of ?din)) (img s) N (unat (freeblock s) + 1)" "keeps N (T(n := ?i)) (img s) (T(n := inode_of ?din)) (img s)"
  proof -
    have "tab_inv ((T(n := ?i))(n := inode_of ?din)) (img s) N (unat (freeblock s) + 1) \<and> keeps N (T(n := ?i)) (img s) ((T(n := ?i))(n := inode_of ?din)) (img s)"
    proof (cases "k = NDIRECT")
      case True
      then show ?thesis using new_indirect [OF inv n fb] z i' by simp
    next
      case False
      then have "k < NDIRECT" using k by simp
      then show ?thesis using new_direct [OF inv n fb] z i' by simp
    qed
    then show "tab_inv (T(n := inode_of ?din)) (img s) N (unat (freeblock s) + 1)" "keeps N (T(n := ?i)) (img s) (T(n := inode_of ?din)) (img s)"
      by simp_all
  qed
  have nz: "freeblock s \<noteq> 0" using fresh_block(1) [OF inv n] by simp
  have "\<forall>q. q < 12 \<or> 56 \<le> q \<longrightarrow> ?din q = din q" using k by (auto intro!: wr32_other)
  then have "mk_step T N n 1 din s ?din ?s" using t(1) unat_next_block [OF fb] by (simp add: mk_step_def)
  then show ?thesis using that [of "freeblock s" ?din ?s] True t(2) nz k by (simp add: din_slot_def inode_of_addrs)
qed

lemma blk_slot_ok:
  assumes inv: "tab_inv (T(n := inode_of din)) (img s) N (unat (freeblock s))" and n: "n \<in> N" and fb: "unat (freeblock s) + 1 < 2 ^ 31"
    and b: "b = i_addrs (inode_of din) NDIRECT" "b \<noteq> 0" and j: "j < NINDIRECT"
  obtains x s' where "blk_slot b j s = (x, s')" and "x \<noteq> 0" and "mk_step T N n 1 din s din s'"
    and "keeps N (T(n := inode_of din)) (img s) (T(n := inode_of din)) (img s')" and "amap (img s') (inode_of din) (NDIRECT + j) = x"
proof (cases "rd32 (img s b) (4 * j) = 0")
  case False
  then show ?thesis using that [of "rd32 (img s b) (4 * j)" s] inv b by (simp add: blk_slot_def rsect_def mk_step_refl keeps_refl amap_def Let_def)
next
  case True
  let ?s = "wsect b (wr32 (img s b) (4 * j) (freeblock s)) (s\<lparr>freeblock := freeblock s + 1\<rparr>)"
  have b': "b = i_addrs ((T(n := inode_of din)) n) NDIRECT" using b(1) by simp
  have im: "img ?s = (img s)(b := wr32 (img s b) (4 * j) (of_nat (unat (freeblock s))))" by (simp add: wsect_def)
  have e: "tab_inv (T(n := inode_of din)) (img ?s) N (unat (freeblock s) + 1)" "keeps N (T(n := inode_of din)) (img s) (T(n := inode_of din)) (img ?s)"
    "amap (img ?s) ((T(n := inode_of din)) n) (NDIRECT + j) = (if NDIRECT + j = NDIRECT + j then of_nat (unat (freeblock s)) else amap (img s) ((T(n := inode_of din)) n) (NDIRECT + j))"
    by (rule new_entry [OF inv n fb b' b(2) j True im]; use j in simp)+
  have nz: "freeblock s \<noteq> 0" using fresh_block(1) [OF inv n] by simp
  have "nmeta \<le> unat b" using fresh_block(5) [OF inv n] ind_block [of "inode_of din" "img s"] b by (auto simp: file_wf_def)
  then have "\<forall>b'. unat b' < nmeta \<longrightarrow> img ?s b' = img s b'" by (auto simp: wsect_def)
  moreover have "tab_inv (T(n := inode_of din)) (img ?s) N (unat (freeblock ?s))" using e(1) unat_next_block [OF fb] by (simp add: wsect_def)
  ultimately have "mk_step T N n 1 din s din ?s" using unat_next_block [OF fb] by (simp add: mk_step_def wsect_def)
  moreover have "amap (img ?s) (inode_of din) (NDIRECT + j) = freeblock s" using e(3) by simp
  ultimately show ?thesis using that [of "freeblock s" ?s] True e(2) nz by (simp add: blk_slot_def rsect_def Let_def)
qed

lemma iappend_map_ok:
  assumes inv: "tab_inv (T(n := inode_of din)) (img s) N (unat (freeblock s))" and n: "n \<in> N" and fb: "unat (freeblock s) + 2 < 2 ^ 31" and k: "fbn < NDATA"
  obtains x din' s' where "iappend_map fbn din s = (x, din', s')" and "x \<noteq> 0" and "mk_step T N n 2 din s din' s'"
    and "keeps N (T(n := inode_of din)) (img s) (T(n := inode_of din')) (img s')" and "amap (img s') (inode_of din') fbn = x"
proof (cases "fbn < NDIRECT")
  case True
  have fb1: "unat (freeblock s) + 1 < 2 ^ 31" using fb by simp
  show ?thesis
  proof (rule din_slot_ok [OF inv n fb1, of fbn])
    fix x din' s'
    assume "din_slot fbn din s = (x, din', s')" "x \<noteq> 0" "mk_step T N n 1 din s din' s'"
      "keeps N (T(n := inode_of din)) (img s) (T(n := inode_of din')) (img s')" "i_addrs (inode_of din') fbn = x"
    then show thesis using that [of x din' s'] True by (simp add: iappend_map_def mk_step_def amap_def)
  qed (use True in simp)
next
  case False
  have fb1: "unat (freeblock s) + 1 < 2 ^ 31" using fb by simp
  show ?thesis
  proof (rule din_slot_ok [OF inv n fb1, of NDIRECT])
    fix a din' s'
    assume d: "din_slot NDIRECT din s = (a, din', s')" "a \<noteq> 0" "mk_step T N n 1 din s din' s'"
      "keeps N (T(n := inode_of din)) (img s) (T(n := inode_of din')) (img s')" "i_addrs (inode_of din') NDIRECT = a"
    have i: "tab_inv (T(n := inode_of din')) (img s') N (unat (freeblock s'))" "unat (freeblock s') + 1 < 2 ^ 31"
      using d(3) fb by (auto simp: mk_step_def)
    show thesis
    proof (rule blk_slot_ok [OF i(1) n i(2) d(5) [symmetric] d(2), of "fbn - NDIRECT"])
      fix x s''
      assume "blk_slot a (fbn - NDIRECT) s' = (x, s'')" "x \<noteq> 0" "mk_step T N n 1 din' s' din' s''"
        "keeps N (T(n := inode_of din')) (img s') (T(n := inode_of din')) (img s'')" "amap (img s'') (inode_of din') (NDIRECT + (fbn - NDIRECT)) = x"
      then show thesis using that [of x din' s''] False k d(1) mk_step_trans [OF d(3)] keeps_trans [OF d(4)]
        by (simp add: iappend_map_def numeral_2_eq_2)
    qed (use False k in simp)
  qed simp
qed

text \<open>Writing a data block of a file changes the bytes of that block only.\<close>

lemma write_block:
  assumes inv: "tab_inv T c N fb" and n: "n \<in> N" and k: "fbn < NDATA" "amap c (T n) fbn \<noteq> 0" and c': "c' = c(amap c (T n) fbn := d)"
  shows "\<And>m. m \<in> N \<Longrightarrow> amap c' (T m) = amap c (T m)" and "tab_inv T c' N fb"
    and "\<And>m k. m \<in> N \<Longrightarrow> k < NDATA \<Longrightarrow> amap c (T m) k \<noteq> 0 \<Longrightarrow> m \<noteq> n \<or> k \<noteq> fbn \<Longrightarrow> c' (amap c (T m) k) = c (amap c (T m) k)"
proof -
  let ?x = "amap c (T n) fbn"
  have xb: "?x \<in> file_blocks c (T n)" by (rule amap_block [OF k])
  have wf: "file_wf c (T m) fb" if "m \<in> N" for m using inv that by (simp add: tab_inv_def)
  have dj: "?x \<notin> file_blocks c (T m)" if "m \<in> N" "m \<noteq> n" for m using inv that n xb unfolding tab_inv_def by blast
  have "i_addrs (T m) NDIRECT \<noteq> ?x" if "m \<in> N" "i_addrs (T m) NDIRECT \<noteq> 0" for m
    using dj [OF that(1)] ind_block [OF that(2)] wf [OF n] k by (cases "m = n") (auto simp: file_wf_def)
  then show am: "amap c' (T m) = amap c (T m)" if "m \<in> N" for m by (intro amap_cong) (use that in \<open>auto simp: c'\<close>)
  then have bl: "file_blocks c' (T m) = file_blocks c (T m)" if "m \<in> N" for m using that by (simp add: file_blocks_def)
  have low: "unat ?x < fb" using wf [OF n] xb by (auto simp: file_wf_def)
  have "file_wf c' (T m) fb" if "m \<in> N" for m using wf [OF that] unfolding file_wf_def bl [OF that] am [OF that] .
  moreover have "\<forall>b. fb \<le> unat b \<longrightarrow> (\<forall>k<BSIZE. c' b k = 0)" using inv low by (auto simp: tab_inv_def c')
  ultimately show "tab_inv T c' N fb" using inv bl by (simp add: tab_inv_def)
  show "c' (amap c (T m) k) = c (amap c (T m) k)" if m: "m \<in> N" "k < NDATA" "amap c (T m) k \<noteq> 0" "m \<noteq> n \<or> k \<noteq> fbn" for m k
  proof -
    have "amap c (T m) k \<noteq> ?x"
    proof (cases "m = n")
      case True
      then show ?thesis using wf [OF n] m k by (auto simp: file_wf_def)
    next
      case False
      then show ?thesis using dj [OF m(1)] amap_block [OF m(2,3)] by auto
    qed
    then show ?thesis by (simp add: c')
  qed
qed

lemma bytes_put_at: "q < n \<Longrightarrow> bytes_put d p src n (p + q) = src q"
  by (simp add: bytes_put_def)

text \<open>One round of the loop: the bytes that go into block \<open>fbn\<close>.\<close>

definition appended :: "uint set \<Rightarrow> (uint \<Rightarrow> inode) \<Rightarrow> uint \<Rightarrow> nat \<Rightarrow> uchar list \<Rightarrow> bytes \<Rightarrow> mk_st \<Rightarrow> bytes \<Rightarrow> mk_st \<Rightarrow> bool" where
  "appended N T n off p din s din' s' \<longleftrightarrow> mk_step T N n (2 * chunks off (length p)) din s din' s'
     \<and> file_full (img s') (inode_of din') (off + length p) \<and> keeps (N - {n}) T (img s) T (img s')
     \<and> (\<forall>q<off. file_byte (img s') (inode_of din') q = file_byte (img s) (inode_of din) q)
     \<and> (\<forall>q<length p. file_byte (img s') (inode_of din') (off + q) = p ! q)"

lemma append_round:
  assumes inv: "tab_inv (T(n := inode_of din)) (img s) N (unat (freeblock s))" and n: "n \<in> N" and fb: "unat (freeblock s) + 2 < 2 ^ 31"
    and full: "file_full (img s) (inode_of din) off" and p: "p \<noteq> []" "off + length p \<le> NDATA * BSIZE"
    and n1: "n1 = min (length p) ((off div BSIZE + 1) * BSIZE - off)"
  obtains x din1 s1 where "iappend_map (off div BSIZE) din s = (x, din1, s1)"
    and "appended N T n off (take n1 p) din s din1 (wsect x (bytes_put (rsect x s1) (off - off div BSIZE * BSIZE) (\<lambda>i. p ! i) n1) s1)"
proof -
  let ?f = "off div BSIZE"
  have off: "?f * BSIZE \<le> off" "off < (?f + 1) * BSIZE" by (simp_all add: dividend_less_div_times div_times_less_eq_dividend)
  have f: "?f < NDATA" using off(1) p by (cases p) (auto simp: less_eq_div_iff_mult_less_eq)
  have n1p: "0 < n1" "n1 \<le> length p" "off + n1 \<le> (?f + 1) * BSIZE" using n1 p off by auto
  show thesis
  proof (rule iappend_map_ok [OF inv n fb f])
    fix x din1 s1
    assume m: "iappend_map ?f din s = (x, din1, s1)" "x \<noteq> 0" "mk_step T N n 2 din s din1 s1"
      "keeps N (T(n := inode_of din)) (img s) (T(n := inode_of din1)) (img s1)" "amap (img s1) (inode_of din1) ?f = x"
    let ?T = "T(n := inode_of din1)"
    let ?c = "(img s1)(x := bytes_put (img s1 x) (off - ?f * BSIZE) (\<lambda>i. p ! i) n1)"
    let ?s = "wsect x (bytes_put (rsect x s1) (off - ?f * BSIZE) (\<lambda>i. p ! i) n1) s1"
    have inv1: "tab_inv ?T (img s1) N (unat (freeblock s1))" using m(3) by (simp add: mk_step_def)
    have x: "amap (img s1) (?T n) ?f \<noteq> 0" "x = amap (img s1) (?T n) ?f" using m(2,5) by simp_all
    have c: "?c = (img s1)(amap (img s1) (?T n) ?f := bytes_put (img s1 x) (off - ?f * BSIZE) (\<lambda>i. p ! i) n1)" using x(2) by simp
    have W: "\<And>l. l \<in> N \<Longrightarrow> amap ?c (?T l) = amap (img s1) (?T l)" "tab_inv ?T ?c N (unat (freeblock s1))"
      "\<And>l k. l \<in> N \<Longrightarrow> k < NDATA \<Longrightarrow> amap (img s1) (?T l) k \<noteq> 0 \<Longrightarrow> l \<noteq> n \<or> k \<noteq> ?f \<Longrightarrow> ?c (amap (img s1) (?T l) k) = img s1 (amap (img s1) (?T l) k)"
      by (fact write_block [OF inv1 n f x(1) c])+
    have K: "amap (img s1) (?T l) k = amap (img s) ((T(n := inode_of din)) l) k \<and> img s1 (amap (img s) ((T(n := inode_of din)) l) k) = img s (amap (img s) ((T(n := inode_of din)) l) k)"
      if "l \<in> N" "k < NDATA" "amap (img s) ((T(n := inode_of din)) l) k \<noteq> 0" for l k using m(4) that by (simp add: keeps_def)
    have low: "nmeta \<le> unat x" using W(2) amap_block [OF f, of "img s1" "?T n"] x n inv1 by (auto simp: tab_inv_def file_wf_def)
    have s: "img ?s = ?c" "freeblock ?s = freeblock s1" "freeinode ?s = freeinode s1" by (simp_all add: wsect_def rsect_def)
    have "chunks off n1 = 1"
    proof -
      have "n1 = min n1 (BSIZE - off mod BSIZE)" using n1p(3) off by (simp add: minus_div_mult_eq_mod [symmetric])
      then show ?thesis using chunks_step [OF n1p(1)] by (simp add: chunks_def)
    qed
    then have st: "mk_step T N n (2 * chunks off (length (take n1 p))) din s din1 ?s"
      using m(3) W(2) low n1p(2) unfolding mk_step_def s by (auto simp: min_def)
    have am: "amap ?c (inode_of din1) = amap (img s1) (inode_of din1)" using W(1) [OF n] by simp
    have full1: "amap (img s1) (inode_of din1) k \<noteq> 0" if "k < NDATA" "k * BSIZE < off + n1" for k
    proof (cases "k = ?f")
      case False
      then have "k < ?f" using that(2) n1p(3) by (metis linorder_neqE_nat mult_le_mono1 not_less order_less_le_trans Suc_eq_plus1 Suc_leI)
      then have "k * BSIZE < off" using off(1) by (metis mult_less_mono1 order_less_le_trans zero_less_numeral)
      then show ?thesis using K [OF n that(1)] full that(1) by (simp add: file_full_def)
    qed (use m(2,5) in simp)
    have old: "file_byte ?c (inode_of din1) q = file_byte (img s) (inode_of din) q" if q: "q < off" for q
    proof -
      have k: "q div BSIZE \<le> ?f" using q by (simp add: div_le_mono)
      have "q div BSIZE * BSIZE < off" using q by (metis div_times_less_eq_dividend order_le_less_trans)
      then have a: "amap (img s) (inode_of din) (q div BSIZE) \<noteq> 0" "q div BSIZE < NDATA" using full k f by (auto simp: file_full_def)
      note K' = K [OF n a(2)]
      show ?thesis
      proof (cases "q div BSIZE = ?f")
        case True
        then have "q mod BSIZE < off - ?f * BSIZE" using q by (metis add_less_imp_less_left div_mult_mod_eq le_add_diff_inverse off(1))
        then show ?thesis using K' a True m(5) unfolding file_byte_def am by (simp add: bytes_put_def)
      next
        case False
        then show ?thesis using K' a W(3) [OF n a(2)] unfolding file_byte_def am by simp
      qed
    qed
    have new: "file_byte ?c (inode_of din1) (off + q) = p ! q" if q: "q < n1" for q
    proof -
      have d: "(off + q) div BSIZE = ?f" using n1p(3) q off(1) by (intro div_nat_eqI) auto
      then have "(off + q) mod BSIZE = off + q - ?f * BSIZE" by (metis minus_div_mult_eq_mod)
      then have e: "(off + q) mod BSIZE = off - ?f * BSIZE + q" using off(1) by simp
      show ?thesis unfolding file_byte_def am d e m(5) fun_upd_same by (rule bytes_put_at [OF q])
    qed
    have "keeps (N - {n}) T (img s) T ?c" unfolding keeps_def
    proof (intro ballI allI impI)
      fix l k
      assume l: "l \<in> N - {n}" "k < NDATA" "amap (img s) (T l) k \<noteq> 0"
      then show "amap ?c (T l) k = amap (img s) (T l) k \<and> ?c (amap (img s) (T l) k) = img s (amap (img s) (T l) k)"
        using K [of l k] W(1) [of l] W(3) [of l k] by simp
    qed
    moreover have "file_full ?c (inode_of din1) (off + length (take n1 p))" using full1 p(2) n1p(2) am by (simp add: file_full_def)
    ultimately have "appended N T n off (take n1 p) din s din1 ?s" using st old new n1p(2) unfolding appended_def s by simp
    then show thesis using that m(1) by blast
  qed
qed

lemma appended_trans:
  assumes a: "appended N T n off (take k p) din s din1 s1" and b: "appended N T n (off + k) (drop k p) din1 s1 din2 s2"
    and k: "k \<le> length p" and ch: "chunks off (length p) = Suc (chunks (off + k) (length p - k))" "chunks off k = 1"
  shows "appended N T n off p din s din2 s2"
proof -
  have l: "length (take k p) = k" using k by simp
  have "mk_step T N n 2 din s din1 s1" "mk_step T N n (2 * chunks (off + k) (length p - k)) din1 s1 din2 s2"
    using a b ch(2) unfolding appended_def l by simp_all
  from mk_step_trans [OF this] have "mk_step T N n (2 * chunks off (length p)) din s din2 s2" by (simp add: ch(1))
  moreover have "keeps (N - {n}) T (img s) T (img s2)" using a b keeps_trans by (auto simp: appended_def)
  moreover have "file_byte (img s2) (inode_of din2) q = file_byte (img s) (inode_of din) q" if "q < off" for q
    using a b that by (simp add: appended_def)
  moreover have "file_byte (img s2) (inode_of din2) (off + q) = p ! q" if q: "q < length p" for q
  proof (cases "q < k")
    case True
    then show ?thesis using a b k by (simp add: appended_def)
  next
    case False
    have "\<forall>r<length (drop k p). file_byte (img s2) (inode_of din2) (off + k + r) = drop k p ! r" using b unfolding appended_def by blast
    moreover have "q - k < length (drop k p)" "off + k + (q - k) = off + q" "drop k p ! (q - k) = p ! q" using False k q by auto
    ultimately show ?thesis by metis
  qed
  ultimately show ?thesis using b k by (simp add: appended_def)
qed

lemma iappend_loop_ok:
  assumes "tab_inv (T(n := inode_of din)) (img s) N (unat (freeblock s))" and n: "n \<in> N" and "unat (freeblock s) + 2 * chunks off (length p) < 2 ^ 31"
    and "file_full (img s) (inode_of din) off" and "off + length p \<le> NDATA * BSIZE"
  shows "\<exists>din' s'. iappend_loop off p din s = Inr (off + length p, din', s') \<and> appended N T n off p din s din' s'"
  using assms(1,3-5)
proof (induction "length p" arbitrary: off p din s rule: less_induct)
  case less
  show ?case
  proof (cases "p = []")
    case True
    then show ?thesis using less.prems mk_step_refl [OF less.prems(1)] keeps_refl
      by (intro exI [of _ din] exI [of _ s]) (simp add: iappend_loop.simps [of off "[]"] appended_def)
  next
    case False
    define k where "k = min (length p) ((off div BSIZE + 1) * BSIZE - off)"
    have off: "off div BSIZE * BSIZE \<le> off" "off < (off div BSIZE + 1) * BSIZE" by (simp_all add: dividend_less_div_times div_times_less_eq_dividend)
    have k: "0 < k" "k \<le> length p" using False off by (auto simp: k_def)
    have km: "k = min (length p) (BSIZE - off mod BSIZE)" using off by (simp add: k_def minus_div_mult_eq_mod [symmetric])
    have ch: "chunks off (length p) = Suc (chunks (off + k) (length p - k))" using chunks_step [OF _ km] False by simp
    have "k = min k (BSIZE - off mod BSIZE)" using km by simp
    then have ck: "chunks off k = 1" using chunks_step [OF k(1), of k off] by (simp add: chunks_def)
    have fb: "unat (freeblock s) + 2 < 2 ^ 31" using less.prems(2) ch by simp
    have f: "\<not> off div BSIZE \<ge> MAXFILE" using less.prems(4) off by simp
    obtain x din1 s1 where m: "iappend_map (off div BSIZE) din s = (x, din1, s1)"
      "appended N T n off (take k p) din s din1 (wsect x (bytes_put (rsect x s1) (off - off div BSIZE * BSIZE) (\<lambda>i. p ! i) k) s1)"
      by (rule append_round [OF less.prems(1) n fb less.prems(3) False less.prems(4) k_def])
    let ?s = "wsect x (bytes_put (rsect x s1) (off - off div BSIZE * BSIZE) (\<lambda>i. p ! i) k) s1"
    have step: "iappend_loop off p din s = iappend_loop (off + k) (drop k p) din1 ?s"
      using False f m(1) by (subst iappend_loop.simps) (simp add: k_def Let_def)
    have l: "length (take k p) = k" using k by simp
    have st: "tab_inv (T(n := inode_of din1)) (img ?s) N (unat (freeblock ?s))" "unat (freeblock ?s) \<le> unat (freeblock s) + 2"
      "file_full (img ?s) (inode_of din1) (off + k)"
      using m(2) ck unfolding appended_def mk_step_def l by auto
    have r: "unat (freeblock ?s) + 2 * chunks (off + k) (length (drop k p)) < 2 ^ 31" using st(2) less.prems(2) ch by simp
    have q: "length (drop k p) < length p" "off + k + length (drop k p) \<le> NDATA * BSIZE" using k False less.prems(4) by auto
    obtain din2 s2 where d: "iappend_loop (off + k) (drop k p) din1 ?s = Inr (off + k + length (drop k p), din2, s2)"
      "appended N T n (off + k) (drop k p) din1 ?s din2 s2" using less.hyps [OF q(1) st(1) r st(3) q(2)] by blast
    have "off + k + length (drop k p) = off + length p" using k by simp
    then show ?thesis using step d appended_trans [OF m(2) d(2) k(2) ch ck] by metis
  qed
qed

subsection \<open>The invariant of the image\<close>

definition inodes :: "mk_st \<Rightarrow> uint set" where
  "inodes s = {n. 1 \<le> unat n \<and> unat n < unat (freeinode s)}"

definition img_inv :: "mk_st \<Rightarrow> bool" where
  "img_inv s \<longleftrightarrow> 1 \<le> unat (freeinode s) \<and> unat (freeinode s) \<le> NINODES
     \<and> tab_inv (disk_inode s) (img s) (inodes s) (unat (freeblock s))
     \<and> (\<forall>n\<in>inodes s. file_full (img s) (disk_inode s n) (unat (i_size (disk_inode s n))))"

text \<open>The bytes of a file, as the kernel reads them.\<close>

definition image_file :: "mk_st \<Rightarrow> uint \<Rightarrow> uchar list" where
  "image_file s n = map (file_byte (img s) (disk_inode s n)) [0..<unat (i_size (disk_inode s n))]"

lemma amap_low: "file_wf c i fb \<Longrightarrow> (\<And>b. nmeta \<le> unat b \<Longrightarrow> c' b = c b) \<Longrightarrow> amap c' i = amap c i"
  by (rule amap_cong) (use ind_block [of i c] in \<open>auto simp: file_wf_def\<close>)

text \<open>A change of the blocks of inodes leaves what the inodes say of their blocks.\<close>

lemma tab_inv_low:
  assumes inv: "tab_inv T c N fb" and c': "\<And>b. nmeta \<le> unat b \<Longrightarrow> c' b = c b"
  shows "tab_inv T c' N fb" and "\<And>n. n \<in> N \<Longrightarrow> amap c' (T n) = amap c (T n)"
proof -
  show am: "amap c' (T n) = amap c (T n)" if "n \<in> N" for n
    by (rule amap_low [of _ _ fb]) (use inv that c' in \<open>auto simp: tab_inv_def\<close>)
  then have bl: "file_blocks c' (T n) = file_blocks c (T n)" if "n \<in> N" for n using that by (simp add: file_blocks_def)
  have "file_wf c' (T n) fb" if "n \<in> N" for n
    using inv that unfolding tab_inv_def file_wf_def bl [OF that] am [OF that] by blast
  then show "tab_inv T c' N fb" using inv c' bl by (auto simp: tab_inv_def)
qed

lemma file_byte_low:
  assumes "tab_inv T c N fb" and "\<And>b. nmeta \<le> unat b \<Longrightarrow> c' b = c b" and "n \<in> N" and "p div BSIZE < NDATA" and "amap c (T n) (p div BSIZE) \<noteq> 0"
  shows "file_byte c' (T n) p = file_byte c (T n) p"
proof -
  have "nmeta \<le> unat (amap c (T n) (p div BSIZE))" using assms(1,3) amap_block [OF assms(4,5)] by (auto simp: tab_inv_def file_wf_def)
  then show ?thesis using tab_inv_low(2) [OF assms(1,2,3)] assms(2) by (simp add: file_byte_def)
qed

lemma set_size_inode: "inode_of (wr32 din 8 v) = (inode_of din)\<lparr>i_size := v\<rparr>"
proof -
  have "rd32 (wr32 din 8 v) q = rd32 din q" if "q + 4 \<le> 8 \<or> 12 \<le> q" for q by (rule rd32_wr32_other) (use that in auto)
  moreover have "rd16 (wr32 din 8 v) q = rd16 din q" if "q + 2 \<le> 8 \<or> 12 \<le> q" for q by (rule rd16_wr32_other) (use that in auto)
  ultimately show ?thesis by (intro inode.equality) (simp_all add: inode_of_def load_dinode_def blank_inode_def upt_11)
qed

lemma amap_addrs: "i_addrs i = i_addrs j \<Longrightarrow> amap c i = amap c j"
  by (rule ext) (simp add: amap_def)

lemma tab_inv_addrs:
  assumes "tab_inv T c N fb" and "\<And>n. n \<in> N \<Longrightarrow> i_addrs (T' n) = i_addrs (T n)"
  shows "tab_inv T' c N fb"
proof -
  have am: "amap c (T' n) = amap c (T n)" if "n \<in> N" for n using assms(2) [OF that] by (rule amap_addrs)
  then have bl: "file_blocks c (T' n) = file_blocks c (T n)" if "n \<in> N" for n using that assms(2) by (simp add: file_blocks_def)
  have "file_wf c (T' n) fb" if "n \<in> N" for n
    using assms(1) that unfolding tab_inv_def file_wf_def bl [OF that] am [OF that] assms(2) [OF that] by blast
  then show ?thesis using assms(1) bl by (auto simp: tab_inv_def)
qed

lemma disk_inode_cong: "img s' (IBLOCK n mk_sb) = img s (IBLOCK n mk_sb) \<Longrightarrow> disk_inode s' n = disk_inode s n"
  by (simp add: disk_inode_def)

text \<open>The blocks outside of the inodes and the files: the super block, the log and the free map.\<close>

definition meta_block :: "uint \<Rightarrow> bool" where
  "meta_block b \<longleftrightarrow> unat b < 62 \<or> 91 \<le> unat b \<and> unat b < nmeta"

lemma IBLOCK_inode: "unat n < NINODES \<Longrightarrow> \<not> meta_block (IBLOCK n mk_sb) \<and> unat (IBLOCK n mk_sb) < nmeta"
proof -
  assume n: "unat n < NINODES"
  then have "unat (n div 7) < 29" by (simp add: unat_div_distrib)
  then have "unat (n div 7 + 62) = unat (n div 7) + 62" by (subst unat_plus_if') simp
  then show ?thesis using \<open>unat (n div 7) < 29\<close> by (simp add: meta_block_def)
qed

text \<open>A file has grown by \<open>p\<close>: everything else is as it was.\<close>

definition grown :: "uint \<Rightarrow> uchar list \<Rightarrow> nat \<Rightarrow> mk_st \<Rightarrow> mk_st \<Rightarrow> bool" where
  "grown n p k s s' \<longleftrightarrow> img_inv s' \<and> image_file s' n = image_file s n @ p \<and> (\<forall>m\<in>inodes s. m \<noteq> n \<longrightarrow> image_file s' m = image_file s m)
     \<and> freeinode s' = freeinode s \<and> (\<forall>m\<in>inodes s. i_type (disk_inode s' m) = i_type (disk_inode s m))
     \<and> unat (freeblock s) \<le> unat (freeblock s') \<and> unat (freeblock s') \<le> unat (freeblock s) + k
     \<and> (\<forall>b. meta_block b \<longrightarrow> img s' b = img s b)"

text \<open>A file whose blocks are kept reads the same, also after a change of the blocks of inodes.\<close>

lemma kept_file:
  assumes k: "keeps N T c T c1" and m: "m \<in> N" "m \<in> N1" and full: "file_full c (T m) n" and t1: "tab_inv T1 c1 N1 fb" and T1: "T1 m = T m"
    and high: "\<And>b. nmeta \<le> unat b \<Longrightarrow> c' b = c1 b"
  shows "file_full c' (T m) n" and "map (file_byte c' (T m)) [0..<n] = map (file_byte c (T m)) [0..<n]"
proof -
  have K: "amap c1 (T m) j = amap c (T m) j" "amap c (T m) j \<noteq> 0" "c1 (amap c (T m) j) = c (amap c (T m) j)"
    if "j < NDATA" "j * BSIZE < n" for j using k m full that by (auto simp: keeps_def file_full_def)
  have am: "amap c' (T m) = amap c1 (T m)" using tab_inv_low(2) [OF t1 high m(2)] T1 by simp
  show "file_full c' (T m) n" using full K am by (simp add: file_full_def)
  have "file_byte c' (T m) q = file_byte c (T m) q" if q: "q < n" for q
  proof -
    have "q div BSIZE * BSIZE < n" using q div_times_less_eq_dividend [of q BSIZE] by linarith
    moreover then have "q div BSIZE < NDATA" using full by (auto simp: file_full_def)
    ultimately show ?thesis using K file_byte_low [OF t1 high m(2), of q] T1 by (simp add: file_byte_def)
  qed
  then show "map (file_byte c' (T m)) [0..<n] = map (file_byte c (T m)) [0..<n]" by simp
qed

lemma appended_bytes:
  assumes "appended N T n off p din s din' s'"
  shows "map (file_byte (img s') (inode_of din')) [0..<off + length p] = map (file_byte (img s) (inode_of din)) [0..<off] @ p"
proof (rule nth_equalityI)
  fix q
  assume "q < length (map (file_byte (img s') (inode_of din')) [0..<off + length p])"
  then have q: "q < off + length p" by simp
  show "map (file_byte (img s') (inode_of din')) [0..<off + length p] ! q = (map (file_byte (img s) (inode_of din)) [0..<off] @ p) ! q"
  proof (cases "q < off")
    case True
    then show ?thesis using assms q by (simp add: appended_def nth_append)
  next
    case False
    have "\<forall>r<length p. file_byte (img s') (inode_of din') (off + r) = p ! r" using assms unfolding appended_def by blast
    moreover have "q - off < length p" "off + (q - off) = q" using False q by auto
    ultimately have "file_byte (img s') (inode_of din') q = p ! (q - off)" by metis
    then show ?thesis using False q by (simp add: nth_append)
  qed
qed simp

lemma iappend_ok:
  assumes inv: "img_inv s" and n: "n \<in> inodes s" and len: "length (image_file s n) + length p \<le> NDATA * BSIZE"
    and fb: "unat (freeblock s) + 2 * chunks (length (image_file s n)) (length p) < 2 ^ 31"
  obtains s' where "iappend n p s = Inr s'" and "grown n p (2 * chunks (length (image_file s n)) (length p)) s s'"
proof -
  let ?N = "inodes s" and ?T = "disk_inode s" and ?din = "rinode n s"
  define off where "off = length (image_file s n)"
  have i: "inode_of ?din = ?T n" by (simp add: disk_inode_rinode)
  have off: "unat (din_size ?din) = off" by (simp add: off_def image_file_def disk_inode_rinode)
  have I: "tab_inv ?T (img s) ?N (unat (freeblock s))" "\<And>m. m \<in> ?N \<Longrightarrow> file_full (img s) (?T m) (unat (i_size (?T m)))" "unat (freeinode s) \<le> NINODES"
    using inv by (auto simp: img_inv_def)
  have low: "unat m < NINODES" if "m \<in> ?N" for m using that I(3) by (auto simp: inodes_def)
  have "?T(n := inode_of ?din) = ?T" by (simp add: i fun_upd_idem)
  then have "tab_inv (?T(n := inode_of ?din)) (img s) ?N (unat (freeblock s))" "file_full (img s) (inode_of ?din) off"
    using I(1) I(2) [OF n] off by (simp_all add: disk_inode_rinode)
  then obtain din s1 where L: "iappend_loop off p ?din s = Inr (off + length p, din, s1)" "appended ?N ?T n off p ?din s din s1"
    using iappend_loop_ok [of ?T n ?din s ?N off p] n len fb off_def by auto
  define v :: uint where "v = of_nat (off + length p)"
  let ?din' = "wr32 din 8 v"
  let ?s = "winode n ?din' s1"
  have r: "iappend n p s = Inr ?s" using L(1) off by (simp add: iappend_def v_def)
  have u: "unat v = off + length p" unfolding v_def unat_of_nat by (rule mod_less) (use len off_def in simp)
  have A: "tab_inv (?T(n := inode_of din)) (img s1) ?N (unat (freeblock s1))" "freeinode s1 = freeinode s" "\<forall>q. q < 12 \<or> 56 \<le> q \<longrightarrow> din q = ?din q"
    "\<forall>b. unat b < nmeta \<longrightarrow> img s1 b = img s b" "unat (freeblock s) \<le> unat (freeblock s1)" "unat (freeblock s1) \<le> unat (freeblock s) + 2 * chunks off (length p)"
    "file_full (img s1) (inode_of din) (off + length p)" "keeps (?N - {n}) ?T (img s) ?T (img s1)"
    using L(2) unfolding appended_def mk_step_def i by blast+
  have same: "disk_inode ?s n = (inode_of din)\<lparr>i_size := v\<rparr>" by (simp add: winode_same set_size_inode)
  have other: "disk_inode ?s m = ?T m" if "m \<in> ?N" "m \<noteq> n" for m
  proof -
    have "disk_inode ?s m = disk_inode s1 m" by (rule winode_other_inode [OF that(2)])
    also have "\<dots> = ?T m" by (rule disk_inode_cong) (use A(4) IBLOCK_inode [OF low [OF that(1)]] in blast)
    finally show ?thesis .
  qed
  have high: "img ?s b = img s1 b" if "nmeta \<le> unat b" for b
    by (rule winode_other) (use that IBLOCK_inode [OF low [OF n]] in auto)
  have N: "inodes ?s = ?N" by (simp add: inodes_def A(2))
  have adr: "i_addrs (disk_inode ?s m) = i_addrs ((?T(n := inode_of din)) m)" if "m \<in> ?N" for m
    using that same other by (cases "m = n") simp_all
  have t1: "tab_inv (disk_inode ?s) (img s1) ?N (unat (freeblock s1))" by (rule tab_inv_addrs [OF A(1) adr])
  have t2: "tab_inv (disk_inode ?s) (img ?s) ?N (unat (freeblock s1))" "\<And>m. m \<in> ?N \<Longrightarrow> amap (img ?s) (disk_inode ?s m) = amap (img s1) (disk_inode ?s m)"
    by (rule tab_inv_low [OF t1 high]; assumption)+
  have an: "amap (img s1) (disk_inode ?s n) = amap (img s1) (inode_of din)" by (rule amap_addrs) (simp add: same)
  have fbn: "file_byte (img ?s) (disk_inode ?s n) q = file_byte (img s1) (inode_of din) q" if "q < off + length p" for q
  proof -
    have "q div BSIZE * BSIZE < off + length p" using that div_times_less_eq_dividend [of q BSIZE] by linarith
    then have "q div BSIZE < NDATA" "amap (img s1) (inode_of din) (q div BSIZE) \<noteq> 0" using A(7) by (auto simp: file_full_def)
    then show ?thesis using file_byte_low [OF t1 high n] an by (simp add: file_byte_def)
  qed
  have om: "file_full (img ?s) (?T m) (unat (i_size (?T m)))" "image_file ?s m = image_file s m" if m: "m \<in> ?N" "m \<noteq> n" for m
  proof -
    have mn: "m \<in> ?N - {n}" using m by simp
    note k = kept_file [OF A(8) mn m(1) I(2) [OF m(1)] t1 other [OF m] high]
    show "file_full (img ?s) (?T m) (unat (i_size (?T m)))" "image_file ?s m = image_file s m"
      using k(1) k(2) unfolding image_file_def other [OF m] by simp_all
  qed
  have fn: "file_full (img ?s) (disk_inode ?s n) (off + length p)" using A(7) t2(2) [OF n] an by (simp add: file_full_def)
  have "file_full (img ?s) (disk_inode ?s m) (unat (i_size (disk_inode ?s m)))" if "m \<in> ?N" for m
    using fn om(1) [OF that] other [OF that] same u by (cases "m = n") simp_all
  then have "img_inv ?s" using inv t2(1) N A(2) by (simp add: img_inv_def)
  moreover have "image_file ?s n = image_file s n @ p"
  proof -
    have "image_file ?s n = map (file_byte (img s1) (inode_of din)) [0..<off + length p]" using fbn by (simp add: image_file_def same u)
    moreover have "image_file s n = map (file_byte (img s) (inode_of ?din)) [0..<off]" by (simp add: image_file_def disk_inode_rinode off)
    ultimately show ?thesis using appended_bytes [OF L(2)] by (simp only:)
  qed
  moreover have "i_type (disk_inode ?s m) = i_type (?T m)" if "m \<in> ?N" for m
  proof (cases "m = n")
    case True
    have "rd16 din 0 = rd16 ?din 0" by (rule rd16_cong) (use A(3) in simp_all)
    then show ?thesis using True same by (simp add: disk_inode_rinode)
  qed (use other that in simp)
  moreover have "img ?s b = img s b" if "meta_block b" for b
  proof -
    have "b \<noteq> IBLOCK n mk_sb" using that IBLOCK_inode [OF low [OF n]] by auto
    then have "img ?s b = img s1 b" by (rule winode_other)
    moreover have "unat b < nmeta" using that by (auto simp: meta_block_def)
    ultimately show ?thesis using A(4) by simp
  qed
  ultimately show thesis using that [OF r] om(2) A(2,5,6) by (simp add: grown_def off_def)
qed

subsection \<open>New inodes\<close>

definition new_din :: "ushort \<Rightarrow> bytes" where
  "new_din type = wr32 (wr32 (wr32 (wr16 (wr16 (\<lambda>_. 0) 0 type) 6 1) 8 0) 64 0) 68 0"

lemma mk_ialloc_eq: "mk_ialloc type s = (freeinode s, winode (freeinode s) (new_din type) (s\<lparr>freeinode := freeinode s + 1\<rparr>))"
  by (simp add: mk_ialloc_def new_din_def Let_def)

lemma new_din_inode: "i_size (inode_of (new_din type)) = 0" "i_type (inode_of (new_din type)) = type" "i_addrs (inode_of (new_din type)) = (\<lambda>_. 0)"
proof -
  show "i_size (inode_of (new_din type)) = 0" "i_type (inode_of (new_din type)) = type" by (simp_all add: new_din_def byte_simps)
  have "din_addr (new_din type) k = 0" if "k \<le> NDIRECT" for k using that by (simp add: new_din_def byte_simps)
  then show "i_addrs (inode_of (new_din type)) = (\<lambda>_. 0)" by (auto simp: inode_of_addrs)
qed

lemma no_blocks: "i_addrs i = (\<lambda>_. 0) \<Longrightarrow> file_blocks c i = {} \<and> amap c i = (\<lambda>_. 0)"
  by (auto simp: file_blocks_def amap_def)

text \<open>An inode has been added: an empty file, next to the files there were.\<close>

definition added :: "ushort \<Rightarrow> uint \<Rightarrow> mk_st \<Rightarrow> mk_st \<Rightarrow> bool" where
  "added type n s s' \<longleftrightarrow> img_inv s' \<and> n = freeinode s \<and> unat (freeinode s') = unat (freeinode s) + 1 \<and> inodes s' = insert n (inodes s)
     \<and> n \<notin> inodes s \<and> image_file s' n = [] \<and> i_type (disk_inode s' n) = type
     \<and> (\<forall>m\<in>inodes s. image_file s' m = image_file s m \<and> i_type (disk_inode s' m) = i_type (disk_inode s m))
     \<and> freeblock s' = freeblock s \<and> (\<forall>b. meta_block b \<longrightarrow> img s' b = img s b)"

lemma mk_ialloc_ok:
  assumes inv: "img_inv s" and room: "unat (freeinode s) < NINODES"
  obtains s' where "mk_ialloc type s = (freeinode s, s')" and "added type (freeinode s) s s'"
proof
  let ?n = "freeinode s"
  let ?s = "winode ?n (new_din type) (s\<lparr>freeinode := ?n + 1\<rparr>)"
  show "mk_ialloc type s = (?n, ?s)" by (rule mk_ialloc_eq)
  have u: "unat (?n + 1) = unat ?n + 1" by (subst unat_plus_if') (use room in simp)
  have n: "1 \<le> unat ?n" "?n \<notin> inodes s" using inv by (auto simp: img_inv_def inodes_def)
  have N: "inodes ?s = insert ?n (inodes s)"
  proof (rule set_eqI)
    fix m
    have "unat m < unat ?n + 1 \<longleftrightarrow> unat m < unat ?n \<or> m = ?n" by (auto simp: word_unat_eq_iff)
    then show "m \<in> inodes ?s \<longleftrightarrow> m \<in> insert ?n (inodes s)" using u n(1) by (auto simp: inodes_def)
  qed
  have new: "disk_inode ?s ?n = inode_of (new_din type)" by (rule winode_same)
  have old: "disk_inode ?s m = disk_inode s m" if "m \<in> inodes s" for m
  proof -
    have "m \<noteq> ?n" using that n(2) by auto
    then show ?thesis using winode_other_inode [of m ?n "new_din type" "s\<lparr>freeinode := ?n + 1\<rparr>"] by (simp add: disk_inode_def)
  qed
  have img: "img ?s b = img s b" if "b \<noteq> IBLOCK ?n mk_sb" for b using winode_other [OF that] by simp
  have high: "img ?s b = img s b" if "nmeta \<le> unat b" for b by (rule img) (use that IBLOCK_inode [OF room] in auto)
  note z = no_blocks [OF new_din_inode(3)]
  have t: "tab_inv (disk_inode s) (img s) (inodes s) (unat (freeblock s))" using inv by (simp add: img_inv_def)
  have "tab_inv (disk_inode ?s) (img s) (inodes s) (unat (freeblock s))" by (rule tab_inv_addrs [OF t]) (simp add: old)
  then have t1: "tab_inv (disk_inode ?s) (img ?s) (inodes s) (unat (freeblock s))" by (rule tab_inv_low(1)) (rule high)
  have "file_wf (img ?s) (inode_of (new_din type)) (unat (freeblock s))" using z [of "img ?s"] by (simp add: file_wf_def)
  then have T: "tab_inv (disk_inode ?s) (img ?s) (inodes ?s) (unat (freeblock ?s))"
    using t1 new z [of "img ?s"] unfolding N by (auto simp: tab_inv_def)
  have F: "file_full (img ?s) (disk_inode s m) (unat (i_size (disk_inode s m)))" "image_file ?s m = image_file s m" if m: "m \<in> inodes s" for m
  proof -
    have "file_full (img s) (disk_inode s m) (unat (i_size (disk_inode s m)))" using inv m by (simp add: img_inv_def)
    note k = kept_file [OF keeps_refl [of "inodes s" "disk_inode s" "img s"] m m this t refl high]
    show "file_full (img ?s) (disk_inode s m) (unat (i_size (disk_inode s m)))" "image_file ?s m = image_file s m"
      using k(1) k(2) unfolding image_file_def old [OF m] by simp_all
  qed
  have "file_full (img ?s) (inode_of (new_din type)) 0" by (simp add: file_full_def)
  then have "img_inv ?s" using T F(1) old new new_din_inode u room unfolding img_inv_def N by simp
  moreover have "img ?s b = img s b" if "meta_block b" for b by (rule img) (use that IBLOCK_inode [OF room] in auto)
  ultimately show "added type ?n s ?s" using N n F(2) old new new_din_inode u by (simp add: added_def) (simp add: image_file_def)
qed

subsection \<open>Directory entries and whole files\<close>

lemma chunks_bound: "chunks off n \<le> n div BSIZE + 2"
proof -
  have "(off mod BSIZE + n + (BSIZE - 1)) div BSIZE \<le> (n + 2 * BSIZE) div BSIZE" by (rule div_le_mono) simp
  moreover have "(n + 2 * BSIZE) div BSIZE = n div BSIZE + 2" using div_mult_self1 [of BSIZE n 2] by linarith
  ultimately show ?thesis by (simp add: chunks_def)
qed

lemma grown_mono: "grown n p k s s' \<Longrightarrow> k \<le> l \<Longrightarrow> grown n p l s s'"
  by (auto simp: grown_def)

lemma grown_inodes: "grown n p k s s' \<Longrightarrow> inodes s' = inodes s"
  by (simp add: grown_def inodes_def)

lemma grown_trans: "grown n p k s s1 \<Longrightarrow> grown n q l s1 s2 \<Longrightarrow> grown n (p @ q) (k + l) s s2"
  using grown_inodes [of n p k s s1] by (auto simp: grown_def)

lemma length_enc_dirent: "length (enc_dirent i name) = 16"
  by (simp add: enc_dirent_def)

lemma add_entry_ok:
  assumes "img_inv s" and "dir \<in> inodes s" and "length (image_file s dir) + 16 \<le> NDATA * BSIZE" and "unat (freeblock s) + 4 < 2 ^ 31"
  obtains s' where "add_entry dir inum name s = Inr s'" and "grown dir (enc_dirent (ucast inum) name) 4 s s'"
proof -
  let ?p = "enc_dirent (ucast inum) name"
  have l: "length ?p = 16" by (rule length_enc_dirent)
  have c: "chunks (length (image_file s dir)) (length ?p) \<le> 2" using chunks_bound [of "length (image_file s dir)" "length ?p"] l by simp
  obtain s' where "iappend dir ?p s = Inr s'" "grown dir ?p (2 * chunks (length (image_file s dir)) (length ?p)) s s'"
    by (rule iappend_ok [OF assms(1,2), of ?p]) (use assms(3,4) l c in auto)
  then show thesis using that [of s'] grown_mono [OF _, of dir ?p _ s s' 4] c by (simp add: add_entry_def)
qed

definition blocks_for :: "nat \<Rightarrow> nat" where
  "blocks_for n = (n + (BSIZE - 1)) div BSIZE"

lemma blocks_for_step: "0 < n \<Longrightarrow> blocks_for n = Suc (blocks_for (n - BSIZE))"
proof (cases "n \<le> BSIZE")
  case True
  moreover assume "0 < n"
  ultimately have "(n + (BSIZE - 1)) div BSIZE = 1" by (intro div_nat_eqI) auto
  then show ?thesis using True by (simp add: blocks_for_def)
next
  case False
  then have "n + (BSIZE - 1) = (n - BSIZE + (BSIZE - 1)) + BSIZE" by simp
  then show ?thesis unfolding blocks_for_def by (metis Suc_eq_plus1 div_add_self2 zero_neq_numeral)
qed

lemma append_blocks_ok:
  assumes "img_inv s" and "n \<in> inodes s" and "length (image_file s n) + length data \<le> NDATA * BSIZE" and "unat (freeblock s) + 6 * blocks_for (length data) < 2 ^ 31"
  shows "\<exists>s'. append_blocks n data s = Inr s' \<and> grown n data (6 * blocks_for (length data)) s s'"
  using assms
proof (induction "length data" arbitrary: data s rule: less_induct)
  case less
  show ?case
  proof (cases "data = []")
    case True
    then show ?thesis using less.prems by (intro exI [of _ s]) (simp add: append_blocks.simps [of n "[]"] grown_def)
  next
    case False
    let ?p = "take BSIZE data"
    have b: "blocks_for (length data) = Suc (blocks_for (length (drop BSIZE data)))" using blocks_for_step [of "length data"] False by simp
    have c: "2 * chunks (length (image_file s n)) (length ?p) \<le> 6"
    proof -
      have "length ?p div BSIZE \<le> 1" by (simp add: div_le_mono [of _ BSIZE BSIZE, simplified] min_def)
      then show ?thesis using chunks_bound [of "length (image_file s n)" "length ?p"] by linarith
    qed
    obtain s1 where i: "iappend n ?p s = Inr s1" "grown n ?p (2 * chunks (length (image_file s n)) (length ?p)) s s1"
      by (rule iappend_ok [OF less.prems(1,2), of ?p]) (use less.prems(3,4) c b in auto)
    then have g: "grown n ?p 6 s s1" using grown_mono c by blast
    have s1: "img_inv s1" "n \<in> inodes s1" "image_file s1 n = image_file s n @ ?p" "unat (freeblock s1) \<le> unat (freeblock s) + 6"
      using g grown_inodes [OF g] less.prems(2) by (auto simp: grown_def)
    have "length (drop BSIZE data) < length data" "length (image_file s1 n) + length (drop BSIZE data) \<le> NDATA * BSIZE"
      "unat (freeblock s1) + 6 * blocks_for (length (drop BSIZE data)) < 2 ^ 31" using False less.prems(3,4) s1 b by auto
    from less.hyps [OF this(1) s1(1,2) this(2,3)] obtain s2 where
      s2: "append_blocks n (drop BSIZE data) s1 = Inr s2" "grown n (drop BSIZE data) (6 * blocks_for (length (drop BSIZE data))) s1 s2" by blast
    have "grown n data (6 * blocks_for (length data)) s s2" using grown_trans [OF g s2(2)] by (simp add: b)
    moreover have "append_blocks n data s = Inr s2" using False i(1) s2(1) by (subst append_blocks.simps) simp
    ultimately show ?thesis by blast
  qed
qed

subsection \<open>Files in the root directory\<close>

definition base_name :: "uchar list \<Rightarrow> uchar list" where
  "base_name p = (if p \<noteq> [] \<and> hd p = 95 then tl p else p)"

lemma flat_path:
  assumes "slash \<notin> set p" and "length p \<le> 511"
  shows "image_path p = p" and "split_path p = ([], p)"
proof -
  have "take 10 p \<noteq> map (of_nat \<circ> of_char) ''userspace/''"
  proof
    assume "take 10 p = map (of_nat \<circ> of_char) ''userspace/''"
    then have "slash \<in> set (take 10 p)" by simp
    then show False using assms(1) set_take_subset [of 10 p] by blast
  qed
  moreover have "dropWhile (\<lambda>c. c = slash) (rev p) = rev p" using assms(1) by (subst dropWhile_eq_self_iff) (metis hd_in_set set_rev)
  ultimately show "image_path p = p" using assms(2) by (simp add: image_path_def Let_def)
  show "split_path p = ([], p)" using assms(1) by (simp add: split_path_def)
qed

text \<open>A file of the root directory has been added.\<close>

definition file_added :: "uchar list \<Rightarrow> uchar list \<Rightarrow> mk_st \<Rightarrow> mk_st \<Rightarrow> bool" where
  "file_added p data s s' \<longleftrightarrow> img_inv s' \<and> unat (freeinode s') = unat (freeinode s) + 1 \<and> inodes s' = insert (freeinode s) (inodes s) \<and> freeinode s \<notin> inodes s
     \<and> image_file s' (freeinode s) = data \<and> i_type (disk_inode s' (freeinode s)) = T_FILE
     \<and> image_file s' ROOTINO = image_file s ROOTINO @ enc_dirent (ucast (freeinode s)) (base_name p)
     \<and> (\<forall>m\<in>inodes s. (m \<noteq> ROOTINO \<longrightarrow> image_file s' m = image_file s m) \<and> i_type (disk_inode s' m) = i_type (disk_inode s m))
     \<and> unat (freeblock s) \<le> unat (freeblock s') \<and> unat (freeblock s') \<le> unat (freeblock s) + 832 \<and> (\<forall>b. meta_block b \<longrightarrow> img s' b = img s b)"

lemma add_path_flat:
  assumes inv: "img_inv s" and root: "ROOTINO \<in> inodes s" and p: "slash \<notin> set p" "length p \<le> 511" and d: "length data \<le> NDATA * BSIZE"
    and fi: "unat (freeinode s) < NINODES" and len: "length (image_file s ROOTINO) + 16 \<le> NDATA * BSIZE" and fb: "unat (freeblock s) + 832 < 2 ^ 31"
  obtains s' where "add_path p (Regular data) s = Inr s'" and "file_added p data s s'"
proof -
  let ?n = "freeinode s"
  obtain s1 where a: "mk_ialloc T_FILE s = (?n, s1)" "added T_FILE ?n s s1" by (rule mk_ialloc_ok [OF inv fi])
  have A: "img_inv s1" "ROOTINO \<in> inodes s1" "?n \<in> inodes s1" "?n \<noteq> ROOTINO" "image_file s1 ROOTINO = image_file s ROOTINO" "freeblock s1 = freeblock s"
    using a(2) root by (auto simp: added_def)
  have b: "length (image_file s1 ROOTINO) + 16 \<le> NDATA * BSIZE" "unat (freeblock s1) + 4 < 2 ^ 31" using len fb A(5,6) by simp_all
  obtain s2 where e: "add_entry ROOTINO ?n (base_name p) s1 = Inr s2" "grown ROOTINO (enc_dirent (ucast ?n) (base_name p)) 4 s1 s2"
    by (rule add_entry_ok [OF A(1,2) b])
  have bl: "blocks_for (length data) \<le> NDATA"
  proof -
    have "(length data + (BSIZE - 1)) div BSIZE \<le> (NDATA * BSIZE + (BSIZE - 1)) div BSIZE" by (rule div_le_mono) (use d in simp)
    then show ?thesis by (simp add: blocks_for_def)
  qed
  have E: "img_inv s2" "?n \<in> inodes s2" "image_file s2 ?n = []" "unat (freeblock s2) \<le> unat (freeblock s) + 4"
    using e(2) grown_inodes [OF e(2)] A a(2) by (auto simp: grown_def added_def)
  have "length (image_file s2 ?n) + length data \<le> NDATA * BSIZE" "unat (freeblock s2) + 6 * blocks_for (length data) < 2 ^ 31"
    using E d fb bl by simp_all
  from append_blocks_ok [OF E(1,2) this] obtain s3 where
    w: "append_blocks ?n data s2 = Inr s3" "grown ?n data (6 * blocks_for (length data)) s2 s3" by blast
  have "add_path p (Regular data) s = Inr s3"
    using a(1) e(1) w(1) p(1) by (simp add: add_path_def flat_path [OF p] base_name_def Let_def)
  moreover have "file_added p data s s3"
    using a(2) e(2) w(2) grown_inodes [OF e(2)] grown_inodes [OF w(2)] A E bl root by (auto simp: file_added_def added_def grown_def)
  ultimately show thesis by (rule that)
qed

text \<open>What the root directory lists for files that get the inodes from \<open>n\<close> on.\<close>

primrec dir_entries :: "nat \<Rightarrow> (uchar list \<times> host_file) list \<Rightarrow> uchar list" where
  "dir_entries n [] = []"
| "dir_entries n (f # fs) = enc_dirent (of_nat n) (base_name (fst f)) @ dir_entries (n + 1) fs"

definition flat_file :: "uchar list \<times> host_file \<Rightarrow> bool" where
  "flat_file f \<longleftrightarrow> slash \<notin> set (fst f) \<and> length (fst f) \<le> 511 \<and> (\<exists>data. snd f = Regular data \<and> length data \<le> NDATA * BSIZE)"

definition file_data :: "uchar list \<times> host_file \<Rightarrow> uchar list" where
  "file_data f = (case snd f of Regular data \<Rightarrow> data | _ \<Rightarrow> [])"

lemma of_nat_inode: "k < NINODES \<Longrightarrow> unat (of_nat k :: uint) = k"
  by (simp add: unat_of_nat)

lemma ucast_inode: "(ucast (of_nat k :: uint) :: ushort) = of_nat k"
  by transfer simp

definition files_added :: "(uchar list \<times> host_file) list \<Rightarrow> mk_st \<Rightarrow> mk_st \<Rightarrow> bool" where
  "files_added files s s' \<longleftrightarrow> img_inv s' \<and> inodes s \<subseteq> inodes s' \<and> unat (freeinode s') = unat (freeinode s) + length files
     \<and> image_file s' ROOTINO = image_file s ROOTINO @ dir_entries (unat (freeinode s)) files
     \<and> (\<forall>k<length files. image_file s' (of_nat (unat (freeinode s) + k)) = file_data (files ! k)
          \<and> i_type (disk_inode s' (of_nat (unat (freeinode s) + k))) = T_FILE)
     \<and> (\<forall>m\<in>inodes s. (m \<noteq> ROOTINO \<longrightarrow> image_file s' m = image_file s m) \<and> i_type (disk_inode s' m) = i_type (disk_inode s m))
     \<and> unat (freeblock s) \<le> unat (freeblock s') \<and> unat (freeblock s') \<le> unat (freeblock s) + 832 * length files
     \<and> (\<forall>b. meta_block b \<longrightarrow> img s' b = img s b)"

lemma files_added_Cons:
  assumes f: "file_added p data s s1" and fs: "files_added files s1 s2" and root: "ROOTINO \<in> inodes s" and i: "unat (freeinode s) < NINODES"
  shows "files_added ((p, Regular data) # files) s s2"
proof -
  let ?n = "unat (freeinode s)"
  have nr: "freeinode s \<noteq> ROOTINO" using f root by (auto simp: file_added_def)
  have n: "freeinode s \<in> inodes s1" "unat (freeinode s1) = ?n + 1" "inodes s \<subseteq> inodes s1" using f by (auto simp: file_added_def)
  have u: "(ucast (freeinode s) :: ushort) = of_nat ?n" using ucast_inode [of ?n] by simp
  have "image_file s2 (of_nat (?n + k)) = file_data (((p, Regular data) # files) ! k) \<and> i_type (disk_inode s2 (of_nat (?n + k))) = T_FILE"
    if "k < Suc (length files)" for k
  proof (cases k)
    case 0
    then show ?thesis using f fs n(1) nr by (simp add: files_added_def file_added_def file_data_def)
  next
    case (Suc j)
    then have "j < length files" using that by simp
    then have "image_file s2 (of_nat (unat (freeinode s1) + j)) = file_data (files ! j) \<and> i_type (disk_inode s2 (of_nat (unat (freeinode s1) + j))) = T_FILE"
      using fs by (simp add: files_added_def del: of_nat_add)
    then show ?thesis using Suc n(2) by simp
  qed
  moreover have "(m \<noteq> ROOTINO \<longrightarrow> image_file s2 m = image_file s m) \<and> i_type (disk_inode s2 m) = i_type (disk_inode s m)" if "m \<in> inodes s" for m
    using f fs n(3) that by (auto simp: files_added_def file_added_def)
  moreover have "img_inv s2" "inodes s \<subseteq> inodes s2" "unat (freeinode s2) = ?n + length ((p, Regular data) # files)"
    using fs n by (auto simp: files_added_def)
  moreover have "image_file s2 ROOTINO = image_file s ROOTINO @ dir_entries ?n ((p, Regular data) # files)"
  proof -
    have "image_file s1 ROOTINO = image_file s ROOTINO @ enc_dirent (ucast (freeinode s)) (base_name p)" using f by (simp add: file_added_def)
    moreover have "image_file s2 ROOTINO = image_file s1 ROOTINO @ dir_entries (?n + 1) files" using fs n(2) by (simp add: files_added_def)
    ultimately show ?thesis by (simp only: u dir_entries.simps fst_conv append_assoc)
  qed
  moreover have "unat (freeblock s) \<le> unat (freeblock s2)" "unat (freeblock s2) \<le> unat (freeblock s) + 832 * length ((p, Regular data) # files)"
    using f fs by (auto simp: files_added_def file_added_def)
  moreover have "\<forall>b. meta_block b \<longrightarrow> img s2 b = img s b" using f fs by (simp add: files_added_def file_added_def)
  ultimately show ?thesis unfolding files_added_def list.size by simp
qed

lemma add_files_ok:
  assumes "img_inv s" and "ROOTINO \<in> inodes s" and "list_all flat_file files" and "unat (freeinode s) + length files \<le> NINODES"
    and "length (image_file s ROOTINO) + 16 * length files \<le> NDATA * BSIZE" and "unat (freeblock s) + 832 * length files < 2 ^ 31"
  shows "\<exists>s'. rfold (\<lambda>(path, f) s. add_path path f s) files s = Inr s' \<and> files_added files s s'"
  using assms
proof (induction files arbitrary: s)
  case Nil
  then show ?case by (simp add: files_added_def)
next
  case (Cons f files)
  obtain p data where f: "f = (p, Regular data)" "slash \<notin> set p" "length p \<le> 511" "length data \<le> NDATA * BSIZE"
    using Cons.prems(3) by (cases f) (auto simp: flat_file_def)
  have r: "unat (freeinode s) < NINODES" "length (image_file s ROOTINO) + 16 \<le> NDATA * BSIZE" "unat (freeblock s) + 832 < 2 ^ 31"
    using Cons.prems(4-6) by simp_all
  obtain s1 where s1: "add_path p (Regular data) s = Inr s1" "file_added p data s s1"
    by (rule add_path_flat [OF Cons.prems(1,2) f(2-4) r])
  have "img_inv s1" "ROOTINO \<in> inodes s1" "unat (freeinode s1) + length files \<le> NINODES"
    "length (image_file s1 ROOTINO) + 16 * length files \<le> NDATA * BSIZE" "unat (freeblock s1) + 832 * length files < 2 ^ 31"
    using s1(2) Cons.prems by (auto simp: file_added_def length_enc_dirent)
  then obtain s2 where "rfold (\<lambda>(path, f) s. add_path path f s) files s1 = Inr s2" "files_added files s1 s2"
    using Cons.IH [of s1] Cons.prems(3) by auto
  then show ?case using files_added_Cons [OF s1(2) _ Cons.prems(2) r(1)] f(1) s1(1) by auto
qed

subsection \<open>The empty file system\<close>

lemma mkfs_init_inv: "img_inv mkfs_init" "freeinode mkfs_init = 1" "unat (freeblock mkfs_init) = nmeta" "inodes mkfs_init = {}"
  "decode_sb (img mkfs_init 1) = mk_sb" "b \<noteq> 1 \<Longrightarrow> img mkfs_init b = (\<lambda>_. 0)"
proof -
  show f: "freeinode mkfs_init = 1" "unat (freeblock mkfs_init) = nmeta" by (simp_all add: mkfs_init_def wsect_def)
  show i: "inodes mkfs_init = {}" by (auto simp: inodes_def f)
  show "decode_sb (img mkfs_init 1) = mk_sb" by (simp add: mkfs_init_def wsect_def decode_encode_sb)
  show z: "b \<noteq> 1 \<Longrightarrow> img mkfs_init b = (\<lambda>_. 0)" for b by (simp add: mkfs_init_def wsect_def)
  have "\<forall>b. nmeta \<le> unat b \<longrightarrow> (\<forall>k<BSIZE. img mkfs_init b k = 0)"
  proof (intro allI impI)
    fix b :: uint and k
    assume "nmeta \<le> unat b"
    then have "b \<noteq> 1" by auto
    then show "img mkfs_init b k = 0" using z by simp
  qed
  then show "img_inv mkfs_init" by (simp add: img_inv_def tab_inv_def f i)
qed

definition root_entries :: "uchar list" where
  "root_entries = enc_dirent 1 [46] @ enc_dirent 1 [46, 46]"

lemma mkfs_root_ok:
  obtains s where "mkfs_root mkfs_init = Inr s" and "img_inv s" and "ROOTINO \<in> inodes s" and "unat (freeinode s) = 2" and "unat (freeblock s) \<le> nmeta + 8"
    and "image_file s ROOTINO = root_entries" and "i_type (disk_inode s ROOTINO) = T_DIR" and "\<forall>b. meta_block b \<longrightarrow> img s b = img mkfs_init b"
proof -
  note I = mkfs_init_inv
  obtain s1 where a: "mk_ialloc T_DIR mkfs_init = (ROOTINO, s1)" "added T_DIR ROOTINO mkfs_init s1"
    using mk_ialloc_ok [OF I(1), of T_DIR] I(2) by auto
  have A: "img_inv s1" "ROOTINO \<in> inodes s1" "image_file s1 ROOTINO = []" "unat (freeblock s1) = nmeta" using a(2) I(3) by (auto simp: added_def)
  obtain s2 where e: "add_entry ROOTINO ROOTINO [46] s1 = Inr s2" "grown ROOTINO (enc_dirent (ucast ROOTINO) [46]) 4 s1 s2"
    by (rule add_entry_ok [OF A(1,2), of ROOTINO "[46]"]) (use A in auto)
  have E: "img_inv s2" "ROOTINO \<in> inodes s2" "image_file s2 ROOTINO = enc_dirent 1 [46]" "unat (freeblock s2) \<le> nmeta + 4"
    using e(2) A grown_inodes [OF e(2)] by (auto simp: grown_def)
  obtain s3 where w: "add_entry ROOTINO ROOTINO [46, 46] s2 = Inr s3" "grown ROOTINO (enc_dirent (ucast ROOTINO) [46, 46]) 4 s2 s3"
    by (rule add_entry_ok [OF E(1,2), of ROOTINO "[46, 46]"]) (use E in \<open>auto simp: length_enc_dirent\<close>)
  show thesis
  proof (rule that [of s3])
    show "mkfs_root mkfs_init = Inr s3" using a(1) e(1) w(1) by (simp add: mkfs_root_def)
    show "image_file s3 ROOTINO = root_entries" using w(2) E(3) by (simp add: grown_def root_entries_def)
  qed (use a(2) e(2) w(2) E grown_inodes [OF e(2)] grown_inodes [OF w(2)] I A in \<open>auto simp: grown_def added_def\<close>)
qed

subsection \<open>The whole image\<close>

lemma fix_root_size_facts:
  assumes "img_inv s" and "ROOTINO \<in> inodes s"
  shows "m \<in> inodes s \<Longrightarrow> i_addrs (disk_inode (fix_root_size s) m) = i_addrs (disk_inode s m) \<and> i_type (disk_inode (fix_root_size s) m) = i_type (disk_inode s m)"
    and "m \<in> inodes s \<Longrightarrow> m \<noteq> ROOTINO \<Longrightarrow> disk_inode (fix_root_size s) m = disk_inode s m"
    and "b \<noteq> IBLOCK ROOTINO mk_sb \<Longrightarrow> img (fix_root_size s) b = img s b"
    and "freeblock (fix_root_size s) = freeblock s" and "inodes (fix_root_size s) = inodes s"
proof -
  define v where "v = xint ((xint (din_size (rinode ROOTINO s)) div 512 + 1) * 512)"
  have f: "fix_root_size s = winode ROOTINO (wr32 (rinode ROOTINO s) 8 v) s" by (simp only: fix_root_size_def v_def Let_def)
  show o: "disk_inode (fix_root_size s) m = disk_inode s m" if "m \<noteq> ROOTINO" for m unfolding f by (rule winode_other_inode [OF that])
  have "disk_inode (fix_root_size s) ROOTINO = (disk_inode s ROOTINO)\<lparr>i_size := v\<rparr>"
    unfolding f using winode_same [of ROOTINO "wr32 (rinode ROOTINO s) 8 v" s] set_size_inode [of "rinode ROOTINO s" v] disk_inode_rinode [of s ROOTINO] by metis
  then show "i_addrs (disk_inode (fix_root_size s) m) = i_addrs (disk_inode s m) \<and> i_type (disk_inode (fix_root_size s) m) = i_type (disk_inode s m)"
    using o by (cases "m = ROOTINO") simp_all
  show "b \<noteq> IBLOCK ROOTINO mk_sb \<Longrightarrow> img (fix_root_size s) b = img s b" unfolding f by (rule winode_other)
  show "freeblock (fix_root_size s) = freeblock s" "inodes (fix_root_size s) = inodes s" by (simp_all add: f inodes_def)
qed

text \<open>Changes of other blocks than those of the files, and of the sizes in the inodes, leave the contents of the files.\<close>

lemma contents_kept:
  assumes inv: "img_inv s" and high: "\<And>b. nmeta \<le> unat b \<Longrightarrow> img s' b = img s b" and adr: "\<And>m. m \<in> inodes s \<Longrightarrow> i_addrs (disk_inode s' m) = i_addrs (disk_inode s m)"
  shows "tab_inv (disk_inode s') (img s') (inodes s) (unat (freeblock s))"
    and "m \<in> inodes s \<Longrightarrow> map (file_byte (img s') (disk_inode s' m)) [0..<unat (i_size (disk_inode s m))] = image_file s m"
proof -
  have t: "tab_inv (disk_inode s) (img s) (inodes s) (unat (freeblock s))" using inv by (simp add: img_inv_def)
  show "tab_inv (disk_inode s') (img s') (inodes s) (unat (freeblock s))"
    by (rule tab_inv_low(1) [OF tab_inv_addrs [OF t adr] high])
  assume m: "m \<in> inodes s"
  have "file_full (img s) (disk_inode s m) (unat (i_size (disk_inode s m)))" using inv m by (simp add: img_inv_def)
  note k = kept_file(2) [OF keeps_refl [of "inodes s" "disk_inode s" "img s"] m m this t refl high]
  moreover have "file_byte (img s') (disk_inode s' m) = file_byte (img s') (disk_inode s m)"
    by (rule ext) (simp add: file_byte_def amap_addrs [OF adr [OF m]])
  ultimately show "map (file_byte (img s') (disk_inode s' m)) [0..<unat (i_size (disk_inode s m))] = image_file s m" by (simp add: image_file_def)
qed

lemma map_bits: "map_bit (fold set_map_bit [0..<n] (\<lambda>_. 0)) b \<longleftrightarrow> b < n"
proof (induction n)
  case 0
  then show ?case by (simp add: map_bit_bit)
next
  case (Suc n)
  then show ?case by (auto simp: map_bit_set)
qed

lemma mkfs_run:
  assumes "list_all flat_file files" and "length files \<le> 198"
  obtains s where "mkfs files = mk_balloc (unat (freeblock s)) (fix_root_size s)" and "img_inv s" and "ROOTINO \<in> inodes s" and "unat (freeinode s) = length files + 2"
    and "image_file s ROOTINO = root_entries @ dir_entries 2 files" and "i_type (disk_inode s ROOTINO) = T_DIR"
    and "\<forall>k<length files. image_file s (of_nat (2 + k)) = file_data (files ! k) \<and> i_type (disk_inode s (of_nat (2 + k))) = T_FILE"
    and "\<forall>b. meta_block b \<longrightarrow> img s b = img mkfs_init b" and "unat (freeblock s) \<le> nmeta + 8 + 832 * length files"
proof -
  obtain s0 where r: "mkfs_root mkfs_init = Inr s0" "img_inv s0" "ROOTINO \<in> inodes s0" "unat (freeinode s0) = 2" "unat (freeblock s0) \<le> nmeta + 8"
    "image_file s0 ROOTINO = root_entries" "i_type (disk_inode s0 ROOTINO) = T_DIR" "\<forall>b. meta_block b \<longrightarrow> img s0 b = img mkfs_init b"
    by (rule mkfs_root_ok)
  have "length (image_file s0 ROOTINO) = 32" by (simp add: r(6) root_entries_def length_enc_dirent)
  then have "unat (freeinode s0) + length files \<le> NINODES" "length (image_file s0 ROOTINO) + 16 * length files \<le> NDATA * BSIZE"
    "unat (freeblock s0) + 832 * length files < 2 ^ 31" using assms(2) r(4,5) by auto
  from add_files_ok [OF r(2,3) assms(1) this] obtain s where
    f: "rfold (\<lambda>(path, f) s. add_path path f s) files s0 = Inr s" "files_added files s0 s" by blast
  have F: "img_inv s" "inodes s0 \<subseteq> inodes s" "unat (freeinode s) = 2 + length files" "image_file s ROOTINO = root_entries @ dir_entries 2 files"
    "\<forall>k<length files. image_file s (of_nat (2 + k)) = file_data (files ! k) \<and> i_type (disk_inode s (of_nat (2 + k))) = T_FILE"
    "i_type (disk_inode s ROOTINO) = i_type (disk_inode s0 ROOTINO)" "unat (freeblock s) \<le> unat (freeblock s0) + 832 * length files"
    "\<forall>b. meta_block b \<longrightarrow> img s b = img s0 b"
    using f(2) r(3) unfolding files_added_def r(4,6) by blast+
  have m: "mkfs files = mk_balloc (unat (freeblock s)) (fix_root_size s)"
    using r(1) f(1) fix_root_size_facts(4) [OF F(1)] F(2) r(3) by (auto simp: mkfs_def Let_def)
  show thesis by (rule that [OF m F(1)]) (use F r in auto)
qed

lemma length_dir_entries: "length (dir_entries n files) = 16 * length files"
  by (induction files arbitrary: n) (simp_all add: length_enc_dirent)

lemma root_length:
  assumes "image_file s ROOTINO = root_entries @ dir_entries 2 files"
  shows "unat (i_size (disk_inode s ROOTINO)) = 16 * (length files + 2)"
proof -
  have "length (image_file s ROOTINO) = 16 * (length files + 2)"
    by (simp add: assms root_entries_def length_enc_dirent length_dir_entries)
  then show ?thesis by (simp add: image_file_def)
qed

text \<open>The free map as the kernel reads it, when only its first block has been written.\<close>

lemma free_map:
  assumes b: "b < fssize" and n: "n < BSIZE * 8" and map0: "c 91 = fold set_map_bit [0..<n] (\<lambda>_. 0)" and map1: "c 92 = (\<lambda>_. 0)" "c 93 = (\<lambda>_. 0)"
  shows "map_bit (c (BBLOCK (of_nat b) mk_sb)) (b mod BPB) \<longleftrightarrow> b < n"
proof -
  have u: "unat (of_nat b :: uint) = b" using b by (simp add: unat_of_nat)
  have "unat (of_nat (b div 4096) :: uint) = b div 4096" unfolding unat_of_nat by (rule mod_less) (use b in simp)
  moreover have "unat (of_nat b div 4096 :: uint) = b div 4096" unfolding unat_div_distrib u by simp
  ultimately have d: "(of_nat b div 4096 :: uint) = of_nat (b div 4096)" by (simp add: word_unat_eq_iff)
  have "b div 4096 = 0 \<or> b div 4096 = 1 \<or> b div 4096 = 2" using b by auto
  then show ?thesis
  proof (elim disjE)
    assume z: "b div 4096 = 0"
    then have "b mod BPB = b" by simp
    then show ?thesis using z d map0 map_bits [of n b] by (simp add: BBLOCK_def)
  qed (use d map1 n b in \<open>auto simp: BBLOCK_def map_bit_bit\<close>)
qed

section \<open>Properties\<close>

text \<open>Two files, of 600 bytes and empty.\<close>

definition demo_files :: "(uchar list \<times> host_file) list" where
  "demo_files = [([95, 115, 104], Regular (replicate 600 7)), ([101], Regular [])]"

lemma demo_files_flat: "list_all flat_file demo_files" "length demo_files = 2"
  by (simp_all add: demo_files_def flat_file_def)

lemma mkfs_small:
  assumes "list_all flat_file files" and "length files \<le> 4"
  shows "\<exists>s. mkfs files = Inr s"
proof -
  have "length files \<le> 198" using assms(2) by simp
  from assms(1) this obtain s where "mkfs files = mk_balloc (unat (freeblock s)) (fix_root_size s)" "unat (freeblock s) \<le> nmeta + 8 + 832 * length files"
    by (rule mkfs_run)
  then show ?thesis using assms(2) by (simp add: mk_balloc_def)
qed



end
