(* ===== verification/Spec2Isabelle.thy ===== *)
theory Spec2Isabelle
  imports KString KTime KLock KPath KPaging KSeg KTrap UStdio UMalloc USh TMkfs
begin

text \<open>
  A verification library for xv7, an x86 kernel derived from xv6, with its user library, its shell and the tool that makes its disk images.
  Paths below are relative to the root of the sources.

  \<^bold>\<open>The program.\<close> A user program calls the kernel through the library (\<^verbatim>\<open>ulib\<close>); the trap handler saves its registers and dispatches the
  call (\<^verbatim>\<open>kernel/trap.c\<close>, \<^verbatim>\<open>syscall.c\<close>), which reads its arguments from the memory of the process and works on the process table
  (\<^verbatim>\<open>sysproc.c\<close>, \<^verbatim>\<open>proc.c\<close>) or on open files (\<^verbatim>\<open>sysfile.c\<close>, \<^verbatim>\<open>file.c\<close>). Files are pipes (\<^verbatim>\<open>pipe.c\<close>), devices (\<^verbatim>\<open>dev/char\<close>) or
  inodes. The file system (\<^verbatim>\<open>fs.c\<close>) is a stack: directories on inodes, inodes on a block allocator, these on a write-ahead log (\<^verbatim>\<open>log.c\<close>),
  the log on a buffer cache (\<^verbatim>\<open>bio.c\<close>), the cache on the disk driver (\<^verbatim>\<open>dev/ide.c\<close>). Memory is pages (\<^verbatim>\<open>kalloc.c\<close>) under page
  tables (\<^verbatim>\<open>vm.c\<close>). Spin and sleep locks protect all of it.

  \<^bold>\<open>Conventions.\<close> Integers of C are words of their width, so that wrap-around is that of the machine; a C \<^verbatim>\<open>int\<close> that only carries a small
  result or an error code is an \<open>int\<close>. A routine takes the state and returns \<open>fault + result\<close>: \<open>Panic\<close> is a call of \<^verbatim>\<open>panic\<close> (or a failed
  assertion), \<open>Sleeps\<close> a wait that only another process can end, \<open>BadAccess\<close> an access through a pointer that is null or out of bounds. The
  state is a \<^theory_text>\<open>record\<close> extended from layer to layer: disk and buffers (\<^verbatim>\<open>KIde\<close>, \<^verbatim>\<open>KBio\<close>), log (\<^verbatim>\<open>KLog\<close>), inode cache
  (\<^verbatim>\<open>KInode\<close>), files, pipes and pages (\<^verbatim>\<open>KFile\<close>), processes (\<^verbatim>\<open>KProc\<close>), console and clock (\<^verbatim>\<open>KConsole\<close>, \<^verbatim>\<open>KSysproc\<close>). A
  call holds the locks it takes until it returns or sleeps, so a routine of the kernel is one step; interleaving is modelled where it is the
  point: processors on a spin lock (\<^verbatim>\<open>KLock\<close>), writers and readers of a pipe (\<^verbatim>\<open>KPipe\<close>), crashes between disk writes (\<^verbatim>\<open>KLog\<close>), steps of
  processes on the process table (\<^verbatim>\<open>KProc\<close>) and of programs on the heap (\<^verbatim>\<open>UMalloc\<close>).

  \<^bold>\<open>The theories.\<close>

  \<^item> \<^verbatim>\<open>Xv7_Prelude\<close>: integer types, outcomes and their composition, blocks of bytes with 16- and 32-bit fields, collections of rules.
  \<^item> \<^verbatim>\<open>KString\<close>: \<^verbatim>\<open>kernel/string.c\<close> over a byte memory. The routines store what they should and nothing else; the word-wise
    \<^verbatim>\<open>memset\<close> is the byte-wise one.
  \<^item> \<^verbatim>\<open>KTime\<close>: \<^verbatim>\<open>kernel/time.c\<close>, the clock part of \<^verbatim>\<open>kernel/lapic.c\<close>, \<^verbatim>\<open>ulib/time.c\<close>. Dates and seconds convert both ways.
  \<^item> \<^verbatim>\<open>KLock\<close>: \<^verbatim>\<open>spinlock.c\<close>, \<^verbatim>\<open>sleeplock.c\<close>; mutual exclusion for any number of processors, as an invariant of a step relation.
  \<^item> \<^verbatim>\<open>KIde\<close>, \<^verbatim>\<open>KBio\<close>: \<^verbatim>\<open>dev/ide.c\<close>, \<^verbatim>\<open>bio.c\<close>. The cache stays coherent with the disk; the locale \<open>block_cache\<close> is what its clients
    rely on.
  \<^item> \<^verbatim>\<open>KLog\<close>: \<^verbatim>\<open>log.c\<close>. A crash at any write of a commit leaves all or none of a transaction after recovery, recovery may itself crash,
    and a commit that returns is durable; the locale \<open>txn_blocks\<close> is what the file system relies on.
  \<^item> \<^verbatim>\<open>KBalloc\<close>, \<^verbatim>\<open>KInode\<close>, \<^verbatim>\<open>KData\<close>, \<^verbatim>\<open>KDir\<close>, \<^verbatim>\<open>KDirectory\<close>, \<^verbatim>\<open>KPath\<close>: \<^verbatim>\<open>fs.c\<close>. Blocks are given out once, inodes have one entry in the cache and come back from disk
    as they were written, and a file is a list of bytes that \<^verbatim>\<open>readi\<close> reads and \<^verbatim>\<open>writei\<close> overwrites. A directory
    is a map that \<^verbatim>\<open>dirlookup\<close> reads and \<^verbatim>\<open>dirlink\<close> updates, and \<^verbatim>\<open>namex\<close> finds the inode a path names in these maps and
    keeps no other reference.
  \<^item> \<^verbatim>\<open>KPipe\<close>: \<^verbatim>\<open>pipe.c\<close>. The ring with wrapping counters is a bounded queue (locale \<open>byte_queue\<close>), and what is read is a prefix of what was
    written in every interleaving.
  \<^item> \<^verbatim>\<open>KAlloc\<close>, \<^verbatim>\<open>KVm\<close>, \<^verbatim>\<open>KPaging\<close>, \<^verbatim>\<open>KSeg\<close>: \<^verbatim>\<open>kalloc.c\<close>, \<^verbatim>\<open>vm.c\<close>, \<^verbatim>\<open>includes/generic/mmu.h\<close>. Pages are given out once; page tables are maps from
    addresses to pages, and growing, copying and the kernel's part of an address space are operations on these maps.
  \<^item> \<^verbatim>\<open>KFile\<close>, \<^verbatim>\<open>KProc\<close>, \<^verbatim>\<open>KArgs\<close>, \<^verbatim>\<open>KSysproc\<close>, \<^verbatim>\<open>KExec\<close>, \<^verbatim>\<open>KSysfile\<close>, \<^verbatim>\<open>KTrap\<close>: \<^verbatim>\<open>file.c\<close>, \<^verbatim>\<open>proc.c\<close>, \<^verbatim>\<open>syscall.c\<close>, \<^verbatim>\<open>sysproc.c\<close>, \<^verbatim>\<open>exec.c\<close>,
    \<^verbatim>\<open>sysfile.c\<close>, \<^verbatim>\<open>trap.c\<close>. The process table keeps its invariant, arguments lie in the memory of the process, and a killed process does not
    return to user mode.
  \<^item> \<^verbatim>\<open>KConsole\<close>: \<^verbatim>\<open>dev/char/console.c\<close>, \<^verbatim>\<open>kbd.c\<close>, \<^verbatim>\<open>uart.c\<close>. The input ring is a line editor on lists; the cursor stays on the screen.
  \<^item> \<^verbatim>\<open>UString\<close>, \<^verbatim>\<open>UStdio\<close>, \<^verbatim>\<open>UMalloc\<close>: \<^verbatim>\<open>ulib/ulib.c\<close>, \<^verbatim>\<open>printf.c\<close>, \<^verbatim>\<open>files.c\<close>, \<^verbatim>\<open>umalloc.c\<close>, \<^verbatim>\<open>bsd\<close>. Conversion of numbers, output that stays in
    its buffer, buffered reading, and an allocator whose blocks are disjoint and whose loops end.
  \<^item> \<^verbatim>\<open>USh\<close>: \<^verbatim>\<open>bin/sh/sh.c\<close>. The parser reads back every command, and the programs it starts have the descriptors they should have.
  \<^item> \<^verbatim>\<open>TMkfs\<close>: \<^verbatim>\<open>tools/mkfs.c\<close>. The image it makes is what the kernel's definitions read back.

  \<^bold>\<open>Bounds and loops.\<close> Sizes are those of the sources (\<^verbatim>\<open>param.h\<close>, \<^verbatim>\<open>fs.h\<close>). The theorems on the contents of files are for direct and single
  indirect blocks, 138 in all: the inode in memory has no room for the further addresses, which overlap its time stamps (see the inode record).
  Loops of C are recursion on the data or on a measure; loops with no bound of their own (over C strings, over the free list of the
  allocator) are option-valued iterations, and the theorems show that they return. The shell's
  parser is well-founded recursion on the rest of the line, and \<^verbatim>\<open>sys_getcwd\<close> ends because every round takes room in its buffer.
  \<^verbatim>\<open>namei\<close> follows at most eleven symbolic links, as the code does. No definition needs fuel.

  \<^bold>\<open>Not modelled.\<close>

  \<^item> Assembly: \<^verbatim>\<open>bootasm.S\<close>, \<^verbatim>\<open>entry.S\<close>, \<^verbatim>\<open>entryother.S\<close>, \<^verbatim>\<open>swtch.S\<close>, \<^verbatim>\<open>trapasm.S\<close>, \<^verbatim>\<open>initcode.S\<close>, \<^verbatim>\<open>usys.S\<close>, \<^verbatim>\<open>crt0.S\<close>. They change machine
    registers that the C code does not name; the scheduler is modelled up to the switch of contexts.
  \<^item> Boot and set-up of the hardware: \<^verbatim>\<open>bootmain.c\<close>, \<^verbatim>\<open>main.c\<close>, \<^verbatim>\<open>mp.c\<close>, \<^verbatim>\<open>ioapic.c\<close>, \<^verbatim>\<open>picirq.c\<close> and \<^verbatim>\<open>lapic.c\<close> but for its clock. They are
    sequences of writes to device registers and of calls, whose effect is that of the hardware.
  \<^item> The programs of \<^verbatim>\<open>bin\<close> other than the shell, the games, and the small parts of the library that only print or call the system
    (\<^verbatim>\<open>err.c\<close>, \<^verbatim>\<open>progname.c\<close>, \<^verbatim>\<open>uname.c\<close>, \<^verbatim>\<open>dirent.c\<close>, \<^verbatim>\<open>pledge.c\<close>): they consist of system calls and output.
  \<^item> Timing: delays, busy waits for a device, and the order in which a scheduler on several processors picks processes.
\<close>

section \<open>Properties across components\<close>



end
